(* ===== verification/Prelude.thy ===== *)
theory Prelude
  imports Main "HOL-Library.Word" "HOL-Library.Multiset" "HOL-Library.Sublist"
begin

text \<open>
  Shared vocabulary of the development: bytes and C strings, the machine
  integers of the LP64 target (\<^verbatim>\<open>int\<close> 32 bits, \<^verbatim>\<open>long\<close> and \<^verbatim>\<open>long long\<close> 64 bits),
  the faults a C program can run into, and the generic lemmas the components
  share.

  A C \<^verbatim>\<open>char\<close> is a HOL \<open>char\<close> (a byte); \<open>byte\<close> reads it as a \<^verbatim>\<open>uint8_t\<close>.
  A NUL-terminated string is the list of the characters before the NUL;
  \<open>cget\<close> reads it the way C does, terminator included.
\<close>

unbundle bit_operations_syntax

subsection \<open>Names of types\<close>

type_synonym u8 = "8 word"
type_synonym u32 = "32 word"
type_synonym u64 = "64 word"

text \<open>
  What goes wrong at run time. Allocation failure is not among them:
  \<^verbatim>\<open>rr_malloc\<close>, \<^verbatim>\<open>rr_calloc\<close> and \<^verbatim>\<open>rr_realloc\<close> call the out-of-memory handler, which
  aborts, so an allocation that returns returns memory. \<open>Exited\<close> is no error: it is the end
  of the process by \<^verbatim>\<open>exit\<close>, after which nothing of the program runs either.
\<close>

datatype fault = NullDeref | AssertFail | OutOfBounds | Uninit | BadPointer | UseAfterFree | StackOverflow
  | DivByZero | Exited

type_synonym 'a result = "fault + 'a"

subsection \<open>Collections of rules\<close>

named_theorems cstring_simps \<open>reading C strings\<close>
named_theorems fault_simps \<open>stepping through computations that may fault\<close>

subsection \<open>Computations that may fault\<close>

definition rbind :: "'a result \<Rightarrow> ('a \<Rightarrow> 'b result) \<Rightarrow> 'b result" where
  "rbind m f = (case m of Inl e \<Rightarrow> Inl e | Inr x \<Rightarrow> f x)"

lemma rbind_simps [simp, fault_simps]:
  "rbind (Inl e) f = Inl e"
  "rbind (Inr x) f = f x"
  by (simp_all add: rbind_def)

lemma rbind_cong [fundef_cong]:
  "m = m' \<Longrightarrow> (\<And>x. m' = Inr x \<Longrightarrow> f x = g x) \<Longrightarrow> rbind m f = rbind m' g"
  by (cases m') auto

lemma rbind_eq_Inr [simp]: "rbind m f = Inr y \<longleftrightarrow> (\<exists>x. m = Inr x \<and> f x = Inr y)"
  by (cases m) auto

lemma rbind_assoc: "rbind (rbind m f) g = rbind m (\<lambda>x. rbind (f x) g)"
  by (cases m) auto

subsection \<open>Machine integers read as naturals\<close>

text \<open>
  An \<^verbatim>\<open>unsigned long\<close> or \<^verbatim>\<open>size_t\<close> that counts things in memory is a \<open>nat\<close>; the
  operations that can leave the 64-bit range are written with their wrap-around.
  \<open>int32\<close> is the conversion \<^verbatim>\<open>(int)\<close> of an \<^verbatim>\<open>unsigned long\<close>.
\<close>

definition add64 :: "nat \<Rightarrow> nat \<Rightarrow> nat" where
  "add64 a b = (a + b) mod 2 ^ 64"

definition sub64 :: "nat \<Rightarrow> nat \<Rightarrow> nat" where
  "sub64 a b = nat ((int a - int b) mod 2 ^ 64)"

definition mul64 :: "nat \<Rightarrow> nat \<Rightarrow> nat" where
  "mul64 a b = a * b mod 2 ^ 64"

definition int32 :: "nat \<Rightarrow> int" where
  "int32 n = signed_take_bit 31 (int n)"

lemma add64_small [simp]: "a + b < 2 ^ 64 \<Longrightarrow> add64 a b = a + b"
  by (simp add: add64_def)

lemma sub64_small [simp]: "b \<le> a \<Longrightarrow> a < 2 ^ 64 \<Longrightarrow> sub64 a b = a - b"
  by (simp add: sub64_def flip: of_nat_diff)

lemma mul64_small [simp]: "a * b < 2 ^ 64 \<Longrightarrow> mul64 a b = a * b"
  by (simp add: mul64_def)

lemma int32_small [simp]: "n < 2 ^ 31 \<Longrightarrow> int32 n = int n"
  unfolding int32_def by (rule signed_take_bit_int_eq_self) auto

subsection \<open>Characters and C strings\<close>

abbreviation NUL :: char where "NUL \<equiv> CHR 0x00"
abbreviation CR :: char where "CR \<equiv> CHR 0x0D"
abbreviation LF :: char where "LF \<equiv> CHR 0x0A"
abbreviation HTAB :: char where "HTAB \<equiv> CHR 0x09"
abbreviation DQUOTE :: char where "DQUOTE \<equiv> CHR 0x22"
abbreviation SQUOTE :: char where "SQUOTE \<equiv> CHR 0x27"
abbreviation BSLASH :: char where "BSLASH \<equiv> CHR 0x5C"

definition byte :: "char \<Rightarrow> u8" where
  "byte c = of_char c"

definition cget :: "string \<Rightarrow> nat \<Rightarrow> char" where
  "cget s i = (if i < length s then s ! i else NUL)"

definition nul_free :: "string \<Rightarrow> bool" where
  "nul_free s \<longleftrightarrow> NUL \<notin> set s"

text \<open>The C string at the start of a byte buffer: what \<^verbatim>\<open>strlen\<close> and \<^verbatim>\<open>strcmp\<close> see.\<close>

definition cstr :: "string \<Rightarrow> string" where
  "cstr s = takeWhile (\<lambda>c. c \<noteq> NUL) s"

lemma unat_byte: "unat (byte c) = of_char c"
proof -
  have "byte c = of_nat (of_char c)"
    by (simp add: byte_def of_nat_of_char)
  moreover have "(of_char c :: nat) < 256"
    using nat_of_char_less_256 by simp
  ultimately show ?thesis
    by (simp add: unat_of_nat)
qed

lemma byte_inject [simp]: "byte a = byte b \<longleftrightarrow> a = b"
proof
  assume "byte a = byte b"
  then have "(of_char a :: nat) = of_char b"
    by (metis unat_byte)
  then show "a = b" by simp
qed simp

lemma byte_NUL [simp]: "byte NUL = 0"
  by (simp add: byte_def)

lemma byte_eq_0 [simp]: "byte c = 0 \<longleftrightarrow> c = NUL"
  using byte_inject [of c NUL] by (simp only: byte_NUL)

lemma cget_lt [cstring_simps]: "i < length s \<Longrightarrow> cget s i = s ! i"
  by (simp add: cget_def)

lemma cget_ge [cstring_simps]: "length s \<le> i \<Longrightarrow> cget s i = NUL"
  by (simp add: cget_def)

lemma cget_not_NUL_lt: "cget s i \<noteq> NUL \<Longrightarrow> i < length s"
  by (simp add: cget_def split: if_splits)

lemma nul_free_cget: "nul_free s \<Longrightarrow> cget s i = NUL \<longleftrightarrow> length s \<le> i"
  by (auto simp: nul_free_def cget_def in_set_conv_nth not_le)

lemma nul_free_cstr [simp]: "nul_free (cstr s)"
  by (auto simp: nul_free_def cstr_def dest: set_takeWhileD)

lemma cstr_id [simp]: "nul_free s \<Longrightarrow> cstr s = s"
  by (auto simp: nul_free_def cstr_def takeWhile_eq_all_conv)

lemma cstr_idem [simp]: "cstr (cstr s) = cstr s"
  by simp

text \<open>C strings are equal when every read agrees.\<close>

lemma cstring_eqI:
  assumes "nul_free s" and "nul_free t" and "\<And>i. cget s i = cget t i"
  shows "s = t"
proof -
  have "length s = length t"
    using assms nul_free_cget nle_le by metis
  then show ?thesis
    using assms(3) by (metis cget_lt nth_equalityI)
qed

subsection \<open>Words\<close>

lemma word_bit_eqI: "(\<And>i. i < LENGTH('a) \<Longrightarrow> bit (v :: 'a::len word) i = bit w i) \<Longrightarrow> v = w"
  by (rule bit_word_eqI)

lemma drop_bit_and_one: "(drop_bit n (w :: 'a::len word) AND 1 = 1) \<longleftrightarrow> bit w n"
  by (simp add: bit_iff_odd_drop_bit and_one_eq odd_iff_mod_2_eq_one)

lemma xor_eq_0_iff_eq: "(a :: 'a::len word) XOR b = 0 \<longleftrightarrow> a = b"
proof
  assume "a XOR b = 0"
  then have "\<not> bit (a XOR b) n" for n by simp
  then show "a = b"
    by (auto intro: word_bit_eqI simp: bit_xor_iff)
qed simp

lemma bit_drop_bit_1: "bit (drop_bit 1 (w :: 'a::len word)) n = bit w (Suc n)"
  by (simp add: bit_drop_bit_eq)

lemma bit_unat_word: "bit (unat (w :: 'a::len word)) n = bit w n"
  by (auto simp: bit_unsigned_iff dest: bit_imp_le_length)

subsection \<open>Association lists\<close>

lemma not_fst_image: "k \<notin> fst ` S \<Longrightarrow> (k, v) \<notin> S"
  by force

lemma map_of_map_value:
  "map_of (map (\<lambda>(a, v). (a, if a = k then w else v)) xs) x =
   (if x = k \<and> k \<in> fst ` set xs then Some w else map_of xs x)"
proof (induction xs)
  case (Cons kv xs)
  then show ?case by (cases kv; cases "x = k") simp_all
qed simp

lemma map_of_map_upd:
  "k \<in> fst ` set xs \<Longrightarrow> map_of (map (\<lambda>(a, v). (a, if a = k then w else v)) xs) = (map_of xs)(k \<mapsto> w)"
  by (simp add: fun_eq_iff map_of_map_value)

lemma map_of_eq_of_set:
  assumes "distinct (map fst xs)" and "distinct (map fst ys)" and "set xs = set ys"
  shows "map_of xs = map_of ys"
  using assms by (metis map_of_inject_set)

lemma map_of_filter_neq: "map_of (filter (\<lambda>kv. fst kv \<noteq> key) xs) = (map_of xs)(key := None)"
  by (induction xs) (auto simp: fun_eq_iff)

lemma length_filter_distinct_key:
  "distinct (map fst xs) \<Longrightarrow> key \<in> fst ` set xs \<Longrightarrow>
   length (filter (\<lambda>kv. fst kv \<noteq> key) xs) = length xs - 1"
proof (induction xs)
  case (Cons x xs)
  show ?case
  proof (cases "fst x = key")
    case True
    with Cons.prems have "filter (\<lambda>kv. fst kv \<noteq> key) xs = xs"
      by (auto simp: filter_id_conv not_fst_image)
    with True show ?thesis by (simp add: case_prod_beta)
  next
    case False
    with Cons show ?thesis
      by (cases xs) (auto simp: case_prod_beta)
  qed
qed simp

subsection \<open>Lists as multisets\<close>

lemma mset_remove_nth: "i < length xs \<Longrightarrow> mset xs - {#xs ! i#} = mset (take i xs @ drop (Suc i) xs)"
  by (subst id_take_nth_drop [of i xs]) simp_all

lemma nth_other_mem:
  assumes "i < length xs" and "j < length xs" and "j \<noteq> i"
  shows "xs ! j \<in># mset xs - {#xs ! i#}"
proof (cases "j < i")
  case True
  then have "take i xs ! j \<in> set (take i xs)" using assms by (intro nth_mem) simp
  with True show ?thesis by (simp add: mset_remove_nth [OF assms(1)])
next
  case False
  then have "drop (Suc i) xs ! (j - Suc i) \<in> set (drop (Suc i) xs)" using assms by (intro nth_mem) simp
  moreover have "drop (Suc i) xs ! (j - Suc i) = xs ! j" using False assms by simp
  ultimately show ?thesis by (simp add: mset_remove_nth [OF assms(1)])
qed

end
