(* ===== verification/Rr_Dict.thy ===== *)
theory Rr_Dict
  imports Prelude
begin

text \<open>
  The dictionary of \<^verbatim>\<open>rr_dict.c\<close>: a crit-bit tree over NUL-terminated keys.

  A \<^verbatim>\<open>struct Dict\<close> is one of three things, told apart by its fields: an empty slot
  (\<^verbatim>\<open>u.n == NULL\<close>), a leaf (\<^verbatim>\<open>v != NULL\<close>, key in \<^verbatim>\<open>u.s\<close>) or an internal node
  (\<^verbatim>\<open>v == NULL\<close>, \<^verbatim>\<open>u.n\<close> points to a \<^verbatim>\<open>struct Node\<close>). Below the root no slot is empty,
  so the tree is a datatype of leaves and internal nodes and the root slot is
  an \<open>option\<close>. Values are never \<^verbatim>\<open>NULL\<close>; a \<^verbatim>\<open>void *\<close> argument that may be is an
  \<open>option\<close>. A call through \<^verbatim>\<open>free_cb\<close> is returned as a pair of the callback and
  the value it is given, for the caller to run on its own store.

  The specification of the module is the finite map \<open>dict_map\<close>: the theory shows
  that lookup, insertion and deletion implement it, that the size field counts
  it, that iteration visits its keys in ascending \<^verbatim>\<open>strcmp\<close> order and what the
  prefix search returns.
\<close>

section \<open>The model\<close>

datatype 'v dnode =
    Leaf string 'v
  | Inner nat nat "'v dnode" "'v dnode"

record ('v, 'c) dict_t =
  dict :: "'v dnode option"
  dsize :: nat
  free_cb :: "'c option"

text \<open>
  \<^verbatim>\<open>(c >> bit_idx) & 1\<close> where \<^verbatim>\<open>c\<close> is the byte of the key at \<^verbatim>\<open>byte_idx\<close>, and 0
  beyond the end of the key.
\<close>

definition direction :: "string \<Rightarrow> nat \<Rightarrow> nat \<Rightarrow> bool" where
  "direction key byte_idx bit_idx \<longleftrightarrow>
     byte_idx < length key \<and> drop_bit bit_idx (byte (key ! byte_idx)) AND 1 = 1"

fun closest :: "'v dnode \<Rightarrow> string \<Rightarrow> string \<times> 'v" where
  "closest (Leaf s v) key = (s, v)"
| "closest (Inner byte_idx bit_idx l r) key =
     closest (if direction key byte_idx bit_idx then r else l) key"

text \<open>
  The loop of \<^verbatim>\<open>get_prefix\<close>: walks to a leaf, remembering in \<^verbatim>\<open>top\<close> the last node
  entered by a byte of the prefix. Returns the leaf's key and \<^verbatim>\<open>top\<close>.
\<close>

fun get_prefix_walk :: "'v dnode \<Rightarrow> 'v dnode \<Rightarrow> string \<Rightarrow> string \<times> 'v dnode" where
  "get_prefix_walk (Leaf s v) topn pfx = (s, topn)"
| "get_prefix_walk (Inner byte_idx bit_idx l r) topn pfx =
     (let c = (if byte_idx < length pfx then byte (pfx ! byte_idx) else 0);
          n = (if drop_bit bit_idx c AND 1 = 1 then r else l)
      in get_prefix_walk n (if c \<noteq> 0 then n else topn) pfx)"

definition get_prefix :: "'v dnode option \<Rightarrow> string \<Rightarrow> 'v dnode option" where
  "get_prefix d pfx =
     (case d of
        None \<Rightarrow> None
      | Some t \<Rightarrow>
          (let (s, topn) = get_prefix_walk t t pfx
           in if take (length pfx) s \<noteq> pfx then None else Some topn))"

definition dict_create :: "('v, 'c) dict_t" where
  "dict_create = \<lparr>dict = None, dsize = 0, free_cb = None\<rparr>"

definition dict_set_freecb :: "('v, 'c) dict_t \<Rightarrow> 'c option \<Rightarrow> ('v, 'c) dict_t" where
  "dict_set_freecb d cb = d\<lparr>free_cb := cb\<rparr>"

definition dict_length :: "('v, 'c) dict_t \<Rightarrow> nat" where
  "dict_length d = dsize d"

definition dict_empty :: "('v, 'c) dict_t \<Rightarrow> bool" where
  "dict_empty d \<longleftrightarrow> dsize d = 0"

definition dict_get :: "('v, 'c) dict_t \<Rightarrow> string \<Rightarrow> 'v option" where
  "dict_get d key =
     (case dict d of
        None \<Rightarrow> None
      | Some t \<Rightarrow> (let (s, v) = closest t key in if key = s then Some v else None))"

definition dict_has_prefix :: "('v, 'c) dict_t \<Rightarrow> string \<Rightarrow> bool" where
  "dict_has_prefix d pfx \<longleftrightarrow> get_prefix (dict d) pfx \<noteq> None"

definition dict_contains :: "('v, 'c) dict_t \<Rightarrow> string \<Rightarrow> bool" where
  "dict_contains d key \<longleftrightarrow> dict_get d key \<noteq> None"

text \<open>The two scanning loops of \<^verbatim>\<open>dict_set\<close>: the first byte where two strings differ
  (none when they are the same string), and the highest set bit of a byte.\<close>

function find_differ :: "string \<Rightarrow> string \<Rightarrow> nat \<Rightarrow> nat option" where
  "find_differ s key byte_idx =
     (if cget s byte_idx = cget key byte_idx
      then if cget key byte_idx = NUL then None else find_differ s key (Suc byte_idx)
      else Some byte_idx)"
  by pat_completeness auto
termination
  by (relation "measure (\<lambda>(s, key, i). length key - i)")
    (auto dest: cget_not_NUL_lt)

function top_bit :: "u8 \<Rightarrow> nat" where
  "top_bit diff = (if drop_bit 1 diff = 0 then 0 else Suc (top_bit (drop_bit 1 diff)))"
  by pat_completeness auto
termination
proof (relation "measure unat")
  fix diff :: u8
  assume "drop_bit 1 diff \<noteq> 0"
  then have "diff \<noteq> 0" by auto
  then have "unat diff > 0" by (simp add: unat_gt_0)
  then show "(drop_bit 1 diff, diff) \<in> measure unat"
    by (simp add: drop_bit_eq_div unat_div)
qed simp

text \<open>The new node in place of the node \<^verbatim>\<open>n\<close>: \<^verbatim>\<open>newn->child[!new_dir] = *n\<close>.\<close>

definition new_node :: "nat \<Rightarrow> nat \<Rightarrow> bool \<Rightarrow> string \<Rightarrow> 'v \<Rightarrow> 'v dnode \<Rightarrow> 'v dnode" where
  "new_node byte_idx bit_idx new_dir key value n =
     (if new_dir then Inner byte_idx bit_idx n (Leaf key value)
      else Inner byte_idx bit_idx (Leaf key value) n)"

text \<open>The insertion loop of \<^verbatim>\<open>dict_set\<close>, with the mutation at the node where it stops.\<close>

fun insert_at :: "'v dnode \<Rightarrow> nat \<Rightarrow> nat \<Rightarrow> bool \<Rightarrow> string \<Rightarrow> 'v \<Rightarrow> 'v dnode" where
  "insert_at (Leaf s v) byte_idx bit_idx new_dir key value =
     new_node byte_idx bit_idx new_dir key value (Leaf s v)"
| "insert_at (Inner nbyte nbit l r) byte_idx bit_idx new_dir key value =
     (if nbyte > byte_idx \<or> nbyte = byte_idx \<and> nbit < bit_idx
      then new_node byte_idx bit_idx new_dir key value (Inner nbyte nbit l r)
      else if direction key nbyte nbit
      then Inner nbyte nbit l (insert_at r byte_idx bit_idx new_dir key value)
      else Inner nbyte nbit (insert_at l byte_idx bit_idx new_dir key value) r)"

text \<open>\<^verbatim>\<open>n->v = value\<close> at the leaf \<^verbatim>\<open>closest\<close> finds.\<close>

fun overwrite :: "'v dnode \<Rightarrow> string \<Rightarrow> 'v \<Rightarrow> 'v dnode" where
  "overwrite (Leaf s v) key value = Leaf s value"
| "overwrite (Inner byte_idx bit_idx l r) key value =
     (if direction key byte_idx bit_idx
      then Inner byte_idx bit_idx l (overwrite r key value)
      else Inner byte_idx bit_idx (overwrite l key value) r)"

definition dict_set ::
  "('v, 'c) dict_t \<Rightarrow> string \<Rightarrow> 'v option \<Rightarrow> ('v, 'c) dict_t \<times> bool \<times> ('c \<times> 'v) list" where
  "dict_set d key valuep =
     (case valuep of
        None \<Rightarrow> (d, False, [])
      | Some value \<Rightarrow>
          (case dict d of
             None \<Rightarrow> (d\<lparr>dict := Some (Leaf key value), dsize := dsize d + 1\<rparr>, True, [])
           | Some t \<Rightarrow>
               (let (s, v) = closest t key in
                case find_differ s key 0 of
                  None \<Rightarrow>
                    (d\<lparr>dict := Some (overwrite t key value)\<rparr>, True,
                     (case free_cb d of None \<Rightarrow> [] | Some cb \<Rightarrow> [(cb, v)]))
                | Some byte_idx \<Rightarrow>
                    (let diff = byte (cget s byte_idx) XOR byte (cget key byte_idx);
                         bit_idx = top_bit diff;
                         new_dir = (drop_bit bit_idx (byte (cget key byte_idx)) AND 1 = 1)
                     in (d\<lparr>dict := Some (insert_at t byte_idx bit_idx new_dir key value),
                            dsize := dsize d + 1\<rparr>, True, [])))))"

text \<open>
  \<^verbatim>\<open>dict_del\<close>: walks to the closest leaf; if its key matches, the sibling replaces
  the parent, or the root becomes empty when there is no parent. \<open>None\<close>: not
  found; otherwise the value and what is left of the subtree.
\<close>

fun del_at :: "'v dnode \<Rightarrow> string \<Rightarrow> ('v \<times> 'v dnode option) option" where
  "del_at (Leaf s v) key = (if key = s then Some (v, None) else None)"
| "del_at (Inner byte_idx bit_idx l r) key =
     (if direction key byte_idx bit_idx
      then (case del_at r key of
              None \<Rightarrow> None
            | Some (v, None) \<Rightarrow> Some (v, Some l)
            | Some (v, Some r') \<Rightarrow> Some (v, Some (Inner byte_idx bit_idx l r')))
      else (case del_at l key of
              None \<Rightarrow> None
            | Some (v, None) \<Rightarrow> Some (v, Some r)
            | Some (v, Some l') \<Rightarrow> Some (v, Some (Inner byte_idx bit_idx l' r))))"

definition dict_del :: "('v, 'c) dict_t \<Rightarrow> string \<Rightarrow> ('v, 'c) dict_t \<times> 'v option" where
  "dict_del d key =
     (case dict d of
        None \<Rightarrow> (d, None)
      | Some t \<Rightarrow>
          (case del_at t key of
             None \<Rightarrow> (d, None)
           | Some (v, t') \<Rightarrow> (d\<lparr>dict := t', dsize := dsize d - 1\<rparr>, Some v)))"

text \<open>\<^verbatim>\<open>iterate\<close>: the handler returns whether to go on, and threads a state.\<close>

fun iterate :: "'v dnode \<Rightarrow> (string \<Rightarrow> 'v \<Rightarrow> 's \<Rightarrow> bool \<times> 's) \<Rightarrow> 's \<Rightarrow> bool \<times> 's" where
  "iterate (Leaf s v) handle data = handle s v data"
| "iterate (Inner byte_idx bit_idx l r) handle data =
     (case iterate l handle data of
        (True, data') \<Rightarrow> iterate r handle data'
      | (False, data') \<Rightarrow> (False, data'))"

definition dict_foreach ::
  "('v, 'c) dict_t \<Rightarrow> (string \<Rightarrow> 'v \<Rightarrow> 's \<Rightarrow> bool \<times> 's) \<Rightarrow> 's \<Rightarrow> 's" where
  "dict_foreach d handle data =
     (case dict d of None \<Rightarrow> data | Some t \<Rightarrow> snd (iterate t handle data))"

fun clear :: "'v dnode \<Rightarrow> 'c option \<Rightarrow> ('c \<times> 'v) list" where
  "clear (Inner byte_idx bit_idx l r) cb = clear l cb @ clear r cb"
| "clear (Leaf s v) cb = (case cb of None \<Rightarrow> [] | Some f \<Rightarrow> [(f, v)])"

definition dict_clear :: "('v, 'c) dict_t \<Rightarrow> ('v, 'c) dict_t \<times> ('c \<times> 'v) list" where
  "dict_clear d =
     (d\<lparr>dict := None, dsize := 0\<rparr>,
      case dict d of None \<Rightarrow> [] | Some t \<Rightarrow> clear t (free_cb d))"

definition dict_free :: "('v, 'c) dict_t option \<Rightarrow> ('c \<times> 'v) list" where
  "dict_free dp = (case dp of None \<Rightarrow> [] | Some d \<Rightarrow> snd (dict_clear d))"

fun copy :: "('v, 'c) dict_t \<Rightarrow> 'v dnode \<Rightarrow> ('v, 'c) dict_t \<times> bool \<times> ('c \<times> 'v) list" where
  "copy dest (Inner byte_idx bit_idx l r) =
     (case copy dest l of
        (dest', True, calls) \<Rightarrow>
          (case copy dest' r of (dest'', ok, calls') \<Rightarrow> (dest'', ok, calls @ calls'))
      | (dest', False, calls) \<Rightarrow> (dest', False, calls))"
| "copy dest (Leaf s v) = dict_set dest s (Some v)"

definition dict_copy ::
  "('v, 'c) dict_t \<Rightarrow> ('v, 'c) dict_t option \<Rightarrow> ('v, 'c) dict_t \<times> bool \<times> ('c \<times> 'v) list" where
  "dict_copy dest srcp =
     (case srcp of
        None \<Rightarrow> (dest, False, [])
      | Some src \<Rightarrow>
          (case dict src of
             None \<Rightarrow> (dest, False, [])
           | Some t \<Rightarrow>
               (case copy dest t of
                  (dest', rv, calls) \<Rightarrow>
                    (dest'\<lparr>dsize := dsize src, free_cb := free_cb src\<rparr>, rv, calls))))"

subsection \<open>Iterators\<close>

text \<open>
  The iterator is a stack of nodes, the top first: a leaf, and below it the
  internal nodes whose right child is still to be visited.
\<close>

type_synonym 'v dict_iterator = "'v dnode list"

fun push_left :: "'v dnode \<Rightarrow> 'v dict_iterator \<Rightarrow> 'v dict_iterator" where
  "push_left (Leaf s v) stack = Leaf s v # stack"
| "push_left (Inner byte_idx bit_idx l r) stack =
     push_left l (Inner byte_idx bit_idx l r # stack)"

text \<open>
  \<^verbatim>\<open>iter_create\<close> on an empty slot with a nonzero size follows \<^verbatim>\<open>node->u.n->child\<close>
  through the \<^verbatim>\<open>NULL\<close> in \<^verbatim>\<open>u.n\<close>.
\<close>

definition iter_create :: "'v dnode option \<Rightarrow> nat \<Rightarrow> 'v dict_iterator result" where
  "iter_create d sz =
     (if sz = 0 then Inr []
      else case d of None \<Rightarrow> Inl NullDeref | Some t \<Rightarrow> Inr (push_left t []))"

definition dict_get_prefix :: "('v, 'c) dict_t \<Rightarrow> string \<Rightarrow> 'v dict_iterator result" where
  "dict_get_prefix d pfx = iter_create (get_prefix (dict d) pfx) (dsize d)"

definition dict_iter_create :: "('v, 'c) dict_t \<Rightarrow> 'v dict_iterator result" where
  "dict_iter_create d = iter_create (dict d) (dsize d)"

definition dict_iter_hasnext :: "'v dict_iterator \<Rightarrow> bool" where
  "dict_iter_hasnext iter \<longleftrightarrow> length iter \<noteq> 0"

definition dict_iter_next ::
  "'v dict_iterator \<Rightarrow> ((string \<times> 'v) \<times> 'v dict_iterator) result" where
  "dict_iter_next iter =
     (case iter of
        [] \<Rightarrow> Inl NullDeref
      | Inner _ _ _ _ # _ \<Rightarrow> Inl AssertFail
      | Leaf s v # stack \<Rightarrow>
          (case stack of
             [] \<Rightarrow> Inr ((s, v), [])
           | Leaf _ _ # _ \<Rightarrow> Inl AssertFail
           | Inner _ _ _ r # stack' \<Rightarrow> Inr ((s, v), push_left r stack')))"

text \<open>
  The loop every client writes: \<^verbatim>\<open>while (dict_iter_hasnext(it)) ... dict_iter_next(it)\<close>.
  \<open>iter_left\<close> counts the leaves still to come.
\<close>

fun leaves :: "'v dnode \<Rightarrow> nat" where
  "leaves (Leaf s v) = 1"
| "leaves (Inner byte_idx bit_idx l r) = leaves l + leaves r"

fun iter_left :: "'v dict_iterator \<Rightarrow> nat" where
  "iter_left [] = 0"
| "iter_left (Leaf s v # stack) = Suc (iter_left stack)"
| "iter_left (Inner byte_idx bit_idx l r # stack) = leaves r + iter_left stack"

lemma iter_left_push_left: "iter_left (push_left t stack) = leaves t + iter_left stack"
  by (induction t arbitrary: stack) auto

lemma iter_left_next:
  "dict_iter_next iter = Inr (kv, iter') \<Longrightarrow> iter_left iter' < iter_left iter"
  by (auto simp: dict_iter_next_def iter_left_push_left split: list.splits dnode.splits)

function iter_collect :: "'v dict_iterator \<Rightarrow> (string \<times> 'v) list result" where
  "iter_collect iter =
     (if dict_iter_hasnext iter
      then case dict_iter_next iter of
             Inl f \<Rightarrow> Inl f
           | Inr (kv, iter') \<Rightarrow>
               (case iter_collect iter' of Inl f \<Rightarrow> Inl f | Inr kvs \<Rightarrow> Inr (kv # kvs))
      else Inr [])"
  by pat_completeness auto
termination
  by (relation "measure iter_left") (auto dest: iter_left_next)

declare find_differ.simps [simp del] top_bit.simps [simp del] iter_collect.simps [simp del]

section \<open>Keys as bit strings\<close>

definition kbit :: "string \<Rightarrow> nat \<Rightarrow> bool" where
  "kbit k p \<longleftrightarrow> bit (byte (cget k (p div 8))) (7 - p mod 8)"

definition pos :: "nat \<Rightarrow> nat \<Rightarrow> nat" where
  "pos byte_idx bit_idx = 8 * byte_idx + (7 - bit_idx)"

definition agree :: "string \<Rightarrow> string \<Rightarrow> nat \<Rightarrow> bool" where
  "agree k k' p \<longleftrightarrow> (\<forall>q<p. kbit k q = kbit k' q)"

lemma pos_div_mod: "i < 8 \<Longrightarrow> pos b i div 8 = b \<and> 7 - pos b i mod 8 = i"
proof -
  assume "i < 8"
  then obtain m where m: "pos b i = m + b * 8" "m < 8" "i = 7 - m"
    by (auto simp: pos_def intro: that [of "7 - i"])
  then show ?thesis
    by (simp add: div_mult_self1 mod_mult_self1)
qed

lemma kbit_pos: "bit_idx < 8 \<Longrightarrow> kbit k (pos byte_idx bit_idx) = bit (byte (cget k byte_idx)) bit_idx"
  by (simp add: kbit_def pos_div_mod)

lemma pos_less_iff:
  "i < 8 \<Longrightarrow> j < 8 \<Longrightarrow> pos b i < pos c j \<longleftrightarrow> b < c \<or> b = c \<and> j < i"
  unfolding pos_def by linarith

lemma direction_kbit:
  assumes "bit_idx < 8"
  shows "direction k byte_idx bit_idx = kbit k (pos byte_idx bit_idx)"
  using assms
  by (simp add: kbit_pos direction_def drop_bit_and_one cget_def)

lemma agree_refl [simp]: "agree k k p"
  by (simp add: agree_def)

lemma agree_sym: "agree k k' p \<Longrightarrow> agree k' k p"
  by (simp add: agree_def)

lemma agree_trans: "agree a b p \<Longrightarrow> agree b c p \<Longrightarrow> agree a c p"
  by (simp add: agree_def)

lemma agree_mono: "agree a b p \<Longrightarrow> q \<le> p \<Longrightarrow> agree a b q"
  by (simp add: agree_def)

lemma agree_bit: "agree a b p \<Longrightarrow> q < p \<Longrightarrow> kbit a q = kbit b q"
  by (simp add: agree_def)

lemma cget_eq_iff_bits: "cget a n = cget b n \<longleftrightarrow> (\<forall>i<8. kbit a (pos n i) = kbit b (pos n i))"
proof -
  have "byte (cget a n) = byte (cget b n)"
    if "\<forall>i<8. kbit a (pos n i) = kbit b (pos n i)"
    by (rule word_bit_eqI) (use that in \<open>simp add: kbit_pos\<close>)
  then show ?thesis by (auto simp: kbit_pos)
qed

lemma agree_bytes: "agree a b (8 * n) \<longleftrightarrow> (\<forall>j<n. cget a j = cget b j)"
proof
  assume *: "agree a b (8 * n)"
  have "pos j i < 8 * n" if "j < n" "i < 8" for i j
    using that unfolding pos_def by linarith
  with * show "\<forall>j<n. cget a j = cget b j"
    by (simp add: cget_eq_iff_bits agree_def)
next
  assume *: "\<forall>j<n. cget a j = cget b j"
  then show "agree a b (8 * n)"
    by (simp add: agree_def kbit_def less_mult_imp_div_less mult.commute)
qed

lemma agree_all_eq: "nul_free a \<Longrightarrow> nul_free b \<Longrightarrow> (\<And>p. agree a b p) \<Longrightarrow> a = b"
  by (rule cstring_eqI) (use agree_bytes lessI in blast)+

lemma agree_prefix:
  assumes "nul_free pfx"
  shows "agree pfx k (8 * length pfx) \<longleftrightarrow> take (length pfx) k = pfx"
proof -
  have "take (length pfx) k = pfx" if *: "\<forall>j<length pfx. cget pfx j = cget k j"
  proof -
    have len: "length pfx \<le> length k"
    proof (rule ccontr)
      assume "\<not> ?thesis"
      then have "length k < length pfx" by simp
      with * have "cget pfx (length k) = NUL"
        by (simp add: cget_ge)
      with \<open>length k < length pfx\<close> show False
        using nul_free_cget [OF assms] by fastforce
    qed
    have "pfx ! j = k ! j" if "j < length pfx" for j
      using * that len by (auto simp: cget_def)
    with len show ?thesis
      by (auto intro: nth_equalityI)
  qed
  moreover have "cget pfx j = cget k j" if "take (length pfx) k = pfx" "j < length pfx" for j
    using that by (metis cget_lt length_take min_less_iff_conj nth_take)
  ultimately show ?thesis
    by (auto simp: agree_bytes)
qed

subsection \<open>The scanning loops of \<^verbatim>\<open>dict_set\<close>\<close>

lemma find_differ_Some:
  "find_differ s key i = Some j \<Longrightarrow>
   i \<le> j \<and> cget s j \<noteq> cget key j \<and> (\<forall>m. i \<le> m \<and> m < j \<longrightarrow> cget s m = cget key m)"
proof (induction s key i rule: find_differ.induct)
  case (1 s key i)
  show ?case
  proof (cases "cget s i = cget key i")
    case True
    with 1 have "cget key i \<noteq> NUL" and "find_differ s key (Suc i) = Some j"
      by (auto simp: find_differ.simps [of s key i] split: if_splits)
    with 1 True show ?thesis
      by (metis Suc_leD Suc_leI le_neq_implies_less)
  next
    case False
    with 1 show ?thesis
      by (auto simp: find_differ.simps [of s key i])
  qed
qed

lemma find_differ_None:
  "find_differ s key i = None \<Longrightarrow>
   \<exists>j\<ge>i. cget s j = NUL \<and> cget key j = NUL \<and> (\<forall>m. i \<le> m \<and> m < j \<longrightarrow> cget s m = cget key m)"
proof (induction s key i rule: find_differ.induct)
  case (1 s key i)
  then have eq: "cget s i = cget key i"
    by (auto simp: find_differ.simps [of s key i] split: if_splits)
  show ?case
  proof (cases "cget key i = NUL")
    case True
    with eq show ?thesis by (intro exI [of _ i]) auto
  next
    case False
    with 1 eq obtain j where "j \<ge> Suc i" "cget s j = NUL" "cget key j = NUL"
      "\<forall>m. Suc i \<le> m \<and> m < j \<longrightarrow> cget s m = cget key m"
      by (auto simp: find_differ.simps [of s key i])
    with eq show ?thesis
      by (intro exI [of _ j]) (metis Suc_leD Suc_leI le_neq_implies_less)
  qed
qed

lemma find_differ_same:
  assumes "nul_free s" and "nul_free key"
  shows "find_differ s key 0 = None \<longleftrightarrow> s = key"
proof
  assume "find_differ s key 0 = None"
  then obtain j where j: "length s \<le> j" "length key \<le> j" "\<forall>m<j. cget s m = cget key m"
    using find_differ_None [of s key 0] assms by (auto simp: nul_free_cget)
  have "cget s m = cget key m" for m
    using j by (cases "m < j") (auto simp: cget_ge)
  with assms show "s = key"
    by (blast intro: cstring_eqI)
next
  assume "s = key"
  then show "find_differ s key 0 = None"
    using find_differ_Some [of s key 0] by (cases "find_differ s key 0") auto
qed

lemma top_bit_spec:
  "w \<noteq> 0 \<Longrightarrow> bit w (top_bit w) \<and> (\<forall>j. top_bit w < j \<longrightarrow> \<not> bit w j)"
proof (induction w rule: top_bit.induct)
  case (1 w)
  show ?case
  proof (cases "drop_bit 1 w = 0")
    case True
    then have high: "\<not> bit w j" if "0 < j" for j
      using that bit_drop_bit_1 [of w "j - 1"] by simp
    then have "bit w 0"
      using 1(2) word_bit_eqI [of w 0] by (metis bit_0_eq bot_apply bot_bool_def gr0I)
    with high True show ?thesis
      by (simp add: top_bit.simps [of w])
  next
    case False
    have "\<not> bit w j" if "Suc (top_bit (drop_bit 1 w)) < j" for j
      using that 1(1) [OF False False] bit_drop_bit_1 [of w "j - 1"] by (cases j) auto
    moreover have "bit w (Suc (top_bit (drop_bit 1 w)))"
      using 1(1) [OF False False] by (simp only: bit_drop_bit_1)
    ultimately show ?thesis
      using False by (simp add: top_bit.simps [of w])
  qed
qed

lemma top_bit_less: "w \<noteq> 0 \<Longrightarrow> top_bit w < 8"
  using top_bit_spec [of w] bit_imp_le_length [of w "top_bit w"] by simp

text \<open>Where \<^verbatim>\<open>dict_set\<close> cuts: the first bit in which the two keys differ.\<close>

lemma critical_bit:
  assumes "find_differ s key 0 = Some byte_idx"
    and "bit_idx = top_bit (byte (cget s byte_idx) XOR byte (cget key byte_idx))"
  shows "bit_idx < 8" and "agree s key (pos byte_idx bit_idx)"
    and "kbit s (pos byte_idx bit_idx) \<noteq> kbit key (pos byte_idx bit_idx)"
proof -
  let ?d = "byte (cget s byte_idx) XOR byte (cget key byte_idx)"
  have differ: "cget s byte_idx \<noteq> cget key byte_idx"
    and same: "\<forall>m<byte_idx. cget s m = cget key m"
    using find_differ_Some [OF assms(1)] by auto
  then have "?d \<noteq> 0" by (simp add: xor_eq_0_iff_eq)
  with assms(2) show lt: "bit_idx < 8"
    using top_bit_less by simp
  have top: "bit ?d bit_idx" "\<And>j. bit_idx < j \<Longrightarrow> \<not> bit ?d j"
    using top_bit_spec [OF \<open>?d \<noteq> 0\<close>] assms(2) by auto
  from top(1) lt show "kbit s (pos byte_idx bit_idx) \<noteq> kbit key (pos byte_idx bit_idx)"
    by (simp add: kbit_pos bit_xor_iff)
  have "kbit s q = kbit key q" if q: "q < pos byte_idx bit_idx" for q
  proof (cases "q < 8 * byte_idx")
    case True
    then show ?thesis
      using same by (auto simp: kbit_def less_mult_imp_div_less mult.commute)
  next
    case False
    with q obtain m where "q = m + byte_idx * 8" "m < 7 - bit_idx"
      unfolding pos_def by (auto simp: not_less dest!: le_Suc_ex intro: that)
    then have "q div 8 = byte_idx" and "bit_idx < 7 - q mod 8"
      by auto
    with top(2) [of "7 - q mod 8"] show ?thesis
      by (simp add: kbit_def bit_xor_iff)
  qed
  then show "agree s key (pos byte_idx bit_idx)"
    by (simp add: agree_def)
qed

section \<open>The invariant and the abstract map\<close>

fun entries :: "'v dnode \<Rightarrow> (string \<times> 'v) list" where
  "entries (Leaf s v) = [(s, v)]"
| "entries (Inner byte_idx bit_idx l r) = entries l @ entries r"

definition keys :: "'v dnode \<Rightarrow> string set" where
  "keys t = fst ` set (entries t)"

lemma keys_simps [simp]:
  "keys (Leaf s v) = {s}"
  "keys (Inner byte_idx bit_idx l r) = keys l \<union> keys r"
  by (auto simp: keys_def)

text \<open>
  The crit-bit invariant: the keys below a node agree on every bit before the
  node's position, and at the position those on the left have 0 and those on
  the right have 1.
\<close>

fun crit :: "'v dnode \<Rightarrow> bool" where
  "crit (Leaf s v) \<longleftrightarrow> nul_free s"
| "crit (Inner byte_idx bit_idx l r) \<longleftrightarrow>
     bit_idx < 8 \<and> crit l \<and> crit r \<and>
     (\<forall>k\<in>keys l. \<not> kbit k (pos byte_idx bit_idx)) \<and>
     (\<forall>k\<in>keys r. kbit k (pos byte_idx bit_idx)) \<and>
     (\<forall>k\<in>keys l \<union> keys r. \<forall>k'\<in>keys l \<union> keys r. agree k k' (pos byte_idx bit_idx))"

definition slot_entries :: "'v dnode option \<Rightarrow> (string \<times> 'v) list" where
  "slot_entries d = (case d of None \<Rightarrow> [] | Some t \<Rightarrow> entries t)"

definition dict_entries :: "('v, 'c) dict_t \<Rightarrow> (string \<times> 'v) list" where
  "dict_entries d = slot_entries (dict d)"

definition dict_map :: "('v, 'c) dict_t \<Rightarrow> string \<Rightarrow> 'v option" where
  "dict_map d = map_of (dict_entries d)"

definition dict_wf :: "('v, 'c) dict_t \<Rightarrow> bool" where
  "dict_wf d \<longleftrightarrow> (case dict d of None \<Rightarrow> True | Some t \<Rightarrow> crit t) \<and>
                 dsize d = length (dict_entries d)"

lemma entries_nonempty [simp]: "entries t \<noteq> []"
  by (induction t) auto

lemma crit_nul_free: "crit t \<Longrightarrow> k \<in> keys t \<Longrightarrow> nul_free k"
  by (induction t) auto

lemma closest_in_entries: "closest t key \<in> set (entries t)"
  by (induction t key rule: closest.induct) auto

lemma closest_in_keys [simp]: "fst (closest t key) \<in> keys t"
  using closest_in_entries [of t key] by (simp add: keys_def)

text \<open>The leaf \<^verbatim>\<open>closest\<close> finds shares at least as long a prefix with the key as any other.\<close>

lemma closest_maximal:
  "crit t \<Longrightarrow> k \<in> keys t \<Longrightarrow> agree key k p \<Longrightarrow> agree key (fst (closest t key)) p"
proof (induction t)
  case (Leaf s v)
  then show ?case by simp
next
  case (Inner byte_idx bit_idx l r)
  let ?q = "pos byte_idx bit_idx"
  define n where "n = (if direction key byte_idx bit_idx then r else l)"
  define s where "s = fst (closest n key)"
  have eq: "fst (closest (Inner byte_idx bit_idx l r) key) = s"
    by (simp add: s_def n_def)
  have dir: "direction key byte_idx bit_idx = kbit key ?q"
    using Inner.prems by (simp add: direction_kbit)
  show ?case
  proof (cases "k \<in> keys n")
    case True
    with Inner show ?thesis
      unfolding eq s_def n_def by (auto split: if_splits)
  next
    case False
    then have "kbit k ?q \<noteq> kbit key ?q"
      using Inner.prems dir by (auto simp: n_def split: if_splits)
    with Inner.prems(3) have "p \<le> ?q"
      using agree_bit not_le by blast
    moreover have "s \<in> keys l \<union> keys r"
      using closest_in_keys [of n key] unfolding s_def by (auto simp: n_def split: if_splits)
    then have "agree k s ?q"
      using Inner.prems(1,2) by auto
    ultimately have "agree k s p"
      using agree_mono by blast
    with Inner.prems(3) show ?thesis
      unfolding eq by (rule agree_trans)
  qed
qed

lemma closest_key_iff:
  assumes "crit t" and "nul_free key"
  shows "fst (closest t key) = key \<longleftrightarrow> key \<in> keys t"
proof
  assume "key \<in> keys t"
  then have "agree key (fst (closest t key)) p" for p
    using closest_maximal [OF assms(1)] by simp
  then show "fst (closest t key) = key"
    using agree_all_eq [of key "fst (closest t key)"] assms crit_nul_free by (metis closest_in_keys)
qed (metis closest_in_keys)

section \<open>Order of the keys\<close>

definition key_less :: "string \<Rightarrow> string \<Rightarrow> bool" where
  "key_less a b \<longleftrightarrow> (\<exists>p. agree a b p \<and> \<not> kbit a p \<and> kbit b p)"

lemma key_less_irrefl: "\<not> key_less a a"
  by (simp add: key_less_def)

lemma crit_sorted: "crit t \<Longrightarrow> sorted_wrt key_less (map fst (entries t))"
proof (induction t)
  case (Inner byte_idx bit_idx l r)
  have "key_less a b" if "a \<in> keys l" "b \<in> keys r" for a b
    unfolding key_less_def using Inner.prems that
    by (intro exI [of _ "pos byte_idx bit_idx"]) auto
  with Inner show ?case
    by (auto simp: sorted_wrt_append keys_def)
qed simp

lemma sorted_key_less_distinct: "sorted_wrt key_less ks \<Longrightarrow> distinct ks"
  by (induction ks) (auto simp: key_less_irrefl)

lemma crit_distinct: "crit t \<Longrightarrow> distinct (map fst (entries t))"
  by (intro sorted_key_less_distinct crit_sorted)

section \<open>Lookup\<close>

lemma map_of_closest:
  assumes "crit t" and "nul_free key"
  shows "map_of (entries t) key = (if fst (closest t key) = key then Some (snd (closest t key)) else None)"
proof (cases "key \<in> keys t")
  case True
  then have "fst (closest t key) = key"
    using closest_key_iff [OF assms] by simp
  moreover from this have "(key, snd (closest t key)) \<in> set (entries t)"
    using closest_in_entries [of t key] by (metis prod.collapse)
  ultimately show ?thesis
    using crit_distinct [OF assms(1)] by simp
next
  case False
  then show ?thesis
    using closest_key_iff [OF assms] by (simp add: map_of_eq_None_iff keys_def)
qed

lemma dict_get_map:
  assumes "dict_wf d" and "nul_free key"
  shows "dict_get d key = dict_map d key"
  using assms
  by (auto simp: dict_get_def dict_map_def dict_wf_def dict_entries_def slot_entries_def map_of_closest
      split: option.splits prod.splits)

section \<open>Insertion\<close>

lemma entries_new_node:
  "entries (new_node byte_idx bit_idx new_dir key value n) =
   (if new_dir then entries n @ [(key, value)] else (key, value) # entries n)"
  by (simp add: new_node_def)

lemma set_entries_insert_at:
  "set (entries (insert_at t byte_idx bit_idx new_dir key value)) = insert (key, value) (set (entries t))"
  by (induction t) (auto simp: entries_new_node)

lemma keys_insert_at [simp]:
  "keys (insert_at t byte_idx bit_idx new_dir key value) = insert key (keys t)"
  by (simp add: keys_def set_entries_insert_at)

lemma length_entries_insert_at:
  "length (entries (insert_at t byte_idx bit_idx new_dir key value)) = Suc (length (entries t))"
  by (induction t) (auto simp: entries_new_node)

lemma crit_new_node:
  assumes "crit n" and "nul_free key" and "bit_idx < 8"
    and "\<forall>k\<in>keys n. agree k key (pos byte_idx bit_idx)"
    and "\<forall>k\<in>keys n. kbit k (pos byte_idx bit_idx) \<noteq> kbit key (pos byte_idx bit_idx)"
  shows "crit (new_node byte_idx bit_idx (kbit key (pos byte_idx bit_idx)) key value n)"
proof -
  have "agree k k' (pos byte_idx bit_idx)" if "k \<in> keys n" "k' \<in> keys n" for k k'
    using assms(4) that agree_trans agree_sym by blast
  with assms show ?thesis
    by (auto simp: new_node_def dest: agree_sym)
qed

lemma crit_insert_at:
  assumes "crit t" and "nul_free key" and "bit_idx < 8"
    and "agree (fst (closest t key)) key (pos byte_idx bit_idx)"
    and "kbit (fst (closest t key)) (pos byte_idx bit_idx) \<noteq> kbit key (pos byte_idx bit_idx)"
  shows "crit (insert_at t byte_idx bit_idx (kbit key (pos byte_idx bit_idx)) key value)"
  using assms
proof (induction t)
  case (Leaf s v)
  then show ?case by (simp add: crit_new_node)
next
  case (Inner nbyte nbit l r)
  let ?p = "pos byte_idx bit_idx" and ?q = "pos nbyte nbit"
  let ?s = "fst (closest (Inner nbyte nbit l r) key)"
  have s_in: "?s \<in> keys l \<union> keys r"
    using closest_in_keys [of "Inner nbyte nbit l r" key] by auto
  have ag: "agree k k' ?q" if "k \<in> keys l \<union> keys r" "k' \<in> keys l \<union> keys r" for k k'
    using Inner.prems(1) that by simp
  have dir: "direction key nbyte nbit = kbit key ?q"
    using Inner.prems by (simp add: direction_kbit)
  have cond: "nbyte > byte_idx \<or> nbyte = byte_idx \<and> nbit < bit_idx \<longleftrightarrow> ?p < ?q"
    using Inner.prems by (auto simp: pos_less_iff)
  show ?case
  proof (cases "?p < ?q")
    case True
    have "agree k key ?p \<and> kbit k ?p \<noteq> kbit key ?p" if "k \<in> keys l \<union> keys r" for k
      using ag [OF that s_in] True Inner.prems(4,5) agree_mono agree_trans agree_bit
      by (metis less_imp_le)
    then have "crit (new_node byte_idx bit_idx (kbit key ?p) key value (Inner nbyte nbit l r))"
      using Inner.prems by (intro crit_new_node) auto
    with True cond show ?thesis by simp
  next
    case False
    have "kbit ?s ?q = kbit key ?q"
      using Inner.prems(1) dir by (auto split: if_splits)
    with Inner.prems(5) False have "?q < ?p"
      by (metis linorder_neqE_nat)
    then have "agree ?s key ?q"
      using Inner.prems(4) agree_mono less_imp_le by blast
    then have key_ag: "agree k key ?q" if "k \<in> keys l \<union> keys r" for k
      using ag [OF that s_in] agree_trans by blast
    show ?thesis
      using Inner cond False dir key_ag
      by (auto simp: set_entries_insert_at dest: agree_sym)
  qed
qed

lemma key_not_in_sibling:
  assumes "crit (Inner byte_idx bit_idx l r)" and "k \<in> keys l \<union> keys r"
  shows "k \<in> keys r \<longleftrightarrow> direction k byte_idx bit_idx"
    and "k \<in> keys l \<longleftrightarrow> \<not> direction k byte_idx bit_idx"
  using assms by (auto simp: direction_kbit)

lemma entries_overwrite:
  "crit t \<Longrightarrow> key \<in> keys t \<Longrightarrow>
   entries (overwrite t key value) = map (\<lambda>(k, v). (k, if k = key then value else v)) (entries t)"
proof (induction t)
  case (Inner byte_idx bit_idx l r)
  have id: "map (\<lambda>(k, v). (k, if k = key then value else v)) (entries n) = entries n"
    if "key \<notin> keys n" for n :: "'a dnode"
    using that by (intro map_idI) (auto simp: keys_def not_fst_image)
  from Inner.prems have "key \<in> keys l \<union> keys r" by simp
  note sib = key_not_in_sibling [OF Inner.prems(1) this]
  show ?case
  proof (cases "direction key byte_idx bit_idx")
    case True
    with Inner sib show ?thesis by (simp add: id)
  next
    case False
    with Inner sib show ?thesis by (simp add: id)
  qed
qed simp

lemma keys_overwrite: "crit t \<Longrightarrow> key \<in> keys t \<Longrightarrow> keys (overwrite t key value) = keys t"
  by (auto simp: keys_def entries_overwrite image_image split: prod.splits)
    (force+)?

lemma crit_overwrite: "crit t \<Longrightarrow> key \<in> keys t \<Longrightarrow> crit (overwrite t key value)"
proof (induction t)
  case (Inner byte_idx bit_idx l r)
  from Inner.prems have "key \<in> keys l \<union> keys r" by simp
  note sib = key_not_in_sibling [OF Inner.prems(1) this]
  with Inner show ?case
    by (cases "direction key byte_idx bit_idx") (auto simp: keys_overwrite)
qed simp

lemma map_of_insert_at:
  assumes "crit t" and "crit (insert_at t byte_idx bit_idx new_dir key value)" and "key \<notin> keys t"
  shows "map_of (entries (insert_at t byte_idx bit_idx new_dir key value)) = (map_of (entries t))(key \<mapsto> value)"
proof -
  have "map_of (entries (insert_at t byte_idx bit_idx new_dir key value)) =
        map_of ((key, value) # entries t)"
    using assms by (intro map_of_eq_of_set) (auto simp: crit_distinct set_entries_insert_at keys_def)
  then show ?thesis by simp
qed

definition freed :: "('v, 'c) dict_t \<Rightarrow> string \<Rightarrow> ('c \<times> 'v) list" where
  "freed d key = (case (free_cb d, dict_map d key) of (Some cb, Some v) \<Rightarrow> [(cb, v)] | _ \<Rightarrow> [])"

lemma dict_set_spec:
  assumes "dict_wf d" and "nul_free key"
  obtains d' where "dict_set d key (Some value) = (d', True, freed d key)"
    and "dict_wf d'" and "dict_map d' = (dict_map d)(key \<mapsto> value)" and "free_cb d' = free_cb d"
proof (cases "dict d")
  case None
  with assms show thesis
    by (intro that [of "d\<lparr>dict := Some (Leaf key value), dsize := dsize d + 1\<rparr>"])
      (auto simp: dict_set_def freed_def dict_map_def dict_entries_def slot_entries_def dict_wf_def
        split: option.splits)
next
  case (Some t)
  with assms have crit: "crit t" and size: "dsize d = length (entries t)"
    by (auto simp: dict_wf_def dict_entries_def slot_entries_def)
  obtain s v where sv: "closest t key = (s, v)" by fastforce
  have nf: "nul_free s"
    using crit_nul_free [OF crit closest_in_keys [of t key]] sv by simp
  have map: "dict_map d = map_of (entries t)"
    by (simp add: dict_map_def dict_entries_def slot_entries_def Some)
  have mapkey: "dict_map d key = (if s = key then Some v else None)"
    using map_of_closest [OF crit assms(2)] by (simp add: map sv)
  show thesis
  proof (cases "s = key")
    case True
    then have key: "key \<in> keys t"
      using closest_in_keys [of t key] sv by simp
    have "dict_set d key (Some value) = (d\<lparr>dict := Some (overwrite t key value)\<rparr>, True, freed d key)"
      using True find_differ_same [OF nf assms(2)]
      by (auto simp: dict_set_def Some sv freed_def mapkey split: option.splits)
    then show thesis
      using crit key size
      by (intro that [of "d\<lparr>dict := Some (overwrite t key value)\<rparr>"])
        (auto simp: dict_wf_def dict_map_def dict_entries_def slot_entries_def crit_overwrite
          entries_overwrite map_of_map_upd keys_def Some)
  next
    case False
    then obtain b where b: "find_differ s key 0 = Some b"
      using find_differ_same [OF nf assms(2)] by auto
    define i where "i = top_bit (byte (cget s b) XOR byte (cget key b))"
    note cb = critical_bit [OF b i_def]
    let ?t' = "insert_at t b i (kbit key (pos b i)) key value"
    have "drop_bit i (byte (cget key b)) AND 1 = 1 \<longleftrightarrow> kbit key (pos b i)"
      using cb(1) by (simp add: drop_bit_and_one kbit_pos)
    then have eq: "dict_set d key (Some value) =
        (d\<lparr>dict := Some ?t', dsize := dsize d + 1\<rparr>, True, freed d key)"
      using False by (auto simp: dict_set_def Some sv b i_def Let_def freed_def mapkey split: option.splits)
    have crit': "crit ?t'"
      using crit_insert_at [OF crit assms(2) cb(1)] cb(2,3) sv by simp
    have key: "key \<notin> keys t"
      using closest_key_iff [OF crit assms(2)] False sv by simp
    show thesis
      using eq crit' size
      by (intro that [of "d\<lparr>dict := Some ?t', dsize := dsize d + 1\<rparr>"]) (auto simp: dict_wf_def dict_map_def dict_entries_def slot_entries_def Some
          length_entries_insert_at map_of_insert_at [OF crit crit' key])
  qed
qed

section \<open>Deletion\<close>

lemma del_at_None: "del_at t key = None \<longleftrightarrow> fst (closest t key) \<noteq> key"
  by (induction t) (auto split: option.splits)

lemma entries_del_at:
  "crit t \<Longrightarrow> nul_free key \<Longrightarrow> del_at t key = Some (v, t') \<Longrightarrow>
   slot_entries t' = filter (\<lambda>kv. fst kv \<noteq> key) (entries t) \<and> map_of (entries t) key = Some v"
proof (induction t arbitrary: v t')
  case (Leaf s w)
  then show ?case by (auto simp: slot_entries_def split: if_splits)
next
  case (Inner byte_idx bit_idx l r)
  have "fst (closest (Inner byte_idx bit_idx l r) key) = key"
    using Inner.prems(3) del_at_None by (metis option.distinct(1))
  then have "key \<in> keys l \<union> keys r"
    using closest_key_iff [OF Inner.prems(1,2)] by simp
  note sib = key_not_in_sibling [OF Inner.prems(1) this]
  have id: "filter (\<lambda>kv. fst kv \<noteq> key) (entries n) = entries n"
    and none: "map_of (entries n) key = None"
    if "key \<notin> keys n" for n :: "'a dnode"
    using that by (auto simp: keys_def map_of_eq_None_iff filter_id_conv not_fst_image)
  show ?case
  proof (cases "direction key byte_idx bit_idx")
    case True
    with Inner sib show ?thesis
      by (auto simp: id none slot_entries_def map_add_def split: option.splits prod.splits)
  next
    case False
    with Inner sib show ?thesis
      by (auto simp: id none slot_entries_def map_add_def split: option.splits prod.splits)
  qed
qed

lemma crit_sub:
  assumes "crit (Inner byte_idx bit_idx l r)" and "crit l'" and "crit r'"
    and "keys l' \<subseteq> keys l" and "keys r' \<subseteq> keys r"
  shows "crit (Inner byte_idx bit_idx l' r')"
proof -
  have "keys l' \<union> keys r' \<subseteq> keys l \<union> keys r"
    using assms(4,5) by blast
  with assms show ?thesis
    unfolding crit.simps by blast
qed

lemma keys_del_at:
  "crit t \<Longrightarrow> nul_free key \<Longrightarrow> del_at t key = Some (v, Some t') \<Longrightarrow> keys t' \<subseteq> keys t"
  using entries_del_at [of t key v "Some t'"] by (auto simp: slot_entries_def keys_def)

lemma crit_del_at:
  "crit t \<Longrightarrow> nul_free key \<Longrightarrow> del_at t key = Some (v, Some t') \<Longrightarrow> crit t'"
proof (induction t arbitrary: t')
  case (Leaf s w)
  then show ?case by (auto split: if_splits)
next
  case (Inner byte_idx bit_idx l r)
  from Inner.prems(1) have lr: "crit l" "crit r" by auto
  define n where "n = (if direction key byte_idx bit_idx then r else l)"
  from Inner.prems(3) obtain n' where n': "del_at n key = Some (v, n')"
    by (auto simp: n_def split: if_splits option.splits)
  show ?case
  proof (cases n')
    case None
    with n' Inner.prems(3) lr show ?thesis
      by (auto simp: n_def split: if_splits)
  next
    case (Some m)
    with n' have "crit m" "keys m \<subseteq> keys n"
      using Inner.IH lr Inner.prems(2) keys_del_at [of n key v m]
      by (auto simp: n_def split: if_splits)
    moreover have "t' = (if direction key byte_idx bit_idx then Inner byte_idx bit_idx l m
                         else Inner byte_idx bit_idx m r)"
      using n' Some Inner.prems(3) by (auto simp: n_def split: if_splits)
    ultimately show ?thesis
      using crit_sub [OF Inner.prems(1)] lr by (auto simp: n_def split: if_splits)
  qed
qed

lemma dict_del_spec:
  assumes "dict_wf d" and "nul_free key"
  obtains d' where "dict_del d key = (d', dict_map d key)"
    and "dict_wf d'" and "dict_map d' = (dict_map d)(key := None)" and "free_cb d' = free_cb d"
proof (cases "dict_map d key")
  case None
  then have "del_at t key = None" if "dict d = Some t" for t
    using assms that
    by (auto simp: dict_map_def dict_entries_def slot_entries_def dict_wf_def map_of_closest
        del_at_None split: if_splits)
  then have "dict_del d key = (d, None)"
    by (auto simp: dict_del_def split: option.splits)
  then show thesis
    using assms None by (intro that [of d]) auto
next
  case (Some v)
  then obtain t where t: "dict d = Some t"
    by (auto simp: dict_map_def dict_entries_def slot_entries_def split: option.splits)
  with assms have crit: "crit t" and size: "dsize d = length (entries t)"
    by (auto simp: dict_wf_def dict_entries_def slot_entries_def)
  have lookup: "map_of (entries t) key = Some v"
    using Some by (simp add: dict_map_def dict_entries_def slot_entries_def t)
  then have "del_at t key \<noteq> None"
    using map_of_closest [OF crit assms(2)] del_at_None by (metis option.distinct(1))
  then obtain v' t' where del: "del_at t key = Some (v', t')" by fastforce
  note ent = entries_del_at [OF crit assms(2) del]
  with lookup have "v' = v" by simp
  let ?d = "d\<lparr>dict := t', dsize := dsize d - 1\<rparr>"
  have "key \<in> fst ` set (entries t)"
    using lookup by (metis map_of_eq_None_iff option.distinct(1))
  then have len: "length (slot_entries t') = length (entries t) - 1"
    using ent length_filter_distinct_key [OF crit_distinct [OF crit]] by simp
  show thesis
  proof (rule that [of ?d])
    show "dict_del d key = (?d, dict_map d key)"
      using Some \<open>v' = v\<close> by (simp add: dict_del_def t del)
    show "dict_wf ?d"
      using crit_del_at [OF crit assms(2)] del len size
      by (auto simp: dict_wf_def dict_entries_def split: option.splits)
    show "dict_map ?d = (dict_map d)(key := None)"
      using ent by (simp add: dict_map_def dict_entries_def slot_entries_def t map_of_filter_neq
          split: option.splits)
  qed simp
qed

section \<open>Iteration\<close>

fun pending :: "'v dict_iterator \<Rightarrow> (string \<times> 'v) list" where
  "pending [] = []"
| "pending (Leaf s v # stack) = (s, v) # pending stack"
| "pending (Inner byte_idx bit_idx l r # stack) = entries r @ pending stack"

fun is_inner :: "'v dnode \<Rightarrow> bool" where
  "is_inner (Leaf s v) = False"
| "is_inner (Inner byte_idx bit_idx l r) = True"

lemma push_left_shape:
  "list_all is_inner stack \<Longrightarrow>
   \<exists>s v stack'. push_left t stack = Leaf s v # stack' \<and> list_all is_inner stack' \<and>
     (s, v) # pending stack' = entries t @ pending stack"
proof (induction t arbitrary: stack)
  case (Inner byte_idx bit_idx l r)
  then show ?case
    using Inner.IH(1) [of "Inner byte_idx bit_idx l r # stack"] by simp
qed simp

lemma iter_collect_push_left:
  "list_all is_inner stack \<Longrightarrow> iter_collect (push_left t stack) = Inr (entries t @ pending stack)"
proof (induction "iter_left (push_left t stack)" arbitrary: t stack rule: less_induct)
  case less
  obtain s v stack' where sh: "push_left t stack = Leaf s v # stack'" "list_all is_inner stack'"
    "(s, v) # pending stack' = entries t @ pending stack"
    using push_left_shape [OF less.prems] by blast
  show ?case
  proof (cases stack')
    case Nil
    with sh show ?thesis
      by (simp add: iter_collect.simps [of "[_]"] iter_collect.simps [of "[]"]
          dict_iter_hasnext_def dict_iter_next_def)
  next
    case (Cons n stack'')
    with sh(2) obtain b i l r where n: "n = Inner b i l r" by (cases n) auto
    have "iter_collect (push_left r stack'') = Inr (entries r @ pending stack'')"
      using sh Cons n by (intro less.hyps) (auto simp: iter_left_push_left)
    with sh Cons n show ?thesis
      by (simp add: iter_collect.simps [of "_ # _"] dict_iter_hasnext_def dict_iter_next_def)
  qed
qed

lemma iter_collect_Nil: "iter_collect [] = Inr []"
  by (simp add: iter_collect.simps dict_iter_hasnext_def)

lemma iter_create_collect:
  "iter_create (Some t) sz = Inr it \<Longrightarrow> sz \<noteq> 0 \<Longrightarrow> iter_collect it = Inr (entries t)"
  by (auto simp: iter_create_def iter_collect_push_left)

lemma dict_iterate_all:
  assumes "dict_wf d"
  shows "\<exists>it. dict_iter_create d = Inr it \<and> iter_collect it = Inr (dict_entries d)"
proof (cases "dict d")
  case None
  with assms show ?thesis
    by (simp add: dict_iter_create_def iter_create_def dict_wf_def dict_entries_def
        slot_entries_def iter_collect_Nil)
next
  case (Some t)
  with assms show ?thesis
    by (simp add: dict_iter_create_def iter_create_def dict_wf_def dict_entries_def
        slot_entries_def iter_collect_push_left)
qed

section \<open>Prefix search\<close>

lemma fst_get_prefix_walk:
  "crit t \<Longrightarrow> fst (get_prefix_walk t topn pfx) = fst (closest t pfx)"
  by (induction t arbitrary: topn) (auto simp: direction_def Let_def)

lemma crit_Inner_differ:
  assumes "crit (Inner byte_idx bit_idx l r)"
    and "\<forall>k\<in>keys (Inner byte_idx bit_idx l r). \<forall>k'\<in>keys (Inner byte_idx bit_idx l r). agree k k' (8 * n)"
  shows "n \<le> byte_idx"
proof (rule ccontr)
  assume "\<not> ?thesis"
  then have lt: "pos byte_idx bit_idx < 8 * n"
    unfolding pos_def by linarith
  obtain k k' where "k \<in> keys l" "k' \<in> keys r"
    using closest_in_keys by blast
  with assms lt show False
    unfolding crit.simps keys_simps by (meson UnI1 UnI2 agree_bit)
qed

lemma walk_keeps_top:
  "crit t \<Longrightarrow> \<forall>k\<in>keys t. \<forall>k'\<in>keys t. agree k k' (8 * length pfx) \<Longrightarrow>
   snd (get_prefix_walk t topn pfx) = topn"
proof (induction t)
  case (Inner byte_idx bit_idx l r)
  then have "length pfx \<le> byte_idx"
    using crit_Inner_differ by blast
  with Inner show ?case by (simp add: Let_def)
qed simp

lemma walk_top_entries:
  assumes "nul_free pfx"
  shows "crit t \<Longrightarrow> take (length pfx) (fst (closest t pfx)) = pfx \<Longrightarrow>
    entries (snd (get_prefix_walk t t pfx)) = filter (\<lambda>kv. take (length pfx) (fst kv) = pfx) (entries t)"
proof (induction t)
  case (Inner byte_idx bit_idx l r)
  let ?P = "\<lambda>kv :: string \<times> 'a. take (length pfx) (fst kv) = pfx"
  let ?t = "Inner byte_idx bit_idx l r" and ?p = "pos byte_idx bit_idx"
  from Inner.prems(1) have crit: "crit l" "crit r" and bit: "bit_idx < 8" by auto
  show ?case
  proof (cases "byte_idx < length pfx")
    case True
    then have c: "byte (pfx ! byte_idx) \<noteq> 0"
      using assms nul_free_cget [of pfx byte_idx] by (simp add: cget_lt)
    have dir: "direction pfx byte_idx bit_idx = kbit pfx ?p"
      using bit by (rule direction_kbit)
    have "?p < 8 * length pfx"
      using True unfolding pos_def by linarith
    then have other: "filter ?P (entries n) = []"
      if "\<forall>k\<in>keys n. kbit k ?p \<noteq> kbit pfx ?p" for n
      using that agree_prefix [OF assms] agree_bit [of pfx _ "8 * length pfx" ?p]
      by (force simp: filter_empty_conv keys_def)
    show ?thesis
    proof (cases "direction pfx byte_idx bit_idx")
      case dTrue: True
      then have "entries (snd (get_prefix_walk r r pfx)) = filter ?P (entries r)"
        using Inner crit by simp
      moreover have "filter ?P (entries l) = []"
        using Inner.prems(1) dTrue dir by (intro other) auto
      ultimately show ?thesis
        using True c dTrue by (simp add: Let_def direction_def)
    next
      case dFalse: False
      then have "entries (snd (get_prefix_walk l l pfx)) = filter ?P (entries l)"
        using Inner crit by simp
      moreover have "filter ?P (entries r) = []"
        using Inner.prems(1) dFalse dir by (intro other) auto
      ultimately show ?thesis
        using True c dFalse by (simp add: Let_def direction_def)
    qed
  next
    case False
    then have "8 * length pfx \<le> ?p"
      unfolding pos_def by linarith
    then have ag: "agree k k' (8 * length pfx)" if "k \<in> keys ?t" "k' \<in> keys ?t" for k k'
      using Inner.prems(1) that agree_mono unfolding crit.simps keys_simps by blast
    have "agree pfx k (8 * length pfx)" if "k \<in> keys ?t" for k
      using ag [OF closest_in_keys that] Inner.prems(2) agree_prefix [OF assms] agree_trans by blast
    then have "filter ?P (entries ?t) = entries ?t"
      using agree_prefix [OF assms] by (simp add: filter_id_conv keys_def)
    moreover have "snd (get_prefix_walk ?t ?t pfx) = ?t"
      using walk_keeps_top [OF Inner.prems(1)] ag by blast
    ultimately show ?thesis by simp
  qed
qed auto

lemma get_prefix_spec:
  assumes "crit t" and "nul_free pfx"
  shows "get_prefix (Some t) pfx =
     (if \<exists>k\<in>keys t. take (length pfx) k = pfx then Some (snd (get_prefix_walk t t pfx)) else None)"
    and "\<exists>k\<in>keys t. take (length pfx) k = pfx \<Longrightarrow>
     entries (snd (get_prefix_walk t t pfx)) = filter (\<lambda>kv. take (length pfx) (fst kv) = pfx) (entries t)"
proof -
  have iff: "(\<exists>k\<in>keys t. take (length pfx) k = pfx) \<longleftrightarrow> take (length pfx) (fst (closest t pfx)) = pfx"
    using closest_maximal [OF assms(1)] agree_prefix [OF assms(2)] closest_in_keys by metis
  then show "get_prefix (Some t) pfx =
     (if \<exists>k\<in>keys t. take (length pfx) k = pfx then Some (snd (get_prefix_walk t t pfx)) else None)"
    using fst_get_prefix_walk [OF assms(1), of t pfx]
    by (auto simp: get_prefix_def split: prod.splits)
  assume "\<exists>k\<in>keys t. take (length pfx) k = pfx"
  with iff show "entries (snd (get_prefix_walk t t pfx)) =
      filter (\<lambda>kv. take (length pfx) (fst kv) = pfx) (entries t)"
    using walk_top_entries [OF assms(2,1)] by simp
qed

definition with_prefix :: "('v, 'c) dict_t \<Rightarrow> string \<Rightarrow> (string \<times> 'v) list" where
  "with_prefix d pfx = filter (\<lambda>kv. take (length pfx) (fst kv) = pfx) (dict_entries d)"

lemma dict_get_prefix_spec:
  assumes "dict_wf d" and "nul_free pfx"
  shows "dict_entries d = [] \<Longrightarrow> dict_get_prefix d pfx = Inr []"
    and "dict_entries d \<noteq> [] \<Longrightarrow> with_prefix d pfx = [] \<Longrightarrow> dict_get_prefix d pfx = Inl NullDeref"
    and "with_prefix d pfx \<noteq> [] \<Longrightarrow>
      \<exists>it. dict_get_prefix d pfx = Inr it \<and> iter_collect it = Inr (with_prefix d pfx)"
proof -
  show "dict_get_prefix d pfx = Inr []" if "dict_entries d = []"
    using assms that by (simp add: dict_get_prefix_def iter_create_def dict_wf_def)
  {
    fix t assume t: "dict d = Some t"
    with assms have crit: "crit t" and sz: "dsize d \<noteq> 0"
      by (auto simp: dict_wf_def dict_entries_def slot_entries_def)
    have ent: "dict_entries d = entries t"
      by (simp add: t dict_entries_def slot_entries_def)
    have ex: "(\<exists>k\<in>keys t. take (length pfx) k = pfx) \<longleftrightarrow> with_prefix d pfx \<noteq> []"
      by (auto simp: with_prefix_def ent keys_def filter_empty_conv)
    note spec = get_prefix_spec [OF crit assms(2)]
    have "with_prefix d pfx = [] \<Longrightarrow> dict_get_prefix d pfx = Inl NullDeref"
      using spec(1) ex sz by (simp add: dict_get_prefix_def t iter_create_def)
    moreover have "\<exists>it. dict_get_prefix d pfx = Inr it \<and> iter_collect it = Inr (with_prefix d pfx)"
      if "with_prefix d pfx \<noteq> []"
      using spec ex sz that
      by (auto simp: dict_get_prefix_def t iter_create_def with_prefix_def ent iter_collect_push_left)
    ultimately have "with_prefix d pfx = [] \<Longrightarrow> dict_get_prefix d pfx = Inl NullDeref"
      "with_prefix d pfx \<noteq> [] \<Longrightarrow> \<exists>it. dict_get_prefix d pfx = Inr it \<and> iter_collect it = Inr (with_prefix d pfx)"
      by auto
  } note * = this
  show "dict_get_prefix d pfx = Inl NullDeref" if "dict_entries d \<noteq> []" "with_prefix d pfx = []"
    using that * by (auto simp: dict_entries_def slot_entries_def split: option.splits)
  show "\<exists>it. dict_get_prefix d pfx = Inr it \<and> iter_collect it = Inr (with_prefix d pfx)"
    if "with_prefix d pfx \<noteq> []"
    using that * by (auto simp: with_prefix_def dict_entries_def slot_entries_def split: option.splits)
qed

section \<open>The order is the order of \<^verbatim>\<open>strcmp\<close>\<close>

definition strcmp_less :: "string \<Rightarrow> string \<Rightarrow> bool" where
  "strcmp_less a b \<longleftrightarrow> (\<exists>n. (\<forall>j<n. cget a j = cget b j) \<and> byte (cget a n) < byte (cget b n))"

lemma word_less_top_bit:
  fixes v w :: "8 word"
  assumes "i < 8" and "\<And>j. i < j \<Longrightarrow> j < 8 \<Longrightarrow> bit v j = bit w j" and "\<not> bit v i" and "bit w i"
  shows "v < w"
proof -
  let ?x = "unat v" and ?y = "unat w"
  have "bit v j = bit w j" if "i < j" for j
    using assms(2) [OF that] bit_imp_le_length [of v j] bit_imp_le_length [of w j] by auto
  then have "drop_bit (Suc i) ?x = drop_bit (Suc i) ?y"
    by (intro bit_eqI) (simp add: bit_drop_bit_eq bit_unat_word)
  then have hi: "?x div 2 ^ i div 2 = ?y div 2 ^ i div 2"
    by (simp only: drop_bit_eq_div power_Suc2 div_mult2_eq)
  have "even (?x div 2 ^ i)" "odd (?y div 2 ^ i)"
    using assms(3,4) bit_unat_word [of v i] bit_unat_word [of w i] by (auto simp: bit_iff_odd)
  with hi have "?x div 2 ^ i < ?y div 2 ^ i"
    using even_two_times_div_two [of "?x div 2 ^ i"] odd_two_times_div_two_succ [of "?y div 2 ^ i"]
    by linarith
  then have "?x < ?y"
    by (meson div_le_mono not_le)
  then show ?thesis
    by (simp add: word_less_nat_alt)
qed

lemma key_less_strcmp: "key_less a b \<Longrightarrow> strcmp_less a b"
proof -
  assume "key_less a b"
  then obtain p where p: "agree a b p" "\<not> kbit a p" "kbit b p"
    by (auto simp: key_less_def)
  define n where "n = p div 8"
  define i where "i = 7 - p mod 8"
  have "agree a b (8 * n)"
    using p(1) by (rule agree_mono) (simp add: n_def)
  then have "\<forall>j<n. cget a j = cget b j"
    by (simp add: agree_bytes)
  moreover have "byte (cget a n) < byte (cget b n)"
  proof (rule word_less_top_bit [of i])
    show "i < 8" by (simp add: i_def)
    show "\<not> bit (byte (cget a n)) i" "bit (byte (cget b n)) i"
      using p(2,3) by (simp_all add: kbit_def n_def i_def)
    fix j :: nat assume j: "i < j" "j < 8"
    have pi: "p = pos n i"
      unfolding pos_def n_def i_def by simp
    have "pos n j < p"
      using j pi \<open>i < 8\<close> by (simp add: pos_less_iff)
    with p(1) have "kbit a (pos n j) = kbit b (pos n j)"
      by (rule agree_bit)
    with j show "bit (byte (cget a n)) j = bit (byte (cget b n)) j"
      by (simp add: kbit_pos)
  qed
  ultimately show ?thesis
    by (auto simp: strcmp_less_def)
qed

lemma dict_entries_sorted: "dict_wf d \<Longrightarrow> sorted_wrt strcmp_less (map fst (dict_entries d))"
  by (auto simp: dict_wf_def dict_entries_def slot_entries_def split: option.splits
      intro!: sorted_wrt_mono_rel [OF key_less_strcmp] crit_sorted)

section \<open>Walking and clearing\<close>

fun foreach_list ::
  "(string \<times> 'v) list \<Rightarrow> (string \<Rightarrow> 'v \<Rightarrow> 's \<Rightarrow> bool \<times> 's) \<Rightarrow> 's \<Rightarrow> bool \<times> 's" where
  "foreach_list [] handle data = (True, data)"
| "foreach_list ((k, v) # kvs) handle data =
     (case handle k v data of
        (True, data') \<Rightarrow> foreach_list kvs handle data'
      | (False, data') \<Rightarrow> (False, data'))"

lemma foreach_list_append:
  "foreach_list (xs @ ys) handle data =
   (case foreach_list xs handle data of
      (True, data') \<Rightarrow> foreach_list ys handle data'
    | (False, data') \<Rightarrow> (False, data'))"
  by (induction xs handle data rule: foreach_list.induct) (auto split: prod.splits bool.splits)

lemma iterate_foreach_list: "iterate t handle data = foreach_list (entries t) handle data"
  by (induction t arbitrary: data) (auto simp: foreach_list_append split: prod.splits bool.splits)

lemma clear_entries:
  "clear t cb = (case cb of None \<Rightarrow> [] | Some f \<Rightarrow> map (\<lambda>kv. (f, snd kv)) (entries t))"
  by (induction t) (auto split: option.splits)

lemma dict_clear_spec:
  "dict_clear d = (d\<lparr>dict := None, dsize := 0\<rparr>,
     case free_cb d of None \<Rightarrow> [] | Some f \<Rightarrow> map (\<lambda>kv. (f, snd kv)) (dict_entries d))"
  by (auto simp: dict_clear_def clear_entries dict_entries_def slot_entries_def split: option.splits)

section \<open>Copying\<close>

lemma copy_spec:
  "crit t \<Longrightarrow> dict_wf dest \<Longrightarrow>
   \<exists>dest' calls. copy dest t = (dest', True, calls) \<and> dict_wf dest' \<and>
     dict_map dest' = dict_map dest ++ map_of (entries t)"
proof (induction t arbitrary: dest)
  case (Leaf s v)
  then obtain d' where "dict_set dest s (Some v) = (d', True, freed dest s)" "dict_wf d'"
    "dict_map d' = (dict_map dest)(s \<mapsto> v)"
    using dict_set_spec [of dest s v] by auto
  then show ?case by (auto simp: map_add_def fun_eq_iff)
next
  case (Inner byte_idx bit_idx l r)
  obtain d1 c1 where d1: "copy dest l = (d1, True, c1)" "dict_wf d1"
    "dict_map d1 = dict_map dest ++ map_of (entries l)"
    using Inner.IH(1) [of dest] Inner.prems by auto
  obtain d2 c2 where d2: "copy d1 r = (d2, True, c2)" "dict_wf d2"
    "dict_map d2 = dict_map d1 ++ map_of (entries r)"
    using Inner.IH(2) [of d1] Inner.prems(1) d1(2) by auto
  have "distinct (map fst (entries l @ entries r))"
    using crit_distinct [OF Inner.prems(1)] by simp
  then have "map_of (entries l) ++ map_of (entries r) = map_of (entries r) ++ map_of (entries l)"
    by (intro map_add_comm) (auto simp: dom_map_of_conv_image_fst)
  with d1 d2 show ?case
    by (simp add: map_add_assoc [symmetric] del: map_add_assoc)
qed

lemma dict_copy_empty:
  assumes "dict_wf src" and "dict_entries src \<noteq> []" and "dict dest = None" and "dsize dest = 0"
  shows "\<exists>dest' calls. dict_copy dest (Some src) = (dest', True, calls) \<and> dict_wf dest' \<and>
    dict_map dest' = dict_map src \<and> free_cb dest' = free_cb src"
proof -
  from assms(2) obtain t where t: "dict src = Some t"
    by (auto simp: dict_entries_def slot_entries_def split: option.splits)
  then have crit: "crit t" and sz: "dsize src = length (entries t)"
    using assms(1) by (auto simp: dict_wf_def dict_entries_def slot_entries_def)
  have "dict_wf dest" and "dict_map dest = Map.empty"
    using assms(3,4) by (auto simp: dict_wf_def dict_map_def dict_entries_def slot_entries_def)
  with copy_spec [OF crit] obtain d' calls where
    d': "copy dest t = (d', True, calls)" "dict_wf d'" "dict_map d' = map_of (entries t)"
    by (metis empty_map_add)
  have dist: "distinct (map fst (dict_entries d'))" "distinct (map fst (entries t))"
    using d'(2) crit by (auto simp: dict_wf_def dict_entries_def slot_entries_def crit_distinct split: option.splits)
  then have "set (dict_entries d') = set (entries t)"
    using d'(3) by (simp add: dict_map_def map_of_inject_set)
  then have "length (dict_entries d') = length (entries t)"
    using dist by (metis distinct_card distinct_map)
  with d' sz show ?thesis
    by (auto simp: dict_copy_def t dict_wf_def dict_map_def dict_entries_def slot_entries_def)
qed

section \<open>The interface: finite maps from C strings\<close>

datatype 'v map_op = Put string 'v | Del string

fun op_key :: "'v map_op \<Rightarrow> string" where
  "op_key (Put k v) = k"
| "op_key (Del k) = k"

fun spec_op :: "(string \<rightharpoonup> 'v) \<Rightarrow> 'v map_op \<Rightarrow> (string \<rightharpoonup> 'v)" where
  "spec_op m (Put k v) = m(k \<mapsto> v)"
| "spec_op m (Del k) = m(k := None)"

locale string_map =
  fixes get :: "'m \<Rightarrow> string \<Rightarrow> 'v option"
    and put :: "'m \<Rightarrow> string \<Rightarrow> 'v \<Rightarrow> 'm"
    and del :: "'m \<Rightarrow> string \<Rightarrow> 'm"
    and wf :: "'m \<Rightarrow> bool"
    and abs :: "'m \<Rightarrow> (string \<rightharpoonup> 'v)"
  assumes get_abs: "wf m \<Longrightarrow> nul_free k \<Longrightarrow> get m k = abs m k"
    and abs_put: "wf m \<Longrightarrow> nul_free k \<Longrightarrow> abs (put m k v) = (abs m)(k \<mapsto> v)"
    and abs_del: "wf m \<Longrightarrow> nul_free k \<Longrightarrow> abs (del m k) = (abs m)(k := None)"
    and wf_put: "wf m \<Longrightarrow> nul_free k \<Longrightarrow> wf (put m k v)"
    and wf_del: "wf m \<Longrightarrow> nul_free k \<Longrightarrow> wf (del m k)"
begin

lemma get_put:
  "wf m \<Longrightarrow> nul_free k \<Longrightarrow> nul_free k' \<Longrightarrow>
   get (put m k v) k' = (if k' = k then Some v else get m k')"
  by (simp add: get_abs abs_put wf_put)

lemma get_del:
  "wf m \<Longrightarrow> nul_free k \<Longrightarrow> nul_free k' \<Longrightarrow>
   get (del m k) k' = (if k' = k then None else get m k')"
  by (simp add: get_abs abs_del wf_del)

primrec run_op :: "'m \<Rightarrow> 'v map_op \<Rightarrow> 'm" where
  "run_op m (Put k v) = put m k v"
| "run_op m (Del k) = del m k"

lemma run_op_refines:
  "wf m \<Longrightarrow> nul_free (op_key x) \<Longrightarrow> wf (run_op m x) \<and> abs (run_op m x) = spec_op (abs m) x"
  by (cases x) (auto simp: wf_put wf_del abs_put abs_del)

lemma run_refines:
  "wf m \<Longrightarrow> \<forall>x\<in>set xs. nul_free (op_key x) \<Longrightarrow>
   wf (foldl run_op m xs) \<and> abs (foldl run_op m xs) = foldl spec_op (abs m) xs"
  by (induction xs arbitrary: m) (auto simp: run_op_refines)

lemma run_get:
  "wf m \<Longrightarrow> \<forall>x\<in>set xs. nul_free (op_key x) \<Longrightarrow> nul_free k \<Longrightarrow>
   get (foldl run_op m xs) k = foldl spec_op (abs m) xs k"
  using run_refines [of m xs] by (simp add: get_abs)

end

definition dict_put :: "('v, 'c) dict_t \<Rightarrow> string \<Rightarrow> 'v \<Rightarrow> ('v, 'c) dict_t" where
  "dict_put d key v = fst (dict_set d key (Some v))"

definition dict_remove :: "('v, 'c) dict_t \<Rightarrow> string \<Rightarrow> ('v, 'c) dict_t" where
  "dict_remove d key = fst (dict_del d key)"

interpretation critbit: string_map dict_get dict_put dict_remove dict_wf dict_map
proof unfold_locales
  fix m :: "('v, 'c) dict_t" and k v
  assume m: "dict_wf m" "nul_free k"
  show "dict_get m k = dict_map m k"
    using m by (rule dict_get_map)
  obtain d where "dict_set m k (Some v) = (d, True, freed m k)"
    "dict_wf d" "dict_map d = (dict_map m)(k \<mapsto> v)"
    using dict_set_spec [OF m] by blast
  then show "dict_map (dict_put m k v) = (dict_map m)(k \<mapsto> v)" "dict_wf (dict_put m k v)"
    by (simp_all add: dict_put_def)
  obtain d where "dict_del m k = (d, dict_map m k)"
    "dict_wf d" "dict_map d = (dict_map m)(k := None)"
    using dict_del_spec [OF m] by blast
  then show "dict_map (dict_remove m k) = (dict_map m)(k := None)" "dict_wf (dict_remove m k)"
    by (simp_all add: dict_remove_def)
qed

lemma dict_create_wf: "dict_wf dict_create"
  by (simp add: dict_wf_def dict_create_def dict_entries_def slot_entries_def)

lemma dict_create_map: "dict_map dict_create = Map.empty"
  by (simp add: dict_map_def dict_create_def dict_entries_def slot_entries_def)

lemma dict_length_card: "dict_wf d \<Longrightarrow> dict_length d = card (dom (dict_map d))"
proof -
  assume wf: "dict_wf d"
  then have "distinct (map fst (dict_entries d))"
    by (auto simp: dict_wf_def dict_entries_def slot_entries_def crit_distinct split: option.splits)
  with wf show ?thesis
    by (simp add: dict_length_def dict_wf_def dict_map_def dom_map_of_conv_image_fst distinct_card
        flip: set_map)
qed

section \<open>Properties\<close>

fun dict_apply :: "('v, 'c) dict_t \<Rightarrow> 'v map_op \<Rightarrow> ('v, 'c) dict_t" where
  "dict_apply d (Put key v) = fst (dict_set d key (Some v))"
| "dict_apply d (Del key) = fst (dict_del d key)"

lemma dict_apply_run_op: "dict_apply = critbit.run_op"
proof (intro ext)
  fix d :: "('v, 'c) dict_t" and x
  show "dict_apply d x = critbit.run_op d x"
    by (cases x) (simp_all add: dict_put_def dict_remove_def)
qed

lemma dict_run_wf:
  "\<forall>x\<in>set xs. nul_free (op_key x) \<Longrightarrow>
   dict_wf (foldl dict_apply (dict_create :: ('v, 'c) dict_t) xs) \<and>
   dict_map (foldl dict_apply (dict_create :: ('v, 'c) dict_t) xs) = foldl spec_op Map.empty xs"
  using critbit.run_refines [OF dict_create_wf, of xs]
  by (simp add: dict_apply_run_op dict_create_map)

text \<open>
  C16 (refinement). After any sequence of insertions and deletions on a fresh
  dictionary, a lookup returns what the same sequence on a finite map gives, and
  the size field is the number of keys of that map.
\<close>

theorem dict_refines_map:
  assumes "\<forall>x\<in>set xs. nul_free (op_key x)" and "nul_free key"
  shows "dict_get (foldl dict_apply (dict_create :: ('v, 'c) dict_t) xs) key = foldl spec_op Map.empty xs key \<and>
    dict_length (foldl dict_apply (dict_create :: ('v, 'c) dict_t) xs) = card (dom (foldl spec_op Map.empty xs))"
  using dict_run_wf [OF assms(1), where ?'c = 'c] assms(2)
  by (simp add: dict_get_map dict_length_card)

definition sample_ops :: "nat map_op list" where
  "sample_ops = [Put ''ab'' 1, Put ''b'' 2, Put ''abc'' 3, Del ''b'', Put ''ab'' 4]"

definition sample_dict :: "(nat, unit) dict_t" where
  "sample_dict = foldl dict_apply dict_create sample_ops"

lemma sample_ops_nul_free: "\<forall>x\<in>set sample_ops. nul_free (op_key x)"
  by (simp add: sample_ops_def nul_free_def)

lemma sample_dict_wf: "dict_wf sample_dict"
  using dict_run_wf [OF sample_ops_nul_free, where ?'c = unit] by (simp add: sample_dict_def)

lemma sample_dict_eq:
  "sample_dict = \<lparr>dict = Some (Inner 2 6 (Leaf ''ab'' 4) (Leaf ''abc'' 3)), dsize = 2, free_cb = None\<rparr>"
  by code_simp

lemma sample_dict_entries: "dict_entries sample_dict = [(''ab'', 4), (''abc'', 3)]"
  by (simp add: sample_dict_eq dict_entries_def slot_entries_def)

theorem dict_refines_map_witness:
  "list_all (nul_free \<circ> op_key) sample_ops \<and> nul_free ''ab'' \<and>
   dict_get (foldl dict_apply (dict_create :: (nat, unit) dict_t) sample_ops) ''ab'' = Some 4"
  using dict_refines_map [OF sample_ops_nul_free, of "''ab''", where ?'c = unit] sample_ops_nul_free
  by (simp add: nul_free_def list_all_iff) (simp add: sample_ops_def)

text \<open>
  Inserting a value into a well-formed dictionary succeeds, gives a
  well-formed dictionary that maps the key to the value and leaves every other
  key alone, and calls the free callback exactly once, on the value that is
  overwritten, when there is one and a callback is set.
\<close>

theorem dict_set_correct:
  assumes "dict_wf d" and "nul_free key"
  shows "\<exists>d'. dict_set d key (Some v) = (d', True, freed d key) \<and> dict_wf d' \<and>
    dict_map d' = (dict_map d)(key \<mapsto> v) \<and> free_cb d' = free_cb d"
  using dict_set_spec [OF assms, of v] by metis

theorem dict_set_correct_witness:
  "dict_wf (dict_set_freecb sample_dict (Some ())) \<and>
   fst (snd (dict_set (dict_set_freecb sample_dict (Some ())) ''ab'' (Some 7))) \<and>
   snd (snd (dict_set (dict_set_freecb sample_dict (Some ())) ''ab'' (Some 7))) = [((), 4)]"
proof -
  let ?d = "dict_set_freecb sample_dict (Some ())"
  have wf: "dict_wf ?d"
    using sample_dict_wf by (simp add: dict_wf_def dict_set_freecb_def dict_entries_def)
  have "freed ?d ''ab'' = [((), 4)]"
    by (simp add: freed_def dict_set_freecb_def dict_map_def dict_entries_def slot_entries_def
        sample_dict_eq)
  then show ?thesis
    using dict_set_correct [OF wf, of "''ab''" 7] wf by (auto simp: nul_free_def)
qed

text \<open>
  Deleting a key returns the value it was mapped to, or nothing if
  it was absent, and leaves a well-formed dictionary without the key.
\<close>

theorem dict_del_correct:
  assumes "dict_wf d" and "nul_free key"
  shows "\<exists>d'. dict_del d key = (d', dict_map d key) \<and> dict_wf d' \<and>
    dict_map d' = (dict_map d)(key := None) \<and> free_cb d' = free_cb d"
  using dict_del_spec [OF assms] by metis

theorem dict_del_correct_witness:
  "dict_wf sample_dict \<and> snd (dict_del sample_dict ''abc'') = Some 3 \<and>
   snd (dict_del sample_dict ''b'') = None"
  using dict_del_correct [OF sample_dict_wf, of "''abc''"] dict_del_correct [OF sample_dict_wf, of "''b''"]
    sample_dict_wf
  by (auto simp: nul_free_def dict_map_def sample_dict_entries)

text \<open>
  C17 (functional). The iterator of a well-formed dictionary is created without a
  fault and runs to its end, visiting every entry exactly once, in ascending
  order of \<^verbatim>\<open>strcmp\<close> on the keys.
\<close>

theorem dict_iterates_in_order:
  assumes "dict_wf d"
  shows "\<exists>it kvs. dict_iter_create d = Inr it \<and> iter_collect it = Inr kvs \<and>
    length kvs = dict_length d \<and> map_of kvs = dict_map d \<and> sorted_wrt strcmp_less (map fst kvs)"
  using assms dict_iterate_all [OF assms] dict_entries_sorted [OF assms]
  by (auto simp: dict_map_def dict_length_def dict_wf_def)

theorem dict_iterates_in_order_witness:
  "dict_wf sample_dict \<and> (\<exists>it kvs. dict_iter_create sample_dict = Inr it \<and>
     iter_collect it = Inr kvs \<and> length kvs = 2 \<and> sorted_wrt strcmp_less (map fst kvs))"
  using dict_iterates_in_order [OF sample_dict_wf] sample_dict_wf
  by (auto simp: dict_length_def sample_dict_eq)

text \<open>
  C18 (error). The prefix search on a well-formed dictionary: nothing on an empty
  dictionary; exactly the entries whose key starts with the prefix, in order,
  when there is one; and a dereference of a null pointer when the dictionary is
  not empty and no key has the prefix.
\<close>

theorem dict_get_prefix_branches:
  assumes "dict_wf d" and "nul_free pfx"
  shows "if dict_entries d = [] then dict_get_prefix d pfx = Inr []
    else if with_prefix d pfx = [] then dict_get_prefix d pfx = Inl NullDeref
    else \<exists>it. dict_get_prefix d pfx = Inr it \<and> iter_collect it = Inr (with_prefix d pfx)"
  using dict_get_prefix_spec [OF assms] by simp

theorem dict_get_prefix_branches_witness:
  "dict_wf sample_dict \<and> dict_get_prefix sample_dict ''x'' = Inl NullDeref \<and>
   (\<exists>it. dict_get_prefix sample_dict ''ab'' = Inr it \<and>
     iter_collect it = Inr [(''ab'', 4), (''abc'', 3)])"
  using dict_get_prefix_branches [OF sample_dict_wf, of "''x''"]
    dict_get_prefix_branches [OF sample_dict_wf, of "''ab''"] sample_dict_wf
  by (simp add: nul_free_def with_prefix_def sample_dict_entries)

text \<open>
  Copying a non-empty dictionary into a fresh one succeeds and gives
  a well-formed dictionary with the same entries and the same callback.
\<close>

theorem dict_copy_fresh:
  assumes "dict_wf src" and "dict_entries src \<noteq> []" and "dict dest = None" and "dsize dest = 0"
  shows "\<exists>dest' calls. dict_copy dest (Some src) = (dest', True, calls) \<and> dict_wf dest' \<and>
    dict_map dest' = dict_map src \<and> free_cb dest' = free_cb src"
  by (rule dict_copy_empty [OF assms])

theorem dict_copy_fresh_witness:
  "dict_wf sample_dict \<and> dict_entries sample_dict \<noteq> [] \<and>
   (\<exists>dest' calls. dict_copy dict_create (Some sample_dict) = (dest', True, calls) \<and>
      dict_map dest' ''abc'' = Some 3)"
proof -
  have e: "dict_entries sample_dict \<noteq> []" by (simp add: sample_dict_entries)
  show ?thesis
    using dict_copy_fresh [OF sample_dict_wf e, of dict_create] sample_dict_wf e
    by (auto simp: dict_create_def dict_map_def sample_dict_entries)
qed

end
