(* ===== verification/Rr_Array.thy ===== *)
theory Rr_Array
  imports Prelude
begin

text \<open>
  The dynamic array of \<^verbatim>\<open>rr_array.c\<close>.

  \<^verbatim>\<open>elm\<close> is the allocated block, cut in slots of \<^verbatim>\<open>size\<close> bytes; a slot no one has
  written yet is \<open>None\<close>. A pointer into the array is the index of its slot. The
  number of slots of a block is the number of bytes asked for, computed with the
  wrap-around of \<^verbatim>\<open>size_t\<close>, divided by the size of an element.
\<close>

section \<open>The model\<close>

record 'a array_t =
  nelm :: nat
  nrest :: nat
  asize :: nat
  elm :: "'a option list"

definition realloc_elm :: "nat \<Rightarrow> 'a option list \<Rightarrow> 'a option list" where
  "realloc_elm n xs = take n xs @ replicate (n - length xs) None"

definition array_create :: "nat \<Rightarrow> nat \<Rightarrow> 'a array_t" where
  "array_create n s =
     (let initial_number = (if n = 0 then 1 else n)
      in \<lparr>nelm = 0, nrest = initial_number, asize = s,
          elm = replicate (mul64 initial_number s div s) None\<rparr>)"

definition array_push :: "'a array_t \<Rightarrow> nat \<times> 'a array_t" where
  "array_push a =
     (if nrest a > 0
      then (nelm a, a\<lparr>nrest := nrest a - 1, nelm := add64 (nelm a) 1\<rparr>)
      else (nelm a,
            a\<lparr>elm := realloc_elm (mul64 (mul64 2 (asize a)) (nelm a) div asize a) (elm a),
              nrest := sub64 (nelm a) 1,
              nelm := add64 (nelm a) 1\<rparr>))"

definition array_push_n :: "'a array_t \<Rightarrow> nat \<Rightarrow> nat option \<times> 'a array_t" where
  "array_push_n a n =
     (if n = 0 then (None, a)
      else if nrest a \<ge> n
      then (Some (nelm a), a\<lparr>nrest := nrest a - n, nelm := add64 (nelm a) n\<rparr>)
      else
        (let nslots = (if mul64 2 (nelm a) > n then mul64 2 (nelm a)
                       else add64 (add64 (nelm a) (nrest a)) n);
             nelm' = add64 (nelm a) n
         in (Some (nelm a),
             a\<lparr>elm := realloc_elm (mul64 nslots (asize a) div asize a) (elm a),
               nelm := nelm',
               nrest := sub64 nslots nelm'\<rparr>)))"

definition array_len :: "'a array_t \<Rightarrow> nat" where
  "array_len a = nelm a"

definition array_at :: "'a array_t \<Rightarrow> int \<Rightarrow> nat option" where
  "array_at a i =
     (if i \<ge> int32 (nelm a) \<or> i < 0 \<and> - i > int32 (nelm a) then None
      else if i \<ge> 0 then Some (nat i)
      else Some (nat ((int (nelm a) + i) mod 2 ^ 64)))"

text \<open>Reading and writing through a pointer that may be \<^verbatim>\<open>NULL\<close>.\<close>

definition array_read :: "'a array_t \<Rightarrow> nat option \<Rightarrow> 'a result" where
  "array_read a p =
     (case p of
        None \<Rightarrow> Inl NullDeref
      | Some i \<Rightarrow> if i < length (elm a)
                  then (case elm a ! i of None \<Rightarrow> Inl Uninit | Some x \<Rightarrow> Inr x)
                  else Inl OutOfBounds)"

definition array_write :: "'a array_t \<Rightarrow> nat option \<Rightarrow> 'a \<Rightarrow> 'a array_t result" where
  "array_write a p x =
     (case p of
        None \<Rightarrow> Inl NullDeref
      | Some i \<Rightarrow> if i < length (elm a) then Inr (a\<lparr>elm := (elm a)[i := Some x]\<rparr>)
                  else Inl OutOfBounds)"

section \<open>The invariant\<close>

text \<open>
  The counters account for every slot of the block, the block is not empty, and
  the element size is that of a small structure.
\<close>

definition array_wf :: "'a array_t \<Rightarrow> bool" where
  "array_wf a \<longleftrightarrow> nelm a + nrest a = length (elm a) \<and> 0 < length (elm a) \<and>
                  0 < asize a \<and> asize a < 2 ^ 32"

text \<open>The elements of an array all of whose slots below \<^verbatim>\<open>nelm\<close> have been written.\<close>

definition array_full :: "'a array_t \<Rightarrow> bool" where
  "array_full a \<longleftrightarrow> array_wf a \<and> list_all (\<lambda>x. x \<noteq> None) (take (nelm a) (elm a))"

definition array_list :: "'a array_t \<Rightarrow> 'a list" where
  "array_list a = map the (take (nelm a) (elm a))"

lemma array_create_wf:
  assumes "n < 2 ^ 31" and "0 < s" and "s < 2 ^ 32"
  shows "array_wf (array_create n s :: 'a array_t)"
    and "array_list (array_create n s :: 'a array_t) = []"
    and "array_full (array_create n s :: 'a array_t)" and "nelm (array_create n s :: 'a array_t) = 0"
proof -
  have "(if n = 0 then 1 else n) * s \<le> 2 ^ 31 * (2 ^ 32 :: nat)"
    using assms by (intro mult_le_mono) auto
  then have "mul64 (if n = 0 then 1 else n) s = (if n = 0 then 1 else n) * s"
    by (intro mul64_small) simp
  then have "elm (array_create n s :: 'a array_t) = replicate (if n = 0 then 1 else n) (None :: 'a option)"
    using assms(2) by (simp add: array_create_def Let_def)
  then show "array_wf (array_create n s :: 'a array_t)" "array_list (array_create n s :: 'a array_t) = []"
    "array_full (array_create n s :: 'a array_t)" "nelm (array_create n s :: 'a array_t) = 0"
    using assms by (auto simp: array_wf_def array_list_def array_full_def array_create_def Let_def)
qed

lemma push_bytes:
  assumes "n < 2 ^ 31" and "0 < s" and "s < (2 :: nat) ^ 32"
  shows "mul64 (mul64 2 s) n div s = 2 * n"
proof -
  have s: "mul64 2 s = 2 * s"
    using assms(3) by (intro mul64_small) simp
  have "n * (2 * s) \<le> (2 ^ 31 - 1) * (2 * 2 ^ 32)"
    using assms by (intro mult_le_mono) auto
  then have "2 * s * n < 2 ^ 64" by (simp add: mult.commute)
  then show ?thesis using assms(2) by (simp add: s)
qed

lemma array_push_ok:
  assumes "array_wf a" and "nelm a < 2 ^ 31"
  obtains a' where "array_push a = (nelm a, a')" and "array_wf a'" and "nelm a' = nelm a + 1"
    and "take (nelm a) (elm a') = take (nelm a) (elm a)" and "nelm a < length (elm a')"
    and "asize a' = asize a"
proof (cases "nrest a > 0")
  case True
  with assms show thesis
    by (intro that [of "a\<lparr>nrest := nrest a - 1, nelm := add64 (nelm a) 1\<rparr>"])
      (auto simp: array_push_def array_wf_def)
next
  case False
  have nel: "nelm a = length (elm a)" and pos: "0 < nelm a"
    using False assms(1) by (auto simp: array_wf_def)
  have bytes: "mul64 (mul64 2 (asize a)) (nelm a) div asize a = 2 * nelm a"
    using assms by (intro push_bytes) (auto simp: array_wf_def)
  have sub: "sub64 (nelm a) 1 = nelm a - 1" and add: "add64 (nelm a) 1 = nelm a + 1"
    using pos assms(2) by (auto intro: sub64_small)
  define a' where
    "a' = a\<lparr>elm := realloc_elm (2 * nelm a) (elm a), nrest := nelm a - 1, nelm := nelm a + 1\<rparr>"
  have "array_push a = (nelm a, a')"
    using False by (simp add: array_push_def a'_def bytes sub add del: One_nat_def)
  then show thesis
    using assms(1) nel pos by (intro that [of a']) (auto simp: a'_def array_wf_def realloc_elm_def)
qed

lemma array_at_in [simp]:
  "nelm a < 2 ^ 31 \<Longrightarrow> i < nelm a \<Longrightarrow> array_at a (int i) = Some i"
  by (simp add: array_at_def)

lemma array_read_ok:
  "array_full a \<Longrightarrow> i < nelm a \<Longrightarrow> array_read a (Some i) = Inr (array_list a ! i)"
  by (auto simp: array_read_def array_full_def array_wf_def array_list_def list_all_length
      split: option.splits)

lemma array_full_length: "array_full a \<Longrightarrow> length (array_list a) = nelm a"
  by (simp add: array_full_def array_wf_def array_list_def)

lemma array_write_ok:
  assumes "array_full a" and "i < nelm a"
  obtains a' where "array_write a (Some i) x = Inr a'" and "array_full a'" and "nelm a' = nelm a"
    and "array_list a' = (array_list a)[i := x]" and "asize a' = asize a"
  using assms
  by (intro that [of "a\<lparr>elm := (elm a)[i := Some x]\<rparr>"])
    (auto simp: array_write_def array_full_def array_wf_def array_list_def take_update_swap
      map_update list_all_length nth_list_update)

lemma array_push_write:
  assumes "array_full a" and "nelm a < 2 ^ 31"
  obtains a1 a2 where "array_push a = (nelm a, a1)" and "array_write a1 (Some (nelm a)) x = Inr a2"
    and "array_full a2" and "nelm a2 = nelm a + 1" and "array_list a2 = array_list a @ [x]"
    and "asize a2 = asize a"
proof -
  have wf: "array_wf a" using assms(1) by (simp add: array_full_def)
  obtain a1 where a1: "array_push a = (nelm a, a1)" "array_wf a1" "nelm a1 = nelm a + 1"
    "take (nelm a) (elm a1) = take (nelm a) (elm a)" "nelm a < length (elm a1)"
    "asize a1 = asize a"
    by (rule array_push_ok [OF wf assms(2)])
  define a2 where "a2 = a1\<lparr>elm := (elm a1)[nelm a := Some x]\<rparr>"
  have tk: "take (nelm a + 1) ((elm a1)[nelm a := Some x]) = take (nelm a) (elm a) @ [Some x]"
    using a1(4,5) by (simp add: take_Suc_conv_app_nth)
  show thesis
  proof (rule that)
    show "array_push a = (nelm a, a1)" by (rule a1(1))
    show "array_write a1 (Some (nelm a)) x = Inr a2"
      using a1(5) by (simp add: array_write_def a2_def)
    show "array_full a2"
      using a1 assms(1) tk by (simp add: array_full_def array_wf_def a2_def)
    show "array_list a2 = array_list a @ [x]"
      using a1 tk by (simp add: array_list_def a2_def)
  qed (use a1 in \<open>simp_all add: a2_def\<close>)
qed

text \<open>
  \<^verbatim>\<open>array_push_n\<close> when the block has to grow: the number of slots it allocates, and
  when that is enough.
\<close>

definition grow_slots :: "'a array_t \<Rightarrow> nat \<Rightarrow> nat" where
  "grow_slots a n = (if 2 * nelm a > n then 2 * nelm a else nelm a + nrest a + n)"

lemma array_push_n_grow:
  assumes wf: "array_wf a" and n: "nrest a < n" and bound: "nelm a + nrest a + n < 2 ^ 31"
  shows "snd (array_push_n a n) =
    a\<lparr>elm := realloc_elm (grow_slots a n) (elm a), nelm := nelm a + n,
      nrest := sub64 (grow_slots a n) (nelm a + n)\<rparr>"
proof -
  have slots: "grow_slots a n < 2 ^ 32" "0 < asize a" "asize a < 2 ^ 32"
    using wf bound by (auto simp: grow_slots_def array_wf_def)
  then have "grow_slots a n * asize a \<le> (2 ^ 32 - 1) * 2 ^ 32"
    by (intro mult_le_mono) auto
  then have bytes: "mul64 (grow_slots a n) (asize a) div asize a = grow_slots a n"
    using slots by simp
  have eq: "(if mul64 2 (nelm a) > n then mul64 2 (nelm a)
      else add64 (add64 (nelm a) (nrest a)) n) = grow_slots a n" "add64 (nelm a) n = nelm a + n"
    using bound by (auto simp: grow_slots_def)
  show ?thesis
    using n by (simp add: array_push_n_def eq bytes Let_def del: mul64_small add64_small)
qed

lemma array_push_n_wf_iff:
  assumes wf: "array_wf a" and bound: "nelm a + nrest a + n < 2 ^ 31"
  shows "array_wf (snd (array_push_n a n)) \<longleftrightarrow>
    \<not> (nrest a < n \<and> nelm a < n \<and> n < 2 * nelm a)"
proof (cases "n \<le> nrest a")
  case True
  with assms show ?thesis
    by (auto simp: array_push_n_def array_wf_def)
next
  case False
  then have n: "nrest a < n" by simp
  show ?thesis
  proof (cases "nelm a + n \<le> grow_slots a n")
    case True
    have "sub64 (grow_slots a n) (nelm a + n) = grow_slots a n - (nelm a + n)"
      using True bound by (intro sub64_small) (auto simp: grow_slots_def)
    with True n wf show ?thesis
      by (auto simp: array_push_n_grow [OF wf n bound] array_wf_def realloc_elm_def grow_slots_def
          split: if_splits)
  next
    case False
    then have less: "grow_slots a n < nelm a + n" by simp
    then have ns: "grow_slots a n = 2 * nelm a" "nelm a < n" "n < 2 * nelm a"
      by (auto simp: grow_slots_def split: if_splits)
    have "length (realloc_elm (grow_slots a n) (elm a)) = grow_slots a n"
      by (simp add: realloc_elm_def)
    then have "\<not> array_wf (snd (array_push_n a n))"
      using less by (simp add: array_push_n_grow [OF wf n bound] array_wf_def)
    with ns n show ?thesis by simp
  qed
qed

section \<open>Properties\<close>

text \<open>
  C25 (bounds). \<^verbatim>\<open>array_push_n\<close> keeps the counters of an array in step with its block
  except when the block has to grow and the number of new elements lies strictly
  between \<^verbatim>\<open>nelm\<close> and \<^verbatim>\<open>2 * nelm\<close>: then it allocates \<^verbatim>\<open>2 * nelm\<close> slots, which is too few,
  and \<^verbatim>\<open>nrest\<close> wraps around.
\<close>

theorem array_push_n_capacity:
  assumes "array_wf a" and "nelm a + nrest a + n < 2 ^ 31"
  shows "array_wf (snd (array_push_n a n)) \<longleftrightarrow>
    \<not> (nrest a < n \<and> nelm a < n \<and> n < 2 * nelm a)"
  by (rule array_push_n_wf_iff [OF assms])

definition three_elements :: "nat array_t" where
  "three_elements = \<lparr>nelm = 3, nrest = 0, asize = 8, elm = [Some 1, Some 2, Some 3]\<rparr>"

theorem array_push_n_capacity_witness:
  "array_wf three_elements \<and> \<not> array_wf (snd (array_push_n three_elements 5)) \<and>
   array_wf (snd (array_push_n three_elements 6)) \<and>
   nrest (snd (array_push_n three_elements 5)) = 2 ^ 64 - 2"
proof -
  have wf: "array_wf three_elements"
    by (simp add: array_wf_def three_elements_def)
  show ?thesis
    using array_push_n_capacity [OF wf, of 5] array_push_n_capacity [OF wf, of 6] wf
    by (simp add: three_elements_def array_push_n_def mul64_def add64_def sub64_def)
qed

end
