(* ===== verification/Rr_Minheap.thy ===== *)
theory Rr_Minheap
  imports Rr_Array
begin

text \<open>
  The binary heap of \<^verbatim>\<open>rr_minheap.c\<close> over the dynamic array of \<^verbatim>\<open>rr_array.c\<close>.

  The callbacks of the heap are functions on element values: \<open>comp\<close> the sign of
  the comparison, \<open>cpy\<close> the value stored in the destination, \<open>swp\<close> the two values
  after the swap. Every access goes through \<^verbatim>\<open>array_at\<close>, which may return \<^verbatim>\<open>NULL\<close>, so an
  operation is a computation that may fault; the theorems show that it does not
  while the array has less than \<open>2 ^ 31\<close> elements, the limit of the \<^verbatim>\<open>(int)\<close>
  conversions of \<^verbatim>\<open>array_at\<close>.

  The specification is a priority queue: the multiset of the elements, with the
  minimum for the order of the comparison callback. The locale \<open>heap_order\<close> states
  what the heap asks of its callback; it is interpreted on the callback of each
  client.
\<close>

section \<open>The model\<close>

record ('a, 'c) minheap_t =
  hlen :: nat
  array :: "'a array_t"
  comp :: "'a \<Rightarrow> 'a \<Rightarrow> int"
  cpy :: "'a \<Rightarrow> 'a"
  swp :: "'a \<times> 'a \<Rightarrow> 'a \<times> 'a"
  hfree_cb :: "'c option"

definition minheap_create ::
  "nat \<Rightarrow> nat \<Rightarrow> ('a \<Rightarrow> 'a \<Rightarrow> int) \<Rightarrow> ('a \<Rightarrow> 'a) \<Rightarrow> ('a \<times> 'a \<Rightarrow> 'a \<times> 'a) \<Rightarrow> ('a, 'c) minheap_t" where
  "minheap_create n sz pfcmp pfcpy pfswp =
     \<lparr>hlen = 0, array = array_create n sz, comp = pfcmp, cpy = pfcpy, swp = pfswp, hfree_cb = None\<rparr>"

definition minheap_set_freecb :: "('a, 'c) minheap_t \<Rightarrow> 'c option \<Rightarrow> ('a, 'c) minheap_t" where
  "minheap_set_freecb heap f = heap\<lparr>hfree_cb := f\<rparr>"

text \<open>The calls \<^verbatim>\<open>minheap_free\<close> makes: the callback on each element, in array order.\<close>

definition minheap_free :: "('a, 'c) minheap_t \<Rightarrow> ('c \<times> 'a) list result" where
  "minheap_free heap =
     (case hfree_cb heap of
        None \<Rightarrow> Inr []
      | Some f \<Rightarrow>
          fold (\<lambda>i r. rbind r (\<lambda>calls. rbind (array_read (array heap) (Some i))
                  (\<lambda>x. Inr (calls @ [(f, x)])))) [0..<hlen heap] (Inr []))"

definition heap_get :: "('a, 'c) minheap_t \<Rightarrow> nat \<Rightarrow> 'a result" where
  "heap_get heap i = array_read (array heap) (array_at (array heap) (int i))"

text \<open>\<^verbatim>\<open>heap->swp(array_at(heap->array, i), array_at(heap->array, j))\<close>\<close>

definition heap_swp :: "('a, 'c) minheap_t \<Rightarrow> nat \<Rightarrow> nat \<Rightarrow> ('a, 'c) minheap_t result" where
  "heap_swp heap i j =
     (let pi = array_at (array heap) (int i); pj = array_at (array heap) (int j) in
      rbind (array_read (array heap) pi) (\<lambda>x.
      rbind (array_read (array heap) pj) (\<lambda>y.
      rbind (array_write (array heap) pi (fst (swp heap (x, y)))) (\<lambda>a.
      rbind (array_write a pj (snd (swp heap (x, y)))) (\<lambda>a'.
      Inr (heap\<lparr>array := a'\<rparr>))))))"

text \<open>
  \<^verbatim>\<open>shiftdown\<close> moves the element at \<open>at\<close> towards the root. The index \<^verbatim>\<open>i\<close> of the source
  equals \<^verbatim>\<open>end\<close> at the head of every iteration.
\<close>

function shiftdown :: "('a, 'c) minheap_t \<Rightarrow> nat \<Rightarrow> nat \<Rightarrow> ('a, 'c) minheap_t result" where
  "shiftdown heap start at =
     (if at > start then
        (let i = (at - 1) div 2 in
         rbind (heap_get heap at) (\<lambda>child.
         rbind (heap_get heap i) (\<lambda>parent.
         if comp heap child parent < 0
         then rbind (heap_swp heap at i) (\<lambda>heap'. shiftdown heap' start i)
         else Inr heap)))
      else Inr heap)"
  by pat_completeness auto
termination
  by (relation "measure (\<lambda>(heap, start, at). at)") auto

text \<open>
  \<^verbatim>\<open>shiftup\<close> moves the element at \<open>start\<close> to a leaf along the smaller children, then
  back up with \<^verbatim>\<open>shiftdown\<close>. \<open>shiftup_loop\<close> is its loop from \<^verbatim>\<open>istart\<close> on.
\<close>

function shiftup_loop :: "('a, 'c) minheap_t \<Rightarrow> nat \<Rightarrow> nat \<Rightarrow> (nat \<times> ('a, 'c) minheap_t) result" where
  "shiftup_loop heap iend istart =
     (let ichild = 2 * istart + 1 in
      if ichild < iend then
        rbind (if ichild + 1 < iend
               then rbind (heap_get heap ichild) (\<lambda>x. rbind (heap_get heap (ichild + 1)) (\<lambda>y.
                    Inr (if comp heap x y > 0 then ichild + 1 else ichild)))
               else Inr ichild)
          (\<lambda>c. rbind (heap_swp heap istart c) (\<lambda>heap'. shiftup_loop heap' iend c))
      else Inr (istart, heap))"
  by pat_completeness auto
termination
  by (relation "measure (\<lambda>(heap, iend, istart). iend - istart)") (auto split: if_splits)

declare shiftdown.simps [simp del] shiftup_loop.simps [simp del]

definition shiftup :: "('a, 'c) minheap_t \<Rightarrow> nat \<Rightarrow> ('a, 'c) minheap_t result" where
  "shiftup heap start =
     rbind (shiftup_loop heap (hlen heap) start) (\<lambda>(istart, heap'). shiftdown heap' start istart)"

definition minheap_push :: "('a, 'c) minheap_t \<Rightarrow> 'a \<Rightarrow> (int \<times> ('a, 'c) minheap_t) result" where
  "minheap_push heap val =
     (let (item, a) =
        (if hlen heap = array_len (array heap)
         then (case array_push (array heap) of (p, a) \<Rightarrow> (Some p, a))
         else (array_at (array heap) (int (hlen heap)), array heap))
      in rbind (array_write a item (cpy heap val)) (\<lambda>a'.
         rbind (shiftdown (heap\<lparr>array := a', hlen := hlen heap + 1\<rparr>) 0 (hlen heap)) (\<lambda>heap'.
         Inr (0, heap'))))"

text \<open>
  \<^verbatim>\<open>minheap_pop\<close> and \<^verbatim>\<open>minheap_min\<close> return a pointer into the array, \<open>None\<close> for \<^verbatim>\<open>NULL\<close>.
\<close>

definition minheap_pop :: "('a, 'c) minheap_t \<Rightarrow> (nat option \<times> ('a, 'c) minheap_t) result" where
  "minheap_pop heap =
     (if hlen heap = 0 then Inr (None, heap)
      else rbind (heap_swp heap 0 (hlen heap - 1)) (\<lambda>heap1.
           rbind (shiftup (heap1\<lparr>hlen := hlen heap - 1\<rparr>) 0) (\<lambda>heap2.
           Inr (array_at (array heap2) (int (hlen heap2)), heap2))))"

definition minheap_min :: "('a, 'c) minheap_t \<Rightarrow> nat option" where
  "minheap_min heap = (if hlen heap = 0 then None else array_at (array heap) 0)"

definition minheap_len :: "('a, 'c) minheap_t \<Rightarrow> nat" where
  "minheap_len heap = hlen heap"

section \<open>The same operations on lists\<close>

definition swap_at :: "'a list \<Rightarrow> nat \<Rightarrow> nat \<Rightarrow> 'a list" where
  "swap_at xs i j = xs[i := xs ! j, j := xs ! i]"

function sift_up :: "('a \<Rightarrow> 'a \<Rightarrow> int) \<Rightarrow> 'a list \<Rightarrow> nat \<Rightarrow> 'a list" where
  "sift_up cmp xs at =
     (if at > 0 \<and> cmp (xs ! at) (xs ! ((at - 1) div 2)) < 0
      then sift_up cmp (swap_at xs at ((at - 1) div 2)) ((at - 1) div 2)
      else xs)"
  by pat_completeness auto
termination
  by (relation "measure (\<lambda>(cmp, xs, at). at)") auto

definition min_child :: "('a \<Rightarrow> 'a \<Rightarrow> int) \<Rightarrow> 'a list \<Rightarrow> nat \<Rightarrow> nat \<Rightarrow> nat" where
  "min_child cmp xs n i =
     (if 2 * i + 2 < n \<and> cmp (xs ! (2 * i + 1)) (xs ! (2 * i + 2)) > 0 then 2 * i + 2 else 2 * i + 1)"

function sink :: "('a \<Rightarrow> 'a \<Rightarrow> int) \<Rightarrow> 'a list \<Rightarrow> nat \<Rightarrow> nat \<Rightarrow> nat \<times> 'a list" where
  "sink cmp xs n i =
     (if 2 * i + 1 < n
      then sink cmp (swap_at xs i (min_child cmp xs n i)) n (min_child cmp xs n i)
      else (i, xs))"
  by pat_completeness auto
termination
  by (relation "measure (\<lambda>(cmp, xs, n, i). n - i)") (auto simp: min_child_def)

declare sift_up.simps [simp del] sink.simps [simp del]

lemma length_swap_at [simp]: "length (swap_at xs i j) = length xs"
  by (simp add: swap_at_def)

lemma mset_swap_at: "i < length xs \<Longrightarrow> j < length xs \<Longrightarrow> mset (swap_at xs i j) = mset xs"
  by (simp add: swap_at_def mset_swap)

lemma nth_swap_at:
  "i < length xs \<Longrightarrow> j < length xs \<Longrightarrow> k < length xs \<Longrightarrow>
   swap_at xs i j ! k = (if k = j then xs ! i else if k = i then xs ! j else xs ! k)"
  by (simp add: swap_at_def nth_list_update)

lemma length_sift_up [simp]: "length (sift_up cmp xs at) = length xs"
  by (induction cmp xs at rule: sift_up.induct) (subst sift_up.simps, simp)

lemma min_child_bounds:
  "2 * i + 1 < n \<Longrightarrow> i < min_child cmp xs n i \<and> min_child cmp xs n i < n"
  by (simp add: min_child_def)

lemma sink_bounds:
  assumes "i < n" and "n \<le> length xs" and "sink cmp xs n i = (j, ys)"
  shows "j < n \<and> length ys = length xs \<and> n \<le> 2 * j + 1"
  using assms
proof (induction cmp xs n i rule: sink.induct)
  case (1 cmp xs n i)
  then show ?case
    using min_child_bounds [of i n cmp xs] sink.simps [of cmp xs n i] by (auto split: if_splits)
qed

text \<open>Both only permute the elements below the bound.\<close>

lemma take_swap_at:
  "i < n \<Longrightarrow> j < n \<Longrightarrow> n \<le> length xs \<Longrightarrow>
   mset (take n (swap_at xs i j)) = mset (take n xs) \<and> drop n (swap_at xs i j) = drop n xs"
proof -
  assume *: "i < n" "j < n" "n \<le> length xs"
  then have "take n (swap_at xs i j) = swap_at (take n xs) i j"
    by (simp add: swap_at_def take_update_swap)
  with * show ?thesis
    by (simp add: mset_swap_at) (simp add: swap_at_def)
qed

lemma sift_up_perm:
  "at < n \<Longrightarrow> n \<le> length xs \<Longrightarrow>
   mset (take n (sift_up cmp xs at)) = mset (take n xs) \<and> drop n (sift_up cmp xs at) = drop n xs"
proof (induction cmp xs at rule: sift_up.induct)
  case (1 cmp xs at)
  then show ?case
    using take_swap_at [of at n "(at - 1) div 2" xs] sift_up.simps [of cmp xs at] by auto
qed

lemma sink_perm:
  "i < n \<Longrightarrow> n \<le> length xs \<Longrightarrow> sink cmp xs n i = (j, ys) \<Longrightarrow>
   mset (take n ys) = mset (take n xs) \<and> drop n ys = drop n xs"
proof (induction cmp xs n i rule: sink.induct)
  case (1 cmp xs n i)
  then show ?case
    using take_swap_at [of i n "min_child cmp xs n i" xs] sink.simps [of cmp xs n i]
      min_child_bounds [of i n cmp xs]
    by (auto split: if_splits)
qed

section \<open>The order of the callback and the heap property\<close>

definition heap_upto :: "('a \<Rightarrow> 'a \<Rightarrow> int) \<Rightarrow> nat \<Rightarrow> 'a list \<Rightarrow> bool" where
  "heap_upto cmp n xs \<longleftrightarrow> (\<forall>i. 0 < i \<and> i < n \<longrightarrow> cmp (xs ! ((i - 1) div 2)) (xs ! i) \<le> 0)"

text \<open>The heap property but for the edge above \<open>e\<close>, which \<open>sift_up\<close> repairs.\<close>

definition heap_but :: "('a \<Rightarrow> 'a \<Rightarrow> int) \<Rightarrow> nat \<Rightarrow> 'a list \<Rightarrow> nat \<Rightarrow> bool" where
  "heap_but cmp n xs e \<longleftrightarrow>
     (\<forall>i. 0 < i \<and> i < n \<and> i \<noteq> e \<longrightarrow> cmp (xs ! ((i - 1) div 2)) (xs ! i) \<le> 0) \<and>
     (\<forall>i. 0 < i \<and> i < n \<and> (i - 1) div 2 = e \<and> 0 < e \<longrightarrow> cmp (xs ! ((e - 1) div 2)) (xs ! i) \<le> 0)"

text \<open>The heap property but for the edges around \<open>e\<close>, where \<open>sink\<close> moves the element down.\<close>

definition heap_hole :: "('a \<Rightarrow> 'a \<Rightarrow> int) \<Rightarrow> nat \<Rightarrow> 'a list \<Rightarrow> nat \<Rightarrow> bool" where
  "heap_hole cmp n xs e \<longleftrightarrow>
     (\<forall>i. 0 < i \<and> i < n \<and> i \<noteq> e \<and> (i - 1) div 2 \<noteq> e \<longrightarrow> cmp (xs ! ((i - 1) div 2)) (xs ! i) \<le> 0) \<and>
     (\<forall>i. 0 < i \<and> i < n \<and> (i - 1) div 2 = e \<and> 0 < e \<longrightarrow> cmp (xs ! ((e - 1) div 2)) (xs ! i) \<le> 0)"

locale heap_order =
  fixes cmp :: "'a \<Rightarrow> 'a \<Rightarrow> int"
  assumes cmp_flip: "cmp a b < 0 \<longleftrightarrow> cmp b a > 0"
    and cmp_trans: "cmp a b \<le> 0 \<Longrightarrow> cmp b c \<le> 0 \<Longrightarrow> cmp a c \<le> 0"
begin

lemma cmp_refl: "cmp a a \<le> 0"
  using cmp_flip [of a a] by linarith

lemma cmp_total: "\<not> cmp a b \<le> 0 \<Longrightarrow> cmp b a \<le> 0"
  using cmp_flip [of b a] by simp

lemma cmp_neg: "cmp a b < 0 \<Longrightarrow> cmp a b \<le> 0"
  by simp

lemma heap_but_swap:
  assumes but: "heap_but cmp n xs e" and e: "0 < e" "e < n" "n \<le> length xs"
    and less: "cmp (xs ! e) (xs ! ((e - 1) div 2)) < 0"
  shows "heap_but cmp n (swap_at xs e ((e - 1) div 2)) ((e - 1) div 2)"
proof -
  define p where "p = (e - 1) div 2"
  let ?ys = "swap_at xs e p"
  have p: "p < e" using e by (auto simp: p_def)
  have less: "cmp (xs ! e) (xs ! p) < 0" using less by (simp add: p_def)
  have nth: "?ys ! k = (if k = p then xs ! e else if k = e then xs ! p else xs ! k)"
    if "k < n" for k
    using nth_swap_at [of e xs p k] e p that by auto
  have edge: "cmp (xs ! ((i - 1) div 2)) (xs ! i) \<le> 0" if "0 < i" "i < n" "i \<noteq> e" for i
    using but that by (simp add: heap_but_def p_def)
  have below: "cmp (xs ! p) (xs ! i) \<le> 0" if "0 < i" "i < n" "(i - 1) div 2 = e" for i
    using but that e by (simp add: heap_but_def p_def)
  have "cmp (?ys ! ((i - 1) div 2)) (?ys ! i) \<le> 0" if i: "0 < i" "i < n" "i \<noteq> p" for i
  proof -
    have q: "(i - 1) div 2 < n" using i by linarith
    consider "i = e" | "i \<noteq> e" "(i - 1) div 2 = e" | "i \<noteq> e" "(i - 1) div 2 = p"
      | "i \<noteq> e" "(i - 1) div 2 \<noteq> e" "(i - 1) div 2 \<noteq> p" by blast
    then show ?thesis
    proof cases
      case 1
      then have "(i - 1) div 2 = p" by (simp add: p_def)
      with 1 less p e show ?thesis by (simp add: nth)
    next
      case 2 with below [OF i(1,2)] i p e show ?thesis by (simp add: nth)
    next
      case 3
      then have "cmp (xs ! p) (xs ! i) \<le> 0" using edge [OF i(1,2)] by simp
      then have "cmp (xs ! e) (xs ! i) \<le> 0" using cmp_trans less cmp_neg by blast
      with 3 i p e show ?thesis by (simp add: nth)
    next
      case 4 with edge [OF i(1,2)] i q p e show ?thesis by (simp add: nth)
    qed
  qed
  moreover have "cmp (?ys ! ((p - 1) div 2)) (?ys ! i) \<le> 0"
    if i: "0 < i" "i < n" "(i - 1) div 2 = p" "0 < p" for i
  proof -
    have pp: "(p - 1) div 2 < p" using i(4) by auto
    have top: "cmp (xs ! ((p - 1) div 2)) (xs ! p) \<le> 0"
      using edge [of p] p e i(4) by simp
    have ip: "i \<noteq> p" using i by linarith
    have ysp: "?ys ! ((p - 1) div 2) = xs ! ((p - 1) div 2)"
      using nth [of "(p - 1) div 2"] pp p e by simp
    show ?thesis
    proof (cases "i = e")
      case True with top p e ysp show ?thesis by (simp add: nth)
    next
      case False
      then have "cmp (xs ! p) (xs ! i) \<le> 0" using edge [OF i(1,2)] i(3) by simp
      with top have "cmp (xs ! ((p - 1) div 2)) (xs ! i) \<le> 0" using cmp_trans by blast
      with False i ip ysp show ?thesis by (simp add: nth)
    qed
  qed
  ultimately show ?thesis unfolding heap_but_def p_def [symmetric] by blast
qed

lemma sift_up_heap:
  "heap_but cmp n xs e \<Longrightarrow> e < n \<Longrightarrow> n \<le> length xs \<Longrightarrow> heap_upto cmp n (sift_up cmp xs e)"
proof (induction e arbitrary: xs rule: less_induct)
  case (less e)
  show ?case
  proof (cases "e > 0 \<and> cmp (xs ! e) (xs ! ((e - 1) div 2)) < 0")
    case True
    then have "heap_but cmp n (swap_at xs e ((e - 1) div 2)) ((e - 1) div 2)"
      using heap_but_swap less.prems by blast
    with True less.IH [of "(e - 1) div 2"] less.prems show ?thesis
      using sift_up.simps [of cmp xs e] by auto
  next
    case False
    then have "0 < e \<Longrightarrow> cmp (xs ! ((e - 1) div 2)) (xs ! e) \<le> 0"
      using cmp_flip [of "xs ! e" "xs ! ((e - 1) div 2)"] by auto
    then have "heap_upto cmp n xs"
      using less.prems(1) unfolding heap_upto_def heap_but_def by (metis)
    moreover have "sift_up cmp xs e = xs"
      using False sift_up.simps [of cmp xs e] by auto
    ultimately show ?thesis by simp
  qed
qed

lemma min_child_le:
  assumes "2 * i + 1 < n" and "c < n" and "(c - 1) div 2 = i" and "0 < c"
  shows "cmp (xs ! min_child cmp xs n i) (xs ! c) \<le> 0"
proof -
  have "c = 2 * i + 1 \<or> c = 2 * i + 2" using assms(3,4) by linarith
  then show ?thesis
    using assms(1,2) cmp_refl cmp_flip [of "xs ! (2 * i + 2)" "xs ! (2 * i + 1)"]
    by (auto simp: min_child_def)
qed

lemma heap_hole_swap:
  assumes hole: "heap_hole cmp n xs e" and e: "2 * e + 1 < n" "n \<le> length xs"
  shows "heap_hole cmp n (swap_at xs e (min_child cmp xs n e)) (min_child cmp xs n e)"
proof -
  define c where "c = min_child cmp xs n e"
  let ?ys = "swap_at xs e c"
  have c: "e < c" "c < n" "(c - 1) div 2 = e"
    using e by (auto simp: c_def min_child_def)
  have nth: "?ys ! k = (if k = c then xs ! e else if k = e then xs ! c else xs ! k)"
    if "k < n" for k
    using nth_swap_at [of e xs c k] e c that by auto
  have edge: "cmp (xs ! ((i - 1) div 2)) (xs ! i) \<le> 0"
    if "0 < i" "i < n" "i \<noteq> e" "(i - 1) div 2 \<noteq> e" for i
    using hole that by (simp add: heap_hole_def)
  have above: "cmp (xs ! ((e - 1) div 2)) (xs ! c) \<le> 0" if "0 < e"
    using hole c that by (auto simp: heap_hole_def)
  have small: "cmp (xs ! c) (xs ! i) \<le> 0" if "0 < i" "i < n" "(i - 1) div 2 = e" for i
    using min_child_le [OF e(1) that(2,3,1)] by (simp add: c_def)
  have "cmp (?ys ! ((i - 1) div 2)) (?ys ! i) \<le> 0"
    if i: "0 < i" "i < n" "i \<noteq> c" "(i - 1) div 2 \<noteq> c" for i
  proof -
    have q: "(i - 1) div 2 < n" "(i - 1) div 2 < i" using i by linarith+
    consider "i = e" | "i \<noteq> e" "(i - 1) div 2 = e" | "i \<noteq> e" "(i - 1) div 2 \<noteq> e" by blast
    then show ?thesis
    proof cases
      case 1 with above i q c show ?thesis by (simp add: nth)
    next
      case 2 with small [OF i(1,2)] i q c show ?thesis by (simp add: nth)
    next
      case 3 with edge [OF i(1,2)] i q c show ?thesis by (simp add: nth)
    qed
  qed
  moreover have "cmp (?ys ! ((c - 1) div 2)) (?ys ! i) \<le> 0"
    if i: "0 < i" "i < n" "(i - 1) div 2 = c" for i
  proof -
    have "i \<noteq> c" "i \<noteq> e" using i c by linarith+
    with edge [OF i(1,2)] i c show ?thesis by (simp add: nth)
  qed
  ultimately show ?thesis unfolding heap_hole_def c_def by blast
qed

lemma sink_hole:
  "heap_hole cmp n xs i \<Longrightarrow> i < n \<Longrightarrow> n \<le> length xs \<Longrightarrow> sink cmp xs n i = (j, ys) \<Longrightarrow>
   heap_hole cmp n ys j"
proof (induction "n - i" arbitrary: xs i rule: less_induct)
  case less
  show ?case
  proof (cases "2 * i + 1 < n")
    case True
    let ?c = "min_child cmp xs n i"
    have c: "i < ?c" "?c < n" using min_child_bounds True by auto
    have "sink cmp (swap_at xs i ?c) n ?c = (j, ys)"
      using True less.prems(4) sink.simps [of cmp xs n i] by simp
    then show ?thesis
      using less.hyps [of ?c "swap_at xs i ?c"] heap_hole_swap [OF less.prems(1) True less.prems(3)]
        c less.prems by auto
  next
    case False
    then show ?thesis using less.prems sink.simps [of cmp xs n i] by simp
  qed
qed

lemma hole_leaf_but: "heap_hole cmp n xs e \<Longrightarrow> n \<le> 2 * e + 1 \<Longrightarrow> heap_but cmp n xs e"
proof -
  assume hole: "heap_hole cmp n xs e" and leaf: "n \<le> 2 * e + 1"
  have "(i - 1) div 2 \<noteq> e" if "0 < i" "i < n" for i
    using leaf that by linarith
  with hole show ?thesis by (auto simp: heap_hole_def heap_but_def)
qed

lemma heap_root_min:
  "heap_upto cmp n xs \<Longrightarrow> i < n \<Longrightarrow> cmp (xs ! 0) (xs ! i) \<le> 0"
proof (induction i rule: less_induct)
  case (less i)
  show ?case
  proof (cases "i = 0")
    case True then show ?thesis by (simp add: cmp_refl)
  next
    case False
    then have "cmp (xs ! 0) (xs ! ((i - 1) div 2)) \<le> 0"
      using less by auto
    moreover have "cmp (xs ! ((i - 1) div 2)) (xs ! i) \<le> 0"
      using less.prems False by (simp add: heap_upto_def)
    ultimately show ?thesis using cmp_trans by blast
  qed
qed

lemma heap_pop_list:
  assumes heap: "heap_upto cmp (Suc n) xs" and len: "n < length xs"
    and sink: "sink cmp (swap_at xs 0 n) n 0 = (j, ys)" and n: "0 < n"
  shows "heap_upto cmp n (sift_up cmp ys j)"
proof -
  have nth: "swap_at xs 0 n ! k = xs ! k" if "0 < k" "k < n" for k
    using nth_swap_at [of 0 xs n k] len that by fastforce
  have "cmp (swap_at xs 0 n ! ((i - 1) div 2)) (swap_at xs 0 n ! i) \<le> 0"
    if i: "0 < i" "i < n" "(i - 1) div 2 \<noteq> 0" for i
  proof -
    have "(i - 1) div 2 < n" using i by linarith
    then show ?thesis using i heap by (simp add: nth heap_upto_def)
  qed
  then have "heap_hole cmp n (swap_at xs 0 n) 0"
    by (auto simp: heap_hole_def)
  then have "heap_hole cmp n ys j"
    using sink_hole sink n len by auto
  moreover have "j < n" "length ys = length xs" "n \<le> 2 * j + 1"
    using sink_bounds [of 0 n "swap_at xs 0 n" cmp j ys] sink n len by auto
  ultimately show ?thesis
    using hole_leaf_but sift_up_heap len by auto
qed

end

section \<open>The model computes on the list of its elements\<close>

text \<open>\<open>holds a xs\<close>: the array holds the list \<open>xs\<close> and \<^verbatim>\<open>array_at\<close> reaches all of it.\<close>

definition holds :: "'a array_t \<Rightarrow> 'a list \<Rightarrow> bool" where
  "holds a xs \<longleftrightarrow> array_full a \<and> array_list a = xs \<and> nelm a < 2 ^ 31"

lemma holds_nelm: "holds a xs \<Longrightarrow> nelm a = length xs"
  by (auto simp: holds_def array_full_length)

lemma heap_get_ok: "holds (array heap) xs \<Longrightarrow> i < length xs \<Longrightarrow> heap_get heap i = Inr (xs ! i)"
  using holds_nelm [of "array heap" xs] array_read_ok [of "array heap" i]
  by (auto simp: heap_get_def holds_def)

lemma array_write_holds:
  assumes "holds a xs" and "i < length xs"
  obtains a' where "array_write a (array_at a (int i)) x = Inr a'" and "holds a' (xs[i := x])"
    and "array_write a (Some i) x = Inr a'"
proof -
  have i: "i < nelm a" using assms holds_nelm by metis
  have full: "array_full a" using assms(1) by (simp add: holds_def)
  obtain a' where "array_write a (Some i) x = Inr a'" "array_full a'" "nelm a' = nelm a"
    "array_list a' = (array_list a)[i := x]"
    by (rule array_write_ok [OF full i])
  with assms i show thesis
    by (intro that [of a']) (auto simp: holds_def)
qed

lemma heap_swp_ok:
  assumes "holds (array heap) xs" and "swp heap = prod.swap" and "i < length xs" and "j < length xs"
  obtains a' where "heap_swp heap i j = Inr (heap\<lparr>array := a'\<rparr>)" and "holds a' (swap_at xs i j)"
proof -
  obtain a1 where a1: "array_write (array heap) (array_at (array heap) (int i)) (xs ! j) = Inr a1"
    "holds a1 (xs[i := xs ! j])"
    using array_write_holds [OF assms(1,3)] by metis
  have j: "j < length (xs[i := xs ! j])" using assms(4) by simp
  obtain a2 where a2: "array_write a1 (Some j) (xs ! i) = Inr a2"
    "holds a2 (swap_at xs i j)"
    using array_write_holds [OF a1(2) j] by (metis swap_at_def)
  have at: "array_at (array heap) (int j) = Some j" "array_at (array heap) (int i) = Some i"
    using assms holds_nelm [OF assms(1)] by (auto simp: holds_def)
  have "heap_swp heap i j = Inr (heap\<lparr>array := a2\<rparr>)"
    using heap_get_ok [OF assms(1,3)] heap_get_ok [OF assms(1,4)] a1(1) a2(1) assms(2)
    by (simp add: heap_swp_def heap_get_def Let_def at)
  with a2(2) show thesis by (rule that [rotated -1])
qed

lemma shiftdown_ok:
  "holds (array heap) xs \<Longrightarrow> swp heap = prod.swap \<Longrightarrow> at < length xs \<Longrightarrow>
   \<exists>a'. shiftdown heap 0 at = Inr (heap\<lparr>array := a'\<rparr>) \<and> holds a' (sift_up (comp heap) xs at)"
proof (induction at arbitrary: heap xs rule: less_induct)
  case (less at)
  let ?i = "(at - 1) div 2"
  show ?case
  proof (cases "at > 0 \<and> comp heap (xs ! at) (xs ! ?i) < 0")
    case True
    then have i: "?i < at" "?i < length xs" using less.prems by auto
    obtain a1 where a1: "heap_swp heap at ?i = Inr (heap\<lparr>array := a1\<rparr>)" "holds a1 (swap_at xs at ?i)"
      using heap_swp_ok [OF less.prems i(2)] by metis
    have "\<exists>a'. shiftdown (heap\<lparr>array := a1\<rparr>) 0 ?i = Inr (heap\<lparr>array := a'\<rparr>) \<and>
      holds a' (sift_up (comp heap) (swap_at xs at ?i) ?i)"
      using less.IH [OF i(1), of "heap\<lparr>array := a1\<rparr>" "swap_at xs at ?i"] a1(2) less.prems i by simp
    then show ?thesis
      using True heap_get_ok [OF less.prems(1,3)] heap_get_ok [OF less.prems(1) i(2)] a1(1)
        sift_up.simps [of "comp heap" xs at] shiftdown.simps [of heap 0 at]
      by (auto simp: Let_def)
  next
    case False
    have "sift_up (comp heap) xs at = xs"
      using False sift_up.simps [of "comp heap" xs at] by auto
    moreover have "shiftdown heap 0 at = Inr heap"
      using False heap_get_ok [OF less.prems(1,3)] heap_get_ok [OF less.prems(1), of ?i] less.prems
      by (auto simp: shiftdown.simps [of heap 0 at] Let_def)
    ultimately show ?thesis
      using less.prems(1) by (intro exI [of _ "array heap"]) simp
  qed
qed

lemma shiftup_loop_ok:
  "holds (array heap) xs \<Longrightarrow> swp heap = prod.swap \<Longrightarrow> i < length xs \<Longrightarrow> n \<le> length xs \<Longrightarrow>
   sink (comp heap) xs n i = (j, ys) \<Longrightarrow>
   \<exists>a'. shiftup_loop heap n i = Inr (j, heap\<lparr>array := a'\<rparr>) \<and> holds a' ys"
proof (induction "n - i" arbitrary: heap xs i rule: less_induct)
  case less
  show ?case
  proof (cases "2 * i + 1 < n")
    case True
    let ?c = "min_child (comp heap) xs n i"
    have c: "i < ?c" "?c < n" "?c < length xs"
      using min_child_bounds [OF True] less.prems(4) by (meson order_less_le_trans)+
    obtain a1 where a1: "heap_swp heap i ?c = Inr (heap\<lparr>array := a1\<rparr>)" "holds a1 (swap_at xs i ?c)"
      using heap_swp_ok [OF less.prems(1-3) c(3)] by metis
    have "sink (comp heap) (swap_at xs i ?c) n ?c = (j, ys)"
      using True less.prems(5) sink.simps [of "comp heap" xs n i] by simp
    then have step: "\<exists>a'. shiftup_loop (heap\<lparr>array := a1\<rparr>) n ?c = Inr (j, heap\<lparr>array := a'\<rparr>) \<and> holds a' ys"
      using less.hyps [of ?c "heap\<lparr>array := a1\<rparr>" "swap_at xs i ?c"] a1(2) less.prems c by auto
    have sel: "(if 2 * i + 1 + 1 < n
       then rbind (heap_get heap (2 * i + 1)) (\<lambda>x. rbind (heap_get heap (2 * i + 1 + 1)) (\<lambda>y.
              Inr (if comp heap x y > 0 then 2 * i + 1 + 1 else 2 * i + 1)))
       else Inr (2 * i + 1)) = Inr ?c"
      using True less.prems(4) heap_get_ok [OF less.prems(1), of "2 * i + 1"]
        heap_get_ok [OF less.prems(1), of "2 * i + 1 + 1"]
      by (auto simp: min_child_def)
    have "shiftup_loop heap n i = shiftup_loop (heap\<lparr>array := a1\<rparr>) n ?c"
      by (simp only: shiftup_loop.simps [of heap n i] Let_def True if_True sel rbind_simps a1(1))
    with step show ?thesis by simp
  next
    case False
    then show ?thesis
      using less.prems
      by (intro exI [of _ "array heap"])
        (auto simp: shiftup_loop.simps [of heap] sink.simps [of _ xs n i] Let_def)
  qed
qed

section \<open>The heap is a priority queue\<close>

definition heap_bag :: "('a, 'c) minheap_t \<Rightarrow> 'a multiset" where
  "heap_bag heap = mset (take (hlen heap) (array_list (array heap)))"

definition heap_wf :: "('a \<Rightarrow> 'a \<Rightarrow> int) \<Rightarrow> ('a, 'c) minheap_t \<Rightarrow> bool" where
  "heap_wf cmp heap \<longleftrightarrow>
     array_full (array heap) \<and> nelm (array heap) < 2 ^ 31 \<and> hlen heap \<le> nelm (array heap) \<and>
     comp heap = cmp \<and> cpy heap = (\<lambda>x. x) \<and> swp heap = prod.swap \<and>
     heap_upto cmp (hlen heap) (array_list (array heap))"

lemma heap_wfI:
  "holds (array heap) xs \<Longrightarrow> hlen heap \<le> length xs \<Longrightarrow> comp heap = cmp \<Longrightarrow> cpy heap = (\<lambda>x. x) \<Longrightarrow>
   swp heap = prod.swap \<Longrightarrow> heap_upto cmp (hlen heap) xs \<Longrightarrow> heap_wf cmp heap"
  using holds_nelm [of "array heap" xs] by (auto simp: heap_wf_def holds_def)

lemma heap_wfD:
  assumes "heap_wf cmp heap"
  obtains xs where "holds (array heap) xs" and "hlen heap \<le> length xs" and "comp heap = cmp"
    and "cpy heap = (\<lambda>x. x)" and "swp heap = prod.swap" and "heap_upto cmp (hlen heap) xs"
    and "heap_bag heap = mset (take (hlen heap) xs)"
  using assms array_full_length [of "array heap"]
  by (intro that [of "array_list (array heap)"]) (auto simp: heap_wf_def holds_def heap_bag_def)

lemma heap_upto_cong:
  "(\<And>i. i < n \<Longrightarrow> xs ! i = ys ! i) \<Longrightarrow> heap_upto cmp n xs = heap_upto cmp n ys"
proof -
  assume eq: "\<And>i. i < n \<Longrightarrow> xs ! i = ys ! i"
  have "cmp (xs ! ((i - 1) div 2)) (xs ! i) = cmp (ys ! ((i - 1) div 2)) (ys ! i)"
    if "0 < i" "i < n" for i
  proof -
    have "(i - 1) div 2 < n" using that by linarith
    with that show ?thesis by (simp add: eq)
  qed
  then show ?thesis unfolding heap_upto_def by auto
qed

lemma heap_bag_size: "heap_wf cmp heap \<Longrightarrow> size (heap_bag heap) = minheap_len heap"
  by (auto simp: heap_bag_def heap_wf_def minheap_len_def array_full_length)

lemma minheap_create_wf:
  assumes "n < 2 ^ 31" and "0 < s" and "s < 2 ^ 32"
  shows "heap_wf cmp (minheap_create n s cmp (\<lambda>x. x) prod.swap)"
    and "heap_bag (minheap_create n s cmp (\<lambda>x. x) prod.swap) = {#}"
  using array_create_wf [OF assms, where ?'a = 'a]
  by (auto simp: heap_wf_def minheap_create_def heap_upto_def heap_bag_def)

text \<open>The slot \<^verbatim>\<open>minheap_push\<close> writes, in both branches.\<close>

lemma push_slot:
  assumes "holds a xs" and "n \<le> length xs" and "n + 1 < 2 ^ 31"
  obtains a' ys where
    "(let (item, b) = (if n = array_len a then (case array_push a of (p, b) \<Rightarrow> (Some p, b))
                       else (array_at a (int n), a)) in array_write b item x) = Inr a'"
    and "holds a' ys" and "n < length ys" and "take n ys = take n xs" and "ys ! n = x"
proof (cases "n = length xs")
  case True
  have full: "array_full a" "nelm a < 2 ^ 31" using assms(1) by (auto simp: holds_def)
  obtain a1 a2 where a: "array_push a = (nelm a, a1)" "array_write a1 (Some (nelm a)) x = Inr a2"
    "array_full a2" "nelm a2 = nelm a + 1" "array_list a2 = array_list a @ [x]"
    by (rule array_push_write [OF full])
  show thesis
    using True assms a holds_nelm [OF assms(1)]
    by (intro that [of a2 "xs @ [x]"]) (auto simp: array_len_def holds_def)
next
  case False
  then have n: "n < length xs" using assms(2) by simp
  obtain a' where "array_write a (array_at a (int n)) x = Inr a'" "holds a' (xs[n := x])"
    by (rule array_write_holds [OF assms(1) n])
  with False n holds_nelm [OF assms(1)] show thesis
    by (intro that [of a' "xs[n := x]"]) (auto simp: array_len_def)
qed

context heap_order
begin

lemma push_spec:
  assumes wf: "heap_wf cmp heap" and room: "minheap_len heap + 1 < 2 ^ 31"
  shows "\<exists>heap'. minheap_push heap x = Inr (0, heap') \<and> heap_wf cmp heap' \<and>
    heap_bag heap' = add_mset x (heap_bag heap) \<and> hfree_cb heap' = hfree_cb heap"
proof -
  let ?n = "hlen heap"
  obtain xs where xs: "holds (array heap) xs" "?n \<le> length xs" "comp heap = cmp"
    "cpy heap = (\<lambda>x. x)" "swp heap = prod.swap" "heap_upto cmp ?n xs"
    "heap_bag heap = mset (take ?n xs)"
    by (rule heap_wfD [OF wf])
  have room': "?n + 1 < 2 ^ 31" using room by (simp add: minheap_len_def)
  obtain a1 ys where a1:
    "(let (item, b) = (if ?n = array_len (array heap)
        then (case array_push (array heap) of (p, b) \<Rightarrow> (Some p, b))
        else (array_at (array heap) (int ?n), array heap)) in array_write b item x) = Inr a1"
    and ys: "holds a1 ys" "?n < length ys" "take ?n ys = take ?n xs" "ys ! ?n = x"
    by (rule push_slot [OF xs(1,2) room'])
  let ?h = "heap\<lparr>array := a1, hlen := ?n + 1\<rparr>"
  have same: "ys ! i = xs ! i" if "i < ?n" for i
    using ys(3) that by (metis nth_take)
  have "heap_upto cmp ?n ys"
    using xs(6) heap_upto_cong [of ?n ys xs] same by simp
  then have but: "heap_but cmp (?n + 1) ys ?n"
    by (auto simp: heap_upto_def heap_but_def)
  obtain a2 where a2: "shiftdown ?h 0 ?n = Inr (?h\<lparr>array := a2\<rparr>)" "holds a2 (sift_up cmp ys ?n)"
    using shiftdown_ok [of ?h ys ?n] ys xs by auto
  have push: "minheap_push heap x = Inr (0, ?h\<lparr>array := a2\<rparr>)"
    using a1 a2(1) xs(4) by (auto simp: minheap_push_def Let_def split: prod.splits)
  have "heap_upto cmp (?n + 1) (sift_up cmp ys ?n)"
    using sift_up_heap [OF but] ys(2) by simp
  then have wf': "heap_wf cmp (?h\<lparr>array := a2\<rparr>)"
    using a2(2) xs ys by (intro heap_wfI [of _ "sift_up cmp ys ?n"]) auto
  have "mset (take (?n + 1) (sift_up cmp ys ?n)) = mset (take (?n + 1) ys)"
    using sift_up_perm [of ?n "?n + 1" ys cmp] ys(2) by simp
  also have "take (?n + 1) ys = take ?n xs @ [x]"
    using ys by (simp add: take_Suc_conv_app_nth)
  finally have "heap_bag (?h\<lparr>array := a2\<rparr>) = add_mset x (heap_bag heap)"
    using a2(2) xs(7) by (simp add: heap_bag_def holds_def)
  with push wf' show ?thesis by auto
qed

lemma pop_spec:
  assumes wf: "heap_wf cmp heap" and ne: "minheap_len heap \<noteq> 0"
  shows "\<exists>p v heap'. minheap_pop heap = Inr (Some p, heap') \<and>
    array_read (array heap') (Some p) = Inr v \<and> heap_wf cmp heap' \<and>
    heap_bag heap = add_mset v (heap_bag heap') \<and> (\<forall>y\<in>#heap_bag heap. cmp v y \<le> 0) \<and>
    hfree_cb heap' = hfree_cb heap"
proof -
  obtain xs where xs: "holds (array heap) xs" "hlen heap \<le> length xs" "comp heap = cmp"
    "cpy heap = (\<lambda>x. x)" "swp heap = prod.swap" "heap_upto cmp (hlen heap) xs"
    "heap_bag heap = mset (take (hlen heap) xs)"
    by (rule heap_wfD [OF wf])
  define n where "n = hlen heap - 1"
  have n: "hlen heap = Suc n" "n < length xs"
    using ne xs(2) by (auto simp: n_def minheap_len_def)
  have z: "0 < length xs" using n by linarith
  obtain a1 where a1: "heap_swp heap 0 n = Inr (heap\<lparr>array := a1\<rparr>)" "holds a1 (swap_at xs 0 n)"
    using heap_swp_ok [OF xs(1,5) z n(2)] by metis
  let ?h1 = "heap\<lparr>array := a1, hlen := n\<rparr>"
  obtain j ys where sink: "sink cmp (swap_at xs 0 n) n 0 = (j, ys)" by fastforce
  obtain a2 where a2: "shiftup_loop ?h1 n 0 = Inr (j, ?h1\<lparr>array := a2\<rparr>)" "holds a2 ys"
    using shiftup_loop_ok [of ?h1 "swap_at xs 0 n" 0 n j ys] a1(2) xs n z sink by auto
  have len: "length ys = length xs" and j: "j < length xs"
    using sink_bounds [of 0 n "swap_at xs 0 n" cmp j ys] sink n sink.simps [of cmp "swap_at xs 0 n" n 0]
    by (cases "n = 0"; auto)+
  obtain a3 where a3: "shiftdown (?h1\<lparr>array := a2\<rparr>) 0 j = Inr (?h1\<lparr>array := a3\<rparr>)"
    "holds a3 (sift_up cmp ys j)"
    using shiftdown_ok [of "?h1\<lparr>array := a2\<rparr>" ys j] a2(2) xs len j by auto
  let ?h = "?h1\<lparr>array := a3\<rparr>" and ?zs = "sift_up cmp ys j"
  have perm: "mset (take n ?zs) = mset (take n (swap_at xs 0 n)) \<and> drop n ?zs = drop n (swap_at xs 0 n)"
  proof (cases "n = 0")
    case True
    then have "ys = swap_at xs 0 n" "j = 0"
      using sink sink.simps [of cmp "swap_at xs 0 n" n 0] by auto
    then show ?thesis using True sift_up.simps [of cmp ys 0] by simp
  next
    case False
    then have "j < n"
      using sink_bounds [of 0 n "swap_at xs 0 n" cmp j ys] sink n by auto
    then show ?thesis
      using sink_perm [of 0 n "swap_at xs 0 n" cmp j ys] sift_up_perm [of j n ys cmp] sink n len False
      by auto
  qed
  have nth_n: "swap_at xs 0 n ! n = xs ! 0"
    using nth_swap_at [of 0 xs n n] n z by simp
  have last: "?zs ! n = xs ! 0"
    using perm nth_n n len by (metis add.right_neutral length_sift_up length_swap_at less_imp_le_nat nth_drop)
  have at: "array_at a3 (int n) = Some n" "array_read a3 (Some n) = Inr (xs ! 0)"
    using a3(2) n len last holds_nelm [OF a3(2)] by (auto simp: holds_def array_read_ok)
  have pop: "minheap_pop heap = Inr (Some n, ?h)"
    using n(1) a1(1) a2(1) a3(1) at(1) by (simp add: minheap_pop_def shiftup_def)
  have heap: "heap_upto cmp n ?zs"
  proof (cases "n = 0")
    case False
    then show ?thesis
      using heap_pop_list [of n xs j ys] xs(6) n sink by simp
  qed (simp add: heap_upto_def)
  have wf': "heap_wf cmp ?h"
    using a3(2) xs heap n len by (intro heap_wfI [of _ ?zs]) auto
  have "mset (take (Suc n) (swap_at xs 0 n)) = mset (take (Suc n) xs)"
    using take_swap_at [of 0 "Suc n" n xs] n by auto
  moreover have "take (Suc n) (swap_at xs 0 n) = take n (swap_at xs 0 n) @ [xs ! 0]"
    using n nth_n by (simp add: take_Suc_conv_app_nth)
  ultimately have bag: "heap_bag heap = add_mset (xs ! 0) (heap_bag ?h)"
    using xs(7) a3(2) perm n(1) by (simp add: heap_bag_def holds_def)
  have "cmp (xs ! 0) y \<le> 0" if "y \<in># heap_bag heap" for y
  proof -
    from that obtain i where "i < Suc n" "y = xs ! i"
      using xs(7) n by (auto simp: in_set_conv_nth)
    then show ?thesis using heap_root_min xs(6) n(1) by auto
  qed
  with pop at(2) wf' bag show ?thesis by auto
qed

lemma min_spec:
  assumes wf: "heap_wf cmp heap" and ne: "minheap_len heap \<noteq> 0"
  shows "\<exists>p v. minheap_min heap = Some p \<and> array_read (array heap) (Some p) = Inr v \<and>
    v \<in># heap_bag heap \<and> (\<forall>y\<in>#heap_bag heap. cmp v y \<le> 0)"
proof -
  obtain xs where xs: "holds (array heap) xs" "hlen heap \<le> length xs" "heap_upto cmp (hlen heap) xs"
    "heap_bag heap = mset (take (hlen heap) xs)"
    by (rule heap_wfD [OF wf]) blast
  have n: "0 < hlen heap" using ne by (simp add: minheap_len_def)
  then have z: "0 < length xs" using xs(2) by linarith
  have "array_at (array heap) 0 = Some 0" "array_read (array heap) (Some 0) = Inr (xs ! 0)"
    using xs(1) z holds_nelm [OF xs(1)] array_at_in [of "array heap" 0]
    by (auto simp: holds_def array_read_ok)
  moreover have "xs ! 0 \<in># heap_bag heap"
    using xs(2,4) n z by (auto simp: in_set_conv_nth)
  moreover have "cmp (xs ! 0) y \<le> 0" if "y \<in># heap_bag heap" for y
  proof -
    from that obtain i where "i < hlen heap" "y = xs ! i"
      using xs by (auto simp: in_set_conv_nth)
    then show ?thesis using heap_root_min xs(3) by auto
  qed
  ultimately show ?thesis
    using n by (auto simp: minheap_min_def)
qed

end

section \<open>The interface: priority queues\<close>

text \<open>What clients do with a popped pointer: read the element before anything else.\<close>

definition pop_value :: "('a, 'c) minheap_t \<Rightarrow> ('a option \<times> ('a, 'c) minheap_t) result" where
  "pop_value heap =
     rbind (minheap_pop heap) (\<lambda>(p, heap').
       case p of
         None \<Rightarrow> Inr (None, heap')
       | Some i \<Rightarrow> rbind (array_read (array heap') (Some i)) (\<lambda>v. Inr (Some v, heap')))"

text \<open>\<^verbatim>\<open>while (n-- > 0 && (item = pop(q)) != NULL)\<close>\<close>

fun pop_n :: "('q \<Rightarrow> ('a option \<times> 'q) result) \<Rightarrow> nat \<Rightarrow> 'q \<Rightarrow> ('a list \<times> 'q) result" where
  "pop_n pop 0 q = Inr ([], q)"
| "pop_n pop (Suc n) q =
     rbind (pop q) (\<lambda>(v, q').
       case v of
         None \<Rightarrow> Inr ([], q')
       | Some x \<Rightarrow> rbind (pop_n pop n q') (\<lambda>(xs, q''). Inr (x # xs, q'')))"

locale prio_queue =
  fixes wf :: "'q \<Rightarrow> bool"
    and bag :: "'q \<Rightarrow> 'a multiset"
    and pop :: "'q \<Rightarrow> ('a option \<times> 'q) result"
    and le :: "'a \<Rightarrow> 'a \<Rightarrow> bool"
  assumes pop_empty: "wf q \<Longrightarrow> bag q = {#} \<Longrightarrow> pop q = Inr (None, q)"
    and pop_least: "wf q \<Longrightarrow> bag q \<noteq> {#} \<Longrightarrow>
      \<exists>v q'. pop q = Inr (Some v, q') \<and> wf q' \<and> bag q = add_mset v (bag q') \<and> (\<forall>y\<in>#bag q. le v y)"
begin

lemma pop_n_sorted:
  "wf q \<Longrightarrow>
   \<exists>xs q'. pop_n pop n q = Inr (xs, q') \<and> wf q' \<and> length xs = min n (size (bag q)) \<and>
     bag q = mset xs + bag q' \<and> sorted_wrt le xs \<and> (\<forall>x\<in>set xs. \<forall>y\<in>#bag q'. le x y)"
proof (induction n arbitrary: q)
  case (Suc n)
  show ?case
  proof (cases "bag q = {#}")
    case True
    with Suc.prems pop_empty show ?thesis by simp
  next
    case False
    then obtain v q1 where pop: "pop q = Inr (Some v, q1)" "wf q1" "bag q = add_mset v (bag q1)"
      "\<forall>y\<in>#bag q. le v y"
      using pop_least Suc.prems by blast
    obtain xs q2 where "pop_n pop n q1 = Inr (xs, q2)" "wf q2" "length xs = min n (size (bag q1))"
      "bag q1 = mset xs + bag q2" "sorted_wrt le xs" "\<forall>x\<in>set xs. \<forall>y\<in>#bag q2. le x y"
      using Suc.IH [OF pop(2)] by blast
    with pop show ?thesis by simp
  qed
qed simp

end

sublocale heap_order \<subseteq> queue: prio_queue "heap_wf cmp" heap_bag pop_value "\<lambda>a b. cmp a b \<le> 0"
proof unfold_locales
  fix q :: "('a, 'c) minheap_t"
  assume wf: "heap_wf cmp q"
  show "pop_value q = Inr (None, q)" if "heap_bag q = {#}"
    using heap_bag_size [OF wf] that by (simp add: pop_value_def minheap_pop_def minheap_len_def)
  show "\<exists>v q'. pop_value q = Inr (Some v, q') \<and> heap_wf cmp q' \<and>
      heap_bag q = add_mset v (heap_bag q') \<and> (\<forall>y\<in>#heap_bag q. cmp v y \<le> 0)"
    if ne: "heap_bag q \<noteq> {#}"
  proof -
    have "minheap_len q \<noteq> 0"
      using heap_bag_size [OF wf] ne by (metis size_eq_0_iff_empty)
    then obtain p v q' where "minheap_pop q = Inr (Some p, q')" "array_read (array q') (Some p) = Inr v"
      "heap_wf cmp q'" "heap_bag q = add_mset v (heap_bag q')" "\<forall>y\<in>#heap_bag q. cmp v y \<le> 0"
      using pop_spec [OF wf] by blast
    then show ?thesis by (auto simp: pop_value_def)
  qed
qed

text \<open>Freeing a heap calls the callback on each of its elements once.\<close>

lemma minheap_free_calls:
  fixes heap :: "('a, 'c) minheap_t"
  assumes "heap_wf cmp heap"
  shows "minheap_free heap = Inr (case hfree_cb heap of None \<Rightarrow> []
    | Some f \<Rightarrow> map (\<lambda>x. (f, x)) (take (hlen heap) (array_list (array heap))))"
proof -
  have full: "array_full (array heap)" and len: "hlen heap \<le> nelm (array heap)"
    using assms by (auto simp: heap_wf_def)
  let ?xs = "array_list (array heap)"
  have "fold (\<lambda>i r. rbind r (\<lambda>calls. rbind (array_read (array heap) (Some i))
      (\<lambda>x. Inr (calls @ [(f, x)])))) [0..<n] (Inr []) = Inr (map (\<lambda>x. (f, x)) (take n ?xs))"
    if "n \<le> nelm (array heap)" for n and f :: 'c
    using that
  proof (induction n)
    case (Suc n)
    then show ?case
      using full by (simp add: array_read_ok array_full_length take_Suc_conv_app_nth)
  qed simp
  with len show ?thesis by (simp add: minheap_free_def split: option.splits)
qed

end
