(* ===== verification/Util.thy ===== *)
theory Util
  imports Prelude
begin

text \<open>
  The number conversions of \<^verbatim>\<open>util.c\<close>.

  \<^verbatim>\<open>unsigned long long\<close> values are naturals below \<open>2 ^ 64\<close> and \<^verbatim>\<open>long long\<close> values
  integers between \<open>LLONG_MIN\<close> and \<open>LLONG_MAX\<close>; each place where the C type could
  overflow has the check of the source or the wrap-around written out. The
  reference is \<open>dec\<close>, the decimal representation of an integer: \<^verbatim>\<open>ll2string\<close> prints it
  and \<^verbatim>\<open>string2ll\<close> accepts exactly the strings it produces.
\<close>

section \<open>The model\<close>

definition LLONG_MAX :: int where "LLONG_MAX = 2 ^ 63 - 1"
definition LLONG_MIN :: int where "LLONG_MIN = - (2 ^ 63)"
definition ULLONG_MAX :: nat where "ULLONG_MAX = 2 ^ 64 - 1"

text \<open>A result converted to \<^verbatim>\<open>long long\<close>: the 64 low bits, read as signed.\<close>

definition to_ll :: "int \<Rightarrow> int" where
  "to_ll x = signed_take_bit 63 x"

definition is_digit :: "char \<Rightarrow> bool" where
  "is_digit c \<longleftrightarrow> 48 \<le> (of_char c :: nat) \<and> (of_char c :: nat) \<le> 57"

definition digit_val :: "char \<Rightarrow> nat" where
  "digit_val c = of_char c - 48"

definition digit_char :: "nat \<Rightarrow> char" where
  "digit_char d = char_of (48 + d)"

function digits10 :: "nat \<Rightarrow> nat" where
  "digits10 v =
     (if v < 10 then 1
      else if v < 100 then 2
      else if v < 1000 then 3
      else if v < 1000000000000 then
        (if v < 100000000 then
           (if v < 1000000 then
              (if v < 10000 then 4 else 5 + (if v \<ge> 100000 then 1 else 0))
            else 7 + (if v \<ge> 10000000 then 1 else 0))
         else if v < 10000000000 then 9 + (if v \<ge> 1000000000 then 1 else 0)
         else 11 + (if v \<ge> 100000000000 then 1 else 0))
      else 12 + digits10 (v div 1000000000000))"
  by pat_completeness auto
termination
  by (relation "measure id") auto

definition sdigits10 :: "int \<Rightarrow> nat" where
  "sdigits10 v =
     (if v < 0
      then (let uv = (if v \<noteq> LLONG_MIN then nat (- v) else nat LLONG_MAX + 1) in digits10 uv + 1)
      else digits10 (nat v))"

definition digits :: string where
  "digits =
     ''0001020304050607080910111213141516171819'' @
     ''2021222324252627282930313233343536373839'' @
     ''4041424344454647484950515253545556575859'' @
     ''6061626364656667686970717273747576777879'' @
     ''8081828384858687888990919293949596979899''"

text \<open>The loop of \<^verbatim>\<open>ll2string\<close> and the last one or two digits.\<close>

function ll2string_digits :: "string \<Rightarrow> nat \<Rightarrow> nat \<Rightarrow> string" where
  "ll2string_digits dst nxt value =
     (if value \<ge> 100 then
        (let i = (value mod 100) * 2
         in ll2string_digits (dst[nxt := digits ! (i + 1), nxt - 1 := digits ! i]) (nxt - 2) (value div 100))
      else if value < 10 then dst[nxt := char_of (48 + value)]
      else (let i = value * 2 in dst[nxt := digits ! (i + 1), nxt - 1 := digits ! i]))"
  by pat_completeness auto
termination
  by (relation "measure (\<lambda>(dst, nxt, value). value)") auto

text \<open>
  \<^verbatim>\<open>ll2string(dst, dstlen, svalue)\<close>: the buffer afterwards and the length returned, 0
  when the buffer is too small.
\<close>

definition ll2string :: "string \<Rightarrow> nat \<Rightarrow> int \<Rightarrow> string \<times> nat" where
  "ll2string dst dstlen svalue =
     (let (value, negative) =
        (if svalue < 0
         then (if svalue \<noteq> LLONG_MIN then nat (- svalue) else nat LLONG_MAX + 1, True)
         else (nat svalue, False));
        len = digits10 value + (if negative then 1 else 0)
      in if len \<ge> dstlen then (dst, 0)
         else
           (let dst1 = dst[len := NUL];
                dst2 = ll2string_digits dst1 (len - 1) value;
                dst3 = (if negative then dst2[0 := CHR ''-''] else dst2)
            in (dst3, len)))"

text \<open>The digit loop of \<^verbatim>\<open>string2ll\<close>: the value, and what is left of the string.\<close>

fun string2ll_loop :: "nat \<Rightarrow> string \<Rightarrow> (nat \<times> string) option" where
  "string2ll_loop v [] = Some (v, [])"
| "string2ll_loop v (c # p) =
     (if is_digit c then
        (if v > ULLONG_MAX div 10 then None
         else if v * 10 > ULLONG_MAX - digit_val c then None
         else string2ll_loop (v * 10 + digit_val c) p)
      else Some (v, c # p))"

definition string2ll :: "string \<Rightarrow> int option" where
  "string2ll s =
     (if s = [] then None
      else if s = ''0'' then Some 0
      else
        (let negative = (s ! 0 = CHR ''-''); p = (if negative then tl s else s)
         in case p of
              [] \<Rightarrow> None
            | c # p' \<Rightarrow>
                if is_digit c \<and> c \<noteq> CHR ''0'' then
                  (case string2ll_loop (digit_val c) p' of
                     None \<Rightarrow> None
                   | Some (v, rest) \<Rightarrow>
                       if rest \<noteq> [] then None
                       else if negative then
                         (if v > nat (- (LLONG_MIN + 1)) + 1 then None else Some (- int v))
                       else (if v > nat LLONG_MAX then None else Some (int v)))
                else None))"

text \<open>\<^verbatim>\<open>string2l\<close>; \<^verbatim>\<open>long\<close> has the range of \<^verbatim>\<open>long long\<close>.\<close>

definition string2l :: "string \<Rightarrow> int option" where
  "string2l s =
     (case string2ll s of
        None \<Rightarrow> None
      | Some llval \<Rightarrow> if llval < LLONG_MIN \<or> llval > LLONG_MAX then None else Some llval)"

text \<open>
  The C library's \<^verbatim>\<open>tolower\<close>, \<^verbatim>\<open>isspace\<close>, \<^verbatim>\<open>strcasecmp(a, b) == 0\<close> and \<^verbatim>\<open>strtoll(s, &endptr, 10)\<close> in
  the C locale: \<open>strtoll\<close> gives the value, saturated at the bounds of the type, and
  what \<^verbatim>\<open>endptr\<close> points to.
\<close>

definition tolower :: "char \<Rightarrow> char" where
  "tolower c = (if 65 \<le> (of_char c :: nat) \<and> (of_char c :: nat) \<le> 90 then char_of (of_char c + 32 :: nat) else c)"

definition isspace :: "char \<Rightarrow> bool" where
  "isspace c \<longleftrightarrow> c = CHR '' '' \<or> 9 \<le> (of_char c :: nat) \<and> (of_char c :: nat) \<le> 13"

definition strcaseeq :: "string \<Rightarrow> string \<Rightarrow> bool" where
  "strcaseeq a b \<longleftrightarrow> map tolower a = map tolower b"

fun dval :: "nat \<Rightarrow> string \<Rightarrow> nat" where
  "dval v [] = v"
| "dval v (c # p) = dval (v * 10 + digit_val c) p"

definition strtoll :: "string \<Rightarrow> int \<times> string" where
  "strtoll s =
     (let p = dropWhile isspace s;
          negative = (p \<noteq> [] \<and> hd p = CHR ''-'');
          q = (if p \<noteq> [] \<and> (hd p = CHR ''-'' \<or> hd p = CHR ''+'') then tl p else p);
          ds = takeWhile is_digit q;
          v = (if negative then - int (dval 0 ds) else int (dval 0 ds))
      in if ds = [] then (0, s)
         else (max LLONG_MIN (min LLONG_MAX v), drop (length ds) q))"

text \<open>Whether \<^verbatim>\<open>strtoll\<close> sets \<^verbatim>\<open>errno\<close> to \<^verbatim>\<open>ERANGE\<close>: the number is outside the type.\<close>

definition strtoll_erange :: "string \<Rightarrow> bool" where
  "strtoll_erange s =
     (let p = dropWhile isspace s;
          q = (if p \<noteq> [] \<and> (hd p = CHR ''-'' \<or> hd p = CHR ''+'') then tl p else p);
          v = int (dval 0 (takeWhile is_digit q))
      in if p \<noteq> [] \<and> hd p = CHR ''-'' then - v < LLONG_MIN else v > LLONG_MAX)"

text \<open>\<^verbatim>\<open>memtoll\<close>: the value and whether \<^verbatim>\<open>*err\<close> is set. The product is that of \<^verbatim>\<open>long long\<close>.\<close>

definition memtoll :: "string \<Rightarrow> int \<times> bool" where
  "memtoll p =
     (let sign = (if p \<noteq> [] \<and> hd p = CHR ''-'' then 1 else 0);
          digits = sign + length (takeWhile is_digit (drop sign p));
          u = drop digits p;
          mul = (if u = [] \<or> strcaseeq u ''b'' then Some 1
                 else if strcaseeq u ''k'' then Some 1000
                 else if strcaseeq u ''kb'' then Some 1024
                 else if strcaseeq u ''m'' then Some (1000 * 1000)
                 else if strcaseeq u ''mb'' then Some (1024 * 1024)
                 else if strcaseeq u ''g'' then Some (1000 * 1000 * 1000)
                 else if strcaseeq u ''gb'' then Some (1024 * 1024 * 1024)
                 else None)
      in case mul of
           None \<Rightarrow> (0, True)
         | Some m \<Rightarrow>
             if digits \<ge> 128 then (0, True)
             else (case strtoll (take digits p) of
                     (val, endptr) \<Rightarrow> if endptr \<noteq> [] then (0, True) else (to_ll (val * m), False)))"

text \<open>\<^verbatim>\<open>memcmp\<close> of two byte strings of the same length: the difference at the first byte where they differ.\<close>

fun memcmp :: "string \<Rightarrow> string \<Rightarrow> int" where
  "memcmp (a # as) (b # bs) = (if a = b then memcmp as bs else of_char a - of_char b)"
| "memcmp _ _ = 0"

lemma memcmp_eq: "length a = length b \<Longrightarrow> memcmp a b = 0 \<longleftrightarrow> a = b"
  by (induction a b rule: memcmp.induct) auto

text \<open>The decimal representation of a \<^verbatim>\<open>long\<close> in a local buffer, as the callers of \<^verbatim>\<open>ll2string\<close> get it.\<close>

definition print_ll :: "nat \<Rightarrow> int \<Rightarrow> string" where
  "print_ll sz v = (case ll2string (replicate sz NUL) sz v of (buf, len) \<Rightarrow> take len buf)"

section \<open>Decimal representations\<close>

function udec :: "nat \<Rightarrow> string" where
  "udec n = (if n < 10 then [digit_char n] else udec (n div 10) @ [digit_char (n mod 10)])"
  by pat_completeness auto
termination
  by (relation "measure id") auto

definition dec :: "int \<Rightarrow> string" where
  "dec v = (if v < 0 then CHR ''-'' # udec (nat (- v)) else udec (nat v))"

declare digits10.simps [simp del] ll2string_digits.simps [simp del] udec.simps [simp del]

lemma of_char_digit_char: "d < 10 \<Longrightarrow> (of_char (digit_char d) :: nat) = 48 + d"
  by (simp add: digit_char_def)

lemma is_digit_char [simp]: "d < 10 \<Longrightarrow> is_digit (digit_char d)"
  by (simp add: is_digit_def of_char_digit_char)

lemma digit_val_char [simp]: "d < 10 \<Longrightarrow> digit_val (digit_char d) = d"
  by (simp add: digit_val_def of_char_digit_char)

lemma is_digit_iff: "is_digit c \<longleftrightarrow> (\<exists>d<10. c = digit_char d)"
proof
  assume "is_digit c"
  then have b: "48 \<le> (of_char c :: nat)" "(of_char c :: nat) \<le> 57"
    by (auto simp: is_digit_def)
  then have "c = digit_char (of_char c - 48)"
    by (simp add: digit_char_def)
  with b show "\<exists>d<10. c = digit_char d"
    by (intro exI [of _ "of_char c - 48"]) auto
qed auto

lemma digit_char_inj: "d < 10 \<Longrightarrow> e < 10 \<Longrightarrow> digit_char d = digit_char e \<longleftrightarrow> d = e"
  by (metis digit_val_char)

lemma digit_char_0: "digit_char 0 = CHR ''0''"
  by code_simp

lemma digit_char_not_minus: "d < 10 \<Longrightarrow> digit_char d \<noteq> CHR ''-''"
  using of_char_digit_char [of d] by auto

lemma udec_Cons: "n \<ge> 10 \<Longrightarrow> udec n = udec (n div 10) @ [digit_char (n mod 10)]"
  by (simp add: udec.simps [of n])

lemma udec_nonempty [simp]: "udec n \<noteq> []"
  by (simp add: udec.simps [of n])

lemma udec_digits: "c \<in> set (udec n) \<Longrightarrow> is_digit c"
  by (induction n rule: udec.induct) (subst (asm) (2) udec.simps, auto split: if_splits)

lemma length_udec_shift: "10 ^ k \<le> n \<Longrightarrow> length (udec n) = k + length (udec (n div 10 ^ k))"
proof (induction k arbitrary: n)
  case (Suc k)
  have "10 * 10 ^ k \<le> n" using Suc.prems by simp
  then have le: "10 ^ k \<le> n div 10"
    by (simp add: less_eq_div_iff_mult_less_eq mult.commute)
  have "10 \<le> n"
    using Suc.prems by (metis dual_order.trans le_add2 le_add_same_cancel2 one_le_numeral power_increasing power_one_right Suc_eq_plus1)
  then have "length (udec n) = Suc (length (udec (n div 10)))"
    by (simp add: udec_Cons)
  with Suc.IH [OF le] show ?case
    by (simp add: div_mult2_eq)
qed simp

lemma length_udec: "10 ^ k \<le> n \<Longrightarrow> n < 10 ^ Suc k \<Longrightarrow> length (udec n) = Suc k"
proof -
  assume *: "10 ^ k \<le> n" "n < 10 ^ Suc k"
  then have "n div 10 ^ k < 10"
    by (simp add: less_mult_imp_div_less)
  with * show ?thesis
    by (simp add: length_udec_shift udec.simps [of "n div 10 ^ k"])
qed

section \<open>Printing\<close>

lemma digits10_length: "digits10 v = length (udec v)"
proof (induction v rule: digits10.induct)
  case (1 v)
  have steps: "v < 10 \<Longrightarrow> length (udec v) = 1" for v
    by (simp add: udec.simps [of v])
  note len = length_udec [of 1 v] length_udec [of 2 v] length_udec [of 3 v] length_udec [of 4 v]
    length_udec [of 5 v] length_udec [of 6 v] length_udec [of 7 v] length_udec [of 8 v]
    length_udec [of 9 v] length_udec [of 10 v] length_udec [of 11 v]
  show ?case
  proof (cases "v < 1000000000000")
    case True
    then show ?thesis
      using steps [of v] len by (simp add: digits10.simps [of v])
  next
    case False
    then show ?thesis
      using 1 length_udec_shift [of 12 v] by (simp add: digits10.simps [of v])
  qed
qed

text \<open>\<open>put_at dst i s\<close>: the buffer with \<open>s\<close> written from position \<open>i\<close> on.\<close>

definition put_at :: "string \<Rightarrow> nat \<Rightarrow> string \<Rightarrow> string" where
  "put_at dst i s = take i dst @ s @ drop (i + length s) dst"

lemma put_at_one: "i < length dst \<Longrightarrow> dst[i := c] = put_at dst i [c]"
  by (simp add: put_at_def upd_conv_take_nth_drop)

lemma put_at_last:
  "i + length s < length dst \<Longrightarrow> put_at (dst[i + length s := c]) i s = put_at dst i (s @ [c])"
proof -
  assume k: "i + length s < length dst"
  then have "drop (i + length s) (dst[i + length s := c]) = c # drop (Suc (i + length s)) dst"
    by (simp add: upd_conv_take_nth_drop)
  then show ?thesis by (simp add: put_at_def)
qed

lemma nth_pairs:
  "i < n \<Longrightarrow> concat (map (\<lambda>i. [f i, g i]) [0..<n]) ! (i * 2) = f i \<and>
    concat (map (\<lambda>i. [f i, g i]) [0..<n]) ! (i * 2 + 1) = g i"
proof (induction n)
  case (Suc n)
  have len: "length (concat (map (\<lambda>i. [f i, g i]) [0..<n])) = 2 * n"
    by (induction n) auto
  show ?case
  proof (cases "i = n")
    case True
    with len show ?thesis by (simp add: nth_append)
  next
    case False
    with Suc.prems have "i < n" by simp
    with Suc.IH len show ?thesis by (simp add: nth_append)
  qed
qed simp

lemma digits_pairs:
  "digits = concat (map (\<lambda>i. [digit_char (i div 10), digit_char (i mod 10)]) [0..<100])"
  by code_simp

lemma digits_table:
  assumes "i < 100"
  shows "digits ! (i * 2 + 1) = digit_char (i mod 10)" and "digits ! (i * 2) = digit_char (i div 10)"
  using nth_pairs [OF assms, of "\<lambda>i. digit_char (i div 10)" "\<lambda>i. digit_char (i mod 10)"]
  unfolding digits_pairs by blast+

lemma udec_100:
  assumes "v \<ge> 100"
  shows "udec v = udec (v div 100) @ [digits ! (v mod 100 * 2), digits ! (v mod 100 * 2 + 1)]"
proof -
  have "udec v = udec (v div 10 div 10) @ [digit_char (v div 10 mod 10), digit_char (v mod 10)]"
    using assms by (simp add: udec_Cons [of v] udec_Cons [of "v div 10"])
  moreover have "v div 10 mod 10 = v mod 100 div 10" "v mod 100 mod 10 = v mod 10"
    using mod_mult2_eq [of v 10 10] by (auto simp: mod_mod_cancel)
  ultimately show ?thesis
    using digits_table [of "v mod 100"] by (simp add: div_mult2_eq [symmetric])
qed

lemma ll2string_digits_put:
  "length (udec v) \<le> Suc nxt \<Longrightarrow> nxt < length dst \<Longrightarrow>
   ll2string_digits dst nxt v = put_at dst (Suc nxt - length (udec v)) (udec v)"
proof (induction dst nxt v rule: ll2string_digits.induct)
  case (1 dst nxt v)
  consider "v < 10" | "10 \<le> v" "v < 100" | "100 \<le> v" by linarith
  then show ?case
  proof cases
    case 1
    then have "udec v = [digit_char v]" by (simp add: udec.simps [of v])
    with 1 "1.prems" show ?thesis
      by (simp add: ll2string_digits.simps [of dst] put_at_one digit_char_def)
  next
    case 2
    then have dec: "udec v = [digits ! (v * 2), digits ! (v * 2 + 1)]"
      using digits_table [of v] by (simp add: udec_Cons [of v] udec.simps [of "v div 10"])
    then have n: "1 \<le> nxt" using "1.prems" by simp
    have "dst[nxt := digits ! (v * 2 + 1), nxt - 1 := digits ! (v * 2)] =
        put_at (dst[nxt := digits ! (v * 2 + 1)]) (nxt - 1) [digits ! (v * 2)]"
      using "1.prems" by (intro put_at_one) simp
    also have "\<dots> = put_at dst (nxt - 1) ([digits ! (v * 2)] @ [digits ! (v * 2 + 1)])"
      using put_at_last [of "nxt - 1" "[digits ! (v * 2)]" dst] "1.prems" n by simp
    finally show ?thesis
      using 2 n dec by (simp add: ll2string_digits.simps [of dst] Let_def)
  next
    case 3
    let ?a = "digits ! (v mod 100 * 2)" and ?b = "digits ! (v mod 100 * 2 + 1)"
    let ?u = "udec (v div 100)" and ?d = "dst[nxt := ?b, nxt - 1 := ?a]"
    note dec = udec_100 [OF 3]
    have n: "length ?u + 2 \<le> Suc nxt" using "1.prems" dec by simp
    have pos: "0 < length ?u" by simp
    define k where "k = nxt - 1 - length ?u"
    have k: "nxt - 1 = k + length ?u" "nxt = k + length (?u @ [?a])"
      "Suc (nxt - 2) - length ?u = k" "Suc nxt - length (udec v) = k"
      using n pos by (auto simp: k_def dec simp del: length_greater_0_conv)
    have "ll2string_digits ?d (nxt - 2) (v div 100) = put_at ?d k ?u"
      using "1.IH" [OF 3, of "v mod 100 * 2"] "1.prems" n k(3) by simp
    also have "\<dots> = put_at (dst[nxt := ?b]) k (?u @ [?a])"
      using put_at_last [of k ?u "dst[nxt := ?b]" ?a] "1.prems" k(1) by simp
    also have "\<dots> = put_at dst k ((?u @ [?a]) @ [?b])"
      using put_at_last [of k "?u @ [?a]" dst ?b] "1.prems" k(2) by simp
    finally show ?thesis
      using 3 dec k(4) by (simp add: ll2string_digits.simps [of dst nxt v] Let_def)
  qed
qed

lemma length_put_at [simp]: "i + length s \<le> length dst \<Longrightarrow> length (put_at dst i s) = length dst"
  by (simp add: put_at_def)

lemma ll2string_dec:
  assumes range: "LLONG_MIN \<le> v" "v \<le> LLONG_MAX" and room: "dstlen \<le> length dst"
  shows "ll2string dst dstlen v =
    (if length (dec v) < dstlen then (put_at dst 0 (dec v @ [NUL]), length (dec v)) else (dst, 0))"
proof -
  define u where "u = nat \<bar>v\<bar>"
  define m where "m = (if v < 0 then 1 else 0 :: nat)"
  have uv: "(if v < 0 then (if v \<noteq> LLONG_MIN then nat (- v) else nat LLONG_MAX + 1, True)
      else (nat v, False)) = (u, v < 0)"
    using range by (auto simp: u_def LLONG_MIN_def LLONG_MAX_def)
  have dec: "dec v = (if v < 0 then [CHR ''-''] else []) @ udec u"
    by (simp add: dec_def u_def)
  have len: "digits10 u + (if v < 0 then 1 else 0) = length (dec v)"
    by (simp add: dec digits10_length)
  have ll: "ll2string dst dstlen v = (if length (dec v) \<ge> dstlen then (dst, 0)
      else (let d = ll2string_digits (dst[length (dec v) := NUL]) (length (dec v) - 1) u
            in (if v < 0 then d[0 := CHR ''-''] else d, length (dec v))))"
    by (simp only: ll2string_def uv Let_def prod.case len)
  show ?thesis
  proof (cases "length (dec v) < dstlen")
    case True
    let ?d = "dst[length (dec v) := NUL]"
    have k: "Suc (length (dec v) - 1) - length (udec u) = m" "length (udec u) + m = length (dec v)"
      by (simp_all add: dec m_def)
    have "ll2string_digits ?d (length (dec v) - 1) u = put_at ?d m (udec u)"
      using ll2string_digits_put [of u "length (dec v) - 1" ?d] True room k by (auto simp: dec)
    also have "\<dots> = put_at dst m (udec u @ [NUL])"
      using put_at_last [of m "udec u" dst NUL] True room k(2) by (simp add: add.commute)
    finally have digits: "ll2string_digits ?d (length (dec v) - 1) u = put_at dst m (udec u @ [NUL])" .
    have "(put_at dst 1 s)[0 := c] = put_at dst 0 (c # s)" if "dst \<noteq> []" for c s
      using that by (cases dst) (auto simp: put_at_def)
    moreover have "dst \<noteq> []" using True room by auto
    ultimately show ?thesis
      using True digits by (cases "v < 0") (simp_all add: ll Let_def dec m_def)
  next
    case False
    then show ?thesis by (simp add: ll)
  qed
qed

section \<open>Parsing\<close>

lemma dval_append: "dval v (p @ q) = dval (dval v p) q"
  by (induction p arbitrary: v) auto

lemma dval_mono: "v \<le> dval v p"
proof (induction p arbitrary: v)
  case (Cons c p)
  have "v \<le> v * 10 + digit_val c" by simp
  also have "\<dots> \<le> dval (v * 10 + digit_val c) p" by (rule Cons.IH)
  finally show ?case by simp
qed simp

lemma dval_udec: "dval 0 (udec n) = n"
proof (induction n rule: udec.induct)
  case (1 n)
  then show ?case by (simp add: udec.simps [of n] dval_append)
qed

lemma digit_val_le: "is_digit c \<Longrightarrow> digit_val c \<le> 9"
  by (auto simp: is_digit_iff)

lemma string2ll_loop_step:
  assumes "is_digit c"
  shows "string2ll_loop v (c # p) =
    (if v * 10 + digit_val c > ULLONG_MAX then None else string2ll_loop (v * 10 + digit_val c) p)"
proof -
  have "digit_val c \<le> 9" using assms by (rule digit_val_le)
  then have "(ULLONG_MAX div 10 < v \<or> ULLONG_MAX - digit_val c < v * 10) \<longleftrightarrow>
      ULLONG_MAX < v * 10 + digit_val c"
    unfolding ULLONG_MAX_def by auto
  then show ?thesis using assms by auto
qed

lemma string2ll_loop_digits:
  "\<forall>c\<in>set p. is_digit c \<Longrightarrow> v \<le> ULLONG_MAX \<Longrightarrow>
   string2ll_loop v p = (if dval v p \<le> ULLONG_MAX then Some (dval v p, []) else None)"
proof (induction p arbitrary: v)
  case (Cons c p)
  then have c: "is_digit c" by simp
  show ?case
  proof (cases "v * 10 + digit_val c > ULLONG_MAX")
    case True
    then have "\<not> dval v (c # p) \<le> ULLONG_MAX"
      using dval_mono [of "v * 10 + digit_val c" p] by simp
    with True show ?thesis by (simp only: string2ll_loop_step [OF c] if_True if_False)
  next
    case False
    then show ?thesis
      using Cons by (simp add: string2ll_loop_step [OF c] del: string2ll_loop.simps)
  qed
qed simp

lemma string2ll_loop_all:
  "string2ll_loop v p = Some (w, []) \<Longrightarrow> \<forall>c\<in>set p. is_digit c"
  by (induction p arbitrary: v) (auto split: if_splits)

text \<open>A string of digits without a leading zero is the decimal representation of its value.\<close>

lemma udec_dval:
  assumes "\<forall>c\<in>set p. is_digit c" and "is_digit c" and "c \<noteq> CHR ''0''"
  shows "udec (dval (digit_val c) p) = c # p"
  using assms(1)
proof (induction p rule: rev_induct)
  case Nil
  then show ?case
    using assms(2) by (auto simp: is_digit_iff udec.simps [of "digit_val c"])
next
  case (snoc x p)
  obtain d where d: "d < 10" "c = digit_char d" "d \<noteq> 0"
    using assms(2,3) digit_char_0 by (auto simp: is_digit_iff)
  obtain e where e: "e < 10" "x = digit_char e"
    using snoc.prems by (auto simp: is_digit_iff)
  have "1 \<le> dval (digit_val c) p"
    using dval_mono [of "digit_val c" p] d by simp
  then show ?case
    using snoc e udec_Cons [of "dval (digit_val c) p * 10 + e"] by (simp add: dval_append)
qed

lemma udec_Cons_form:
  obtains c p where "udec n = c # p" and "is_digit c" and "\<forall>c\<in>set p. is_digit c"
    and "n \<noteq> 0 \<Longrightarrow> c \<noteq> CHR ''0''" and "dval (digit_val c) p = n"
proof -
  obtain c p where cp: "udec n = c # p" by (cases "udec n") auto
  then have d: "\<forall>x\<in>set (c # p). is_digit x" using udec_digits by metis
  have "digit_val (hd (udec n)) \<noteq> 0" if "n \<noteq> 0"
    using that
  proof (induction n rule: udec.induct)
    case (1 n)
    then show ?case by (cases "n < 10") (auto simp: udec.simps [of n])
  qed
  then have "n \<noteq> 0 \<Longrightarrow> c \<noteq> CHR ''0''"
    using cp by (auto simp: digit_val_def)
  moreover have "dval (digit_val c) p = n"
    using dval_udec [of n] cp by simp
  ultimately show thesis using cp d that by auto
qed

lemma string2ll_dec:
  assumes "LLONG_MIN \<le> v" and "v \<le> LLONG_MAX"
  shows "string2ll (dec v) = Some v"
proof (cases "v = 0")
  case True
  have "dec 0 = ''0''" by (simp add: dec_def udec.simps digit_char_0)
  with True show ?thesis by (simp add: string2ll_def)
next
  case False
  define u where "u = nat \<bar>v\<bar>"
  have u: "u \<noteq> 0" "u \<le> ULLONG_MAX" "dec v = (if v < 0 then [CHR ''-''] else []) @ udec u"
    using False assms by (auto simp: u_def dec_def LLONG_MIN_def LLONG_MAX_def ULLONG_MAX_def)
  obtain c p where cp: "udec u = c # p" "is_digit c" "\<forall>c\<in>set p. is_digit c" "c \<noteq> CHR ''0''"
    "dval (digit_val c) p = u"
    using udec_Cons_form [of u] u(1) by metis
  have "c \<noteq> CHR ''-''" using cp(2) by (auto simp: is_digit_def)
  moreover have "digit_val c \<le> ULLONG_MAX"
    using digit_val_le [OF cp(2)] by (simp add: ULLONG_MAX_def)
  then have "string2ll_loop (digit_val c) p = Some (u, [])"
    using string2ll_loop_digits [OF cp(3)] cp(5) u(2) by simp
  ultimately show ?thesis
    using cp(1,2,4) u assms
    by (auto simp: string2ll_def Let_def u_def LLONG_MIN_def LLONG_MAX_def)
qed

lemma string2ll_only_dec:
  assumes "string2ll s = Some v"
  shows "s = dec v \<and> LLONG_MIN \<le> v \<and> v \<le> LLONG_MAX"
proof (cases "s = ''0''")
  case True
  then have "v = 0" using assms by (simp add: string2ll_def)
  with True show ?thesis
    by (simp add: dec_def udec.simps digit_char_0 LLONG_MIN_def LLONG_MAX_def)
next
  case False
  define neg where "neg = (s ! 0 = CHR ''-'')"
  have ne: "s \<noteq> []" using assms by (auto simp: string2ll_def)
  obtain c p w where *: "(if neg then tl s else s) = c # p" "is_digit c" "c \<noteq> CHR ''0''"
    "string2ll_loop (digit_val c) p = Some (w, [])"
    "if neg then w \<le> nat (- (LLONG_MIN + 1)) + 1 \<and> v = - int w else w \<le> nat LLONG_MAX \<and> v = int w"
    using assms False ne unfolding string2ll_def Let_def neg_def [symmetric]
    by (auto split: list.splits if_splits option.splits)
  have s: "s = (if neg then [CHR ''-''] else []) @ c # p"
    using *(1) ne neg_def by (cases s) auto
  have dig: "\<forall>c\<in>set p. is_digit c" using string2ll_loop_all *(4) by blast
  have "digit_val c \<le> ULLONG_MAX"
    using digit_val_le [OF *(2)] by (simp add: ULLONG_MAX_def)
  then have w: "w = dval (digit_val c) p"
    using string2ll_loop_digits [OF dig] *(4) by (auto split: if_splits)
  have "udec w = c # p" unfolding w by (rule udec_dval [OF dig *(2,3)])
  moreover have "0 < digit_val c"
    using *(2,3) digit_char_0 by (auto simp: is_digit_iff intro: gr0I)
  then have "0 < w" using dval_mono [of "digit_val c" p] w by simp
  ultimately show ?thesis
    using s *(5) by (auto simp: dec_def LLONG_MIN_def LLONG_MAX_def split: if_splits)
qed

lemma to_ll_id [simp]: "LLONG_MIN \<le> x \<Longrightarrow> x \<le> LLONG_MAX \<Longrightarrow> to_ll x = x"
  unfolding to_ll_def LLONG_MIN_def LLONG_MAX_def by (rule signed_take_bit_int_eq_self) auto

lemma udec_not_space: "c \<in> set (udec n) \<Longrightarrow> \<not> isspace c \<and> c \<noteq> CHR ''-'' \<and> c \<noteq> CHR ''+''"
  using udec_digits [of c n] by (auto simp: isspace_def is_digit_def)

lemma strtoll_udec:
  assumes "int n \<le> LLONG_MAX"
  shows "strtoll (udec n) = (int n, [])"
proof -
  obtain c p where cp: "udec n = c # p" by (cases "udec n") auto
  have "takeWhile is_digit (udec n) = udec n"
    using udec_digits by (auto simp: takeWhile_eq_all_conv)
  moreover have "\<not> isspace c" "c \<noteq> CHR ''-''" "c \<noteq> CHR ''+''"
    using udec_not_space [of c n] cp by auto
  ultimately show ?thesis
    using assms dval_udec [of n] by (simp add: strtoll_def cp Let_def LLONG_MIN_def)
qed

lemma length_udec_le: "n < 10 ^ Suc k \<Longrightarrow> length (udec n) \<le> Suc k"
proof (induction k arbitrary: n)
  case 0
  then show ?case by (simp add: udec.simps [of n])
next
  case (Suc k)
  show ?case
  proof (cases "n < 10")
    case True
    then show ?thesis by (simp add: udec.simps [of n])
  next
    case False
    have "n div 10 < 10 ^ Suc k" using Suc.prems by (simp add: less_mult_imp_div_less)
    from Suc.IH [OF this] False show ?thesis by (simp add: udec_Cons)
  qed
qed

lemma length_dec: "LLONG_MIN \<le> v \<Longrightarrow> v \<le> LLONG_MAX \<Longrightarrow> length (dec v) \<le> 20"
proof -
  assume v: "LLONG_MIN \<le> v" "v \<le> LLONG_MAX"
  then have "nat \<bar>v\<bar> < 10 ^ Suc 18" by (auto simp: LLONG_MIN_def LLONG_MAX_def)
  then have "length (udec (nat \<bar>v\<bar>)) \<le> 19" using length_udec_le [of "nat \<bar>v\<bar>" 18] by simp
  then show ?thesis by (cases "v < 0") (simp_all add: dec_def)
qed

lemma print_ll_dec:
  assumes "LLONG_MIN \<le> v" and "v \<le> LLONG_MAX" and "20 < sz"
  shows "print_ll sz v = dec v"
  using ll2string_dec [OF assms(1,2), of sz "replicate sz NUL"] length_dec [OF assms(1,2)] assms(3)
  by (simp add: print_ll_def put_at_def)

lemma dec_nonempty [simp]: "dec v \<noteq> []"
  by (simp add: dec_def)

text \<open>The units \<^verbatim>\<open>memtoll\<close> accepts and their multipliers.\<close>

definition mem_unit :: "string \<Rightarrow> int option" where
  "mem_unit u =
     map_of [([], 1), (''b'', 1), (''k'', 1000), (''kb'', 1024), (''m'', 1000000), (''mb'', 1048576),
             (''g'', 1000000000), (''gb'', 1073741824)] (map tolower u)"

lemma tolower_digit: "is_digit c \<Longrightarrow> tolower c = c"
  by (auto simp: tolower_def is_digit_def)

lemma mem_unit_no_digit: "mem_unit u = Some m \<Longrightarrow> takeWhile is_digit u = []"
proof (cases u)
  case (Cons c u')
  assume "mem_unit u = Some m"
  then have "map tolower u \<in> set [[], ''b'', ''k'', ''kb'', ''m'', ''mb'', ''g'', ''gb'']"
    unfolding mem_unit_def by (drule_tac map_of_SomeD) auto
  then have "tolower c \<in> set ''bkmg''"
    using Cons by auto
  then have "\<not> is_digit (tolower c)"
    by (auto simp: is_digit_def)
  then have "\<not> is_digit c"
    using tolower_digit [of c] by auto
  with Cons show ?thesis by simp
qed simp

lemma memtoll_mul:
  "(if u = [] \<or> strcaseeq u ''b'' then Some 1
    else if strcaseeq u ''k'' then Some 1000
    else if strcaseeq u ''kb'' then Some 1024
    else if strcaseeq u ''m'' then Some (1000 * 1000)
    else if strcaseeq u ''mb'' then Some (1024 * 1024)
    else if strcaseeq u ''g'' then Some (1000 * 1000 * 1000)
    else if strcaseeq u ''gb'' then Some (1024 * 1024 * 1024)
    else None) = mem_unit u"
proof -
  have low: "map tolower ''b'' = ''b''" "map tolower ''k'' = ''k''" "map tolower ''kb'' = ''kb''"
    "map tolower ''m'' = ''m''" "map tolower ''mb'' = ''mb''" "map tolower ''g'' = ''g''"
    "map tolower ''gb'' = ''gb''"
    by (simp_all add: tolower_def)
  define w where "w = map tolower u"
  have "u = [] \<longleftrightarrow> w = []" by (simp add: w_def)
  then show ?thesis
    unfolding mem_unit_def strcaseeq_def low w_def [symmetric] by auto
qed

lemma memtoll_udec:
  assumes n: "int n * m \<le> LLONG_MAX" "int n \<le> LLONG_MAX" and u: "mem_unit u = Some m"
  shows "memtoll (udec n @ u) = (int n * m, False)"
proof -
  obtain c p where cp: "udec n = c # p" by (cases "udec n") auto
  have hd: "hd (udec n @ u) \<noteq> CHR ''-''" using udec_not_space [of c n] cp by simp
  have tw: "takeWhile is_digit (udec n @ u) = udec n"
    using udec_digits mem_unit_no_digit [OF u] by (simp add: takeWhile_append2)
  have "n < 10 ^ Suc 18" using n(2) by (simp add: LLONG_MAX_def)
  then have len: "length (udec n) < 128" using length_udec_le [of n 18] by simp
  have "0 \<le> m" using u by (auto simp: mem_unit_def split: if_splits)
  then have "LLONG_MIN \<le> int n * m" by (simp add: LLONG_MIN_def order_trans [OF _ mult_nonneg_nonneg])
  then have "to_ll (int n * m) = int n * m" using n(1) by simp
  then show ?thesis
    unfolding memtoll_def Let_def memtoll_mul
    using hd tw u len strtoll_udec [OF n(2)] by simp
qed

section \<open>Properties\<close>

text \<open>
  C22 (equivalence). \<^verbatim>\<open>string2ll\<close> accepts exactly the decimal representations of the
  values of \<^verbatim>\<open>long long\<close>, and returns the value: parsing loses nothing, and the
  string can be rebuilt from the number.
\<close>

theorem string2ll_iff:
  "string2ll s = Some v \<longleftrightarrow> s = dec v \<and> LLONG_MIN \<le> v \<and> v \<le> LLONG_MAX"
  using string2ll_dec string2ll_only_dec by blast

text \<open>
  \<^verbatim>\<open>ll2string\<close> writes the decimal representation of any \<^verbatim>\<open>long long\<close> and
  its terminator at the start of the buffer, leaves the rest of the buffer alone
  and returns the length; when the terminator would not fit it returns 0 and
  leaves the buffer as it is.
\<close>

theorem ll2string_correct:
  assumes "LLONG_MIN \<le> v" and "v \<le> LLONG_MAX" and "dstlen \<le> length dst"
  shows "ll2string dst dstlen v =
    (if length (dec v) < dstlen
     then (dec v @ [NUL] @ drop (length (dec v) + 1) dst, length (dec v)) else (dst, 0))"
  using ll2string_dec [OF assms] by (simp add: put_at_def)

theorem ll2string_correct_witness:
  "ll2string ''xxxxxxxx'' 8 (- 1207) = (''-1207'' @ [NUL] @ ''xx'', 5) \<and>
   ll2string ''xxx'' 3 512 = (''xxx'', 0)"
proof -
  have "dec (- 1207) = ''-1207''" "dec 512 = ''512''" by code_simp+
  then show ?thesis
    using ll2string_correct [of "- 1207" 8 "''xxxxxxxx''"] ll2string_correct [of 512 3 "''xxx''"]
    by (simp add: LLONG_MIN_def LLONG_MAX_def)
qed

text \<open>
  \<^verbatim>\<open>memtoll\<close> on a decimal number followed by one of the units in any
  case returns the number times the multiplier of the unit, without an error,
  when the product fits a \<^verbatim>\<open>long long\<close>.
\<close>

theorem memtoll_units:
  assumes "int n * m \<le> LLONG_MAX" and "int n \<le> LLONG_MAX" and "mem_unit u = Some m"
  shows "memtoll (udec n @ u) = (int n * m, False)"
  by (rule memtoll_udec [OF assms])

theorem memtoll_units_witness: "memtoll (udec 16 @ ''Mb'') = (16777216, False)"
proof -
  have "mem_unit ''Mb'' = Some 1048576" by code_simp
  then show ?thesis
    using memtoll_units [of 16 1048576 "''Mb''"] by (simp add: LLONG_MAX_def)
qed

end
