(* ===== verification/Sds.thy ===== *)
theory Sds
  imports Util
begin

text \<open>
  The dynamic strings of \<^verbatim>\<open>sds.c\<close> and \<^verbatim>\<open>sds.h\<close>, in memory.

  A string is its header (the type, the length and the allocated size, each kept
  in the width of the type) and the block of bytes that follows it, up to the end
  of the allocation; a byte no one has written yet is \<open>None\<close>. Reads and writes
  check the bounds of the block. For type 5 the header has no allocated size:
  \<^verbatim>\<open>sdsalloc\<close> answers the length.

  The abstraction \<open>sds_str\<close> is the byte string; \<open>sds_wf\<close> says that the header
  describes the block and that the string is followed by a NUL. The theory shows
  that each operation keeps \<open>sds_wf\<close>, stays inside its block, and what it does to
  \<open>sds_str\<close>. The rest of the development works with the byte strings.
\<close>

section \<open>The model\<close>

datatype sds_type = SDS_TYPE_5 | SDS_TYPE_8 | SDS_TYPE_16 | SDS_TYPE_32 | SDS_TYPE_64

record sds =
  stype :: sds_type
  slen :: nat
  salloc :: nat
  sbuf :: "char option list"

fun type_width :: "sds_type \<Rightarrow> nat" where
  "type_width SDS_TYPE_5 = 5"
| "type_width SDS_TYPE_8 = 8"
| "type_width SDS_TYPE_16 = 16"
| "type_width SDS_TYPE_32 = 32"
| "type_width SDS_TYPE_64 = 64"

fun sdsHdrSize :: "sds_type \<Rightarrow> nat" where
  "sdsHdrSize SDS_TYPE_5 = 1"
| "sdsHdrSize SDS_TYPE_8 = 3"
| "sdsHdrSize SDS_TYPE_16 = 5"
| "sdsHdrSize SDS_TYPE_32 = 9"
| "sdsHdrSize SDS_TYPE_64 = 17"

definition sdsReqType :: "nat \<Rightarrow> sds_type" where
  "sdsReqType string_size =
     (if string_size < 32 then SDS_TYPE_5
      else if string_size < 0xff then SDS_TYPE_8
      else if string_size < 0xffff then SDS_TYPE_16
      else if string_size < 0xffffffff then SDS_TYPE_32
      else SDS_TYPE_64)"

definition sdslen :: "sds \<Rightarrow> nat" where
  "sdslen s = slen s"

definition sdsavail :: "sds \<Rightarrow> nat" where
  "sdsavail s = (if stype s = SDS_TYPE_5 then 0 else sub64 (salloc s) (slen s))"

definition sdssetlen :: "sds \<Rightarrow> nat \<Rightarrow> sds" where
  "sdssetlen s newlen = s\<lparr>slen := newlen mod 2 ^ type_width (stype s)\<rparr>"

definition sdsinclen :: "sds \<Rightarrow> nat \<Rightarrow> sds" where
  "sdsinclen s inc = s\<lparr>slen := (slen s + inc) mod 2 ^ type_width (stype s)\<rparr>"

definition sdsalloc :: "sds \<Rightarrow> nat" where
  "sdsalloc s = (if stype s = SDS_TYPE_5 then slen s else salloc s)"

definition sdssetalloc :: "sds \<Rightarrow> nat \<Rightarrow> sds" where
  "sdssetalloc s newlen =
     (if stype s = SDS_TYPE_5 then s else s\<lparr>salloc := newlen mod 2 ^ type_width (stype s)\<rparr>)"

text \<open>\<^verbatim>\<open>memcpy\<close> into the block at an offset, and the bytes of a part of it.\<close>

definition write_bytes :: "nat \<Rightarrow> string \<Rightarrow> sds \<Rightarrow> sds result" where
  "write_bytes i t s =
     (if i + length t \<le> length (sbuf s)
      then Inr (s\<lparr>sbuf := take i (sbuf s) @ map Some t @ drop (i + length t) (sbuf s)\<rparr>)
      else Inl OutOfBounds)"

definition read_bytes :: "nat \<Rightarrow> nat \<Rightarrow> sds \<Rightarrow> string result" where
  "read_bytes i n s =
     (if i + n \<le> length (sbuf s)
      then (if None \<in> set (take n (drop i (sbuf s))) then Inl Uninit
            else Inr (map the (take n (drop i (sbuf s)))))
      else Inl OutOfBounds)"

text \<open>
  \<^verbatim>\<open>sdsnewlen(init, initlen)\<close>; with \<^verbatim>\<open>init == NULL\<close> the string is zero bytes.
  \<^verbatim>\<open>init\<close> has at least \<^verbatim>\<open>initlen\<close> bytes.
\<close>

definition sdsnewlen :: "string option \<Rightarrow> nat \<Rightarrow> sds" where
  "sdsnewlen init initlen =
     (let type = (if sdsReqType initlen = SDS_TYPE_5 \<and> initlen = 0 then SDS_TYPE_8
                  else sdsReqType initlen)
      in \<lparr>stype = type,
          slen = initlen mod 2 ^ type_width type,
          salloc = initlen mod 2 ^ type_width type,
          sbuf = (case init of None \<Rightarrow> replicate initlen (Some NUL)
                  | Some t \<Rightarrow> map Some (take initlen t)) @ [Some NUL]\<rparr>)"

definition sdsempty :: sds where
  "sdsempty = sdsnewlen (Some []) 0"

definition sdsnew :: "string option \<Rightarrow> sds" where
  "sdsnew init = (let initlen = (case init of None \<Rightarrow> 0 | Some t \<Rightarrow> length (cstr t)) in sdsnewlen init initlen)"

definition sdsdup :: "sds \<Rightarrow> sds result" where
  "sdsdup s = rbind (read_bytes 0 (sdslen s) s) (\<lambda>t. Inr (sdsnewlen (Some t) (sdslen s)))"

text \<open>\<^verbatim>\<open>strlen(s)\<close> over the block.\<close>

definition buf_strlen :: "sds \<Rightarrow> nat" where
  "buf_strlen s = length (takeWhile (\<lambda>b. b \<noteq> Some NUL) (sbuf s))"

definition sdsupdatelen :: "sds \<Rightarrow> sds" where
  "sdsupdatelen s = sdssetlen s (buf_strlen s)"

definition sdsclear :: "sds \<Rightarrow> sds result" where
  "sdsclear s = write_bytes 0 [NUL] (sdssetlen s 0)"

definition SDS_MAX_PREALLOC :: nat where
  "SDS_MAX_PREALLOC = 1024 * 1024"

definition resize_block :: "nat \<Rightarrow> char option list \<Rightarrow> char option list" where
  "resize_block n b = take n b @ replicate (n - length b) None"

definition sdsMakeRoomFor :: "sds \<Rightarrow> nat \<Rightarrow> sds" where
  "sdsMakeRoomFor s addlen =
     (if sdsavail s \<ge> addlen then s
      else
        (let len = sdslen s;
             newlen0 = add64 len addlen;
             newlen = (if newlen0 < SDS_MAX_PREALLOC then mul64 newlen0 2 else add64 newlen0 SDS_MAX_PREALLOC);
             type = (if sdsReqType newlen = SDS_TYPE_5 then SDS_TYPE_8 else sdsReqType newlen)
         in sdssetalloc
              (if stype s = type
               then s\<lparr>sbuf := resize_block (newlen + 1) (sbuf s)\<rparr>
               else sdssetlen
                      (s\<lparr>stype := type, sbuf := resize_block (newlen + 1) (take (len + 1) (sbuf s))\<rparr>) len)
              newlen))"

definition sdsRemoveFreeSpace :: "sds \<Rightarrow> sds" where
  "sdsRemoveFreeSpace s =
     (let len = sdslen s; type = sdsReqType len
      in sdssetalloc
           (if stype s = type
            then s\<lparr>sbuf := resize_block (len + 1) (sbuf s)\<rparr>
            else sdssetlen (s\<lparr>stype := type, sbuf := resize_block (len + 1) (take (len + 1) (sbuf s))\<rparr>) len)
           len)"

definition sdsAllocSize :: "sds \<Rightarrow> nat" where
  "sdsAllocSize s = sdsHdrSize (stype s) + sdsalloc s + 1"

text \<open>\<^verbatim>\<open>sdsIncrLen\<close>, with its assertions; \<^verbatim>\<open>incr\<close> is an \<^verbatim>\<open>int\<close>.\<close>

definition sdsIncrLen :: "sds \<Rightarrow> int \<Rightarrow> sds result" where
  "sdsIncrLen s incr =
     (let oldlen = int (slen s);
          ok = (if stype s = SDS_TYPE_5
                then incr > 0 \<and> oldlen + incr < 32 \<or> incr < 0 \<and> oldlen \<ge> - incr
                else incr \<ge> 0 \<and> int (salloc s) - oldlen \<ge> incr \<or> incr < 0 \<and> oldlen \<ge> - incr)
      in if \<not> ok then Inl AssertFail
         else (let len = nat (oldlen + incr) mod 2 ^ type_width (stype s)
               in write_bytes len [NUL] (s\<lparr>slen := len\<rparr>)))"

definition sdsgrowzero :: "sds \<Rightarrow> nat \<Rightarrow> sds result" where
  "sdsgrowzero s len =
     (let curlen = sdslen s
      in if len \<le> curlen then Inr s
         else rbind (write_bytes curlen (replicate (len - curlen + 1) NUL) (sdsMakeRoomFor s (len - curlen)))
                (\<lambda>s'. Inr (sdssetlen s' len)))"

definition sdscatlen :: "sds \<Rightarrow> string \<Rightarrow> sds result" where
  "sdscatlen s t =
     (let curlen = sdslen s; len = length t
      in rbind (write_bytes curlen t (sdsMakeRoomFor s len)) (\<lambda>s'.
         write_bytes (curlen + len) [NUL] (sdssetlen s' (curlen + len))))"

definition sdscat :: "sds \<Rightarrow> string \<Rightarrow> sds result" where
  "sdscat s t = sdscatlen s (cstr t)"

definition sdscatsds :: "sds \<Rightarrow> sds \<Rightarrow> sds result" where
  "sdscatsds s t = rbind (read_bytes 0 (sdslen t) t) (\<lambda>b. sdscatlen s b)"

definition sdscpylen :: "sds \<Rightarrow> string \<Rightarrow> sds result" where
  "sdscpylen s t =
     (let len = length t;
          s1 = (if sdsalloc s < len then sdsMakeRoomFor s (sub64 len (sdslen s)) else s)
      in rbind (write_bytes 0 t s1) (\<lambda>s2.
         rbind (write_bytes len [NUL] s2) (\<lambda>s3. Inr (sdssetlen s3 len))))"

definition sdscpy :: "sds \<Rightarrow> string \<Rightarrow> sds result" where
  "sdscpy s t = sdscpylen s (cstr t)"

text \<open>\<^verbatim>\<open>strchr(cset, c) != NULL\<close>: the search of \<^verbatim>\<open>strchr\<close> includes the terminator.\<close>

definition strchr :: "string \<Rightarrow> char \<Rightarrow> bool" where
  "strchr cset c \<longleftrightarrow> c \<in> set (cstr cset) \<or> c = NUL"

definition sdstrim :: "sds \<Rightarrow> string \<Rightarrow> sds result" where
  "sdstrim s cset =
     rbind (read_bytes 0 (sdslen s) s) (\<lambda>b.
       let rest = dropWhile (strchr cset) b;
           kept = (if rest = [] then []
                   else hd rest # rev (dropWhile (strchr cset) (rev (tl rest))))
       in rbind (write_bytes 0 kept s) (\<lambda>s1.
          rbind (write_bytes (length kept) [NUL] s1) (\<lambda>s2.
          Inr (sdssetlen s2 (length kept)))))"

text \<open>\<^verbatim>\<open>sdsrange\<close>; \<^verbatim>\<open>start\<close> and \<^verbatim>\<open>end\<close> are \<^verbatim>\<open>int\<close>, and so is the length where they are compared.\<close>

definition sdsrange :: "sds \<Rightarrow> int \<Rightarrow> int \<Rightarrow> sds result" where
  "sdsrange s start0 end0 =
     (let len = sdslen s
      in if len = 0 then Inr s
         else
           (let start1 = (if start0 < 0 then max 0 (signed_take_bit 31 (int len + start0)) else start0);
                end1 = (if end0 < 0 then max 0 (signed_take_bit 31 (int len + end0)) else end0);
                newlen1 = (if start1 > end1 then 0 else nat (end1 - start1) + 1);
                (start2, newlen2) =
                  (if newlen1 \<noteq> 0
                   then (if start1 \<ge> int32 len then (start1, 0)
                         else if end1 \<ge> int32 len
                         then (let end2 = signed_take_bit 31 (int len - 1)
                               in (start1, if start1 > end2 then 0 else nat (end2 - start1) + 1))
                         else (start1, newlen1))
                   else (0, newlen1))
            in rbind (if start2 \<noteq> 0 \<and> newlen2 \<noteq> 0
                      then rbind (read_bytes (nat start2) newlen2 s) (\<lambda>b. write_bytes 0 b s)
                      else Inr s) (\<lambda>s1.
               rbind (write_bytes newlen2 [NUL] s1) (\<lambda>s2.
               Inr (sdssetlen s2 newlen2)))))"

definition toupper :: "char \<Rightarrow> char" where
  "toupper c = (if 97 \<le> (of_char c :: nat) \<and> (of_char c :: nat) \<le> 122 then char_of (of_char c - 32 :: nat) else c)"

definition sdstolower :: "sds \<Rightarrow> sds result" where
  "sdstolower s = rbind (read_bytes 0 (sdslen s) s) (\<lambda>b. write_bytes 0 (map tolower b) s)"

definition sdstoupper :: "sds \<Rightarrow> sds result" where
  "sdstoupper s = rbind (read_bytes 0 (sdslen s) s) (\<lambda>b. write_bytes 0 (map toupper b) s)"

definition sdscmp :: "sds \<Rightarrow> sds \<Rightarrow> int result" where
  "sdscmp s1 s2 =
     (let l1 = sdslen s1; l2 = sdslen s2; minlen = (if l1 < l2 then l1 else l2)
      in rbind (read_bytes 0 minlen s1) (\<lambda>a. rbind (read_bytes 0 minlen s2) (\<lambda>b.
           let cmp = memcmp a b
           in Inr (if cmp = 0 then signed_take_bit 31 (int l1 - int l2) else cmp))))"

section \<open>What a string in memory stands for\<close>

definition block_ok :: "sds \<Rightarrow> bool" where
  "block_ok s \<longleftrightarrow> stype s = SDS_TYPE_5 \<or>
     length (sbuf s) = salloc s + 1 \<and> salloc s < 2 ^ type_width (stype s)"

text \<open>\<open>sds_is s t\<close>: the header is consistent with the block, and the string is \<open>t\<close>.\<close>

definition sds_is :: "sds \<Rightarrow> string \<Rightarrow> bool" where
  "sds_is s t \<longleftrightarrow> block_ok s \<and> slen s = length t \<and> length t < 2 ^ type_width (stype s) \<and>
     take (Suc (length t)) (sbuf s) = map Some (t @ [NUL])"

definition sds_str :: "sds \<Rightarrow> string" where
  "sds_str s = map the (take (slen s) (sbuf s))"

definition sds_wf :: "sds \<Rightarrow> bool" where
  "sds_wf s \<longleftrightarrow> sds_is s (sds_str s)"

lemma sds_is_block: "sds_is s t \<Longrightarrow> length t < length (sbuf s)"
proof -
  assume "sds_is s t"
  then have "length (take (Suc (length t)) (sbuf s)) = length (map Some (t @ [NUL]))"
    by (simp only: sds_is_def)
  then show ?thesis by simp
qed

lemma sds_is_take: "sds_is s t \<Longrightarrow> take (length t) (sbuf s) = map Some t"
proof -
  assume "sds_is s t"
  then have "take (length t) (take (Suc (length t)) (sbuf s)) = take (length t) (map Some (t @ [NUL]))"
    by (simp only: sds_is_def)
  then show ?thesis by (simp add: min_def)
qed

lemma sds_is_str: "sds_is s t \<Longrightarrow> sds_str s = t"
  using sds_is_take [of s t] by (simp add: sds_str_def sds_is_def map_idI)

lemma sds_is_wf: "sds_is s t \<longleftrightarrow> sds_wf s \<and> sds_str s = t"
  using sds_is_str by (auto simp: sds_wf_def)

lemma read_bytes_ok:
  "sds_is s t \<Longrightarrow> i + n \<le> length t \<Longrightarrow> read_bytes i n s = Inr (take n (drop i t))"
proof -
  assume s: "sds_is s t" and n: "i + n \<le> length t"
  have "take n (drop i (sbuf s)) = take n (drop i (take (length t) (sbuf s)))"
    using n by (simp add: drop_take min_def)
  also have "\<dots> = map Some (take n (drop i t))"
    by (simp add: sds_is_take [OF s] take_map drop_map)
  finally show ?thesis
    using n sds_is_block [OF s] by (auto simp: read_bytes_def map_idI)
qed

lemma width_le: "type_width ty \<le> 64"
  by (cases ty) auto

lemma width_64: "(n :: nat) < 2 ^ type_width ty \<Longrightarrow> n < 2 ^ 64"
  using power_increasing [OF width_le, of "2 :: nat" ty] by simp

lemma req_type_fits: "n < 2 ^ 64 \<Longrightarrow> n < 2 ^ type_width (sdsReqType n)"
  by (simp add: sdsReqType_def)

lemma req_type_5: "sdsReqType n = SDS_TYPE_5 \<longleftrightarrow> n < 32"
  by (simp add: sdsReqType_def)

text \<open>A string is rebuilt by writing it and its terminator at the start of a block that has room.\<close>

lemma sds_isI:
  assumes "block_ok s" and "length t < 2 ^ type_width (stype s)" and "slen s = length t"
    and "\<exists>rest. sbuf s = map Some (t @ [NUL]) @ rest"
  shows "sds_is s t"
  using assms by (auto simp: sds_is_def)

lemma sds_isE:
  assumes "sds_is s t"
  obtains rest where "sbuf s = map Some (t @ [NUL]) @ rest" and "slen s = length t"
    and "block_ok s" and "length t < 2 ^ type_width (stype s)"
  using assms by (metis append_take_drop_id sds_is_def)

lemma block_ok_same:
  "block_ok s \<Longrightarrow> stype s' = stype s \<Longrightarrow> salloc s' = salloc s \<Longrightarrow> length (sbuf s') = length (sbuf s) \<Longrightarrow>
   block_ok s'"
  by (simp add: block_ok_def)

lemma write_bytes_ok:
  assumes "i + length t \<le> length (sbuf s)"
  obtains s' where "write_bytes i t s = Inr s'" and "stype s' = stype s" and "salloc s' = salloc s"
    and "slen s' = slen s" and "length (sbuf s') = length (sbuf s)"
    and "sbuf s' = take i (sbuf s) @ map Some t @ drop (i + length t) (sbuf s)"
  using assms
  by (intro that [of "s\<lparr>sbuf := take i (sbuf s) @ map Some t @ drop (i + length t) (sbuf s)\<rparr>"])
    (auto simp: write_bytes_def)

lemma setlen_fields [simp]:
  "stype (sdssetlen s n) = stype s" "salloc (sdssetlen s n) = salloc s" "sbuf (sdssetlen s n) = sbuf s"
  "n < 2 ^ type_width (stype s) \<Longrightarrow> slen (sdssetlen s n) = n"
  by (simp_all add: sdssetlen_def)

section \<open>Making strings\<close>

lemma sdsnewlen_is:
  assumes "n \<le> length t" and "n < 2 ^ 64"
  shows "sds_is (sdsnewlen (Some t) n) (take n t)"
proof -
  let ?ty = "if sdsReqType n = SDS_TYPE_5 \<and> n = 0 then SDS_TYPE_8 else sdsReqType n"
  have "n < 2 ^ type_width ?ty" using req_type_fits [OF assms(2)] by simp
  then show ?thesis
    using assms(1)
    by (intro sds_isI) (auto simp: sdsnewlen_def Let_def block_ok_def min_def)
qed

lemma sdsnewlen_null: "n < 2 ^ 64 \<Longrightarrow> sds_is (sdsnewlen None n) (replicate n NUL)"
proof -
  assume n: "n < 2 ^ 64"
  let ?ty = "if sdsReqType n = SDS_TYPE_5 \<and> n = 0 then SDS_TYPE_8 else sdsReqType n"
  have "n < 2 ^ type_width ?ty" using req_type_fits [OF n] by simp
  then show ?thesis
    by (intro sds_isI) (auto simp: sdsnewlen_def Let_def block_ok_def)
qed

lemma sdsempty_is: "sds_is sdsempty []"
  using sdsnewlen_is [of 0 "[]"] by (simp add: sdsempty_def)

lemma cstr_take: "take (length (cstr t)) t = cstr t"
  by (induction t) (auto simp: cstr_def)

lemma sdsnew_is: "length t < 2 ^ 64 \<Longrightarrow> sds_is (sdsnew (Some t)) (cstr t)"
proof -
  assume "length t < 2 ^ 64"
  moreover have "length (cstr t) \<le> length t" by (simp add: cstr_def length_takeWhile_le)
  ultimately show ?thesis
    using sdsnewlen_is [of "length (cstr t)" t] by (simp add: sdsnew_def cstr_take)
qed

lemma sdsdup_is: "sds_is s t \<Longrightarrow> \<exists>s'. sdsdup s = Inr s' \<and> sds_is s' t"
proof -
  assume s: "sds_is s t"
  have "length t < 2 ^ 64" using s width_64 by (auto simp: sds_is_def)
  then show ?thesis
    using read_bytes_ok [OF s, of 0 "length t"] sdsnewlen_is [of "length t" t] s
    by (auto simp: sdsdup_def sdslen_def sds_is_def)
qed

section \<open>Growing\<close>

lemma sdsavail_is:
  "sds_is s t \<Longrightarrow> sdsavail s = (if stype s = SDS_TYPE_5 then 0 else length (sbuf s) - 1 - length t)"
  using sds_is_block [of s t] width_64 [of "salloc s" "stype s"]
  by (auto simp: sdsavail_def sds_is_def block_ok_def)

lemma resize_prefix: "length p \<le> n \<Longrightarrow> \<exists>rest. resize_block n (p @ r) = p @ rest"
  by (intro exI [of _ "take (n - length p) r @ replicate (n - length (p @ r)) None"])
    (simp only: resize_block_def take_append take_all append_assoc)

lemma length_resize [simp]: "length (resize_block n b) = n"
  by (simp add: resize_block_def)

lemma sdsMakeRoomFor_is:
  assumes s: "sds_is s t" and bound: "length t + n < 2 ^ 63"
  shows "sds_is (sdsMakeRoomFor s n) t" and "length t + n < length (sbuf (sdsMakeRoomFor s n))"
    and "length t + n < 2 ^ type_width (stype (sdsMakeRoomFor s n))"
proof -
  obtain rest where buf: "sbuf s = map Some (t @ [NUL]) @ rest" "slen s = length t"
    "block_ok s" "length t < 2 ^ type_width (stype s)"
    by (rule sds_isE [OF s])
  have "sds_is (sdsMakeRoomFor s n) t \<and> length t + n < length (sbuf (sdsMakeRoomFor s n)) \<and>
    length t + n < 2 ^ type_width (stype (sdsMakeRoomFor s n))"
  proof (cases "sdsavail s \<ge> n")
    case True
    then have same: "sdsMakeRoomFor s n = s" by (simp add: sdsMakeRoomFor_def)
    have "length t + n < length (sbuf s)"
      using True sdsavail_is [OF s] sds_is_block [OF s] by (auto split: if_splits)
    moreover have "length t + n < 2 ^ type_width (stype s)"
      using True sdsavail_is [OF s] buf(3,4) sds_is_block [OF s] by (auto simp: block_ok_def split: if_splits)
    ultimately show ?thesis using s by (simp add: same)
  next
    case False
    define m where "m = (if length t + n < SDS_MAX_PREALLOC then (length t + n) * 2
      else length t + n + SDS_MAX_PREALLOC)"
    define ty where "ty = (if sdsReqType m = SDS_TYPE_5 then SDS_TYPE_8 else sdsReqType m)"
    have m: "m < 2 ^ 64" "length t + n \<le> m"
      using bound by (auto simp: m_def SDS_MAX_PREALLOC_def)
    have ty: "m < 2 ^ type_width ty" "ty \<noteq> SDS_TYPE_5"
      using req_type_fits [OF m(1)] req_type_5 [of m] by (auto simp: ty_def)
    have eq: "(if add64 (length t) n < SDS_MAX_PREALLOC then mul64 (add64 (length t) n) 2
        else add64 (add64 (length t) n) SDS_MAX_PREALLOC) = m"
      using bound by (auto simp: m_def SDS_MAX_PREALLOC_def)
    let ?b = "resize_block (m + 1) (if stype s = ty then sbuf s else take (length t + 1) (sbuf s))"
    have un: "sdsMakeRoomFor s n = sdssetalloc
        (if stype s = ty then s\<lparr>sbuf := resize_block (m + 1) (sbuf s)\<rparr>
         else sdssetlen (s\<lparr>stype := ty, sbuf := resize_block (m + 1) (take (length t + 1) (sbuf s))\<rparr>)
                (length t)) m"
      by (simp only: sdsMakeRoomFor_def False if_False Let_def sdslen_def buf(2) eq ty_def)
    have fields: "stype (sdsMakeRoomFor s n) = ty" "slen (sdsMakeRoomFor s n) = length t"
      "salloc (sdsMakeRoomFor s n) = m" "sbuf (sdsMakeRoomFor s n) = ?b"
      using ty m buf(2) by (cases "stype s = ty"; simp add: un sdssetalloc_def)+
    have "take (length t + 1) (sbuf s) = map Some (t @ [NUL]) @ []" by (simp add: buf(1))
    then have pre: "\<exists>rest. ?b = map Some (t @ [NUL]) @ rest"
      using resize_prefix [of "map Some (t @ [NUL])" "m + 1"] m(2) buf(1) by (cases "stype s = ty") auto
    have "sds_is (sdsMakeRoomFor s n) t"
      using ty m pre by (intro sds_isI) (simp_all add: fields block_ok_def)
    then show ?thesis
      using ty m by (simp add: fields)
  qed
  then show "sds_is (sdsMakeRoomFor s n) t" "length t + n < length (sbuf (sdsMakeRoomFor s n))"
    "length t + n < 2 ^ type_width (stype (sdsMakeRoomFor s n))"
    by auto
qed

lemma sdscatlen_is:
  assumes s: "sds_is s t" and bound: "length t + length u < 2 ^ 63"
  shows "\<exists>s'. sdscatlen s u = Inr s' \<and> sds_is s' (t @ u)"
proof -
  let ?s = "sdsMakeRoomFor s (length u)"
  note room = sdsMakeRoomFor_is [OF s bound]
  obtain rest where buf: "sbuf ?s = map Some (t @ [NUL]) @ rest" "slen ?s = length t" "block_ok ?s"
    by (rule sds_isE [OF room(1)])
  obtain s1 where s1: "write_bytes (length t) u ?s = Inr s1" "stype s1 = stype ?s" "salloc s1 = salloc ?s"
    "length (sbuf s1) = length (sbuf ?s)"
    "sbuf s1 = take (length t) (sbuf ?s) @ map Some u @ drop (length t + length u) (sbuf ?s)"
    using room(2) by (metis write_bytes_ok less_imp_le)
  let ?s1 = "sdssetlen s1 (length t + length u)"
  obtain s2 where s2: "write_bytes (length t + length u) [NUL] ?s1 = Inr s2" "stype s2 = stype ?s1"
    "salloc s2 = salloc ?s1" "slen s2 = slen ?s1" "length (sbuf s2) = length (sbuf ?s1)"
    "sbuf s2 = take (length t + length u) (sbuf ?s1) @ map Some [NUL] @ drop (length t + length u + 1) (sbuf ?s1)"
    using room(2) s1(4) write_bytes_ok [of "length t + length u" "[NUL]" ?s1] by auto
  have "take (length t + length u) (sbuf s1) = map Some (t @ u)"
    using s1(5) buf(1) by simp
  then have "\<exists>rest. sbuf s2 = map Some ((t @ u) @ [NUL]) @ rest"
    using s2(6) by simp
  then have "sds_is s2 (t @ u)"
    using room(3) buf(3) s1 s2 by (intro sds_isI) (auto intro: block_ok_same)
  then show ?thesis
    using s s1(1) s2(1) by (auto simp: sdscatlen_def sdslen_def sds_is_def Let_def)
qed

section \<open>Editing in place\<close>

lemma block_ok_setlen [simp]: "block_ok (sdssetlen s n) = block_ok s"
  by (simp add: block_ok_def)

lemma sds_truncate:
  assumes s: "sds_is s t" and n: "n \<le> length t"
  shows "\<exists>s'. rbind (write_bytes n [NUL] s) (\<lambda>s2. Inr (sdssetlen s2 n)) = Inr s' \<and> sds_is s' (take n t)"
proof -
  obtain rest where buf: "sbuf s = map Some (t @ [NUL]) @ rest" "block_ok s"
    "length t < 2 ^ type_width (stype s)"
    by (rule sds_isE [OF s])
  have w: "n < 2 ^ type_width (stype s)" using buf(3) n by simp
  obtain s1 where s1: "write_bytes n [NUL] s = Inr s1" "stype s1 = stype s" "salloc s1 = salloc s"
    "length (sbuf s1) = length (sbuf s)"
    "sbuf s1 = take n (sbuf s) @ map Some [NUL] @ drop (n + 1) (sbuf s)"
    using write_bytes_ok [of n "[NUL]" s] n buf(1) by auto
  have "take n (sbuf s) = map Some (take n t)"
    using n by (simp add: buf(1) take_map)
  then have "\<exists>rest. sbuf s1 = map Some (take n t @ [NUL]) @ rest"
    using s1(5) by simp
  then have "sds_is (sdssetlen s1 n) (take n t)"
    using buf(2) w n s1 by (intro sds_isI) (auto intro: block_ok_same)
  with s1(1) show ?thesis by simp
qed

lemma sds_overwrite:
  assumes s: "sds_is s t" and n: "length u = length t"
  shows "\<exists>s'. write_bytes 0 u s = Inr s' \<and> sds_is s' u"
proof -
  obtain rest where buf: "sbuf s = map Some (t @ [NUL]) @ rest" "slen s = length t" "block_ok s"
    "length t < 2 ^ type_width (stype s)"
    by (rule sds_isE [OF s])
  obtain s1 where s1: "write_bytes 0 u s = Inr s1" "stype s1 = stype s" "salloc s1 = salloc s"
    "slen s1 = slen s" "length (sbuf s1) = length (sbuf s)"
    "sbuf s1 = take 0 (sbuf s) @ map Some u @ drop (0 + length u) (sbuf s)"
    using write_bytes_ok [of 0 u s] n buf(1) by auto
  have "sbuf s1 = map Some (u @ [NUL]) @ rest"
    using s1(6) buf(1) n by simp
  then have "sds_is s1 u"
    using buf n s1 by (intro sds_isI) (auto intro: block_ok_same)
  with s1(1) show ?thesis by simp
qed

lemma sds_rewrite:
  assumes ok: "block_ok s" and n: "length u < length (sbuf s)" "length u < 2 ^ type_width (stype s)"
  shows "\<exists>s'. rbind (write_bytes 0 u s) (\<lambda>s1. rbind (write_bytes (length u) [NUL] s1)
    (\<lambda>s2. Inr (sdssetlen s2 (length u)))) = Inr s' \<and> sds_is s' u"
proof -
  obtain s1 where s1: "write_bytes 0 u s = Inr s1" "stype s1 = stype s" "salloc s1 = salloc s"
    "length (sbuf s1) = length (sbuf s)"
    "sbuf s1 = take 0 (sbuf s) @ map Some u @ drop (0 + length u) (sbuf s)"
    using write_bytes_ok [of 0 u s] n by auto
  obtain s2 where s2: "write_bytes (length u) [NUL] s1 = Inr s2" "stype s2 = stype s1"
    "salloc s2 = salloc s1" "length (sbuf s2) = length (sbuf s1)"
    "sbuf s2 = take (length u) (sbuf s1) @ map Some [NUL] @ drop (length u + 1) (sbuf s1)"
    using write_bytes_ok [of "length u" "[NUL]" s1] n s1(4) by auto
  have "\<exists>rest. sbuf s2 = map Some (u @ [NUL]) @ rest"
    using s1(5) s2(5) by simp
  then have "sds_is (sdssetlen s2 (length u)) u"
    using ok n s1 s2 by (intro sds_isI) (auto intro: block_ok_same)
  with s1(1) s2(1) show ?thesis by simp
qed

lemma sds_is_fits:
  "sds_is s t \<Longrightarrow> length u \<le> length t \<Longrightarrow>
   block_ok s \<and> length u < length (sbuf s) \<and> length u < 2 ^ type_width (stype s)"
  using sds_is_block [of s t] by (auto simp: sds_is_def)

lemma sdslen_is: "sds_is s t \<Longrightarrow> sdslen s = length t"
  by (simp add: sds_is_def sdslen_def)

lemma sdsclear_is: "sds_is s t \<Longrightarrow> \<exists>s'. sdsclear s = Inr s' \<and> sds_is s' []"
proof -
  assume s: "sds_is s t"
  have "write_bytes 0 [NUL] (sdssetlen s 0) = rbind (write_bytes 0 [NUL] s) (\<lambda>s2. Inr (sdssetlen s2 0))"
    by (simp add: write_bytes_def sdssetlen_def)
  with sds_truncate [OF s, of 0] show ?thesis by (simp add: sdsclear_def)
qed

lemma sdsupdatelen_is: "sds_is s t \<Longrightarrow> sds_is (sdsupdatelen s) (cstr t)"
proof -
  assume s: "sds_is s t"
  obtain rest where buf: "sbuf s = map Some (t @ [NUL]) @ rest" "block_ok s"
    "length t < 2 ^ type_width (stype s)"
    by (rule sds_isE [OF s])
  have tw: "takeWhile (\<lambda>b. b \<noteq> Some NUL) (map Some (t @ [NUL]) @ r) = map Some (cstr t)" for r
    by (induction t) (auto simp: cstr_def)
  then have len: "buf_strlen s = length (cstr t)"
    by (simp add: buf_strlen_def buf(1) del: map_append)
  have le: "length (cstr t) \<le> length t" by (simp add: cstr_def length_takeWhile_le)
  have "\<exists>r. map Some (t @ [NUL]) = map Some (cstr t @ [NUL]) @ r"
    by (induction t) (auto simp: cstr_def)
  then have "\<exists>r. sbuf s = map Some (cstr t @ [NUL]) @ r" by (metis buf(1) append_assoc)
  then show ?thesis
    using buf(2,3) le by (intro sds_isI) (auto simp: sdsupdatelen_def len intro: block_ok_same)
qed

lemma sdsgrowzero_is:
  assumes s: "sds_is s t" and bound: "length t < n" "n < 2 ^ 63"
  shows "\<exists>s'. sdsgrowzero s n = Inr s' \<and> sds_is s' (t @ replicate (n - length t) NUL)"
proof -
  let ?k = "n - length t" and ?s = "sdsMakeRoomFor s (n - length t)"
  have "length t + ?k < 2 ^ 63" using bound by simp
  note room = sdsMakeRoomFor_is [OF s this]
  obtain rest where buf: "sbuf ?s = map Some (t @ [NUL]) @ rest" "block_ok ?s"
    by (rule sds_isE [OF room(1)])
  have w: "n < length (sbuf ?s)" "n < 2 ^ type_width (stype ?s)" using room(2,3) bound by auto
  obtain s1 where s1: "write_bytes (length t) (replicate (?k + 1) NUL) ?s = Inr s1" "stype s1 = stype ?s"
    "salloc s1 = salloc ?s" "length (sbuf s1) = length (sbuf ?s)"
    "sbuf s1 = take (length t) (sbuf ?s) @ map Some (replicate (?k + 1) NUL) @
      drop (length t + length (replicate (?k + 1) NUL)) (sbuf ?s)"
    using write_bytes_ok [of "length t" "replicate (?k + 1) NUL" ?s] w(1) bound by auto
  have "\<exists>r. sbuf s1 = map Some ((t @ replicate ?k NUL) @ [NUL]) @ r"
    using s1(5) buf(1) by (simp add: replicate_append_same)
  moreover have "block_ok s1" by (rule block_ok_same [OF buf(2) s1(2-4)])
  ultimately have "sds_is (sdssetlen s1 n) (t @ replicate ?k NUL)"
    using w bound s1(2) by (intro sds_isI) auto
  then show ?thesis
    using s1(1) bound sdslen_is [OF s] by (simp add: sdsgrowzero_def Let_def)
qed

lemma sdscatsds_is:
  "sds_is s t \<Longrightarrow> sds_is s' u \<Longrightarrow> length t + length u < 2 ^ 63 \<Longrightarrow>
   \<exists>s2. sdscatsds s s' = Inr s2 \<and> sds_is s2 (t @ u)"
  using read_bytes_ok [of s' u 0 "length u"] sdscatlen_is [of s t u] sdslen_is [of s' u]
  by (simp add: sdscatsds_def)

lemma sdscpylen_is:
  assumes s: "sds_is s t" and bound: "length u < 2 ^ 63" "length t < 2 ^ 63"
  shows "\<exists>s'. sdscpylen s u = Inr s' \<and> sds_is s' u"
proof -
  define s1 where "s1 = (if sdsalloc s < length u then sdsMakeRoomFor s (sub64 (length u) (sdslen s)) else s)"
  have "block_ok s1 \<and> length u < length (sbuf s1) \<and> length u < 2 ^ type_width (stype s1)"
  proof (cases "sdsalloc s < length u")
    case True
    moreover have "length t \<le> sdsalloc s"
      using s sds_is_block [OF s] by (auto simp: sdsalloc_def sds_is_def block_ok_def)
    ultimately have lt: "length t < length u" by simp
    then have sub: "sub64 (length u) (sdslen s) = length u - length t"
      using bound sdslen_is [OF s] by simp
    have "length t + (length u - length t) < 2 ^ 63" using lt bound by simp
    from sdsMakeRoomFor_is [OF s this] True lt show ?thesis
      by (auto simp: s1_def sub sds_is_def)
  next
    case False
    then have "length u \<le> sdsalloc s" by simp
    with False s sds_is_block [OF s] show ?thesis
      by (auto simp: s1_def sdsalloc_def sds_is_def block_ok_def split: if_splits)
  qed
  then show ?thesis
    using sds_rewrite [of s1 u] by (simp add: sdscpylen_def Let_def s1_def [symmetric])
qed

text \<open>What \<^verbatim>\<open>sdstrim\<close> and \<^verbatim>\<open>sdsrange\<close> compute, on byte strings.\<close>

definition trim_right :: "(char \<Rightarrow> bool) \<Rightarrow> string \<Rightarrow> string" where
  "trim_right P t = rev (dropWhile P (rev t))"

lemma trim_right_Cons: "\<not> P c \<Longrightarrow> trim_right P (c # t) = c # trim_right P t"
proof -
  assume c: "\<not> P c"
  have "dropWhile P (xs @ [c]) = dropWhile P xs @ [c]" for xs
    using c by (induction xs) auto
  then show ?thesis by (simp add: trim_right_def)
qed

lemma sdstrim_is:
  assumes s: "sds_is s t"
  shows "\<exists>s'. sdstrim s cset = Inr s' \<and>
    sds_is s' (trim_right (strchr cset) (dropWhile (strchr cset) t))"
proof -
  define rest where "rest = dropWhile (strchr cset) t"
  define kept where
    "kept = (if rest = [] then [] else hd rest # rev (dropWhile (strchr cset) (rev (tl rest))))"
  have kept: "kept = trim_right (strchr cset) rest"
  proof (cases rest)
    case (Cons c r)
    then have "\<not> strchr cset c" by (metis hd_dropWhile list.sel(1) list.simps(3) rest_def)
    with Cons show ?thesis by (simp add: kept_def trim_right_Cons) (simp add: trim_right_def)
  qed (simp add: kept_def trim_right_def)
  have "length kept \<le> length rest"
    unfolding kept trim_right_def using length_dropWhile_le [of "strchr cset" "rev rest"] by simp
  also have "\<dots> \<le> length t" by (simp add: rest_def length_dropWhile_le)
  finally have le: "length kept \<le> length t" .
  have rd: "read_bytes 0 (length t) s = Inr t" using read_bytes_ok [OF s, of 0 "length t"] by simp
  have "sdstrim s cset = rbind (write_bytes 0 kept s) (\<lambda>s1. rbind (write_bytes (length kept) [NUL] s1)
      (\<lambda>s2. Inr (sdssetlen s2 (length kept))))"
    by (simp only: sdstrim_def sdslen_is [OF s] rd rbind_simps Let_def
        rest_def [symmetric] kept_def [symmetric])
  then show ?thesis
    using sds_rewrite [of s kept] sds_is_fits [OF s le] by (simp add: kept rest_def)
qed

definition sub_range :: "string \<Rightarrow> int \<Rightarrow> int \<Rightarrow> string" where
  "sub_range t start0 end0 =
     (let len = int (length t);
          start1 = (if start0 < 0 then max 0 (len + start0) else start0);
          end1 = (if end0 < 0 then max 0 (len + end0) else end0)
      in take (nat (end1 - start1 + 1)) (drop (nat start1) t))"

lemma int_range_32: "- (2 ^ 31) \<le> x \<Longrightarrow> x < 2 ^ 31 \<Longrightarrow> signed_take_bit 31 (x :: int) = x"
  by (rule signed_take_bit_int_eq_self) auto

lemma sdsrange_is:
  assumes s: "sds_is s t" and len: "length t < 2 ^ 31" and lo: "- (2 ^ 31) \<le> start0" "- (2 ^ 31) \<le> end0"
  shows "\<exists>s'. sdsrange s start0 end0 = Inr s' \<and> sds_is s' (sub_range t start0 end0)"
proof (cases "t = []")
  case True
  then show ?thesis
    using s sdslen_is [OF s] by (simp add: sdsrange_def sub_range_def)
next
  case False
  define l where "l = int (length t)"
  have l: "0 < l" "l < 2 ^ 31" using False len by (auto simp: l_def)
  define a where "a = (if start0 < 0 then max 0 (l + start0) else start0)"
  define b where "b = (if end0 < 0 then max 0 (l + end0) else end0)"
  define n where "n = (if a > b \<or> a \<ge> l then 0 else nat (min b (l - 1) - a) + 1)"
  define a2 where "a2 = (if a > b then 0 else a)"
  have trunc: "start0 < 0 \<Longrightarrow> signed_take_bit 31 (l + start0) = l + start0"
    "end0 < 0 \<Longrightarrow> signed_take_bit 31 (l + end0) = l + end0" "signed_take_bit 31 (l - 1) = l - 1"
    using l lo by (auto intro!: int_range_32)
  have i32: "int32 (length t) = l" using len by (simp add: l_def)
  have ab: "0 \<le> a" "0 \<le> b" by (auto simp: a_def b_def)
  have sel: "(if (if a > b then 0 else nat (b - a) + 1) \<noteq> 0
       then (if a \<ge> l then (a, 0)
             else if b \<ge> l then (a, if a > l - 1 then 0 else nat (l - 1 - a) + 1)
             else (a, if a > b then 0 else nat (b - a) + 1))
       else (0, if a > b then 0 else nat (b - a) + 1)) = (a2, n)"
    using l by (auto simp: a2_def n_def)
  have eq: "sdsrange s start0 end0 =
      rbind (if a2 \<noteq> 0 \<and> n \<noteq> 0 then rbind (read_bytes (nat a2) n s) (\<lambda>b. write_bytes 0 b s) else Inr s)
        (\<lambda>s1. rbind (write_bytes n [NUL] s1) (\<lambda>s2. Inr (sdssetlen s2 n)))"
  proof -
    have "(if start0 < 0 then max 0 (signed_take_bit 31 (int (length t) + start0)) else start0) = a"
      "(if end0 < 0 then max 0 (signed_take_bit 31 (int (length t) + end0)) else end0) = b"
      "signed_take_bit 31 (int (length t) - 1) = l - 1" "(length t = 0) = False"
      using trunc False by (auto simp: a_def b_def l_def [symmetric])
    then show ?thesis
      by (simp only: sdsrange_def sdslen_is [OF s] Let_def i32 if_False sel prod.case)
  qed
  have n_le: "nat a2 + n \<le> length t" if "n \<noteq> 0"
    using that ab l by (auto simp: n_def a2_def l_def split: if_splits)
  have sr: "sub_range t start0 end0 = take (nat (b - a + 1)) (drop (nat a) t)"
    by (simp add: sub_range_def Let_def a_def b_def l_def)
  have res: "sub_range t start0 end0 = take n (drop (nat a2) t)"
  proof (cases "n = 0")
    case True
    then have "a > b \<or> a \<ge> l" by (auto simp: n_def split: if_splits)
    then show ?thesis
      using True ab by (auto simp: sr l_def)
  next
    case False
    then have *: "a \<le> b" "a < l" "n = nat (min b (l - 1) - a) + 1" "a2 = a"
      by (auto simp: n_def a2_def split: if_splits)
    have "take (nat (b - a + 1)) (drop (nat a) t) = take n (drop (nat a) t)"
    proof (cases "b < l")
      case True with * show ?thesis by (simp add: nat_add_distrib)
    next
      case False with * ab show ?thesis by (auto simp: l_def)
    qed
    then show ?thesis
      using * by (simp add: sr)
  qed
  show ?thesis
  proof (cases "a2 \<noteq> 0 \<and> n \<noteq> 0")
    case True
    let ?u = "take n (drop (nat a2) t)"
    have u: "read_bytes (nat a2) n s = Inr ?u" "length ?u = n"
      using read_bytes_ok [OF s] n_le True by auto
    have "length ?u \<le> length t" by simp
    then show ?thesis
      using sds_rewrite [of s ?u] sds_is_fits [OF s, of ?u] u True by (simp add: eq res)
  next
    case False
    then have "n \<le> length t" "take n (drop (nat a2) t) = take n t"
      using n_le by (cases "n = 0"; auto)+
    moreover have "(a2 \<noteq> 0 \<and> n \<noteq> 0) = False" using False by simp
    ultimately show ?thesis
      using sds_truncate [OF s, of n] by (simp only: eq res if_False rbind_simps)
  qed
qed

lemma sdstolower_is: "sds_is s t \<Longrightarrow> \<exists>s'. sdstolower s = Inr s' \<and> sds_is s' (map tolower t)"
  using read_bytes_ok [of s t 0 "length t"] sdslen_is [of s t] sds_overwrite [of s t "map tolower t"]
  by (simp add: sdstolower_def)

lemma sdstoupper_is: "sds_is s t \<Longrightarrow> \<exists>s'. sdstoupper s = Inr s' \<and> sds_is s' (map toupper t)"
  using read_bytes_ok [of s t 0 "length t"] sdslen_is [of s t] sds_overwrite [of s t "map toupper t"]
  by (simp add: sdstoupper_def)

lemma sdsIncrLen_append:
  assumes s: "sds_is s t" and u: "u \<noteq> []" and room: "length t + length u < length (sbuf s)"
    and ty: "stype s \<noteq> SDS_TYPE_5"
  shows "\<exists>s1 s'. write_bytes (length t) u s = Inr s1 \<and> sdsIncrLen s1 (int (length u)) = Inr s' \<and>
    sds_is s' (t @ u)"
proof -
  obtain rest where buf: "sbuf s = map Some (t @ [NUL]) @ rest" "slen s = length t" "block_ok s"
    by (rule sds_isE [OF s])
  have alloc: "length (sbuf s) = salloc s + 1" "salloc s < 2 ^ type_width (stype s)"
    using buf(3) ty by (auto simp: block_ok_def)
  obtain s1 where s1: "write_bytes (length t) u s = Inr s1" "stype s1 = stype s" "salloc s1 = salloc s"
    "slen s1 = slen s" "length (sbuf s1) = length (sbuf s)"
    "sbuf s1 = take (length t) (sbuf s) @ map Some u @ drop (length t + length u) (sbuf s)"
    using write_bytes_ok [of "length t" u s] room by auto
  let ?n = "length t + length u" and ?s1 = "s1\<lparr>slen := length t + length u\<rparr>"
  have n: "?n < 2 ^ type_width (stype s)" using room alloc by simp
  obtain s2 where s2: "write_bytes ?n [NUL] ?s1 = Inr s2" "stype s2 = stype s" "salloc s2 = salloc s"
    "slen s2 = ?n" "length (sbuf s2) = length (sbuf s)"
    "sbuf s2 = take ?n (sbuf s1) @ map Some [NUL] @ drop (?n + 1) (sbuf s1)"
    using write_bytes_ok [of ?n "[NUL]" ?s1] room s1 by auto
  have "take ?n (sbuf s1) = map Some (t @ u)" using s1(6) buf(1) by simp
  then have "\<exists>r. sbuf s2 = map Some ((t @ u) @ [NUL]) @ r" using s2(6) by simp
  moreover have "block_ok s2" by (rule block_ok_same [OF buf(3) s2(2,3,5)])
  ultimately have "sds_is s2 (t @ u)" using n s2 by (intro sds_isI) auto
  moreover have "nat (int (length t) + int (length u)) = ?n" by simp
  then have "sdsIncrLen s1 (int (length u)) = Inr s2"
    using s1 s2(1) n ty room alloc buf(2) by (simp add: sdsIncrLen_def Let_def nat_int_add)
  ultimately show ?thesis using s1(1) by blast
qed

lemma sdsRemoveFreeSpace_is:
  assumes s: "sds_is s t"
  shows "sds_is (sdsRemoveFreeSpace s) t \<and> sdsavail (sdsRemoveFreeSpace s) = 0"
proof -
  obtain rest where buf: "sbuf s = map Some (t @ [NUL]) @ rest" "slen s = length t"
    "length t < 2 ^ type_width (stype s)"
    by (rule sds_isE [OF s])
  define ty where "ty = sdsReqType (length t)"
  have ty: "length t < 2 ^ type_width ty"
    using req_type_fits width_64 [OF buf(3)] by (simp add: ty_def)
  let ?b = "resize_block (length t + 1) (sbuf s)"
  have "Suc (length t) \<le> length (sbuf s)" by (simp add: buf(1))
  then have take_b: "resize_block (length t + 1) (take (length t + 1) (sbuf s)) = ?b"
    by (simp add: resize_block_def)
  have un: "sdsRemoveFreeSpace s = sdssetalloc (if stype s = ty then s\<lparr>sbuf := ?b\<rparr>
      else sdssetlen (s\<lparr>stype := ty, sbuf := ?b\<rparr>) (length t)) (length t)"
    by (simp only: sdsRemoveFreeSpace_def sdslen_def Let_def buf(2) ty_def take_b)
  have fields: "stype (sdsRemoveFreeSpace s) = ty" "slen (sdsRemoveFreeSpace s) = length t"
    "sbuf (sdsRemoveFreeSpace s) = ?b" and alloc: "ty \<noteq> SDS_TYPE_5 \<Longrightarrow> salloc (sdsRemoveFreeSpace s) = length t"
    using ty buf(2) by (auto simp: un sdssetalloc_def)
  have "\<exists>r. ?b = map Some (t @ [NUL]) @ r"
    using resize_prefix [of "map Some (t @ [NUL])" "length t + 1" rest] buf(1) by simp
  then have "sds_is (sdsRemoveFreeSpace s) t"
    using ty fields alloc by (intro sds_isI) (auto simp: block_ok_def)
  moreover have "length (sbuf (sdsRemoveFreeSpace s)) = length t + 1"
    by (simp add: fields)
  ultimately show ?thesis
    using sdsavail_is [of "sdsRemoveFreeSpace s" t] by simp
qed

lemma sdscmp_is:
  assumes "sds_is s1 t1" and "sds_is s2 t2" and "length t1 < 2 ^ 31" and "length t2 < 2 ^ 31"
  shows "\<exists>c. sdscmp s1 s2 = Inr c \<and> (c = 0 \<longleftrightarrow> t1 = t2)"
proof -
  let ?m = "min (length t1) (length t2)"
  have rd: "read_bytes 0 ?m s1 = Inr (take ?m t1)" "read_bytes 0 ?m s2 = Inr (take ?m t2)"
    using read_bytes_ok [OF assms(1), of 0 ?m] read_bytes_ok [OF assms(2), of 0 ?m] by auto
  have m: "(if length t1 < length t2 then length t1 else length t2) = ?m" by simp
  let ?c = "memcmp (take ?m t1) (take ?m t2)"
  let ?d = "int (length t1) - int (length t2)"
  have "signed_take_bit 31 ?d = ?d" using assms(3,4) by (intro int_range_32) auto
  then have eq: "sdscmp s1 s2 = Inr (if ?c = 0 then ?d else ?c)"
    by (simp only: sdscmp_def sdslen_is [OF assms(1)] sdslen_is [OF assms(2)] Let_def m rd rbind_simps)
  have "?c = 0 \<longleftrightarrow> take ?m t1 = take ?m t2" by (intro memcmp_eq) simp
  moreover have "t1 = t2 \<longleftrightarrow> take ?m t1 = take ?m t2 \<and> length t1 = length t2"
    by auto
  ultimately show ?thesis using eq by auto
qed

section \<open>Integers as strings\<close>

text \<open>
  \<^verbatim>\<open>sdsll2str\<close> and \<^verbatim>\<open>sdsull2str\<close>: the digits come out in reverse, then the buffer is
  reversed in place. \<open>rev_digits\<close> is the do-while loop, \<open>reverse_loop\<close> the second.
\<close>

function rev_digits :: "nat \<Rightarrow> string" where
  "rev_digits v = char_of (48 + v mod 10) # (if v div 10 \<noteq> 0 then rev_digits (v div 10) else [])"
  by pat_completeness auto
termination
  by (relation "measure id") auto

function reverse_loop :: "string \<Rightarrow> nat \<Rightarrow> nat \<Rightarrow> string" where
  "reverse_loop b s p =
     (if s < p then reverse_loop (b[s := b ! p, p := b ! s]) (s + 1) (p - 1) else b)"
  by pat_completeness auto
termination
  by (relation "measure (\<lambda>(b, s, p). p - s)") auto

declare rev_digits.simps [simp del] reverse_loop.simps [simp del]

definition sdsull2str :: "nat \<Rightarrow> string \<times> nat" where
  "sdsull2str v = (let b = rev_digits v; l = length b in (reverse_loop b 0 (l - 1), l))"

definition sdsll2str :: "int \<Rightarrow> string \<times> nat" where
  "sdsll2str v =
     (let u = nat ((if v < 0 then - v else v) mod 2 ^ 64);
          b = rev_digits u @ (if v < 0 then ''-'' else []); l = length b
      in (reverse_loop b 0 (l - 1), l))"

definition sdsfromlonglong :: "int \<Rightarrow> sds" where
  "sdsfromlonglong v = (case sdsll2str v of (buf, len) \<Rightarrow> sdsnewlen (Some buf) len)"

lemma rev_digits_udec: "rev_digits v = rev (udec v)"
proof (induction v rule: rev_digits.induct)
  case (1 v)
  have "v div 10 = 0 \<longleftrightarrow> v < 10" by auto
  then show ?case
    using 1 by (auto simp: rev_digits.simps [of v] udec.simps [of v] digit_char_def)
qed

lemma reverse_loop_rev:
  "length xs = length zs \<Longrightarrow>
   reverse_loop (xs @ m @ zs) (length xs) (length xs + length m - 1) = xs @ rev m @ zs"
proof (induction "length m" arbitrary: xs m zs rule: less_induct)
  case less
  consider "length m \<le> 1" | a c m' where "m = a # m' @ [c]"
    by (cases m rule: rev_cases) (auto, metis length_0_conv neq_Nil_conv le_zero_eq nat_le_linear rev_exhaust)
  then show ?case
  proof cases
    case 1
    then have "rev m = m" by (cases m) auto
    moreover have "\<not> length xs < length xs + length m - 1" using 1 by linarith
    ultimately show ?thesis by (simp add: reverse_loop.simps [of "xs @ m @ zs"])
  next
    case 2
    let ?b = "xs @ m @ zs" and ?s = "length xs" and ?p = "length xs + length m - 1"
    have p: "?p = Suc (length xs + length m')" "?s < ?p" using 2 by auto
    have swap: "?b[?s := ?b ! ?p, ?p := ?b ! ?s] = (xs @ [c]) @ m' @ (a # zs)"
      by (simp add: 2 nth_append list_update_append)
    have "reverse_loop ?b ?s ?p = reverse_loop (?b[?s := ?b ! ?p, ?p := ?b ! ?s]) (?s + 1) (?p - 1)"
      using p(2) by (simp add: reverse_loop.simps [of ?b])
    also have "\<dots> = reverse_loop ((xs @ [c]) @ m' @ (a # zs)) (length (xs @ [c]))
        (length (xs @ [c]) + length m' - 1)"
      unfolding swap using p(1) by simp
    also have "\<dots> = (xs @ [c]) @ rev m' @ (a # zs)"
      using 2 less.prems by (intro less.hyps) auto
    finally show ?thesis by (simp add: 2)
  qed
qed

lemma reverse_loop_all: "reverse_loop b 0 (length b - 1) = rev b"
  using reverse_loop_rev [of "[]" "[]" b] by simp

lemma sdsull2str_udec: "sdsull2str v = (udec v, length (udec v))"
  by (simp only: sdsull2str_def Let_def reverse_loop_all) (simp add: rev_digits_udec)

lemma sdsll2str_dec:
  assumes "LLONG_MIN \<le> v" and "v \<le> LLONG_MAX"
  shows "sdsll2str v = (dec v, length (dec v))"
proof -
  have "nat ((if v < 0 then - v else v) mod 2 ^ 64) = nat \<bar>v\<bar>"
    using assms by (simp add: LLONG_MIN_def LLONG_MAX_def)
  then show ?thesis
    by (simp only: sdsll2str_def Let_def reverse_loop_all) (simp add: rev_digits_udec dec_def)
qed

section \<open>The interface: byte buffers\<close>

text \<open>
  What the clients of the strings rely on: appending bytes to a buffer that holds a
  string gives a buffer that holds the longer string.
\<close>

locale byte_buffer =
  fixes holds_bytes :: "'b \<Rightarrow> string \<Rightarrow> bool"
    and append :: "'b \<Rightarrow> string \<Rightarrow> 'b result"
  assumes append_ok: "holds_bytes b t \<Longrightarrow> length t + length u < 2 ^ 63 \<Longrightarrow>
    \<exists>b'. append b u = Inr b' \<and> holds_bytes b' (t @ u)"
begin

primrec append_all :: "'b \<Rightarrow> string list \<Rightarrow> 'b result" where
  "append_all b [] = Inr b"
| "append_all b (u # us) = rbind (append b u) (\<lambda>b'. append_all b' us)"

lemma append_all_ok:
  "holds_bytes b t \<Longrightarrow> length t + length (concat us) < 2 ^ 63 \<Longrightarrow>
   \<exists>b'. append_all b us = Inr b' \<and> holds_bytes b' (t @ concat us)"
proof (induction us arbitrary: b t)
  case (Cons u us)
  then obtain b1 where b1: "append b u = Inr b1" "holds_bytes b1 (t @ u)"
    using append_ok [of b t u] by auto
  with Cons.IH [OF b1(2)] Cons.prems(2) show ?case by simp
qed simp

end

interpretation sds_buffer: byte_buffer sds_is sdscatlen
  by unfold_locales (rule sdscatlen_is)

text \<open>\<^verbatim>\<open>sdsjoin\<close> and \<^verbatim>\<open>sdsjoinsds\<close>: the strings with the separator between them.\<close>

fun join_pieces :: "string list \<Rightarrow> string \<Rightarrow> string list" where
  "join_pieces [] sep = []"
| "join_pieces [a] sep = [a]"
| "join_pieces (a # b # as) sep = a # sep # join_pieces (b # as) sep"

fun cat_pieces :: "sds \<Rightarrow> string list \<Rightarrow> sds result" where
  "cat_pieces s [] = Inr s"
| "cat_pieces s (u # us) = rbind (sdscatlen s u) (\<lambda>s'. cat_pieces s' us)"

definition sdsjoin :: "string list \<Rightarrow> string \<Rightarrow> sds result" where
  "sdsjoin argv sep = cat_pieces sdsempty (join_pieces (map cstr argv) (cstr sep))"

definition sdsjoinsds :: "sds list \<Rightarrow> string \<Rightarrow> sds result" where
  "sdsjoinsds argv sep = cat_pieces sdsempty (join_pieces (map sds_str argv) sep)"

lemma cat_pieces_append_all: "cat_pieces = sds_buffer.append_all"
proof (intro ext)
  fix s us
  show "cat_pieces s us = sds_buffer.append_all s us"
    by (induction us arbitrary: s) (auto simp: rbind_def split: sum.splits)
qed

lemma cat_pieces_is:
  "sds_is s t \<Longrightarrow> length t + length (concat us) < 2 ^ 63 \<Longrightarrow>
   \<exists>s'. cat_pieces s us = Inr s' \<and> sds_is s' (t @ concat us)"
  using sds_buffer.append_all_ok by (simp add: cat_pieces_append_all)

section \<open>Properties\<close>

text \<open>
  C19 (refinement). Appending to a well-formed string stays inside the block, whichever
  of the five headers the string has and whether or not it must be reallocated
  into another, and gives a well-formed string whose bytes are the two strings
  one after the other.
\<close>

theorem sdscatlen_appends:
  assumes "sds_wf s" and "length (sds_str s) + length t < 2 ^ 63"
  shows "\<exists>s'. sdscatlen s t = Inr s' \<and> sds_wf s' \<and> sds_str s' = sds_str s @ t"
  using sdscatlen_is [of s "sds_str s" t] assms by (simp add: sds_is_wf)

theorem sdscatlen_appends_witness:
  "sds_wf sdsempty \<and> (\<exists>s'. sdscatlen sdsempty ''foo'' = Inr s' \<and> sds_wf s' \<and> sds_str s' = ''foo'')"
proof -
  have e: "sds_wf sdsempty" "sds_str sdsempty = []" using sdsempty_is by (auto simp: sds_is_wf)
  then show ?thesis using sdscatlen_appends [of sdsempty "''foo''"] by auto
qed

text \<open>
  \<^verbatim>\<open>sdsrange\<close> on a string shorter than \<open>2 ^ 31\<close> stays inside the block and
  keeps the bytes from \<^verbatim>\<open>start\<close> to \<^verbatim>\<open>end\<close>, both inclusive, an index below zero counting
  from the end of the string, clipped to the string; the header stays consistent.
\<close>

theorem sdsrange_correct:
  assumes "sds_wf s" and "length (sds_str s) < 2 ^ 31"
    and "- (2 ^ 31) \<le> start0" and "- (2 ^ 31) \<le> end0"
  shows "\<exists>s'. sdsrange s start0 end0 = Inr s' \<and> sds_wf s' \<and> sds_str s' = sub_range (sds_str s) start0 end0"
  using sdsrange_is [of s "sds_str s" start0 end0] assms by (simp add: sds_is_wf)

theorem sdsrange_correct_witness:
  "sds_wf (sdsnew (Some ''Hello World'')) \<and>
   (\<exists>s'. sdsrange (sdsnew (Some ''Hello World'')) 1 (- 1) = Inr s' \<and> sds_str s' = ''ello World'')"
proof -
  have e: "sds_wf (sdsnew (Some ''Hello World''))"
    "sds_str (sdsnew (Some ''Hello World'')) = ''Hello World''"
    using sdsnew_is [of "''Hello World''"] by (auto simp: sds_is_wf cstr_def)
  have "sub_range ''Hello World'' 1 (- 1) = ''ello World''" by code_simp
  then show ?thesis
    using sdsrange_correct [OF e(1), of 1 "- 1"] e by auto
qed

text \<open>
  C20 (safety). The idiom the server uses to read from a socket: make room for \<open>n\<close>
  bytes, let the kernel write up to \<open>n\<close> bytes after the end of the string, add
  their number with \<^verbatim>\<open>sdsIncrLen\<close>. No write leaves the block, the assertion of
  \<^verbatim>\<open>sdsIncrLen\<close> holds, and the result is the old string followed by the bytes read.
\<close>

theorem read_into_sds:
  assumes "sds_wf s" and "length (sds_str s) + n < 2 ^ 63" and "u \<noteq> []" and "length u \<le> n"
  shows "\<exists>s1 s2. write_bytes (length (sds_str s)) u (sdsMakeRoomFor s n) = Inr s1 \<and>
    sdsIncrLen s1 (int (length u)) = Inr s2 \<and> sds_wf s2 \<and> sds_str s2 = sds_str s @ u"
proof -
  have s: "sds_is s (sds_str s)" using assms(1) by (simp add: sds_wf_def)
  note room = sdsMakeRoomFor_is [OF s assms(2)]
  have "0 < n" using assms(3,4) by (cases u) auto
  have "stype (sdsMakeRoomFor s n) \<noteq> SDS_TYPE_5"
  proof (cases "sdsavail s \<ge> n")
    case True
    then show ?thesis using \<open>0 < n\<close> by (auto simp: sdsMakeRoomFor_def sdsavail_def split: if_splits)
  next
    case False
    then show ?thesis
      by (auto simp: sdsMakeRoomFor_def Let_def sdssetalloc_def req_type_5 split: if_splits)
  qed
  then show ?thesis
    using sdsIncrLen_append [OF room(1) assms(3)] room(2) assms(4) by (auto simp: sds_is_wf)
qed

theorem read_into_sds_witness:
  "sds_wf sdsempty \<and>
   (\<exists>s1 s2. write_bytes 0 ''PING'' (sdsMakeRoomFor sdsempty 16384) = Inr s1 \<and>
     sdsIncrLen s1 4 = Inr s2 \<and> sds_str s2 = ''PING'')"
proof -
  have e: "sds_wf sdsempty" "sds_str sdsempty = []" using sdsempty_is by (auto simp: sds_is_wf)
  then show ?thesis using read_into_sds [OF e(1), of 16384 "''PING''"] by auto
qed

end
