(* ===== verification/Sds_Text.thy ===== *)
theory Sds_Text
  imports Sds
begin

text \<open>
  The functions of \<^verbatim>\<open>sds.c\<close> that take text apart and put it together: quoting
  (\<^verbatim>\<open>sdscatrepr\<close>), splitting a line into arguments (\<^verbatim>\<open>sdssplitargs\<close>), splitting on a
  separator (\<^verbatim>\<open>sdssplitlen\<close>), and the formatter \<^verbatim>\<open>sdscatfmt\<close>. They build their results
  with \<^verbatim>\<open>sdscatlen\<close>, so the pieces they append are modelled as byte strings.

  A line is its characters before the NUL; \<open>cget p i\<close> is \<^verbatim>\<open>*(p+i)\<close>.
\<close>

section \<open>Quoting\<close>

definition isprint :: "char \<Rightarrow> bool" where
  "isprint c \<longleftrightarrow> 32 \<le> (of_char c :: nat) \<and> (of_char c :: nat) \<le> 126"

definition hex_char :: "nat \<Rightarrow> char" where
  "hex_char d = char_of (if d < 10 then 48 + d else 87 + d)"

text \<open>What one iteration of \<^verbatim>\<open>sdscatrepr\<close> appends for the character \<open>c\<close>.\<close>

definition repr_char :: "char \<Rightarrow> string" where
  "repr_char c =
     (if c = BSLASH \<or> c = DQUOTE then [BSLASH, c]
      else if c = LF then [BSLASH, CHR ''n'']
      else if c = CR then [BSLASH, CHR ''r'']
      else if c = HTAB then [BSLASH, CHR ''t'']
      else if c = CHR 0x07 then [BSLASH, CHR ''a'']
      else if c = CHR 0x08 then [BSLASH, CHR ''b'']
      else if isprint c then [c]
      else [BSLASH, CHR ''x'', hex_char (of_char c div 16), hex_char (of_char c mod 16)])"

definition repr_pieces :: "string \<Rightarrow> string list" where
  "repr_pieces p = [DQUOTE] # map repr_char p @ [[DQUOTE]]"

definition sdscatrepr :: "sds \<Rightarrow> string \<Rightarrow> sds result" where
  "sdscatrepr s p = cat_pieces s (repr_pieces p)"

section \<open>Splitting a line into arguments\<close>

definition is_hex_digit :: "char \<Rightarrow> bool" where
  "is_hex_digit c \<longleftrightarrow> (let n = of_char c :: nat in
     48 \<le> n \<and> n \<le> 57 \<or> 97 \<le> n \<and> n \<le> 102 \<or> 65 \<le> n \<and> n \<le> 70)"

definition hex_digit_to_int :: "char \<Rightarrow> nat" where
  "hex_digit_to_int c =
     (let n = of_char c :: nat in
      if 48 \<le> n \<and> n \<le> 57 then n - 48
      else if 97 \<le> n \<and> n \<le> 102 then n - 87
      else if 65 \<le> n \<and> n \<le> 70 then n - 55
      else 0)"

definition unescape :: "char \<Rightarrow> char" where
  "unescape c =
     (if c = CHR ''n'' then LF
      else if c = CHR ''r'' then CR
      else if c = CHR ''t'' then HTAB
      else if c = CHR ''b'' then CHR 0x08
      else if c = CHR ''a'' then CHR 0x07
      else c)"

text \<open>
  The token loop, \<^verbatim>\<open>while(!done)\<close>: the token and the rest of the line, or \<open>None\<close> at
  \<^verbatim>\<open>goto err\<close>. The \<^verbatim>\<open>if (*p) p++\<close> that ends an iteration is in the \<open>drop\<close> of each case.
\<close>

function get_token :: "string \<Rightarrow> bool \<Rightarrow> bool \<Rightarrow> string \<Rightarrow> (string \<times> string) option" where
  "get_token p inq insq current =
     (if inq then
        (if cget p 0 = BSLASH \<and> cget p 1 = CHR ''x'' \<and> is_hex_digit (cget p 2) \<and> is_hex_digit (cget p 3)
         then get_token (drop 4 p) inq insq
                (current @ [char_of (hex_digit_to_int (cget p 2) * 16 + hex_digit_to_int (cget p 3))])
         else if cget p 0 = BSLASH \<and> cget p 1 \<noteq> NUL
         then get_token (drop 2 p) inq insq (current @ [unescape (cget p 1)])
         else if cget p 0 = DQUOTE
         then (if cget p 1 \<noteq> NUL \<and> \<not> isspace (cget p 1) then None else Some (current, drop 1 p))
         else if cget p 0 = NUL then None
         else get_token (drop 1 p) inq insq (current @ [cget p 0]))
      else if insq then
        (if cget p 0 = BSLASH \<and> cget p 1 = SQUOTE
         then get_token (drop 2 p) inq insq (current @ [SQUOTE])
         else if cget p 0 = SQUOTE
         then (if cget p 1 \<noteq> NUL \<and> \<not> isspace (cget p 1) then None else Some (current, drop 1 p))
         else if cget p 0 = NUL then None
         else get_token (drop 1 p) inq insq (current @ [cget p 0]))
      else if cget p 0 = NUL then Some (current, p)
      else if cget p 0 \<in> {CHR '' '', LF, CR, HTAB} then Some (current, drop 1 p)
      else if cget p 0 = DQUOTE then get_token (drop 1 p) True insq current
      else if cget p 0 = SQUOTE then get_token (drop 1 p) inq True current
      else get_token (drop 1 p) inq insq (current @ [cget p 0]))"
  by pat_completeness auto
termination
  by (relation "measure (\<lambda>(p, inq, insq, current). length p)") (auto simp: cget_def split: if_splits)

declare get_token.simps [simp del]

lemma get_token_shorter:
  "get_token p inq insq current = Some (t, rest) \<Longrightarrow>
   length rest \<le> length p \<and> (cget p 0 \<noteq> NUL \<longrightarrow> length rest < length p)"
proof (induction p inq insq current rule: get_token.induct)
  case (1 p inq insq current)
  have ne: "cget p 0 \<noteq> NUL \<Longrightarrow> 0 < length p" by (auto simp: cget_def split: if_splits)
  have sh: "length rest \<le> length (drop k p) \<Longrightarrow> 0 < k \<Longrightarrow> cget p 0 \<noteq> NUL \<Longrightarrow>
      length rest \<le> length p \<and> length rest < length p" for k
    using ne unfolding length_drop by linarith
  show ?case
    using "1.prems" "1.IH" sh [of 1] sh [of 2] sh [of 4] ne
    by (subst (asm) get_token.simps) (auto split: if_splits)
qed

function sdssplitargs_loop :: "string \<Rightarrow> string list \<Rightarrow> string list option" where
  "sdssplitargs_loop p vector =
     (let p' = dropWhile isspace p
      in if cget p' 0 \<noteq> NUL
         then (case get_token p' False False [] of
                 None \<Rightarrow> None
               | Some (current, rest) \<Rightarrow> sdssplitargs_loop rest (vector @ [current]))
         else Some vector)"
  by pat_completeness auto
termination
proof (relation "measure (\<lambda>(p, vector). length p)")
  fix p :: string and vector x x2 current rest
  assume "x = dropWhile isspace p" and "cget x 0 \<noteq> NUL" and "get_token x False False [] = Some x2"
    and "(current, rest) = x2"
  then have "length rest < length x" "length x \<le> length p"
    using get_token_shorter [of x False False "[]" current rest] by (auto simp: length_dropWhile_le)
  then show "((rest, vector @ [current]), p, vector) \<in> measure (\<lambda>(p, vector). length p)"
    by simp
qed simp

declare sdssplitargs_loop.simps [simp del]

definition sdssplitargs :: "string \<Rightarrow> string list option" where
  "sdssplitargs line = sdssplitargs_loop (cstr line) []"

section \<open>What is quoted is read back\<close>

lemma of_char_hex: "d < 16 \<Longrightarrow> (of_char (hex_char d) :: nat) = (if d < 10 then 48 + d else 87 + d)"
  by (simp add: hex_char_def)

lemma hex_char_digit: "d < 16 \<Longrightarrow> is_hex_digit (hex_char d) \<and> hex_digit_to_int (hex_char d) = d"
  by (auto simp: is_hex_digit_def hex_digit_to_int_def of_char_hex Let_def)

lemma nibbles: "(of_char c :: nat) div 16 < 16" "(of_char c :: nat) mod 16 < 16"
  using nat_of_char_less_256 [of c] by (auto intro: less_mult_imp_div_less)

lemma hex_byte: "char_of (of_char c div 16 * 16 + of_char c mod 16 :: nat) = c"
  by simp

lemma cget_Cons: "cget (c # p) 0 = c" "cget (c # p) (Suc n) = cget p n"
  by (simp_all add: cget_def)

lemmas cget_numeral = cget_Cons(1) cget_Cons(2) [of _ _ 0] cget_Cons(2) [of _ _ 1, simplified]
  cget_Cons(2) [of _ _ 2, simplified]

lemma get_token_hex:
  assumes "p = BSLASH # CHR ''x'' # a # b # r" and "is_hex_digit a" and "is_hex_digit b"
  shows "get_token p True insq cur =
    get_token r True insq (cur @ [char_of (hex_digit_to_int a * 16 + hex_digit_to_int b)])"
proof -
  have "cget p 0 = BSLASH" "cget p 1 = CHR ''x''" "cget p 2 = a" "cget p 3 = b" "drop 4 p = r"
    by (simp_all add: assms(1) cget_def)
  then show ?thesis
    using assms(2,3) by (simp only: get_token.simps [of p] if_True simp_thms)
qed

lemma get_token_escape:
  assumes "p = BSLASH # a # r" and "a \<noteq> CHR ''x''" and "a \<noteq> NUL"
  shows "get_token p True insq cur = get_token r True insq (cur @ [unescape a])"
proof -
  have c: "cget p 0 = BSLASH" "cget p 1 = a" "drop 2 p = r"
    by (simp_all add: assms(1) cget_def)
  have "(a = CHR ''x'') = False" "(a \<noteq> NUL) = True" using assms(2,3) by auto
  then show ?thesis
    by (simp only: get_token.simps [of p] c if_True if_False simp_thms)
qed

lemma get_token_plain:
  assumes "p = c # r" and "c \<noteq> BSLASH" and "c \<noteq> DQUOTE" and "c \<noteq> NUL"
  shows "get_token p True insq cur = get_token r True insq (cur @ [c])"
proof -
  have c: "cget p 0 = c" "drop 1 p = r" by (simp_all add: assms(1) cget_def)
  show ?thesis
    using assms(2-4) by (simp add: get_token.simps [of p] c del: One_nat_def)
qed

lemma get_token_repr_char:
  "get_token (repr_char c @ r) True insq cur = get_token r True insq (cur @ [c])"
proof -
  consider "c = BSLASH \<or> c = DQUOTE" | "c = LF" | "c = CR" | "c = HTAB" | "c = CHR 0x07" | "c = CHR 0x08"
    | "c \<notin> {BSLASH, DQUOTE, LF, CR, HTAB, CHR 0x07, CHR 0x08}" "isprint c"
    | "c \<notin> {BSLASH, DQUOTE, LF, CR, HTAB, CHR 0x07, CHR 0x08}" "\<not> isprint c"
    by blast
  then show ?thesis
  proof cases
    case 7
    then have "repr_char c = [c]" by (simp add: repr_char_def)
    moreover have "c \<noteq> NUL" using 7(2) by (auto simp: isprint_def)
    ultimately show ?thesis using 7(1) get_token_plain [of "c # r" c r] by simp
  next
    case 8
    let ?a = "hex_char (of_char c div 16)" and ?b = "hex_char (of_char c mod 16)"
    have "repr_char c = [BSLASH, CHR ''x'', ?a, ?b]" using 8 by (simp add: repr_char_def)
    moreover have "is_hex_digit ?a \<and> hex_digit_to_int ?a = of_char c div 16"
      "is_hex_digit ?b \<and> hex_digit_to_int ?b = of_char c mod 16"
      using hex_char_digit [OF nibbles(1) [of c]] hex_char_digit [OF nibbles(2) [of c]] by blast+
    ultimately show ?thesis
      using get_token_hex [of "BSLASH # CHR ''x'' # ?a # ?b # r" ?a ?b r] by (simp add: hex_byte)
  qed (auto simp: repr_char_def get_token_escape unescape_def)
qed

lemma get_token_repr:
  "get_token (concat (map repr_char s) @ r) True insq cur = get_token r True insq (cur @ s)"
  by (induction s arbitrary: cur) (auto simp: get_token_repr_char)

definition repr :: "string \<Rightarrow> string" where
  "repr s = concat (repr_pieces s)"

lemma repr_eq: "repr s = DQUOTE # concat (map repr_char s) @ [DQUOTE]"
  by (simp add: repr_def repr_pieces_def)

lemma get_token_quoted:
  assumes "r = [] \<or> isspace (hd r)"
  shows "get_token (repr s @ r) False False [] = Some (s, r)"
proof -
  let ?p = "DQUOTE # concat (map repr_char s) @ DQUOTE # r"
  have "get_token (repr s @ r) False False [] = get_token (concat (map repr_char s) @ DQUOTE # r) True False []"
    by (simp add: repr_eq get_token.simps [of ?p] cget_def)
  also have "\<dots> = get_token (DQUOTE # r) True False s"
    by (simp add: get_token_repr)
  also have "\<dots> = Some (s, r)"
    using assms by (cases r) (auto simp: get_token.simps [of "DQUOTE # _"] cget_def)
  finally show ?thesis .
qed

lemma nul_free_append [simp]: "nul_free (a @ b) \<longleftrightarrow> nul_free a \<and> nul_free b"
  by (auto simp: nul_free_def)

lemma nul_free_Cons [simp]: "nul_free (c # a) \<longleftrightarrow> c \<noteq> NUL \<and> nul_free a"
  by (auto simp: nul_free_def)

lemma nul_free_repr: "nul_free (repr s)"
proof -
  have hex: "hex_char d \<noteq> NUL" if "d < 16" for d
    using of_char_hex [OF that] by (auto split: if_splits)
  have "nul_free (repr_char c)" for c
  proof -
    have "hex_char (of_char c div 16) \<noteq> NUL" "hex_char (of_char c mod 16) \<noteq> NUL"
      using hex nibbles by blast+
    then show ?thesis by (auto simp: repr_char_def nul_free_def isprint_def)
  qed
  then show ?thesis by (auto simp: repr_eq nul_free_def)
qed

text \<open>A line of quoted arguments, separated by single spaces.\<close>

fun quote_line :: "string list \<Rightarrow> string" where
  "quote_line [] = []"
| "quote_line [a] = repr a"
| "quote_line (a # b # as) = repr a @ CHR '' '' # quote_line (b # as)"

lemma nul_free_quote_line: "nul_free (quote_line as)"
  by (induction as rule: quote_line.induct) (auto simp: nul_free_repr, simp_all add: nul_free_def)

lemma hd_repr: "cget (repr s @ r) 0 = DQUOTE" "dropWhile isspace (repr s @ r) = repr s @ r"
  by (simp_all add: repr_eq cget_def isspace_def)

lemma split_quote_line: "sdssplitargs_loop (quote_line as) acc = Some (acc @ as)"
proof (induction as arbitrary: acc rule: quote_line.induct)
  case 1
  then show ?case by (simp add: sdssplitargs_loop.simps cget_def)
next
  case (2 a)
  show ?case
    using hd_repr [of a "[]"] get_token_quoted [of "[]" a]
    by (simp add: sdssplitargs_loop.simps [of "repr a"] sdssplitargs_loop.simps [of "[]"] cget_def Let_def)
next
  case (3 a b as)
  let ?r = "CHR '' '' # quote_line (b # as)"
  have "get_token (repr a @ ?r) False False [] = Some (a, ?r)"
    by (intro get_token_quoted) (simp add: isspace_def)
  then have "sdssplitargs_loop (quote_line (a # b # as)) acc = sdssplitargs_loop ?r (acc @ [a])"
    using hd_repr [of a ?r] by (simp add: sdssplitargs_loop.simps [of "repr a @ ?r"] Let_def)
  also have "\<dots> = sdssplitargs_loop (quote_line (b # as)) (acc @ [a])"
    by (simp add: sdssplitargs_loop.simps [of ?r] sdssplitargs_loop.simps [of "quote_line (b # as)"]
        isspace_def Let_def)
  finally show ?case using 3 by simp
qed

section \<open>Splitting on a separator\<close>

text \<open>
  The loop of \<^verbatim>\<open>sdssplitlen\<close> from the index \<^verbatim>\<open>j\<close> on, and the final element. The loop is
  not entered with an empty separator. The array of
  tokens doubles its room before it is needed and is the list of its elements.
\<close>

function split_loop :: "string \<Rightarrow> string \<Rightarrow> nat \<Rightarrow> nat \<Rightarrow> string list \<Rightarrow> string list" where
  "split_loop s sep j start tokens =
     (if sep \<noteq> [] \<and> int j < int (length s) - (int (length sep) - 1) then
        (if length sep = 1 \<and> cget s j = cget sep 0 \<or> take (length sep) (drop j s) = sep
         then split_loop s sep (j + length sep - 1 + 1) (j + length sep)
                (tokens @ [take (j - start) (drop start s)])
         else split_loop s sep (j + 1) start tokens)
      else tokens @ [take (length s - start) (drop start s)])"
  by pat_completeness auto
termination
  by (relation "measure (\<lambda>(s, sep, j, start, tokens). Suc (length s) - j)")
    (auto simp: neq_Nil_conv)

declare split_loop.simps [simp del]

definition sdssplitlen :: "string \<Rightarrow> string \<Rightarrow> string list option" where
  "sdssplitlen s sep =
     (if length sep < 1 then None
      else if s = [] then Some []
      else Some (split_loop s sep 0 0 []))"

lemma split_loop_cond:
  "sep \<noteq> [] \<Longrightarrow> j + length sep \<le> length s \<Longrightarrow>
   (length sep = 1 \<and> cget s j = cget sep 0 \<or> take (length sep) (drop j s) = sep) \<longleftrightarrow>
   take (length sep) (drop j s) = sep"
  by (cases sep) (auto simp: cget_def take_Suc_conv_app_nth)

lemma split_loop_step:
  assumes "sep \<noteq> []"
  shows "split_loop s sep j start tokens =
    (if j + length sep \<le> length s then
       (if take (length sep) (drop j s) = sep
        then split_loop s sep (j + length sep) (j + length sep) (tokens @ [take (j - start) (drop start s)])
        else split_loop s sep (Suc j) start tokens)
     else tokens @ [drop start s])"
proof -
  have c: "(int j < int (length s) - (int (length sep) - 1)) = (j + length sep \<le> length s)" by auto
  have n: "j + length sep - 1 + 1 = j + length sep" using assms by (cases sep) auto
  show ?thesis
    using assms split_loop_cond [OF assms, of j s] by (simp add: split_loop.simps [of s sep j] c n)
qed

lemma concat_join_Cons: "ts \<noteq> [] \<Longrightarrow> concat (join_pieces (a # ts) sep) = a @ sep @ concat (join_pieces ts sep)"
  by (cases ts) auto

lemma split_loop_join:
  assumes "sep \<noteq> []" and "start \<le> j" and "start \<le> length s"
  shows "\<exists>ts. split_loop s sep j start tokens = tokens @ ts \<and> ts \<noteq> [] \<and>
    concat (join_pieces ts sep) = drop start s"
  using assms(2,3)
proof (induction "Suc (length s) - j" arbitrary: j start tokens rule: less_induct)
  case less
  show ?case
  proof (cases "j + length sep \<le> length s")
    case False
    then show ?thesis by (simp add: split_loop_step [OF assms(1)])
  next
    case True
    have pos: "0 < length sep" using assms(1) by simp
    show ?thesis
    proof (cases "take (length sep) (drop j s) = sep")
      case sep: True
      let ?tok = "take (j - start) (drop start s)"
      obtain ts where ts: "split_loop s sep (j + length sep) (j + length sep) (tokens @ [?tok]) =
          (tokens @ [?tok]) @ ts" "ts \<noteq> []" "concat (join_pieces ts sep) = drop (j + length sep) s"
      proof -
        have "Suc (length s) - (j + length sep) < Suc (length s) - j" using True pos by linarith
        from less.hyps [OF this, of "j + length sep" "tokens @ [?tok]"] True that show thesis by blast
      qed
      have "drop start s = ?tok @ drop j s"
        using less.prems(1) by (metis append_take_drop_id drop_drop le_add_diff_inverse2)
      also have "drop j s = sep @ drop (j + length sep) s"
        using sep by (metis append_take_drop_id drop_drop add.commute)
      finally have "concat (join_pieces (?tok # ts) sep) = drop start s"
        using ts(2,3) by (simp add: concat_join_Cons)
      with ts True sep show ?thesis
        by (simp add: split_loop_step [OF assms(1), of s j])
    next
      case nosep: False
      have "\<exists>ts. split_loop s sep (Suc j) start tokens = tokens @ ts \<and> ts \<noteq> [] \<and>
          concat (join_pieces ts sep) = drop start s"
        using less.hyps [of "Suc j" start tokens] True pos less.prems by auto
      with True nosep show ?thesis by (simp add: split_loop_step [OF assms(1), of s j])
    qed
  qed
qed

lemma split_loop_free:
  assumes "start \<le> j" and "j \<le> length s" and "\<forall>t\<in>set tokens. c \<notin> set t"
    and "c \<notin> set (take (j - start) (drop start s))"
  shows "\<forall>t\<in>set (split_loop s [c] j start tokens). c \<notin> set t"
  using assms
proof (induction "Suc (length s) - j" arbitrary: j start tokens rule: less_induct)
  case less
  show ?case
  proof (cases "j < length s")
    case False
    then have "take (j - start) (drop start s) = drop start s" using less.prems(2) by simp
    with False less.prems show ?thesis by (simp add: split_loop_step)
  next
    case True
    show ?thesis
    proof (cases "take (length [c]) (drop j s) = [c]")
      case sep: True
      have "\<forall>t\<in>set (split_loop s [c] (Suc j) (Suc j) (tokens @ [take (j - start) (drop start s)])). c \<notin> set t"
        using True less.prems by (intro less.hyps) auto
      with True sep show ?thesis by (simp add: split_loop_step [of _ s j])
    next
      case nosep: False
      then have "s ! j \<noteq> c" using True by (simp add: take_Suc_conv_app_nth)
      moreover have "take (Suc j - start) (drop start s) = take (j - start) (drop start s) @ [s ! j]"
        using True less.prems(1) by (simp add: Suc_diff_le take_Suc_conv_app_nth)
      ultimately have "\<forall>t\<in>set (split_loop s [c] (Suc j) start tokens). c \<notin> set t"
        using True less.prems by (intro less.hyps) auto
      with True nosep show ?thesis by (simp add: split_loop_step [of _ s j])
    qed
  qed
qed

section \<open>Formatting\<close>

text \<open>
  \<^verbatim>\<open>sdscatfmt\<close>: the pieces it appends for a format and its arguments, \<open>None\<close> when an
  argument is missing or of another type, where the C code has no defined
  behaviour. A \<open>%\<close> before any other character stands for that character; the NUL
  after a trailing \<open>%\<close> is appended too, and the scan goes on past the end of the
  format, which is again undefined.
\<close>

datatype fmt_arg = ArgStr string | ArgSds string | ArgInt int | ArgLongLong int | ArgUInt nat | ArgULongLong nat

definition fmt_one :: "char \<Rightarrow> fmt_arg list \<Rightarrow> (string \<times> fmt_arg list) option" where
  "fmt_one nxt args =
     (if nxt = CHR ''s'' then (case args of ArgStr s # as \<Rightarrow> Some (cstr s, as) | _ \<Rightarrow> None)
      else if nxt = CHR ''S'' then (case args of ArgSds s # as \<Rightarrow> Some (s, as) | _ \<Rightarrow> None)
      else if nxt = CHR ''i'' then (case args of ArgInt n # as \<Rightarrow> Some (fst (sdsll2str n), as) | _ \<Rightarrow> None)
      else if nxt = CHR ''I'' then (case args of ArgLongLong n # as \<Rightarrow> Some (fst (sdsll2str n), as) | _ \<Rightarrow> None)
      else if nxt = CHR ''u'' then (case args of ArgUInt n # as \<Rightarrow> Some (fst (sdsull2str n), as) | _ \<Rightarrow> None)
      else if nxt = CHR ''U'' then (case args of ArgULongLong n # as \<Rightarrow> Some (fst (sdsull2str n), as) | _ \<Rightarrow> None)
      else Some ([nxt], args))"

fun fmt_pieces :: "string \<Rightarrow> fmt_arg list \<Rightarrow> string list option" where
  "fmt_pieces [] args = Some []"
| "fmt_pieces [c] args = (if c = CHR ''%'' then None else Some [[c]])"
| "fmt_pieces (c # d # f) args =
     (if c \<noteq> CHR ''%'' then map_option ((#) [c]) (fmt_pieces (d # f) args)
      else (case fmt_one d args of
              None \<Rightarrow> None
            | Some (u, args') \<Rightarrow> map_option ((#) u) (fmt_pieces f args')))"

definition sdscatfmt :: "sds \<Rightarrow> string \<Rightarrow> fmt_arg list \<Rightarrow> sds result option" where
  "sdscatfmt s fmt args = map_option (cat_pieces s) (fmt_pieces (cstr fmt) args)"

text \<open>\<^verbatim>\<open>sdsmapchars\<close>: every character found in \<^verbatim>\<open>from\<close> becomes the one at its first position in \<^verbatim>\<open>to\<close>.\<close>

fun map_char :: "char \<Rightarrow> string \<Rightarrow> string \<Rightarrow> char" where
  "map_char c (a # as) (b # bs) = (if c = a then b else map_char c as bs)"
| "map_char c _ _ = c"

definition sdsmapchars :: "sds \<Rightarrow> string \<Rightarrow> string \<Rightarrow> nat \<Rightarrow> sds result" where
  "sdsmapchars s from to setlen =
     rbind (read_bytes 0 (sdslen s) s)
       (\<lambda>b. write_bytes 0 (map (\<lambda>c. map_char c (take setlen from) (take setlen to)) b) s)"

section \<open>Properties\<close>

text \<open>
  C21 (roundtrip). Quoting and splitting are inverse: a line of any byte strings quoted
  by \<^verbatim>\<open>sdscatrepr\<close> and separated by spaces is split by \<^verbatim>\<open>sdssplitargs\<close> into exactly
  those byte strings, NUL bytes, quotes and control characters included.
\<close>

theorem splitargs_repr: "sdssplitargs (quote_line args) = Some args"
  using split_quote_line [of args "[]"] nul_free_quote_line [of args] by (simp add: sdssplitargs_def)

text \<open>
  \<^verbatim>\<open>sdssplitlen\<close> loses nothing: on a non-empty string the tokens joined
  by the separator are the string; with a one-character separator no token
  contains it.
\<close>

theorem sdssplitlen_join:
  assumes "s \<noteq> []" and "sep \<noteq> []"
  shows "\<exists>ts. sdssplitlen s sep = Some ts \<and> concat (join_pieces ts sep) = s \<and>
    (length sep = 1 \<longrightarrow> list_all (\<lambda>t. hd sep \<notin> set t) ts)"
proof -
  obtain ts where ts: "split_loop s sep 0 0 [] = ts" "concat (join_pieces ts sep) = s"
    using split_loop_join [OF assms(2), of 0 0 s "[]"] by auto
  have "list_all (\<lambda>t. hd sep \<notin> set t) ts" if one: "length sep = 1"
  proof -
    obtain c where c: "sep = [c]" using one by (cases sep) auto
    then show ?thesis
      using split_loop_free [of 0 0 s "[]" c] ts(1) by (simp add: list_all_iff)
  qed
  with ts assms show ?thesis by (cases sep) (auto simp: sdssplitlen_def)
qed

theorem sdssplitlen_join_witness:
  "\<exists>ts. sdssplitlen ''foo bar'' '' '' = Some ts \<and> concat (join_pieces ts '' '') = ''foo bar''"
  using sdssplitlen_join [of "''foo bar''" "'' ''"] by auto

lemma sdscatrepr_is:
  assumes "sds_wf s" and "length (sds_str s) + length (repr p) < 2 ^ 63"
  shows "\<exists>s'. sdscatrepr s p = Inr s' \<and> sds_wf s' \<and> sds_str s' = sds_str s @ repr p"
  using cat_pieces_is [of s "sds_str s" "repr_pieces p"] assms
  by (simp add: sds_is_wf sdscatrepr_def repr_def)

end
