(* ===== verification/Robj.thy ===== *)
theory Robj
  imports Rr_Dict Rr_Minheap Util
begin

text \<open>
  The reference-counted objects of \<^verbatim>\<open>robj.c\<close> over an explicit store.

  An \<^verbatim>\<open>robj *\<close> is an address; the store maps the addresses of live objects to their
  contents, and reading through an address that is not live is a use after free.
  The pointer field is a byte string (the \<^verbatim>\<open>sds\<close> of a RAW or EMBSTR object), the
  integer kept in the pointer itself (INT), a dictionary of addresses, a heap of
  items with addresses, or a full-text index. The free space at the end of an \<^verbatim>\<open>sds\<close>
  is not part of this level.

  Scores are a type \<open>'d\<close> with a linear order: doubles without NaN, which
  \<^verbatim>\<open>getDoubleFromObject\<close> rejects. What \<^verbatim>\<open>strtod\<close> returns is a parameter.
\<close>

section \<open>Objects and the store\<close>

type_synonym addr = nat

datatype callback = FreeObj | FreeDoc | FreeIndex

record 'd hq_item_t =
  score :: 'd
  obj :: addr

record fts_doc_t =
  title :: addr
  doc :: addr
  dlen :: int

text \<open>
  \<^verbatim>\<open>fts_t\<close>. A \<^verbatim>\<open>fts_doc_t *\<close> is an index into \<open>dheap\<close>; an index list holds the pairs of a
  document and its term frequency.
\<close>

record fts_t =
  docs :: "(nat, callback) dict_t"
  index :: "((nat \<times> int) list, callback) dict_t"
  flen :: int
  dheap :: "nat \<Rightarrow> fts_doc_t option"
  dnext :: nat

datatype otype = OBJ_STRING | OBJ_HASH | OBJ_HEAPQ | OBJ_FTS

datatype oencoding =
    OBJ_ENCODING_RAW | OBJ_ENCODING_INT | OBJ_ENCODING_HT | OBJ_ENCODING_EMBSTR
  | OBJ_ENCODING_HEAPQ | OBJ_ENCODING_FTS

datatype 'd optr =
    PStr string
  | PInt int
  | PDict "(addr, callback) dict_t"
  | PHeap "('d hq_item_t, callback) minheap_t"
  | PFts fts_t

record 'd robj =
  otype :: otype
  encoding :: oencoding
  refcount :: int
  ptr :: "'d optr"

record 'd store =
  objs :: "addr \<Rightarrow> 'd robj option"
  next_addr :: addr

definition OBJ_SHARED_REFCOUNT :: int where "OBJ_SHARED_REFCOUNT = 2 ^ 31 - 1"
definition OBJ_SHARED_INTEGERS :: nat where "OBJ_SHARED_INTEGERS = 10000"
definition OBJ_ENCODING_EMBSTR_SIZE_LIMIT :: nat where "OBJ_ENCODING_EMBSTR_SIZE_LIMIT = 44"

definition get_obj :: "'d store \<Rightarrow> addr \<Rightarrow> 'd robj result" where
  "get_obj st a = (case objs st a of None \<Rightarrow> Inl UseAfterFree | Some r \<Rightarrow> Inr r)"

definition set_obj :: "'d store \<Rightarrow> addr \<Rightarrow> 'd robj \<Rightarrow> 'd store" where
  "set_obj st a r = st\<lparr>objs := (objs st)(a \<mapsto> r)\<rparr>"

definition free_mem :: "'d store \<Rightarrow> addr \<Rightarrow> 'd store" where
  "free_mem st a = st\<lparr>objs := (objs st)(a := None)\<rparr>"

definition alloc :: "'d store \<Rightarrow> 'd robj \<Rightarrow> addr \<times> 'd store" where
  "alloc st r = (next_addr st, st\<lparr>objs := (objs st)(next_addr st \<mapsto> r), next_addr := next_addr st + 1\<rparr>)"

definition sdsEncodedObject :: "'d robj \<Rightarrow> bool" where
  "sdsEncodedObject r \<longleftrightarrow> encoding r = OBJ_ENCODING_RAW \<or> encoding r = OBJ_ENCODING_EMBSTR"

text \<open>The pointer field used as an \<^verbatim>\<open>sds\<close>, and as a C string.\<close>

definition ptr_sds :: "'d robj \<Rightarrow> string result" where
  "ptr_sds r = (case ptr r of PStr s \<Rightarrow> Inr s | _ \<Rightarrow> Inl BadPointer)"

definition ptr_cstr :: "'d robj \<Rightarrow> string result" where
  "ptr_cstr r = rbind (ptr_sds r) (\<lambda>s. Inr (cstr s))"

definition ptr_long :: "'d robj \<Rightarrow> int result" where
  "ptr_long r = (case ptr r of PInt n \<Rightarrow> Inr n | _ \<Rightarrow> Inl BadPointer)"

definition ptr_dict :: "'d robj \<Rightarrow> (addr, callback) dict_t result" where
  "ptr_dict r = (case ptr r of PDict d \<Rightarrow> Inr d | _ \<Rightarrow> Inl BadPointer)"

definition ptr_heap :: "'d robj \<Rightarrow> ('d hq_item_t, callback) minheap_t result" where
  "ptr_heap r = (case ptr r of PHeap h \<Rightarrow> Inr h | _ \<Rightarrow> Inl BadPointer)"

definition ptr_fts :: "'d robj \<Rightarrow> fts_t result" where
  "ptr_fts r = (case ptr r of PFts f \<Rightarrow> Inr f | _ \<Rightarrow> Inl BadPointer)"

section \<open>Creating objects\<close>

definition createObject :: "'d store \<Rightarrow> otype \<Rightarrow> 'd optr \<Rightarrow> addr \<times> 'd store" where
  "createObject st ty p = alloc st \<lparr>otype = ty, encoding = OBJ_ENCODING_RAW, refcount = 1, ptr = p\<rparr>"

definition makeObjectShared :: "'d store \<Rightarrow> addr \<Rightarrow> 'd store result" where
  "makeObjectShared st a =
     rbind (get_obj st a) (\<lambda>r.
       if refcount r \<noteq> 1 then Inl AssertFail
       else Inr (set_obj st a (r\<lparr>refcount := OBJ_SHARED_REFCOUNT\<rparr>)))"

definition createRawStringObject :: "'d store \<Rightarrow> string \<Rightarrow> addr \<times> 'd store" where
  "createRawStringObject st s = createObject st OBJ_STRING (PStr s)"

definition createEmbeddedStringObject :: "'d store \<Rightarrow> string \<Rightarrow> addr \<times> 'd store" where
  "createEmbeddedStringObject st s =
     alloc st \<lparr>otype = OBJ_STRING, encoding = OBJ_ENCODING_EMBSTR, refcount = 1, ptr = PStr s\<rparr>"

definition createStringObject :: "'d store \<Rightarrow> string \<Rightarrow> addr \<times> 'd store" where
  "createStringObject st s =
     (if length s \<le> OBJ_ENCODING_EMBSTR_SIZE_LIMIT then createEmbeddedStringObject st s
      else createRawStringObject st s)"

definition incrRefCount :: "'d store \<Rightarrow> addr \<Rightarrow> 'd store result" where
  "incrRefCount st a =
     rbind (get_obj st a) (\<lambda>r.
       Inr (if refcount r \<noteq> OBJ_SHARED_REFCOUNT then set_obj st a (r\<lparr>refcount := refcount r + 1\<rparr>) else st))"

text \<open>The address of \<^verbatim>\<open>shared.integers[j]\<close>.\<close>

definition shared_integer :: "int \<Rightarrow> addr" where
  "shared_integer j = nat j"

definition createStringObjectFromLongLong :: "'d store \<Rightarrow> int \<Rightarrow> (addr \<times> 'd store) result" where
  "createStringObjectFromLongLong st v =
     (if v \<ge> 0 \<and> v < int OBJ_SHARED_INTEGERS
      then rbind (incrRefCount st (shared_integer v)) (\<lambda>st'. Inr (shared_integer v, st'))
      else if v \<ge> LLONG_MIN \<and> v \<le> LLONG_MAX
      then Inr (alloc st \<lparr>otype = OBJ_STRING, encoding = OBJ_ENCODING_INT, refcount = 1, ptr = PInt v\<rparr>)
      else Inr (createObject st OBJ_STRING (PStr (dec v))))"

definition dupStringObject :: "'d store \<Rightarrow> addr \<Rightarrow> (addr option \<times> 'd store) result" where
  "dupStringObject st a =
     rbind (get_obj st a) (\<lambda>r.
       if otype r \<noteq> OBJ_STRING then Inl AssertFail
       else if encoding r = OBJ_ENCODING_RAW
       then rbind (ptr_sds r) (\<lambda>s. Inr (case createRawStringObject st s of (b, st') \<Rightarrow> (Some b, st')))
       else if encoding r = OBJ_ENCODING_EMBSTR
       then rbind (ptr_sds r) (\<lambda>s. Inr (case createEmbeddedStringObject st s of (b, st') \<Rightarrow> (Some b, st')))
       else if encoding r = OBJ_ENCODING_INT
       then Inr (case alloc st \<lparr>otype = OBJ_STRING, encoding = OBJ_ENCODING_INT, refcount = 1, ptr = ptr r\<rparr>
                 of (b, st') \<Rightarrow> (Some b, st'))
       else Inr (None, st))"

definition createHashObject :: "'d store \<Rightarrow> addr \<times> 'd store" where
  "createHashObject st =
     alloc st \<lparr>otype = OBJ_HASH, encoding = OBJ_ENCODING_HT, refcount = 1,
               ptr = PDict (dict_set_freecb dict_create (Some FreeObj))\<rparr>"

text \<open>The callbacks of the heap of items.\<close>

definition hq_cpy :: "'d hq_item_t \<Rightarrow> 'd hq_item_t" where
  "hq_cpy src = src"

definition hq_cmp :: "'d::linorder hq_item_t \<Rightarrow> 'd hq_item_t \<Rightarrow> int" where
  "hq_cmp l r = (if score l < score r then - 1 else if score l > score r then 1 else 0)"

definition hq_swp :: "'d hq_item_t \<times> 'd hq_item_t \<Rightarrow> 'd hq_item_t \<times> 'd hq_item_t" where
  "hq_swp = (\<lambda>(l, r). (r, l))"

definition createHeapqObject :: "'d::linorder store \<Rightarrow> addr \<times> 'd store" where
  "createHeapqObject st =
     alloc st \<lparr>otype = OBJ_HEAPQ, encoding = OBJ_ENCODING_HEAPQ, refcount = 1,
               ptr = PHeap (minheap_set_freecb (minheap_create 8 16 hq_cmp hq_cpy hq_swp) (Some FreeObj))\<rparr>"

definition fts_create :: fts_t where
  "fts_create =
     \<lparr>docs = dict_set_freecb dict_create (Some FreeDoc),
      index = dict_set_freecb dict_create (Some FreeIndex),
      flen = 0, dheap = (\<lambda>_. None), dnext = 0\<rparr>"

definition createFTSObject :: "'d store \<Rightarrow> addr \<times> 'd store" where
  "createFTSObject st =
     alloc st \<lparr>otype = OBJ_FTS, encoding = OBJ_ENCODING_FTS, refcount = 1, ptr = PFts fts_create\<rparr>"

definition createCollectionObject :: "'d::linorder store \<Rightarrow> otype \<Rightarrow> addr option \<times> 'd store" where
  "createCollectionObject st ty =
     (case ty of
        OBJ_HASH \<Rightarrow> (case createHashObject st of (a, st') \<Rightarrow> (Some a, st'))
      | OBJ_HEAPQ \<Rightarrow> (case createHeapqObject st of (a, st') \<Rightarrow> (Some a, st'))
      | OBJ_FTS \<Rightarrow> (case createFTSObject st of (a, st') \<Rightarrow> (Some a, st'))
      | OBJ_STRING \<Rightarrow> (None, st))"

section \<open>Releasing objects\<close>

text \<open>
  The references an aggregate gives up when it is freed, in order: what its free
  callbacks pass to \<^verbatim>\<open>decrRefCount\<close>. \<^verbatim>\<open>minheap_free\<close> hands \<^verbatim>\<open>rr_obj_free_callback\<close> pointers to
  the items themselves, which are not objects, so a heap with items faults.
\<close>

definition freeHashObject :: "'d robj \<Rightarrow> addr list result" where
  "freeHashObject r =
     (if encoding r = OBJ_ENCODING_HT
      then rbind (ptr_dict r) (\<lambda>d. Inr (map snd (dict_free (Some d))))
      else Inr [])"

definition freeHeapqObject :: "'d robj \<Rightarrow> addr list result" where
  "freeHeapqObject r =
     rbind (ptr_heap r) (\<lambda>h. rbind (minheap_free h) (\<lambda>calls.
       if calls = [] then Inr [] else Inl BadPointer))"

definition doc_refs :: "fts_t \<Rightarrow> nat \<Rightarrow> addr list result" where
  "doc_refs f p = (case dheap f p of None \<Rightarrow> Inl UseAfterFree | Some d \<Rightarrow> Inr [title d, doc d])"

fun concat_results :: "'a list result list \<Rightarrow> 'a list result" where
  "concat_results [] = Inr []"
| "concat_results (m # ms) = rbind m (\<lambda>xs. rbind (concat_results ms) (\<lambda>ys. Inr (xs @ ys)))"

definition freeFTSObject :: "'d robj \<Rightarrow> addr list result" where
  "freeFTSObject r =
     rbind (ptr_fts r) (\<lambda>f. concat_results (map (doc_refs f \<circ> snd) (dict_free (Some (docs f)))))"

definition free_contents :: "'d robj \<Rightarrow> addr list result" where
  "free_contents r =
     (case otype r of
        OBJ_STRING \<Rightarrow> Inr []
      | OBJ_HASH \<Rightarrow> freeHashObject r
      | OBJ_HEAPQ \<Rightarrow> freeHeapqObject r
      | OBJ_FTS \<Rightarrow> freeFTSObject r)"

text \<open>
  \<^verbatim>\<open>decrRefCount\<close>; the fuel bounds the depth of the recursion through aggregates, and
  running out of it is the overflow of the stack.
\<close>

fun decr_all :: "('d store \<Rightarrow> addr \<Rightarrow> 'd store result) \<Rightarrow> 'd store \<Rightarrow> addr list \<Rightarrow> 'd store result" where
  "decr_all f st [] = Inr st"
| "decr_all f st (a # as) = rbind (f st a) (\<lambda>st'. decr_all f st' as)"

fun decrRefCount_fuel :: "nat \<Rightarrow> 'd store \<Rightarrow> addr \<Rightarrow> 'd store result" where
  "decrRefCount_fuel 0 st a = Inl StackOverflow"
| "decrRefCount_fuel (Suc n) st a =
     rbind (get_obj st a) (\<lambda>r.
       if refcount r = 1
       then rbind (free_contents r) (\<lambda>rs.
            rbind (decr_all (decrRefCount_fuel n) st rs) (\<lambda>st'. Inr (free_mem st' a)))
       else Inr (if refcount r \<noteq> OBJ_SHARED_REFCOUNT then set_obj st a (r\<lparr>refcount := refcount r - 1\<rparr>) else st))"

text \<open>Aggregates hold strings only, so the recursion is at most two deep.\<close>

definition decrRefCount :: "'d store \<Rightarrow> addr \<Rightarrow> 'd store result" where
  "decrRefCount = decrRefCount_fuel 2"

definition rr_obj_free_callback :: "'d store \<Rightarrow> addr option \<Rightarrow> 'd store result" where
  "rr_obj_free_callback st p = (case p of None \<Rightarrow> Inl NullDeref | Some a \<Rightarrow> decrRefCount st a)"

definition resetRefCount :: "'d store \<Rightarrow> addr \<Rightarrow> 'd store result" where
  "resetRefCount st a = rbind (get_obj st a) (\<lambda>r. Inr (set_obj st a (r\<lparr>refcount := 0\<rparr>)))"

section \<open>Reading objects as numbers\<close>

definition isSdsRepresentableAsLongLong :: "string \<Rightarrow> int option" where
  "isSdsRepresentableAsLongLong s = string2ll s"

definition isObjectRepresentableAsLongLong :: "'d robj \<Rightarrow> int option result" where
  "isObjectRepresentableAsLongLong r =
     (if otype r \<noteq> OBJ_STRING then Inl AssertFail
      else if encoding r = OBJ_ENCODING_INT then rbind (ptr_long r) (\<lambda>n. Inr (Some n))
      else rbind (ptr_sds r) (\<lambda>s. Inr (isSdsRepresentableAsLongLong s)))"

text \<open>\<^verbatim>\<open>getLongLongFromObject\<close>: \<open>None\<close> for \<^verbatim>\<open>RR_ERROR\<close>; a \<^verbatim>\<open>NULL\<close> object is 0.\<close>

definition getLongLongFromObject :: "'d robj option \<Rightarrow> int option result" where
  "getLongLongFromObject p =
     (case p of
        None \<Rightarrow> Inr (Some 0)
      | Some r \<Rightarrow>
          if otype r \<noteq> OBJ_STRING then Inl AssertFail
          else if sdsEncodedObject r then
            rbind (ptr_cstr r) (\<lambda>s.
              case strtoll s of (v, eptr) \<Rightarrow>
                Inr (if isspace (cget s 0) \<or> eptr \<noteq> [] \<or> strtoll_erange s then None else Some v))
          else if encoding r = OBJ_ENCODING_INT then rbind (ptr_long r) (\<lambda>n. Inr (Some n))
          else Inr None)"

text \<open>
  \<^verbatim>\<open>strtod\<close> as a parameter: what it leaves unread, and the value, \<open>None\<close> when the code
  rejects it (out of range, \<^verbatim>\<open>EINVAL\<close> or NaN). \<open>of_long\<close> is the conversion from \<^verbatim>\<open>long\<close>.
\<close>

record 'd floats =
  strtod :: "string \<Rightarrow> 'd option \<times> string"
  of_long :: "int \<Rightarrow> 'd"

definition getDoubleFromObject :: "'d floats \<Rightarrow> 'd robj option \<Rightarrow> 'd option result" where
  "getDoubleFromObject fl p =
     (case p of
        None \<Rightarrow> Inr (Some (of_long fl 0))
      | Some r \<Rightarrow>
          if otype r \<noteq> OBJ_STRING then Inl AssertFail
          else if sdsEncodedObject r then
            rbind (ptr_cstr r) (\<lambda>s.
              case strtod fl s of (v, eptr) \<Rightarrow>
                Inr (if isspace (cget s 0) \<or> eptr \<noteq> [] then None else v))
          else if encoding r = OBJ_ENCODING_INT then rbind (ptr_long r) (\<lambda>n. Inr (Some (of_long fl n)))
          else Inr None)"

section \<open>Encodings\<close>

definition tryObjectEncoding :: "nat \<Rightarrow> 'd store \<Rightarrow> addr \<Rightarrow> (addr \<times> 'd store) result" where
  "tryObjectEncoding max_memory st a =
     rbind (get_obj st a) (\<lambda>r.
       if otype r \<noteq> OBJ_STRING then Inl AssertFail
       else if \<not> sdsEncodedObject r then Inr (a, st)
       else if refcount r > 1 then Inr (a, st)
       else
         rbind (ptr_sds r) (\<lambda>s.
           case (if length s \<le> 21 then string2l s else None) of
             Some v \<Rightarrow>
               if max_memory = 0 \<and> v \<ge> 0 \<and> v < int OBJ_SHARED_INTEGERS
               then rbind (decrRefCount st a) (\<lambda>st1.
                    rbind (incrRefCount st1 (shared_integer v)) (\<lambda>st2. Inr (shared_integer v, st2)))
               else Inr (a, set_obj st a (r\<lparr>encoding := OBJ_ENCODING_INT, ptr := PInt v\<rparr>))
           | None \<Rightarrow>
               if length s \<le> OBJ_ENCODING_EMBSTR_SIZE_LIMIT
               then (if encoding r = OBJ_ENCODING_EMBSTR then Inr (a, st)
                     else (case createEmbeddedStringObject st s of
                             (emb, st1) \<Rightarrow> rbind (decrRefCount st1 a) (\<lambda>st2. Inr (emb, st2))))
               else Inr (a, st)))"

definition getDecodedObject :: "'d store \<Rightarrow> addr \<Rightarrow> (addr option \<times> 'd store) result" where
  "getDecodedObject st a =
     rbind (get_obj st a) (\<lambda>r.
       if sdsEncodedObject r then rbind (incrRefCount st a) (\<lambda>st'. Inr (Some a, st'))
       else if otype r = OBJ_STRING \<and> encoding r = OBJ_ENCODING_INT
       then rbind (ptr_long r) (\<lambda>n.
              Inr (case createStringObject st (print_ll 32 n) of (b, st') \<Rightarrow> (Some b, st')))
       else Inr (None, st))"

text \<open>
  The bytes and length \<^verbatim>\<open>compareStringObjectsWithFlags\<close> compares, and the comparison with
  \<^verbatim>\<open>REDIS_COMPARE_BINARY\<close>; the other flag asks the C library's \<^verbatim>\<open>strcoll\<close>.
\<close>

definition cmp_bytes :: "'d robj \<Rightarrow> string result" where
  "cmp_bytes r =
     (if sdsEncodedObject r then ptr_sds r
      else rbind (ptr_long r) (\<lambda>n. Inr (print_ll 128 n)))"

definition compareStringObjects :: "'d store \<Rightarrow> addr \<Rightarrow> addr \<Rightarrow> int result" where
  "compareStringObjects st a b =
     rbind (get_obj st a) (\<lambda>ra. rbind (get_obj st b) (\<lambda>rb.
       if otype ra \<noteq> OBJ_STRING \<or> otype rb \<noteq> OBJ_STRING then Inl AssertFail
       else if a = b then Inr 0
       else
         rbind (cmp_bytes ra) (\<lambda>astr. rbind (cmp_bytes rb) (\<lambda>bstr.
           let minlen = (if length astr < length bstr then length astr else length bstr);
               cmp = memcmp (take minlen astr) (take minlen bstr)
           in Inr (if cmp = 0 then signed_take_bit 31 (int (length astr) - int (length bstr)) else cmp)))))"

definition equalStringObjects :: "'d store \<Rightarrow> addr \<Rightarrow> addr \<Rightarrow> bool result" where
  "equalStringObjects st a b =
     rbind (get_obj st a) (\<lambda>ra. rbind (get_obj st b) (\<lambda>rb.
       if encoding ra = OBJ_ENCODING_INT \<and> encoding rb = OBJ_ENCODING_INT
       then rbind (ptr_long ra) (\<lambda>n. rbind (ptr_long rb) (\<lambda>m. Inr (n = m)))
       else rbind (compareStringObjects st a b) (\<lambda>c. Inr (c = 0))))"

definition stringObjectLen :: "'d robj \<Rightarrow> nat result" where
  "stringObjectLen r =
     (if otype r \<noteq> OBJ_STRING then Inl AssertFail
      else if sdsEncodedObject r then rbind (ptr_sds r) (\<lambda>s. Inr (length s))
      else rbind (ptr_long r) (\<lambda>n. Inr (sdigits10 n)))"

fun strEncoding :: "oencoding \<Rightarrow> string" where
  "strEncoding OBJ_ENCODING_RAW = ''raw''"
| "strEncoding OBJ_ENCODING_INT = ''int''"
| "strEncoding OBJ_ENCODING_HT = ''hashtable''"
| "strEncoding OBJ_ENCODING_EMBSTR = ''embstr''"
| "strEncoding OBJ_ENCODING_HEAPQ = ''heapq''"
| "strEncoding OBJ_ENCODING_FTS = ''fts''"

section \<open>The shared objects\<close>

text \<open>
  \<^verbatim>\<open>createSharedObjects\<close>: the shared integers are the objects at the addresses below
  \<open>OBJ_SHARED_INTEGERS\<close>; the canned replies are only ever sent, so they are the
  objects themselves.
\<close>

definition initial_store :: "'d store" where
  "initial_store =
     \<lparr>objs = (\<lambda>a. if a < OBJ_SHARED_INTEGERS
                  then Some \<lparr>otype = OBJ_STRING, encoding = OBJ_ENCODING_INT,
                             refcount = OBJ_SHARED_REFCOUNT, ptr = PInt (int a)\<rparr>
                  else None),
      next_addr = OBJ_SHARED_INTEGERS\<rparr>"

definition shared_string :: "string \<Rightarrow> 'd robj" where
  "shared_string s = \<lparr>otype = OBJ_STRING, encoding = OBJ_ENCODING_RAW, refcount = 1, ptr = PStr s\<rparr>"

definition CRLF :: string where "CRLF = [CR, LF]"

definition shared_crlf :: "'d robj" where "shared_crlf = shared_string CRLF"
definition shared_ok :: "'d robj" where "shared_ok = shared_string (''+OK'' @ CRLF)"
definition shared_err :: "'d robj" where "shared_err = shared_string (''-ERR'' @ CRLF)"
definition shared_czero :: "'d robj" where "shared_czero = shared_string ('':0'' @ CRLF)"
definition shared_cone :: "'d robj" where "shared_cone = shared_string ('':1'' @ CRLF)"
definition shared_nullbulk :: "'d robj" where "shared_nullbulk = shared_string (''$-1'' @ CRLF)"
definition shared_pong :: "'d robj" where "shared_pong = shared_string (''+PONG'' @ CRLF)"
definition shared_wrongtypeerr :: "'d robj" where
  "shared_wrongtypeerr =
     shared_string (''-WRONGTYPE Operation against a key holding the wrong kind of value'' @ CRLF)"
definition shared_mbulkhdr :: "nat \<Rightarrow> 'd robj" where
  "shared_mbulkhdr j = shared_string (CHR ''*'' # dec (int j) @ CRLF)"
definition shared_bulkhdr :: "nat \<Rightarrow> 'd robj" where
  "shared_bulkhdr j = shared_string (CHR ''$'' # dec (int j) @ CRLF)"
definition OBJ_SHARED_BULKHDR_LEN :: nat where "OBJ_SHARED_BULKHDR_LEN = 32"

section \<open>What a string object says\<close>

text \<open>The byte string an object denotes, whatever its encoding.\<close>

definition obj_str :: "'d robj \<Rightarrow> string" where
  "obj_str r = (case ptr r of PStr s \<Rightarrow> s | PInt n \<Rightarrow> dec n | _ \<Rightarrow> [])"

text \<open>A string object whose encoding and pointer agree.\<close>

definition string_ok :: "'d robj \<Rightarrow> bool" where
  "string_ok r \<longleftrightarrow> otype r = OBJ_STRING \<and>
     (case ptr r of
        PStr s \<Rightarrow> encoding r = OBJ_ENCODING_RAW \<or> encoding r = OBJ_ENCODING_EMBSTR
      | PInt n \<Rightarrow> encoding r = OBJ_ENCODING_INT \<and> LLONG_MIN \<le> n \<and> n \<le> LLONG_MAX
      | _ \<Rightarrow> False)"

lemma string_okE:
  assumes "string_ok r"
  obtains s where "ptr r = PStr s" and "sdsEncodedObject r" and "otype r = OBJ_STRING" and "obj_str r = s"
  | n where "ptr r = PInt n" and "\<not> sdsEncodedObject r" and "encoding r = OBJ_ENCODING_INT"
      and "otype r = OBJ_STRING" and "obj_str r = dec n" and "LLONG_MIN \<le> n" and "n \<le> LLONG_MAX"
  using assms
  by (cases "ptr r") (auto simp: string_ok_def sdsEncodedObject_def obj_str_def)

lemma stringObjectLen_ok: "string_ok r \<Longrightarrow> stringObjectLen r = Inr (length (obj_str r))"
proof (erule string_okE)
  fix n assume *: "ptr r = PInt n" "\<not> sdsEncodedObject r" "otype r = OBJ_STRING" "obj_str r = dec n"
    "LLONG_MIN \<le> n" "n \<le> LLONG_MAX"
  have "sdigits10 n = length (dec n)"
    using *(5,6) by (auto simp: sdigits10_def digits10_length dec_def Let_def LLONG_MIN_def LLONG_MAX_def)
  with * show ?thesis by (simp add: stringObjectLen_def ptr_long_def)
qed (simp add: stringObjectLen_def ptr_sds_def)

lemma cmp_bytes_ok: "string_ok r \<Longrightarrow> cmp_bytes r = Inr (obj_str r)"
  by (erule string_okE) (simp_all add: cmp_bytes_def ptr_sds_def ptr_long_def print_ll_dec)

definition live :: "'d store \<Rightarrow> addr \<Rightarrow> bool" where
  "live st a \<longleftrightarrow> objs st a \<noteq> None"

definition str_at :: "'d store \<Rightarrow> addr \<Rightarrow> string \<Rightarrow> bool" where
  "str_at st a s \<longleftrightarrow> (\<exists>r. objs st a = Some r \<and> string_ok r \<and> obj_str r = s)"

lemma compareStringObjects_ok:
  assumes "str_at st a s" and "str_at st b t" and "length s < 2 ^ 31" and "length t < 2 ^ 31"
  shows "\<exists>c. compareStringObjects st a b = Inr c \<and> (c = 0 \<longleftrightarrow> s = t)"
proof -
  obtain ra rb where r: "objs st a = Some ra" "string_ok ra" "obj_str ra = s"
    "objs st b = Some rb" "string_ok rb" "obj_str rb = t"
    using assms(1,2) by (auto simp: str_at_def)
  have ty: "otype ra = OBJ_STRING" "otype rb = OBJ_STRING"
    using r by (auto simp: string_ok_def)
  show ?thesis
  proof (cases "a = b")
    case True
    then show ?thesis
      using r ty by (auto simp: compareStringObjects_def get_obj_def)
  next
    case False
    let ?m = "min (length s) (length t)"
    have m: "(if length s < length t then length s else length t) = ?m" by simp
    let ?c = "memcmp (take ?m s) (take ?m t)" and ?d = "int (length s) - int (length t)"
    have "signed_take_bit 31 ?d = ?d"
      using assms(3,4) by (intro signed_take_bit_int_eq_self) auto
    then have eq: "compareStringObjects st a b = Inr (if ?c = 0 then ?d else ?c)"
      using False ty r by (simp add: compareStringObjects_def get_obj_def cmp_bytes_ok Let_def m)
    have "?c = 0 \<longleftrightarrow> take ?m s = take ?m t" by (intro memcmp_eq) simp
    moreover have "s = t \<longleftrightarrow> take ?m s = take ?m t \<and> length s = length t" by auto
    ultimately show ?thesis using eq by auto
  qed
qed

lemma equalStringObjects_ok:
  assumes "str_at st a s" and "str_at st b t" and "length s < 2 ^ 31" and "length t < 2 ^ 31"
  shows "equalStringObjects st a b = Inr (s = t)"
proof -
  obtain ra rb where r: "objs st a = Some ra" "string_ok ra" "obj_str ra = s"
    "objs st b = Some rb" "string_ok rb" "obj_str rb = t"
    using assms(1,2) by (auto simp: str_at_def)
  show ?thesis
  proof (cases "encoding ra = OBJ_ENCODING_INT \<and> encoding rb = OBJ_ENCODING_INT")
    case True
    then obtain n m where nm: "ptr ra = PInt n" "ptr rb = PInt m" "s = dec n" "t = dec m"
      "LLONG_MIN \<le> n" "n \<le> LLONG_MAX" "LLONG_MIN \<le> m" "m \<le> LLONG_MAX"
      using r by (auto elim!: string_okE simp: sdsEncodedObject_def)
    then have "s = t \<longleftrightarrow> n = m" by (metis string2ll_dec option.inject)
    with True r nm show ?thesis
      by (simp add: equalStringObjects_def get_obj_def ptr_long_def)
  next
    case False
    then show ?thesis
      using compareStringObjects_ok [OF assms] r by (auto simp: equalStringObjects_def get_obj_def)
  qed
qed

section \<open>Counting references\<close>

text \<open>The references the contents of an object hold.\<close>

definition obj_refs :: "'d robj \<Rightarrow> addr multiset" where
  "obj_refs r =
     (case ptr r of
        PDict d \<Rightarrow> mset (map snd (dict_entries d))
      | PHeap h \<Rightarrow> image_mset obj (heap_bag h)
      | PFts f \<Rightarrow> mset (concat (map (\<lambda>kv. case dheap f (snd kv) of None \<Rightarrow> [] | Some d \<Rightarrow> [title d, doc d])
                            (dict_entries (docs f))))
      | _ \<Rightarrow> {#})"

definition live_set :: "'d store \<Rightarrow> addr set" where
  "live_set st = {a. objs st a \<noteq> None}"

definition inner_refs :: "'d store \<Rightarrow> addr multiset" where
  "inner_refs st = (\<Sum>a\<in>live_set st. obj_refs (the (objs st a)))"

text \<open>
  \<open>counted st R\<close>: \<open>R\<close> are the references from outside the store (the database, the
  arguments of commands, the locals of the running code). Every reference is to a
  live object, every object that is not shared has at least one and its count is
  their number. So nothing is freed while it is referenced and nothing unreferenced
  stays.
\<close>

definition rc_ok :: "'d robj \<Rightarrow> nat \<Rightarrow> bool" where
  "rc_ok r n \<longleftrightarrow>
     refcount r = OBJ_SHARED_REFCOUNT \<and> string_ok r \<or>
     refcount r = int n \<and> 0 < refcount r \<and> refcount r < OBJ_SHARED_REFCOUNT"

definition counted :: "'d store \<Rightarrow> addr multiset \<Rightarrow> bool" where
  "counted st R \<longleftrightarrow>
     finite (live_set st) \<and> (\<forall>a\<in>live_set st. a < next_addr st) \<and>
     set_mset (R + inner_refs st) \<subseteq> live_set st \<and>
     (\<forall>a r. objs st a = Some r \<longrightarrow> rc_ok r (count (R + inner_refs st) a))"

text \<open>Aggregates hold string objects, and their dictionaries and heaps are well formed.\<close>

definition obj_wf :: "'d::linorder robj \<Rightarrow> bool" where
  "obj_wf r \<longleftrightarrow>
     (case otype r of
        OBJ_STRING \<Rightarrow> string_ok r
      | OBJ_HASH \<Rightarrow> encoding r = OBJ_ENCODING_HT \<and>
          (case ptr r of PDict d \<Rightarrow> dict_wf d \<and> free_cb d = Some FreeObj | _ \<Rightarrow> False)
      | OBJ_HEAPQ \<Rightarrow> encoding r = OBJ_ENCODING_HEAPQ \<and>
          (case ptr r of PHeap h \<Rightarrow> heap_wf hq_cmp h \<and> hfree_cb h = Some FreeObj | _ \<Rightarrow> False)
      | OBJ_FTS \<Rightarrow> encoding r = OBJ_ENCODING_FTS \<and> 
          (case ptr r of
             PFts f \<Rightarrow> dict_wf (docs f) \<and> free_cb (docs f) = Some FreeDoc \<and>
               (\<forall>kv\<in>set (dict_entries (docs f)). dheap f (snd kv) \<noteq> None)
           | _ \<Rightarrow> False))"

definition store_wf :: "'d::linorder store \<Rightarrow> bool" where
  "store_wf st \<longleftrightarrow> (\<forall>a r. objs st a = Some r \<longrightarrow> obj_wf r) \<and>
     (\<forall>a\<in>#inner_refs st. \<exists>r. objs st a = Some r \<and> string_ok r)"

lemma inner_refs_set:
  assumes "finite (live_set st)" and "objs st a = Some r"
  shows "inner_refs (set_obj st a r') + obj_refs r = inner_refs st + obj_refs r'"
proof -
  have a: "a \<in> live_set st" using assms(2) by (simp add: live_set_def)
  have live: "live_set (set_obj st a r') = live_set st"
    using a by (auto simp: live_set_def set_obj_def)
  have here: "objs (set_obj st a r') a = Some r'" by (simp add: set_obj_def)
  have "inner_refs st = obj_refs r + (\<Sum>b\<in>live_set st - {a}. obj_refs (the (objs st b)))"
    using sum.remove [OF assms(1) a, of "\<lambda>b. obj_refs (the (objs st b))"] assms(2)
    by (simp add: inner_refs_def)
  moreover have "inner_refs (set_obj st a r') = obj_refs r' + (\<Sum>b\<in>live_set st - {a}. obj_refs (the (objs st b)))"
  proof -
    have "(\<Sum>b\<in>live_set st - {a}. obj_refs (the (objs (set_obj st a r') b))) =
        (\<Sum>b\<in>live_set st - {a}. obj_refs (the (objs st b)))"
      by (intro sum.cong) (auto simp: set_obj_def)
    then show ?thesis
      using sum.remove [OF assms(1) a, of "\<lambda>b. obj_refs (the (objs (set_obj st a r') b))"]
      by (simp add: inner_refs_def live here)
  qed
  ultimately show ?thesis by simp
qed

lemma inner_refs_free:
  assumes "finite (live_set st)" and "objs st a = Some r"
  shows "inner_refs st = inner_refs (free_mem st a) + obj_refs r"
proof -
  have a: "a \<in> live_set st" using assms(2) by (simp add: live_set_def)
  have live: "live_set (free_mem st a) = live_set st - {a}"
    by (auto simp: live_set_def free_mem_def)
  have "(\<Sum>b\<in>live_set st - {a}. obj_refs (the (objs (free_mem st a) b))) =
      (\<Sum>b\<in>live_set st - {a}. obj_refs (the (objs st b)))"
    by (intro sum.cong) (auto simp: free_mem_def)
  then show ?thesis
    using sum.remove [OF assms(1) a, of "\<lambda>b. obj_refs (the (objs st b))"] assms(2)
    by (simp add: inner_refs_def live)
qed

lemma inner_refs_alloc:
  assumes "finite (live_set st)" and "objs st (next_addr st) = None" and "alloc st r = (a, st')"
  shows "inner_refs st' = inner_refs st + obj_refs r"
proof -
  have a: "a = next_addr st" "a \<notin> live_set st" using assms(2,3) by (auto simp: alloc_def live_set_def)
  have live: "live_set st' = insert a (live_set st)" "objs st' = (objs st)(a \<mapsto> r)"
    using assms(3) by (auto simp: alloc_def live_set_def)
  have "(\<Sum>b\<in>live_set st. obj_refs (the (objs st' b))) = (\<Sum>b\<in>live_set st. obj_refs (the (objs st b)))"
    using a(2) by (intro sum.cong) (auto simp: live)
  then show ?thesis using a(2) assms(1) by (simp add: inner_refs_def live)
qed

text \<open>
  What the operations on counts leave alone: the contents of every object they keep,
  and the shared objects.
\<close>

definition keeps :: "'d store \<Rightarrow> 'd store \<Rightarrow> bool" where
  "keeps st st' \<longleftrightarrow> next_addr st' = next_addr st \<and>
     (\<forall>a r'. objs st' a = Some r' \<longrightarrow> (\<exists>r. objs st a = Some r \<and> r' = r\<lparr>refcount := refcount r'\<rparr>)) \<and>
     (\<forall>a r. objs st a = Some r \<longrightarrow> refcount r = OBJ_SHARED_REFCOUNT \<longrightarrow> objs st' a = Some r)"

lemma keeps_refl [simp]: "keeps st st"
  by (simp add: keeps_def)

lemma keeps_trans:
  assumes "keeps a b" and "keeps b c"
  shows "keeps a c"
  unfolding keeps_def
proof (intro conjI allI impI)
  fix x r assume "objs c x = Some r"
  then obtain r1 where r1: "objs b x = Some r1" "r = r1\<lparr>refcount := refcount r\<rparr>"
    using assms(2) unfolding keeps_def by blast
  then obtain r2 where r2: "objs a x = Some r2" "r1 = r2\<lparr>refcount := refcount r1\<rparr>"
    using assms(1) unfolding keeps_def by blast
  have "r = r2\<lparr>refcount := refcount r\<rparr>"
    by (subst r1(2), subst r2(2)) simp
  with r2(1) show "\<exists>r'. objs a x = Some r' \<and> r = r'\<lparr>refcount := refcount r\<rparr>" by blast
qed (use assms in \<open>auto simp: keeps_def\<close>)

lemma keeps_free: "objs st a = Some r \<Longrightarrow> refcount r = 1 \<Longrightarrow> keeps st (free_mem st a)"
  by (auto simp: keeps_def free_mem_def OBJ_SHARED_REFCOUNT_def)

lemma keeps_set:
  "objs st a = Some r \<Longrightarrow> refcount r \<noteq> OBJ_SHARED_REFCOUNT \<Longrightarrow> keeps st (set_obj st a (r\<lparr>refcount := n\<rparr>))"
  by (auto simp: keeps_def set_obj_def)

lemma obj_refs_refcount [simp]: "obj_refs (r\<lparr>refcount := n\<rparr>) = obj_refs r"
  by (simp add: obj_refs_def)

lemma string_ok_refcount [simp]: "string_ok (r\<lparr>refcount := n\<rparr>) = string_ok r"
  by (cases r) (simp add: string_ok_def split: optr.splits)

lemma obj_str_refcount [simp]: "obj_str (r\<lparr>refcount := n\<rparr>) = obj_str r"
  by (simp add: obj_str_def)

lemma obj_wf_refcount [simp]: "obj_wf (r\<lparr>refcount := n\<rparr>) = obj_wf r"
  by (cases r) (simp add: obj_wf_def string_ok_def split: optr.splits otype.splits)

lemma string_ok_obj_wf [simp]: "string_ok r \<Longrightarrow> obj_wf r"
  by (simp add: obj_wf_def string_ok_def)

lemma string_ok_refs [simp]: "string_ok r \<Longrightarrow> obj_refs r = {#}"
  by (auto simp: string_ok_def obj_refs_def split: optr.splits)

lemma keepsD:
  assumes "keeps st st'" and "objs st' a = Some r'"
  obtains r where "objs st a = Some r" and "string_ok r' = string_ok r" and "obj_str r' = obj_str r"
    and "obj_refs r' = obj_refs r" and "otype r' = otype r" and "ptr r' = ptr r" and "encoding r' = encoding r"
proof -
  obtain r where r: "objs st a = Some r" and eq: "r' = r\<lparr>refcount := refcount r'\<rparr>"
    using assms unfolding keeps_def by blast
  show ?thesis
    by (rule that [OF r]; subst eq; simp)
qed

lemma keeps_str_at: "keeps st st' \<Longrightarrow> live st' a \<Longrightarrow> str_at st a s \<Longrightarrow> str_at st' a s"
  by (auto simp: live_def str_at_def elim!: keepsD)

section \<open>Giving up and taking references\<close>

text \<open>What giving up one reference to a string object does.\<close>

definition decr_str :: "'d store \<Rightarrow> addr \<Rightarrow> 'd store" where
  "decr_str st b =
     (case objs st b of
        None \<Rightarrow> st
      | Some r \<Rightarrow>
          if refcount r = 1 then free_mem st b
          else if refcount r \<noteq> OBJ_SHARED_REFCOUNT then set_obj st b (r\<lparr>refcount := refcount r - 1\<rparr>)
          else st)"

lemma decrRefCount_str:
  assumes "objs st b = Some r" and "string_ok r"
  shows "decrRefCount_fuel (Suc n) st b = Inr (decr_str st b)"
  using assms by (simp add: get_obj_def decr_str_def free_contents_def string_ok_def)

lemma live_set_simps:
  "live_set (free_mem st a) = live_set st - {a}"
  "objs st a = Some r \<Longrightarrow> live_set (set_obj st a r') = live_set st"
  "objs (free_mem st a) = (objs st)(a := None)"
  "objs (set_obj st a r') = (objs st)(a \<mapsto> r')"
  "next_addr (free_mem st a) = next_addr st"
  "next_addr (set_obj st a r') = next_addr st"
  by (auto simp: live_set_def free_mem_def set_obj_def)

lemma countedI:
  assumes "finite (live_set st)" and "\<And>a r. objs st a = Some r \<Longrightarrow> a < next_addr st"
    and "\<And>a. a \<in># R \<Longrightarrow> objs st a \<noteq> None" and "\<And>a. a \<in># inner_refs st \<Longrightarrow> objs st a \<noteq> None"
    and "\<And>a r. objs st a = Some r \<Longrightarrow> rc_ok r (count R a + count (inner_refs st) a)"
  shows "counted st R"
  using assms by (auto simp: counted_def live_set_def)

lemma countedD:
  assumes "counted st R"
  shows "finite (live_set st)"
    and "objs st a = Some r \<Longrightarrow> a < next_addr st"
    and "a \<in># R \<Longrightarrow> objs st a \<noteq> None"
    and "a \<in># inner_refs st \<Longrightarrow> objs st a \<noteq> None"
    and "objs st a = Some r \<Longrightarrow> rc_ok r (count R a + count (inner_refs st) a)"
  using assms by (auto simp: counted_def live_set_def)

lemma live_set_less: "counted st R \<Longrightarrow> objs st (next_addr st) = None"
  using countedD(2) by (metis not_None_eq less_irrefl)

lemma inner_refs_refcount:
  assumes "finite (live_set st)" and "objs st a = Some r"
  shows "inner_refs (set_obj st a (r\<lparr>refcount := n\<rparr>)) = inner_refs st"
  using inner_refs_set [OF assms, of "r\<lparr>refcount := n\<rparr>"] by simp

text \<open>An object whose count is 1 has no other reference.\<close>

lemma counted_last:
  assumes "counted st (add_mset a R)" and "objs st a = Some r" and "refcount r = 1"
  shows "a \<notin># R" and "a \<notin># inner_refs st"
  using countedD(5) [OF assms(1,2)] assms(3)
  by (auto simp: rc_ok_def OBJ_SHARED_REFCOUNT_def not_in_iff)

lemma counted_free:
  assumes c: "counted st (add_mset a R)" and r: "objs st a = Some r" and one: "refcount r = 1"
  shows "counted (free_mem st a) (R + obj_refs r)"
proof -
  note last = counted_last [OF assms]
  have in_: "inner_refs st = inner_refs (free_mem st a) + obj_refs r"
    by (rule inner_refs_free [OF countedD(1) [OF c] r])
  show ?thesis
  proof (rule countedI)
    fix b assume "b \<in># R + obj_refs r"
    with last have "b \<noteq> a" "b \<in># R \<or> b \<in># inner_refs st" by (auto simp: in_)
    then show "objs (free_mem st a) b \<noteq> None"
      using countedD(3,4) [OF c, of b] by (auto simp: live_set_simps)
  next
    fix b assume "b \<in># inner_refs (free_mem st a)"
    with last have "b \<noteq> a" "b \<in># inner_refs st" by (auto simp: in_)
    then show "objs (free_mem st a) b \<noteq> None"
      using countedD(4) [OF c, of b] by (auto simp: live_set_simps)
  next
    fix b rb assume "objs (free_mem st a) b = Some rb"
    then show "rc_ok rb (count (R + obj_refs r) b + count (inner_refs (free_mem st a)) b)"
      using countedD(5) [OF c, of b rb] by (auto simp: live_set_simps in_ ac_simps split: if_splits)
  qed (use countedD(1,2) [OF c] in \<open>auto simp: live_set_simps split: if_splits\<close>)
qed

lemma counted_dec:
  assumes c: "counted st (add_mset a R)" and r: "objs st a = Some r" and no: "refcount r \<noteq> 1"
    and ns: "refcount r \<noteq> OBJ_SHARED_REFCOUNT"
  shows "counted (set_obj st a (r\<lparr>refcount := refcount r - 1\<rparr>)) R" (is "counted ?st R")
proof (rule countedI)
  note in_ = inner_refs_refcount [OF countedD(1) [OF c] r]
  show "objs ?st b \<noteq> None" if "b \<in># R" for b
    using countedD(3) [OF c, of b] that by (auto simp: live_set_simps)
  show "objs ?st b \<noteq> None" if "b \<in># inner_refs ?st" for b
    using countedD(4) [OF c, of b] that by (auto simp: live_set_simps in_)
  fix b rb assume b: "objs ?st b = Some rb"
  show "rc_ok rb (count R b + count (inner_refs ?st) b)"
  proof (cases "b = a")
    case True
    with b countedD(5) [OF c r] no ns show ?thesis by (auto simp: live_set_simps in_ rc_ok_def)
  next
    case False
    with b countedD(5) [OF c, of b rb] show ?thesis by (simp add: live_set_simps in_)
  qed
next
  show "b < next_addr ?st" if "objs ?st b = Some rb" for b rb
    using countedD(2) [OF c r] countedD(2) [OF c, of b] that by (auto simp: live_set_simps split: if_splits)
qed (use countedD(1) [OF c] r in \<open>simp add: live_set_simps\<close>)

lemma counted_shared:
  assumes c: "counted st (add_mset a R)" and r: "objs st a = Some r" and s: "refcount r = OBJ_SHARED_REFCOUNT"
  shows "counted st R"
proof (rule countedI)
  fix b rb assume b: "objs st b = Some rb"
  show "rc_ok rb (count R b + count (inner_refs st) b)"
    using countedD(5) [OF c b] b r s by (cases "b = a") (auto simp: rc_ok_def)
qed (use countedD [OF c] in auto)

lemma decr_str_counted:
  assumes c: "counted st (add_mset a R)" and r: "objs st a = Some r" and s: "string_ok r"
  shows "counted (decr_str st a) R"
  using counted_free [OF c r] counted_dec [OF c r] counted_shared [OF c r] r s
  by (simp add: decr_str_def)

lemma decr_str_keeps: "keeps st (decr_str st a)"
  by (simp add: decr_str_def keeps_free keeps_set split: option.split)

lemma decr_str_inner:
  assumes "finite (live_set st)" and r: "objs st a = Some r" and s: "string_ok r"
  shows "inner_refs (decr_str st a) = inner_refs st"
  using inner_refs_free [OF assms(1,2)] inner_refs_refcount [OF assms(1,2)] r s
  by (simp add: decr_str_def)

lemma store_wf_keeps:
  assumes "store_wf st" and "keeps st st'" and "inner_refs st' \<subseteq># inner_refs st" and "counted st' R"
  shows "store_wf st'"
  unfolding store_wf_def
proof (intro conjI allI impI ballI)
  fix a r' assume "objs st' a = Some r'"
  then obtain r where "objs st a = Some r" "r' = r\<lparr>refcount := refcount r'\<rparr>"
    using assms(2) unfolding keeps_def by blast
  then show "obj_wf r'"
    using assms(1) by (metis obj_wf_refcount store_wf_def)
next
  fix a assume a: "a \<in># inner_refs st'"
  then obtain r' where r': "objs st' a = Some r'" using countedD(4) [OF assms(4)] by auto
  from a assms(3) have "a \<in># inner_refs st" by (meson mset_subset_eqD)
  then obtain r where "objs st a = Some r" "string_ok r" using assms(1) by (auto simp: store_wf_def)
  with r' show "\<exists>r. objs st' a = Some r \<and> string_ok r"
    using keepsD [OF assms(2) r'] by (metis option.inject)
qed

text \<open>Giving up a list of references to strings.\<close>

lemma decr_all_strings:
  assumes "counted st (mset bs + R)" and "store_wf st" and "\<forall>b\<in>set bs. \<exists>r. objs st b = Some r \<and> string_ok r"
  shows "\<exists>st'. decr_all (decrRefCount_fuel (Suc n)) st bs = Inr st' \<and> st' = fold (\<lambda>b s. decr_str s b) bs st \<and>
     counted st' R \<and> store_wf st' \<and> keeps st st' \<and> inner_refs st' = inner_refs st"
  using assms
proof (induction bs arbitrary: st)
  case (Cons b bs)
  obtain r where r: "objs st b = Some r" "string_ok r" using Cons.prems(3) by auto
  let ?s = "decr_str st b"
  have c0: "counted st (add_mset b (mset bs + R))" using Cons.prems(1) by simp
  have c: "counted ?s (mset bs + R)" by (rule decr_str_counted [OF c0 r])
  have i: "inner_refs ?s = inner_refs st" by (rule decr_str_inner [OF countedD(1) [OF c0] r])
  have w: "store_wf ?s"
    by (rule store_wf_keeps [OF Cons.prems(2) decr_str_keeps _ c]) (simp add: i)
  have "\<exists>r. objs ?s b' = Some r \<and> string_ok r" if bb: "b' \<in> set bs" for b'
  proof -
    have "objs ?s b' \<noteq> None" by (rule countedD(3) [OF c]) (simp add: bb)
    then obtain r' where r': "objs ?s b' = Some r'" by auto
    moreover obtain r where "objs st b' = Some r" "string_ok r" using Cons.prems(3) bb by auto
    ultimately show ?thesis using keepsD [OF decr_str_keeps r'] by (metis option.inject)
  qed
  then obtain st' where "decr_all (decrRefCount_fuel (Suc n)) ?s bs = Inr st'"
    "st' = fold (\<lambda>b s. decr_str s b) bs ?s" "counted st' R" "store_wf st'" "keeps ?s st'" "inner_refs st' = inner_refs ?s"
    using Cons.IH [OF c w] by blast
  then show ?case
    using decrRefCount_str [OF r, of n] keeps_trans [OF decr_str_keeps] i
    by (simp del: decrRefCount_fuel.simps)
qed simp


text \<open>Freeing the memory of an aggregate commutes with releasing strings elsewhere.\<close>

lemma decr_all_0: "decr_all (decrRefCount_fuel 0) st bs = (if bs = [] then Inr st else Inl StackOverflow)"
  by (cases bs) simp_all

lemma decr_free_commute:
  "b \<noteq> a \<Longrightarrow> decrRefCount_fuel 1 (free_mem st a) b = rbind (decrRefCount_fuel 1 st b) (\<lambda>s. Inr (free_mem s a))"
  by (simp add: One_nat_def get_obj_def live_set_simps decr_all_0 rbind_def split: option.split sum.split)
    (simp add: free_mem_def set_obj_def fun_upd_twist)

lemma decr_all_free_commute:
  "a \<notin> set bs \<Longrightarrow> decr_all (decrRefCount_fuel 1) (free_mem st a) bs =
     rbind (decr_all (decrRefCount_fuel 1) st bs) (\<lambda>s. Inr (free_mem s a))"
proof (induction bs arbitrary: st)
  case (Cons b bs)
  then have "decrRefCount_fuel 1 (free_mem st a) b = rbind (decrRefCount_fuel 1 st b) (\<lambda>s. Inr (free_mem s a))"
    by (intro decr_free_commute) auto
  with Cons show ?case
    by (cases "decrRefCount_fuel 1 st b") (simp_all del: One_nat_def)
qed simp

text \<open>The references of a well-formed aggregate that can be freed are what its free function gives up.\<close>

lemma dict_free_values: "free_cb d = Some c \<Longrightarrow> map snd (dict_free (Some d)) = map snd (dict_entries d)"
  by (simp add: dict_free_def dict_clear_spec)

lemma concat_results_docs:
  assumes "\<forall>kv\<in>set kvs. dheap f (snd kv) \<noteq> None"
  shows "concat_results (map (doc_refs f) (map snd kvs)) =
    Inr (concat (map (\<lambda>kv. case dheap f (snd kv) of None \<Rightarrow> [] | Some d \<Rightarrow> [title d, doc d]) kvs))"
  using assms by (induction kvs) (auto simp: doc_refs_def)

lemma freeFTSObject_eq:
  "ptr r = PFts f \<Longrightarrow> freeFTSObject r = concat_results (map (doc_refs f) (map snd (dict_free (Some (docs f)))))"
  by (simp add: freeFTSObject_def ptr_fts_def)

lemma free_contents_refs:
  assumes "obj_wf r" and "otype r = OBJ_HEAPQ \<longrightarrow> obj_refs r = {#}"
  shows "\<exists>rs. free_contents r = Inr rs \<and> mset rs = obj_refs r"
proof (cases "otype r")
  case OBJ_STRING
  then show ?thesis using assms(1) by (simp add: free_contents_def obj_wf_def)
next
  case OBJ_HASH
  then obtain d where "ptr r = PDict d" "free_cb d = Some FreeObj" "encoding r = OBJ_ENCODING_HT"
    using assms(1) by (auto simp: obj_wf_def split: optr.splits)
  with OBJ_HASH show ?thesis
    by (simp add: free_contents_def freeHashObject_def ptr_dict_def obj_refs_def dict_free_values)
next
  case OBJ_HEAPQ
  then obtain h where h: "ptr r = PHeap h" "heap_wf hq_cmp h"
    using assms(1) by (auto simp: obj_wf_def split: optr.splits)
  moreover have "take (hlen h) (array_list (array h)) = []"
    using OBJ_HEAPQ assms(2) h by (simp add: obj_refs_def heap_bag_def)
  ultimately have "minheap_free h = Inr []"
    by (subst minheap_free_calls) (auto split: option.split)
  with OBJ_HEAPQ h assms(2) show ?thesis
    by (simp add: free_contents_def freeHeapqObject_def ptr_heap_def)
next
  case OBJ_FTS
  then obtain f where f: "ptr r = PFts f" "free_cb (docs f) = Some FreeDoc"
    "\<forall>kv\<in>set (dict_entries (docs f)). dheap f (snd kv) \<noteq> None"
    using assms(1) by (auto simp: obj_wf_def split: optr.splits)
  then show ?thesis
    using OBJ_FTS freeFTSObject_eq [OF f(1)]
    by (simp add: free_contents_def obj_refs_def dict_free_values concat_results_docs del: map_map)
qed

text \<open>
  Giving up a reference that the running code holds: it succeeds, the counts stay
  right, and what is kept keeps its contents. A heap queue with items cannot be
  freed (see \<open>freeHeapqObject\<close>).
\<close>

lemma decrRefCount_counted:
  assumes c: "counted st (add_mset a R)" and w: "store_wf st" and r: "objs st a = Some r"
    and h: "otype r = OBJ_HEAPQ \<longrightarrow> refcount r = 1 \<longrightarrow> obj_refs r = {#}"
  shows "\<exists>st'. decrRefCount st a = Inr st' \<and> counted st' R \<and> store_wf st' \<and> keeps st st' \<and>
     inner_refs st' \<subseteq># inner_refs st"
proof (cases "refcount r = 1")
  case False
  let ?st = "set_obj st a (r\<lparr>refcount := refcount r - 1\<rparr>)"
  show ?thesis
  proof (cases "refcount r = OBJ_SHARED_REFCOUNT")
    case True
    with False r w counted_shared [OF c r True] show ?thesis
      by (simp add: decrRefCount_def numeral_2_eq_2 get_obj_def)
  next
    case ns: False
    have c': "counted ?st R" by (rule counted_dec [OF c r False ns])
    have "store_wf ?st"
      by (rule store_wf_keeps [OF w keeps_set [OF r ns] _ c'])
        (simp add: inner_refs_refcount [OF countedD(1) [OF c] r])
    with False ns r c' keeps_set [OF r ns] show ?thesis
      by (simp add: decrRefCount_def numeral_2_eq_2 get_obj_def inner_refs_refcount [OF countedD(1) [OF c] r])
  qed
next
  case True
  have wr: "obj_wf r" using w r by (auto simp: store_wf_def)
  obtain rs where rs: "free_contents r = Inr rs" "mset rs = obj_refs r"
    using free_contents_refs [OF wr] h True by blast
  have in_: "inner_refs st = inner_refs (free_mem st a) + obj_refs r"
    by (rule inner_refs_free [OF countedD(1) [OF c] r])
  have c1: "counted (free_mem st a) (mset rs + R)"
    using counted_free [OF c r True] by (simp add: rs(2) add.commute)
  have w1: "store_wf (free_mem st a)"
    by (rule store_wf_keeps [OF w keeps_free [OF r True] _ c1]) (simp add: in_)
  have na: "a \<notin> set rs"
    using counted_last(2) [OF c r True] rs(2) by (metis in_ set_mset_mset union_iff)
  have "\<exists>r'. objs (free_mem st a) b = Some r' \<and> string_ok r'" if b: "b \<in> set rs" for b
  proof -
    have "b \<in># inner_refs st" using b rs(2) by (metis in_ set_mset_mset union_iff)
    then have "\<exists>r'. objs st b = Some r' \<and> string_ok r'" using w by (auto simp: store_wf_def)
    moreover have "b \<noteq> a" using b na by auto
    ultimately show ?thesis by (simp add: live_set_simps)
  qed
  then obtain st' where st': "decr_all (decrRefCount_fuel (Suc 0)) (free_mem st a) rs = Inr st'"
    "counted st' R" "store_wf st'" "keeps (free_mem st a) st'" "inner_refs st' = inner_refs (free_mem st a)"
    using decr_all_strings [OF c1 w1, of 0] by blast
  have "rbind (decr_all (decrRefCount_fuel (Suc 0)) st rs) (\<lambda>s. Inr (free_mem s a)) = Inr st'"
    using decr_all_free_commute [OF na, of st] st'(1) by (metis One_nat_def)
  then obtain st1 where "decr_all (decrRefCount_fuel (Suc 0)) st rs = Inr st1" "free_mem st1 a = st'"
    by auto
  then have "decrRefCount st a = Inr st'"
    using True r rs by (simp add: decrRefCount_def numeral_2_eq_2 get_obj_def del: decrRefCount_fuel.simps(2)) 
       (simp add: decrRefCount_fuel.simps(2) [of "Suc 0"] get_obj_def del: decrRefCount_fuel.simps(2))
  moreover have "inner_refs st' \<subseteq># inner_refs st" by (simp add: st'(5) in_)
  ultimately show ?thesis using st' keeps_trans [OF keeps_free [OF r True]] by blast
qed

lemma incrRefCount_counted:
  assumes c: "counted st R" and w: "store_wf st" and r: "objs st a = Some r"
    and small: "refcount r \<noteq> OBJ_SHARED_REFCOUNT - 1"
  shows "\<exists>st'. incrRefCount st a = Inr st' \<and> counted st' (add_mset a R) \<and> store_wf st' \<and>
     keeps st st' \<and> keeps st' st"
proof (cases "refcount r = OBJ_SHARED_REFCOUNT")
  case True
  have "counted st (add_mset a R)"
  proof (rule countedI)
    fix b rb assume b: "objs st b = Some rb"
    then show "rc_ok rb (count (add_mset a R) b + count (inner_refs st) b)"
      using countedD(5) [OF c b] r True by (auto simp: rc_ok_def)
  qed (use countedD [OF c] r in auto)
  with True r w show ?thesis by (simp add: incrRefCount_def get_obj_def)
next
  case False
  let ?st = "set_obj st a (r\<lparr>refcount := refcount r + 1\<rparr>)"
  note in_ = inner_refs_refcount [OF countedD(1) [OF c] r]
  have c': "counted ?st (add_mset a R)"
  proof (rule countedI)
    show "objs ?st b \<noteq> None" if "b \<in># add_mset a R" for b
      using countedD(3) [OF c, of b] that by (auto simp: live_set_simps)
    show "objs ?st b \<noteq> None" if "b \<in># inner_refs ?st" for b
      using countedD(4) [OF c, of b] that by (auto simp: live_set_simps in_)
    show "rc_ok rb (count (add_mset a R) b + count (inner_refs ?st) b)" if "objs ?st b = Some rb" for b rb
      using countedD(5) [OF c, of b] r that False small
      by (auto simp: live_set_simps in_ rc_ok_def split: if_splits)
    show "b < next_addr ?st" if "objs ?st b = Some rb" for b rb
      using countedD(2) [OF c r] countedD(2) [OF c, of b] that by (auto simp: live_set_simps split: if_splits)
  qed (use countedD(1) [OF c] r in \<open>simp add: live_set_simps\<close>)
  have "store_wf ?st"
    by (rule store_wf_keeps [OF w keeps_set [OF r False] _ c']) (simp add: in_)
  moreover have "keeps ?st st"
    using r small by (auto simp: keeps_def live_set_simps)
  ultimately show ?thesis
    using False r c' keeps_set [OF r False] by (simp add: incrRefCount_def get_obj_def)
qed

lemma alloc_counted:
  assumes c: "counted st R" and w: "store_wf st" and a: "alloc st r = (a, st')"
    and ok: "obj_wf r" and none: "obj_refs r = {#}" and one: "refcount r = 1"
  shows "counted st' (add_mset a R)" and "store_wf st'" and "objs st' = (objs st)(a \<mapsto> r)" and "objs st a = None"
proof -
  have fresh: "objs st (next_addr st) = None" by (rule live_set_less [OF c])
  have in_: "inner_refs st' = inner_refs st"
    using inner_refs_alloc [OF countedD(1) [OF c] fresh a] none by simp
  show s': "objs st' = (objs st)(a \<mapsto> r)" and fresh': "objs st a = None"
    using a fresh by (auto simp: alloc_def)
  have live: "live_set st' = insert a (live_set st)" using s' by (auto simp: live_set_def)
  have na: "count R a = 0" "count (inner_refs st) a = 0"
    using countedD(3,4) [OF c, of a] fresh' by (auto simp: count_eq_zero_iff)
  have nx: "next_addr st' = next_addr st + 1" "a = next_addr st" using a by (auto simp: alloc_def)
  show "counted st' (add_mset a R)"
  proof (rule countedI)
    show "objs st' b \<noteq> None" if "b \<in># add_mset a R" for b
      using countedD(3) [OF c, of b] that by (auto simp: s')
    show "objs st' b \<noteq> None" if "b \<in># inner_refs st'" for b
      using countedD(4) [OF c, of b] that by (auto simp: s' in_)
    show "rc_ok rb (count (add_mset a R) b + count (inner_refs st') b)" if "objs st' b = Some rb" for b rb
      using countedD(5) [OF c, of b] that one na
      by (auto simp: s' in_ rc_ok_def OBJ_SHARED_REFCOUNT_def split: if_splits)
    show "b < next_addr st'" if "objs st' b = Some rb" for b rb
      using countedD(2) [OF c, of b] that by (force simp: s' nx split: if_splits)
  qed (use countedD(1) [OF c] in \<open>simp add: live\<close>)
  show "store_wf st'"
    using w ok by (auto simp: store_wf_def s' in_ fresh')
qed

text \<open>The shared integers are in place: what \<^verbatim>\<open>createSharedObjects\<close> sets up and nothing frees.\<close>

definition shared_ints :: "'d store \<Rightarrow> bool" where
  "shared_ints st \<longleftrightarrow>
     (\<forall>a < OBJ_SHARED_INTEGERS. objs st a =
        Some \<lparr>otype = OBJ_STRING, encoding = OBJ_ENCODING_INT, refcount = OBJ_SHARED_REFCOUNT, ptr = PInt (int a)\<rparr>)"

lemma shared_intsD: "shared_ints st \<Longrightarrow> 0 \<le> v \<Longrightarrow> v < int OBJ_SHARED_INTEGERS \<Longrightarrow> objs st (shared_integer v) =
    Some \<lparr>otype = OBJ_STRING, encoding = OBJ_ENCODING_INT, refcount = OBJ_SHARED_REFCOUNT, ptr = PInt v\<rparr>"
  using nat_less_iff by (auto simp: shared_ints_def shared_integer_def nat_less_iff)

lemma initial_store_wf:
  shows "counted (initial_store :: 'd::linorder store) {#}"
    and "store_wf (initial_store :: 'd::linorder store)"
    and "shared_ints (initial_store :: 'd::linorder store)"
proof -
  let ?st = "initial_store :: 'd store"
  have refs: "obj_refs (the (objs ?st a)) = {#}" if "objs ?st a \<noteq> None" for a
    using that by (auto simp: initial_store_def obj_refs_def split: if_splits)
  have in_: "inner_refs ?st = {#}"
    unfolding inner_refs_def by (rule sum.neutral) (use refs in \<open>auto simp: live_set_def\<close>)
  have l: "live_set ?st = {..<OBJ_SHARED_INTEGERS}"
    by (auto simp: live_set_def initial_store_def)
  have i: "string_ok (the (objs ?st a))" if "objs ?st a \<noteq> None" for a
    using that by (auto simp: initial_store_def string_ok_def LLONG_MIN_def LLONG_MAX_def OBJ_SHARED_INTEGERS_def split: if_splits)
  show "counted ?st {#}"
  proof (rule countedI)
    show "rc_ok r (count {#} a + count (inner_refs ?st) a)" if "objs ?st a = Some r" for a r
      using i [of a] that by (auto simp: rc_ok_def initial_store_def split: if_splits)
  qed (auto simp: in_ l, auto simp: initial_store_def split: if_splits)
  show "store_wf ?st"
    using i by (force simp: store_wf_def in_)
  show "shared_ints ?st" by (simp add: shared_ints_def initial_store_def)
qed


lemma keeps_shared_ints: "keeps st st' \<Longrightarrow> shared_ints st \<Longrightarrow> shared_ints st'"
  by (simp add: keeps_def shared_ints_def)

lemma alloc_str_at: "objs st' = (objs st)(a \<mapsto> r) \<Longrightarrow> objs st a = None \<Longrightarrow> str_at st x t \<Longrightarrow> str_at st' x t"
  by (auto simp: str_at_def)

lemma alloc_shared_ints: "objs st' = (objs st)(a \<mapsto> r) \<Longrightarrow> objs st a = None \<Longrightarrow> shared_ints st \<Longrightarrow> shared_ints st'"
  by (auto simp: shared_ints_def)

lemma string2l_dec: "string2l s = Some v \<Longrightarrow> s = dec v \<and> LLONG_MIN \<le> v \<and> v \<le> LLONG_MAX"
  by (simp add: string2l_def string2ll_only_dec split: option.splits if_splits)

text \<open>
  \<open>stable X st st'\<close>: the objects at \<open>X\<close> live on with the same contents, whatever
  happens to their counts.
\<close>

definition stable :: "addr set \<Rightarrow> 'd store \<Rightarrow> 'd store \<Rightarrow> bool" where
  "stable X st st' \<longleftrightarrow>
     (\<forall>a\<in>X. \<exists>r r'. objs st a = Some r \<and> objs st' a = Some r' \<and> r' = r\<lparr>refcount := refcount r'\<rparr>)"

lemma stable_mono: "stable X st st' \<Longrightarrow> Y \<subseteq> X \<Longrightarrow> stable Y st st'"
  unfolding stable_def by blast

lemma stable_trans:
  assumes "stable X a b" and "stable X b c"
  shows "stable X a c"
  unfolding stable_def
proof
  fix x assume x: "x \<in> X"
  obtain r r1 where r: "objs a x = Some r" "objs b x = Some r1" "r1 = r\<lparr>refcount := refcount r1\<rparr>"
    using assms(1) x unfolding stable_def by blast
  obtain r2 where r2: "objs c x = Some r2" "r2 = r1\<lparr>refcount := refcount r2\<rparr>"
    using assms(2) x r(2) unfolding stable_def by force
  have "r2 = r\<lparr>refcount := refcount r2\<rparr>"
    by (subst r2(2), subst r(3)) simp
  with r r2 show "\<exists>r r'. objs a x = Some r \<and> objs c x = Some r' \<and> r' = r\<lparr>refcount := refcount r'\<rparr>" by blast
qed

lemma stable_refl: "(\<And>a. a \<in> X \<Longrightarrow> objs st a \<noteq> None) \<Longrightarrow> stable X st st"
  unfolding stable_def by fastforce

lemma stable_same: "(\<And>a. a \<in> X \<Longrightarrow> objs st a \<noteq> None \<and> objs st' a = objs st a) \<Longrightarrow> stable X st st'"
  unfolding stable_def by fastforce

lemma keeps_stable:
  assumes k: "keeps st st'" and live: "\<And>a. a \<in> X \<Longrightarrow> objs st' a \<noteq> None"
  shows "stable X st st'"
  unfolding stable_def
proof
  fix a assume "a \<in> X"
  then obtain r' where r': "objs st' a = Some r'" using live by blast
  with k obtain r where "objs st a = Some r" "r' = r\<lparr>refcount := refcount r'\<rparr>" unfolding keeps_def by blast
  with r' show "\<exists>r r'. objs st a = Some r \<and> objs st' a = Some r' \<and> r' = r\<lparr>refcount := refcount r'\<rparr>" by blast
qed

lemma counted_stable: "keeps st st' \<Longrightarrow> counted st' R \<Longrightarrow> stable (set_mset (R + inner_refs st')) st st'"
  by (rule keeps_stable) (auto dest: countedD(3,4))

lemma stableD:
  assumes "stable X st st'" and "a \<in> X" and "objs st a = Some r"
  obtains r' where "objs st' a = Some r'" and "string_ok r' = string_ok r" and "obj_str r' = obj_str r"
    and "obj_refs r' = obj_refs r" and "otype r' = otype r" and "ptr r' = ptr r" and "encoding r' = encoding r"
proof -
  obtain r' where r': "objs st' a = Some r'" and eq: "r' = r\<lparr>refcount := refcount r'\<rparr>"
    using assms unfolding stable_def by force
  show ?thesis
    by (rule that [OF r']; subst eq; simp)
qed

lemma stable_str_at: "stable X st st' \<Longrightarrow> a \<in> X \<Longrightarrow> str_at st a s \<Longrightarrow> str_at st' a s"
proof -
  assume s: "stable X st st'" "a \<in> X" "str_at st a s"
  then obtain r where "objs st a = Some r" "string_ok r" "obj_str r = s" by (auto simp: str_at_def)
  with stableD [OF s(1,2)] show ?thesis unfolding str_at_def by metis
qed

text \<open>What \<^verbatim>\<open>tryObjectEncoding\<close> promises its callers.\<close>

definition encoded_ok :: "'d::linorder store \<Rightarrow> addr multiset \<Rightarrow> string \<Rightarrow> addr \<Rightarrow> 'd store \<Rightarrow> bool" where
  "encoded_ok st R s b st' \<longleftrightarrow>
     counted st' (add_mset b R) \<and> store_wf st' \<and> shared_ints st' \<and> str_at st' b s \<and>
     stable (set_mset (R + inner_refs st')) st st' \<and> inner_refs st' \<subseteq># inner_refs st"

lemma set_string_counted:
  assumes c: "counted st (add_mset a R)" and w: "store_wf st" and r: "objs st a = Some r" "string_ok r"
    and n: "string_ok r'" "refcount r' = refcount r"
  shows "counted (set_obj st a r') (add_mset a R)" and "store_wf (set_obj st a r')"
    and "inner_refs (set_obj st a r') = inner_refs st"
proof -
  show in_: "inner_refs (set_obj st a r') = inner_refs st"
    using inner_refs_set [OF countedD(1) [OF c] r(1), of r'] r(2) n(1) by simp
  show "counted (set_obj st a r') (add_mset a R)"
  proof (rule countedI)
    show "objs (set_obj st a r') b \<noteq> None" if "b \<in># add_mset a R" for b
      using countedD(3) [OF c that] by (auto simp: live_set_simps)
    show "objs (set_obj st a r') b \<noteq> None" if "b \<in># inner_refs (set_obj st a r')" for b
      using countedD(4) [OF c, of b] that by (auto simp: live_set_simps in_)
    show "rc_ok rb (count (add_mset a R) b + count (inner_refs (set_obj st a r')) b)"
      if "objs (set_obj st a r') b = Some rb" for b rb
      using countedD(5) [OF c, of b] countedD(5) [OF c r(1)] that n r(2)
      by (auto simp: live_set_simps in_ rc_ok_def split: if_splits)
    show "b < next_addr (set_obj st a r')" if "objs (set_obj st a r') b = Some rb" for b rb
      using countedD(2) [OF c r(1)] countedD(2) [OF c, of b] that by (auto simp: live_set_simps split: if_splits)
  qed (use countedD(1) [OF c] r in \<open>simp add: live_set_simps\<close>)
  show "store_wf (set_obj st a r')"
    using w n(1) by (auto simp: store_wf_def in_ live_set_simps)
qed

lemma encoded_int_in_place:
  assumes c: "counted st (add_mset a R)" and w: "store_wf st" and i: "shared_ints st"
    and r: "objs st a = Some r" "string_ok r" "refcount r = 1"
    and v: "LLONG_MIN \<le> v" "v \<le> LLONG_MAX"
  shows "encoded_ok st R (dec v) a (set_obj st a (r\<lparr>encoding := OBJ_ENCODING_INT, ptr := PInt v\<rparr>))"
proof -
  let ?r = "r\<lparr>encoding := OBJ_ENCODING_INT, ptr := PInt v\<rparr>"
  have ok: "string_ok ?r" "obj_str ?r = dec v"
    using r(2) v by (auto simp: string_ok_def obj_str_def)
  note last = counted_last [OF c r(1,3)] and set = set_string_counted [OF c w r(1,2) ok(1)]
  have "stable (set_mset (R + inner_refs st)) st (set_obj st a ?r)"
  proof (rule stable_same)
    fix x assume "x \<in># R + inner_refs st"
    then show "objs st x \<noteq> None \<and> objs (set_obj st a ?r) x = objs st x"
      using last countedD(3,4) [OF c, of x] by (auto simp: live_set_simps)
  qed
  moreover have "shared_ints (set_obj st a ?r)"
    using i r(1,3) by (auto simp: shared_ints_def live_set_simps OBJ_SHARED_REFCOUNT_def)
  ultimately show ?thesis
    using set ok r(1,3) by (simp add: encoded_ok_def str_at_def live_set_simps)
qed

lemma encoded_shared_int:
  assumes c: "counted st (add_mset a R)" and w: "store_wf st" and i: "shared_ints st"
    and r: "objs st a = Some r" "string_ok r" and v: "0 \<le> v" "v < int OBJ_SHARED_INTEGERS"
  shows "\<exists>st'. rbind (decrRefCount st a) (\<lambda>st1. rbind (incrRefCount st1 (shared_integer v))
      (\<lambda>st2. Inr (shared_integer v, st2))) = Inr (shared_integer v, st') \<and> encoded_ok st R (dec v) (shared_integer v) st'"
proof -
  have "otype r \<noteq> OBJ_HEAPQ" using r(2) by (auto simp: string_ok_def)
  then obtain st1 where st1: "decrRefCount st a = Inr st1" "counted st1 R" "store_wf st1" "keeps st st1"
    "inner_refs st1 \<subseteq># inner_refs st"
    using decrRefCount_counted [OF c w r(1)] by blast
  let ?r = "\<lparr>otype = OBJ_STRING, encoding = OBJ_ENCODING_INT, refcount = OBJ_SHARED_REFCOUNT, ptr = PInt v\<rparr>"
  have i1: "shared_ints st1" by (rule keeps_shared_ints [OF st1(4) i])
  have rv: "objs st1 (shared_integer v) = Some ?r" by (rule shared_intsD [OF i1 v])
  have st2: "incrRefCount st1 (shared_integer v) = Inr st1" "counted st1 (add_mset (shared_integer v) R)"
    using incrRefCount_counted [OF st1(2,3) rv] rv by (auto simp: incrRefCount_def get_obj_def)
  have "string_ok ?r" "obj_str ?r = dec v"
    using v by (auto simp: string_ok_def obj_str_def LLONG_MIN_def LLONG_MAX_def OBJ_SHARED_INTEGERS_def)
  then have "str_at st1 (shared_integer v) (dec v)" using rv by (simp add: str_at_def)
  then show ?thesis
    using st1 st2 i1 rv counted_stable [OF st1(4,2)] by (simp add: encoded_ok_def)
qed

lemma encoded_embstr:
  assumes c: "counted st (add_mset a R)" and w: "store_wf st" and i: "shared_ints st"
    and r: "objs st a = Some r" "string_ok r" and e: "createEmbeddedStringObject st s = (emb, st1)"
  shows "\<exists>st'. decrRefCount st1 a = Inr st' \<and> encoded_ok st R s emb st'"
proof -
  let ?e = "\<lparr>otype = OBJ_STRING, encoding = OBJ_ENCODING_EMBSTR, refcount = 1, ptr = PStr s\<rparr>"
  have ok: "string_ok ?e" "obj_str ?e = s" by (auto simp: string_ok_def obj_str_def)
  have e': "alloc st ?e = (emb, st1)" using e by (simp add: createEmbeddedStringObject_def)
  note st1 = alloc_counted [OF c w e' string_ok_obj_wf [OF ok(1)] string_ok_refs [OF ok(1)], simplified]
  have c1: "counted st1 (add_mset a (add_mset emb R))" using st1(1) by (simp add: add_mset_commute)
  have r1: "objs st1 a = Some r" using st1(3,4) r(1) by auto
  have "otype r \<noteq> OBJ_HEAPQ" using r(2) by (auto simp: string_ok_def)
  then obtain st2 where st2: "decrRefCount st1 a = Inr st2" "counted st2 (add_mset emb R)" "store_wf st2" "keeps st1 st2"
    "inner_refs st2 \<subseteq># inner_refs st1"
    using decrRefCount_counted [OF c1 st1(2) r1] by blast
  have in1: "inner_refs st1 = inner_refs st"
    using inner_refs_alloc [OF countedD(1) [OF c] _ e'] st1(4) e' by (simp add: alloc_def string_ok_refs [OF ok(1)])
  have fresh: "emb \<notin># R" "emb \<notin># inner_refs st2"
    using countedD(3,4) [OF c, of emb] st1(4) st2(5) by (auto simp: in1 dest: mset_subset_eqD)
  have s12: "stable (set_mset (add_mset emb R + inner_refs st2)) st1 st2" by (rule counted_stable [OF st2(4,2)])
  have "stable (set_mset (R + inner_refs st2)) st st1"
  proof (rule stable_same)
    fix x assume x: "x \<in># R + inner_refs st2"
    then have "x \<noteq> emb" using fresh by auto
    moreover have "x \<in># R \<or> x \<in># inner_refs st" using x st2(5) by (auto simp: in1 dest: mset_subset_eqD)
    ultimately show "objs st x \<noteq> None \<and> objs st1 x = objs st x"
      using countedD(3,4) [OF c, of x] st1(3) by auto
  qed
  then have s02: "stable (set_mset (R + inner_refs st2)) st st2"
    by (rule stable_trans) (rule stable_mono [OF s12], auto)
  have "str_at st1 emb s" using st1(3) ok by (simp add: str_at_def)
  then have str: "str_at st2 emb s" by (rule stable_str_at [OF s12, rotated]) simp
  have "shared_ints st2"
    by (rule keeps_shared_ints [OF st2(4) alloc_shared_ints [OF st1(3,4) i]])
  then show ?thesis
    using st2 str s02 in1 by (simp add: encoded_ok_def)
qed

lemma tryObjectEncoding_encoded:
  assumes "counted st (add_mset a R)" and "store_wf st" and "shared_ints st" and "str_at st a s"
  shows "\<exists>b st'. tryObjectEncoding max_memory st a = Inr (b, st') \<and> encoded_ok st R s b st'"
proof -
  obtain r where r: "objs st a = Some r" "string_ok r" "obj_str r = s" using assms(4) by (auto simp: str_at_def)
  have ty: "otype r = OBJ_STRING" using r(2) by (simp add: string_ok_def)
  have "stable (set_mset (R + inner_refs st)) st st"
    by (rule stable_refl) (use countedD(3,4) [OF assms(1)] in auto)
  then have same: "encoded_ok st R s a st" using assms by (auto simp: encoded_ok_def)
  show ?thesis
  proof (cases "sdsEncodedObject r \<and> \<not> refcount r > 1")
    case False
    then show ?thesis using same r ty by (auto simp: tryObjectEncoding_def get_obj_def)
  next
    case True
    then have one: "refcount r = 1"
      using countedD(5) [OF assms(1) r(1)] by (auto simp: rc_ok_def OBJ_SHARED_REFCOUNT_def)
    have s: "ptr_sds r = Inr s"
      using r True by (auto elim!: string_okE simp: ptr_sds_def)
    let ?v = "if length s \<le> 21 then string2l s else None"
    show ?thesis
    proof (cases ?v)
      case (Some v)
      then have v: "s = dec v" "LLONG_MIN \<le> v" "v \<le> LLONG_MAX"
        using string2l_dec [of s v] by (auto split: if_splits)
      show ?thesis
      proof (cases "max_memory = 0 \<and> v \<ge> 0 \<and> v < int OBJ_SHARED_INTEGERS")
        case True
        then show ?thesis
          using encoded_shared_int [OF assms(1-3) r(1,2), of v] r ty s one Some v(1) \<open>sdsEncodedObject r \<and> _\<close>
          by (auto simp: tryObjectEncoding_def get_obj_def)
      next
        case False
        then have "tryObjectEncoding max_memory st a =
            Inr (a, set_obj st a (r\<lparr>encoding := OBJ_ENCODING_INT, ptr := PInt v\<rparr>))"
          using r(1) ty s one Some True by (auto simp: tryObjectEncoding_def get_obj_def)
        then show ?thesis using encoded_int_in_place [OF assms(1-3) r(1,2) one v(2,3)] v(1) by blast
      qed
    next
      case None
      obtain emb st1 where e: "createEmbeddedStringObject st s = (emb, st1)" by fastforce
      show ?thesis
      proof (cases "length s \<le> OBJ_ENCODING_EMBSTR_SIZE_LIMIT \<and> encoding r \<noteq> OBJ_ENCODING_EMBSTR")
        case True
        obtain st2 where st2: "decrRefCount st1 a = Inr st2" "encoded_ok st R s emb st2"
          using encoded_embstr [OF assms(1-3) r(1,2) e] by blast
        then have "tryObjectEncoding max_memory st a = Inr (emb, st2)"
          using True r(1) ty s one None e \<open>sdsEncodedObject r \<and> _\<close>
          by (simp add: tryObjectEncoding_def get_obj_def)
        with st2(2) show ?thesis by blast
      next
        case False
        then have "tryObjectEncoding max_memory st a = Inr (a, st)"
          using r(1) ty s one None True by (simp add: tryObjectEncoding_def get_obj_def)
        with same show ?thesis by blast
      qed
    qed
  qed
qed

section \<open>Properties\<close>


definition sample_store :: "nat store" where
  "sample_store = snd (createStringObject initial_store ''12'')"

lemma sample_store_ok:
  "counted sample_store {#10000#}" "store_wf sample_store" "shared_ints sample_store"
  "objs sample_store 10000 = Some \<lparr>otype = OBJ_STRING, encoding = OBJ_ENCODING_EMBSTR, refcount = 1, ptr = PStr ''12''\<rparr>"
proof -
  let ?e = "\<lparr>otype = OBJ_STRING, encoding = OBJ_ENCODING_EMBSTR, refcount = 1, ptr = PStr ''12''\<rparr> :: nat robj"
  have ok: "string_ok ?e" by (auto simp: string_ok_def)
  have a: "alloc initial_store ?e = (10000, sample_store)"
    by (simp add: sample_store_def createStringObject_def createEmbeddedStringObject_def OBJ_ENCODING_EMBSTR_SIZE_LIMIT_def
        alloc_def initial_store_def OBJ_SHARED_INTEGERS_def)
  note * = alloc_counted [OF initial_store_wf(1,2) a string_ok_obj_wf [OF ok] string_ok_refs [OF ok], simplified]
  show "counted sample_store {#10000#}" "store_wf sample_store" "objs sample_store 10000 = Some ?e" 
    using * by auto
  show "shared_ints sample_store" by (rule alloc_shared_ints [OF *(3,4) initial_store_wf(3)])
qed


text \<open>
  C24 (functional). \<^verbatim>\<open>tryObjectEncoding\<close> changes how a string is stored and not what it says: the
  object returned denotes the same bytes (an integer in the pointer when the bytes are
  its canonical decimal form, a shared integer, an embedded string, or the object
  itself), the caller's reference has moved to it, the counts stay right, and every
  string somebody else refers to still reads the same.\<close>

theorem tryObjectEncoding_same_string:
  assumes "counted st (add_mset a R)" and "store_wf st" and "shared_ints st" and "str_at st a s"
  shows "\<exists>b st'. tryObjectEncoding max_memory st a = Inr (b, st') \<and> counted st' (add_mset b R) \<and>
     store_wf st' \<and> shared_ints st' \<and> str_at st' b s \<and>
     (\<forall>x t. x \<in># R \<longrightarrow> str_at st x t \<longrightarrow> str_at st' x t)"
proof -
  obtain b st' where "tryObjectEncoding max_memory st a = Inr (b, st')" and ok: "encoded_ok st R s b st'"
    using tryObjectEncoding_encoded [OF assms] by blast
  moreover have "\<forall>x t. x \<in># R \<longrightarrow> str_at st x t \<longrightarrow> str_at st' x t"
    using ok stable_str_at [of "set_mset (R + inner_refs st')" st st'] by (simp add: encoded_ok_def)
  ultimately show ?thesis using ok by (auto simp: encoded_ok_def)
qed

theorem tryObjectEncoding_same_string_witness:
  "\<exists>b st'. tryObjectEncoding 0 sample_store 10000 = Inr (b, st') \<and> str_at st' b ''12''"
proof -
  have "str_at sample_store 10000 ''12''"
    by (simp add: str_at_def sample_store_ok(4) string_ok_def obj_str_def)
  then show ?thesis
    using tryObjectEncoding_same_string [of sample_store 10000 "{#}" "''12''" 0] sample_store_ok(1-3) by auto
qed

text \<open>
  \<^verbatim>\<open>equalStringObjects\<close> decides equality of the strings two objects denote,
  whatever the encodings: an integer kept in the pointer equals its decimal text.
  (The lengths are below \<^verbatim>\<open>INT_MAX\<close>, to which the difference of lengths is narrowed.)\<close>

theorem equalStringObjects_correct:
  assumes "str_at st a s" and "str_at st b t" and "length s < 2 ^ 31" and "length t < 2 ^ 31"
  shows "equalStringObjects st a b = Inr (s = t)"
  by (rule equalStringObjects_ok [OF assms])

theorem equalStringObjects_correct_witness:
  "equalStringObjects sample_store 12 10000 = Inr True"
proof -
  have "str_at sample_store 10000 ''12''"
    by (simp add: str_at_def sample_store_ok(4) string_ok_def obj_str_def)
  moreover have "str_at sample_store 12 ''12''"
  proof -
    have "objs sample_store 12 = Some \<lparr>otype = OBJ_STRING, encoding = OBJ_ENCODING_INT,
        refcount = OBJ_SHARED_REFCOUNT, ptr = PInt 12\<rparr>"
      using sample_store_ok(3) by (simp add: shared_ints_def OBJ_SHARED_INTEGERS_def)
    moreover have "dec 12 = ''12''" by code_simp
    ultimately show ?thesis by (simp add: str_at_def string_ok_def obj_str_def LLONG_MIN_def LLONG_MAX_def)
  qed
  ultimately show ?thesis using equalStringObjects_correct [of sample_store 12 "''12''" 10000 "''12''"] by simp
qed

section \<open>The heap of items\<close>

interpretation hq: heap_order "hq_cmp :: 'd::linorder hq_item_t \<Rightarrow> 'd hq_item_t \<Rightarrow> int"
  by unfold_locales (auto simp: hq_cmp_def split: if_splits)

lemma hq_cmp_le [simp]: "hq_cmp a b \<le> 0 \<longleftrightarrow> score a \<le> score b"
  by (auto simp: hq_cmp_def)

lemma hq_callbacks: "hq_cpy = (\<lambda>x. x)" "hq_swp = prod.swap"
  by (auto simp: hq_cpy_def hq_swp_def)

definition new_heapq :: "('d::linorder hq_item_t, callback) minheap_t" where
  "new_heapq = minheap_set_freecb (minheap_create 8 16 hq_cmp hq_cpy hq_swp) (Some FreeObj)"

lemma new_heapq_wf: "heap_wf hq_cmp new_heapq" "heap_bag new_heapq = {#}"
proof -
  have "heap_wf hq_cmp (minheap_create 8 16 hq_cmp hq_cpy hq_swp)"
    "heap_bag (minheap_create 8 16 hq_cmp hq_cpy hq_swp) = {#}"
    using minheap_create_wf [of 8 16] by (simp_all add: hq_callbacks)
  then show "heap_wf hq_cmp new_heapq" "heap_bag new_heapq = {#}"
    by (auto simp: new_heapq_def minheap_set_freecb_def heap_wf_def heap_bag_def)
qed

lemma new_heapq_len [simp]: "minheap_len new_heapq = 0"
  by (simp add: new_heapq_def minheap_set_freecb_def minheap_create_def minheap_len_def)

text \<open>
  \<^verbatim>\<open>minheap_push\<close> on the queue of scored items: it returns 0, adds exactly the
  pushed item to the items of the queue (duplicates included), and the array is again
  a heap by score, whether the push fills a free slot or grows the array. The bound
  is that of the \<^verbatim>\<open>int\<close> that \<^verbatim>\<open>array_at\<close> takes an index as.\<close>

theorem heapq_push_keeps_heap:
  fixes heap :: "('d::linorder hq_item_t, callback) minheap_t"
  assumes "heap_wf hq_cmp heap" and "minheap_len heap + 1 < 2 ^ 31"
  shows "\<exists>heap'. minheap_push heap x = Inr (0, heap') \<and> heap_wf hq_cmp heap' \<and>
     heap_bag heap' = add_mset x (heap_bag heap) \<and> hfree_cb heap' = hfree_cb heap"
  by (rule hq.push_spec [OF assms])

theorem heapq_push_keeps_heap_witness:
  "\<exists>heap'. minheap_push new_heapq \<lparr>score = (5::nat), obj = 7\<rparr> = Inr (0, heap') \<and>
     heap_wf hq_cmp heap' \<and> heap_bag heap' = {#\<lparr>score = 5, obj = 7\<rparr>#}"
  using heapq_push_keeps_heap [OF new_heapq_wf(1), of "\<lparr>score = (5::nat), obj = 7\<rparr>"]
  by (auto simp: new_heapq_wf(2))

text \<open>
  Popping a queue of scored items \<open>n\<close> times yields the \<open>n\<close> items of least
  score (all of them when there are fewer) in ascending order of score, loses none of
  the others, and leaves a heap.\<close>

theorem heapq_pops_ascending:
  fixes heap :: "('d::linorder hq_item_t, callback) minheap_t"
  assumes "heap_wf hq_cmp heap"
  shows "\<exists>xs heap'. pop_n pop_value n heap = Inr (xs, heap') \<and> heap_wf hq_cmp heap' \<and>
     length xs = min n (size (heap_bag heap)) \<and> heap_bag heap = mset xs + heap_bag heap' \<and>
     sorted (map score xs) \<and> (\<forall>x y. x \<in> set xs \<longrightarrow> y \<in># heap_bag heap' \<longrightarrow> score x \<le> score y)"
proof -
  obtain xs heap' where *: "pop_n pop_value n heap = Inr (xs, heap')" "heap_wf hq_cmp heap'"
    "length xs = min n (size (heap_bag heap))" "heap_bag heap = mset xs + heap_bag heap'"
    "sorted_wrt (\<lambda>a b. hq_cmp a b \<le> 0) xs" "\<forall>x\<in>set xs. \<forall>y\<in>#heap_bag heap'. hq_cmp x y \<le> 0"
    using hq.queue.pop_n_sorted [OF assms, of n] by blast
  moreover have "sorted (map score xs)" using *(5) by (simp add: sorted_wrt_map)
  ultimately show ?thesis by auto
qed

theorem heapq_pops_ascending_witness:
  "\<exists>heap' q. minheap_push new_heapq \<lparr>score = (5::nat), obj = 7\<rparr> = Inr (0, heap') \<and>
     pop_n pop_value 3 heap' = Inr ([\<lparr>score = 5, obj = 7\<rparr>], q) \<and> heap_bag q = {#}"
proof -
  obtain heap' :: "(nat hq_item_t, callback) minheap_t" where
    h: "minheap_push new_heapq \<lparr>score = (5::nat), obj = 7\<rparr> = Inr (0, heap')"
    "heap_wf hq_cmp heap'" "heap_bag heap' = {#\<lparr>score = 5, obj = 7\<rparr>#}"
    using hq.push_spec [OF new_heapq_wf(1), of "\<lparr>score = (5::nat), obj = 7\<rparr>"]
    by (auto simp: new_heapq_wf(2))
  then obtain xs q where q: "pop_n pop_value 3 heap' = Inr (xs, q)" "length xs = 1"
    "{#\<lparr>score = 5, obj = 7\<rparr>#} = mset xs + heap_bag q"
    using heapq_pops_ascending [OF h(2), of 3] by auto
  then have "size (heap_bag q) = 0" by (metis add_cancel_left_right size_mset size_single size_union)
  with q have "heap_bag q = {#}" "xs = [\<lparr>score = 5, obj = 7\<rparr>]"
    by (auto simp: mset_single_iff dest: sym)
  with h q show ?thesis by blast
qed

end
