(* ===== verification/Reply.thy ===== *)
theory Reply
  imports Robj
begin

text \<open>
  Replying to a client (\<^verbatim>\<open>rr_replying.c\<close>, and the client structure of \<^verbatim>\<open>rr_server.h\<close>).

  The output of a client is a static buffer followed by a list of strings; the
  filled part of \<^verbatim>\<open>buf\<close> is the string \<open>buf\<close>, so \<^verbatim>\<open>buf_offset\<close> is its length.
  \<open>outstanding\<close> is what the peer has still to receive. The lemmas say what every
  reply function appends to it and that writing to the socket only moves bytes
  from its front to the wire.
\<close>

section \<open>Clients\<close>

type_synonym cid = nat

definition PROTO_REPLY_MAX_LEN :: nat where "PROTO_REPLY_MAX_LEN = 16 * 1024"
definition NET_MAX_WRITES_PER_EVENT :: nat where "NET_MAX_WRITES_PER_EVENT = 1024 * 64"

definition CLIENT_PENDING_WRITE :: u32 where "CLIENT_PENDING_WRITE = push_bit 1 1"
definition CLIENT_CLOSE_AFTER_REPLY :: u32 where "CLIENT_CLOSE_AFTER_REPLY = push_bit 2 1"
definition CLIENT_CLOSE_ASAP :: u32 where "CLIENT_CLOSE_ASAP = push_bit 3 1"
definition CLIENT_UNIX_SOCKET :: u32 where "CLIENT_UNIX_SOCKET = push_bit 11 1"

definition has_flag :: "u32 \<Rightarrow> u32 \<Rightarrow> bool" where
  "has_flag w f \<longleftrightarrow> w AND f \<noteq> 0"

datatype req = REQ_NONE | PROTO_REQ_MULTIBULK | PROTO_REQ_INLINE

record client =
  cid :: cid
  fd :: int
  req_type :: req
  multibulk_len :: int
  bulk_len :: int
  query :: string
  reply :: "string list"
  flags :: u32
  argv :: "addr list"
  replied_len :: nat
  buf_sent_len :: nat
  buf :: string

text \<open>What a command works on: its client, the clients with output to send, and the objects.\<close>

record 'd ctx =
  cl :: client
  pending_writes :: "cid list"
  store :: "'d store"

section \<open>Queueing output\<close>

definition client_has_pending_replies :: "client \<Rightarrow> bool" where
  "client_has_pending_replies c \<longleftrightarrow> length (buf c) \<noteq> 0 \<or> length (reply c) \<noteq> 0"

definition prepare_client_to_write :: "('d, 'z) ctx_scheme \<Rightarrow> bool \<times> ('d, 'z) ctx_scheme" where
  "prepare_client_to_write x =
     (let c = cl x in
      if fd c \<le> 0 then (False, x)
      else if \<not> client_has_pending_replies c \<and> \<not> has_flag (flags c) CLIENT_PENDING_WRITE
      then (True, x\<lparr>cl := c\<lparr>flags := flags c OR CLIENT_PENDING_WRITE\<rparr>,
                    pending_writes := cid c # pending_writes x\<rparr>)
      else (True, x))"

definition add_reply_to_buffer :: "client \<Rightarrow> string \<Rightarrow> bool \<times> client" where
  "add_reply_to_buffer c s =
     (let available = sub64 PROTO_REPLY_MAX_LEN (length (buf c)) in
      if has_flag (flags c) CLIENT_CLOSE_AFTER_REPLY then (True, c)
      else if length (reply c) > 0 then (False, c)
      else if length s > available then (False, c)
      else (True, c\<lparr>buf := buf c @ s\<rparr>))"

text \<open>Appending to the last string of a list that is not empty.\<close>

definition append_last :: "string list \<Rightarrow> string \<Rightarrow> string list" where
  "append_last xs s = butlast xs @ [last xs @ s]"

definition add_reply_object_to_list :: "client \<Rightarrow> string \<Rightarrow> client" where
  "add_reply_object_to_list c s =
     (if has_flag (flags c) CLIENT_CLOSE_AFTER_REPLY then c
      else if length (reply c) = 0
      then c\<lparr>reply := reply c @ [s], replied_len := add64 (replied_len c) (length s)\<rparr>
      else if add64 (length (last (reply c))) (length s) \<le> PROTO_REPLY_MAX_LEN
      then c\<lparr>reply := append_last (reply c) s, replied_len := add64 (replied_len c) (length s)\<rparr>
      else c\<lparr>reply := reply c @ [s], replied_len := add64 (replied_len c) (length s)\<rparr>)"

definition add_reply_sds_to_list :: "client \<Rightarrow> string \<Rightarrow> client" where
  "add_reply_sds_to_list c s =
     (if has_flag (flags c) CLIENT_CLOSE_AFTER_REPLY then c
      else
        let c1 = c\<lparr>replied_len := add64 (replied_len c) (length s)\<rparr> in
        if length (reply c1) = 0 then c1\<lparr>reply := reply c1 @ [s]\<rparr>
        else if add64 (length (last (reply c1))) (length s) \<le> PROTO_REPLY_MAX_LEN
        then c1\<lparr>reply := append_last (reply c1) s\<rparr>
        else c1\<lparr>reply := reply c1 @ [s]\<rparr>)"

definition add_reply_str_to_list :: "client \<Rightarrow> string \<Rightarrow> client" where
  "add_reply_str_to_list c s =
     (if has_flag (flags c) CLIENT_CLOSE_AFTER_REPLY then c
      else
        let c1 = c\<lparr>replied_len := add64 (replied_len c) (length s)\<rparr> in
        if length (reply c1) = 0 then c1\<lparr>reply := reply c1 @ [s]\<rparr>
        else if add64 (length (last (reply c1))) (length s) \<le> PROTO_REPLY_MAX_LEN
        then c1\<lparr>reply := append_last (reply c1) s\<rparr>
        else c1\<lparr>reply := reply c1 @ [s]\<rparr>)"

text \<open>\<^verbatim>\<open>add_reply_to_buffer\<close>, and the list when the buffer does not take the string.\<close>

definition put_obj_str :: "('d, 'z) ctx_scheme \<Rightarrow> string \<Rightarrow> ('d, 'z) ctx_scheme" where
  "put_obj_str x s =
     (case add_reply_to_buffer (cl x) s of
        (True, c) \<Rightarrow> x\<lparr>cl := c\<rparr>
      | (False, c) \<Rightarrow> x\<lparr>cl := add_reply_object_to_list c s\<rparr>)"

definition reply_add_obj :: "('d, 'z) ctx_scheme \<Rightarrow> 'd robj \<Rightarrow> ('d, 'z) ctx_scheme result" where
  "reply_add_obj x ob =
     (case prepare_client_to_write x of
        (False, x) \<Rightarrow> Inr x
      | (True, x) \<Rightarrow>
          if sdsEncodedObject ob then rbind (ptr_sds ob) (\<lambda>s. Inr (put_obj_str x s))
          else if encoding ob = OBJ_ENCODING_INT then
            rbind (ptr_long ob) (\<lambda>n.
              let fast =
                (if length (reply (cl x)) = 0 \<and> sub64 PROTO_REPLY_MAX_LEN (length (buf (cl x))) \<ge> 32
                 then add_reply_to_buffer (cl x) (print_ll 32 n) else (False, cl x))
              in case fast of
                   (True, c) \<Rightarrow> Inr (x\<lparr>cl := c\<rparr>)
                 | (False, c) \<Rightarrow>
                     case createStringObject (store x) (print_ll 32 n) of
                       (a, st) \<Rightarrow>
                         rbind (get_obj st a) (\<lambda>d. rbind (ptr_sds d) (\<lambda>s.
                           let x1 = put_obj_str (x\<lparr>store := st\<rparr>) s
                           in rbind (decrRefCount (store x1) a) (\<lambda>st'. Inr (x1\<lparr>store := st'\<rparr>)))))
          else Inl AssertFail)"

definition reply_add_str :: "('d, 'z) ctx_scheme \<Rightarrow> string \<Rightarrow> ('d, 'z) ctx_scheme" where
  "reply_add_str x s =
     (case prepare_client_to_write x of
        (False, x) \<Rightarrow> x
      | (True, x) \<Rightarrow>
          (case add_reply_to_buffer (cl x) s of
             (True, c) \<Rightarrow> x\<lparr>cl := c\<rparr>
           | (False, c) \<Rightarrow> x\<lparr>cl := add_reply_str_to_list c s\<rparr>))"

definition reply_add_err_len :: "('d, 'z) ctx_scheme \<Rightarrow> string \<Rightarrow> ('d, 'z) ctx_scheme" where
  "reply_add_err_len x s = reply_add_str (reply_add_str (reply_add_str x ''-ERR '') s) CRLF"

text \<open>\<^verbatim>\<open>reply_add_err_format\<close>, given the text that \<^verbatim>\<open>vsnprintf\<close> makes of the format and its arguments.\<close>

definition reply_add_err_format :: "('d, 'z) ctx_scheme \<Rightarrow> string \<Rightarrow> ('d, 'z) ctx_scheme" where
  "reply_add_err_format x s = reply_add_err_len x (map (\<lambda>ch. if ch = CR \<or> ch = LF then CHR '' '' else ch) s)"

definition reply_add_err :: "('d, 'z) ctx_scheme \<Rightarrow> string \<Rightarrow> ('d, 'z) ctx_scheme" where
  "reply_add_err x err = reply_add_err_len x (cstr err)"

definition reply_add_status_len :: "('d, 'z) ctx_scheme \<Rightarrow> string \<Rightarrow> ('d, 'z) ctx_scheme" where
  "reply_add_status_len x s = reply_add_str (reply_add_str (reply_add_str x ''+'') s) CRLF"

definition reply_add_status :: "('d, 'z) ctx_scheme \<Rightarrow> string \<Rightarrow> ('d, 'z) ctx_scheme" where
  "reply_add_status x status = reply_add_status_len x (cstr status)"

definition reply_add_sds :: "('d, 'z) ctx_scheme \<Rightarrow> string \<Rightarrow> ('d, 'z) ctx_scheme" where
  "reply_add_sds x s =
     (case prepare_client_to_write x of
        (False, x) \<Rightarrow> x
      | (True, x) \<Rightarrow>
          (case add_reply_to_buffer (cl x) s of
             (True, c) \<Rightarrow> x\<lparr>cl := c\<rparr>
           | (False, c) \<Rightarrow> x\<lparr>cl := add_reply_sds_to_list c s\<rparr>))"

definition reply_add_longlong_with_prefix ::
  "('d, 'z) ctx_scheme \<Rightarrow> int \<Rightarrow> char \<Rightarrow> ('d, 'z) ctx_scheme result" where
  "reply_add_longlong_with_prefix x ll pre =
     (if pre = CHR ''*'' \<and> ll < int OBJ_SHARED_BULKHDR_LEN \<and> ll \<ge> 0
      then reply_add_obj x (shared_mbulkhdr (nat ll))
      else if pre = CHR ''$'' \<and> ll < int OBJ_SHARED_BULKHDR_LEN \<and> ll \<ge> 0
      then reply_add_obj x (shared_bulkhdr (nat ll))
      else Inr (reply_add_str x (pre # print_ll 127 ll @ CRLF)))"

definition reply_add_longlong :: "('d, 'z) ctx_scheme \<Rightarrow> int \<Rightarrow> ('d, 'z) ctx_scheme result" where
  "reply_add_longlong x ll = reply_add_longlong_with_prefix x ll (CHR '':'')"

definition reply_add_multi_bulk_len :: "('d, 'z) ctx_scheme \<Rightarrow> int \<Rightarrow> ('d, 'z) ctx_scheme result" where
  "reply_add_multi_bulk_len x len =
     (if len < int OBJ_SHARED_BULKHDR_LEN
      then (if len < 0 then Inl OutOfBounds else reply_add_obj x (shared_mbulkhdr (nat len)))
      else reply_add_longlong_with_prefix x len (CHR ''*''))"

text \<open>\<^verbatim>\<open>while((n = n/10) != 0) len++\<close>\<close>

function count_digits :: "int \<Rightarrow> nat \<Rightarrow> nat" where
  "count_digits n len = (let q = sgn n * (\<bar>n\<bar> div 10) in if q = 0 then len else count_digits q (len + 1))"
  by pat_completeness auto
termination
  by (relation "measure (\<lambda>(n, _). nat \<bar>n\<bar>)") (auto simp: abs_mult sgn_if split: if_splits)

declare count_digits.simps [simp del]

definition bulk_obj_len :: "'d robj \<Rightarrow> nat result" where
  "bulk_obj_len ob =
     (if sdsEncodedObject ob then rbind (ptr_sds ob) (\<lambda>s. Inr (length s))
      else rbind (ptr_long ob) (\<lambda>n.
        Inr (if n < 0 then count_digits (to_ll (- n)) 2 else count_digits n 1)))"

definition reply_add_bulk_len :: "('d, 'z) ctx_scheme \<Rightarrow> 'd robj \<Rightarrow> ('d, 'z) ctx_scheme result" where
  "reply_add_bulk_len x ob =
     rbind (bulk_obj_len ob) (\<lambda>len.
       if len < OBJ_SHARED_BULKHDR_LEN then reply_add_obj x (shared_bulkhdr len)
       else reply_add_longlong_with_prefix x (int len) (CHR ''$''))"

definition reply_add_bulk_obj :: "('d, 'z) ctx_scheme \<Rightarrow> 'd robj \<Rightarrow> ('d, 'z) ctx_scheme result" where
  "reply_add_bulk_obj x ob =
     rbind (reply_add_bulk_len x ob) (\<lambda>x. rbind (reply_add_obj x ob) (\<lambda>x. reply_add_obj x shared_crlf))"

definition reply_add_bulk_cbuf :: "('d, 'z) ctx_scheme \<Rightarrow> string \<Rightarrow> ('d, 'z) ctx_scheme result" where
  "reply_add_bulk_cbuf x p =
     rbind (reply_add_longlong_with_prefix x (int (length p)) (CHR ''$''))
       (\<lambda>x. reply_add_obj (reply_add_str x p) shared_crlf)"

text \<open>\<^verbatim>\<open>%u\<close> of \<^verbatim>\<open>sdscatfmt\<close> reads an \<^verbatim>\<open>unsigned int\<close>.\<close>

definition reply_add_bulk_sds :: "('d, 'z) ctx_scheme \<Rightarrow> string \<Rightarrow> ('d, 'z) ctx_scheme result" where
  "reply_add_bulk_sds x s =
     reply_add_obj (reply_add_sds (reply_add_sds x (CHR ''$'' # udec (length s mod 2 ^ 32) @ CRLF)) s) shared_crlf"

definition reply_add_bulk_cstr :: "('d, 'z) ctx_scheme \<Rightarrow> string option \<Rightarrow> ('d, 'z) ctx_scheme result" where
  "reply_add_bulk_cstr x s =
     (case s of None \<Rightarrow> reply_add_obj x shared_nullbulk | Some s \<Rightarrow> reply_add_bulk_cbuf x (cstr s))"

definition reply_add_bulk_longlong :: "('d, 'z) ctx_scheme \<Rightarrow> int \<Rightarrow> ('d, 'z) ctx_scheme result" where
  "reply_add_bulk_longlong x ll = reply_add_bulk_cbuf x (print_ll 64 ll)"

section \<open>Writing to the socket\<close>

text \<open>
  What \<^verbatim>\<open>write\<close> does is decided outside: how many bytes it takes (never more than it
  is given), or an error; each answer comes with the memory in use when the loop
  asks for it. When the answers run out the socket takes nothing more.
\<close>

datatype write_result = Wrote nat | WAgain | WFail

fun next_write :: "(write_result \<times> nat) list \<Rightarrow> (write_result \<times> nat) \<times> (write_result \<times> nat) list" where
  "next_write [] = ((WAgain, 0), [])"
| "next_write (w # ws) = (w, ws)"

text \<open>One \<^verbatim>\<open>write\<close> of the bytes from \<^verbatim>\<open>buf_sent_len\<close> on: the bytes taken, 0 when it fails.\<close>

definition taken :: "write_result \<Rightarrow> string \<Rightarrow> string" where
  "taken w s = (case w of Wrote n \<Rightarrow> take n s | _ \<Rightarrow> [])"

text \<open>
  The loop of \<^verbatim>\<open>reply_write_to_client\<close>: the client, the bytes put on the wire, and
  whether the last \<^verbatim>\<open>write\<close> failed for good.
\<close>

function reply_write_loop ::
  "nat \<Rightarrow> (write_result \<times> nat) list \<Rightarrow> client \<Rightarrow> string \<Rightarrow> client \<times> string \<times> bool" where
  "reply_write_loop max_memory ws c sent =
     (if \<not> client_has_pending_replies c then (c, sent, False)
      else if length (buf c) > 0 then
        (case next_write ws of
           ((w, used), ws') \<Rightarrow>
             let bs = taken w (drop (buf_sent_len c) (buf c)) in
             if bs = [] then (c, sent, w = WFail)
             else
               let c1 = c\<lparr>buf_sent_len := buf_sent_len c + length bs\<rparr>;
                   c2 = (if buf_sent_len c1 = length (buf c1) then c1\<lparr>buf := [], buf_sent_len := 0\<rparr> else c1);
                   sent' = sent @ bs
               in if length sent' > NET_MAX_WRITES_PER_EVENT \<and> (max_memory = 0 \<or> used < max_memory)
                  then (c2, sent', False)
                  else reply_write_loop max_memory ws' c2 sent')
      else
        let objlen = length (hd (reply c)) in
        if objlen = 0 then reply_write_loop max_memory ws (c\<lparr>reply := tl (reply c)\<rparr>) sent
        else
          (case next_write ws of
             ((w, used), ws') \<Rightarrow>
               let bs = taken w (drop (buf_sent_len c) (hd (reply c))) in
               if bs = [] then (c, sent, w = WFail)
               else
                 let c1 = c\<lparr>buf_sent_len := buf_sent_len c + length bs\<rparr>;
                     c2 = (if buf_sent_len c1 = objlen
                           then c1\<lparr>reply := tl (reply c1), buf_sent_len := 0,
                                   replied_len := sub64 (replied_len c1) objlen\<rparr>
                           else c1);
                     sent' = sent @ bs
                 in if length sent' > NET_MAX_WRITES_PER_EVENT \<and> (max_memory = 0 \<or> used < max_memory)
                    then (c2, sent', False)
                    else reply_write_loop max_memory ws' c2 sent'))"
  by pat_completeness auto
termination
proof (relation "measure (\<lambda>(_, ws, c, _). length ws + length (reply c))", goal_cases)
  case (2 m ws c sent x x1 x2 x3 ws')
  then show ?case by (cases ws) (auto simp: taken_def)
next
  case (3 m ws c sent)
  then show ?case by (cases "reply c") (auto simp: client_has_pending_replies_def)
next
  case (4 m ws c sent)
  then show ?case by (cases ws) (auto simp: taken_def)
qed simp

declare reply_write_loop.simps [simp del]

section \<open>What the peer has still to receive\<close>

definition accepts :: "client \<Rightarrow> bool" where
  "accepts c \<longleftrightarrow> fd c > 0 \<and> \<not> has_flag (flags c) CLIENT_CLOSE_AFTER_REPLY"

definition outstanding :: "client \<Rightarrow> string" where
  "outstanding c = drop (buf_sent_len c) (buf c @ concat (reply c))"

text \<open>
  The invariant of the output of a client: the static buffer never overflows,
  \<^verbatim>\<open>buf_sent_len\<close> counts bytes of the string being sent (the buffer when it is not
  empty, else the head of the list), and \<^verbatim>\<open>replied_len\<close> is the size of the list.
\<close>

definition out_wf :: "client \<Rightarrow> bool" where
  "out_wf c \<longleftrightarrow>
     length (buf c) \<le> PROTO_REPLY_MAX_LEN \<and>
     (if buf c \<noteq> [] then buf_sent_len c < length (buf c)
      else buf_sent_len c = 0 \<or> reply c \<noteq> [] \<and> buf_sent_len c < length (hd (reply c))) \<and>
     replied_len c = length (concat (reply c)) mod 2 ^ 64"

lemma flag_or [simp]:
  "has_flag (w OR CLIENT_PENDING_WRITE) CLIENT_CLOSE_AFTER_REPLY = has_flag w CLIENT_CLOSE_AFTER_REPLY"
  "has_flag (w OR CLIENT_PENDING_WRITE) CLIENT_PENDING_WRITE"
  by (simp_all add: has_flag_def CLIENT_PENDING_WRITE_def CLIENT_CLOSE_AFTER_REPLY_def bit.conj_disj_distrib2)

text \<open>Everything but the output.\<close>

definition rest :: "('d, 'z) ctx_scheme \<Rightarrow> ('d, 'z) ctx_scheme" where
  "rest x = x\<lparr>cl := (cl x)\<lparr>flags := flags (cl x) AND NOT CLIENT_PENDING_WRITE, reply := [], buf := [], replied_len := 0\<rparr>,
     pending_writes := [], store := (store x)\<lparr>next_addr := 0\<rparr>\<rparr>"

lemma rest_simps:
  "rest (x\<lparr>pending_writes := p\<rparr>) = rest x"
  "rest (x\<lparr>cl := (cl x)\<lparr>reply := r\<rparr>\<rparr>) = rest x"
  "rest (x\<lparr>cl := (cl x)\<lparr>buf := b\<rparr>\<rparr>) = rest x"
  "rest (x\<lparr>cl := (cl x)\<lparr>reply := r, replied_len := n\<rparr>\<rparr>) = rest x"
  "rest (x\<lparr>cl := (cl x)\<lparr>flags := flags (cl x) OR CLIENT_PENDING_WRITE\<rparr>\<rparr>) = rest x"
  "rest (x\<lparr>cl := (cl x)\<lparr>flags := flags (cl x) OR CLIENT_PENDING_WRITE\<rparr>, pending_writes := p\<rparr>) = rest x"
proof -
  have "(w OR CLIENT_PENDING_WRITE) AND NOT CLIENT_PENDING_WRITE = w AND NOT CLIENT_PENDING_WRITE" for w
    by (simp add: bit.conj_disj_distrib2)
  then show "rest (x\<lparr>cl := (cl x)\<lparr>flags := flags (cl x) OR CLIENT_PENDING_WRITE\<rparr>\<rparr>) = rest x"
    "rest (x\<lparr>cl := (cl x)\<lparr>flags := flags (cl x) OR CLIENT_PENDING_WRITE\<rparr>, pending_writes := p\<rparr>) = rest x"
    by (simp_all add: rest_def)
qed (simp_all add: rest_def)

lemma flag_close_rest:
  "has_flag (w AND NOT CLIENT_PENDING_WRITE) CLIENT_CLOSE_AFTER_REPLY = has_flag w CLIENT_CLOSE_AFTER_REPLY"
proof -
  have "NOT CLIENT_PENDING_WRITE AND CLIENT_CLOSE_AFTER_REPLY = CLIENT_CLOSE_AFTER_REPLY"
    by (simp add: CLIENT_PENDING_WRITE_def CLIENT_CLOSE_AFTER_REPLY_def)
  then show ?thesis by (simp add: has_flag_def and.assoc)
qed

lemma restD:
  assumes "rest x' = rest x"
  shows "cid (cl x') = cid (cl x)" "fd (cl x') = fd (cl x)" "argv (cl x') = argv (cl x)"
    "query (cl x') = query (cl x)" "req_type (cl x') = req_type (cl x)"
    "multibulk_len (cl x') = multibulk_len (cl x)" "bulk_len (cl x') = bulk_len (cl x)"
    "buf_sent_len (cl x') = buf_sent_len (cl x)"
    "objs (store x') = objs (store x)" "ctx.more x' = ctx.more x"
    "accepts (cl x') = accepts (cl x)"
proof -
  have c: "cl (rest x') = cl (rest x)" and s: "store (rest x') = store (rest x)" "ctx.more (rest x') = ctx.more (rest x)"
    using assms by simp_all
  show "cid (cl x') = cid (cl x)" "argv (cl x') = argv (cl x)"
    "query (cl x') = query (cl x)" "req_type (cl x') = req_type (cl x)"
    "multibulk_len (cl x') = multibulk_len (cl x)" "bulk_len (cl x') = bulk_len (cl x)"
    "buf_sent_len (cl x') = buf_sent_len (cl x)"
    using arg_cong [OF c, of cid] arg_cong [OF c, of argv] arg_cong [OF c, of query] arg_cong [OF c, of req_type]
      arg_cong [OF c, of multibulk_len] arg_cong [OF c, of bulk_len] arg_cong [OF c, of buf_sent_len]
    by (simp_all add: rest_def)
  show f: "fd (cl x') = fd (cl x)" using arg_cong [OF c, of fd] by (simp add: rest_def)
  show "objs (store x') = objs (store x)" "ctx.more x' = ctx.more x"
    using arg_cong [OF s(1), of objs] s(2) by (simp_all add: rest_def)
  have "flags (cl x') AND NOT CLIENT_PENDING_WRITE = flags (cl x) AND NOT CLIENT_PENDING_WRITE"
    using arg_cong [OF c, of flags] by (simp add: rest_def)
  then show "accepts (cl x') = accepts (cl x)"
    using f flag_close_rest by (metis accepts_def)
qed

text \<open>
  The pending-write flag says that the client is in the list. \<open>emits x s x'\<close>: the
  bytes \<open>s\<close> are appended to what the peer will receive if the client takes output,
  nothing else changes, and a client that now has output is scheduled for writing.
\<close>

definition flagged :: "('d, 'z) ctx_scheme \<Rightarrow> bool" where
  "flagged x \<longleftrightarrow> (has_flag (flags (cl x)) CLIENT_PENDING_WRITE \<longrightarrow> cid (cl x) \<in> set (pending_writes x))"

definition emits :: "('d, 'z) ctx_scheme \<Rightarrow> string \<Rightarrow> ('d, 'z) ctx_scheme \<Rightarrow> bool" where
  "emits x s x' \<longleftrightarrow>
     out_wf (cl x') \<and> outstanding (cl x') = outstanding (cl x) @ (if accepts (cl x) then s else []) \<and>
     rest x' = rest x \<and> next_addr (store x) \<le> next_addr (store x') \<and>
     (\<exists>p. pending_writes x' = p @ pending_writes x \<and> set p \<subseteq> {cid (cl x)}) \<and>
     (flagged x \<longrightarrow> flagged x' \<and>
        (client_has_pending_replies (cl x') \<longrightarrow>
           client_has_pending_replies (cl x) \<or> cid (cl x) \<in> set (pending_writes x')))"

lemma emits_refl: "out_wf (cl x) \<Longrightarrow> emits x [] x"
  by (auto simp: emits_def)

lemma emits_trans:
  assumes "emits x s y" and "emits y t z"
  shows "emits x (s @ t) z"
proof -
  have "accepts (cl y) = accepts (cl x)" "cid (cl y) = cid (cl x)"
    using assms(1) restD [of y x] by (auto simp: emits_def)
  moreover obtain p q where "pending_writes y = p @ pending_writes x" "set p \<subseteq> {cid (cl x)}"
    "pending_writes z = q @ pending_writes y" "set q \<subseteq> {cid (cl x)}"
    using assms calculation(2) unfolding emits_def by metis
  then have "\<exists>p. pending_writes z = p @ pending_writes x \<and> set p \<subseteq> {cid (cl x)}"
    by (intro exI [of _ "q @ p"]) auto
  moreover have "cid (cl x) \<in> set (pending_writes y) \<Longrightarrow> cid (cl x) \<in> set (pending_writes z)"
    using assms(2) by (auto simp: emits_def)
  ultimately show ?thesis
    using assms unfolding emits_def by (auto split: if_splits)
qed

lemma concat_append_last: "r \<noteq> [] \<Longrightarrow> concat (append_last r s) = concat r @ s"
proof -
  assume "r \<noteq> []"
  then have "concat r = concat (butlast r) @ last r"
    using concat_append [of "butlast r" "[last r]"] by simp
  then show ?thesis by (simp add: append_last_def)
qed

lemma hd_append_last: "r \<noteq> [] \<Longrightarrow> append_last r s \<noteq> [] \<and> length (hd r) \<le> length (hd (append_last r s))"
  by (cases r) (auto simp: append_last_def)

lemma out_wf_sent: "out_wf c \<Longrightarrow> buf_sent_len c \<le> length (buf c @ concat (reply c))"
  by (cases "reply c") (auto simp: out_wf_def split: if_splits)

lemma add_reply_list_eqs:
  "add_reply_sds_to_list c s = add_reply_object_to_list c s"
  "add_reply_str_to_list c s = add_reply_object_to_list c s"
  by (simp_all add: add_reply_sds_to_list_def add_reply_str_to_list_def add_reply_object_to_list_def Let_def)

text \<open>Queueing in the list: the strings of the list then say \<open>s\<close> after what they said.\<close>

lemma add_list_shape:
  assumes "\<not> has_flag (flags c) CLIENT_CLOSE_AFTER_REPLY"
  obtains r where "add_reply_object_to_list c s = c\<lparr>reply := r, replied_len := add64 (replied_len c) (length s)\<rparr>"
    and "concat r = concat (reply c) @ s" and "r \<noteq> []"
    and "reply c \<noteq> [] \<Longrightarrow> length (hd (reply c)) \<le> length (hd r)"
proof (cases "reply c \<noteq> [] \<and> add64 (length (last (reply c))) (length s) \<le> PROTO_REPLY_MAX_LEN")
  case True
  show ?thesis
    by (rule that [of "append_last (reply c) s"])
      (use True assms hd_append_last in \<open>simp_all add: add_reply_object_to_list_def concat_append_last\<close>)
next
  case False
  show ?thesis
    by (rule that [of "reply c @ [s]"]) (use False assms in \<open>auto simp: add_reply_object_to_list_def\<close>)
qed

lemma add_list_out:
  assumes "out_wf c" and "\<not> has_flag (flags c) CLIENT_CLOSE_AFTER_REPLY"
  shows "\<exists>r n. add_reply_object_to_list c s = c\<lparr>reply := r, replied_len := n\<rparr> \<and>
     out_wf (c\<lparr>reply := r, replied_len := n\<rparr>) \<and> outstanding (c\<lparr>reply := r, replied_len := n\<rparr>) = outstanding c @ s"
proof -
  obtain r where r: "add_reply_object_to_list c s = c\<lparr>reply := r, replied_len := add64 (replied_len c) (length s)\<rparr>"
    "concat r = concat (reply c) @ s" "r \<noteq> []" "reply c \<noteq> [] \<Longrightarrow> length (hd (reply c)) \<le> length (hd r)"
    using add_list_shape [OF assms(2)] by blast
  let ?c = "c\<lparr>reply := r, replied_len := add64 (replied_len c) (length s)\<rparr>"
  have "outstanding ?c = outstanding c @ s"
    using out_wf_sent [OF assms(1)] by (simp add: outstanding_def r(2))
  moreover have "out_wf ?c"
    using assms(1) r(2,3,4) by (auto simp: out_wf_def add64_def mod_add_left_eq split: if_splits)
  ultimately show ?thesis using r(1) by blast
qed

text \<open>The common body of the reply functions once the client is prepared.\<close>

definition put :: "client \<Rightarrow> string \<Rightarrow> client" where
  "put c s = (case add_reply_to_buffer c s of (True, c) \<Rightarrow> c | (False, c) \<Rightarrow> add_reply_object_to_list c s)"

lemma put_out:
  assumes "out_wf c"
  shows "\<exists>r b n. put c s = c\<lparr>reply := r, buf := b, replied_len := n\<rparr> \<and> out_wf (put c s) \<and>
     outstanding (put c s) = outstanding c @ (if has_flag (flags c) CLIENT_CLOSE_AFTER_REPLY then [] else s)"
proof -
  have avail: "sub64 PROTO_REPLY_MAX_LEN (length (buf c)) = PROTO_REPLY_MAX_LEN - length (buf c)"
    using assms by (auto simp: out_wf_def PROTO_REPLY_MAX_LEN_def)
  consider (closing) "has_flag (flags c) CLIENT_CLOSE_AFTER_REPLY"
    | (buffer) "\<not> has_flag (flags c) CLIENT_CLOSE_AFTER_REPLY" "reply c = []"
        "length s \<le> PROTO_REPLY_MAX_LEN - length (buf c)"
    | (list) "\<not> has_flag (flags c) CLIENT_CLOSE_AFTER_REPLY"
        "reply c \<noteq> [] \<or> length s > PROTO_REPLY_MAX_LEN - length (buf c)"
    by fastforce
  then show ?thesis
  proof cases
    case closing
    then have "put c s = c" by (simp add: put_def add_reply_to_buffer_def Let_def)
    with closing assms show ?thesis
      by (intro exI [of _ "reply c"] exI [of _ "buf c"] exI [of _ "replied_len c"]) simp
  next
    case buffer
    then have p: "put c s = c\<lparr>buf := buf c @ s\<rparr>"
      by (simp add: put_def add_reply_to_buffer_def Let_def avail)
    have "out_wf (c\<lparr>buf := buf c @ s\<rparr>)" "outstanding (c\<lparr>buf := buf c @ s\<rparr>) = outstanding c @ s"
      using assms buffer out_wf_sent [OF assms] by (auto simp: out_wf_def outstanding_def split: if_splits)
    moreover have "c\<lparr>buf := buf c @ s\<rparr> = c\<lparr>reply := reply c, buf := buf c @ s, replied_len := replied_len c\<rparr>"
      by simp
    ultimately show ?thesis using p buffer(1) by metis
  next
    case list
    then have p: "put c s = add_reply_object_to_list c s"
      by (auto simp: put_def add_reply_to_buffer_def Let_def avail)
    obtain r n where "add_reply_object_to_list c s = c\<lparr>reply := r, replied_len := n\<rparr>"
      "out_wf (c\<lparr>reply := r, replied_len := n\<rparr>)" "outstanding (c\<lparr>reply := r, replied_len := n\<rparr>) = outstanding c @ s"
      using add_list_out [OF assms list(1)] by blast
    moreover have "c\<lparr>reply := r, replied_len := n\<rparr> = c\<lparr>reply := r, buf := buf c, replied_len := n\<rparr>" by simp
    ultimately show ?thesis using p list(1) by metis
  qed
qed

text \<open>One string through the whole of a reply function.\<close>

definition send :: "('d, 'z) ctx_scheme \<Rightarrow> string \<Rightarrow> ('d, 'z) ctx_scheme" where
  "send x s = (case prepare_client_to_write x of (False, x) \<Rightarrow> x | (True, x) \<Rightarrow> x\<lparr>cl := put (cl x) s\<rparr>)"

lemma reply_add_str_send: "reply_add_str x s = send x s"
  by (simp add: reply_add_str_def send_def put_def add_reply_list_eqs split: prod.split bool.split)

lemma reply_add_sds_send: "reply_add_sds x s = send x s"
  by (simp add: reply_add_sds_def send_def put_def add_reply_list_eqs split: prod.split bool.split)

lemma put_obj_str_put: "put_obj_str x s = x\<lparr>cl := put (cl x) s\<rparr>"
  by (simp add: put_obj_str_def put_def split: prod.split bool.split)

lemma prepare_out:
  assumes "out_wf (cl x)"
  shows "out_wf (cl (snd (prepare_client_to_write x)))"
    and "outstanding (cl (snd (prepare_client_to_write x))) = outstanding (cl x)"
    and "rest (snd (prepare_client_to_write x)) = rest x"
  using assms
  by (auto simp: prepare_client_to_write_def Let_def out_wf_def outstanding_def rest_simps split: if_splits)

lemma rest_put:
  assumes "put (cl x) s = (cl x)\<lparr>reply := r, buf := b, replied_len := n\<rparr>"
  shows "rest (x\<lparr>cl := put (cl x) s\<rparr>) = rest x"
  by (simp add: assms rest_def)

lemma send_emits:
  assumes "out_wf (cl x)"
  shows "emits x s (send x s)"
proof (cases "fd (cl x) \<le> 0")
  case True
  then have "send x s = x" by (simp add: send_def prepare_client_to_write_def Let_def)
  with True assms show ?thesis by (auto simp: emits_def accepts_def)
next
  case False
  define y where "y = snd (prepare_client_to_write x)"
  have y: "prepare_client_to_write x = (True, y)"
    using False by (auto simp: y_def prepare_client_to_write_def Let_def)
  note out = prepare_out [OF assms, folded y_def]
  obtain r b n where put: "put (cl y) s = (cl y)\<lparr>reply := r, buf := b, replied_len := n\<rparr>" "out_wf (put (cl y) s)"
    "outstanding (put (cl y) s) = outstanding (cl y) @ (if has_flag (flags (cl y)) CLIENT_CLOSE_AFTER_REPLY then [] else s)"
    using put_out [OF out(1)] by blast
  have send: "send x s = y\<lparr>cl := put (cl y) s\<rparr>" by (simp add: send_def y)
  have acc: "accepts (cl x) \<longleftrightarrow> \<not> has_flag (flags (cl y)) CLIENT_CLOSE_AFTER_REPLY"
    using restD(2,11) [OF out(3)] False by (auto simp: accepts_def)
  have p: "(\<exists>p. pending_writes y = p @ pending_writes x \<and> set p \<subseteq> {cid (cl x)}) \<and> store y = store x \<and>
      (flagged x \<longrightarrow> flagged y \<and> (client_has_pending_replies (cl x) \<or> cid (cl x) \<in> set (pending_writes y)))"
    unfolding y_def using False by (auto simp: prepare_client_to_write_def Let_def flagged_def split: if_splits)
  have fl: "flags (put (cl y) s) = flags (cl y)" "cid (put (cl y) s) = cid (cl y)" by (simp_all add: put(1))
  show ?thesis
    unfolding emits_def send using put(2,3) acc p rest_put [OF put(1)] out(2,3) fl
    by (auto simp: flagged_def)
qed

section \<open>What each reply function sends\<close>

text \<open>A context whose output is in order and whose store gives out fresh addresses.\<close>

definition ready :: "('d, 'z) ctx_scheme \<Rightarrow> bool" where
  "ready x \<longleftrightarrow> out_wf (cl x) \<and> (\<forall>a \<ge> next_addr (store x). objs (store x) a = None)"

definition says :: "('d, 'z) ctx_scheme result \<Rightarrow> ('d, 'z) ctx_scheme \<Rightarrow> string \<Rightarrow> bool" where
  "says m x s \<longleftrightarrow> (\<exists>x'. m = Inr x' \<and> emits x s x')"

lemma emits_ready: "emits x s x' \<Longrightarrow> ready x \<Longrightarrow> ready x'"
  using restD(9) [of x' x] by (auto simp: emits_def ready_def)

lemma emits_rest: "emits x s x' \<Longrightarrow> rest x' = rest x"
  by (simp add: emits_def)

lemma emits_closed: "out_wf (cl x) \<Longrightarrow> \<not> accepts (cl x) \<Longrightarrow> emits x s x"
  by (simp add: emits_def)

lemma says_bind:
  assumes "says m x s" and "ready x" and "\<And>y. ready y \<Longrightarrow> rest y = rest x \<Longrightarrow> says (f y) y t" and "u = s @ t"
  shows "says (rbind m f) x u"
proof -
  obtain y where y: "m = Inr y" "emits x s y" using assms(1) by (auto simp: says_def)
  have "says (f y) y t" by (intro assms(3) emits_ready [OF y(2) assms(2)] emits_rest [OF y(2)])
  with y show ?thesis using emits_trans [OF y(2)] assms(4) by (auto simp: says_def)
qed

lemma says_send: "ready x \<Longrightarrow> says (Inr (send x s)) x s"
  using send_emits [of x s] by (simp add: says_def ready_def)

lemma says_after_send:
  assumes "ready x" and "\<And>y. ready y \<Longrightarrow> rest y = rest x \<Longrightarrow> says (f y) y t"
  shows "says (f (send x s)) x (s @ t)"
  using says_bind [OF says_send [OF assms(1), of s] assms(1), of f t] assms(2) by simp

lemma decr_fresh:
  assumes "objs st (next_addr st) = None" and "createStringObject st s = (a, st1)"
  shows "decrRefCount st1 a = Inr (st\<lparr>next_addr := next_addr st + 1\<rparr>)"
    and "\<exists>d. get_obj st1 a = Inr d \<and> ptr_sds d = Inr s"
  using assms
  by (auto simp: createStringObject_def createEmbeddedStringObject_def createRawStringObject_def createObject_def
      alloc_def get_obj_def ptr_sds_def decrRefCount_def numeral_2_eq_2 free_contents_def free_mem_def
      fun_upd_idem split: if_splits)

lemma buffer_full: "\<not> fst (add_reply_to_buffer c s) \<Longrightarrow> add_reply_to_buffer c s = (False, c)"
  unfolding add_reply_to_buffer_def Let_def by (simp split: if_split_asm)

lemma emits_store:
  assumes "emits x s y" and "next_addr (store y) \<le> n"
  shows "emits x s (y\<lparr>store := (store y)\<lparr>next_addr := n\<rparr>\<rparr>)"
proof -
  have "rest (y\<lparr>store := (store y)\<lparr>next_addr := n\<rparr>\<rparr>) = rest y" by (simp add: rest_def)
  then show ?thesis using assms by (simp add: emits_def flagged_def)
qed

lemma reply_add_obj_says:
  fixes x :: "('d, 'z) ctx_scheme"
  assumes x: "ready x" and r: "string_ok r"
  shows "says (reply_add_obj x r) x (obj_str r)"
proof (cases "fd (cl x) \<le> 0")
  case True
  then have "reply_add_obj x r = Inr x" by (simp add: reply_add_obj_def prepare_client_to_write_def Let_def)
  moreover have "emits x (obj_str r) x"
    using True x by (intro emits_closed) (simp_all add: ready_def accepts_def)
  ultimately show ?thesis by (simp add: says_def)
next
  case False
  define y where "y = snd (prepare_client_to_write x)"
  have y: "prepare_client_to_write x = (True, y)"
    using False by (auto simp: y_def prepare_client_to_write_def Let_def)
  have st: "store y = store x" by (auto simp: y_def prepare_client_to_write_def Let_def)
  have send: "send x s = y\<lparr>cl := put (cl y) s\<rparr>" for s by (simp add: send_def y)
  have em: "emits x s (y\<lparr>cl := put (cl y) s\<rparr>)" for s
    using send_emits [of x s] x by (simp add: send ready_def)
  from r show ?thesis
  proof (cases rule: string_okE)
    case (1 s)
    then show ?thesis using em [of s] by (simp add: says_def reply_add_obj_def y ptr_sds_def put_obj_str_put)
  next
    case (2 n)
    let ?s = "dec n"
    have p: "print_ll 32 n = ?s" using 2 by (simp add: print_ll_dec)
    show ?thesis
    proof (cases "length (reply (cl y)) = 0 \<and> sub64 PROTO_REPLY_MAX_LEN (length (buf (cl y))) \<ge> 32 \<and>
        fst (add_reply_to_buffer (cl y) ?s)")
      case True
      then obtain c where c: "add_reply_to_buffer (cl y) ?s = (True, c)" by (cases "add_reply_to_buffer (cl y) ?s") auto
      then have "put (cl y) ?s = c" by (simp add: put_def)
      then have "reply_add_obj x r = Inr (y\<lparr>cl := put (cl y) ?s\<rparr>)"
        using True 2 by (simp add: reply_add_obj_def y ptr_long_def p c Let_def)
      with em [of ?s] 2 show ?thesis by (simp add: says_def)
    next
      case nofast: False
      obtain a st1 where a: "createStringObject (store y) ?s = (a, st1)" by fastforce
      have fresh: "objs (store y) (next_addr (store y)) = None" using x st by (simp add: ready_def)
      note d = decr_fresh [OF fresh a]
      have fs: "add_reply_to_buffer (cl y) ?s = (False, cl y)"
        if "reply (cl y) = [] \<and> 32 \<le> sub64 PROTO_REPLY_MAX_LEN (length (buf (cl y)))"
        using that nofast by (intro buffer_full) auto
      obtain e where e: "get_obj st1 a = Inr e" "ptr_sds e = Inr ?s" using d(2) by blast
      have "reply_add_obj x r =
          Inr (y\<lparr>cl := put (cl y) ?s, store := (store y)\<lparr>next_addr := next_addr (store y) + 1\<rparr>\<rparr>)"
        using 2(1-3) d(1) by (simp add: reply_add_obj_def y ptr_long_def p put_obj_str_put fs Let_def a e)
      with emits_store [OF em [of ?s], of "next_addr (store y) + 1"] 2 show ?thesis by (simp add: says_def)
    qed
  qed
qed

lemma shared_string_ok [simp]: "string_ok (shared_string s)" "obj_str (shared_string s) = s"
  by (simp_all add: shared_string_def string_ok_def obj_str_def)

lemmas shared_defs = shared_crlf_def shared_ok_def shared_err_def shared_czero_def shared_cone_def
  shared_nullbulk_def shared_pong_def shared_wrongtypeerr_def shared_mbulkhdr_def shared_bulkhdr_def

lemma reply_add_shared_says: "ready x \<Longrightarrow> says (reply_add_obj x (shared_string s)) x s"
  using reply_add_obj_says [of x "shared_string s"] by simp

lemma ready_out: "ready x \<Longrightarrow> out_wf (cl x)"
  by (simp add: ready_def)

lemma send_ready: "ready x \<Longrightarrow> ready (send x s)"
  by (rule emits_ready [OF send_emits [OF ready_out]])

lemma send3_says:
  assumes "ready x"
  shows "says (Inr (send (send (send x a) b) c)) x (a @ b @ c)"
proof -
  note r = assms send_ready [OF assms] send_ready [OF send_ready [OF assms]]
  have "emits x ((a @ b) @ c) (send (send (send x a) b) c)"
    by (rule emits_trans [OF emits_trans]) (rule send_emits [OF ready_out], rule r)+
  then show ?thesis by (simp add: says_def)
qed

lemma reply_add_str_says: "ready x \<Longrightarrow> says (Inr (reply_add_str x s)) x s"
  by (simp add: reply_add_str_send says_send)

lemma reply_add_err_says: "ready x \<Longrightarrow> says (Inr (reply_add_err x s)) x (''-ERR '' @ cstr s @ CRLF)"
  unfolding reply_add_err_def reply_add_err_len_def reply_add_str_send by (rule send3_says)

lemma reply_add_err_format_says:
  "ready x \<Longrightarrow> says (Inr (reply_add_err_format x s)) x
     (''-ERR '' @ map (\<lambda>ch. if ch = CR \<or> ch = LF then CHR '' '' else ch) s @ CRLF)"
  unfolding reply_add_err_format_def reply_add_err_len_def reply_add_str_send by (rule send3_says)

lemma reply_add_status_says: "ready x \<Longrightarrow> says (Inr (reply_add_status x s)) x (''+'' @ cstr s @ CRLF)"
  unfolding reply_add_status_def reply_add_status_len_def reply_add_str_send by (rule send3_says)

lemma reply_add_longlong_with_prefix_says:
  assumes "ready x" and "LLONG_MIN \<le> n" and "n \<le> LLONG_MAX"
  shows "says (reply_add_longlong_with_prefix x n p) x (p # dec n @ CRLF)"
proof -
  have "print_ll 127 n = dec n" using assms(2,3) by (simp add: print_ll_dec)
  then show ?thesis
    using assms reply_add_str_says [OF assms(1)] reply_add_shared_says [OF assms(1)]
    by (auto simp: reply_add_longlong_with_prefix_def shared_mbulkhdr_def shared_bulkhdr_def)
qed

lemma reply_add_longlong_says:
  "ready x \<Longrightarrow> LLONG_MIN \<le> n \<Longrightarrow> n \<le> LLONG_MAX \<Longrightarrow> says (reply_add_longlong x n) x (CHR '':'' # dec n @ CRLF)"
  unfolding reply_add_longlong_def by (rule reply_add_longlong_with_prefix_says)

lemma reply_add_multi_bulk_len_says:
  assumes "ready x" and "0 \<le> n" and "n \<le> LLONG_MAX"
  shows "says (reply_add_multi_bulk_len x n) x (CHR ''*'' # dec n @ CRLF)"
proof -
  have "LLONG_MIN \<le> n" using assms(2) by (simp add: LLONG_MIN_def)
  then show ?thesis
    using assms reply_add_longlong_with_prefix_says [OF assms(1), of n "CHR ''*''"] reply_add_shared_says [OF assms(1)]
    by (auto simp: reply_add_multi_bulk_len_def shared_mbulkhdr_def)
qed

text \<open>The digit count of \<^verbatim>\<open>reply_add_bulk_len\<close>.\<close>

lemma length_udec_div: "length (udec n) = (if n < 10 then 1 else length (udec (n div 10)) + 1)"
  by (subst udec.simps) simp

lemma count_digits_nat: "count_digits (int n) l + 1 = l + length (udec n)"
proof (induction n arbitrary: l rule: less_induct)
  case (less n)
  have q: "sgn (int n) * (\<bar>int n\<bar> div 10) = int (n div 10)"
    by (cases "n = 0") (simp_all add: zdiv_int)
  show ?case
  proof (cases "n div 10 = 0")
    case True
    then have "n < 10" by auto
    then show ?thesis using True q by (subst count_digits.simps) (simp add: length_udec_div [of n] Let_def)
  next
    case False
    then have n: "\<not> n < 10" by auto
    then have "count_digits (int (n div 10)) (l + 1) + 1 = l + 1 + length (udec (n div 10))"
      by (intro less) simp
    moreover have "count_digits (int n) l = count_digits (int (n div 10)) (l + 1)"
      using False q by (subst count_digits.simps) (simp add: Let_def)
    ultimately show ?thesis using n by (simp add: length_udec_div [of n])
  qed
qed

lemma count_digits_neg: "count_digits (- int n) l = count_digits (int n) l"
proof (induction n arbitrary: l rule: less_induct)
  case (less n)
  have q: "sgn (int n) * (\<bar>int n\<bar> div 10) = int (n div 10)" "sgn (- int n) * (\<bar>- int n\<bar> div 10) = - int (n div 10)"
    by (cases "n = 0"; simp add: zdiv_int)+
  show ?case
  proof (cases "n div 10 = 0")
    case True
    then show ?thesis using q by (subst (1 2) count_digits.simps) (simp only: Let_def, simp)
  next
    case False
    then have "n div 10 < n" by auto
    then have "count_digits (- int (n div 10)) (l + 1) = count_digits (int (n div 10)) (l + 1)" by (rule less)
    then show ?thesis using q False by (subst (1 2) count_digits.simps) (simp only: Let_def, simp)
  qed
qed


lemma bulk_obj_len_ok: "string_ok r \<Longrightarrow> bulk_obj_len r = Inr (length (obj_str r))"
proof (erule string_okE)
  fix n assume n: "ptr r = PInt n" "\<not> sdsEncodedObject r" "obj_str r = dec n" "LLONG_MIN \<le> n" "n \<le> LLONG_MAX"
  show ?thesis
  proof (cases "n < 0")
    case False
    then have "count_digits n 1 = length (dec n)"
      using count_digits_nat [of "nat n" 1] by (simp add: dec_def)
    with n False show ?thesis by (simp add: bulk_obj_len_def ptr_long_def)
  next
    case True
    let ?m = "nat (- n)"
    have "to_ll (- n) = int ?m \<or> to_ll (- n) = - int ?m"
    proof (cases "n = LLONG_MIN")
      case True
      then have "to_ll (- n) = LLONG_MIN" by (simp add: LLONG_MIN_def to_ll_def)
      with True show ?thesis by (simp add: LLONG_MIN_def)
    next
      case False
      then have "to_ll (- n) = - n"
        unfolding to_ll_def using n(4,5) \<open>n < 0\<close>
        by (intro signed_take_bit_int_eq_self) (auto simp: LLONG_MIN_def LLONG_MAX_def)
      with True show ?thesis by simp
    qed
    then have "count_digits (to_ll (- n)) 2 + 1 = 2 + length (udec ?m)"
      using count_digits_neg count_digits_nat by metis
    with n True show ?thesis by (simp add: bulk_obj_len_def ptr_long_def dec_def)
  qed
qed (simp add: bulk_obj_len_def ptr_sds_def)

text \<open>A bulk string on the wire.\<close>

definition bulk :: "string \<Rightarrow> string" where
  "bulk s = CHR ''$'' # dec (int (length s)) @ CRLF @ s @ CRLF"

lemma reply_add_bulk_obj_says:
  assumes x: "ready x" and r: "string_ok r" and len: "length (obj_str r) < 2 ^ 63"
  shows "says (reply_add_bulk_obj x r) x (bulk (obj_str r))"
proof -
  let ?s = "obj_str r"
  have "says (reply_add_bulk_len x r) x (CHR ''$'' # dec (int (length ?s)) @ CRLF)"
    using reply_add_shared_says [OF x] reply_add_longlong_with_prefix_says [OF x, of "int (length ?s)" "CHR ''$''"] len
    by (simp add: reply_add_bulk_len_def bulk_obj_len_ok [OF r] shared_bulkhdr_def LLONG_MIN_def LLONG_MAX_def)
  then show ?thesis
    unfolding reply_add_bulk_obj_def bulk_def
    by (rule says_bind [OF _ x])
      (auto intro!: says_bind [OF reply_add_obj_says [OF _ r]] reply_add_shared_says simp: shared_crlf_def)
qed

lemma send_crlf_says: "ready y \<Longrightarrow> says (reply_add_obj (send y s) shared_crlf) y (s @ CRLF)"
  by (rule says_after_send [where f = "\<lambda>y. reply_add_obj y shared_crlf"])
    (simp_all add: shared_crlf_def reply_add_shared_says)

lemma reply_add_bulk_cbuf_says:
  assumes x: "ready x" and len: "length s < 2 ^ 63"
  shows "says (reply_add_bulk_cbuf x s) x (bulk s)"
proof -
  have "says (reply_add_longlong_with_prefix x (int (length s)) (CHR ''$'')) x (CHR ''$'' # dec (int (length s)) @ CRLF)"
    using len by (intro reply_add_longlong_with_prefix_says x) (simp_all add: LLONG_MIN_def LLONG_MAX_def)
  then show ?thesis
    unfolding reply_add_bulk_cbuf_def bulk_def reply_add_str_send
    by (rule says_bind [OF _ x])
      (simp_all add: send_crlf_says)
qed

lemma reply_add_bulk_longlong_says:
  assumes x: "ready x" and n: "LLONG_MIN \<le> n" "n \<le> LLONG_MAX"
  shows "says (reply_add_bulk_longlong x n) x (bulk (dec n))"
  using reply_add_bulk_cbuf_says [OF x, of "dec n"] length_dec [OF n] n
  by (simp add: reply_add_bulk_longlong_def print_ll_dec)

lemma reply_add_bulk_sds_says:
  assumes x: "ready x" and len: "length s < 2 ^ 32"
  shows "says (reply_add_bulk_sds x s) x (bulk s)"
proof -
  have d: "udec (length s mod 2 ^ 32) = dec (int (length s))" using len by (simp add: dec_def)
  have "says (reply_add_obj (send (send x (CHR ''$'' # dec (int (length s)) @ CRLF)) s) shared_crlf) x
      ((CHR ''$'' # dec (int (length s)) @ CRLF) @ s @ CRLF)"
    by (rule says_after_send [where f = "\<lambda>y. reply_add_obj (send y s) shared_crlf", OF x])
      (simp_all add: send_crlf_says)
  then show ?thesis unfolding reply_add_bulk_sds_def d reply_add_sds_send bulk_def by simp
qed

section \<open>What writing does\<close>

definition same_client :: "client \<Rightarrow> client \<Rightarrow> bool" where
  "same_client c c' \<longleftrightarrow>
     c' = c\<lparr>reply := reply c', buf := buf c', buf_sent_len := buf_sent_len c', replied_len := replied_len c'\<rparr>"

lemma same_client_refl: "same_client c c"
  by (simp add: same_client_def)

lemma same_client_trans:
  assumes "same_client a b" and "same_client b c"
  shows "same_client a c"
proof -
  have "c = b\<lparr>reply := reply c, buf := buf c, buf_sent_len := buf_sent_len c, replied_len := replied_len c\<rparr>"
    using assms(2) by (simp add: same_client_def)
  also have "\<dots> = a\<lparr>reply := reply c, buf := buf c, buf_sent_len := buf_sent_len c, replied_len := replied_len c\<rparr>"
    using arg_cong [OF assms(1) [unfolded same_client_def],
        of "\<lambda>b. b\<lparr>reply := reply c, buf := buf c, buf_sent_len := buf_sent_len c, replied_len := replied_len c\<rparr>"]
    by simp
  finally show ?thesis by (simp add: same_client_def)
qed

lemma same_clientD:
  assumes "same_client c c'"
  shows "cid c' = cid c" "fd c' = fd c" "flags c' = flags c" "argv c' = argv c" "query c' = query c"
proof -
  note eq = arg_cong [OF assms [unfolded same_client_def]]
  show "cid c' = cid c" using eq [of cid] by simp
  show "fd c' = fd c" using eq [of fd] by simp
  show "flags c' = flags c" using eq [of flags] by simp
  show "argv c' = argv c" using eq [of argv] by simp
  show "query c' = query c" using eq [of query] by simp
qed

lemma taken_drop: "\<exists>k. taken w s = take k s"
  by (cases w) (auto simp: taken_def intro: exI [of _ 0])

text \<open>One write, from the buffer or from the head of the list.\<close>

definition moved :: "client \<Rightarrow> string \<Rightarrow> client \<Rightarrow> bool" where
  "moved c bs c' \<longleftrightarrow> out_wf c' \<and> same_client c c' \<and> outstanding c = bs @ outstanding c'"

lemma moved_trans: "moved a s b \<Longrightarrow> moved b t c \<Longrightarrow> moved a (s @ t) c"
  using same_client_trans by (auto simp: moved_def)

lemma write_buf_moved:
  fixes c :: client
  defines "c1 bs \<equiv> c\<lparr>buf_sent_len := buf_sent_len c + length bs\<rparr>"
  assumes wf: "out_wf c" and ne: "buf c \<noteq> []" and bs: "bs = taken w (drop (buf_sent_len c) (buf c))" "bs \<noteq> []"
  shows "moved c bs (if buf_sent_len (c1 bs) = length (buf (c1 bs)) then (c1 bs)\<lparr>buf := [], buf_sent_len := 0\<rparr> else c1 bs)"
proof -
  obtain k where k: "bs = take k (drop (buf_sent_len c) (buf c))" using taken_drop bs(1) by blast
  have len: "buf_sent_len c + length bs \<le> length (buf c)" using wf ne k by (auto simp: out_wf_def)
  have "drop (buf_sent_len c) (buf c) = bs @ drop (buf_sent_len c + length bs) (buf c)"
    using k len by (metis append_take_drop_id drop_drop add.commute length_take min_def take_all drop_all nle_le)
  then have out: "outstanding c = bs @ drop (buf_sent_len c + length bs) (buf c @ concat (reply c))"
    using wf ne len by (simp add: outstanding_def out_wf_def)
  have pos: "0 < length bs" using bs(2) by simp
  show ?thesis
    using wf ne out len pos
    by (auto simp: moved_def c1_def out_wf_def same_client_def outstanding_def split: if_splits)
qed

lemma write_list_moved:
  fixes c :: client
  defines "c1 bs \<equiv> c\<lparr>buf_sent_len := buf_sent_len c + length bs\<rparr>"
  assumes wf: "out_wf c" and e: "buf c = []" and ne: "reply c = h # t"
    and bs: "bs = taken w (drop (buf_sent_len c) h)" "bs \<noteq> []"
  shows "moved c bs (if buf_sent_len (c1 bs) = length h
     then (c1 bs)\<lparr>reply := tl (reply (c1 bs)), buf_sent_len := 0, replied_len := sub64 (replied_len (c1 bs)) (length h)\<rparr>
     else c1 bs)"
proof -
  obtain k where k: "bs = take k (drop (buf_sent_len c) h)" using taken_drop bs(1) by blast
  have lt: "buf_sent_len c < length h"
  proof (rule ccontr)
    assume "\<not> ?thesis"
    then have "bs = []" using k by simp
    with bs(2) show False by contradiction
  qed
  have len: "buf_sent_len c + length bs \<le> length h" using k lt by auto
  have "drop (buf_sent_len c) h = bs @ drop (buf_sent_len c + length bs) h"
    using k len by (metis append_take_drop_id drop_drop add.commute length_take min_def take_all drop_all nle_le)
  then have out: "outstanding c = bs @ drop (buf_sent_len c + length bs) (h @ concat t)"
    using e ne len by (simp add: outstanding_def)
  have r: "sub64 (replied_len c) (length h) = length (concat t) mod 2 ^ 64"
  proof -
    have "replied_len c = (length h + length (concat t)) mod 2 ^ 64" using wf ne by (simp add: out_wf_def)
    then have "(int (replied_len c) - int (length h)) mod 2 ^ 64 = int (length (concat t)) mod 2 ^ 64"
      by (simp add: zmod_int mod_diff_left_eq)
    then show ?thesis
      by (simp only: sub64_def) (metis nat_int of_nat_mod of_nat_numeral of_nat_power)
  qed
  show ?thesis
    using wf e ne out len bs(2) lt r
    by (auto simp: moved_def c1_def out_wf_def same_client_def outstanding_def)
qed

lemma drop_empty_moved:
  assumes "out_wf c" and "buf c = []" and "reply c = [] # t"
  shows "moved c [] (c\<lparr>reply := t\<rparr>)"
  using assms by (auto simp: moved_def out_wf_def same_client_def outstanding_def)

lemmas loop_simps = reply_write_loop.simps

lemma loop_done: "\<not> client_has_pending_replies c \<Longrightarrow> reply_write_loop m ws c sent = (c, sent, False)"
  by (subst loop_simps) simp

lemma loop_empty:
  "buf c = [] \<Longrightarrow> reply c = [] # t \<Longrightarrow> reply_write_loop m ws c sent = reply_write_loop m ws (c\<lparr>reply := t\<rparr>) sent"
  by (subst loop_simps) (simp add: client_has_pending_replies_def)

lemma loop_blocked:
  assumes "client_has_pending_replies c" and "next_write ws = ((w, used), ws')"
    and "buf c \<noteq> [] \<and> taken w (drop (buf_sent_len c) (buf c)) = [] \<or>
      buf c = [] \<and> hd (reply c) \<noteq> [] \<and> taken w (drop (buf_sent_len c) (hd (reply c))) = []"
  shows "reply_write_loop m ws c sent = (c, sent, w = WFail)"
  using assms by (subst loop_simps) (auto simp: Let_def)

lemma loop_wrote:
  assumes p: "client_has_pending_replies c" and nw: "next_write ws = ((w, used), ws')" and wf: "out_wf c"
    and bs: "buf c \<noteq> [] \<and> bs = taken w (drop (buf_sent_len c) (buf c)) \<or>
      buf c = [] \<and> hd (reply c) \<noteq> [] \<and> bs = taken w (drop (buf_sent_len c) (hd (reply c)))" "bs \<noteq> []"
  shows "\<exists>c2. moved c bs c2 \<and> length (reply c2) \<le> length (reply c) \<and>
     (length (sent @ bs) > NET_MAX_WRITES_PER_EVENT \<and> reply_write_loop m ws c sent = (c2, sent @ bs, False) \<or>
      reply_write_loop m ws c sent = reply_write_loop m ws' c2 (sent @ bs))"
proof (cases "buf c = []")
  case False
  let ?c1 = "c\<lparr>buf_sent_len := buf_sent_len c + length bs\<rparr>"
  let ?c2 = "if buf_sent_len ?c1 = length (buf ?c1) then ?c1\<lparr>buf := [], buf_sent_len := 0\<rparr> else ?c1"
  have m: "moved c bs ?c2" by (rule write_buf_moved [OF wf False]) (use bs False in auto)
  have "reply_write_loop m ws c sent =
      (if length (sent @ bs) > NET_MAX_WRITES_PER_EVENT \<and> (m = 0 \<or> used < m) then (?c2, sent @ bs, False)
       else reply_write_loop m ws' ?c2 (sent @ bs))"
    using p False bs nw by (subst loop_simps) (auto simp: Let_def)
  with m show ?thesis by (intro exI [of _ ?c2]) (auto split: if_splits)
next
  case True
  then obtain h t where ht: "reply c = h # t" using p by (cases "reply c") (auto simp: client_has_pending_replies_def)
  let ?c1 = "c\<lparr>buf_sent_len := buf_sent_len c + length bs\<rparr>"
  let ?c2 = "if buf_sent_len ?c1 = length h
      then ?c1\<lparr>reply := tl (reply ?c1), buf_sent_len := 0, replied_len := sub64 (replied_len ?c1) (length h)\<rparr> else ?c1"
  have m: "moved c bs ?c2" by (rule write_list_moved [OF wf True ht]) (use bs True ht in auto)
  have "reply_write_loop m ws c sent =
      (if length (sent @ bs) > NET_MAX_WRITES_PER_EVENT \<and> (m = 0 \<or> used < m) then (?c2, sent @ bs, False)
       else reply_write_loop m ws' ?c2 (sent @ bs))"
    using p True ht bs nw by (subst loop_simps) (auto simp: Let_def)
  with m show ?thesis by (intro exI [of _ ?c2]) (auto split: if_splits)
qed

lemma next_write_shorter: "next_write ws = ((w, used), ws') \<Longrightarrow> taken w s \<noteq> [] \<Longrightarrow> length ws' < length ws"
  by (cases ws) (auto simp: taken_def)

lemma reply_write_loop_moved:
  assumes "out_wf c" and "reply_write_loop m ws c sent = (c', sent', failed)"
  shows "\<exists>bs. sent' = sent @ bs \<and> moved c bs c'"
  using assms
proof (induction "length ws + length (reply c)" arbitrary: ws c sent rule: less_induct)
  case less
  have stop: "moved c [] c" using less.prems(1) same_client_refl by (simp add: moved_def)
  obtain w used ws' where nw: "next_write ws = ((w, used), ws')" by (metis prod.exhaust)
  define s where "s = (if buf c \<noteq> [] then buf c else hd (reply c))"
  let ?bs = "taken w (drop (buf_sent_len c) s)"
  consider (finished) "\<not> client_has_pending_replies c" | (empty) t where "buf c = []" "reply c = [] # t"
    | (blocked) "client_has_pending_replies c" "s \<noteq> []" "?bs = []"
    | (wrote) "client_has_pending_replies c" "s \<noteq> []" "?bs \<noteq> []"
    by (cases "buf c"; cases "reply c") (auto simp: client_has_pending_replies_def s_def)
  then show ?case
  proof cases
    case finished
    then show ?thesis using less.prems(2) stop by (auto simp: loop_done)
  next
    case empty
    note m = drop_empty_moved [OF less.prems(1) empty]
    obtain bs where "sent' = sent @ bs" "moved (c\<lparr>reply := t\<rparr>) bs c'"
      using less.hyps [of ws "c\<lparr>reply := t\<rparr>" sent] m less.prems(2) loop_empty [OF empty] empty
      by (auto simp: moved_def)
    then show ?thesis using moved_trans [OF m] by auto
  next
    case blocked
    then show ?thesis
      using less.prems(2) stop loop_blocked [OF blocked(1) nw, of m sent] by (auto simp: s_def split: if_splits)
  next
    case wrote
    obtain c2 where c2: "moved c ?bs c2" "length (reply c2) \<le> length (reply c)"
      "reply_write_loop m ws c sent = (c2, sent @ ?bs, False) \<or>
       reply_write_loop m ws c sent = reply_write_loop m ws' c2 (sent @ ?bs)"
      using loop_wrote [OF wrote(1) nw less.prems(1), where bs = ?bs and m = m and sent = sent] wrote(2,3) by (auto simp: s_def split: if_splits)
    from c2(3) show ?thesis
    proof
      assume "reply_write_loop m ws c sent = (c2, sent @ ?bs, False)"
      then show ?thesis using c2(1) less.prems(2) by auto
    next
      assume eq: "reply_write_loop m ws c sent = reply_write_loop m ws' c2 (sent @ ?bs)"
      have "length ws' + length (reply c2) < length ws + length (reply c)"
        using next_write_shorter [OF nw wrote(3)] c2(2) by linarith
      then obtain bs where "sent' = (sent @ ?bs) @ bs" "moved c2 bs c'"
        using less.hyps [of ws' c2 "sent @ ?bs"] c2(1) less.prems(2) eq by (auto simp: moved_def)
      then show ?thesis using moved_trans [OF c2(1)] by (metis append.assoc)
    qed
  qed
qed


lemma reply_write_loop_drains:
  assumes "out_wf c" and "length (outstanding c) \<le> length ws" and "\<forall>w\<in>set ws. \<exists>n u. w = (Wrote (Suc n), u)"
    and "length sent + length (outstanding c) \<le> NET_MAX_WRITES_PER_EVENT"
  shows "\<exists>c'. reply_write_loop m ws c sent = (c', sent @ outstanding c, False) \<and> \<not> client_has_pending_replies c'"
  using assms
proof (induction "length ws + length (reply c)" arbitrary: ws c sent rule: less_induct)
  case less
  consider (finished) "\<not> client_has_pending_replies c" | (empty) t where "buf c = []" "reply c = [] # t"
    | (put) s where "client_has_pending_replies c" "s = (if buf c \<noteq> [] then buf c else hd (reply c))"
        "buf_sent_len c < length s" "outstanding c \<noteq> []"
    using less.prems(1)
    by (cases "buf c"; cases "reply c"; cases "hd (reply c)")
      (auto simp: client_has_pending_replies_def out_wf_def outstanding_def split: if_splits)
  then show ?case
  proof cases
    case finished
    then have "outstanding c = []" by (simp add: client_has_pending_replies_def outstanding_def)
    with finished show ?thesis by (auto simp: loop_done)
  next
    case empty
    have m: "moved c [] (c\<lparr>reply := t\<rparr>)" by (rule drop_empty_moved [OF less.prems(1) empty])
    then show ?thesis
      using less.hyps [of ws "c\<lparr>reply := t\<rparr>" sent] less.prems loop_empty [OF empty] empty by (simp add: moved_def)
  next
    case put
    then obtain n u ws' where ws: "ws = (Wrote (Suc n), u) # ws'"
      using less.prems(2,3) by (cases ws) auto
    let ?bs = "taken (Wrote (Suc n)) (drop (buf_sent_len c) s)"
    have ne: "?bs \<noteq> []" "s \<noteq> []" using put(3) by (auto simp: taken_def)
    have nw: "next_write ws = ((Wrote (Suc n), u), ws')" by (simp add: ws)
    obtain c2 where c2: "moved c ?bs c2" "length (reply c2) \<le> length (reply c)"
      "length (sent @ ?bs) > NET_MAX_WRITES_PER_EVENT \<and> reply_write_loop m ws c sent = (c2, sent @ ?bs, False) \<or>
       reply_write_loop m ws c sent = reply_write_loop m ws' c2 (sent @ ?bs)"
      using loop_wrote [OF put(1) nw less.prems(1), where bs = ?bs and m = m and sent = sent] put(2) ne by (auto split: if_splits)
    have out: "outstanding c = ?bs @ outstanding c2" and wf2: "out_wf c2" using c2(1) by (simp_all add: moved_def)
    have "\<not> length (sent @ ?bs) > NET_MAX_WRITES_PER_EVENT"
      using less.prems(4) arg_cong [OF out, of length] by simp
    then have eq: "reply_write_loop m ws c sent = reply_write_loop m ws' c2 (sent @ ?bs)"
      using c2(3) by blast
    have len: "0 < length ?bs" using ne by simp
    have "\<exists>c'. reply_write_loop m ws' c2 (sent @ ?bs) = (c', (sent @ ?bs) @ outstanding c2, False) \<and>
        \<not> client_has_pending_replies c'"
    proof (rule less.hyps [OF _ wf2])
      show "length ws' + length (reply c2) < length ws + length (reply c)" using c2(2) by (simp add: ws)
      show "length (outstanding c2) \<le> length ws'"
        using less.prems(2) arg_cong [OF out, of length] len unfolding ws by (simp del: length_greater_0_conv)
      show "\<forall>w\<in>set ws'. \<exists>n u. w = (Wrote (Suc n), u)" using less.prems(3) by (simp add: ws)
      show "length (sent @ ?bs) + length (outstanding c2) \<le> NET_MAX_WRITES_PER_EVENT"
        using less.prems(4) arg_cong [OF out, of length] by simp
    qed
    then show ?thesis using eq out by simp
  qed
qed

section \<open>Properties\<close>

definition idle_client :: client where
  "idle_client = \<lparr>cid = 1, fd = 5, req_type = REQ_NONE, multibulk_len = 0, bulk_len = -1, query = [], reply = [],
     flags = 0, argv = [], replied_len = 0, buf_sent_len = 0, buf = []\<rparr>"

definition idle_ctx :: "nat ctx" where
  "idle_ctx = \<lparr>cl = idle_client, pending_writes = [], store = sample_store\<rparr>"

lemma idle_ready: "ready idle_ctx" "accepts (cl idle_ctx)" "outstanding (cl idle_ctx) = []"
proof -
  have "objs sample_store a = None" if "next_addr sample_store \<le> a" for a
    using countedD(2) [OF sample_store_ok(1)] that by (metis not_None_eq not_less)
  then show "ready idle_ctx"
    by (simp add: ready_def idle_ctx_def idle_client_def out_wf_def)
qed (simp_all add: idle_ctx_def idle_client_def accepts_def has_flag_def outstanding_def)

text \<open>
  C26 (functional). \<^verbatim>\<open>reply_add_bulk_obj\<close> appends to what the peer will receive exactly the bulk
  string \<^verbatim>\<open>$<length>CRLF<bytes>CRLF\<close> of the string the object denotes, in whichever encoding
  the object is and wherever it has to be queued (the static buffer, the last string
  of the reply list, or a new one), changes nothing else of the client and the
  objects, and leaves the client scheduled for writing. A client that is being closed
  takes nothing.\<close>

theorem reply_bulk_obj_sends:
  assumes "ready x" and "string_ok r" and "length (obj_str r) < 2 ^ 63"
  shows "\<exists>x'. reply_add_bulk_obj x r = Inr x' \<and> ready x' \<and> rest x' = rest x \<and>
     outstanding (cl x') = outstanding (cl x) @
       (if accepts (cl x) then CHR ''$'' # dec (int (length (obj_str r))) @ CRLF @ obj_str r @ CRLF else []) \<and>
     (flagged x \<longrightarrow> client_has_pending_replies (cl x') \<longrightarrow>
        client_has_pending_replies (cl x) \<or> cid (cl x) \<in> set (pending_writes x'))"
proof -
  obtain x' where x': "reply_add_bulk_obj x r = Inr x'" "emits x (bulk (obj_str r)) x'"
    using reply_add_bulk_obj_says [OF assms] by (auto simp: says_def)
  then show ?thesis
    using emits_ready [OF x'(2) assms(1)] by (auto simp: emits_def bulk_def)
qed

theorem reply_bulk_obj_sends_witness:
  "\<exists>x'. reply_add_bulk_obj idle_ctx \<lparr>otype = OBJ_STRING, encoding = OBJ_ENCODING_INT, refcount = 1, ptr = PInt 12\<rparr> = Inr x' \<and>
     outstanding (cl x') = ''$2'' @ CRLF @ ''12'' @ CRLF"
proof -
  let ?r = "\<lparr>otype = OBJ_STRING, encoding = OBJ_ENCODING_INT, refcount = 1, ptr = PInt 12\<rparr> :: nat robj"
  have d: "dec 12 = ''12''" "dec 2 = ''2''" by code_simp+
  have "string_ok ?r" "obj_str ?r = ''12''"
    by (simp_all add: string_ok_def obj_str_def LLONG_MIN_def LLONG_MAX_def d)
  then show ?thesis
    using reply_bulk_obj_sends [OF idle_ready(1), of ?r] idle_ready(2,3) by (auto simp: d)
qed

text \<open>
  C27 (invariant). Writing to the socket moves bytes from the front of what the peer has still to
  receive to the wire, in order, without loss or duplication, however the kernel
  splits the writes (partial writes, \<^verbatim>\<open>EAGAIN\<close>, errors) and wherever the loop stops; the
  invariant of the output (bounds of the buffer, the sent counter, the size of the
  reply list) is kept and nothing else of the client changes.\<close>

theorem reply_write_conserves:
  assumes "out_wf c" and "reply_write_loop max_memory ws c [] = (c', sent, failed)"
  shows "outstanding c = sent @ outstanding c' \<and> out_wf c' \<and> same_client c c'"
  using reply_write_loop_moved [OF assms] by (auto simp: moved_def)

theorem reply_write_conserves_witness:
  "\<exists>c' failed. reply_write_loop 0 [(Wrote 2, 0), (Wrote 1, 0)] (idle_client\<lparr>buf := ''+OK''\<rparr>) [] = (c', ''+OK'', failed) \<and>
     outstanding c' = []"
proof -
  let ?c = "idle_client\<lparr>buf := ''+OK''\<rparr>"
  have wf: "out_wf ?c" by (simp add: idle_client_def out_wf_def PROTO_REPLY_MAX_LEN_def)
  obtain c' sent failed where *: "reply_write_loop 0 [(Wrote 2, 0), (Wrote 1, 0)] ?c [] = (c', sent, failed)"
    by (metis prod.exhaust)
  have "sent = ''+OK''"
    using * by (simp add: loop_simps idle_client_def client_has_pending_replies_def taken_def Let_def NET_MAX_WRITES_PER_EVENT_def)
  moreover have "''+OK'' = sent @ outstanding c'"
    using reply_write_conserves [OF wf *] by (simp add: outstanding_def idle_client_def)
  ultimately show ?thesis using * by auto
qed

text \<open>
  C28 (liveness). A reply of at most \<^verbatim>\<open>NET_MAX_WRITES_PER_EVENT\<close> bytes goes out in one call, however
  short the writes the kernel accepts are: as long as it takes at least one byte each
  time, the loop puts everything on the wire and leaves the client with no output.\<close>

theorem reply_write_drains:
  assumes "out_wf c" and "length (outstanding c) \<le> length ws" and "\<forall>w\<in>set ws. \<exists>n u. w = (Wrote (Suc n), u)"
    and "length (outstanding c) \<le> NET_MAX_WRITES_PER_EVENT"
  shows "\<exists>c'. reply_write_loop max_memory ws c [] = (c', outstanding c, False) \<and> \<not> client_has_pending_replies c'"
  using reply_write_loop_drains [OF assms(1,2,3), of "[]"] assms(4) by auto

theorem reply_write_drains_witness:
  "\<exists>c'. reply_write_loop 0 [(Wrote 1, 0), (Wrote 2, 0), (Wrote 1, 0)] (idle_client\<lparr>buf := ''+OK''\<rparr>) [] = (c', ''+OK'', False) \<and>
     \<not> client_has_pending_replies c'"
  using reply_write_drains [of "idle_client\<lparr>buf := ''+OK''\<rparr>" "[(Wrote 1, 0), (Wrote 2, 0), (Wrote 1, 0)]" 0]
  by (simp add: idle_client_def out_wf_def PROTO_REPLY_MAX_LEN_def outstanding_def NET_MAX_WRITES_PER_EVENT_def)

end
