(* ===== verification/Db.thy ===== *)
theory Db
  imports Reply
begin

text \<open>
  The keyspace and the commands on it: \<^verbatim>\<open>rr_db.c\<close>, the trie commands of
  \<^verbatim>\<open>rr_cmd_trie.c\<close>, the heap commands of \<^verbatim>\<open>rr_cmd_heapq.c\<close> and the checked readers of
  \<^verbatim>\<open>robj.c\<close> that reply on error.

  A command is a function on the context: the client with its arguments and output,
  the store of objects, the dictionary of the database, and the queue of objects
  handed to the background thread. Every early return of the code is a branch.
  Going through an address that is not live, and the other ways to crash, are faults.
\<close>

section \<open>The keyspace\<close>

record 'd sctx = "'d ctx" +
  db :: "(addr, callback) dict_t"
  lazyfree_server_del :: bool
  max_memory :: nat
  bgtasks :: "addr list"

type_synonym 'd cmd = "'d sctx \<Rightarrow> 'd sctx result"

text \<open>\<^verbatim>\<open>c->argv[i]\<close>, and the C string its object points to.\<close>

definition argv_at :: "('d, 'z) sctx_scheme \<Rightarrow> nat \<Rightarrow> addr result" where
  "argv_at x i = (if i < length (argv (cl x)) then Inr (argv (cl x) ! i) else Inl OutOfBounds)"

definition arg_obj :: "('d, 'z) sctx_scheme \<Rightarrow> nat \<Rightarrow> 'd robj result" where
  "arg_obj x i = rbind (argv_at x i) (get_obj (store x))"

definition arg_key :: "('d, 'z) sctx_scheme \<Rightarrow> nat \<Rightarrow> string result" where
  "arg_key x i = rbind (arg_obj x i) ptr_cstr"

definition set_arg :: "('d, 'z) sctx_scheme \<Rightarrow> nat \<Rightarrow> addr \<Rightarrow> ('d, 'z) sctx_scheme" where
  "set_arg x i a = x\<lparr>cl := (cl x)\<lparr>argv := (argv (cl x))[i := a]\<rparr>\<rparr>"

definition rr_db_create :: "(addr, callback) dict_t" where
  "rr_db_create = dict_set_freecb dict_create (Some FreeObj)"

definition rr_db_lookup :: "('d, 'z) sctx_scheme \<Rightarrow> string \<Rightarrow> addr option" where
  "rr_db_lookup x key = dict_get (db x) key"

definition rr_db_lookup_or_reply ::
  "('d, 'z) sctx_scheme \<Rightarrow> string \<Rightarrow> 'd robj \<Rightarrow> (addr option \<times> ('d, 'z) sctx_scheme) result" where
  "rr_db_lookup_or_reply x key rep =
     (case rr_db_lookup x key of
        None \<Rightarrow> rbind (reply_add_bulk_obj x rep) (\<lambda>x. Inr (None, x))
      | Some a \<Rightarrow> Inr (Some a, x))"

text \<open>The values \<^verbatim>\<open>dict_set\<close> hands to the free callback lose the dictionary's reference.\<close>

definition rr_db_add :: "('d, 'z) sctx_scheme \<Rightarrow> string \<Rightarrow> addr option \<Rightarrow> (bool \<times> ('d, 'z) sctx_scheme) result" where
  "rr_db_add x key val =
     (case dict_set (db x) key val of
        (d, ret, calls) \<Rightarrow>
          rbind (decr_all decrRefCount (store x) (map snd calls)) (\<lambda>st. Inr (ret, x\<lparr>db := d, store := st\<rparr>)))"

definition rr_db_lookup_or_create ::
  "('d::linorder, 'z) sctx_scheme \<Rightarrow> string \<Rightarrow> otype \<Rightarrow> (addr option \<times> ('d, 'z) sctx_scheme) result" where
  "rr_db_lookup_or_create x key ty =
     rbind (arg_key x 1) (\<lambda>k.
       case rr_db_lookup x k of
         Some a \<Rightarrow> Inr (Some a, x)
       | None \<Rightarrow>
           (case createCollectionObject (store x) ty of
              (p, st) \<Rightarrow> rbind (rr_db_add (x\<lparr>store := st\<rparr>) key p) (\<lambda>(_, x). Inr (p, x))))"

definition rr_db_del_sync :: "('d, 'z) sctx_scheme \<Rightarrow> string \<Rightarrow> (bool \<times> ('d, 'z) sctx_scheme) result" where
  "rr_db_del_sync x key =
     (case dict_del (db x) key of
        (d, Some val) \<Rightarrow>
          rbind (decrRefCount (store x) val) (\<lambda>st. Inr (True, x\<lparr>db := d, store := st\<rparr>))
      | (d, None) \<Rightarrow> Inr (False, x\<lparr>db := d\<rparr>))"

definition get_lazyfree_effort :: "'d robj \<Rightarrow> nat result" where
  "get_lazyfree_effort r =
     (if encoding r = OBJ_ENCODING_HT then rbind (ptr_dict r) (\<lambda>d. Inr (dict_length d)) else Inr 1)"

definition LAZYFREE_THRESHOLD :: nat where "LAZYFREE_THRESHOLD = 64"

definition rr_db_del_async :: "('d, 'z) sctx_scheme \<Rightarrow> string \<Rightarrow> (bool \<times> ('d, 'z) sctx_scheme) result" where
  "rr_db_del_async x key =
     (case dict_del (db x) key of
        (d, Some val) \<Rightarrow>
          rbind (get_obj (store x) val) (\<lambda>r. rbind (get_lazyfree_effort r) (\<lambda>free_effort.
            if free_effort > LAZYFREE_THRESHOLD
            then Inr (True, x\<lparr>db := d, bgtasks := bgtasks x @ [val]\<rparr>)
            else rbind (decrRefCount (store x) val) (\<lambda>st. Inr (True, x\<lparr>db := d, store := st\<rparr>))))
      | (d, None) \<Rightarrow> Inr (False, x\<lparr>db := d\<rparr>))"

definition rr_db_del :: "('d, 'z) sctx_scheme \<Rightarrow> string \<Rightarrow> (bool \<times> ('d, 'z) sctx_scheme) result" where
  "rr_db_del x key = (if lazyfree_server_del x then rr_db_del_async x key else rr_db_del_sync x key)"

definition rr_db_set_key :: "('d, 'z) sctx_scheme \<Rightarrow> string \<Rightarrow> addr \<Rightarrow> (bool \<times> ('d, 'z) sctx_scheme) result" where
  "rr_db_set_key x key val =
     rbind (rr_db_add x key (Some val)) (\<lambda>(ret, x).
       if ret then rbind (incrRefCount (store x) val) (\<lambda>st. Inr (ret, x\<lparr>store := st\<rparr>)) else Inr (ret, x))"

text \<open>What the background thread does with the next object of its queue.\<close>

definition bgt_step :: "'d cmd" where
  "bgt_step x =
     (case bgtasks x of
        [] \<Rightarrow> Inr x
      | val # ts \<Rightarrow> rbind (decrRefCount (store x) val) (\<lambda>st. Inr (x\<lparr>store := st, bgtasks := ts\<rparr>)))"

section \<open>Commands on keys\<close>

definition checkType :: "('d, 'z) sctx_scheme \<Rightarrow> addr \<Rightarrow> otype \<Rightarrow> (bool \<times> ('d, 'z) sctx_scheme) result" where
  "checkType x a ty =
     rbind (get_obj (store x) a) (\<lambda>r.
       if otype r \<noteq> ty then rbind (reply_add_obj x shared_wrongtypeerr) (\<lambda>x. Inr (True, x))
       else Inr (False, x))"

definition rr_cmd_get :: "'d cmd" where
  "rr_cmd_get x =
     rbind (arg_key x 1) (\<lambda>key.
       case rr_db_lookup x key of
         None \<Rightarrow> reply_add_obj x shared_nullbulk
       | Some a \<Rightarrow>
           rbind (get_obj (store x) a) (\<lambda>r.
             if otype r \<noteq> OBJ_STRING then reply_add_obj x shared_wrongtypeerr
             else reply_add_bulk_obj x r))"

definition rr_cmd_set :: "'d cmd" where
  "rr_cmd_set x =
     rbind (if lazyfree_server_del x
            then rbind (arg_key x 1) (\<lambda>key. rbind (rr_db_del x key) (\<lambda>(_, x). Inr x)) else Inr x) (\<lambda>x.
     rbind (argv_at x 2) (\<lambda>a2. rbind (tryObjectEncoding (max_memory x) (store x) a2) (\<lambda>(a, st).
     let x = set_arg (x\<lparr>store := st\<rparr>) 2 a in
     rbind (arg_key x 1) (\<lambda>key. rbind (rr_db_set_key x key a) (\<lambda>(ok, x).
       reply_add_obj x (if ok then shared_ok else shared_err))))))"

definition rr_cmd_len :: "'d cmd" where
  "rr_cmd_len x = reply_add_longlong x (to_ll (int (dict_length (db x))))"

definition rr_cmd_exists :: "'d cmd" where
  "rr_cmd_exists x =
     rbind (arg_key x 1) (\<lambda>key. reply_add_obj x (if dict_contains (db x) key then shared_cone else shared_czero))"

definition rr_cmd_del :: "'d cmd" where
  "rr_cmd_del x =
     rbind (arg_key x 1) (\<lambda>key. rbind (rr_db_del x key) (\<lambda>(ok, x).
       reply_add_obj x (if ok then shared_cone else shared_czero)))"

definition type_name :: "otype \<Rightarrow> string" where
  "type_name t = (case t of OBJ_STRING \<Rightarrow> ''string'' | OBJ_HASH \<Rightarrow> ''trie'' | OBJ_HEAPQ \<Rightarrow> ''heapq'' | OBJ_FTS \<Rightarrow> ''fts'')"

definition rr_cmd_type :: "'d cmd" where
  "rr_cmd_type x =
     rbind (arg_key x 1) (\<lambda>key.
       case rr_db_lookup x key of
         None \<Rightarrow> Inr (reply_add_status x ''none'')
       | Some a \<Rightarrow> rbind (get_obj (store x) a) (\<lambda>r. Inr (reply_add_status x (type_name (otype r)))))"

section \<open>Commands on tries\<close>

text \<open>
  The opening of most commands: the object of the key, of the wanted type, or a reply
  and return.
\<close>

definition with_typed :: "'d sctx \<Rightarrow> otype \<Rightarrow> ('d sctx \<Rightarrow> addr \<Rightarrow> 'd sctx result) \<Rightarrow> 'd sctx result" where
  "with_typed x ty body =
     rbind (arg_key x 1) (\<lambda>key. rbind (rr_db_lookup_or_reply x key shared_nullbulk) (\<lambda>(p, x).
       case p of
         None \<Rightarrow> Inr x
       | Some a \<Rightarrow> rbind (checkType x a ty) (\<lambda>(bad, x). if bad then Inr x else body x a)))"

definition trie_of :: "('d, 'z) sctx_scheme \<Rightarrow> addr \<Rightarrow> (addr, callback) dict_t result" where
  "trie_of x a = rbind (get_obj (store x) a) ptr_dict"

definition put_trie ::
  "('d, 'z) sctx_scheme \<Rightarrow> addr \<Rightarrow> (addr, callback) dict_t \<Rightarrow> ('d, 'z) sctx_scheme result" where
  "put_trie x a d = rbind (get_obj (store x) a) (\<lambda>r. Inr (x\<lparr>store := set_obj (store x) a (r\<lparr>ptr := PDict d\<rparr>)\<rparr>))"

definition rr_cmd_rget :: "'d cmd" where
  "rr_cmd_rget x =
     with_typed x OBJ_HASH (\<lambda>x a.
       rbind (trie_of x a) (\<lambda>d. rbind (arg_key x 2) (\<lambda>key.
         case dict_get d key of
           None \<Rightarrow> reply_add_obj x shared_nullbulk
         | Some v \<Rightarrow> rbind (get_obj (store x) v) (reply_add_bulk_obj x))))"

definition rr_cmd_rexists :: "'d cmd" where
  "rr_cmd_rexists x =
     with_typed x OBJ_HASH (\<lambda>x a.
       rbind (trie_of x a) (\<lambda>d. rbind (arg_key x 2) (\<lambda>key.
         reply_add_obj x (if dict_contains d key then shared_cone else shared_czero))))"

definition rr_cmd_rlen :: "'d cmd" where
  "rr_cmd_rlen x =
     with_typed x OBJ_HASH (\<lambda>x a.
       rbind (trie_of x a) (\<lambda>d. reply_add_longlong x (to_ll (int (dict_length d)))))"

definition rr_cmd_rset :: "'d::linorder cmd" where
  "rr_cmd_rset x =
     rbind (arg_key x 1) (\<lambda>k. rbind (rr_db_lookup_or_create x k OBJ_HASH) (\<lambda>(p, x).
       case p of
         None \<Rightarrow> Inr x
       | Some a \<Rightarrow> rbind (checkType x a OBJ_HASH) (\<lambda>(bad, x).
           if bad then Inr x
           else
             rbind (argv_at x 3) (\<lambda>a3. rbind (tryObjectEncoding (max_memory x) (store x) a3) (\<lambda>(v, st).
             let x = set_arg (x\<lparr>store := st\<rparr>) 3 v in
             rbind (trie_of x a) (\<lambda>d. rbind (arg_key x 2) (\<lambda>key.
               case dict_set d key (Some v) of
                 (d', ok, calls) \<Rightarrow>
                   rbind (put_trie x a d') (\<lambda>x.
                   rbind (decr_all decrRefCount (store x) (map snd calls)) (\<lambda>st.
                   if ok
                   then rbind (incrRefCount st v) (\<lambda>st. reply_add_obj (x\<lparr>store := st\<rparr>) shared_ok)
                   else reply_add_obj (x\<lparr>store := st\<rparr>) shared_err)))))))))"

text \<open>The reply of \<^verbatim>\<open>get_prefix\<close> and \<^verbatim>\<open>get_all\<close>: keys, values or both of the entries collected.\<close>

fun reply_entries :: "bool \<Rightarrow> bool \<Rightarrow> 'd sctx \<Rightarrow> (string \<times> addr) list \<Rightarrow> 'd sctx result" where
  "reply_entries wkey wval x [] = Inr x"
| "reply_entries wkey wval x ((k, v) # kvs) =
     rbind (if wkey then reply_add_bulk_cstr x (Some k) else Inr x) (\<lambda>x.
     rbind (if wval then rbind (get_obj (store x) v) (reply_add_bulk_obj x) else Inr x) (\<lambda>x.
     reply_entries wkey wval x kvs))"

definition reply_kvs :: "bool \<Rightarrow> bool \<Rightarrow> 'd sctx \<Rightarrow> addr dict_iterator \<Rightarrow> 'd sctx result" where
  "reply_kvs wkey wval x iter =
     rbind (iter_collect iter) (\<lambda>kvs.
       let multiplier = (if wkey then 1 else 0) + (if wval then 1 else 0);
           total = int (length kvs) * multiplier
       in rbind (reply_add_multi_bulk_len x total) (\<lambda>x. reply_entries wkey wval x kvs))"

definition cmd_get_prefix :: "bool \<Rightarrow> bool \<Rightarrow> 'd cmd" where
  "cmd_get_prefix wkey wval x =
     with_typed x OBJ_HASH (\<lambda>x a.
       rbind (trie_of x a) (\<lambda>d. rbind (arg_key x 2) (\<lambda>pfx. rbind (dict_get_prefix d pfx) (reply_kvs wkey wval x))))"

definition rr_cmd_rpget :: "'d cmd" where
  "rr_cmd_rpget = cmd_get_prefix True True"

definition get_all :: "bool \<Rightarrow> bool \<Rightarrow> 'd cmd" where
  "get_all wkey wval x =
     with_typed x OBJ_HASH (\<lambda>x a.
       rbind (trie_of x a) (\<lambda>d. rbind (dict_iter_create d) (reply_kvs wkey wval x)))"

definition rr_cmd_rkeys :: "'d cmd" where "rr_cmd_rkeys = get_all True False"
definition rr_cmd_rvalues :: "'d cmd" where "rr_cmd_rvalues = get_all False True"
definition rr_cmd_rgetall :: "'d cmd" where "rr_cmd_rgetall = get_all True True"

definition rr_cmd_rdel :: "'d cmd" where
  "rr_cmd_rdel x =
     with_typed x OBJ_HASH (\<lambda>x a.
       rbind (trie_of x a) (\<lambda>d. rbind (arg_key x 2) (\<lambda>key.
         case dict_del d key of
           (d', del) \<Rightarrow>
             rbind (put_trie x a d') (\<lambda>x. rbind (rr_obj_free_callback (store x) del) (\<lambda>st.
               reply_add_obj (x\<lparr>store := st\<rparr>) (if del = None then shared_czero else shared_cone))))))"

section \<open>Commands on heap queues\<close>

definition getDoubleFromObjectOrReply ::
  "'d floats \<Rightarrow> ('d, 'z) sctx_scheme \<Rightarrow> 'd robj \<Rightarrow> string option \<Rightarrow> ('d option \<times> ('d, 'z) sctx_scheme) result" where
  "getDoubleFromObjectOrReply fl x r msg =
     rbind (getDoubleFromObject fl (Some r)) (\<lambda>v.
       case v of
         None \<Rightarrow> Inr (None, reply_add_err x (case msg of Some m \<Rightarrow> m | None \<Rightarrow> ''value is not a valid float''))
       | Some d \<Rightarrow> Inr (Some d, x))"

definition getLongLongFromObjectOrReply ::
  "('d, 'z) sctx_scheme \<Rightarrow> 'd robj \<Rightarrow> string option \<Rightarrow> (int option \<times> ('d, 'z) sctx_scheme) result" where
  "getLongLongFromObjectOrReply x r msg =
     rbind (getLongLongFromObject (Some r)) (\<lambda>v.
       case v of
         None \<Rightarrow> Inr (None, reply_add_err x
           (case msg of Some m \<Rightarrow> m | None \<Rightarrow> ''value is not an integer or out of range''))
       | Some n \<Rightarrow> Inr (Some n, x))"

definition getLongFromObjectOrReply ::
  "('d, 'z) sctx_scheme \<Rightarrow> 'd robj \<Rightarrow> string option \<Rightarrow> (int option \<times> ('d, 'z) sctx_scheme) result" where
  "getLongFromObjectOrReply x r msg =
     rbind (getLongLongFromObjectOrReply x r msg) (\<lambda>(v, x).
       case v of
         None \<Rightarrow> Inr (None, x)
       | Some n \<Rightarrow>
           if n < LLONG_MIN \<or> n > LLONG_MAX
           then Inr (None, reply_add_err x (case msg of Some m \<Rightarrow> m | None \<Rightarrow> ''value is out of range''))
           else Inr (Some n, x))"

definition heap_of :: "('d, 'z) sctx_scheme \<Rightarrow> addr \<Rightarrow> ('d hq_item_t, callback) minheap_t result" where
  "heap_of x a = rbind (get_obj (store x) a) ptr_heap"

definition put_heap ::
  "('d, 'z) sctx_scheme \<Rightarrow> addr \<Rightarrow> ('d hq_item_t, callback) minheap_t \<Rightarrow> ('d, 'z) sctx_scheme result" where
  "put_heap x a h = rbind (get_obj (store x) a) (\<lambda>r. Inr (x\<lparr>store := set_obj (store x) a (r\<lparr>ptr := PHeap h\<rparr>)\<rparr>))"

definition rr_cmd_hqpush :: "'d::linorder floats \<Rightarrow> 'd cmd" where
  "rr_cmd_hqpush fl x =
     rbind (arg_obj x 2) (\<lambda>r2. rbind (getDoubleFromObjectOrReply fl x r2 None) (\<lambda>(v, x).
       case v of
         None \<Rightarrow> Inr x
       | Some sc \<Rightarrow>
           rbind (arg_key x 1) (\<lambda>k. rbind (rr_db_lookup_or_create x k OBJ_HEAPQ) (\<lambda>(p, x).
             case p of
               None \<Rightarrow> reply_add_obj x shared_wrongtypeerr
             | Some a \<Rightarrow>
                 rbind (get_obj (store x) a) (\<lambda>hp.
                   if otype hp \<noteq> OBJ_HEAPQ then reply_add_obj x shared_wrongtypeerr
                   else
                     rbind (argv_at x 3) (\<lambda>a3. rbind (tryObjectEncoding (max_memory x) (store x) a3) (\<lambda>(o3, st).
                     let x = set_arg (x\<lparr>store := st\<rparr>) 3 o3 in
                     rbind (heap_of x a) (\<lambda>h. rbind (minheap_push h \<lparr>score = sc, obj = o3\<rparr>) (\<lambda>(rc, h').
                     rbind (put_heap x a h') (\<lambda>x.
                       if rc = 0
                       then rbind (incrRefCount (store x) o3) (\<lambda>st. reply_add_obj (x\<lparr>store := st\<rparr>) shared_ok)
                       else reply_add_obj x shared_err))))))))))"

text \<open>Reading an item through the pointer \<^verbatim>\<open>minheap_pop\<close> returned, into the array of the heap.\<close>

definition item_at :: "('d hq_item_t, callback) minheap_t \<Rightarrow> nat \<Rightarrow> 'd hq_item_t result" where
  "item_at h i = array_read (array h) (Some i)"

definition send_item :: "'d sctx \<Rightarrow> 'd hq_item_t \<Rightarrow> 'd sctx result" where
  "send_item x item =
     rbind (get_obj (store x) (obj item)) (\<lambda>r. rbind (reply_add_bulk_obj x r) (\<lambda>x.
     rbind (decrRefCount (store x) (obj item)) (\<lambda>st. Inr (x\<lparr>store := st\<rparr>))))"

definition rr_cmd_hqpop :: "'d cmd" where
  "rr_cmd_hqpop x =
     with_typed x OBJ_HEAPQ (\<lambda>x a.
       rbind (heap_of x a) (\<lambda>h. rbind (minheap_pop h) (\<lambda>(p, h').
       rbind (put_heap x a h') (\<lambda>x.
         case p of
           None \<Rightarrow> reply_add_obj x shared_nullbulk
         | Some i \<Rightarrow> rbind (item_at h' i) (send_item x)))))"

definition rr_cmd_hqpeek :: "'d cmd" where
  "rr_cmd_hqpeek x =
     with_typed x OBJ_HEAPQ (\<lambda>x a.
       rbind (heap_of x a) (\<lambda>h.
         case minheap_min h of
           None \<Rightarrow> reply_add_obj x shared_nullbulk
         | Some i \<Rightarrow> rbind (item_at h i) (\<lambda>item. rbind (get_obj (store x) (obj item)) (reply_add_bulk_obj x))))"

definition rr_cmd_hqlen :: "'d cmd" where
  "rr_cmd_hqlen x =
     with_typed x OBJ_HEAPQ (\<lambda>x a. rbind (heap_of x a) (\<lambda>h. reply_add_longlong x (to_ll (int (minheap_len h)))))"

text \<open>\<^verbatim>\<open>while (n-- > 0 && (item = minheap_pop(hq->ptr)) != NULL)\<close>\<close>

fun popn_loop :: "nat \<Rightarrow> 'd sctx \<Rightarrow> addr \<Rightarrow> 'd sctx result" where
  "popn_loop 0 x a = Inr x"
| "popn_loop (Suc n) x a =
     rbind (heap_of x a) (\<lambda>h. rbind (minheap_pop h) (\<lambda>(p, h').
     rbind (put_heap x a h') (\<lambda>x.
       case p of
         None \<Rightarrow> Inr x
       | Some i \<Rightarrow> rbind (item_at h' i) (\<lambda>item. rbind (send_item x item) (\<lambda>x. popn_loop n x a)))))"

definition rr_cmd_hqpopn :: "'d cmd" where
  "rr_cmd_hqpopn x =
     rbind (arg_obj x 2) (\<lambda>r2. rbind (getLongFromObjectOrReply x r2 None) (\<lambda>(v, x).
       case v of
         None \<Rightarrow> Inr x
       | Some n \<Rightarrow>
           if n < 0 then Inr (reply_add_err x ''invalid non-negtive integer'')
           else
             with_typed x OBJ_HEAPQ (\<lambda>x a.
               rbind (heap_of x a) (\<lambda>h.
                 let len = to_ll (int (minheap_len h)); n = (if n < len then n else len)
                 in rbind (reply_add_multi_bulk_len x n) (\<lambda>x. popn_loop (nat n) x a)))))"

end
