(* ===== verification/Keyspace.thy ===== *)
theory Keyspace
  imports Db
begin

text \<open>
  What the commands do to the keyspace as a user sees it: a map from keys to strings,
  tries of strings, heaps of scored strings and indexes. \<open>srv_wf\<close> is the invariant of the
  server between commands: reference counts are exact, the dictionaries and heaps are
  well formed. Every command shown here keeps it, so no command reads a freed object
  or leaks one.
\<close>

section \<open>The values of a dictionary\<close>

definition dict_vals :: "('v, 'c) dict_t \<Rightarrow> 'v multiset" where
  "dict_vals d = mset (map snd (dict_entries d))"

definition map_vals :: "('k \<rightharpoonup> 'v) \<Rightarrow> 'v multiset" where
  "map_vals m = image_mset (\<lambda>k. the (m k)) (mset_set (dom m))"

lemma dict_wf_distinct: "dict_wf d \<Longrightarrow> distinct (map fst (dict_entries d))"
  by (cases "dict d") (auto simp: dict_wf_def dict_entries_def slot_entries_def crit_distinct)

lemma dict_vals_map: "dict_wf d \<Longrightarrow> dict_vals d = map_vals (dict_map d)"
proof -
  assume wf: "dict_wf d"
  let ?xs = "dict_entries d"
  note dist = dict_wf_distinct [OF wf]
  have "mset_set (dom (map_of ?xs)) = mset (map fst ?xs)"
    using dist by (simp add: dom_map_of_conv_image_fst mset_set_set flip: set_map)
  then have "map_vals (dict_map d) = image_mset (\<lambda>k. the (map_of ?xs k)) (mset (map fst ?xs))"
    by (simp add: map_vals_def dict_map_def)
  also have "\<dots> = mset (map (\<lambda>kv. the (map_of ?xs (fst kv))) ?xs)"
    by (simp only: mset_map [symmetric] map_map o_def)
  also have "map (\<lambda>kv. the (map_of ?xs (fst kv))) ?xs = map snd ?xs"
    using dist by (auto intro!: map_cong simp: map_of_is_SomeI)
  finally show ?thesis by (simp add: dict_vals_def)
qed

lemma map_vals_upd:
  assumes "finite (dom m)"
  shows "map_vals (m(k \<mapsto> v)) + (case m k of None \<Rightarrow> {#} | Some w \<Rightarrow> {#w#}) = add_mset v (map_vals m)"
proof -
  let ?D = "dom m - {k}"
  have "map_vals (m(k \<mapsto> v)) = add_mset v (image_mset (\<lambda>j. the ((m(k \<mapsto> v)) j)) (mset_set ?D))"
    using assms by (simp add: map_vals_def mset_set.insert_remove)
  also have "image_mset (\<lambda>j. the ((m(k \<mapsto> v)) j)) (mset_set ?D) = image_mset (\<lambda>j. the (m j)) (mset_set ?D)"
    using assms by (intro image_mset_cong) auto
  finally have upd: "map_vals (m(k \<mapsto> v)) = add_mset v (image_mset (\<lambda>j. the (m j)) (mset_set ?D))" .
  show ?thesis
  proof (cases "m k")
    case None
    then have "?D = dom m" by auto
    with None upd show ?thesis by (simp add: map_vals_def)
  next
    case (Some w)
    then have "dom m = insert k ?D" by auto
    then have "map_vals m = add_mset w (image_mset (\<lambda>j. the (m j)) (mset_set ?D))"
      using assms Some mset_set.remove [of "dom m" k] by (simp add: map_vals_def domI)
    with Some upd show ?thesis by simp
  qed
qed

lemma map_vals_del:
  assumes "finite (dom m)"
  shows "map_vals m = map_vals (m(k := None)) + (case m k of None \<Rightarrow> {#} | Some w \<Rightarrow> {#w#})"
proof (cases "m k")
  case None
  then show ?thesis by (simp add: fun_upd_idem)
next
  case (Some w)
  then have "(m(k := None))(k \<mapsto> w) = m" by auto
  then show ?thesis using map_vals_upd [of "m(k := None)" k w] assms Some by simp
qed

lemma dict_map_finite: "finite (dom (dict_map d))"
  by (simp add: dict_map_def finite_dom_map_of)

text \<open>How insertion and deletion change the multiset of values.\<close>

lemma dict_set_vals:
  assumes "dict_wf d" and "nul_free key" and cb: "free_cb d = Some cb"
  obtains d' where "dict_set d key (Some v) = (d', True, freed d key)" and "dict_wf d'"
    and "dict_map d' = (dict_map d)(key \<mapsto> v)" and "free_cb d' = free_cb d"
    and "add_mset v (dict_vals d) = dict_vals d' + mset (map snd (freed d key))"
proof -
  obtain d' where d': "dict_set d key (Some v) = (d', True, freed d key)" "dict_wf d'"
    "dict_map d' = (dict_map d)(key \<mapsto> v)" "free_cb d' = free_cb d"
    using dict_set_spec [OF assms(1,2)] by metis
  have "mset (map snd (freed d key)) = (case dict_map d key of None \<Rightarrow> {#} | Some w \<Rightarrow> {#w#})"
    by (simp add: freed_def cb split: option.split)
  then have "add_mset v (dict_vals d) = dict_vals d' + mset (map snd (freed d key))"
    using map_vals_upd [OF dict_map_finite, of d key v] assms(1) d' by (simp add: dict_vals_map)
  with d' show ?thesis using that by blast
qed

lemma dict_del_vals:
  assumes "dict_wf d" and "nul_free key"
  obtains d' where "dict_del d key = (d', dict_map d key)" and "dict_wf d'"
    and "dict_map d' = (dict_map d)(key := None)" and "free_cb d' = free_cb d"
    and "dict_vals d = dict_vals d' + (case dict_map d key of None \<Rightarrow> {#} | Some w \<Rightarrow> {#w#})"
proof -
  obtain d' where d': "dict_del d key = (d', dict_map d key)" "dict_wf d'"
    "dict_map d' = (dict_map d)(key := None)" "free_cb d' = free_cb d"
    using dict_del_spec [OF assms(1,2)] by metis
  then show ?thesis
    using that map_vals_del [OF dict_map_finite, of d key] assms(1) by (simp add: dict_vals_map)
qed

lemma dict_map_vals: "dict_map d k = Some v \<Longrightarrow> v \<in># dict_vals d"
  by (auto simp: dict_map_def dict_vals_def dest!: map_of_SomeD intro!: rev_image_eqI)

section \<open>The keyspace as a map of values\<close>

datatype 'd aval =
    VStr string
  | VTrie "string \<Rightarrow> string option"
  | VHeap "('d \<times> string) multiset"
  | VFts fts_t

definition str_of :: "'d store \<Rightarrow> addr \<Rightarrow> string" where
  "str_of st a = (case objs st a of None \<Rightarrow> [] | Some r \<Rightarrow> obj_str r)"

definition obj_val :: "'d store \<Rightarrow> 'd robj \<Rightarrow> 'd aval" where
  "obj_val st r =
     (case ptr r of
        PStr s \<Rightarrow> VStr s
      | PInt n \<Rightarrow> VStr (dec n)
      | PDict d \<Rightarrow> VTrie (\<lambda>k. map_option (str_of st) (dict_map d k))
      | PHeap h \<Rightarrow> VHeap (image_mset (\<lambda>it. (score it, str_of st (obj it))) (heap_bag h))
      | PFts f \<Rightarrow> VFts f)"

definition keyspace :: "('d, 'z) sctx_scheme \<Rightarrow> string \<Rightarrow> 'd aval option" where
  "keyspace x k = Option.bind (dict_map (db x) k) (\<lambda>a. map_option (obj_val (store x)) (objs (store x) a))"

lemma obj_refs_dict: "ptr r = PDict d \<Longrightarrow> obj_refs r = dict_vals d"
  by (simp add: obj_refs_def dict_vals_def)

lemma obj_refs_heap: "ptr r = PHeap h \<Longrightarrow> obj_refs r = image_mset obj (heap_bag h)"
  by (simp add: obj_refs_def)

lemma stable_str_of: "stable X st st' \<Longrightarrow> a \<in> X \<Longrightarrow> str_of st' a = str_of st a"
proof -
  assume s: "stable X st st'" "a \<in> X"
  then obtain r where r: "objs st a = Some r" unfolding stable_def by blast
  show ?thesis by (rule stableD [OF s r]) (simp add: str_of_def r)
qed

lemma obj_val_same:
  assumes "ptr r' = ptr r" and "\<And>a. a \<in># obj_refs r \<Longrightarrow> str_of st' a = str_of st a"
  shows "obj_val st' r' = obj_val st r"
proof (cases "ptr r")
  case (PDict d)
  then have "str_of st' a = str_of st a" if "dict_map d k = Some a" for k a
    using assms(2) dict_map_vals [OF that] by (simp add: obj_refs_dict)
  then have "map_option (str_of st') (dict_map d k) = map_option (str_of st) (dict_map d k)" for k
    by (cases "dict_map d k") auto
  with PDict assms(1) show ?thesis by (simp add: obj_val_def)
next
  case (PHeap h)
  then have "image_mset (\<lambda>it. (score it, str_of st' (obj it))) (heap_bag h) =
      image_mset (\<lambda>it. (score it, str_of st (obj it))) (heap_bag h)"
    using assms(2) by (intro image_mset_cong) (simp add: obj_refs_heap)
  with PHeap assms(1) show ?thesis by (simp add: obj_val_def)
qed (use assms(1) in \<open>simp_all add: obj_val_def\<close>)

lemma obj_refs_inner: "finite (live_set st) \<Longrightarrow> objs st a = Some r \<Longrightarrow> obj_refs r \<subseteq># inner_refs st"
  using inner_refs_free by (metis mset_subset_eq_add_right)

text \<open>An object that lives on, with everything it refers to, has the same value.\<close>

lemma stable_val:
  assumes s: "stable (set_mset (R + inner_refs st')) st st'" and f: "finite (live_set st')"
    and a: "a \<in># R" and r: "objs st a = Some r"
  obtains r' where "objs st' a = Some r'" and "obj_val st' r' = obj_val st r" and "otype r' = otype r"
    and "ptr r' = ptr r" and "string_ok r' = string_ok r" and "encoding r' = encoding r"
proof -
  obtain r' where r': "objs st' a = Some r'" "string_ok r' = string_ok r" "obj_refs r' = obj_refs r"
    "otype r' = otype r" "ptr r' = ptr r" "encoding r' = encoding r"
    using stableD [OF s _ r] a by (metis UnI1 set_mset_union)
  have "str_of st' b = str_of st b" if "b \<in># obj_refs r" for b
  proof (rule stable_str_of [OF s])
    show "b \<in> set_mset (R + inner_refs st')"
      using obj_refs_inner [OF f r'(1)] r'(3) that by (auto dest: mset_subset_eqD)
  qed
  then have "obj_val st' r' = obj_val st r" by (intro obj_val_same r'(5))
  with r' that show ?thesis by blast
qed

section \<open>The invariant of the server\<close>

text \<open>
  The references from outside the store: the database, the arguments of the current
  command, the background queue, and \<open>E\<close>, what other clients hold.
\<close>

definition srv_refs :: "addr multiset \<Rightarrow> ('d, 'z) sctx_scheme \<Rightarrow> addr multiset" where
  "srv_refs E x = dict_vals (db x) + mset (argv (cl x)) + mset (bgtasks x) + E"

definition db_wf :: "(addr, callback) dict_t \<Rightarrow> bool" where
  "db_wf d \<longleftrightarrow> dict_wf d \<and> free_cb d = Some FreeObj"

text \<open>Only strings have more than one owner: a trie or a heap belongs to one key.\<close>

definition is_string :: "'d store \<Rightarrow> addr \<Rightarrow> bool" where
  "is_string st a \<longleftrightarrow> (\<exists>r. objs st a = Some r \<and> otype r = OBJ_STRING)"

definition sole :: "'d store \<Rightarrow> addr multiset \<Rightarrow> bool" where
  "sole st R \<longleftrightarrow> (\<forall>a\<in>#R. is_string st a \<or> count R a = 1)"

definition heap_store :: "'d::linorder store \<Rightarrow> addr multiset \<Rightarrow> bool" where
  "heap_store st R \<longleftrightarrow> counted st R \<and> store_wf st \<and> shared_ints st \<and> sole st R"

lemma stable_is_string: "stable X st st' \<Longrightarrow> a \<in> X \<Longrightarrow> is_string st' a \<longleftrightarrow> is_string st a"
  unfolding stable_def is_string_def by (metis option.inject robj.select_convs(1) robj.surjective robj.update_convs(3))

lemma sole_sub:
  assumes "sole st R" and "R' \<subseteq># R" and "stable (set_mset R') st st'"
  shows "sole st' R'"
  unfolding sole_def
proof
  fix a assume a: "a \<in># R'"
  then have "a \<in># R" "count R' a \<le> count R a" "0 < count R' a"
    using assms(2) by (auto simp: mset_subset_eqD mset_subset_eq_count)
  with assms(1) stable_is_string [OF assms(3), of a] a show "is_string st' a \<or> count R' a = 1"
    unfolding sole_def by (metis One_nat_def Suc_leI le_antisym)
qed

lemma sole_add: "sole st R \<Longrightarrow> is_string st b \<Longrightarrow> sole st (add_mset b R)"
  by (auto simp: sole_def)

lemma str_at_is_string: "str_at st a s \<Longrightarrow> is_string st a"
  by (auto simp: str_at_def is_string_def string_ok_def)

text \<open>What clients hold are strings, in the arguments of the command or elsewhere.\<close>

definition strs :: "'d store \<Rightarrow> addr multiset \<Rightarrow> bool" where
  "strs st M \<longleftrightarrow> (\<forall>a\<in>#M. is_string st a)"

lemma stable_strs: "stable X st st' \<Longrightarrow> set_mset M \<subseteq> X \<Longrightarrow> strs st M \<Longrightarrow> strs st' M"
  unfolding strs_def using stable_is_string by (metis subsetD)

definition srv_wf :: "addr multiset \<Rightarrow> ('d::linorder, 'z) sctx_scheme \<Rightarrow> bool" where
  "srv_wf E x \<longleftrightarrow> heap_store (store x) (srv_refs E x) \<and> db_wf (db x) \<and> out_wf (cl x) \<and>
     strs (store x) (mset (argv (cl x)) + E)"

text \<open>Fewer references than the count of a shared object, so that counting them cannot reach it.\<close>

definition room :: "addr multiset \<Rightarrow> ('d, 'z) sctx_scheme \<Rightarrow> bool" where
  "room E x \<longleftrightarrow> int (size (srv_refs E x + inner_refs (store x))) < OBJ_SHARED_REFCOUNT - 1"

text \<open>The arguments of a command as the parser leaves them.\<close>

definition raw_at :: "'d store \<Rightarrow> addr \<Rightarrow> string \<Rightarrow> bool" where
  "raw_at st a s \<longleftrightarrow> (\<exists>r. objs st a = Some r \<and> string_ok r \<and> ptr r = PStr s)"

definition args_are :: "('d, 'z) sctx_scheme \<Rightarrow> string list \<Rightarrow> bool" where
  "args_are x ss \<longleftrightarrow> list_all2 (raw_at (store x)) (argv (cl x)) ss"

lemma raw_str_at: "raw_at st a s \<Longrightarrow> str_at st a s"
  by (auto simp: raw_at_def str_at_def obj_str_def)

lemma raw_cstr: "raw_at st a s \<Longrightarrow> rbind (get_obj st a) ptr_cstr = Inr (cstr s)"
  by (auto simp: raw_at_def get_obj_def ptr_cstr_def ptr_sds_def)

lemma stable_raw: "stable X st st' \<Longrightarrow> a \<in> X \<Longrightarrow> raw_at st a s \<Longrightarrow> raw_at st' a s"
proof -
  assume s: "stable X st st'" "a \<in> X" "raw_at st a s"
  then obtain r where r: "objs st a = Some r" "string_ok r" "ptr r = PStr s" by (auto simp: raw_at_def)
  show ?thesis by (rule stableD [OF s(1,2) r(1)]) (use r in \<open>simp add: raw_at_def\<close>)
qed

lemma args_are_at:
  assumes "args_are x ss" and "i < length ss"
  shows "argv_at x i = Inr (argv (cl x) ! i)" and "raw_at (store x) (argv (cl x) ! i) (ss ! i)"
    and "arg_key x i = Inr (cstr (ss ! i))" and "argv (cl x) ! i \<in># mset (argv (cl x))"
    and "i < length (argv (cl x))"
proof -
  show len: "i < length (argv (cl x))" using assms by (simp add: args_are_def list_all2_conv_all_nth)
  show raw: "raw_at (store x) (argv (cl x) ! i) (ss ! i)"
    using assms by (simp add: args_are_def list_all2_conv_all_nth)
  show "argv_at x i = Inr (argv (cl x) ! i)" using len by (simp add: argv_at_def)
  then show "arg_key x i = Inr (cstr (ss ! i))" using raw_cstr [OF raw] by (simp add: arg_key_def arg_obj_def)
  show "argv (cl x) ! i \<in># mset (argv (cl x))" using len by simp
qed

lemma sctx_more:
  assumes "ctx.more x' = ctx.more x"
  shows "db x' = db x" "lazyfree_server_del x' = lazyfree_server_del x" "max_memory x' = max_memory x"
    "bgtasks x' = bgtasks x"
  using assms by (cases x; cases x'; simp)+

lemma counted_next: "counted st R \<Longrightarrow> next_addr st \<le> next_addr st' \<Longrightarrow> objs st' = objs st \<Longrightarrow> counted st' R"
proof -
  assume c: "counted st R" and n: "next_addr st \<le> next_addr st'" "objs st' = objs st"
  have l: "live_set st' = live_set st" "inner_refs st' = inner_refs st" by (simp_all add: live_set_def inner_refs_def n)
  show ?thesis using c n by (force simp: counted_def l live_set_def)
qed

lemma store_wf_objs: "objs st' = objs st \<Longrightarrow> store_wf st' = store_wf st"
  by (simp add: store_wf_def inner_refs_def live_set_def)

text \<open>Replies change nothing but the output.\<close>

lemma emits_srv:
  fixes x x' :: "('d::linorder, 'z) sctx_scheme"
  assumes "emits x s x'" and "srv_wf E x"
  shows "srv_wf E x'" and "keyspace x' = keyspace x" and "args_are x' ss = args_are x ss" and "room E x' = room E x"
proof -
  have rest: "rest x' = rest x" and n: "next_addr (store x) \<le> next_addr (store x')" and out: "out_wf (cl x')"
    using assms(1) by (auto simp: emits_def)
  note d = restD [OF rest] and e = sctx_more [OF restD(10) [OF rest]]
  have c: "counted (store x') (srv_refs E x)"
    using assms(2) by (auto simp: srv_wf_def heap_store_def intro: counted_next [OF _ n d(9)])
  have r: "srv_refs E x' = srv_refs E x" "inner_refs (store x') = inner_refs (store x)"
    by (simp_all add: srv_refs_def d e inner_refs_def live_set_def)
  show "srv_wf E x'"
    using assms(2) c out by (simp add: srv_wf_def heap_store_def r e store_wf_objs [OF d(9)] shared_ints_def sole_def
        strs_def is_string_def d(3,9))
  have "str_of (store x') = str_of (store x)" by (simp add: fun_eq_iff str_of_def d(9))
  then have "obj_val (store x') = obj_val (store x)" by (intro ext) (simp only: obj_val_def)
  then show "keyspace x' = keyspace x" by (intro ext) (simp only: keyspace_def e d(9))
  have "raw_at (store x') = raw_at (store x)" by (simp add: fun_eq_iff raw_at_def d(9))
  then show "args_are x' ss = args_are x ss" by (simp add: args_are_def d(3))
  show "room E x' = room E x" by (simp add: room_def r)
qed

lemma srv_ready: "srv_wf E x \<Longrightarrow> ready x"
  unfolding ready_def srv_wf_def heap_store_def
  using countedD(2) by (metis not_None_eq not_less)

text \<open>The command ends with a reply: the conclusion of every theorem about commands.\<close>

definition answers ::
  "addr multiset \<Rightarrow> ('d::linorder, 'z) sctx_scheme result \<Rightarrow> ('d, 'z) sctx_scheme \<Rightarrow> string \<Rightarrow> (string \<Rightarrow> 'd aval option) \<Rightarrow> bool" where
  "answers E m x s K \<longleftrightarrow>
     (\<exists>x'. m = Inr x' \<and> srv_wf E x' \<and> keyspace x' = K \<and>
        outstanding (cl x') = outstanding (cl x) @ (if accepts (cl x) then s else []))"

lemma says_answers:
  fixes x :: "('d::linorder, 'z) sctx_scheme"
  assumes "says m x s" and "srv_wf E x"
  shows "answers E m x s (keyspace x)"
proof -
  obtain x' where x': "m = Inr x'" "emits x s x'" using assms(1) by (auto simp: says_def)
  then show ?thesis
    using emits_srv(1,2) [OF x'(2) assms(2)] by (auto simp: answers_def emits_def)
qed

section \<open>Replacing and deleting keys\<close>

lemma obj_wf_val:
  assumes "obj_wf r"
  shows "otype r = OBJ_STRING \<longleftrightarrow> (\<exists>s. obj_val st r = VStr s)"
    and "otype r = OBJ_HASH \<longleftrightarrow> (\<exists>m. obj_val st r = VTrie m)"
    and "otype r = OBJ_HEAPQ \<longleftrightarrow> (\<exists>m. obj_val st r = VHeap m)"
    and "otype r = OBJ_FTS \<longleftrightarrow> (\<exists>f. obj_val st r = VFts f)"
    and "otype r = OBJ_STRING \<Longrightarrow> string_ok r \<and> obj_val st r = VStr (obj_str r)"
  using assms
  by (auto simp: obj_wf_def obj_val_def obj_str_def string_ok_def split: otype.splits optr.splits)

lemma keyspace_at:
  assumes "heap_store (store x) R" and "dict_vals (db x) \<subseteq># R" and "dict_map (db x) k = Some a"
  obtains r where "objs (store x) a = Some r" and "obj_wf r" and "keyspace x k = Some (obj_val (store x) r)"
proof -
  have "a \<in># R" using assms(2,3) dict_map_vals by (metis mset_subset_eqD)
  then obtain r where r: "objs (store x) a = Some r"
    using countedD(3) [of "store x" R a] assms(1) by (auto simp: heap_store_def)
  moreover have "obj_wf r" using assms(1) r by (auto simp: heap_store_def store_wf_def)
  ultimately show ?thesis using that assms(3) by (simp add: keyspace_def)
qed

text \<open>
  A key can be dropped unless it holds a heap queue with items (freeing one hands the
  items to the object callback).
\<close>

definition droppable :: "('d, 'z) sctx_scheme \<Rightarrow> string \<Rightarrow> bool" where
  "droppable x k \<longleftrightarrow> (\<forall>h. keyspace x k = Some (VHeap h) \<longrightarrow> h = {#})"

lemma droppable_refs:
  assumes "droppable x k" and "dict_map (db x) k = Some a" and "objs (store x) a = Some r" and "obj_wf r"
  shows "otype r = OBJ_HEAPQ \<longrightarrow> refcount r = 1 \<longrightarrow> obj_refs r = {#}"
  using assms
  by (auto simp: droppable_def keyspace_def obj_val_def obj_wf_def obj_refs_heap split: optr.splits)

text \<open>Giving up the reference to a dropped value.\<close>

lemma drop_value:
  assumes h: "heap_store st (add_mset a R)" and r: "objs st a = Some r"
    and d: "otype r = OBJ_HEAPQ \<longrightarrow> refcount r = 1 \<longrightarrow> obj_refs r = {#}"
  obtains st' where "decrRefCount st a = Inr st'" and "heap_store st' R"
    and "stable (set_mset (R + inner_refs st')) st st'" and "inner_refs st' \<subseteq># inner_refs st"
proof -
  obtain st' where st': "decrRefCount st a = Inr st'" "counted st' R" "store_wf st'" "keeps st st'"
    "inner_refs st' \<subseteq># inner_refs st"
    using decrRefCount_counted [OF _ _ r d] h by (auto simp: heap_store_def)
  have s: "stable (set_mset (R + inner_refs st')) st st'" by (rule counted_stable [OF st'(4,2)])
  have "sole st' R"
    by (rule sole_sub [of st "add_mset a R"]) (use h stable_mono [OF s] in \<open>auto simp: heap_store_def\<close>)
  then have "heap_store st' R" using st' keeps_shared_ints [OF st'(4)] h by (auto simp: heap_store_def)
  with st' s show ?thesis using that by blast
qed

lemma keyspace_frame:
  assumes s: "stable (set_mset (R + inner_refs (store x'))) (store x) (store x')"
    and f: "finite (live_set (store x'))" and v: "dict_vals (db x') \<subseteq># R"
    and m: "dict_map (db x') k = dict_map (db x) k"
  shows "keyspace x' k = keyspace x k"
proof (cases "dict_map (db x) k")
  case None
  then show ?thesis using m by (simp add: keyspace_def)
next
  case (Some a)
  then have a: "a \<in># R" using m v dict_map_vals by (metis mset_subset_eqD)
  then obtain r where r: "objs (store x) a = Some r" using s unfolding stable_def by fastforce
  obtain r' where "objs (store x') a = Some r'" "obj_val (store x') r' = obj_val (store x) r"
    by (rule stable_val [OF s f a r])
  with Some r m show ?thesis by (simp add: keyspace_def)
qed

lemma keyspace_none: "dict_map (db x) k = None \<Longrightarrow> keyspace x k = None"
  by (simp add: keyspace_def)

lemma heap_store_finite: "heap_store st R \<Longrightarrow> finite (live_set st)"
  by (auto simp: heap_store_def dest: countedD(1))

text \<open>\<^verbatim>\<open>rr_db_set_key\<close>: the reference the database takes is the one counted last.\<close>

lemma rr_db_add_ok:
  assumes h: "heap_store (store x) (add_mset v (dict_vals (db x) + Q))" and db: "db_wf (db x)" and k: "nul_free key"
    and dr: "droppable x key"
  obtains x' where "rr_db_add x key (Some v) = Inr (True, x')" and "x' = x\<lparr>db := db x', store := store x'\<rparr>"
    and "db_wf (db x')" and "dict_map (db x') = (dict_map (db x))(key \<mapsto> v)"
    and "heap_store (store x') (dict_vals (db x') + Q)"
    and "stable (set_mset (dict_vals (db x') + Q + inner_refs (store x'))) (store x) (store x')"
    and "inner_refs (store x') \<subseteq># inner_refs (store x)"
    and "dict_vals (db x') \<subseteq># add_mset v (dict_vals (db x))"
proof -
  obtain d' where d': "dict_set (db x) key (Some v) = (d', True, freed (db x) key)" "dict_wf d'"
    "dict_map d' = (dict_map (db x))(key \<mapsto> v)" "free_cb d' = free_cb (db x)"
    "add_mset v (dict_vals (db x)) = dict_vals d' + mset (map snd (freed (db x) key))"
    using dict_set_vals [of "db x" key FreeObj v] db k by (auto simp: db_wf_def)
  have h': "heap_store (store x) (mset (map snd (freed (db x) key)) + (dict_vals d' + Q))"
  proof -
    have "add_mset v (dict_vals (db x) + Q) = mset (map snd (freed (db x) key)) + (dict_vals d' + Q)"
      using d'(5) by (metis add_mset_add_single union_assoc union_commute union_mset_add_mset_left)
    with h show ?thesis by simp
  qed
  have "\<exists>st'. decr_all decrRefCount (store x) (map snd (freed (db x) key)) = Inr st' \<and> heap_store st' (dict_vals d' + Q) \<and>
      stable (set_mset (dict_vals d' + Q + inner_refs st')) (store x) st' \<and> inner_refs st' \<subseteq># inner_refs (store x)"
  proof (cases "dict_map (db x) key")
    case None
    then have fr: "freed (db x) key = []" by (simp add: freed_def split: option.split)
    have "stable (set_mset (dict_vals d' + Q + inner_refs (store x))) (store x) (store x)"
      by (rule stable_refl) (use h' fr countedD(3,4) [of "store x" "dict_vals d' + Q"] in \<open>auto simp: heap_store_def\<close>)
    with h' fr show ?thesis by simp
  next
    case (Some w)
    then have fr: "freed (db x) key = [(FreeObj, w)]" using db by (simp add: freed_def db_wf_def)
    obtain r where r: "objs (store x) w = Some r" "obj_wf r"
      using keyspace_at [OF h _ Some] by (metis mset_subset_eq_add_left union_mset_add_mset_left add_mset_add_single union_commute)
    obtain st' where "decrRefCount (store x) w = Inr st'" "heap_store st' (dict_vals d' + Q)"
      "stable (set_mset (dict_vals d' + Q + inner_refs st')) (store x) st'" "inner_refs st' \<subseteq># inner_refs (store x)"
      using drop_value [OF _ r(1) droppable_refs [OF dr Some r], of "dict_vals d' + Q"] h' fr by auto
    then show ?thesis by (simp add: fr)
  qed
  then obtain st' where st': "decr_all decrRefCount (store x) (map snd (freed (db x) key)) = Inr st'"
    "heap_store st' (dict_vals d' + Q)" "stable (set_mset (dict_vals d' + Q + inner_refs st')) (store x) st'"
    "inner_refs st' \<subseteq># inner_refs (store x)" by blast
  show ?thesis
    by (rule that [of "x\<lparr>db := d', store := st'\<rparr>"])
      (use st' d' db in \<open>simp_all add: rr_db_add_def db_wf_def\<close>)
qed

definition few :: "'d store \<Rightarrow> addr multiset \<Rightarrow> bool" where
  "few st R \<longleftrightarrow> int (size (R + inner_refs st)) < OBJ_SHARED_REFCOUNT - 1"

lemma few_mono: "few st R \<Longrightarrow> R' \<subseteq># R \<Longrightarrow> inner_refs st' \<subseteq># inner_refs st \<Longrightarrow> few st' R'"
  unfolding few_def using size_mset_mono [of R' R] size_mset_mono [of "inner_refs st'" "inner_refs st"] by simp

lemma room_few: "room E x = few (store x) (srv_refs E x)"
  by (simp add: room_def few_def)

lemma take_value:
  assumes h: "heap_store st R" and v: "v \<in># R + inner_refs st" and few: "few st R" and str: "is_string st v"
  obtains st' where "incrRefCount st v = Inr st'" and "heap_store st' (add_mset v R)"
    and "stable (set_mset (R + inner_refs st')) st st'" and "inner_refs st' = inner_refs st"
proof -
  have c: "counted st R" and w: "store_wf st" and i: "shared_ints st" using h by (auto simp: heap_store_def)
  obtain r where r: "objs st v = Some r" using str by (auto simp: is_string_def)
  have "count R v + count (inner_refs st) v \<le> size (R + inner_refs st)"
    by (metis count_le_size count_union)
  then have small: "refcount r \<noteq> OBJ_SHARED_REFCOUNT - 1"
    using countedD(5) [OF c r] few by (auto simp: rc_ok_def few_def)
  obtain st' where st': "incrRefCount st v = Inr st'" "counted st' (add_mset v R)" "store_wf st'" "keeps st st'"
    using incrRefCount_counted [OF c w r small] by blast
  have in_: "inner_refs st' = inner_refs st"
    using st'(1) r inner_refs_refcount [OF countedD(1) [OF c] r] by (auto simp: incrRefCount_def get_obj_def)
  have s: "stable (set_mset (R + inner_refs st')) st st'"
    by (rule stable_mono [OF counted_stable [OF st'(4,2)]]) auto
  have "sole st' R" by (rule sole_sub [of st R]) (use h stable_mono [OF s] in \<open>auto simp: heap_store_def\<close>)
  moreover have "is_string st' v"
    using stable_is_string [OF s, of v] str v in_ by simp
  ultimately have "sole st' (add_mset v R)" by (rule sole_add)
  then show ?thesis
    using that st' in_ s keeps_shared_ints [OF st'(4) i] by (auto simp: heap_store_def)
qed

lemma rr_db_set_key_ok:
  assumes h: "heap_store (store x) (add_mset v (dict_vals (db x) + Q))" and db: "db_wf (db x)" and k: "nul_free key"
    and dr: "droppable x key" and few: "few (store x) (add_mset v (dict_vals (db x) + Q))" and str: "is_string (store x) v"
  obtains x' where "rr_db_set_key x key v = Inr (True, x')" and "x' = x\<lparr>db := db x', store := store x'\<rparr>"
    and "db_wf (db x')" and "dict_map (db x') = (dict_map (db x))(key \<mapsto> v)"
    and "heap_store (store x') (add_mset v (dict_vals (db x') + Q))"
    and "stable (set_mset (dict_vals (db x') + Q + inner_refs (store x'))) (store x) (store x')"
proof -
  obtain x1 where x1: "rr_db_add x key (Some v) = Inr (True, x1)" "x1 = x\<lparr>db := db x1, store := store x1\<rparr>"
    "db_wf (db x1)" "dict_map (db x1) = (dict_map (db x))(key \<mapsto> v)"
    "heap_store (store x1) (dict_vals (db x1) + Q)"
    "stable (set_mset (dict_vals (db x1) + Q + inner_refs (store x1))) (store x) (store x1)"
    "inner_refs (store x1) \<subseteq># inner_refs (store x)" "dict_vals (db x1) \<subseteq># add_mset v (dict_vals (db x))"
    by (rule rr_db_add_ok [OF h db k dr])
  have v: "v \<in># dict_vals (db x1) + Q + inner_refs (store x1)" using dict_map_vals [of "db x1" key v] x1(4) by simp
  then have str1: "is_string (store x1) v" using stable_is_string [OF x1(6), of v] str by simp
  have "dict_vals (db x1) + Q \<subseteq># add_mset v (dict_vals (db x) + Q)"
    using x1(8) subset_mset.add_right_mono [OF x1(8), of Q] by simp
  then have f1: "few (store x1) (dict_vals (db x1) + Q)" by (rule few_mono [OF few _ x1(7)])
  obtain st' where st': "incrRefCount (store x1) v = Inr st'" "heap_store st' (add_mset v (dict_vals (db x1) + Q))"
    "stable (set_mset (dict_vals (db x1) + Q + inner_refs st')) (store x1) st'" "inner_refs st' = inner_refs (store x1)"
    by (rule take_value [OF x1(5) v f1 str1])
  have eq: "x1\<lparr>store := st'\<rparr> = x\<lparr>db := db x1, store := st'\<rparr>" by (subst x1(2)) simp
  show ?thesis
  proof (rule that [of "x1\<lparr>store := st'\<rparr>"])
    show "x1\<lparr>store := st'\<rparr> = x\<lparr>db := db (x1\<lparr>store := st'\<rparr>), store := store (x1\<lparr>store := st'\<rparr>)\<rparr>"
      using eq by simp
    show "stable (set_mset (dict_vals (db (x1\<lparr>store := st'\<rparr>)) + Q + inner_refs (store (x1\<lparr>store := st'\<rparr>)))) (store x)
        (store (x1\<lparr>store := st'\<rparr>))"
      using x1(6) st'(3,4) stable_trans by simp
  qed (use x1 st' in \<open>simp_all add: rr_db_set_key_def\<close>)
qed

lemma rr_db_del_ok:
  fixes x :: "('d::linorder, 'z) sctx_scheme"
  assumes h: "heap_store (store x) (dict_vals (db x) + mset (bgtasks x) + Q)" and db: "db_wf (db x)" and k: "nul_free key"
    and dr: "droppable x key"
  obtains x' where "rr_db_del x key = Inr (dict_map (db x) key \<noteq> None, x')"
    and "x' = x\<lparr>db := db x', store := store x', bgtasks := bgtasks x'\<rparr>"
    and "db_wf (db x')" and "dict_map (db x') = (dict_map (db x))(key := None)"
    and "heap_store (store x') (dict_vals (db x') + mset (bgtasks x') + Q)"
    and "stable (set_mset (dict_vals (db x') + mset (bgtasks x) + Q + inner_refs (store x'))) (store x) (store x')"
    and "inner_refs (store x') \<subseteq># inner_refs (store x)"
    and "dict_vals (db x') + mset (bgtasks x') \<subseteq># dict_vals (db x) + mset (bgtasks x)"
proof -
  let ?Q = "mset (bgtasks x) + Q"
  obtain d' where d': "dict_del (db x) key = (d', dict_map (db x) key)" "dict_wf d'"
    "dict_map d' = (dict_map (db x))(key := None)" "free_cb d' = free_cb (db x)"
    "dict_vals (db x) = dict_vals d' + (case dict_map (db x) key of None \<Rightarrow> {#} | Some w \<Rightarrow> {#w#})"
    using dict_del_vals [of "db x" key] db k by (auto simp: db_wf_def)
  show ?thesis
  proof (cases "dict_map (db x) key")
    case None
    have "stable (set_mset (dict_vals d' + ?Q + inner_refs (store x))) (store x) (store x)"
      by (rule stable_refl) (use h None d'(5) countedD(3,4) [of "store x" "dict_vals d' + mset (bgtasks x) + Q"] in \<open>auto simp: heap_store_def\<close>)
    then show ?thesis
      by (intro that [of "x\<lparr>db := d'\<rparr>"])
        (use None d' h db in \<open>simp_all add: rr_db_del_def rr_db_del_sync_def rr_db_del_async_def db_wf_def ac_simps\<close>)
  next
    case (Some w)
    have hw: "heap_store (store x) (add_mset w (dict_vals d' + ?Q))" using h d'(5) Some by (simp add: ac_simps)
    obtain r where r: "objs (store x) w = Some r" "obj_wf r"
      using keyspace_at [OF h _ Some] by (metis mset_subset_eq_add_left union_assoc)
    obtain st' where st': "decrRefCount (store x) w = Inr st'" "heap_store st' (dict_vals d' + ?Q)"
      "stable (set_mset (dict_vals d' + ?Q + inner_refs st')) (store x) st'" "inner_refs st' \<subseteq># inner_refs (store x)"
      by (rule drop_value [OF hw r(1) droppable_refs [OF dr Some r]])
    obtain n where n: "get_lazyfree_effort r = Inr n"
      using r(2) by (auto simp: get_lazyfree_effort_def obj_wf_def ptr_dict_def string_ok_def split: otype.splits optr.splits)
    show ?thesis
    proof (cases "lazyfree_server_del x \<and> n > LAZYFREE_THRESHOLD")
      case True
      have s: "stable (set_mset (dict_vals d' + ?Q + inner_refs (store x))) (store x) (store x)"
        by (rule stable_refl) (use hw countedD(3,4) [of "store x" "add_mset w (dict_vals d' + ?Q)"] in \<open>auto simp: heap_store_def\<close>)
      show ?thesis
        by (rule that [of "x\<lparr>db := d', bgtasks := bgtasks x @ [w]\<rparr>"])
          (use True Some d' hw db s n r(1) in \<open>simp_all add: rr_db_del_def rr_db_del_async_def db_wf_def get_obj_def ac_simps\<close>)
    next
      case False
      have "rr_db_del x key = Inr (True, x\<lparr>db := d', store := st'\<rparr>)"
        using False Some d'(1) st'(1) n r(1) by (auto simp: rr_db_del_def rr_db_del_async_def rr_db_del_sync_def get_obj_def)
      then show ?thesis
        by (intro that [of "x\<lparr>db := d', store := st'\<rparr>"])
          (use Some d' st' db in \<open>simp_all add: db_wf_def ac_simps\<close>)
    qed
  qed
qed

section \<open>The commands on keys\<close>

lemma rr_db_lookup_ok: "db_wf (db x) \<Longrightarrow> nul_free key \<Longrightarrow> rr_db_lookup x key = dict_map (db x) key"
  by (simp add: rr_db_lookup_def db_wf_def dict_get_map)

lemma srv_wfD:
  assumes "srv_wf E x"
  shows "heap_store (store x) (srv_refs E x)" and "db_wf (db x)" and "out_wf (cl x)"
    and "dict_vals (db x) \<subseteq># srv_refs E x" and "strs (store x) (mset (argv (cl x)) + E)"
  using assms by (auto simp: srv_wf_def srv_refs_def)

lemma answers_from:
  "answers E m y s K \<Longrightarrow> outstanding (cl y) = outstanding (cl x) \<Longrightarrow> accepts (cl y) = accepts (cl x) \<Longrightarrow> answers E m x s K"
  by (simp add: answers_def)

lemma reply_shared_answers:
  fixes x :: "('d::linorder, 'z) sctx_scheme"
  shows "srv_wf E x \<Longrightarrow> answers E (reply_add_obj x (shared_string s)) x s (keyspace x)"
  by (intro says_answers reply_add_shared_says srv_ready)

lemma str_at_keyspace: "str_at (store x) a s \<Longrightarrow> dict_map (db x) k = Some a \<Longrightarrow> keyspace x k = Some (VStr s)"
  by (auto simp: str_at_def keyspace_def obj_val_def obj_str_def string_ok_def split: optr.splits)

definition wrongtype :: string where
  "wrongtype = ''-WRONGTYPE Operation against a key holding the wrong kind of value'' @ CRLF"

definition short :: "'d aval option \<Rightarrow> bool" where
  "short v \<longleftrightarrow> (\<forall>s. v = Some (VStr s) \<longrightarrow> length s < 2 ^ 63)"

lemma cmd_get_answers:
  fixes x :: "'d::linorder sctx"
  assumes wf: "srv_wf E x" and args: "args_are x [n, k]" and short: "short (keyspace x (cstr k))"
  shows "answers E (rr_cmd_get x) x
    (case keyspace x (cstr k) of None \<Rightarrow> ''$-1'' @ CRLF | Some (VStr s) \<Rightarrow> bulk s | _ \<Rightarrow> wrongtype) (keyspace x)"
proof (cases "dict_map (db x) (cstr k)")
  case None
  then show ?thesis
    using args_are_at(3) [OF args, of 1] srv_wfD(2) [OF wf] reply_shared_answers [OF wf]
    by (simp add: rr_cmd_get_def rr_db_lookup_ok keyspace_none shared_nullbulk_def)
next
  case (Some a)
  obtain r where r: "objs (store x) a = Some r" "obj_wf r" "keyspace x (cstr k) = Some (obj_val (store x) r)"
    by (rule keyspace_at [OF srv_wfD(1,4) [OF wf] Some])
  have eq: "rr_cmd_get x = (if otype r \<noteq> OBJ_STRING then reply_add_obj x shared_wrongtypeerr else reply_add_bulk_obj x r)"
    using args_are_at(3) [OF args, of 1] srv_wfD(2) [OF wf] Some r(1)
    by (simp add: rr_cmd_get_def rr_db_lookup_ok get_obj_def)
  show ?thesis
  proof (cases "otype r = OBJ_STRING")
    case True
    then have s: "string_ok r" "obj_val (store x) r = VStr (obj_str r)" using obj_wf_val(5) [OF r(2)] by auto
    then have "says (reply_add_bulk_obj x r) x (bulk (obj_str r))"
      using short r(3) by (intro reply_add_bulk_obj_says srv_ready [OF wf]) (auto simp: short_def)
    then show ?thesis using says_answers [OF _ wf] True eq s r(3) by simp
  next
    case False
    then have "obj_val (store x) r \<noteq> VStr s" for s using obj_wf_val(1) [OF r(2)] by metis
    then show ?thesis
      using False eq r(3) reply_shared_answers [OF wf, of wrongtype]
      by (auto simp: shared_wrongtypeerr_def wrongtype_def split: aval.split)
  qed
qed

lemma db_map_keyspace:
  assumes "srv_wf E x"
  shows "dict_map (db x) k = None \<longleftrightarrow> keyspace x k = None" and "dom (dict_map (db x)) = dom (keyspace x)"
proof -
  have eq: "dict_map (db x) k = None \<longleftrightarrow> keyspace x k = None" for k
  proof (cases "dict_map (db x) k")
    case (Some a)
    show ?thesis using Some keyspace_at [OF srv_wfD(1,4) [OF assms] Some] by (metis option.distinct(1))
  qed (simp add: keyspace_none)
  show "dict_map (db x) k = None \<longleftrightarrow> keyspace x k = None" by (rule eq)
  show "dom (dict_map (db x)) = dom (keyspace x)" using eq by (auto simp: dom_def)
qed

lemma del_key_ok:
  fixes x :: "('d::linorder, 'z) sctx_scheme"
  assumes wf: "srv_wf E x" and k: "nul_free key" and dr: "droppable x key"
  obtains x1 where "rr_db_del x key = Inr (keyspace x key \<noteq> None, x1)" and "srv_wf E x1" and "cl x1 = cl x"
    and "keyspace x1 = (keyspace x)(key := None)"
    and "stable (set_mset (mset (argv (cl x)) + E)) (store x) (store x1)"
    and "inner_refs (store x1) \<subseteq># inner_refs (store x)" and "srv_refs E x1 \<subseteq># srv_refs E x"
    and "x1 = x\<lparr>db := db x1, store := store x1, bgtasks := bgtasks x1\<rparr>"
proof -
  let ?Q = "mset (argv (cl x)) + E"
  have h: "heap_store (store x) (dict_vals (db x) + mset (bgtasks x) + ?Q)"
    using srv_wfD(1) [OF wf] by (simp add: srv_refs_def ac_simps)
  obtain x1 where x1: "rr_db_del x key = Inr (dict_map (db x) key \<noteq> None, x1)"
    "x1 = x\<lparr>db := db x1, store := store x1, bgtasks := bgtasks x1\<rparr>"
    "db_wf (db x1)" "dict_map (db x1) = (dict_map (db x))(key := None)"
    "heap_store (store x1) (dict_vals (db x1) + mset (bgtasks x1) + ?Q)"
    "stable (set_mset (dict_vals (db x1) + mset (bgtasks x) + ?Q + inner_refs (store x1))) (store x) (store x1)"
    "inner_refs (store x1) \<subseteq># inner_refs (store x)"
    "dict_vals (db x1) + mset (bgtasks x1) \<subseteq># dict_vals (db x) + mset (bgtasks x)"
    by (rule rr_db_del_ok [OF h srv_wfD(2) [OF wf] k dr])
  have cl: "cl x1 = cl x" by (subst x1(2)) simp
  have refs: "srv_refs E x1 = dict_vals (db x1) + mset (bgtasks x1) + ?Q" by (simp add: srv_refs_def cl ac_simps)
  have old: "srv_refs E x = dict_vals (db x) + mset (bgtasks x) + ?Q" by (simp add: srv_refs_def ac_simps)
  show ?thesis
  proof (rule that)
    show "rr_db_del x key = Inr (keyspace x key \<noteq> None, x1)" using x1(1) db_map_keyspace(1) [OF wf] by simp
    show "keyspace x1 = (keyspace x)(key := None)"
    proof (rule ext)
      fix k'
      show "keyspace x1 k' = ((keyspace x)(key := None)) k'"
        using keyspace_frame [OF x1(6) heap_store_finite [OF x1(5)], of k'] x1(4) keyspace_none [of x1 key]
        by (cases "k' = key") auto
    qed
    show "stable (set_mset ?Q) (store x) (store x1)" by (rule stable_mono [OF x1(6)]) auto
    have "strs (store x1) ?Q" by (rule stable_strs [OF x1(6) _ srv_wfD(5) [OF wf]]) auto
    then show "srv_wf E x1" using x1(3,5) srv_wfD(3) [OF wf] by (simp add: srv_wf_def refs cl)
    show "srv_refs E x1 \<subseteq># srv_refs E x" unfolding refs old by (rule subset_mset.add_right_mono [OF x1(8)])
  qed (use x1 cl in blast)+
qed

text \<open>The deletion that \<^verbatim>\<open>SET\<close> makes first when values are released in the background.\<close>

lemma set_prepare:
  fixes x :: "'d::linorder sctx"
  assumes wf: "srv_wf E x" and args: "args_are x [n, k, v]" and dr: "droppable x (cstr k)" and rm: "room E x"
  obtains x1 where "(if lazyfree_server_del x
       then rbind (arg_key x 1) (\<lambda>key. rbind (rr_db_del x key) (\<lambda>(_, x). Inr x)) else Inr x) = Inr x1"
    and "srv_wf E x1" and "args_are x1 [n, k, v]" and "droppable x1 (cstr k)" and "room E x1" and "cl x1 = cl x"
    and "(keyspace x1)(cstr k := None) = (keyspace x)(cstr k := None)"
proof (cases "lazyfree_server_del x")
  case False
  then show ?thesis using that assms by simp
next
  case True
  obtain x1 where x1: "rr_db_del x (cstr k) = Inr (keyspace x (cstr k) \<noteq> None, x1)" "srv_wf E x1" "cl x1 = cl x"
    "keyspace x1 = (keyspace x)(cstr k := None)" "stable (set_mset (mset (argv (cl x)) + E)) (store x) (store x1)"
    "inner_refs (store x1) \<subseteq># inner_refs (store x)" "srv_refs E x1 \<subseteq># srv_refs E x"
    by (rule del_key_ok [OF wf nul_free_cstr dr])
  have "args_are x1 [n, k, v]"
    using args stable_raw [OF x1(5)] unfolding args_are_def x1(3) by (auto simp: in_multiset_in_set list_all2_conv_all_nth)
  moreover have "room E x1" using rm x1(6,7) few_mono unfolding room_few by blast
  ultimately show ?thesis
    using that [of x1] True x1 args_are_at(3) [OF args, of 1] by (simp add: droppable_def)
qed


text \<open>Re-encoding an argument, as \<^verbatim>\<open>SET\<close>, \<^verbatim>\<open>RSET\<close> and \<^verbatim>\<open>QPUSH\<close> do before they store it.\<close>

lemma encode_arg:
  fixes x :: "'d::linorder sctx"
  assumes wf: "srv_wf E x" and args: "args_are x ss" and i: "i < length ss" and rm: "room E x"
  obtains b st' where "tryObjectEncoding (max_memory x) (store x) (argv (cl x) ! i) = Inr (b, st')"
    and "srv_wf E (set_arg (x\<lparr>store := st'\<rparr>) i b)" and "room E (set_arg (x\<lparr>store := st'\<rparr>) i b)"
    and "keyspace (set_arg (x\<lparr>store := st'\<rparr>) i b) = keyspace x" and "str_at st' b (ss ! i)"
    and "\<And>j. j < length ss \<Longrightarrow> j \<noteq> i \<Longrightarrow> arg_key (set_arg (x\<lparr>store := st'\<rparr>) i b) j = Inr (cstr (ss ! j))"
    and "b \<in># mset (argv (cl (set_arg (x\<lparr>store := st'\<rparr>) i b)))"
proof -
  let ?a = "argv (cl x) ! i" and ?as = "argv (cl x)"
  let ?R = "dict_vals (db x) + (mset ?as - {#?a#}) + mset (bgtasks x) + E"
  note at = args_are_at [OF args i]
  have refs: "srv_refs E x = add_mset ?a ?R"
    using at(4) by (simp add: srv_refs_def)
  have h: "counted (store x) (add_mset ?a ?R)" "store_wf (store x)" "shared_ints (store x)"
    using srv_wfD(1) [OF wf] by (simp_all add: heap_store_def refs)
  obtain b st' where enc: "tryObjectEncoding (max_memory x) (store x) ?a = Inr (b, st')" "encoded_ok (store x) ?R (ss ! i) b st'"
    using tryObjectEncoding_encoded [OF h raw_str_at [OF at(2)]] by blast
  let ?x = "set_arg (x\<lparr>store := st'\<rparr>) i b"
  have argv: "argv (cl ?x) = ?as[i := b]" "db ?x = db x" "store ?x = st'" "bgtasks ?x = bgtasks x"
    by (simp_all add: set_arg_def)
  have refs': "srv_refs E ?x = add_mset b ?R"
    using at(5) by (simp add: srv_refs_def argv mset_update)
  have s: "stable (set_mset (?R + inner_refs st')) (store x) st'"
    and sub: "inner_refs st' \<subseteq># inner_refs (store x)" and str: "str_at st' b (ss ! i)"
    using enc(2) by (simp_all add: encoded_ok_def)
  have "sole (store x) (add_mset ?a ?R)" using srv_wfD(1) [OF wf] by (simp only: heap_store_def refs)
  then have "sole st' ?R" by (rule sole_sub) (use stable_mono [OF s] in auto)
  then have h': "heap_store st' (add_mset b ?R)"
    using enc(2) sole_add str_at_is_string [OF str] by (simp add: encoded_ok_def heap_store_def)
  have out: "out_wf (cl ?x)" using srv_wfD(3) [OF wf] by (simp add: set_arg_def out_wf_def)
  show ?thesis
  proof (rule that [OF enc(1)])
    have "strs (store x) ((mset ?as - {#?a#}) + E)"
      using srv_wfD(5) [OF wf] by (auto simp: strs_def dest: in_diffD)
    then have "strs st' ((mset ?as - {#?a#}) + E)" by (rule stable_strs [OF s, rotated]) auto
    then have "strs st' (mset (?as[i := b]) + E)"
      using str_at_is_string [OF str] at(5) by (auto simp: strs_def mset_update)
    then show "srv_wf E ?x" using h' srv_wfD(2) [OF wf] out by (simp add: srv_wf_def refs' argv)
    have "size (srv_refs E ?x) = size (srv_refs E x)" by (simp add: refs refs')
    then show "room E ?x" using rm size_mset_mono [OF sub] by (simp add: room_def argv)
    show "keyspace ?x = keyspace x"
    proof (rule ext)
      fix k
      show "keyspace ?x k = keyspace x k"
        by (rule keyspace_frame [of ?R]) (use s heap_store_finite [OF h'] in \<open>simp_all add: argv\<close>)
    qed
    show "str_at st' b (ss ! i)" by (rule str)
    show "arg_key ?x j = Inr (cstr (ss ! j))" if j: "j < length ss" "j \<noteq> i" for j
    proof -
      note atj = args_are_at [OF args j(1)]
      have "?as ! j \<in># mset ?as - {#?a#}" by (rule nth_other_mem [OF at(5) atj(5) j(2)])
      then have "raw_at st' (?as ! j) (ss ! j)" using stable_raw [OF s _ atj(2)] by simp
      then show ?thesis
        using raw_cstr atj(5) j(2) by (simp add: arg_key_def arg_obj_def argv_at_def argv)
    qed
    show "b \<in># mset (argv (cl ?x))" using at(5) by (simp add: argv set_update_memI)
  qed
qed

lemma refs_without:
  assumes "b \<in># mset (argv (cl x))"
  shows "srv_refs E x = add_mset b (dict_vals (db x) + ((mset (argv (cl x)) - {#b#}) + mset (bgtasks x) + E))"
  using assms by (simp add: srv_refs_def ac_simps)

text \<open>Storing a string argument under a key.\<close>

lemma set_key_answers:
  fixes x :: "'d::linorder sctx"
  assumes wf: "srv_wf E x" and rm: "room E x" and b: "b \<in># mset (argv (cl x))" and s: "str_at (store x) b s"
    and k: "nul_free key" and dr: "droppable x key"
  shows "answers E (rbind (rr_db_set_key x key b) (\<lambda>(ok, x). reply_add_obj x (if ok then shared_ok else shared_err))) x
    (''+OK'' @ CRLF) ((keyspace x)(key \<mapsto> VStr s))"
proof -
  let ?Q = "(mset (argv (cl x)) - {#b#}) + mset (bgtasks x) + E"
  note refs = refs_without [OF b, of E]
  have h: "heap_store (store x) (add_mset b (dict_vals (db x) + ?Q))" using srv_wfD(1) [OF wf] by (simp only: refs)
  have few: "few (store x) (add_mset b (dict_vals (db x) + ?Q))" using rm by (simp only: room_few refs)
  obtain x1 where x1: "rr_db_set_key x key b = Inr (True, x1)" "x1 = x\<lparr>db := db x1, store := store x1\<rparr>" "db_wf (db x1)"
    "dict_map (db x1) = (dict_map (db x))(key \<mapsto> b)" "heap_store (store x1) (add_mset b (dict_vals (db x1) + ?Q))"
    "stable (set_mset (dict_vals (db x1) + ?Q + inner_refs (store x1))) (store x) (store x1)"
    by (rule rr_db_set_key_ok [OF h srv_wfD(2) [OF wf] k dr few str_at_is_string [OF s]])
  have cl: "cl x1 = cl x" "bgtasks x1 = bgtasks x" by (subst x1(2), simp)+
  have "srv_refs E x1 = add_mset b (dict_vals (db x1) + ?Q)" using refs_without [of b x1 E] b by (simp only: cl)
  moreover have "strs (store x1) (mset (argv (cl x)) + E)"
  proof (rule stable_strs [OF x1(6) _ srv_wfD(5) [OF wf]])
    have "b \<in># dict_vals (db x1)" using dict_map_vals [of "db x1" key b] x1(4) by simp
    then show "set_mset (mset (argv (cl x)) + E) \<subseteq> set_mset (dict_vals (db x1) + ?Q + inner_refs (store x1))"
      by (auto simp: in_diff_count)
  qed
  ultimately have wf1: "srv_wf E x1" using x1(3,5) srv_wfD(3) [OF wf] by (simp add: srv_wf_def cl)
  have "str_at (store x1) b s"
    using stable_str_at [OF x1(6) _ s] dict_map_vals [of "db x1" key b] x1(4) by simp
  then have K: "keyspace x1 key = Some (VStr s)" using str_at_keyspace x1(4) by (metis fun_upd_same)
  have "keyspace x1 = (keyspace x)(key \<mapsto> VStr s)"
  proof (rule ext)
    fix k'
    show "keyspace x1 k' = ((keyspace x)(key \<mapsto> VStr s)) k'"
      using K keyspace_frame [OF x1(6) heap_store_finite [OF x1(5)], of k'] x1(4) by (cases "k' = key") auto
  qed
  then show ?thesis
    using answers_from [OF reply_shared_answers [OF wf1, of "''+OK'' @ CRLF"]] x1(1) cl
    by (simp add: shared_ok_def)
qed

lemma cmd_set_answers:
  fixes x :: "'d::linorder sctx"
  assumes wf: "srv_wf E x" and args: "args_are x [n, k, v]" and dr: "droppable x (cstr k)" and rm: "room E x"
  shows "answers E (rr_cmd_set x) x (''+OK'' @ CRLF) ((keyspace x)(cstr k \<mapsto> VStr v))"
proof -
  obtain x1 where x1: "(if lazyfree_server_del x
       then rbind (arg_key x 1) (\<lambda>key. rbind (rr_db_del x key) (\<lambda>(_, x). Inr x)) else Inr x) = Inr x1"
    "srv_wf E x1" "args_are x1 [n, k, v]" "droppable x1 (cstr k)" "room E x1" "cl x1 = cl x"
    "(keyspace x1)(cstr k := None) = (keyspace x)(cstr k := None)"
    by (rule set_prepare [OF assms])
  obtain b st' where e: "tryObjectEncoding (max_memory x1) (store x1) (argv (cl x1) ! 2) = Inr (b, st')"
    "srv_wf E (set_arg (x1\<lparr>store := st'\<rparr>) 2 b)" "room E (set_arg (x1\<lparr>store := st'\<rparr>) 2 b)"
    "keyspace (set_arg (x1\<lparr>store := st'\<rparr>) 2 b) = keyspace x1" "str_at st' b ([n, k, v] ! 2)"
    "\<And>j. j < length [n, k, v] \<Longrightarrow> j \<noteq> 2 \<Longrightarrow> arg_key (set_arg (x1\<lparr>store := st'\<rparr>) 2 b) j = Inr (cstr ([n, k, v] ! j))"
    "b \<in># mset (argv (cl (set_arg (x1\<lparr>store := st'\<rparr>) 2 b)))"
    by (rule encode_arg [OF x1(2,3) _ x1(5), of 2]) auto
  let ?x = "set_arg (x1\<lparr>store := st'\<rparr>) 2 b"
  have st: "str_at (store ?x) b v" using e(5) by (simp add: set_arg_def)
  have "droppable ?x (cstr k)" using x1(4) e(4) by (simp add: droppable_def)
  note a = set_key_answers [OF e(2,3,7) st nul_free_cstr this]
  have "(keyspace ?x)(cstr k \<mapsto> VStr v) = (keyspace x)(cstr k \<mapsto> VStr v)"
    using x1(7) e(4) by (metis fun_upd_upd)
  moreover have "outstanding (cl ?x) = outstanding (cl x)" "accepts (cl ?x) = accepts (cl x)"
    using x1(6) by (simp_all add: set_arg_def outstanding_def accepts_def)
  moreover have "rr_cmd_set x =
     rbind (rr_db_set_key ?x (cstr k) b) (\<lambda>(ok, x). reply_add_obj x (if ok then shared_ok else shared_err))"
    using x1(1) args_are_at(1) [OF x1(3), of 2] e(1) e(6) [of 1]
    by (simp add: rr_cmd_set_def split_def)
  ultimately show ?thesis using answers_from [OF a] by metis
qed

lemma cmd_del_answers:
  fixes x :: "'d::linorder sctx"
  assumes wf: "srv_wf E x" and args: "args_are x [n, k]" and dr: "droppable x (cstr k)"
  shows "answers E (rr_cmd_del x) x ((if keyspace x (cstr k) = None then '':0'' else '':1'') @ CRLF)
    ((keyspace x)(cstr k := None))"
proof -
  obtain x1 where x1: "rr_db_del x (cstr k) = Inr (keyspace x (cstr k) \<noteq> None, x1)" "srv_wf E x1" "cl x1 = cl x"
    "keyspace x1 = (keyspace x)(cstr k := None)"
    by (rule del_key_ok [OF wf nul_free_cstr dr])
  have "answers E (reply_add_obj x1 (shared_string s)) x s ((keyspace x)(cstr k := None))" for s
    using answers_from [OF reply_shared_answers [OF x1(2), of s]] x1(3,4) by simp
  then show ?thesis
    using x1(1) args_are_at(3) [OF args, of 1]
    by (cases "keyspace x (cstr k)") (simp_all add: rr_cmd_del_def shared_cone_def shared_czero_def)
qed

lemma cmd_exists_answers:
  fixes x :: "'d::linorder sctx"
  assumes wf: "srv_wf E x" and args: "args_are x [n, k]"
  shows "answers E (rr_cmd_exists x) x ((if keyspace x (cstr k) = None then '':0'' else '':1'') @ CRLF) (keyspace x)"
  using reply_shared_answers [OF wf] args_are_at(3) [OF args, of 1] db_map_keyspace(1) [OF wf, of "cstr k"] srv_wfD(2) [OF wf]
  by (auto simp: rr_cmd_exists_def shared_cone_def shared_czero_def dict_contains_def dict_get_map db_wf_def)

lemma longlong_nat_says:
  assumes "ready x" and "n < 2 ^ 63"
  shows "says (reply_add_longlong x (to_ll (int n))) x (CHR '':'' # dec (int n) @ CRLF)"
proof -
  have "LLONG_MIN \<le> int n" "int n \<le> LLONG_MAX" using assms(2) by (simp_all add: LLONG_MIN_def LLONG_MAX_def)
  then show ?thesis using reply_add_longlong_says [OF assms(1)] by (simp add: to_ll_id)
qed

lemma cmd_len_answers:
  fixes x :: "'d::linorder sctx"
  assumes wf: "srv_wf E x" and small: "card (dom (keyspace x)) < 2 ^ 63"
  shows "answers E (rr_cmd_len x) x (CHR '':'' # dec (int (card (dom (keyspace x)))) @ CRLF) (keyspace x)"
proof -
  have len: "dict_length (db x) = card (dom (keyspace x))"
    using srv_wfD(2) [OF wf] db_map_keyspace(2) [OF wf] dict_length_card [of "db x"] by (simp add: db_wf_def)
  have "says (rr_cmd_len x) x (CHR '':'' # dec (int (card (dom (keyspace x)))) @ CRLF)"
    unfolding rr_cmd_len_def len using small by (rule longlong_nat_says [OF srv_ready [OF wf]])
  then show ?thesis by (rule says_answers [OF _ wf])
qed

definition val_type :: "'d aval option \<Rightarrow> string" where
  "val_type v = (case v of None \<Rightarrow> ''none'' | Some (VStr _) \<Rightarrow> ''string'' | Some (VTrie _) \<Rightarrow> ''trie''
     | Some (VHeap _) \<Rightarrow> ''heapq'' | Some (VFts _) \<Rightarrow> ''fts'')"

lemma obj_wf_type: "obj_wf r \<Longrightarrow> type_name (otype r) = val_type (Some (obj_val st r))"
  by (auto simp: obj_wf_def obj_val_def val_type_def type_name_def string_ok_def split: otype.splits optr.splits)

lemma cmd_type_answers:
  fixes x :: "'d::linorder sctx"
  assumes wf: "srv_wf E x" and args: "args_are x [n, k]"
  shows "answers E (rr_cmd_type x) x (CHR ''+'' # val_type (keyspace x (cstr k)) @ CRLF) (keyspace x)"
proof -
  have eq: "rr_cmd_type x = Inr (reply_add_status x (val_type (keyspace x (cstr k))))"
  proof (cases "dict_map (db x) (cstr k)")
    case None
    then show ?thesis
      using args_are_at(3) [OF args, of 1] srv_wfD(2) [OF wf]
      by (simp add: rr_cmd_type_def rr_db_lookup_ok keyspace_none val_type_def)
  next
    case (Some a)
    obtain r where r: "objs (store x) a = Some r" "obj_wf r" "keyspace x (cstr k) = Some (obj_val (store x) r)"
      by (rule keyspace_at [OF srv_wfD(1,4) [OF wf] Some])
    show ?thesis
      using Some r obj_wf_type [OF r(2), of "store x"] args_are_at(3) [OF args, of 1] srv_wfD(2) [OF wf]
      by (simp add: rr_cmd_type_def rr_db_lookup_ok get_obj_def)
  qed
  have "cstr (val_type v) = val_type v" for v :: "'d aval option"
    by (auto simp: val_type_def cstr_def split: option.split aval.split)
  then show ?thesis
    using says_answers [OF reply_add_status_says [OF srv_ready [OF wf]] wf, of "val_type (keyspace x (cstr k))"] eq by simp
qed

end
