(* ===== verification/Aggregates.thy ===== *)
theory Aggregates
  imports Keyspace
begin

text \<open>
  The commands on tries and heap queues as operations on the keyspace. \<open>put_contents\<close> is the
  step they share: new contents are written into an aggregate that takes over some
  references and gives up others; \<open>aggregate_done\<close> says what that makes of the keyspace.
  An aggregate belongs to one key (\<open>sole\<close>), so writing it changes no other.
\<close>

section \<open>Changing what a trie or a heap holds\<close>

lemma store_wf_inner: "store_wf st \<Longrightarrow> a \<in># inner_refs st \<Longrightarrow> \<exists>s. str_at st a s"
  by (auto simp: store_wf_def str_at_def)

text \<open>
  Writing new contents \<open>r'\<close> into the aggregate at \<open>a\<close>: it takes over the references \<open>N\<close> and
  gives up \<open>M\<close>.
\<close>

lemma put_contents:
  assumes h: "heap_store st (N + Q)" and r: "objs st a = Some r" "otype r \<noteq> OBJ_STRING"
    and r': "obj_wf r'" "otype r' = otype r" "refcount r' = refcount r"
    and refs: "obj_refs r' + M = obj_refs r + N" and N: "\<forall>b\<in>#N. \<exists>s. str_at st b s"
  shows "heap_store (set_obj st a r') (M + Q)"
    and "M + inner_refs (set_obj st a r') = N + inner_refs st"
proof -
  let ?st = "set_obj st a r'"
  have c: "counted st (N + Q)" and w: "store_wf st" and i: "shared_ints st" and s: "sole st (N + Q)"
    using h by (auto simp: heap_store_def)
  have "M + inner_refs ?st + obj_refs r = M + (inner_refs st + obj_refs r')"
    using inner_refs_set [OF countedD(1) [OF c] r(1), of r'] by (simp add: ac_simps)
  also have "\<dots> = N + inner_refs st + obj_refs r" using refs by (simp add: ac_simps)
  finally show tot: "M + inner_refs ?st = N + inner_refs st" by simp
  have str: "\<exists>s. str_at st b s" if "b \<in># M + inner_refs ?st" for b
    using that N store_wf_inner [OF w] unfolding tot by auto
  have na: "b \<noteq> a" if "b \<in># M + inner_refs ?st" for b
    using str [OF that] r by (auto simp: str_at_def string_ok_def)
  have o: "objs ?st b = (if b = a then Some r' else objs st b)" for b by (simp add: set_obj_def)
  have nos: "refcount r \<noteq> OBJ_SHARED_REFCOUNT" using countedD(5) [OF c r(1)] r(2) by (auto simp: rc_ok_def string_ok_def)
  have cnt: "count (M + Q) b + count (inner_refs ?st) b = count (N + Q) b + count (inner_refs st) b" for b
    using arg_cong [OF tot, of "\<lambda>X. count X b"] by simp
  have "counted ?st (M + Q)"
  proof (rule countedI)
    show "finite (live_set ?st)" using countedD(1) [OF c] live_set_simps(2) [of st a r r'] r(1) by simp
    show "b < next_addr ?st" if "objs ?st b = Some rb" for b rb
      using that countedD(2) [OF c r(1)] countedD(2) [OF c, of b rb] by (auto simp: o live_set_simps split: if_splits)
    show "objs ?st b \<noteq> None" if "b \<in># M + Q" for b
    proof (cases "b \<in># Q")
      case True
      then show ?thesis using countedD(3) [OF c, of b] by (simp add: o)
    next
      case False
      then show ?thesis using that str [of b] by (auto simp: o str_at_def)
    qed
    show "objs ?st b \<noteq> None" if "b \<in># inner_refs ?st" for b
      using that str [of b] by (auto simp: o str_at_def)
    show "rc_ok rb (count (M + Q) b + count (inner_refs ?st) b)" if b: "objs ?st b = Some rb" for b rb
    proof (cases "b = a")
      case True
      then show ?thesis
        unfolding cnt using countedD(5) [OF c r(1)] b nos r' by (auto simp: o rc_ok_def)
    next
      case False
      then have "objs st b = Some rb" using b by (simp add: o)
      then show ?thesis unfolding cnt by (rule countedD(5) [OF c])
    qed
  qed
  moreover have "store_wf ?st"
    unfolding store_wf_def
  proof (intro conjI allI impI ballI)
    show "obj_wf rb" if "objs ?st b = Some rb" for b rb
      using that w r'(1) by (auto simp: o store_wf_def split: if_splits)
    show "\<exists>r. objs ?st b = Some r \<and> string_ok r" if "b \<in># inner_refs ?st" for b
      using str [of b] na [of b] that by (auto simp: o str_at_def)
  qed
  moreover have "shared_ints ?st"
    using i r(1) nos unfolding shared_ints_def by (auto simp: o)
  moreover have "sole ?st (M + Q)"
    unfolding sole_def
  proof
    fix b assume b: "b \<in># M + Q"
    show "is_string ?st b \<or> count (M + Q) b = 1"
    proof (cases "is_string st b")
      case True
      then have "b \<noteq> a" using r by (auto simp: is_string_def)
      then show ?thesis using True by (simp add: is_string_def o)
    next
      case False
      then have "b \<notin># M" "b \<notin># N" using str [of b] N str_at_is_string by (metis union_iff)+
      moreover from this have "b \<in># Q" using b by simp
      ultimately have "b \<in># Q" "count (M + Q) b = count (N + Q) b" by (simp_all add: not_in_iff)
      then show ?thesis using s False by (auto simp: sole_def)
    qed
  qed
  ultimately show "heap_store ?st (M + Q)" by (simp add: heap_store_def)
qed

text \<open>Two keys cannot hold the same trie.\<close>

lemma two_keys:
  assumes "dict_wf d" and "dict_map d k = Some a" and "dict_map d k' = Some a" and "k \<noteq> k'"
  shows "1 < count (dict_vals d) a"
proof -
  have f: "finite (dom (dict_map d))" by (simp add: dict_map_def finite_dom_map_of)
  have "dict_vals d = add_mset a (map_vals ((dict_map d)(k := None)))"
    using map_vals_del [OF f, of k] assms(1,2) by (simp add: dict_vals_map)
  moreover have "a \<in># map_vals ((dict_map d)(k := None))"
    using f assms(3,4) by (force simp: map_vals_def)
  ultimately show ?thesis by (simp add: not_in_iff)
qed

lemma sole_key:
  assumes "heap_store st R" and "dict_vals d \<subseteq># R" and "dict_wf d"
    and "dict_map d k = Some a" and "\<not> is_string st a" and "k' \<noteq> k"
  shows "dict_map d k' \<noteq> Some a"
proof
  assume "dict_map d k' = Some a"
  then have "1 < count R a" "a \<in># R"
    using two_keys [OF assms(3,4) _ assms(6) [symmetric]] mset_subset_eq_count [OF assms(2), of a]
      dict_map_vals [OF assms(4)] mset_subset_eqD [OF assms(2)] by auto
  then show False using assms(1,5) by (auto simp: heap_store_def sole_def)
qed

text \<open>
  The keyspace after a command worked on the aggregate at \<open>a\<close> under \<open>key\<close>, when all other
  objects that live on kept their contents.
\<close>

lemma value_frame:
  assumes s: "stable (set_mset (R + inner_refs st') - {a}) st st'" and f: "finite (live_set st')"
    and f0: "finite (live_set st)" and w: "store_wf st" and a: "\<not> is_string st a" and c: "c \<in># R" "c \<noteq> a" and r: "objs st c = Some r"
  obtains r' where "objs st' c = Some r'" and "obj_val st' r' = obj_val st r"
proof -
  obtain r' where r': "objs st' c = Some r'" "obj_refs r' = obj_refs r" "ptr r' = ptr r"
    using stableD [OF s _ r] c by (metis DiffI UnI1 set_mset_union singletonD)
  have "str_of st' b = str_of st b" if b: "b \<in># obj_refs r" for b
  proof (rule stable_str_of [OF s])
    have in': "b \<in># inner_refs st'" using obj_refs_inner [OF f r'(1)] b r'(2) by (auto dest: mset_subset_eqD)
    have "b \<in># inner_refs st" using obj_refs_inner [OF f0 r] b by (auto dest: mset_subset_eqD)
    then have "b \<noteq> a" using a store_wf_inner [OF w] str_at_is_string by blast
    with in' show "b \<in> set_mset (R + inner_refs st') - {a}" by simp
  qed
  then have "obj_val st' r' = obj_val st r" by (intro obj_val_same r'(3))
  with r' that show ?thesis by blast
qed

lemma keyspace_update:
  fixes x x' :: "('d::linorder, 'z) sctx_scheme"
  assumes h: "heap_store (store x) R" "dict_vals (db x) \<subseteq># R" and db: "dict_wf (db x)" "db x' = db x"
    and key: "dict_map (db x) key = Some a" "\<not> is_string (store x) a"
    and f': "finite (live_set (store x'))"
    and s: "stable (set_mset (dict_vals (db x) + inner_refs (store x')) - {a}) (store x) (store x')"
    and r: "objs (store x') a = Some r"
  shows "keyspace x' = (keyspace x)(key \<mapsto> obj_val (store x') r)"
proof (rule ext)
  fix k
  show "keyspace x' k = ((keyspace x)(key \<mapsto> obj_val (store x') r)) k"
  proof (cases "k = key")
    case True
    then show ?thesis using key(1) r db(2) by (simp add: keyspace_def)
  next
    case False
    show ?thesis
    proof (cases "dict_map (db x) k")
      case None
      then show ?thesis using False db(2) by (simp add: keyspace_def)
    next
      case (Some c)
      have ca: "c \<noteq> a" using sole_key [OF h db(1) key False] Some by auto
      obtain rc where rc: "objs (store x) c = Some rc" by (rule keyspace_at [OF h Some])
      have w: "store_wf (store x)" using h(1) by (simp add: heap_store_def)
      obtain r' where "objs (store x') c = Some r'" "obj_val (store x') r' = obj_val (store x) rc"
        by (rule value_frame [OF s f' heap_store_finite [OF h(1)] w key(2) dict_map_vals [OF Some] ca rc])
      then show ?thesis using Some False rc db(2) by (simp add: keyspace_def)
    qed
  qed
qed

lemma stable_around: "stable X (set_obj st a r') st' \<Longrightarrow> stable (X - {a}) st st'"
  unfolding stable_def live_set_simps(4) by (metis DiffD1 DiffD2 fun_upd_other singletonI)

text \<open>
  A command that wrote \<open>r'\<close> over the aggregate under \<open>key\<close> and then took and gave up
  references to strings.
\<close>

lemma aggregate_done:
  fixes x :: "('d::linorder, 'z) sctx_scheme"
  assumes wf: "srv_wf E x" and key: "dict_map (db x) key = Some a" "objs (store x) a = Some r" "otype r \<noteq> OBJ_STRING"
    and r': "otype r' = otype r" and h': "heap_store st' (srv_refs E x)"
    and s0: "stable (set_mset (srv_refs E x + inner_refs st')) (set_obj (store x) a r') st'"
  shows "srv_wf E (x\<lparr>store := st'\<rparr>)"
    and "keyspace (x\<lparr>store := st'\<rparr>) = (keyspace x)(key \<mapsto> obj_val (store x) r')"
proof -
  let ?x = "x\<lparr>store := st'\<rparr>"
  have s: "stable (set_mset (dict_vals (db x) + inner_refs st')) (set_obj (store x) a r') st'"
    by (rule stable_mono [OF s0]) (auto simp: srv_refs_def)
  have "is_string (set_obj (store x) a r') b" if "is_string (store x) b" for b
    using that key(2,3) r' by (auto simp: is_string_def live_set_simps(4))
  then have "strs (set_obj (store x) a r') (mset (argv (cl x)) + E)"
    using srv_wfD(5) [OF wf] unfolding strs_def by blast
  then have "strs st' (mset (argv (cl x)) + E)" by (rule stable_strs [OF s0, rotated]) (auto simp: srv_refs_def)
  then show "srv_wf E ?x" using wf h' by (simp add: srv_wf_def srv_refs_def)
  have a: "a \<in> set_mset (dict_vals (db x) + inner_refs st')" using dict_map_vals [OF key(1)] by simp
  obtain r2 where r2: "objs st' a = Some r2" "obj_refs r2 = obj_refs r'" "otype r2 = otype r'" "ptr r2 = ptr r'"
    by (rule stableD [OF s a, of r']) (simp_all add: set_obj_def)
  note s' = stable_around [OF s] and f' = heap_store_finite [OF h']
  have na: "\<not> is_string (store x) a" using key by (simp add: is_string_def)
  have "str_of st' c = str_of (store x) c" if c: "c \<in># obj_refs r'" for c
  proof (rule stable_str_of [OF s'])
    have in': "c \<in># inner_refs st'" using obj_refs_inner [OF f' r2(1)] c r2(2) by (auto dest: mset_subset_eqD)
    then have "is_string st' c" using store_wf_inner [of st'] h' str_at_is_string by (auto simp: heap_store_def)
    then have "c \<noteq> a" using r2(1,3) r' key(3) by (auto simp: is_string_def)
    with in' show "c \<in> set_mset (dict_vals (db x) + inner_refs st') - {a}" by simp
  qed
  then have val: "obj_val st' r2 = obj_val (store x) r'" by (intro obj_val_same r2(4))
  have "dict_wf (db x)" using srv_wfD(2) [OF wf] by (simp add: db_wf_def)
  then have "keyspace ?x = (keyspace x)(key \<mapsto> obj_val (store ?x) r2)"
    by (intro keyspace_update [OF srv_wfD(1,4) [OF wf] _ _ key(1) na]) (use s' f' r2(1) in simp_all)
  then show "keyspace ?x = (keyspace x)(key \<mapsto> obj_val (store x) r')" by (simp add: val)
qed

section \<open>The commands on tries\<close>

fun val_is :: "otype \<Rightarrow> 'd aval \<Rightarrow> bool" where
  "val_is OBJ_STRING (VStr _) \<longleftrightarrow> True"
| "val_is OBJ_HASH (VTrie _) \<longleftrightarrow> True"
| "val_is OBJ_HEAPQ (VHeap _) \<longleftrightarrow> True"
| "val_is OBJ_FTS (VFts _) \<longleftrightarrow> True"
| "val_is _ _ \<longleftrightarrow> False"

lemma obj_wf_val_is: "obj_wf r \<Longrightarrow> otype r = ty \<longleftrightarrow> val_is ty (obj_val st r)"
  by (auto simp: obj_wf_def obj_val_def string_ok_def split: otype.splits optr.splits) (cases ty; simp)+

text \<open>
  What the commands on aggregates answer for a missing key: the null bulk, sent as the
  contents of a bulk string.
\<close>

definition missing :: string where
  "missing = bulk (''$-1'' @ CRLF)"

text \<open>The commands that first look for an aggregate of a type: what they answer and the keyspace they leave.\<close>

definition typed_case :: "otype \<Rightarrow> 'd aval option \<Rightarrow> 'a \<Rightarrow> 'a \<Rightarrow> ('d aval \<Rightarrow> 'a) \<Rightarrow> 'a" where
  "typed_case ty v none wrong f = (case v of None \<Rightarrow> none | Some w \<Rightarrow> if val_is ty w then f w else wrong)"

lemma typed_case_const [simp]: "typed_case ty v z z (\<lambda>_. z) = z"
  by (simp add: typed_case_def split: option.split)

lemma with_typed_answers:
  fixes x :: "'d::linorder sctx"
  assumes wf: "srv_wf E x" and args: "args_are x (n # k # ss)"
    and body: "\<And>a r. dict_map (db x) (cstr k) = Some a \<Longrightarrow> objs (store x) a = Some r \<Longrightarrow> obj_wf r \<Longrightarrow> otype r = ty \<Longrightarrow>
      keyspace x (cstr k) = Some (obj_val (store x) r) \<Longrightarrow>
      answers E (body x a) x (f (obj_val (store x) r)) (K (obj_val (store x) r))"
  shows "answers E (with_typed x ty body) x (typed_case ty (keyspace x (cstr k)) missing wrongtype f)
    (typed_case ty (keyspace x (cstr k)) (keyspace x) (keyspace x) K)"
proof (cases "dict_map (db x) (cstr k)")
  case None
  have ok: "string_ok (shared_nullbulk :: 'd robj)" "obj_str (shared_nullbulk :: 'd robj) = ''$-1'' @ CRLF"
    by (simp_all add: shared_nullbulk_def)
  have "answers E (reply_add_bulk_obj x shared_nullbulk) x missing (keyspace x)"
    using says_answers [OF reply_add_bulk_obj_says [OF srv_ready [OF wf] ok(1)] wf] ok(2) by (simp add: missing_def CRLF_def)
  then have "answers E (rbind (reply_add_bulk_obj x shared_nullbulk) Inr) x missing (keyspace x)"
    by (auto simp: answers_def)
  then show ?thesis
    using None args_are_at(3) [OF args, of 1] srv_wfD(2) [OF wf]
    by (simp add: with_typed_def rr_db_lookup_or_reply_def rr_db_lookup_ok keyspace_none typed_case_def rbind_assoc)
next
  case (Some a)
  obtain r where r: "objs (store x) a = Some r" "obj_wf r" "keyspace x (cstr k) = Some (obj_val (store x) r)"
    by (rule keyspace_at [OF srv_wfD(1,4) [OF wf] Some])
  have eq: "with_typed x ty body = (if otype r \<noteq> ty then rbind (reply_add_obj x shared_wrongtypeerr) Inr else body x a)"
    using Some args_are_at(3) [OF args, of 1] srv_wfD(2) [OF wf] r(1)
    by (simp add: with_typed_def rr_db_lookup_or_reply_def rr_db_lookup_ok checkType_def get_obj_def rbind_assoc)
  have "answers E (rbind (reply_add_obj x shared_wrongtypeerr) Inr) x wrongtype (keyspace x)"
    using reply_shared_answers [OF wf, of wrongtype] by (auto simp: shared_wrongtypeerr_def wrongtype_def answers_def)
  then show ?thesis
    using body [OF Some r(1,2)] r(3) obj_wf_val_is [OF r(2), of ty "store x"]
    by (auto simp: eq typed_case_def)
qed

lemma hash_dict:
  assumes "obj_wf r" and "otype r = OBJ_HASH"
  obtains d where "ptr r = PDict d" and "dict_wf d" and "free_cb d = Some FreeObj" and "ptr_dict r = Inr d"
    and "encoding r = OBJ_ENCODING_HT"
  using assms by (auto simp: obj_wf_def ptr_dict_def split: optr.splits)

lemma trie_val: "ptr r = PDict d \<Longrightarrow> obj_val st r = VTrie (\<lambda>k. map_option (str_of st) (dict_map d k))"
  by (simp add: obj_val_def)

text \<open>The values of an aggregate are strings.\<close>

lemma inner_string:
  assumes "heap_store st R" and "objs st a = Some r" and "v \<in># obj_refs r"
  obtains rv where "objs st v = Some rv" and "string_ok rv" and "str_of st v = obj_str rv" and "is_string st v"
proof -
  have w: "store_wf st" using assms(1) by (simp add: heap_store_def)
  have "v \<in># inner_refs st"
    using obj_refs_inner [OF heap_store_finite [OF assms(1)] assms(2)] assms(3) by (auto dest: mset_subset_eqD)
  then obtain rv where "objs st v = Some rv" "string_ok rv" using w by (auto simp: store_wf_def)
  then show ?thesis using that by (simp add: str_of_def is_string_def string_ok_def)
qed

definition trie_get :: "'d aval \<Rightarrow> string \<Rightarrow> string option" where
  "trie_get v f = (case v of VTrie m \<Rightarrow> m f | _ \<Rightarrow> None)"

definition opt_bulk :: "string option \<Rightarrow> string" where
  "opt_bulk v = (case v of None \<Rightarrow> ''$-1'' @ CRLF | Some s \<Rightarrow> bulk s)"

lemma reply_inner_answers:
  fixes x :: "'d::linorder sctx"
  assumes wf: "srv_wf E x" and r: "objs (store x) a = Some r" and v: "v \<in># obj_refs r"
    and len: "length (str_of (store x) v) < 2 ^ 63"
  shows "answers E (rbind (get_obj (store x) v) (reply_add_bulk_obj x)) x (bulk (str_of (store x) v)) (keyspace x)"
proof -
  obtain rv where rv: "objs (store x) v = Some rv" "string_ok rv" "str_of (store x) v = obj_str rv"
    by (rule inner_string [OF srv_wfD(1) [OF wf] r v])
  then show ?thesis
    using says_answers [OF reply_add_bulk_obj_says [OF srv_ready [OF wf] rv(2)] wf] len by (simp add: get_obj_def)
qed

lemma cmd_rget_answers:
  fixes x :: "'d::linorder sctx"
  assumes wf: "srv_wf E x" and args: "args_are x [n, k, f]"
    and short: "\<And>v s. keyspace x (cstr k) = Some v \<Longrightarrow> trie_get v (cstr f) = Some s \<Longrightarrow> length s < 2 ^ 63"
  shows "answers E (rr_cmd_rget x) x
    (typed_case OBJ_HASH (keyspace x (cstr k)) missing wrongtype (\<lambda>v. opt_bulk (trie_get v (cstr f)))) (keyspace x)"
proof -
  have "answers E (rr_cmd_rget x) x
    (typed_case OBJ_HASH (keyspace x (cstr k)) missing wrongtype (\<lambda>v. opt_bulk (trie_get v (cstr f))))
    (typed_case OBJ_HASH (keyspace x (cstr k)) (keyspace x) (keyspace x) (\<lambda>_. keyspace x))"
    unfolding rr_cmd_rget_def
  proof (rule with_typed_answers [OF wf args])
    fix a r assume r: "objs (store x) a = Some r" "obj_wf r" "otype r = OBJ_HASH"
      and key: "keyspace x (cstr k) = Some (obj_val (store x) r)"
    obtain d where d: "ptr r = PDict d" "dict_wf d" "ptr_dict r = Inr d" by (rule hash_dict [OF r(2,3)])
    have g: "trie_get (obj_val (store x) r) (cstr f) = map_option (str_of (store x)) (dict_map d (cstr f))"
      by (simp add: trie_get_def trie_val [OF d(1)])
    have eq: "rbind (trie_of x a) (\<lambda>d. rbind (arg_key x 2) (\<lambda>key. case dict_get d key of None \<Rightarrow> reply_add_obj x shared_nullbulk
        | Some v \<Rightarrow> rbind (get_obj (store x) v) (reply_add_bulk_obj x))) =
      (case dict_map d (cstr f) of None \<Rightarrow> reply_add_obj x shared_nullbulk | Some v \<Rightarrow> rbind (get_obj (store x) v) (reply_add_bulk_obj x))"
      using args_are_at(3) [OF args, of 2] r(1) d by (simp add: trie_of_def get_obj_def dict_get_map)
    show "answers E (rbind (trie_of x a) (\<lambda>d. rbind (arg_key x 2) (\<lambda>key. case dict_get d key of None \<Rightarrow> reply_add_obj x shared_nullbulk
        | Some v \<Rightarrow> rbind (get_obj (store x) v) (reply_add_bulk_obj x)))) x (opt_bulk (trie_get (obj_val (store x) r) (cstr f))) (keyspace x)"
    proof (cases "dict_map d (cstr f)")
      case None
      then show ?thesis unfolding eq g
        using reply_shared_answers [OF wf, of "''$-1'' @ CRLF"] by (simp add: shared_nullbulk_def opt_bulk_def)
    next
      case (Some v)
      then have v: "v \<in># obj_refs r" using dict_map_vals obj_refs_dict [OF d(1)] by metis
      show ?thesis unfolding eq g
        using reply_inner_answers [OF wf r(1) v] short [OF key] g Some by (simp add: opt_bulk_def)
    qed
  qed
  then show ?thesis by simp
qed

lemma put_trie_eq: "objs (store x) a = Some r \<Longrightarrow> put_trie x a d = Inr (x\<lparr>store := set_obj (store x) a (r\<lparr>ptr := PDict d\<rparr>)\<rparr>)"
  by (simp add: put_trie_def get_obj_def)

lemma trie_wf: "obj_wf r \<Longrightarrow> otype r = OBJ_HASH \<Longrightarrow> dict_wf d \<Longrightarrow> free_cb d = Some FreeObj \<Longrightarrow> obj_wf (r\<lparr>ptr := PDict d\<rparr>)"
  by (simp add: obj_wf_def)

lemma drop_string:
  assumes "heap_store st (add_mset v R)" and "is_string st v"
  obtains st' where "decrRefCount st v = Inr st'" and "heap_store st' R"
    and "stable (set_mset (R + inner_refs st')) st st'" and "inner_refs st' \<subseteq># inner_refs st"
proof -
  obtain r where "objs st v = Some r" "otype r = OBJ_STRING" using assms(2) by (auto simp: is_string_def)
  with drop_value [OF assms(1)] that show ?thesis by (metis otype.distinct(3))
qed

text \<open>\<^verbatim>\<open>RDEL\<close>: deleting a key of a trie, and the fault when it is not there.\<close>

lemma rdel_body:
  fixes x :: "'d::linorder sctx"
  assumes wf: "srv_wf E x" and args: "args_are x [n, k, f]"
    and key: "dict_map (db x) (cstr k) = Some a" "objs (store x) a = Some r" "obj_wf r" "otype r = OBJ_HASH"
    and v: "trie_get (obj_val (store x) r) (cstr f) \<noteq> None"
  shows "answers E (rr_cmd_rdel x) x ('':1'' @ CRLF)
    ((keyspace x)(cstr k \<mapsto> VTrie ((trie_get (obj_val (store x) r))(cstr f := None))))"
proof -
  obtain d where d: "ptr r = PDict d" "dict_wf d" "free_cb d = Some FreeObj" "ptr_dict r = Inr d"
    by (rule hash_dict [OF key(3,4)])
  obtain w where w: "dict_map d (cstr f) = Some w" using v by (auto simp: trie_get_def trie_val [OF d(1)])
  obtain d' where d': "dict_del d (cstr f) = (d', dict_map d (cstr f))" "dict_wf d'"
    "dict_map d' = (dict_map d)(cstr f := None)" "free_cb d' = free_cb d"
    "dict_vals d = dict_vals d' + (case dict_map d (cstr f) of None \<Rightarrow> {#} | Some w \<Rightarrow> {#w#})"
    by (rule dict_del_vals [OF d(2) nul_free_cstr])
  let ?r = "r\<lparr>ptr := PDict d'\<rparr>" and ?R = "srv_refs E x"
  have refs: "obj_refs ?r + {#w#} = obj_refs r + {#}"
    using d'(5) w d(1) by (simp add: obj_refs_def dict_vals_def)
  have h1: "heap_store (set_obj (store x) a ?r) ({#w#} + ?R)"
    by (rule put_contents(1) [where N = "{#}", OF _ key(2) _ _ _ _ refs])
      (use srv_wfD(1) [OF wf] key(4) trie_wf [OF key(3,4) d'(2)] d'(4) d(3) in simp_all)
  have "is_string (store x) w"
    by (rule inner_string [OF srv_wfD(1) [OF wf] key(2), of w]) (use dict_map_vals [OF w] d(1) in \<open>simp_all add: obj_refs_dict\<close>)
  then have str: "is_string (set_obj (store x) a ?r) w" using key(2,4) by (auto simp: is_string_def set_obj_def)
  obtain st' where st': "decrRefCount (set_obj (store x) a ?r) w = Inr st'" "heap_store st' ?R"
    "stable (set_mset (?R + inner_refs st')) (set_obj (store x) a ?r) st'"
    by (rule drop_string [OF _ str, of ?R]) (use h1 in auto)
  have wf': "srv_wf E (x\<lparr>store := st'\<rparr>)"
    and K: "keyspace (x\<lparr>store := st'\<rparr>) = (keyspace x)(cstr k \<mapsto> obj_val (store x) ?r)"
    using aggregate_done [OF wf key(1,2) _ _ st'(2,3)] key(4) by simp_all
  have "obj_val (store x) ?r = VTrie ((trie_get (obj_val (store x) r))(cstr f := None))"
    by (auto simp: obj_val_def d(1) d'(3) trie_get_def)
  moreover have "rr_cmd_rdel x = reply_add_obj (x\<lparr>store := st'\<rparr>) shared_cone"
    using args_are_at(3) [OF args, of 1] args_are_at(3) [OF args, of 2] srv_wfD(2) [OF wf] key d'(1) w st'(1) d(4)
    by (simp add: rr_cmd_rdel_def with_typed_def rr_db_lookup_or_reply_def rr_db_lookup_ok checkType_def get_obj_def
        trie_of_def put_trie_eq rr_obj_free_callback_def)
  ultimately show ?thesis
    using answers_from [OF reply_shared_answers [OF wf', of "'':1'' @ CRLF"], of x] K by (simp add: shared_cone_def)
qed

lemma rdel_fault:
  fixes x :: "'d::linorder sctx"
  assumes wf: "srv_wf E x" and args: "args_are x [n, k, f]"
    and key: "keyspace x (cstr k) = Some (VTrie m)" "m (cstr f) = None"
  shows "rr_cmd_rdel x = Inl NullDeref"
proof -
  obtain a where a: "dict_map (db x) (cstr k) = Some a" using key(1) by (cases "dict_map (db x) (cstr k)") (auto simp: keyspace_none)
  obtain r where r: "objs (store x) a = Some r" "obj_wf r" "keyspace x (cstr k) = Some (obj_val (store x) r)"
    by (rule keyspace_at [OF srv_wfD(1,4) [OF wf] a])
  then have ty: "otype r = OBJ_HASH" using obj_wf_val(2) [OF r(2), of "store x"] key(1) by (metis option.inject)
  obtain d where d: "ptr r = PDict d" "dict_wf d" "ptr_dict r = Inr d" by (rule hash_dict [OF r(2) ty])
  have no: "dict_map d (cstr f) = None" using r(3) key by (auto simp: trie_val [OF d(1)])
  obtain d' where "dict_del d (cstr f) = (d', dict_map d (cstr f))" by (rule dict_del_vals [OF d(2) nul_free_cstr])
  then show ?thesis
    using args_are_at(3) [OF args, of 1] args_are_at(3) [OF args, of 2] srv_wfD(2) [OF wf] a r(1) ty d(3) no
    by (simp add: rr_cmd_rdel_def with_typed_def rr_db_lookup_or_reply_def rr_db_lookup_ok checkType_def get_obj_def
        trie_of_def put_trie_eq rr_obj_free_callback_def)
qed

fun fresh_val :: "otype \<Rightarrow> 'd aval" where
  "fresh_val OBJ_STRING = VStr []"
| "fresh_val OBJ_HASH = VTrie (\<lambda>_. None)"
| "fresh_val OBJ_HEAPQ = VHeap {#}"
| "fresh_val OBJ_FTS = VFts fts_create"

lemma empty_dict: "dict_wf (dict_set_freecb dict_create c)" "dict_entries (dict_set_freecb dict_create c) = []"
  "free_cb (dict_set_freecb dict_create c) = c"
  by (auto simp: dict_set_freecb_def dict_create_def dict_wf_def dict_entries_def slot_entries_def)

lemma create_collection:
  fixes st :: "'d::linorder store"
  assumes "ty \<noteq> OBJ_STRING"
  obtains r0 :: "'d robj" where "createCollectionObject st ty = (case alloc st r0 of (a, st') \<Rightarrow> (Some a, st'))"
    and "obj_wf r0" and "otype r0 = ty" and "refcount r0 = 1" and "obj_refs r0 = {#}"
    and "\<And>st' r. ptr r = ptr r0 \<Longrightarrow> obj_val st' r = (fresh_val ty :: 'd aval)"
proof (cases ty)
  case OBJ_HASH
  show ?thesis
    by (rule that [of "\<lparr>otype = OBJ_HASH, encoding = OBJ_ENCODING_HT, refcount = 1,
          ptr = PDict (dict_set_freecb dict_create (Some FreeObj))\<rparr>"])
      (use OBJ_HASH in \<open>simp_all add: createCollectionObject_def createHashObject_def obj_wf_def obj_refs_def obj_val_def
         empty_dict dict_map_def\<close>)
next
  case OBJ_HEAPQ
  show ?thesis
    by (rule that [of "\<lparr>otype = OBJ_HEAPQ, encoding = OBJ_ENCODING_HEAPQ, refcount = 1, ptr = PHeap new_heapq\<rparr>"])
      (use OBJ_HEAPQ new_heapq_wf in \<open>simp_all add: createCollectionObject_def createHeapqObject_def obj_wf_def obj_refs_def obj_val_def
         new_heapq_def minheap_set_freecb_def\<close>)
next
  case OBJ_FTS
  show ?thesis
    by (rule that [of "\<lparr>otype = OBJ_FTS, encoding = OBJ_ENCODING_FTS, refcount = 1, ptr = PFts fts_create\<rparr>"])
      (use OBJ_FTS in \<open>simp_all add: createCollectionObject_def createFTSObject_def createObject_def obj_wf_def obj_refs_def obj_val_def
         fts_create_def empty_dict\<close>)
qed (use assms in simp)

lemma alloc_heap_store:
  assumes h: "heap_store st R" and a: "alloc st r = (a, st')" and r: "obj_wf r" "obj_refs r = {#}" "refcount r = 1"
  shows "heap_store st' (add_mset a R)" and "objs st' = (objs st)(a \<mapsto> r)" and "objs st a = None"
    and "inner_refs st' = inner_refs st" and "stable (set_mset (R + inner_refs st')) st st'"
proof -
  have c: "counted st R" and w: "store_wf st" and i: "shared_ints st" using h by (auto simp: heap_store_def)
  note al = alloc_counted [OF c w a r]
  show o: "objs st' = (objs st)(a \<mapsto> r)" and n: "objs st a = None" by (rule al)+
  have "objs st (next_addr st) = None" by (rule live_set_less [OF c])
  then show in_: "inner_refs st' = inner_refs st" using inner_refs_alloc [OF countedD(1) [OF c] _ a] r(2) by simp
  show s: "stable (set_mset (R + inner_refs st')) st st'"
  proof (rule stable_same)
    fix b assume "b \<in> set_mset (R + inner_refs st')"
    then have "objs st b \<noteq> None" using countedD(3,4) [OF c, of b] in_ by auto
    with n show "objs st b \<noteq> None \<and> objs st' b = objs st b" by (auto simp: o)
  qed
  have "sole st' R" by (rule sole_sub [of st R]) (use h stable_mono [OF s] in \<open>auto simp: heap_store_def\<close>)
  moreover have "a \<notin># R" using countedD(3) [OF c, of a] n by auto
  ultimately have "sole st' (add_mset a R)" by (auto simp: sole_def not_in_iff)
  then show "heap_store st' (add_mset a R)" using al alloc_shared_ints [OF o n i] by (simp add: heap_store_def)
qed

definition refs_size :: "addr multiset \<Rightarrow> ('d, 'z) sctx_scheme \<Rightarrow> nat" where
  "refs_size E x = size (srv_refs E x + inner_refs (store x))"

lemma lookup_or_create_ok:
  fixes x :: "'d::linorder sctx"
  assumes wf: "srv_wf E x" and args: "args_are x (n # k # ss)" and ty: "ty \<noteq> OBJ_STRING"
  obtains a x1 where "rr_db_lookup_or_create x (cstr k) ty = Inr (Some a, x1)" and "srv_wf E x1"
    and "args_are x1 (n # k # ss)" and "cl x1 = cl x" and "dict_map (db x1) (cstr k) = Some a"
    and "keyspace x1 = (if keyspace x (cstr k) = None then (keyspace x)(cstr k \<mapsto> fresh_val ty) else keyspace x)"
    and "refs_size E x1 \<le> refs_size E x + 1"
proof (cases "dict_map (db x) (cstr k)")
  case (Some a)
  then show ?thesis
    using that [of a x] wf args args_are_at(3) [OF args, of 1] srv_wfD(2) [OF wf] db_map_keyspace(1) [OF wf, of "cstr k"]
    by (auto simp: rr_db_lookup_or_create_def rr_db_lookup_ok)
next
  case None
  let ?Q = "mset (argv (cl x)) + mset (bgtasks x) + E"
  have refs: "srv_refs E x = dict_vals (db x) + ?Q" by (simp add: srv_refs_def ac_simps)
  obtain r0 :: "'d robj" where r0: "createCollectionObject (store x) ty = (case alloc (store x) r0 of (a, st') \<Rightarrow> (Some a, st'))"
    "obj_wf r0" "otype r0 = ty" "refcount r0 = 1" "obj_refs r0 = {#}"
    "\<And>st' r. ptr r = ptr r0 \<Longrightarrow> obj_val st' r = fresh_val ty"
    using create_collection [OF ty, of "store x"] by blast
  obtain a st1 where al: "alloc (store x) r0 = (a, st1)" by (cases "alloc (store x) r0")
  note st1 = alloc_heap_store [OF srv_wfD(1) [OF wf] al r0(2,5,4)]
  let ?x = "x\<lparr>store := st1\<rparr>"
  have h1: "heap_store (store ?x) (add_mset a (dict_vals (db ?x) + ?Q))" using st1(1) by (simp add: refs)
  have dr: "droppable ?x (cstr k)" using None by (simp add: droppable_def keyspace_none)
  obtain x2 where x2: "rr_db_add ?x (cstr k) (Some a) = Inr (True, x2)" "x2 = ?x\<lparr>db := db x2, store := store x2\<rparr>"
    "db_wf (db x2)" "dict_map (db x2) = (dict_map (db ?x))(cstr k \<mapsto> a)"
    "heap_store (store x2) (dict_vals (db x2) + ?Q)"
    "stable (set_mset (dict_vals (db x2) + ?Q + inner_refs (store x2))) (store ?x) (store x2)"
    "inner_refs (store x2) \<subseteq># inner_refs (store ?x)" "dict_vals (db x2) \<subseteq># add_mset a (dict_vals (db ?x))"
    by (rule rr_db_add_ok [OF h1 _ nul_free_cstr dr]) (use srv_wfD(2) [OF wf] in simp)
  have cl: "cl x2 = cl x" "bgtasks x2 = bgtasks x" by (subst x2(2), simp)+
  have refs2: "srv_refs E x2 = dict_vals (db x2) + ?Q" by (simp add: srv_refs_def cl ac_simps)
  have map: "dict_map (db x2) = (dict_map (db x))(cstr k \<mapsto> a)" using x2(4) by simp
  have a2: "a \<in> set_mset (dict_vals (db x2) + ?Q + inner_refs (store x2))"
    using dict_map_vals [of "db x2" "cstr k" a] map by simp
  obtain r2 where r2: "objs (store x2) a = Some r2" "ptr r2 = ptr r0"
    by (rule stableD [OF x2(6) a2, of r0]) (simp_all add: st1(2))
  have Kx: "keyspace ?x k' = keyspace x k'" for k'
    by (rule keyspace_frame [of "srv_refs E x"]) (use st1(5) heap_store_finite [OF st1(1)] srv_wfD(4) [OF wf] in simp_all)
  have K: "keyspace x2 = (keyspace x)(cstr k \<mapsto> fresh_val ty)"
  proof (rule ext)
    fix k'
    show "keyspace x2 k' = ((keyspace x)(cstr k \<mapsto> fresh_val ty)) k'"
    proof (cases "k' = cstr k")
      case True
      then show ?thesis using map r2 r0(6) [OF r2(2)] by (simp add: keyspace_def)
    next
      case False
      then show ?thesis using keyspace_frame [OF x2(6) heap_store_finite [OF x2(5)], of k'] Kx [of k'] map by simp
    qed
  qed
  have sargs: "stable (set_mset (mset (argv (cl x)))) (store x) (store x2)"
  proof (rule stable_trans)
    show "stable (set_mset (mset (argv (cl x)))) (store x) st1" by (rule stable_mono [OF st1(5)]) (auto simp: refs)
    show "stable (set_mset (mset (argv (cl x)))) st1 (store x2)" by (rule stable_mono [of _ st1]) (use x2(6) in auto)
  qed
  show ?thesis
  proof (rule that [of a x2])
    show "rr_db_lookup_or_create x (cstr k) ty = Inr (Some a, x2)"
      using None args_are_at(3) [OF args, of 1] srv_wfD(2) [OF wf] r0(1) al x2(1)
      by (simp add: rr_db_lookup_or_create_def rr_db_lookup_ok)
    have "strs st1 (mset (argv (cl x)) + E)"
      by (rule stable_strs [OF st1(5) _ srv_wfD(5) [OF wf]]) (auto simp: srv_refs_def)
    then have "strs (store x2) (mset (argv (cl x)) + E)"
      by (rule stable_strs [rotated 2]) (use x2(6) in auto)
    then show "srv_wf E x2" using x2(3,5) srv_wfD(3) [OF wf] by (simp add: srv_wf_def refs2 cl)
    show "args_are x2 (n # k # ss)"
      using args stable_raw [OF sargs] unfolding args_are_def cl by (auto simp: list_all2_conv_all_nth)
    show "keyspace x2 = (if keyspace x (cstr k) = None then (keyspace x)(cstr k \<mapsto> fresh_val ty) else keyspace x)"
      using K None by (simp add: keyspace_none)
    have "size (dict_vals (db x2)) \<le> Suc (size (dict_vals (db x)))"
      using size_mset_mono [OF x2(8)] by simp
    then show "refs_size E x2 \<le> refs_size E x + 1"
      using size_mset_mono [OF x2(7)] by (simp add: refs_size_def refs refs2 st1(4))
  qed (use cl map in simp_all)
qed

lemma heap_store_inner: "heap_store st R \<Longrightarrow> a \<in># inner_refs st \<Longrightarrow> is_string st a"
  using store_wf_inner [of st a] str_at_is_string by (auto simp: heap_store_def)

lemma decr_freed:
  assumes "heap_store st (mset vs + Q)" and "\<forall>v\<in>set vs. is_string st v" and "length vs \<le> 1"
  obtains st' where "decr_all decrRefCount st vs = Inr st'" and "heap_store st' Q"
    and "stable (set_mset (Q + inner_refs st')) st st'" and "inner_refs st' \<subseteq># inner_refs st"
proof (cases vs)
  case Nil
  have "stable (set_mset (Q + inner_refs st)) st st"
    by (rule stable_refl) (use assms(1) Nil countedD(3,4) [of st Q] in \<open>auto simp: heap_store_def\<close>)
  with Nil that [of st] assms(1) show ?thesis by simp
next
  case (Cons v ws)
  then have v: "vs = [v]" using assms(3) by simp
  have str: "is_string st v" using assms(2) v by simp
  obtain st' where "decrRefCount st v = Inr st'" "heap_store st' Q" "stable (set_mset (Q + inner_refs st')) st st'"
    "inner_refs st' \<subseteq># inner_refs st"
    by (rule drop_string [OF _ str, of Q]) (use assms(1) v in auto)
  with v that show ?thesis by simp
qed

text \<open>
  Storing the argument \<open>b\<close> in the aggregate under \<open>key\<close>, as \<^verbatim>\<open>RSET\<close> and \<^verbatim>\<open>QPUSH\<close> do: the new
  contents are written, what they replace is released, and the reference is counted.
\<close>

lemma store_argument:
  fixes x :: "'d::linorder sctx"
  assumes wf: "srv_wf E x" and rm: "room E x" and b: "b \<in># mset (argv (cl x))" and v: "str_at (store x) b v"
    and key: "dict_map (db x) key = Some a" "objs (store x) a = Some r" "otype r \<noteq> OBJ_STRING"
    and r': "obj_wf r'" "otype r' = otype r" "refcount r' = refcount r" and br: "b \<in># obj_refs r'"
    and refs: "obj_refs r' + mset vs = obj_refs r + {#b#}" and len: "length vs \<le> 1"
  obtains st1 st2 where "decr_all decrRefCount (set_obj (store x) a r') vs = Inr st1"
    and "incrRefCount st1 b = Inr st2" and "srv_wf E (x\<lparr>store := st2\<rparr>)"
    and "keyspace (x\<lparr>store := st2\<rparr>) = (keyspace x)(key \<mapsto> obj_val (store x) r')"
proof -
  let ?Q = "srv_refs E x - {#b#}" and ?st = "set_obj (store x) a r'"
  have R: "srv_refs E x = add_mset b ?Q" using b by (simp add: srv_refs_def)
  have h: "heap_store (store x) ({#b#} + ?Q)" using srv_wfD(1) [OF wf] R by simp
  have nb: "\<forall>c\<in>#{#b#}. \<exists>s. str_at (store x) c s" using v by auto
  note put = put_contents [OF h key(2,3) r' refs nb]
  have ms: "\<forall>w\<in>set vs. is_string ?st w"
  proof
    fix w assume "w \<in> set vs"
    then have "w \<in># {#b#} + inner_refs (store x)" unfolding put(2) [symmetric] by simp
    then have "is_string (store x) w" using str_at_is_string [OF v] heap_store_inner [OF h] by auto
    then show "is_string ?st w" using key(2,3) by (auto simp: is_string_def set_obj_def)
  qed
  obtain st1 where st1: "decr_all decrRefCount ?st vs = Inr st1" "heap_store st1 ?Q"
    "stable (set_mset (?Q + inner_refs st1)) ?st st1" "inner_refs st1 \<subseteq># inner_refs ?st"
    by (rule decr_freed [OF put(1) ms len])
  have db: "dict_vals (db x) \<subseteq># ?Q" using refs_without [OF b, of E] by simp
  have a1: "a \<in> set_mset (?Q + inner_refs st1)" using dict_map_vals [OF key(1)] db by (auto dest: mset_subset_eqD)
  obtain r1 where r1: "objs st1 a = Some r1" "obj_refs r1 = obj_refs r'"
    by (rule stableD [OF st1(3) a1, of r']) (simp_all add: set_obj_def)
  have b1: "b \<in># inner_refs st1"
    using obj_refs_inner [OF heap_store_finite [OF st1(2)] r1(1)] r1(2) br by (auto dest: mset_subset_eqD)
  have "size (inner_refs ?st) \<le> Suc (size (inner_refs (store x)))" using arg_cong [OF put(2), of size] by simp
  then have "size (?Q + inner_refs st1) \<le> size (srv_refs E x + inner_refs (store x))"
    using size_mset_mono [OF st1(4)] arg_cong [OF R, of size] by simp
  then have few: "few st1 ?Q" using rm by (simp add: few_def room_def)
  obtain st2 where st2: "incrRefCount st1 b = Inr st2" "heap_store st2 (add_mset b ?Q)"
    "stable (set_mset (?Q + inner_refs st2)) st1 st2" "inner_refs st2 = inner_refs st1"
    by (rule take_value [OF st1(2) _ few heap_store_inner [OF st1(2) b1]]) (use b1 in auto)
  have s: "stable (set_mset (srv_refs E x + inner_refs st2)) ?st st2"
  proof (rule stable_mono [OF stable_trans])
    show "stable (set_mset (?Q + inner_refs st2)) ?st st1" using st1(3) by (simp add: st2(4))
    show "stable (set_mset (?Q + inner_refs st2)) st1 st2" by (rule st2(3))
    show "set_mset (srv_refs E x + inner_refs st2) \<subseteq> set_mset (?Q + inner_refs st2)"
      using b1 R by (metis insert_absorb Un_iff set_mset_add_mset_insert set_mset_union st2(4) Un_insert_left order_refl)
  qed
  show ?thesis
    by (rule that [OF st1(1) st2(1)]) (use aggregate_done [OF wf key r'(2) _ s] st2(2) R in simp_all)
qed

lemma trie_set_ok:
  fixes x :: "'d::linorder sctx"
  assumes wf: "srv_wf E x" and rm: "room E x" and b: "b \<in># mset (argv (cl x))" and v: "str_at (store x) b v" and f: "nul_free f"
    and key: "dict_map (db x) key = Some a" "objs (store x) a = Some r" "obj_wf r" "otype r = OBJ_HASH" and d: "ptr r = PDict d"
  obtains d' calls st1 st2 where "dict_set d f (Some b) = (d', True, calls)"
    and "decr_all decrRefCount (set_obj (store x) a (r\<lparr>ptr := PDict d'\<rparr>)) (map snd calls) = Inr st1"
    and "incrRefCount st1 b = Inr st2" and "srv_wf E (x\<lparr>store := st2\<rparr>)"
    and "keyspace (x\<lparr>store := st2\<rparr>) = (keyspace x)(key \<mapsto> VTrie ((trie_get (obj_val (store x) r))(f \<mapsto> v)))"
proof -
  have dw: "dict_wf d" "free_cb d = Some FreeObj" using key(3,4) d by (auto simp: obj_wf_def)
  obtain d' where d': "dict_set d f (Some b) = (d', True, freed d f)" "dict_wf d'" "dict_map d' = (dict_map d)(f \<mapsto> b)"
    "free_cb d' = free_cb d" "add_mset b (dict_vals d) = dict_vals d' + mset (map snd (freed d f))"
    by (rule dict_set_vals [OF dw(1) f dw(2)])
  let ?r = "r\<lparr>ptr := PDict d'\<rparr>" and ?M = "map snd (freed d f)"
  have refs: "obj_refs ?r + mset ?M = obj_refs r + {#b#}"
    using d'(5) d by (simp add: obj_refs_def dict_vals_def)
  have r': "obj_wf ?r" using trie_wf [OF key(3,4) d'(2)] d'(4) dw(2) by simp
  have br: "b \<in># obj_refs ?r" using dict_map_vals [of d' f b] d'(3) by (simp add: obj_refs_def dict_vals_def)
  have len: "length ?M \<le> 1" by (simp add: freed_def split: option.split)
  obtain st1 st2 where st: "decr_all decrRefCount (set_obj (store x) a ?r) ?M = Inr st1" "incrRefCount st1 b = Inr st2"
    "srv_wf E (x\<lparr>store := st2\<rparr>)" "keyspace (x\<lparr>store := st2\<rparr>) = (keyspace x)(key \<mapsto> obj_val (store x) ?r)"
    by (rule store_argument [OF wf rm b v key(1,2) _ r' _ _ br refs len]) (use key(4) in simp_all)
  have str_b: "str_of (store x) b = v" using v by (auto simp: str_at_def str_of_def)
  have "obj_val (store x) ?r = VTrie ((trie_get (obj_val (store x) r))(f \<mapsto> v))"
    by (auto simp: obj_val_def d d'(3) trie_get_def str_b)
  then show ?thesis using that [OF d'(1) st(1,2)] st(3,4) by simp
qed

definition val_or_fresh :: "otype \<Rightarrow> 'd aval option \<Rightarrow> 'd aval" where
  "val_or_fresh ty v = (case v of None \<Rightarrow> fresh_val ty | Some w \<Rightarrow> w)"

definition room_to_create :: "addr multiset \<Rightarrow> ('d, 'z) sctx_scheme \<Rightarrow> bool" where
  "room_to_create E x \<longleftrightarrow> int (refs_size E x) + 1 < OBJ_SHARED_REFCOUNT - 1"

text \<open>The opening of \<^verbatim>\<open>RSET\<close> and \<^verbatim>\<open>QPUSH\<close>: the aggregate of the key, created when it is missing.\<close>

lemma open_aggregate:
  fixes x :: "'d::linorder sctx"
  assumes wf: "srv_wf E x" and args: "args_are x (n # k # ss)" and rm: "room_to_create E x" and ty: "ty \<noteq> OBJ_STRING"
  defines "w \<equiv> val_or_fresh ty (keyspace x (cstr k))"
  obtains a x1 r1 where "rr_db_lookup_or_create x (cstr k) ty = Inr (Some a, x1)" and "srv_wf E x1"
    and "args_are x1 (n # k # ss)" and "cl x1 = cl x" and "dict_map (db x1) (cstr k) = Some a"
    and "keyspace x1 = (keyspace x)(cstr k \<mapsto> w)" and "\<not> val_is ty w \<Longrightarrow> keyspace x1 = keyspace x" and "room E x1"
    and "objs (store x1) a = Some r1" and "otype r1 = ty \<longleftrightarrow> val_is ty w"
proof -
  obtain a x1 where x1: "rr_db_lookup_or_create x (cstr k) ty = Inr (Some a, x1)" "srv_wf E x1"
    "args_are x1 (n # k # ss)" "cl x1 = cl x" "dict_map (db x1) (cstr k) = Some a"
    "keyspace x1 = (if keyspace x (cstr k) = None then (keyspace x)(cstr k \<mapsto> fresh_val ty) else keyspace x)"
    "refs_size E x1 \<le> refs_size E x + 1"
    by (rule lookup_or_create_ok [OF wf args ty])
  have K1: "keyspace x1 = (keyspace x)(cstr k \<mapsto> w)"
    using x1(6) by (auto simp: w_def val_or_fresh_def fun_upd_idem split: option.splits)
  obtain r1 where r1: "objs (store x1) a = Some r1" "obj_wf r1" "keyspace x1 (cstr k) = Some (obj_val (store x1) r1)"
    by (rule keyspace_at [OF srv_wfD(1,4) [OF x1(2)] x1(5)])
  show ?thesis
  proof (rule that [OF x1(1-5) K1])
    show "otype r1 = ty \<longleftrightarrow> val_is ty w" using obj_wf_val_is [OF r1(2), of ty "store x1"] r1(3) K1 by simp
    have "val_is ty (fresh_val ty :: 'd aval)" by (cases ty) simp_all
    then show "keyspace x1 = keyspace x" if "\<not> val_is ty w"
      using that x1(6) by (auto simp: w_def val_or_fresh_def split: option.splits)
    show "room E x1" using rm x1(7) by (simp add: room_to_create_def room_def refs_size_def)
  qed (rule r1(1))
qed

text \<open>Their next step: the value is re-encoded, the aggregate stays in its place.\<close>

lemma encode_value:
  fixes x :: "'d::linorder sctx"
  assumes wf: "srv_wf E x" and args: "args_are x [n, k, f, v]" and rm: "room E x" and a: "dict_map (db x) (cstr k) = Some a"
    and w: "keyspace x (cstr k) = Some w" and ty: "val_is ty w"
  obtains b st' r where "tryObjectEncoding (max_memory x) (store x) (argv (cl x) ! 3) = Inr (b, st')"
    and "srv_wf E (set_arg (x\<lparr>store := st'\<rparr>) 3 b)" and "room E (set_arg (x\<lparr>store := st'\<rparr>) 3 b)"
    and "keyspace (set_arg (x\<lparr>store := st'\<rparr>) 3 b) = keyspace x"
    and "arg_key (set_arg (x\<lparr>store := st'\<rparr>) 3 b) 2 = Inr (cstr f)"
    and "b \<in># mset (argv (cl (set_arg (x\<lparr>store := st'\<rparr>) 3 b)))" and "str_at (store (set_arg (x\<lparr>store := st'\<rparr>) 3 b)) b v"
    and "dict_map (db (set_arg (x\<lparr>store := st'\<rparr>) 3 b)) (cstr k) = Some a"
    and "objs (store (set_arg (x\<lparr>store := st'\<rparr>) 3 b)) a = Some r" and "obj_wf r"
    and "obj_val (store (set_arg (x\<lparr>store := st'\<rparr>) 3 b)) r = w" and "otype r = ty"
proof -
  obtain b st' where e: "tryObjectEncoding (max_memory x) (store x) (argv (cl x) ! 3) = Inr (b, st')"
    "srv_wf E (set_arg (x\<lparr>store := st'\<rparr>) 3 b)" "room E (set_arg (x\<lparr>store := st'\<rparr>) 3 b)"
    "keyspace (set_arg (x\<lparr>store := st'\<rparr>) 3 b) = keyspace x" "str_at st' b ([n, k, f, v] ! 3)"
    "\<And>j. j < length [n, k, f, v] \<Longrightarrow> j \<noteq> 3 \<Longrightarrow> arg_key (set_arg (x\<lparr>store := st'\<rparr>) 3 b) j = Inr (cstr ([n, k, f, v] ! j))"
    "b \<in># mset (argv (cl (set_arg (x\<lparr>store := st'\<rparr>) 3 b)))"
    by (rule encode_arg [OF wf args _ rm, of 3]) auto
  let ?x = "set_arg (x\<lparr>store := st'\<rparr>) 3 b"
  have db: "dict_map (db ?x) (cstr k) = Some a" "store ?x = st'" using a by (simp_all add: set_arg_def)
  obtain r where r: "objs (store ?x) a = Some r" "obj_wf r" "keyspace ?x (cstr k) = Some (obj_val (store ?x) r)"
    by (rule keyspace_at [OF srv_wfD(1,4) [OF e(2)] db(1)])
  have wr: "obj_val (store ?x) r = w" using r(3) e(4) w by simp
  show ?thesis
    by (rule that [OF e(1-4) _ e(7) _ db(1) r(1,2) wr])
      (use e(5) e(6) [of 2] db obj_wf_val_is [OF r(2), of ty "store ?x"] wr ty in simp_all)
qed

lemma set_arg_answers:
  fixes x x1 :: "'d::linorder sctx"
  assumes "srv_wf E ((set_arg (x1\<lparr>store := st'\<rparr>) i b)\<lparr>store := st\<rparr>)" and "cl x1 = cl x"
  shows "answers E (reply_add_obj ((set_arg (x1\<lparr>store := st'\<rparr>) i b)\<lparr>store := st\<rparr>) shared_ok) x (''+OK'' @ CRLF)
    (keyspace ((set_arg (x1\<lparr>store := st'\<rparr>) i b)\<lparr>store := st\<rparr>))"
  unfolding shared_ok_def
  by (rule answers_from [OF reply_shared_answers [OF assms(1)]])
    (simp_all add: set_arg_def outstanding_def accepts_def assms(2))

lemma cmd_rset_answers:
  fixes x :: "'d::linorder sctx"
  assumes wf: "srv_wf E x" and args: "args_are x [n, k, f, v]" and rm: "room_to_create E x"
  defines "w \<equiv> val_or_fresh OBJ_HASH (keyspace x (cstr k))"
  shows "answers E (rr_cmd_rset x) x (if val_is OBJ_HASH w then ''+OK'' @ CRLF else wrongtype)
    (if val_is OBJ_HASH w then (keyspace x)(cstr k \<mapsto> VTrie ((trie_get w)(cstr f \<mapsto> v))) else keyspace x)"
proof -
  obtain a x1 r1 where x1: "rr_db_lookup_or_create x (cstr k) OBJ_HASH = Inr (Some a, x1)" "srv_wf E x1"
    "args_are x1 [n, k, f, v]" "cl x1 = cl x" "dict_map (db x1) (cstr k) = Some a"
    "keyspace x1 = (keyspace x)(cstr k \<mapsto> w)" "\<not> val_is OBJ_HASH w \<Longrightarrow> keyspace x1 = keyspace x" "room E x1"
    and r1: "objs (store x1) a = Some r1" "otype r1 = OBJ_HASH \<longleftrightarrow> val_is OBJ_HASH w"
    using open_aggregate [OF wf args rm otype.distinct(2)] unfolding w_def by blast
  show ?thesis
  proof (cases "val_is OBJ_HASH w")
    case False
    have "rr_cmd_rset x = rbind (reply_add_obj x1 (shared_string wrongtype)) Inr"
      using x1(1) args_are_at(3) [OF args, of 1] r1 False
      by (simp add: rr_cmd_rset_def checkType_def get_obj_def rbind_assoc shared_wrongtypeerr_def wrongtype_def)
    then show ?thesis
      using False x1(7) reply_shared_answers [OF x1(2), of wrongtype] x1(4) by (auto simp: answers_def)
  next
    case True
    have w1: "keyspace x1 (cstr k) = Some w" using x1(6) by simp
    obtain b st' r where e: "tryObjectEncoding (max_memory x1) (store x1) (argv (cl x1) ! 3) = Inr (b, st')"
      "srv_wf E (set_arg (x1\<lparr>store := st'\<rparr>) 3 b)" "room E (set_arg (x1\<lparr>store := st'\<rparr>) 3 b)"
      "keyspace (set_arg (x1\<lparr>store := st'\<rparr>) 3 b) = keyspace x1"
      "arg_key (set_arg (x1\<lparr>store := st'\<rparr>) 3 b) 2 = Inr (cstr f)"
      "b \<in># mset (argv (cl (set_arg (x1\<lparr>store := st'\<rparr>) 3 b)))" "str_at (store (set_arg (x1\<lparr>store := st'\<rparr>) 3 b)) b v"
      "dict_map (db (set_arg (x1\<lparr>store := st'\<rparr>) 3 b)) (cstr k) = Some a"
      and r: "objs (store (set_arg (x1\<lparr>store := st'\<rparr>) 3 b)) a = Some r" "obj_wf r"
      "obj_val (store (set_arg (x1\<lparr>store := st'\<rparr>) 3 b)) r = w" "otype r = OBJ_HASH"
      by (rule encode_value [OF x1(2,3,8,5) w1 True])
    let ?x = "set_arg (x1\<lparr>store := st'\<rparr>) 3 b"
    obtain d where d: "ptr r = PDict d" "ptr_dict r = Inr d" by (rule hash_dict [OF r(2,4)])
    obtain d' calls st1 st2 where s: "dict_set d (cstr f) (Some b) = (d', True, calls)"
      "decr_all decrRefCount (set_obj (store ?x) a (r\<lparr>ptr := PDict d'\<rparr>)) (map snd calls) = Inr st1"
      "incrRefCount st1 b = Inr st2" "srv_wf E (?x\<lparr>store := st2\<rparr>)"
      "keyspace (?x\<lparr>store := st2\<rparr>) = (keyspace ?x)(cstr k \<mapsto> VTrie ((trie_get (obj_val (store ?x) r))(cstr f \<mapsto> v)))"
      by (rule trie_set_ok [OF e(2,3,6,7) nul_free_cstr e(8) r(1,2,4) d(1)])
    have "rr_cmd_rset x = reply_add_obj (?x\<lparr>store := st2\<rparr>) shared_ok"
      using x1(1) args_are_at(3) [OF args, of 1] args_are_at(1) [OF x1(3), of 3] True r1 e(1,5) r(1) d(2) s(1,2,3)
      by (simp add: rr_cmd_rset_def checkType_def get_obj_def trie_of_def put_trie_eq)
    moreover have "keyspace (?x\<lparr>store := st2\<rparr>) = (keyspace x)(cstr k \<mapsto> VTrie ((trie_get w)(cstr f \<mapsto> v)))"
      by (simp only: s(5) e(4) x1(6) r(3) fun_upd_upd)
    ultimately show ?thesis using True set_arg_answers [OF s(4) x1(4)] by simp
  qed
qed

section \<open>The commands on heap queues\<close>

definition heap_items :: "'d aval \<Rightarrow> ('d \<times> string) multiset" where
  "heap_items w = (case w of VHeap h \<Rightarrow> h | _ \<Rightarrow> {#})"

text \<open>The score an argument denotes: \<^verbatim>\<open>strtod\<close> has to read all of it.\<close>

definition read_score :: "'d floats \<Rightarrow> string \<Rightarrow> 'd option" where
  "read_score fl s =
     (case strtod fl (cstr s) of (v, eptr) \<Rightarrow> if isspace (cget (cstr s) 0) \<or> eptr \<noteq> [] then None else v)"

lemma getDouble_raw: "raw_at st a s \<Longrightarrow> objs st a = Some r \<Longrightarrow> getDoubleFromObject fl (Some r) = Inr (read_score fl s)"
  by (auto simp: raw_at_def getDoubleFromObject_def read_score_def sdsEncodedObject_def string_ok_def ptr_cstr_def ptr_sds_def
      split: prod.split)

lemma heap_ptr:
  assumes "obj_wf r" and "otype r = OBJ_HEAPQ"
  obtains h where "ptr r = PHeap h" and "heap_wf hq_cmp h" and "hfree_cb h = Some FreeObj" and "ptr_heap r = Inr h"
    and "encoding r = OBJ_ENCODING_HEAPQ"
  using assms by (auto simp: obj_wf_def ptr_heap_def split: optr.splits)

lemma heap_val: "ptr r = PHeap h \<Longrightarrow> obj_val st r = VHeap (image_mset (\<lambda>it. (score it, str_of st (obj it))) (heap_bag h))"
  by (simp add: obj_val_def)

lemma put_heap_eq: "objs (store x) a = Some r \<Longrightarrow> put_heap x a h = Inr (x\<lparr>store := set_obj (store x) a (r\<lparr>ptr := PHeap h\<rparr>)\<rparr>)"
  by (simp add: put_heap_def get_obj_def)

lemma heapq_wf: "obj_wf r \<Longrightarrow> otype r = OBJ_HEAPQ \<Longrightarrow> heap_wf hq_cmp h \<Longrightarrow> hfree_cb h = Some FreeObj \<Longrightarrow> obj_wf (r\<lparr>ptr := PHeap h\<rparr>)"
  by (simp add: obj_wf_def)

lemma heap_push_ok:
  fixes x :: "'d::linorder sctx"
  assumes wf: "srv_wf E x" and rm: "room E x" and b: "b \<in># mset (argv (cl x))" and v: "str_at (store x) b v"
    and key: "dict_map (db x) key = Some a" "objs (store x) a = Some r" "obj_wf r" "otype r = OBJ_HEAPQ" and h: "ptr r = PHeap h"
    and len: "size (heap_items (obj_val (store x) r)) + 1 < 2 ^ 31"
  obtains h' st2 where "minheap_push h \<lparr>score = sc, obj = b\<rparr> = Inr (0, h')"
    and "incrRefCount (set_obj (store x) a (r\<lparr>ptr := PHeap h'\<rparr>)) b = Inr st2" and "srv_wf E (x\<lparr>store := st2\<rparr>)"
    and "keyspace (x\<lparr>store := st2\<rparr>) = (keyspace x)(key \<mapsto> VHeap (add_mset (sc, v) (heap_items (obj_val (store x) r))))"
proof -
  have hw: "heap_wf hq_cmp h" "hfree_cb h = Some FreeObj" using key(3,4) h by (auto simp: obj_wf_def)
  have "minheap_len h + 1 < 2 ^ 31" using len heap_bag_size [OF hw(1)] by (simp add: heap_items_def heap_val [OF h])
  then obtain h' where h': "minheap_push h \<lparr>score = sc, obj = b\<rparr> = Inr (0, h')" "heap_wf hq_cmp h'"
    "heap_bag h' = add_mset \<lparr>score = sc, obj = b\<rparr> (heap_bag h)" "hfree_cb h' = hfree_cb h"
    using hq.push_spec [OF hw(1), of "\<lparr>score = sc, obj = b\<rparr>"] by blast
  let ?r = "r\<lparr>ptr := PHeap h'\<rparr>"
  have refs: "obj_refs ?r + mset [] = obj_refs r + {#b#}" using h h'(3) by (simp add: obj_refs_def)
  have r': "obj_wf ?r" using heapq_wf [OF key(3,4) h'(2)] h'(4) hw(2) by simp
  have br: "b \<in># obj_refs ?r" using h'(3) by (simp add: obj_refs_def)
  obtain st1 st2 where st: "decr_all decrRefCount (set_obj (store x) a ?r) [] = Inr st1" "incrRefCount st1 b = Inr st2"
    "srv_wf E (x\<lparr>store := st2\<rparr>)" "keyspace (x\<lparr>store := st2\<rparr>) = (keyspace x)(key \<mapsto> obj_val (store x) ?r)"
    by (rule store_argument [OF wf rm b v key(1,2) _ r' _ _ br refs]) (use key(4) in simp_all)
  have "str_of (store x) b = v" using v by (auto simp: str_at_def str_of_def)
  then have "obj_val (store x) ?r = VHeap (add_mset (sc, v) (heap_items (obj_val (store x) r)))"
    by (simp add: obj_val_def h h'(3) heap_items_def)
  then show ?thesis using that [OF h'(1)] st by simp
qed

lemma cmd_hqpush_answers:
  fixes x :: "'d::linorder sctx"
  assumes wf: "srv_wf E x" and args: "args_are x [n, k, s, v]" and rm: "room_to_create E x"
  defines "w \<equiv> val_or_fresh OBJ_HEAPQ (keyspace x (cstr k))"
  assumes len: "size (heap_items w) + 1 < 2 ^ 31" and sc: "read_score fl s = Some sc"
  shows "answers E (rr_cmd_hqpush fl x) x (if val_is OBJ_HEAPQ w then ''+OK'' @ CRLF else wrongtype)
    (if val_is OBJ_HEAPQ w then (keyspace x)(cstr k \<mapsto> VHeap (add_mset (sc, v) (heap_items w))) else keyspace x)"
proof -
  obtain r2 where r2: "arg_obj x 2 = Inr r2" "getDoubleFromObject fl (Some r2) = Inr (Some sc)"
    using args_are_at(1,2) [OF args, of 2] sc getDouble_raw by (fastforce simp: arg_obj_def get_obj_def raw_at_def)
  obtain a x1 r1 where x1: "rr_db_lookup_or_create x (cstr k) OBJ_HEAPQ = Inr (Some a, x1)" "srv_wf E x1"
    "args_are x1 [n, k, s, v]" "cl x1 = cl x" "dict_map (db x1) (cstr k) = Some a"
    "keyspace x1 = (keyspace x)(cstr k \<mapsto> w)" "\<not> val_is OBJ_HEAPQ w \<Longrightarrow> keyspace x1 = keyspace x" "room E x1"
    and r1: "objs (store x1) a = Some r1" "otype r1 = OBJ_HEAPQ \<longleftrightarrow> val_is OBJ_HEAPQ w"
    using open_aggregate [OF wf args rm otype.distinct(4)] unfolding w_def by blast
  show ?thesis
  proof (cases "val_is OBJ_HEAPQ w")
    case False
    have "rr_cmd_hqpush fl x = reply_add_obj x1 (shared_string wrongtype)"
      using x1(1) args_are_at(3) [OF args, of 1] r1 False r2
      by (simp add: rr_cmd_hqpush_def getDoubleFromObjectOrReply_def get_obj_def shared_wrongtypeerr_def wrongtype_def)
    then show ?thesis
      using False x1(7) reply_shared_answers [OF x1(2), of wrongtype] x1(4) by (auto simp: answers_def)
  next
    case True
    have w1: "keyspace x1 (cstr k) = Some w" using x1(6) by simp
    obtain b st' r where e: "tryObjectEncoding (max_memory x1) (store x1) (argv (cl x1) ! 3) = Inr (b, st')"
      "srv_wf E (set_arg (x1\<lparr>store := st'\<rparr>) 3 b)" "room E (set_arg (x1\<lparr>store := st'\<rparr>) 3 b)"
      "keyspace (set_arg (x1\<lparr>store := st'\<rparr>) 3 b) = keyspace x1"
      "b \<in># mset (argv (cl (set_arg (x1\<lparr>store := st'\<rparr>) 3 b)))" "str_at (store (set_arg (x1\<lparr>store := st'\<rparr>) 3 b)) b v"
      "dict_map (db (set_arg (x1\<lparr>store := st'\<rparr>) 3 b)) (cstr k) = Some a"
      and r: "objs (store (set_arg (x1\<lparr>store := st'\<rparr>) 3 b)) a = Some r" "obj_wf r"
      "obj_val (store (set_arg (x1\<lparr>store := st'\<rparr>) 3 b)) r = w" "otype r = OBJ_HEAPQ"
      by (rule encode_value [OF x1(2,3,8,5) w1 True])
    let ?x = "set_arg (x1\<lparr>store := st'\<rparr>) 3 b"
    obtain h where h: "ptr r = PHeap h" "ptr_heap r = Inr h" by (rule heap_ptr [OF r(2,4)])
    have len': "size (heap_items (obj_val (store ?x) r)) + 1 < 2 ^ 31" using len by (simp only: r(3))
    obtain h' st2 where p: "minheap_push h \<lparr>score = sc, obj = b\<rparr> = Inr (0, h')"
      "incrRefCount (set_obj (store ?x) a (r\<lparr>ptr := PHeap h'\<rparr>)) b = Inr st2" "srv_wf E (?x\<lparr>store := st2\<rparr>)"
      "keyspace (?x\<lparr>store := st2\<rparr>) = (keyspace ?x)(cstr k \<mapsto> VHeap (add_mset (sc, v) (heap_items (obj_val (store ?x) r))))"
      by (rule heap_push_ok [OF e(2,3,5,6,7) r(1,2,4) h(1) len'])
    have "rr_cmd_hqpush fl x = reply_add_obj (?x\<lparr>store := st2\<rparr>) shared_ok"
      using x1(1) args_are_at(3) [OF args, of 1] args_are_at(1) [OF x1(3), of 3] True r1 e(1) r(1) h(2) p(1,2) r2
      by (simp add: rr_cmd_hqpush_def getDoubleFromObjectOrReply_def get_obj_def heap_of_def put_heap_eq)
    moreover have "keyspace (?x\<lparr>store := st2\<rparr>) = (keyspace x)(cstr k \<mapsto> VHeap (add_mset (sc, v) (heap_items w)))"
      by (simp only: p(4) e(4) x1(6) r(3) fun_upd_upd)
    ultimately show ?thesis using True set_arg_answers [OF p(3) x1(4)] by simp
  qed
qed

text \<open>Sending a popped item and giving up the reference the heap held.\<close>

lemma send_item_ok:
  fixes x :: "'d::linorder sctx"
  assumes h: "heap_store (store x) (add_mset (obj it) R)" and rd: "ready x"
    and s: "str_at (store x) (obj it) v" and len: "length v < 2 ^ 63"
  obtains x' st' where "send_item x it = Inr (x'\<lparr>store := st'\<rparr>)" and "emits x (bulk v) x'" and "heap_store st' R"
    and "stable (set_mset (R + inner_refs st')) (store x) st'"
proof -
  obtain r where r: "objs (store x) (obj it) = Some r" "string_ok r" "obj_str r = v" using s by (auto simp: str_at_def)
  obtain x' where x': "reply_add_bulk_obj x r = Inr x'" "emits x (bulk v) x'"
    using reply_add_bulk_obj_says [OF rd r(2)] len r(3) by (auto simp: says_def)
  have rest: "rest x' = rest x" and n: "next_addr (store x) \<le> next_addr (store x')" using x'(2) by (auto simp: emits_def)
  have o: "objs (store x') = objs (store x)" by (rule restD(9) [OF rest])
  have h': "heap_store (store x') (add_mset (obj it) R)"
    using h counted_next [OF _ n o] by (simp add: heap_store_def store_wf_objs [OF o] shared_ints_def sole_def is_string_def o)
  have str: "is_string (store x') (obj it)" using str_at_is_string [OF s] by (simp add: is_string_def o)
  obtain st' where st': "decrRefCount (store x') (obj it) = Inr st'" "heap_store st' R"
    "stable (set_mset (R + inner_refs st')) (store x') st'"
    by (rule drop_string [OF h' str])
  have "stable (set_mset (R + inner_refs st')) (store x) st'" using st'(3) unfolding stable_def o .
  moreover have "send_item x it = Inr (x'\<lparr>store := st'\<rparr>)" using r(1) x'(1) st'(1) by (simp add: send_item_def get_obj_def)
  ultimately show ?thesis using that x'(2) st'(2) by blast
qed

lemma emits_fields:
  fixes x x' :: "('d, 'z) sctx_scheme"
  assumes "emits x s x'"
  shows "db x' = db x" "bgtasks x' = bgtasks x" "argv (cl x') = argv (cl x)" "out_wf (cl x')"
    "outstanding (cl x') = outstanding (cl x) @ (if accepts (cl x) then s else [])"
proof -
  have rest: "rest x' = rest x" and out: "out_wf (cl x')"
    and os: "outstanding (cl x') = outstanding (cl x) @ (if accepts (cl x) then s else [])"
    using assms by (auto simp: emits_def)
  show "db x' = db x" "bgtasks x' = bgtasks x" by (rule sctx_more [OF restD(10) [OF rest]])+
  show "argv (cl x') = argv (cl x)" by (rule restD(3) [OF rest])
  show "out_wf (cl x')" by (rule out)
  show "outstanding (cl x') = outstanding (cl x) @ (if accepts (cl x) then s else [])" by (rule os)
qed

text \<open>\<^verbatim>\<open>QPOP\<close> on a heap with items.\<close>

lemma hqpop_body:
  fixes x :: "'d::linorder sctx"
  assumes wf: "srv_wf E x" and args: "args_are x [n, k]"
    and key: "dict_map (db x) (cstr k) = Some a" "objs (store x) a = Some r" "obj_wf r" "otype r = OBJ_HEAPQ"
    and ne: "heap_items (obj_val (store x) r) \<noteq> {#}"
    and short: "\<And>sc v. (sc, v) \<in># heap_items (obj_val (store x) r) \<Longrightarrow> length v < 2 ^ 63"
  shows "\<exists>sc v. (sc, v) \<in># heap_items (obj_val (store x) r) \<and>
    (\<forall>p. p \<in># heap_items (obj_val (store x) r) \<longrightarrow> sc \<le> fst p) \<and>
    answers E (rr_cmd_hqpop x) x (bulk v)
      ((keyspace x)(cstr k \<mapsto> VHeap (heap_items (obj_val (store x) r) - {#(sc, v)#})))"
proof -
  let ?st = "store x" and ?R = "srv_refs E x"
  obtain h where h: "ptr r = PHeap h" "heap_wf hq_cmp h" "hfree_cb h = Some FreeObj" "ptr_heap r = Inr h"
    by (rule heap_ptr [OF key(3,4)])
  let ?items = "image_mset (\<lambda>it. (score it, str_of ?st (obj it))) (heap_bag h)"
  have items: "heap_items (obj_val ?st r) = ?items" by (simp add: heap_items_def heap_val [OF h(1)])
  have "minheap_len h \<noteq> 0" using ne heap_bag_size [OF h(2)] unfolding items by (metis image_mset_is_empty_iff size_eq_0_iff_empty)
  then obtain p it h' where p: "minheap_pop h = Inr (Some p, h')" "array_read (array h') (Some p) = Inr it"
    "heap_wf hq_cmp h'" "heap_bag h = add_mset it (heap_bag h')" "\<forall>y\<in>#heap_bag h. hq_cmp it y \<le> 0" "hfree_cb h' = hfree_cb h"
    using hq.pop_spec [OF h(2)] by blast
  let ?r = "r\<lparr>ptr := PHeap h'\<rparr>" and ?v = "str_of ?st (obj it)"
  have refs: "obj_refs ?r + {#obj it#} = obj_refs r + {#}" using h(1) p(4) by (simp add: obj_refs_def)
  have h1: "heap_store (set_obj ?st a ?r) ({#obj it#} + ?R)"
    by (rule put_contents(1) [where N = "{#}", OF _ key(2) _ _ _ _ refs])
      (use srv_wfD(1) [OF wf] key(4) heapq_wf [OF key(3,4) p(3)] p(6) h(3) in simp_all)
  obtain rv where rv: "objs ?st (obj it) = Some rv" "string_ok rv" "?v = obj_str rv"
    by (rule inner_string [OF srv_wfD(1) [OF wf] key(2), of "obj it"]) (use h(1) p(4) in \<open>simp_all add: obj_refs_def\<close>)
  let ?x = "x\<lparr>store := set_obj ?st a ?r\<rparr>"
  have sv: "str_at (store ?x) (obj it) ?v"
    using rv key(2,4) by (auto simp: str_at_def set_obj_def string_ok_def)
  have mem: "(score it, ?v) \<in># ?items" using p(4) by simp
  have rd: "ready ?x"
    using srv_ready [OF wf] by (auto simp: ready_def set_obj_def key(2))
  obtain x' st' where x': "send_item ?x it = Inr (x'\<lparr>store := st'\<rparr>)" "emits ?x (bulk ?v) x'" "heap_store st' ?R"
    "stable (set_mset (?R + inner_refs st')) (store ?x) st'"
    by (rule send_item_ok [OF _ rd sv, of ?R]) (use h1 short [of "score it" ?v] mem items in simp_all)
  note f = emits_fields [OF x'(2)]
  have s: "stable (set_mset (?R + inner_refs st')) (set_obj ?st a ?r) st'" using x'(4) by simp
  have K: "keyspace (x\<lparr>store := st'\<rparr>) = (keyspace x)(cstr k \<mapsto> obj_val ?st ?r)"
    using aggregate_done(2) [OF wf key(1,2) _ _ x'(3) s] key(4) by simp
  have S: "strs st' (mset (argv (cl x)) + E)"
    using srv_wfD(5) [OF aggregate_done(1) [OF wf key(1,2) _ _ x'(3) s]] key(4) by simp
  have "keyspace (x'\<lparr>store := st'\<rparr>) = keyspace (x\<lparr>store := st'\<rparr>)" using f(1) by (intro ext) (simp add: keyspace_def)
  moreover have "obj_val ?st ?r = VHeap (?items - {#(score it, ?v)#})" by (simp add: obj_val_def p(4))
  moreover have "srv_wf E (x'\<lparr>store := st'\<rparr>)"
    using x'(3) f S srv_wfD(2) [OF wf] by (simp add: srv_wf_def srv_refs_def)
  moreover have "rr_cmd_hqpop x = send_item ?x it"
    using args_are_at(3) [OF args, of 1] srv_wfD(2) [OF wf] key(1,2,4) h(4) p(1,2)
    by (simp add: rr_cmd_hqpop_def with_typed_def rr_db_lookup_or_reply_def rr_db_lookup_ok checkType_def get_obj_def
        heap_of_def put_heap_eq item_at_def)
  ultimately have "answers E (rr_cmd_hqpop x) x (bulk ?v) ((keyspace x)(cstr k \<mapsto> VHeap (?items - {#(score it, ?v)#})))"
    using x'(1) K f(5) by (simp add: answers_def)
  moreover have "\<forall>p. p \<in># ?items \<longrightarrow> score it \<le> fst p" using p(5) by auto
  ultimately show ?thesis unfolding items using mem by blast
qed

text \<open>The same on the keyspace: a field that is there, a heap that has items.\<close>

lemma rdel_found:
  fixes x :: "'d::linorder sctx"
  assumes wf: "srv_wf E x" and args: "args_are x [n, k, f]" and m: "keyspace x (cstr k) = Some (VTrie m)" "m (cstr f) \<noteq> None"
  shows "answers E (rr_cmd_rdel x) x ('':1'' @ CRLF) ((keyspace x)(cstr k \<mapsto> VTrie (m(cstr f := None))))"
proof -
  obtain a where a: "dict_map (db x) (cstr k) = Some a" using m(1) by (cases "dict_map (db x) (cstr k)") (auto simp: keyspace_none)
  obtain r where r: "objs (store x) a = Some r" "obj_wf r" "keyspace x (cstr k) = Some (obj_val (store x) r)"
    by (rule keyspace_at [OF srv_wfD(1,4) [OF wf] a])
  have v: "obj_val (store x) r = VTrie m" using r(3) m(1) by simp
  then have ty: "otype r = OBJ_HASH" using obj_wf_val_is [OF r(2), of OBJ_HASH "store x"] by simp
  have g: "trie_get (obj_val (store x) r) = m" by (simp add: v fun_eq_iff trie_get_def)
  show ?thesis using rdel_body [OF wf args a r(1,2) ty] m(2) by (simp add: g)
qed

lemma hqpop_found:
  fixes x :: "'d::linorder sctx"
  assumes wf: "srv_wf E x" and args: "args_are x [n, k]" and h: "keyspace x (cstr k) = Some (VHeap h)" "h \<noteq> {#}"
    and short: "\<And>sc v. (sc, v) \<in># h \<Longrightarrow> length v < 2 ^ 63"
  shows "\<exists>sc v. (sc, v) \<in># h \<and> (\<forall>p. p \<in># h \<longrightarrow> sc \<le> fst p) \<and>
    answers E (rr_cmd_hqpop x) x (bulk v) ((keyspace x)(cstr k \<mapsto> VHeap (h - {#(sc, v)#})))"
proof -
  obtain a where a: "dict_map (db x) (cstr k) = Some a" using h(1) by (cases "dict_map (db x) (cstr k)") (auto simp: keyspace_none)
  obtain r where r: "objs (store x) a = Some r" "obj_wf r" "keyspace x (cstr k) = Some (obj_val (store x) r)"
    by (rule keyspace_at [OF srv_wfD(1,4) [OF wf] a])
  have v: "obj_val (store x) r = VHeap h" using r(3) h(1) by simp
  then have ty: "otype r = OBJ_HEAPQ" using obj_wf_val_is [OF r(2), of OBJ_HEAPQ "store x"] by simp
  have "heap_items (obj_val (store x) r) = h" by (simp add: v heap_items_def)
  then show ?thesis using hqpop_body [OF wf args a r(1,2) ty] h(2) short by simp
qed

end
