(* ===== verification/Commands.thy ===== *)
theory Commands
  imports Aggregates
begin

text \<open>
  The contracts of the commands: how the arguments of a command are loaded, servers to
  evaluate them on, and for each command the theorem that it refines an operation on
  the keyspace and answers it.
\<close>

section \<open>Loading the arguments of a command\<close>

text \<open>The parser creates a string object for an argument and appends it to \<^verbatim>\<open>argv\<close>.\<close>

definition append_arg :: "('d, 'z) sctx_scheme \<Rightarrow> addr \<times> 'd store \<Rightarrow> ('d, 'z) sctx_scheme" where
  "append_arg x p = (case p of (a, st) \<Rightarrow> x\<lparr>store := st, cl := (cl x)\<lparr>argv := argv (cl x) @ [a]\<rparr>\<rparr>)"

definition push_arg :: "('d, 'z) sctx_scheme \<Rightarrow> string \<Rightarrow> ('d, 'z) sctx_scheme" where
  "push_arg x s = append_arg x (createStringObject (store x) s)"

lemma createStringObject_alloc:
  obtains r :: "'d::linorder robj" where "createStringObject st s = alloc st r" and "string_ok r" and "ptr r = PStr s"
    and "refcount r = 1"
  by (cases "length s \<le> OBJ_ENCODING_EMBSTR_SIZE_LIMIT")
    (auto simp: createStringObject_def createEmbeddedStringObject_def createRawStringObject_def createObject_def string_ok_def)

text \<open>The arguments as the parser leaves them: new objects, referenced from nowhere else.\<close>

definition own_args :: "addr multiset \<Rightarrow> ('d, 'z) sctx_scheme \<Rightarrow> bool" where
  "own_args E x \<longleftrightarrow> (\<forall>a\<in>set (argv (cl x)). count (srv_refs E x + inner_refs (store x)) a = 1)"

text \<open>A new string object as the next argument, and nothing else changed.\<close>

definition takes_arg :: "addr multiset \<Rightarrow> ('d::linorder, 'z) sctx_scheme \<Rightarrow> string \<Rightarrow> ('d, 'z) sctx_scheme \<Rightarrow> bool" where
  "takes_arg E x s x' \<longleftrightarrow>
     srv_wf E x' \<and> keyspace x' = keyspace x \<and> refs_size E x' = refs_size E x + 1 \<and>
     (\<exists>a st. x' = x\<lparr>store := st, cl := (cl x)\<lparr>argv := argv (cl x) @ [a]\<rparr>\<rparr>) \<and>
     (\<forall>ss. args_are x ss \<longrightarrow> args_are x' (ss @ [s])) \<and> (own_args E x \<longrightarrow> own_args E x')"

lemma append_arg_ok:
  fixes x :: "('d::linorder, 'z) sctx_scheme"
  assumes wf: "srv_wf E x" and r: "string_ok r" "ptr r = PStr s" "refcount r = 1"
  shows "takes_arg E x s (append_arg x (alloc (store x) r))"
proof -
  have rw: "obj_wf r" "obj_refs r = {#}" using r(1,2) by (simp_all add: obj_wf_def obj_refs_def string_ok_def)
  obtain a st where al: "alloc (store x) r = (a, st)" by (cases "alloc (store x) r")
  note st = alloc_heap_store [OF srv_wfD(1) [OF wf] al rw r(3)]
  define x' where "x' = append_arg x (alloc (store x) r)"
  have x: "x' = x\<lparr>store := st, cl := (cl x)\<lparr>argv := argv (cl x) @ [a]\<rparr>\<rparr>" by (simp add: x'_def append_arg_def al)
  have refs: "srv_refs E x' = add_mset a (srv_refs E x)" by (simp add: x srv_refs_def)
  have "strs st (mset (argv (cl x)) + E)"
    by (rule stable_strs [OF st(5) _ srv_wfD(5) [OF wf]]) (auto simp: srv_refs_def)
  then have "strs st (add_mset a (mset (argv (cl x)) + E))" using st(2) r(1) by (simp add: strs_def is_string_def string_ok_def)
  then have wf': "srv_wf E x'" using st(1) srv_wfD(2,3) [OF wf] by (simp add: srv_wf_def refs) (simp add: x out_wf_def)
  have raw: "raw_at st a s" using st(2) r(1,2) by (simp add: raw_at_def)
  have old: "raw_at st b t" if "b \<in> set (argv (cl x))" "raw_at (store x) b t" for b t
    by (rule stable_raw [OF st(5) _ that(2)]) (use that(1) in \<open>simp add: srv_refs_def\<close>)
  have args: "args_are x' (ss @ [s])" if "args_are x ss" for ss
  proof -
    have "list_all2 (raw_at st) (argv (cl x)) ss"
      using that old by (auto simp: args_are_def list_all2_conv_all_nth)
    then show ?thesis using raw by (simp add: args_are_def x list_all2_appendI)
  qed
  have "keyspace x' = keyspace x"
  proof (rule ext)
    fix k show "keyspace x' k = keyspace x k"
      by (rule keyspace_frame [of "srv_refs E x"])
        (use st(5) heap_store_finite [OF st(1)] srv_wfD(4) [OF wf] in \<open>simp_all add: x\<close>)
  qed
  moreover have "refs_size E x' = refs_size E x + 1" using st(4) by (simp add: refs_size_def refs) (simp add: x)
  moreover have "own_args E x'" if own: "own_args E x"
  proof -
    have "a \<notin># srv_refs E x + inner_refs st"
      using countedD(3,4) [of "store x" "srv_refs E x" a] srv_wfD(1) [OF wf] st(3,4) by (auto simp: heap_store_def)
    then have "count (srv_refs E x + inner_refs st) a = 0" by (simp add: not_in_iff)
    moreover from this have "a \<notin> set (argv (cl x))" by (auto simp: srv_refs_def not_in_iff [symmetric])
    ultimately show ?thesis using own unfolding own_args_def refs by (auto simp: x st(4))
  qed
  ultimately show ?thesis using wf' args x unfolding takes_arg_def x'_def by blast
qed

lemma push_arg_takes:
  fixes x :: "('d::linorder, 'z) sctx_scheme"
  assumes "srv_wf E x"
  shows "takes_arg E x s (push_arg x s)"
proof -
  obtain r :: "'d robj" where r: "createStringObject (store x) s = alloc (store x) r" "string_ok r" "ptr r = PStr s" "refcount r = 1"
    by (rule createStringObject_alloc)
  show ?thesis unfolding push_arg_def r(1) by (rule append_arg_ok [OF assms r(2-4)])
qed

lemma push_arg_ok:
  fixes x :: "('d::linorder, 'z) sctx_scheme"
  assumes wf: "srv_wf E x" and args: "args_are x ss"
  shows "srv_wf E (push_arg x s)" and "args_are (push_arg x s) (ss @ [s])" and "keyspace (push_arg x s) = keyspace x"
    and "refs_size E (push_arg x s) = refs_size E x + 1"
    and "outstanding (cl (push_arg x s)) = outstanding (cl x)" and "accepts (cl (push_arg x s)) = accepts (cl x)"
  using push_arg_takes [OF wf, of s] args by (auto simp: takes_arg_def outstanding_def accepts_def)

definition push_args :: "('d, 'z) sctx_scheme \<Rightarrow> string list \<Rightarrow> ('d, 'z) sctx_scheme" where
  "push_args x ss = foldl push_arg x ss"

lemma push_args_ok:
  fixes x :: "('d::linorder, 'z) sctx_scheme"
  assumes "srv_wf E x" and "args_are x ts"
  shows "srv_wf E (push_args x ss) \<and> args_are (push_args x ss) (ts @ ss) \<and> keyspace (push_args x ss) = keyspace x \<and>
    refs_size E (push_args x ss) = refs_size E x + length ss \<and>
    outstanding (cl (push_args x ss)) = outstanding (cl x) \<and> accepts (cl (push_args x ss)) = accepts (cl x)"
  using assms
proof (induction ss arbitrary: x ts)
  case (Cons s ss)
  note p = push_arg_ok [OF Cons.prems, of s]
  show ?case using Cons.IH [OF p(1,2)] p(3-6) by (simp add: push_args_def)
qed (simp add: push_args_def)

text \<open>A server with an empty database and a client that has sent nothing yet.\<close>

definition boot :: "nat sctx" where
  "boot = \<lparr>cl = idle_client, pending_writes = [], store = initial_store, db = rr_db_create,
     lazyfree_server_del = False, max_memory = 0, bgtasks = []\<rparr>"

lemma initial_inner: "inner_refs (initial_store :: 'd::linorder store) = {#}"
proof -
  have "obj_refs (the (objs (initial_store :: 'd store) a)) = {#}" if "a \<in> live_set (initial_store :: 'd store)" for a
    using that initial_store_wf(2) [where 'd = 'd] by (auto simp: live_set_def initial_store_def obj_refs_def split: if_splits)
  then show ?thesis by (simp add: inner_refs_def)
qed

lemma boot_ok: "srv_wf {#} boot" "args_are boot []" "keyspace boot = (\<lambda>_. None)" "refs_size {#} boot = 0"
  "accepts (cl boot)" "outstanding (cl boot) = []"
proof -
  have db: "dict_entries (db boot) = []" "db_wf (db boot)" by (simp_all add: boot_def rr_db_create_def empty_dict db_wf_def)
  have refs: "srv_refs {#} boot = {#}" using db(1) by (simp add: srv_refs_def dict_vals_def) (simp add: boot_def idle_client_def)
  have "heap_store (initial_store :: nat store) {#}" using initial_store_wf by (simp add: heap_store_def sole_def)
  moreover have "out_wf idle_client" using idle_ready(1) by (simp add: ready_def idle_ctx_def)
  ultimately show "srv_wf {#} boot" using db(2) by (simp add: srv_wf_def refs) (simp add: boot_def idle_client_def strs_def)
  show "args_are boot []" by (simp add: args_are_def boot_def idle_client_def)
  show "keyspace boot = (\<lambda>_. None)" using db(1) by (simp add: fun_eq_iff keyspace_def dict_map_def)
  show "refs_size {#} boot = 0" by (simp add: refs_size_def refs) (simp add: boot_def initial_inner)
  show "accepts (cl boot)" "outstanding (cl boot) = []"
    by (simp_all add: boot_def idle_client_def accepts_def outstanding_def has_flag_def)
qed

text \<open>The next command: the arguments of the last one stay with the caller.\<close>

definition next_cmd :: "('d, 'z) sctx_scheme \<Rightarrow> string list \<Rightarrow> ('d, 'z) sctx_scheme" where
  "next_cmd x ss = push_args (x\<lparr>cl := (cl x)\<lparr>argv := []\<rparr>\<rparr>) ss"

lemma next_cmd_ok:
  fixes x :: "('d::linorder, 'z) sctx_scheme"
  assumes "srv_wf E x"
  defines "E' \<equiv> mset (argv (cl x)) + E"
  shows "srv_wf E' (next_cmd x ss)" and "args_are (next_cmd x ss) ss" and "keyspace (next_cmd x ss) = keyspace x"
    and "refs_size E' (next_cmd x ss) = refs_size E x + length ss"
proof -
  let ?x = "x\<lparr>cl := (cl x)\<lparr>argv := []\<rparr>\<rparr>"
  have refs: "srv_refs E' ?x = srv_refs E x" by (simp add: E'_def srv_refs_def ac_simps)
  have wf: "srv_wf E' ?x" using assms(1) by (simp add: srv_wf_def refs) (simp add: out_wf_def E'_def)
  have "args_are ?x []" by (simp add: args_are_def)
  note p = push_args_ok [OF wf this, of ss]
  have "keyspace ?x = keyspace x" by (simp add: fun_eq_iff keyspace_def)
  then show "srv_wf E' (next_cmd x ss)" "args_are (next_cmd x ss) ss" "keyspace (next_cmd x ss) = keyspace x"
    "refs_size E' (next_cmd x ss) = refs_size E x + length ss"
    using p by (simp_all add: next_cmd_def refs_size_def refs)
qed

section \<open>Concrete servers\<close>

lemma trie_get_trie [simp]: "trie_get (VTrie m) = m"
  by (simp add: fun_eq_iff trie_get_def)

lemma heap_items_heap [simp]: "heap_items (VHeap h) = h"
  by (simp add: heap_items_def)

lemma dec_1: "dec 1 = ''1''"
  by code_simp

definition booted :: "string list \<Rightarrow> nat sctx" where
  "booted ss = push_args boot ss"

lemma booted_ok:
  "srv_wf {#} (booted ss)" "args_are (booted ss) ss" "keyspace (booted ss) = (\<lambda>_. None)"
  "refs_size {#} (booted ss) = length ss" "accepts (cl (booted ss))" "outstanding (cl (booted ss)) = []"
  using push_args_ok [OF boot_ok(1,2), of ss] boot_ok(3-6) by (simp_all add: booted_def)

lemma booted_room:
  "length ss < 1000 \<Longrightarrow> room {#} (booted ss)" "length ss < 1000 \<Longrightarrow> room_to_create {#} (booted ss)"
  using booted_ok(4) [of ss] by (simp_all add: room_def room_to_create_def refs_size_def OBJ_SHARED_REFCOUNT_def)

lemma cstr_k [simp]: "cstr ''k'' = ''k''" "cstr ''f'' = ''f''" "cstr ''g'' = ''g''"
  by (simp_all add: cstr_def)

text \<open>The keyspace with one string, one trie and one heap, reached by commands.\<close>

lemma after_set:
  "\<exists>E x. srv_wf E x \<and> args_are (x :: nat sctx) ss \<and> keyspace x = [''k'' \<mapsto> VStr ''v'']"
proof -
  let ?x = "booted [''set'', ''k'', ''v'']"
  have "answers {#} (rr_cmd_set ?x) ?x (''+OK'' @ CRLF) ((keyspace ?x)(cstr ''k'' \<mapsto> VStr ''v''))"
    by (rule cmd_set_answers [OF booted_ok(1,2)]) (simp_all add: droppable_def booted_ok(3) booted_room(1))
  then obtain x' :: "nat sctx" where "srv_wf {#} x'" "keyspace x' = [''k'' \<mapsto> VStr ''v'']"
    using booted_ok(3) by (auto simp: answers_def)
  then show ?thesis using next_cmd_ok(1-3) [of "{#}" x' ss] by auto
qed

lemma after_rset:
  "\<exists>E x. srv_wf E x \<and> args_are (x :: nat sctx) ss \<and> keyspace x = [''k'' \<mapsto> VTrie [''f'' \<mapsto> ''v'']]"
proof -
  let ?x = "booted [''rset'', ''k'', ''f'', ''v'']" and ?w = "fresh_val OBJ_HASH :: nat aval"
  have "answers {#} (rr_cmd_rset ?x) ?x (if val_is OBJ_HASH ?w then ''+OK'' @ CRLF else wrongtype)
    (if val_is OBJ_HASH ?w then (keyspace ?x)(cstr ''k'' \<mapsto> VTrie ((trie_get ?w)(cstr ''f'' \<mapsto> ''v''))) else keyspace ?x)"
    using cmd_rset_answers [OF booted_ok(1,2), of "''rset''" "''k''" "''f''" "''v''"] booted_room(2) [of "[''rset'', ''k'', ''f'', ''v'']"]
    by (simp add: booted_ok(3) val_or_fresh_def)
  then obtain x' :: "nat sctx" where "srv_wf {#} x'" "keyspace x' = [''k'' \<mapsto> VTrie [''f'' \<mapsto> ''v'']]"
    using booted_ok(3) by (auto simp: answers_def)
  then show ?thesis using next_cmd_ok(1-3) [of "{#}" x' ss] by auto
qed

definition len_floats :: "nat floats" where
  "len_floats = \<lparr>strtod = (\<lambda>s. (Some (length s), [])), of_long = nat\<rparr>"

lemma len_floats_score: "read_score len_floats ''10'' = Some 2"
  by (simp add: read_score_def len_floats_def cstr_def cget_def isspace_def)

lemma after_hqpush:
  "\<exists>E x. srv_wf E x \<and> args_are (x :: nat sctx) ss \<and> keyspace x = [''k'' \<mapsto> VHeap {#(2::nat, ''v'')#}]"
proof -
  let ?x = "booted [''qpush'', ''k'', ''10'', ''v'']" and ?w = "fresh_val OBJ_HEAPQ :: nat aval"
  have "answers {#} (rr_cmd_hqpush len_floats ?x) ?x (if val_is OBJ_HEAPQ ?w then ''+OK'' @ CRLF else wrongtype)
    (if val_is OBJ_HEAPQ ?w then (keyspace ?x)(cstr ''k'' \<mapsto> VHeap (add_mset (2, ''v'') (heap_items ?w))) else keyspace ?x)"
    using cmd_hqpush_answers [OF booted_ok(1,2), of "''qpush''" "''k''" "''10''" "''v''" len_floats 2]
      booted_room(2) [of "[''qpush'', ''k'', ''10'', ''v'']"] len_floats_score
    by (simp add: booted_ok(3) val_or_fresh_def heap_items_def)
  then obtain x' :: "nat sctx" where "srv_wf {#} x'" "keyspace x' = [''k'' \<mapsto> VHeap {#(2, ''v'')#}]"
    using booted_ok(3) by (auto simp: answers_def)
  then show ?thesis using next_cmd_ok(1-3) [of "{#}" x' ss] by auto
qed

section \<open>The commands refine operations on the keyspace\<close>



text \<open>
  \<^verbatim>\<open>GET\<close> answers the string the key maps to as a bulk string, the null bulk for a
  missing key and the type error for a key of another type, and changes nothing.\<close>

theorem get_reads:
  fixes x :: "'d::linorder sctx"
  assumes "srv_wf E x" and "args_are x [n, k]" and "short (keyspace x (cstr k))"
  shows "answers E (rr_cmd_get x) x
    (case keyspace x (cstr k) of None \<Rightarrow> ''$-1'' @ CRLF | Some (VStr s) \<Rightarrow> bulk s | _ \<Rightarrow> wrongtype) (keyspace x)"
  by (rule cmd_get_answers [OF assms])

theorem get_reads_witness:
  "\<exists>E (x :: nat sctx). keyspace x = [''k'' \<mapsto> VStr ''v''] \<and> answers E (rr_cmd_get x) x (''$1'' @ CRLF @ ''v'' @ CRLF) (keyspace x)"
proof -
  obtain E and x :: "nat sctx" where x: "srv_wf E x" "args_are x [''get'', ''k'']" "keyspace x = [''k'' \<mapsto> VStr ''v'']"
    using after_set by blast
  have "short (keyspace x (cstr ''k''))" by (simp add: x(3) short_def)
  from get_reads [OF x(1,2) this] have "answers E (rr_cmd_get x) x (''$1'' @ CRLF @ ''v'' @ CRLF) (keyspace x)"
    using x(3) by (simp add: bulk_def dec_1)
  with x(3) show ?thesis by blast
qed

text \<open>
  \<^verbatim>\<open>DEL\<close> removes the key, answers 1 when it was there and 0 when not, and keeps the
  invariant on both ways of releasing the value.\<close>

theorem del_removes:
  fixes x :: "'d::linorder sctx"
  assumes "srv_wf E x" and "args_are x [n, k]" and "droppable x (cstr k)"
  shows "answers E (rr_cmd_del x) x ((if keyspace x (cstr k) = None then '':0'' else '':1'') @ CRLF)
    ((keyspace x)(cstr k := None))"
  by (rule cmd_del_answers [OF assms])

theorem del_removes_witness:
  "\<exists>E (x :: nat sctx). keyspace x = [''k'' \<mapsto> VTrie [''f'' \<mapsto> ''v'']] \<and> answers E (rr_cmd_del x) x ('':1'' @ CRLF) (\<lambda>_. None)"
proof -
  obtain E and x :: "nat sctx" where x: "srv_wf E x" "args_are x [''del'', ''k'']" "keyspace x = [''k'' \<mapsto> VTrie [''f'' \<mapsto> ''v'']]"
    using after_rset by blast
  have "droppable x (cstr ''k'')" by (simp add: x(3) droppable_def)
  from del_removes [OF x(1,2) this] have "answers E (rr_cmd_del x) x ('':1'' @ CRLF) (\<lambda>_. None)" using x(3) by simp
  with x(3) show ?thesis by blast
qed

text \<open>
  C30 (refinement). \<^verbatim>\<open>RSET\<close> on a key that holds a trie, or on a missing one (it is created), maps the
  field to the value in the abstract trie of the key, leaves every other key and field
  as it was, releases a replaced value, and answers \<^verbatim>\<open>+OK\<close>; on a key of another type it
  answers the type error and changes nothing. The invariant is kept.\<close>

theorem rset_refines:
  fixes x :: "'d::linorder sctx"
  assumes "srv_wf E x" and "args_are x [n, k, f, v]" and "room_to_create E x"
    and "w = val_or_fresh OBJ_HASH (keyspace x (cstr k))"
  shows "answers E (rr_cmd_rset x) x (if val_is OBJ_HASH w then ''+OK'' @ CRLF else wrongtype)
    (if val_is OBJ_HASH w then (keyspace x)(cstr k \<mapsto> VTrie ((trie_get w)(cstr f \<mapsto> v))) else keyspace x)"
  unfolding assms(4) by (rule cmd_rset_answers [OF assms(1-3)])

theorem rset_refines_witness:
  "answers {#} (rr_cmd_rset (booted [''rset'', ''k'', ''f'', ''7'']))
     (booted [''rset'', ''k'', ''f'', ''7'']) (''+OK'' @ CRLF) [''k'' \<mapsto> VTrie [''f'' \<mapsto> ''7'']]"
  using rset_refines [OF booted_ok(1,2) _ refl, of "''rset''" "''k''" "''f''" "''7''"]
  by (simp add: booted_ok(3) booted_room(2) val_or_fresh_def trie_get_def)

text \<open>
  C33 (error). \<^verbatim>\<open>RDEL\<close> on a trie: when the field is there it is removed, its value released, and 1 is
  answered; when it is not, the command calls the free callback on the null pointer
  \<^verbatim>\<open>dict_del\<close> returned and crashes.\<close>

theorem rdel_branches:
  fixes x :: "'d::linorder sctx"
  assumes "srv_wf E x" and "args_are x [n, k, f]" and "keyspace x (cstr k) = Some (VTrie m)"
  shows "if m (cstr f) = None then rr_cmd_rdel x = Inl NullDeref
    else answers E (rr_cmd_rdel x) x ('':1'' @ CRLF) ((keyspace x)(cstr k \<mapsto> VTrie (m(cstr f := None))))"
  using rdel_fault [OF assms] rdel_found [OF assms] by simp

theorem rdel_branches_witness:
  "\<exists>E (x :: nat sctx) y. keyspace x = [''k'' \<mapsto> VTrie [''f'' \<mapsto> ''v'']] \<and> keyspace y = [''k'' \<mapsto> VTrie [''f'' \<mapsto> ''v'']] \<and>
     answers E (rr_cmd_rdel x) x ('':1'' @ CRLF) [''k'' \<mapsto> VTrie (\<lambda>_. None)] \<and> rr_cmd_rdel (y :: nat sctx) = Inl NullDeref"
proof -
  obtain E and x :: "nat sctx" where x: "srv_wf E x" "args_are x [''rdel'', ''k'', ''f'']" "keyspace x = [''k'' \<mapsto> VTrie [''f'' \<mapsto> ''v'']]"
    using after_rset by blast
  obtain F and y :: "nat sctx" where y: "srv_wf F y" "args_are y [''rdel'', ''k'', ''g'']" "keyspace y = [''k'' \<mapsto> VTrie [''f'' \<mapsto> ''v'']]"
    using after_rset by blast
  have "answers E (rr_cmd_rdel x) x ('':1'' @ CRLF) [''k'' \<mapsto> VTrie (\<lambda>_. None)]"
    using rdel_branches [OF x(1,2), of "[''f'' \<mapsto> ''v'']"] x(3) by simp
  moreover have "rr_cmd_rdel y = Inl NullDeref"
    using rdel_branches [OF y(1,2), of "[''f'' \<mapsto> ''v'']"] y(3) by simp
  ultimately show ?thesis using x(3) y(3) by blast
qed

text \<open>
  C31 (refinement). \<^verbatim>\<open>QPUSH\<close> with a score that \<^verbatim>\<open>strtod\<close> reads adds the scored string to the multiset
  the key's heap stands for (created when the key is missing), changes no other key,
  keeps the heap order and the invariant, and answers \<^verbatim>\<open>+OK\<close>; on a key of another type
  it answers the type error.\<close>

theorem hqpush_refines:
  fixes x :: "'d::linorder sctx"
  assumes "srv_wf E x" and "args_are x [n, k, s, v]" and "room_to_create E x"
    and "w = val_or_fresh OBJ_HEAPQ (keyspace x (cstr k))" and "size (heap_items w) + 1 < 2 ^ 31" and "read_score fl s = Some sc"
  shows "answers E (rr_cmd_hqpush fl x) x (if val_is OBJ_HEAPQ w then ''+OK'' @ CRLF else wrongtype)
    (if val_is OBJ_HEAPQ w then (keyspace x)(cstr k \<mapsto> VHeap (add_mset (sc, v) (heap_items w))) else keyspace x)"
  using cmd_hqpush_answers [OF assms(1-3) _ assms(6)] assms(5) unfolding assms(4) by simp

theorem hqpush_refines_witness:
  "answers {#} (rr_cmd_hqpush len_floats (booted [''qpush'', ''k'', ''10'', ''v'']))
     (booted [''qpush'', ''k'', ''10'', ''v'']) (''+OK'' @ CRLF) [''k'' \<mapsto> VHeap {#(2, ''v'')#}]"
  using hqpush_refines [OF booted_ok(1,2) _ refl, of "''qpush''" "''k''" "''10''" "''v''" len_floats 2] len_floats_score
  by (simp add: booted_ok(3) booted_room(2) val_or_fresh_def heap_items_def)

text \<open>
  C32 (refinement). \<^verbatim>\<open>QPOP\<close> on a heap with items answers the string of an item of least score and
  removes exactly that item from the multiset; its string object is released once it is
  queued for the client, the others keep their values.\<close>

theorem hqpop_refines:
  fixes x :: "'d::linorder sctx"
  assumes "srv_wf E x" and "args_are x [n, k]" and "keyspace x (cstr k) = Some (VHeap h)" and "h \<noteq> {#}"
    and "\<And>sc v. (sc, v) \<in># h \<Longrightarrow> length v < 2 ^ 63"
  shows "\<exists>sc v. (sc, v) \<in># h \<and> (\<forall>p. p \<in># h \<longrightarrow> sc \<le> fst p) \<and>
    answers E (rr_cmd_hqpop x) x (bulk v) ((keyspace x)(cstr k \<mapsto> VHeap (h - {#(sc, v)#})))"
  by (rule hqpop_found [OF assms])

theorem hqpop_refines_witness:
  "\<exists>E (x :: nat sctx). keyspace x = [''k'' \<mapsto> VHeap {#(2, ''v'')#}] \<and> answers E (rr_cmd_hqpop x) x (bulk ''v'') [''k'' \<mapsto> VHeap {#}]"
proof -
  obtain E and x :: "nat sctx" where x: "srv_wf E x" "args_are x [''qpop'', ''k'']" "keyspace x = [''k'' \<mapsto> VHeap {#(2, ''v'')#}]"
    using after_hqpush by blast
  from hqpop_refines [OF x(1,2), of "{#(2, ''v'')#}"] show ?thesis using x(3) by auto
qed

end
