(* ===== verification/Queries.thy ===== *)
theory Queries
  imports Commands
begin

text \<open>
  The rest of the commands on aggregates: those that look, count or list, and the
  branches the theorems of \<open>Commands\<close> leave out. A listing is answered in the order of
  the keys.
\<close>

section \<open>More commands\<close>

lemma answers_bind_Inr: "answers E (rbind m Inr) x s K = answers E m x s K"
  by (cases m) (simp_all add: answers_def)

lemma cmd_rexists_answers:
  fixes x :: "'d::linorder sctx"
  assumes wf: "srv_wf E x" and args: "args_are x [n, k, f]"
  shows "answers E (rr_cmd_rexists x) x
    (typed_case OBJ_HASH (keyspace x (cstr k)) missing wrongtype
       (\<lambda>v. (if trie_get v (cstr f) = None then '':0'' else '':1'') @ CRLF)) (keyspace x)"
proof -
  have "answers E (rr_cmd_rexists x) x
    (typed_case OBJ_HASH (keyspace x (cstr k)) missing wrongtype (\<lambda>v. (if trie_get v (cstr f) = None then '':0'' else '':1'') @ CRLF))
    (typed_case OBJ_HASH (keyspace x (cstr k)) (keyspace x) (keyspace x) (\<lambda>_. keyspace x))"
    unfolding rr_cmd_rexists_def
  proof (rule with_typed_answers [OF wf args])
    fix a r assume r: "objs (store x) a = Some r" "obj_wf r" "otype r = OBJ_HASH"
    obtain d where d: "ptr r = PDict d" "dict_wf d" "ptr_dict r = Inr d" by (rule hash_dict [OF r(2,3)])
    show "answers E (rbind (trie_of x a) (\<lambda>d. rbind (arg_key x 2) (\<lambda>key.
        reply_add_obj x (if dict_contains d key then shared_cone else shared_czero)))) x
      ((if trie_get (obj_val (store x) r) (cstr f) = None then '':0'' else '':1'') @ CRLF) (keyspace x)"
      using args_are_at(3) [OF args, of 2] r(1) d reply_shared_answers [OF wf]
      by (simp add: trie_of_def get_obj_def dict_contains_def dict_get_map trie_get_def trie_val [OF d(1)] shared_cone_def shared_czero_def)
  qed
  then show ?thesis by simp
qed

text \<open>The answer of the commands that count: \<^verbatim>\<open>RLEN\<close> and \<^verbatim>\<open>QLEN\<close>.\<close>

definition count_reply :: "nat \<Rightarrow> string" where
  "count_reply n = CHR '':'' # dec (int n) @ CRLF"

lemma cmd_rlen_answers:
  fixes x :: "'d::linorder sctx"
  assumes wf: "srv_wf E x" and args: "args_are x [n, k]"
    and small: "\<And>v. keyspace x (cstr k) = Some v \<Longrightarrow> card (dom (trie_get v)) < 2 ^ 63"
  shows "answers E (rr_cmd_rlen x) x
    (typed_case OBJ_HASH (keyspace x (cstr k)) missing wrongtype (\<lambda>v. count_reply (card (dom (trie_get v))))) (keyspace x)"
proof -
  have "answers E (rr_cmd_rlen x) x
    (typed_case OBJ_HASH (keyspace x (cstr k)) missing wrongtype (\<lambda>v. count_reply (card (dom (trie_get v)))))
    (typed_case OBJ_HASH (keyspace x (cstr k)) (keyspace x) (keyspace x) (\<lambda>_. keyspace x))"
    unfolding rr_cmd_rlen_def
  proof (rule with_typed_answers [OF wf args])
    fix a r assume r: "objs (store x) a = Some r" "obj_wf r" "otype r = OBJ_HASH" and key: "keyspace x (cstr k) = Some (obj_val (store x) r)"
    obtain d where d: "ptr r = PDict d" "dict_wf d" "ptr_dict r = Inr d" by (rule hash_dict [OF r(2,3)])
    have "dom (trie_get (obj_val (store x) r)) = dom (dict_map d)" by (auto simp: trie_val [OF d(1)] trie_get_def [abs_def] dom_def)
    then have len: "dict_length d = card (dom (trie_get (obj_val (store x) r)))" using dict_length_card [OF d(2)] by simp
    have "says (reply_add_longlong x (to_ll (int (dict_length d)))) x (count_reply (card (dom (trie_get (obj_val (store x) r)))))"
      unfolding count_reply_def len by (rule longlong_nat_says [OF srv_ready [OF wf] small [OF key]])
    then show "answers E (rbind (trie_of x a) (\<lambda>d. reply_add_longlong x (to_ll (int (dict_length d))))) x
      (count_reply (card (dom (trie_get (obj_val (store x) r))))) (keyspace x)"
      using says_answers [OF _ wf] r(1) d(3) by (simp add: trie_of_def get_obj_def)
  qed
  then show ?thesis by simp
qed

lemma cmd_hqlen_answers:
  fixes x :: "'d::linorder sctx"
  assumes wf: "srv_wf E x" and args: "args_are x [n, k]"
    and small: "\<And>v. keyspace x (cstr k) = Some v \<Longrightarrow> size (heap_items v) < 2 ^ 63"
  shows "answers E (rr_cmd_hqlen x) x
    (typed_case OBJ_HEAPQ (keyspace x (cstr k)) missing wrongtype (\<lambda>v. count_reply (size (heap_items v)))) (keyspace x)"
proof -
  have "answers E (rr_cmd_hqlen x) x
    (typed_case OBJ_HEAPQ (keyspace x (cstr k)) missing wrongtype (\<lambda>v. count_reply (size (heap_items v))))
    (typed_case OBJ_HEAPQ (keyspace x (cstr k)) (keyspace x) (keyspace x) (\<lambda>_. keyspace x))"
    unfolding rr_cmd_hqlen_def
  proof (rule with_typed_answers [OF wf args])
    fix a r assume r: "objs (store x) a = Some r" "obj_wf r" "otype r = OBJ_HEAPQ" and key: "keyspace x (cstr k) = Some (obj_val (store x) r)"
    obtain h where h: "ptr r = PHeap h" "heap_wf hq_cmp h" "ptr_heap r = Inr h" by (rule heap_ptr [OF r(2,3)])
    have len: "minheap_len h = size (heap_items (obj_val (store x) r))" by (simp add: heap_val [OF h(1)] heap_bag_size [OF h(2)])
    have "says (reply_add_longlong x (to_ll (int (minheap_len h)))) x (count_reply (size (heap_items (obj_val (store x) r))))"
      unfolding count_reply_def len by (rule longlong_nat_says [OF srv_ready [OF wf] small [OF key]])
    then show "answers E (rbind (heap_of x a) (\<lambda>h. reply_add_longlong x (to_ll (int (minheap_len h))))) x
      (count_reply (size (heap_items (obj_val (store x) r)))) (keyspace x)"
      using says_answers [OF _ wf] r(1) h(3) by (simp add: heap_of_def get_obj_def)
  qed
  then show ?thesis by simp
qed

text \<open>A key that is missing or holds something else: the answer of the opening all these commands share.\<close>

lemma with_typed_other:
  fixes x :: "'d::linorder sctx"
  assumes "srv_wf E x" and "args_are x (n # k # ss)" and "\<And>v. keyspace x (cstr k) = Some v \<Longrightarrow> \<not> val_is ty v"
  shows "answers E (with_typed x ty body) x (if keyspace x (cstr k) = None then missing else wrongtype) (keyspace x)"
proof -
  have "answers E (with_typed x ty body) x (typed_case ty (keyspace x (cstr k)) missing wrongtype (\<lambda>_. []))
    (typed_case ty (keyspace x (cstr k)) (keyspace x) (keyspace x) (\<lambda>_. keyspace x))"
    by (rule with_typed_answers [OF assms(1,2)]) (use assms(3) obj_wf_val_is in blast)
  then show ?thesis using assms(3) by (auto simp: typed_case_def split: option.splits)
qed

text \<open>A key that holds an aggregate of the type: the body runs on its object.\<close>

lemma with_typed_found:
  fixes x :: "'d::linorder sctx"
  assumes wf: "srv_wf E x" and args: "args_are x (n # k # ss)" and v: "keyspace x (cstr k) = Some v" "val_is ty v"
  obtains a r where "with_typed x ty = (\<lambda>body. body x a)" and "objs (store x) a = Some r"
    and "obj_wf r" and "otype r = ty" and "obj_val (store x) r = v"
proof -
  obtain a where a: "dict_map (db x) (cstr k) = Some a" using v(1) by (cases "dict_map (db x) (cstr k)") (auto simp: keyspace_none)
  obtain r where r: "objs (store x) a = Some r" "obj_wf r" "keyspace x (cstr k) = Some (obj_val (store x) r)"
    by (rule keyspace_at [OF srv_wfD(1,4) [OF wf] a])
  have ty: "otype r = ty" using obj_wf_val_is [OF r(2), of ty "store x"] r(3) v by simp
  have "with_typed x ty = (\<lambda>body. body x a)"
    using a args_are_at(3) [OF args, of 1] srv_wfD(2) [OF wf] r(1) ty
    by (simp add: fun_eq_iff with_typed_def rr_db_lookup_or_reply_def rr_db_lookup_ok checkType_def get_obj_def rbind_assoc)
  then show thesis using that a r ty v(1) by simp
qed

lemma hqpop_empty:
  fixes x :: "'d::linorder sctx"
  assumes wf: "srv_wf E x" and args: "args_are x [n, k]" and v: "keyspace x (cstr k) = Some (VHeap {#})"
  shows "answers E (rr_cmd_hqpop x) x (''$-1'' @ CRLF) (keyspace x)"
proof -
  obtain a r where r: "with_typed x OBJ_HEAPQ = (\<lambda>body. body x a)" "objs (store x) a = Some r" "obj_wf r" "otype r = OBJ_HEAPQ"
    "obj_val (store x) r = VHeap {#}"
    by (rule with_typed_found [OF wf args v, of OBJ_HEAPQ]) simp_all
  obtain h where h: "ptr r = PHeap h" "heap_wf hq_cmp h" "ptr_heap r = Inr h" by (rule heap_ptr [OF r(3,4)])
  have "minheap_len h = 0" using r(5) heap_bag_size [OF h(2)] by (simp add: heap_val [OF h(1)])
  then have pop: "minheap_pop h = Inr (None, h)" by (simp add: minheap_pop_def minheap_len_def)
  have "r\<lparr>ptr := PHeap h\<rparr> = r" using h(1) by (cases r) simp
  then have "put_heap x a h = Inr x" using put_heap_eq [OF r(2), of h] r(2) by (simp add: set_obj_def fun_upd_idem)
  then show ?thesis
    using r(2) h(3) pop reply_shared_answers [OF wf, of "''$-1'' @ CRLF"]
    by (simp add: rr_cmd_hqpop_def r(1) heap_of_def get_obj_def shared_nullbulk_def)
qed

lemma hqpush_bad_score:
  fixes x :: "'d::linorder sctx"
  assumes wf: "srv_wf E x" and args: "args_are x [n, k, s, v]" and sc: "read_score ff s = None"
  shows "answers E (rr_cmd_hqpush ff x) x (''-ERR value is not a valid float'' @ CRLF) (keyspace x)"
proof -
  obtain r2 where r2: "arg_obj x 2 = Inr r2" "getDoubleFromObject ff (Some r2) = Inr None"
    using args_are_at(1,2) [OF args, of 2] sc getDouble_raw by (fastforce simp: arg_obj_def get_obj_def raw_at_def)
  then have "rr_cmd_hqpush ff x = Inr (reply_add_err x ''value is not a valid float'')"
    by (simp add: rr_cmd_hqpush_def getDoubleFromObjectOrReply_def)
  then show ?thesis
    using says_answers [OF reply_add_err_says [OF srv_ready [OF wf]] wf, of "''value is not a valid float''"] by (simp add: cstr_id nul_free_def)
qed

section \<open>Listing a trie\<close>

text \<open>The entries of a trie in the order the dictionary keeps them.\<close>

definition listed :: "(string \<Rightarrow> string option) \<Rightarrow> (string \<times> string) list \<Rightarrow> bool" where
  "listed m kvs \<longleftrightarrow> sorted_wrt strcmp_less (map fst kvs) \<and> map_of kvs = m"

definition entry_reply :: "bool \<Rightarrow> bool \<Rightarrow> string \<times> string \<Rightarrow> string" where
  "entry_reply wkey wval kv = (if wkey then bulk (fst kv) else []) @ (if wval then bulk (snd kv) else [])"

definition listing :: "bool \<Rightarrow> bool \<Rightarrow> (string \<times> string) list \<Rightarrow> string" where
  "listing wkey wval kvs =
     CHR ''*'' # dec (int (length kvs) * (of_bool wkey + of_bool wval)) @ CRLF @ concat (map (entry_reply wkey wval) kvs)"

text \<open>An entry that can be sent: a key and the address of a string.\<close>

definition sendable_entry :: "(addr \<Rightarrow> 'd robj option) \<Rightarrow> string \<times> addr \<Rightarrow> bool" where
  "sendable_entry hp kv \<longleftrightarrow> nul_free (fst kv) \<and> length (fst kv) < 2 ^ 63 \<and>
     (\<exists>r. hp (snd kv) = Some r \<and> string_ok r \<and> length (obj_str r) < 2 ^ 63)"

lemma reply_entries_says:
  assumes "ready x" and "\<forall>kv\<in>set kvs. sendable_entry (objs (store x)) kv"
  shows "says (reply_entries wkey wval x kvs) x (concat (map (\<lambda>(k, v). entry_reply wkey wval (k, str_of (store x) v)) kvs))"
  using assms
proof (induction kvs arbitrary: x)
  case Nil
  then show ?case by (simp add: says_def ready_def emits_refl)
next
  case (Cons kv kvs)
  obtain k v where kv: "kv = (k, v)" by (cases kv)
  then obtain r where k: "nul_free k" "length k < 2 ^ 63" and r: "objs (store x) v = Some r" "string_ok r" "length (obj_str r) < 2 ^ 63"
    using Cons.prems(2) by (auto simp: sendable_entry_def)
  have str: "str_of (store x) v = obj_str r" by (simp add: str_of_def r(1))
  have skip: "says (Inr y) y []" if "ready y" for y :: "'a sctx" using that by (simp add: says_def ready_def emits_refl)
  have key: "says (if wkey then reply_add_bulk_cstr x (Some k) else Inr x) x (if wkey then bulk k else [])"
    using reply_add_bulk_cbuf_says [OF Cons.prems(1) k(2)] skip [OF Cons.prems(1)] k(1) by (simp add: reply_add_bulk_cstr_def cstr_id)
  have val: "says (if wval then rbind (get_obj (store y) v) (reply_add_bulk_obj y) else Inr y) y (if wval then bulk (obj_str r) else [])"
    if "ready y" "rest y = rest x" for y :: "'a sctx"
    using reply_add_bulk_obj_says [OF that(1) r(2,3)] skip [OF that(1)] restD(9) [OF that(2)] r(1) by (simp add: get_obj_def)
  have tail: "says (reply_entries wkey wval y kvs) y (concat (map (\<lambda>(k, v). entry_reply wkey wval (k, str_of (store x) v)) kvs))"
    if "ready y" "rest y = rest x" for y :: "'a sctx"
  proof -
    have o: "objs (store y) = objs (store x)" by (rule restD(9) [OF that(2)])
    then have "str_of (store y) = str_of (store x)" by (simp add: fun_eq_iff str_of_def)
    then show ?thesis using Cons.IH [OF that(1)] Cons.prems(2) by (simp add: o)
  qed
  show ?case unfolding kv reply_entries.simps
    by (rule says_bind [OF key Cons.prems(1)], rule says_bind [OF val], assumption, assumption, assumption, rule tail, assumption, simp, rule refl)
      (simp add: entry_reply_def str)
qed

lemma reply_kvs_answers:
  fixes x :: "'d::linorder sctx"
  assumes wf: "srv_wf E x" and r: "objs (store x) a = Some r" "obj_wf r" "ptr r = PDict d" "dict_wf d"
    and it: "iter_collect it = Inr kvs" "set kvs \<subseteq> set (dict_entries d)" "2 * length kvs < 2 ^ 63"
    and short: "\<And>f s. trie_get (obj_val (store x) r) f = Some s \<Longrightarrow> length f < 2 ^ 63 \<and> length s < 2 ^ 63"
  shows "answers E (reply_kvs wkey wval x it) x (listing wkey wval (map (\<lambda>(k, v). (k, str_of (store x) v)) kvs)) (keyspace x)"
proof -
  have ent: "\<forall>kv\<in>set kvs. sendable_entry (objs (store x)) kv"
  proof
    fix kv assume "kv \<in> set kvs"
    moreover obtain k v where p: "kv = (k, v)" by (cases kv)
    ultimately have kv: "(k, v) \<in> set (dict_entries d)" using it(2) by auto
    then have m: "dict_map d k = Some v" using dict_wf_distinct [OF r(4)] by (simp add: dict_map_def)
    have "v \<in># obj_refs r" using dict_map_vals [OF m] obj_refs_dict [OF r(3)] by simp
    then obtain rv where rv: "objs (store x) v = Some rv" "string_ok rv" "str_of (store x) v = obj_str rv"
      by (rule inner_string [OF srv_wfD(1) [OF wf] r(1)])
    have "trie_get (obj_val (store x) r) k = Some (obj_str rv)" using m rv(3) by (simp add: trie_val [OF r(3)])
    moreover have "nul_free k" using kv r(4)
      by (force simp: dict_wf_def dict_entries_def slot_entries_def keys_def dest: crit_nul_free split: option.splits)
    ultimately show "sendable_entry (objs (store x)) kv" using short rv(1,2) by (simp add: p sendable_entry_def)
  qed
  let ?n = "int (length kvs) * (of_bool wkey + of_bool wval)"
  have n: "(let multiplier = (if wkey then 1 else 0) + (if wval then 1 else 0) in int (length kvs) * multiplier) = ?n" by simp
  have "?n \<le> int (2 * length kvs)" by simp
  then have len: "0 \<le> ?n" "?n \<le> LLONG_MAX" using it(3) by (simp_all add: LLONG_MAX_def)
  have "says (rbind (reply_add_multi_bulk_len x ?n) (\<lambda>x. reply_entries wkey wval x kvs)) x
      (listing wkey wval (map (\<lambda>(k, v). (k, str_of (store x) v)) kvs))"
  proof (rule says_bind [OF reply_add_multi_bulk_len_says [OF srv_ready [OF wf] len] srv_ready [OF wf]])
    fix y :: "'d sctx" assume y: "ready y" "rest y = rest x"
    have o: "objs (store y) = objs (store x)" by (rule restD(9) [OF y(2)])
    then have "str_of (store y) = str_of (store x)" by (simp add: fun_eq_iff str_of_def)
    then show "says (reply_entries wkey wval y kvs) y (concat (map (\<lambda>(k, v). entry_reply wkey wval (k, str_of (store x) v)) kvs))"
      using reply_entries_says [OF y(1), of kvs wkey wval] ent by (simp add: o)
  qed (simp add: listing_def case_prod_unfold o_def)
  then show ?thesis using says_answers [OF _ wf] it(1) by (simp add: reply_kvs_def Let_def of_bool_def)
qed

text \<open>The entries of the dictionary of a trie, with the strings they stand for.\<close>

lemma entries_list:
  assumes "dict_wf d" and "ptr r = PDict d"
  shows "listed (trie_get (obj_val st r)) (map (\<lambda>(k, v). (k, str_of st v)) (dict_entries d))"
proof -
  have "map_of (map (\<lambda>(k, v). (k, str_of st v)) kvs) = (\<lambda>k. map_option (str_of st) (map_of kvs k))"
    for kvs :: "(string \<times> addr) list" by (induction kvs) auto
  moreover have "fst \<circ> (\<lambda>(k :: string, v). (k, str_of st v)) = fst" by auto
  ultimately show ?thesis
    using dict_entries_sorted [OF assms(1)] by (simp add: listed_def trie_val [OF assms(2)] dict_map_def)
qed

definition short_trie :: "'d aval \<Rightarrow> bool" where
  "short_trie v \<longleftrightarrow> 2 * card (dom (trie_get v)) < 2 ^ 63 \<and>
     (\<forall>f s. trie_get v f = Some s \<longrightarrow> length f < 2 ^ 63 \<and> length s < 2 ^ 63)"

lemma short_trie_entries:
  assumes "dict_wf d" and "ptr r = PDict d" and "short_trie (obj_val st r)"
  shows "2 * length (dict_entries d) < 2 ^ 63"
proof -
  have "dom (trie_get (obj_val st r)) = dom (dict_map d)" by (auto simp: trie_val [OF assms(2)] dom_def)
  then show ?thesis using assms(3) dict_length_card [OF assms(1)] assms(1)
    by (simp add: short_trie_def dict_length_def dict_wf_def)
qed

lemma get_all_found:
  fixes x :: "'d::linorder sctx"
  assumes wf: "srv_wf E x" and args: "args_are x [n, k]" and v: "keyspace x (cstr k) = Some v" "val_is OBJ_HASH v" "short_trie v"
  shows "\<exists>kvs. listed (trie_get v) kvs \<and> answers E (get_all wkey wval x) x (listing wkey wval kvs) (keyspace x)"
proof -
  obtain a r where r: "with_typed x OBJ_HASH = (\<lambda>body. body x a)" "objs (store x) a = Some r" "obj_wf r" "otype r = OBJ_HASH"
    "obj_val (store x) r = v"
    by (rule with_typed_found [OF wf args v(1,2)])
  obtain d where d: "ptr r = PDict d" "dict_wf d" "ptr_dict r = Inr d" by (rule hash_dict [OF r(3,4)])
  obtain it where it: "dict_iter_create d = Inr it" "iter_collect it = Inr (dict_entries d)" using dict_iterate_all [OF d(2)] by blast
  have len: "2 * length (dict_entries d) < 2 ^ 63"
    by (rule short_trie_entries [OF d(2,1), of "store x"]) (use v(3) r(5) in simp)
  have "answers E (reply_kvs wkey wval x it) x (listing wkey wval (map (\<lambda>(k, v). (k, str_of (store x) v)) (dict_entries d))) (keyspace x)"
    by (rule reply_kvs_answers [OF wf r(2,3) d(1,2) it(2) subset_refl len]) (use v(3) r(5) in \<open>auto simp: short_trie_def\<close>)
  moreover have "get_all wkey wval x = reply_kvs wkey wval x it"
    using r(2) d(3) it(1) by (simp add: get_all_def r(1) trie_of_def get_obj_def)
  ultimately show ?thesis using entries_list [OF d(2,1), of "store x"] by (auto simp: r(5))
qed

lemma get_prefix_found:
  fixes x :: "'d::linorder sctx"
  assumes wf: "srv_wf E x" and args: "args_are x [n, k, p]" and v: "keyspace x (cstr k) = Some v" "val_is OBJ_HASH v" "short_trie v"
    and some: "dom (trie_get v) = {} \<or> (\<exists>f\<in>dom (trie_get v). take (length (cstr p)) f = cstr p)"
  shows "\<exists>kvs. listed (trie_get v) kvs \<and>
    answers E (rr_cmd_rpget x) x (listing True True (filter (\<lambda>kv. take (length (cstr p)) (fst kv) = cstr p) kvs)) (keyspace x)"
proof -
  obtain a r where r: "with_typed x OBJ_HASH = (\<lambda>body. body x a)" "objs (store x) a = Some r" "obj_wf r" "otype r = OBJ_HASH"
    "obj_val (store x) r = v"
    by (rule with_typed_found [OF wf args v(1,2)])
  obtain d where d: "ptr r = PDict d" "dict_wf d" "ptr_dict r = Inr d" by (rule hash_dict [OF r(3,4)])
  have dom: "dom (trie_get v) = fst ` set (dict_entries d)"
    unfolding r(5) [symmetric] by (auto simp: trie_val [OF d(1)] dict_map_def dom_map_of_conv_image_fst [symmetric] dom_def)
  note spec = dict_get_prefix_spec [OF d(2) nul_free_cstr, of p]
  have "\<exists>it. dict_get_prefix d (cstr p) = Inr it \<and> iter_collect it = Inr (with_prefix d (cstr p))"
  proof (cases "dict_entries d = []")
    case True
    then show ?thesis using spec(1) by (simp add: iter_collect_Nil with_prefix_def)
  next
    case False
    then have "with_prefix d (cstr p) \<noteq> []" using some by (auto simp: dom with_prefix_def filter_empty_conv)
    then show ?thesis by (rule spec(3))
  qed
  then obtain it where it: "dict_get_prefix d (cstr p) = Inr it" "iter_collect it = Inr (with_prefix d (cstr p))" by blast
  have "length (with_prefix d (cstr p)) \<le> length (dict_entries d)" by (simp add: with_prefix_def)
  moreover have "2 * length (dict_entries d) < 2 ^ 63"
    by (rule short_trie_entries [OF d(2,1), of "store x"]) (use v(3) r(5) in simp)
  ultimately have len: "2 * length (with_prefix d (cstr p)) < 2 ^ 63" by linarith
  have sub: "set (with_prefix d (cstr p)) \<subseteq> set (dict_entries d)" by (auto simp: with_prefix_def)
  have "answers E (reply_kvs True True x it) x (listing True True (map (\<lambda>(k, v). (k, str_of (store x) v)) (with_prefix d (cstr p)))) (keyspace x)"
    by (rule reply_kvs_answers [OF wf r(2,3) d(1,2) it(2) sub len]) (use v(3) r(5) in \<open>auto simp: short_trie_def\<close>)
  moreover have "rr_cmd_rpget x = reply_kvs True True x it"
    using r(2) d(3) it(1) args_are_at(3) [OF args, of 2] by (simp add: rr_cmd_rpget_def cmd_get_prefix_def r(1) trie_of_def get_obj_def)
  moreover have "map (\<lambda>(k, v). (k, str_of (store x) v)) (with_prefix d (cstr p)) =
      filter (\<lambda>kv. take (length (cstr p)) (fst kv) = cstr p) (map (\<lambda>(k, v). (k, str_of (store x) v)) (dict_entries d))"
    by (simp add: with_prefix_def filter_map o_def case_prod_unfold)
  ultimately show ?thesis using entries_list [OF d(2,1), of "store x"] by (auto simp: r(5))
qed

lemma hqpeek_found:
  fixes x :: "'d::linorder sctx"
  assumes wf: "srv_wf E x" and args: "args_are x [n, k]" and v: "keyspace x (cstr k) = Some (VHeap h)"
    and short: "\<And>sc s. (sc, s) \<in># h \<Longrightarrow> length s < 2 ^ 63"
  shows "if h = {#} then answers E (rr_cmd_hqpeek x) x (''$-1'' @ CRLF) (keyspace x)
    else \<exists>sc s. (sc, s) \<in># h \<and> (\<forall>p\<in>#h. sc \<le> fst p) \<and> answers E (rr_cmd_hqpeek x) x (bulk s) (keyspace x)"
proof -
  obtain a r where r: "with_typed x OBJ_HEAPQ = (\<lambda>body. body x a)" "objs (store x) a = Some r" "obj_wf r" "otype r = OBJ_HEAPQ"
    "obj_val (store x) r = VHeap h"
    by (rule with_typed_found [OF wf args v, of OBJ_HEAPQ]) simp_all
  obtain q where q: "ptr r = PHeap q" "heap_wf hq_cmp q" "ptr_heap r = Inr q" by (rule heap_ptr [OF r(3,4)])
  have h: "h = image_mset (\<lambda>it. (score it, str_of (store x) (obj it))) (heap_bag q)" using r(5) by (simp add: heap_val [OF q(1)])
  have eq: "rr_cmd_hqpeek x = (case minheap_min q of None \<Rightarrow> reply_add_obj x shared_nullbulk
      | Some i \<Rightarrow> rbind (item_at q i) (\<lambda>item. rbind (get_obj (store x) (obj item)) (reply_add_bulk_obj x)))"
    using r(2) q(3) by (simp add: rr_cmd_hqpeek_def r(1) heap_of_def get_obj_def)
  show ?thesis
  proof (cases "h = {#}")
    case True
    then have "minheap_min q = None" using h heap_bag_size [OF q(2)] by (simp add: minheap_min_def minheap_len_def)
    then show ?thesis using True reply_shared_answers [OF wf, of "''$-1'' @ CRLF"] by (simp add: eq shared_nullbulk_def)
  next
    case False
    then have "minheap_len q \<noteq> 0" using heap_bag_size [OF q(2)] unfolding h by (metis image_mset_is_empty_iff size_eq_0_iff_empty)
    then obtain i it where it: "minheap_min q = Some i" "array_read (array q) (Some i) = Inr it" "it \<in># heap_bag q"
      "\<forall>y\<in>#heap_bag q. hq_cmp it y \<le> 0" using hq.min_spec [OF q(2)] by blast
    have m: "(score it, str_of (store x) (obj it)) \<in># h" "\<forall>p\<in>#h. score it \<le> fst p" using it(3,4) by (auto simp: h hq_cmp_le)
    have "obj it \<in># obj_refs r" using it(3) by (simp add: obj_refs_heap [OF q(1)])
    from reply_inner_answers [OF wf r(2) this short [OF m(1)]]
    have "answers E (rr_cmd_hqpeek x) x (bulk (str_of (store x) (obj it))) (keyspace x)" using it(1,2) by (simp add: eq item_at_def)
    then show ?thesis using m False by auto
  qed
qed

end
