(* ===== verification/Stemmer.thy ===== *)
theory Stemmer
  imports Prelude
begin

text \<open>
  \<^verbatim>\<open>rr_stemmer.c\<close>: the Porter stemmer over a buffer. Every access to \<^verbatim>\<open>b[i]\<close> is checked
  against the word the caller passes (\<^verbatim>\<open>b[0] .. b[k]\<close>); an access outside it is a fault.
  The lemmas show that there is none, whatever bytes the word has, and that stemming
  never makes a word longer.
\<close>

section \<open>The buffer\<close>

record stemmer =
  zb :: string
  zk :: int
  zj :: int

definition byte_at :: "string \<Rightarrow> int \<Rightarrow> char result" where
  "byte_at b i = (if 0 \<le> i \<and> i < int (length b) then Inr (b ! nat i) else Inl OutOfBounds)"

lemma byte_at_Inr [simp]: "byte_at b i = Inr c \<longleftrightarrow> 0 \<le> i \<and> i < int (length b) \<and> c = b ! nat i"
  by (auto simp: byte_at_def)

function cons :: "string \<Rightarrow> int \<Rightarrow> bool result" where
  "cons b i =
     rbind (byte_at b i) (\<lambda>ch.
       if ch \<in> set ''aeiou'' then Inr False
       else if ch = CHR ''y'' then (if i = 0 then Inr True else rbind (cons b (i - 1)) (\<lambda>c. Inr (\<not> c)))
       else Inr True)"
  by pat_completeness auto
termination by (relation "measure (\<lambda>(b, i). nat i)") auto

declare cons.simps [simp del]

text \<open>The inner loops of \<^verbatim>\<open>m\<close>: from \<open>i\<close> on, the first position up to \<open>j\<close> that is (is not) a consonant.\<close>

function scan :: "string \<Rightarrow> int \<Rightarrow> bool \<Rightarrow> int \<Rightarrow> int option result" where
  "scan b j want i =
     (if i > j then Inr None
      else rbind (cons b i) (\<lambda>c. if c = want then Inr (Some i) else scan b j want (i + 1)))"
  by pat_completeness auto
termination by (relation "measure (\<lambda>(b, j, want, i). nat (j + 1 - i))") auto

declare scan.simps [simp del]

lemma scan_range: "scan b j want i = Inr (Some p) \<Longrightarrow> i \<le> p \<and> p \<le> j"
proof (induction b j want i rule: scan.induct)
  case (1 b j want i)
  from "1.prems" show ?case
    by (subst (asm) scan.simps) (auto split: if_splits dest: "1.IH")
qed

function m_loop :: "string \<Rightarrow> int \<Rightarrow> int \<Rightarrow> int \<Rightarrow> int result" where
  "m_loop b j n i =
     rbind (scan b j True i) (\<lambda>p.
       case p of
         None \<Rightarrow> Inr n
       | Some i1 \<Rightarrow>
           rbind (scan b j False (i1 + 1)) (\<lambda>q.
             case q of None \<Rightarrow> Inr (n + 1) | Some i2 \<Rightarrow> m_loop b j (n + 1) (i2 + 1)))"
  by pat_completeness auto
termination
  by (relation "measure (\<lambda>(b, j, n, i). nat (j + 1 - i))") (auto dest!: scan_range)

declare m_loop.simps [simp del]

definition stem_m :: "stemmer \<Rightarrow> int result" where
  "stem_m z =
     rbind (scan (zb z) (zj z) False 0) (\<lambda>p.
       case p of None \<Rightarrow> Inr 0 | Some i \<Rightarrow> m_loop (zb z) (zj z) 0 (i + 1))"

definition vowelinstem :: "stemmer \<Rightarrow> bool result" where
  "vowelinstem z = rbind (scan (zb z) (zj z) False 0) (\<lambda>p. Inr (p \<noteq> None))"

definition doublec :: "stemmer \<Rightarrow> int \<Rightarrow> bool result" where
  "doublec z j =
     (if j < 1 then Inr False
      else rbind (byte_at (zb z) j) (\<lambda>c1. rbind (byte_at (zb z) (j - 1)) (\<lambda>c0.
        if c1 \<noteq> c0 then Inr False else cons (zb z) j)))"

definition cvc :: "stemmer \<Rightarrow> int \<Rightarrow> bool result" where
  "cvc z i =
     (if i < 2 then Inr False
      else rbind (cons (zb z) i) (\<lambda>c2. if \<not> c2 then Inr False
      else rbind (cons (zb z) (i - 1)) (\<lambda>c1. if c1 then Inr False
      else rbind (cons (zb z) (i - 2)) (\<lambda>c0. if \<not> c0 then Inr False
      else rbind (byte_at (zb z) i) (\<lambda>ch. Inr (ch \<notin> set ''wxy''))))))"

definition ends :: "stemmer \<Rightarrow> string \<Rightarrow> (bool \<times> stemmer) result" where
  "ends z s =
     rbind (byte_at (zb z) (zk z)) (\<lambda>ch.
       if last s \<noteq> ch then Inr (False, z)
       else if int (length s) > zk z + 1 then Inr (False, z)
       else if take (length s) (drop (nat (zk z - int (length s) + 1)) (zb z)) \<noteq> s then Inr (False, z)
       else Inr (True, z\<lparr>zj := zk z - int (length s)\<rparr>))"

definition setto :: "stemmer \<Rightarrow> string \<Rightarrow> stemmer result" where
  "setto z s =
     (let p = zj z + 1 in
      if 0 \<le> p \<and> p + int (length s) \<le> int (length (zb z))
      then Inr (z\<lparr>zb := take (nat p) (zb z) @ s @ drop (nat p + length s) (zb z), zk := zj z + int (length s)\<rparr>)
      else Inl OutOfBounds)"

definition stem_r :: "stemmer \<Rightarrow> string \<Rightarrow> stemmer result" where
  "stem_r z s = rbind (stem_m z) (\<lambda>n. if n > 0 then setto z s else Inr z)"

section \<open>The steps\<close>

definition step1ab_s :: "stemmer \<Rightarrow> stemmer result" where
  "step1ab_s z =
     rbind (byte_at (zb z) (zk z)) (\<lambda>ch.
       if ch = CHR ''s'' then
         rbind (ends z ''sses'') (\<lambda>(e, z). if e then Inr (z\<lparr>zk := zk z - 2\<rparr>)
         else rbind (ends z ''ies'') (\<lambda>(e, z). if e then setto z ''i''
         else rbind (byte_at (zb z) (zk z - 1)) (\<lambda>c1. if c1 \<noteq> CHR ''s'' then Inr (z\<lparr>zk := zk z - 1\<rparr>) else Inr z)))
       else Inr z)"

definition step1ab_dbl :: "stemmer \<Rightarrow> stemmer result" where
  "step1ab_dbl z =
     rbind (doublec z (zk z)) (\<lambda>dbl.
       if dbl then
         let z = z\<lparr>zk := zk z - 1\<rparr> in
         rbind (byte_at (zb z) (zk z)) (\<lambda>ch. if ch \<in> set ''lsz'' then Inr (z\<lparr>zk := zk z + 1\<rparr>) else Inr z)
       else rbind (stem_m z) (\<lambda>n.
         if n = 1 then rbind (cvc z (zk z)) (\<lambda>c. if c then setto z ''e'' else Inr z) else Inr z))"

definition step1ab_fix :: "stemmer \<Rightarrow> stemmer result" where
  "step1ab_fix z =
     rbind (ends z ''at'') (\<lambda>(e, z). if e then setto z ''ate''
     else rbind (ends z ''bl'') (\<lambda>(e, z). if e then setto z ''ble''
     else rbind (ends z ''iz'') (\<lambda>(e, z). if e then setto z ''ize''
     else step1ab_dbl z)))"

definition step1ab_ed :: "stemmer \<Rightarrow> stemmer result" where
  "step1ab_ed z =
     rbind (ends z ''eed'') (\<lambda>(e, z).
       if e then rbind (stem_m z) (\<lambda>n. if n > 0 then Inr (z\<lparr>zk := zk z - 1\<rparr>) else Inr z)
       else
         rbind (rbind (ends z ''ed'') (\<lambda>(e, z). if e then Inr (True, z) else ends z ''ing'')) (\<lambda>(e, z).
           if e then rbind (vowelinstem z) (\<lambda>v. if v then step1ab_fix (z\<lparr>zk := zj z\<rparr>) else Inr z)
           else Inr z))"

definition step1ab :: "stemmer \<Rightarrow> stemmer result" where
  "step1ab z = rbind (step1ab_s z) step1ab_ed"

definition step1c :: "stemmer \<Rightarrow> stemmer result" where
  "step1c z =
     rbind (ends z ''y'') (\<lambda>(e, z).
       if e then rbind (vowelinstem z) (\<lambda>v. Inr (if v then z\<lparr>zb := (zb z)[nat (zk z) := CHR ''i'']\<rparr> else z))
       else Inr z)"

text \<open>\<^verbatim>\<open>if (ends(z, s)) { r(z, t); break; }\<close>, one after the other.\<close>

fun first_r :: "stemmer \<Rightarrow> (string \<times> string) list \<Rightarrow> stemmer result" where
  "first_r z [] = Inr z"
| "first_r z ((s, t) # ps) = rbind (ends z s) (\<lambda>(e, z). if e then stem_r z t else first_r z ps)"

definition step2_cases :: "char \<Rightarrow> (string \<times> string) list" where
  "step2_cases ch =
     (if ch = CHR ''a'' then [(''ational'', ''ate''), (''tional'', ''tion'')]
      else if ch = CHR ''c'' then [(''enci'', ''ence''), (''anci'', ''ance'')]
      else if ch = CHR ''e'' then [(''izer'', ''ize'')]
      else if ch = CHR ''l'' then
        [(''bli'', ''ble''), (''alli'', ''al''), (''entli'', ''ent''), (''eli'', ''e''), (''ousli'', ''ous'')]
      else if ch = CHR ''o'' then [(''ization'', ''ize''), (''ation'', ''ate''), (''ator'', ''ate'')]
      else if ch = CHR ''s'' then
        [(''alism'', ''al''), (''iveness'', ''ive''), (''fulness'', ''ful''), (''ousness'', ''ous'')]
      else if ch = CHR ''t'' then [(''aliti'', ''al''), (''iviti'', ''ive''), (''biliti'', ''ble'')]
      else if ch = CHR ''g'' then [(''logi'', ''log'')]
      else [])"

definition step2 :: "stemmer \<Rightarrow> stemmer result" where
  "step2 z = rbind (byte_at (zb z) (zk z - 1)) (\<lambda>ch. first_r z (step2_cases ch))"

definition step3_cases :: "char \<Rightarrow> (string \<times> string) list" where
  "step3_cases ch =
     (if ch = CHR ''e'' then [(''icate'', ''ic''), (''ative'', ''''), (''alize'', ''al'')]
      else if ch = CHR ''i'' then [(''iciti'', ''ic'')]
      else if ch = CHR ''l'' then [(''ical'', ''ic''), (''ful'', '''')]
      else if ch = CHR ''s'' then [(''ness'', '''')]
      else [])"

definition step3 :: "stemmer \<Rightarrow> stemmer result" where
  "step3 z = rbind (byte_at (zb z) (zk z)) (\<lambda>ch. first_r z (step3_cases ch))"

text \<open>\<^verbatim>\<open>if (ends(z, s)) break;\<close>, one after the other.\<close>

fun first_end :: "stemmer \<Rightarrow> string list \<Rightarrow> (bool \<times> stemmer) result" where
  "first_end z [] = Inr (False, z)"
| "first_end z (s # ss) = rbind (ends z s) (\<lambda>(e, z). if e then Inr (True, z) else first_end z ss)"

definition step4_cases :: "char \<Rightarrow> string list" where
  "step4_cases ch =
     (if ch = CHR ''a'' then [''al'']
      else if ch = CHR ''c'' then [''ance'', ''ence'']
      else if ch = CHR ''e'' then [''er'']
      else if ch = CHR ''i'' then [''ic'']
      else if ch = CHR ''l'' then [''able'', ''ible'']
      else if ch = CHR ''n'' then [''ant'', ''ement'', ''ment'', ''ent'']
      else if ch = CHR ''s'' then [''ism'']
      else if ch = CHR ''t'' then [''ate'', ''iti'']
      else if ch = CHR ''u'' then [''ous'']
      else if ch = CHR ''v'' then [''ive'']
      else if ch = CHR ''z'' then [''ize'']
      else [])"

definition step4_ion :: "stemmer \<Rightarrow> (bool \<times> stemmer) result" where
  "step4_ion z =
     rbind (ends z ''ion'') (\<lambda>(e, z).
       rbind (if e \<and> zj z \<ge> 0 then rbind (byte_at (zb z) (zj z)) (\<lambda>c. Inr (c \<in> set ''st'')) else Inr False) (\<lambda>ok.
         if ok then Inr (True, z) else ends z ''ou''))"

definition step4 :: "stemmer \<Rightarrow> stemmer result" where
  "step4 z =
     rbind (byte_at (zb z) (zk z - 1)) (\<lambda>ch.
     rbind (if ch = CHR ''o'' then step4_ion z else first_end z (step4_cases ch)) (\<lambda>(e, z).
       if e then rbind (stem_m z) (\<lambda>n. Inr (if n > 1 then z\<lparr>zk := zj z\<rparr> else z)) else Inr z))"

definition step5_e :: "stemmer \<Rightarrow> stemmer result" where
  "step5_e z =
     rbind (byte_at (zb z) (zk z)) (\<lambda>ch.
       if ch = CHR ''e'' then
         rbind (stem_m z) (\<lambda>a.
           if a > 1 \<or> a = 1 then rbind (cvc z (zk z - 1)) (\<lambda>c. Inr (if \<not> c then z\<lparr>zk := zk z - 1\<rparr> else z)) else Inr z)
       else Inr z)"

definition step5 :: "stemmer \<Rightarrow> stemmer result" where
  "step5 z0 =
     rbind (step5_e (z0\<lparr>zj := zk z0\<rparr>)) (\<lambda>z.
     rbind (byte_at (zb z) (zk z)) (\<lambda>ch.
       if ch = CHR ''l'' then
         rbind (doublec z (zk z)) (\<lambda>d. if d then rbind (stem_m z) (\<lambda>n. Inr (if n > 1 then z\<lparr>zk := zk z - 1\<rparr> else z)) else Inr z)
       else Inr z))"

text \<open>The word after stemming and its new end; \<^verbatim>\<open>z->j\<close> is not initialised, its first use follows a write.\<close>

definition stem :: "string \<Rightarrow> int \<Rightarrow> (string \<times> int) result" where
  "stem b k =
     (if k \<le> 1 then Inr (b, k)
      else
        rbind (step1ab \<lparr>zb = b, zk = k, zj = 0\<rparr>) (\<lambda>z.
        rbind (if zk z > 0
               then rbind (step1c z) (\<lambda>z. rbind (step2 z) (\<lambda>z. rbind (step3 z) (\<lambda>z. rbind (step4 z) step5)))
               else Inr z) (\<lambda>z. Inr (zb z, zk z))))"

section \<open>No access outside the word\<close>

text \<open>\<open>runs m P\<close>: the computation ends without a fault in a state that satisfies \<open>P\<close>.\<close>

definition runs :: "'a result \<Rightarrow> ('a \<Rightarrow> bool) \<Rightarrow> bool" where
  "runs m P \<longleftrightarrow> (\<exists>y. m = Inr y \<and> P y)"

lemma runs_Inr [simp]: "runs (Inr y) P \<longleftrightarrow> P y"
  by (simp add: runs_def)

lemma runs_bind: "runs m P \<Longrightarrow> (\<And>y. P y \<Longrightarrow> runs (f y) Q) \<Longrightarrow> runs (rbind m f) Q"
  by (auto simp: runs_def)

lemma runs_bind_pair: "runs m P \<Longrightarrow> (\<And>e z. P (e, z) \<Longrightarrow> runs (f e z) Q) \<Longrightarrow> runs (rbind m (\<lambda>(e, z). f e z)) Q"
  by (auto simp: runs_def)

lemma runs_mono: "runs m P \<Longrightarrow> (\<And>y. P y \<Longrightarrow> Q y) \<Longrightarrow> runs m Q"
  by (auto simp: runs_def)

lemma byte_at_runs: "0 \<le> i \<Longrightarrow> i < int (length b) \<Longrightarrow> runs (byte_at b i) (\<lambda>c. c = b ! nat i)"
  by (simp add: runs_def)

lemma cons_runs: "0 \<le> i \<Longrightarrow> i < int (length b) \<Longrightarrow> runs (cons b i) (\<lambda>_. True)"
proof (induction b i rule: cons.induct)
  case (1 b i)
  have "runs (cons b (i - 1)) (\<lambda>_. True)" if "i \<noteq> 0" "b ! nat i = CHR ''y''"
    using "1.IH" [of "CHR ''y''"] "1.prems" that by simp
  then show ?case
    by (subst cons.simps) (use "1.prems" in \<open>auto simp: byte_at_def intro: runs_bind\<close>)
qed

lemma scan_runs: "0 \<le> i \<Longrightarrow> j < int (length b) \<Longrightarrow> runs (scan b j want i) (\<lambda>_. True)"
proof (induction b j want i rule: scan.induct)
  case (1 b j want i)
  show ?case
  proof (cases "i > j")
    case False
    obtain c where c: "cons b i = Inr c" using cons_runs [of i b] "1.prems" False by (auto simp: runs_def)
    show ?thesis
      by (subst scan.simps) (use False c "1.IH" [OF False c] "1.prems" in auto)
  qed (subst scan.simps, simp)
qed

lemma m_loop_runs:
  "0 \<le> i \<Longrightarrow> j < int (length b) \<Longrightarrow> runs (m_loop b j n i) (\<lambda>n'. n \<le> n' \<and> (n < n' \<longrightarrow> i \<le> j) \<and> (n + 1 < n' \<longrightarrow> i + 2 \<le> j))"
proof (induction b j n i rule: m_loop.induct)
  case (1 b j n i)
  obtain p where p: "scan b j True i = Inr p" using scan_runs [OF "1.prems"] by (auto simp: runs_def)
  show ?case
  proof (cases p)
    case None
    then show ?thesis using p by (subst m_loop.simps) simp
  next
    case (Some i1)
    note r1 = scan_range [of b j True i i1]
    have i1: "i \<le> i1" "i1 \<le> j" using r1 p Some by auto
    obtain q where q: "scan b j False (i1 + 1) = Inr q"
      using scan_runs [of "i1 + 1" j b] i1 "1.prems" by (auto simp: runs_def)
    show ?thesis
    proof (cases q)
      case None
      then show ?thesis using p q Some i1 by (subst m_loop.simps) simp
    next
      case q2: (Some i2)
      have i2: "i1 + 1 \<le> i2" "i2 \<le> j" using scan_range q q2 by blast+
      have "runs (m_loop b j (n + 1) (i2 + 1)) (\<lambda>n'. n + 1 \<le> n' \<and> (n + 1 < n' \<longrightarrow> i2 + 1 \<le> j) \<and> (n + 1 + 1 < n' \<longrightarrow> i2 + 1 + 2 \<le> j))"
        using "1.IH" [OF p Some q q2] i1 i2 "1.prems" by simp
      then show ?thesis
        by (subst m_loop.simps) (use p q Some q2 i1 i2 in \<open>auto elim!: runs_mono\<close>)
    qed
  qed
qed

lemma stem_m_runs:
  assumes "zj z < int (length (zb z))"
  shows "runs (stem_m z) (\<lambda>n. (0 < n \<longrightarrow> 1 \<le> zj z) \<and> (1 < n \<longrightarrow> 3 \<le> zj z))"
proof -
  obtain p where p: "scan (zb z) (zj z) False 0 = Inr p" using scan_runs [of 0 "zj z" "zb z" False] assms by (auto simp: runs_def)
  show ?thesis
  proof (cases p)
    case (Some i)
    then have i: "0 \<le> i" "i \<le> zj z" using scan_range p by auto
    have "runs (m_loop (zb z) (zj z) 0 (i + 1)) (\<lambda>n'. 0 \<le> n' \<and> (0 < n' \<longrightarrow> i + 1 \<le> zj z) \<and> (0 + 1 < n' \<longrightarrow> i + 1 + 2 \<le> zj z))"
      by (rule m_loop_runs) (use i assms in auto)
    then show ?thesis using p Some i by (auto simp: stem_m_def elim!: runs_mono)
  qed (simp add: stem_m_def p)
qed

lemma vowelinstem_runs:
  assumes "zj z < int (length (zb z))"
  shows "runs (vowelinstem z) (\<lambda>v. v \<longrightarrow> 0 \<le> zj z)"
proof -
  obtain p where p: "scan (zb z) (zj z) False 0 = Inr p" using scan_runs [of 0 "zj z" "zb z" False] assms by (auto simp: runs_def)
  then show ?thesis by (cases p) (auto simp: vowelinstem_def dest: scan_range)
qed

lemma doublec_runs: "i < int (length (zb z)) \<Longrightarrow> runs (doublec z i) (\<lambda>d. d \<longrightarrow> 1 \<le> i)"
  using cons_runs [of i "zb z"] by (auto simp: doublec_def byte_at_def elim!: runs_mono)

lemma cvc_runs:
  assumes "i < int (length (zb z))"
  shows "runs (cvc z i) (\<lambda>c. True)"
proof (cases "i < 2")
  case False
  obtain c2 c1 c0 where "cons (zb z) i = Inr c2" "cons (zb z) (i - 1) = Inr c1" "cons (zb z) (i - 2) = Inr c0"
    using cons_runs [of i "zb z"] cons_runs [of "i - 1" "zb z"] cons_runs [of "i - 2" "zb z"] assms False
    by (auto simp: runs_def)
  then show ?thesis using False assms by (simp add: cvc_def byte_at_def)
qed (simp add: cvc_def)

text \<open>The state between the steps: the buffer has kept its length, the word ends inside it.\<close>

definition in_word :: "nat \<Rightarrow> stemmer \<Rightarrow> bool" where
  "in_word n z \<longleftrightarrow> length (zb z) = n \<and> 0 \<le> zk z \<and> zk z < int n"

lemma ends_runs:
  assumes "in_word n z"
  shows "runs (ends z s) (\<lambda>(e, z'). if e then z' = z\<lparr>zj := zk z - int (length s)\<rparr> \<and> int (length s) \<le> zk z + 1 else z' = z)"
  using assms by (auto simp: ends_def byte_at_def in_word_def)

lemma setto_runs:
  assumes "length (zb z) = n" and "- 1 \<le> zj z" and "zj z + int (length s) < int n"
  shows "runs (setto z s) (\<lambda>z'. length (zb z') = n \<and> zk z' = zj z + int (length s) \<and> zj z' = zj z)"
  using assms by (auto simp: setto_def Let_def)

lemma stem_r_runs:
  assumes "in_word n z" and "1 \<le> zk z" and "zj z + int (length s) = zk z" and "length t \<le> length s"
  shows "runs (stem_r z t) (\<lambda>z'. in_word n z' \<and> 1 \<le> zk z' \<and> zk z' \<le> zk z)"
  unfolding stem_r_def
proof (rule runs_bind [OF stem_m_runs])
  show "zj z < int (length (zb z))" using assms by (simp add: in_word_def)
  fix m assume m: "(0 < m \<longrightarrow> 1 \<le> zj z) \<and> (1 < m \<longrightarrow> 3 \<le> zj z)"
  show "runs (if 0 < m then setto z t else Inr z) (\<lambda>z'. in_word n z' \<and> 1 \<le> zk z' \<and> zk z' \<le> zk z)"
  proof (cases "0 < m")
    case True
    have "runs (setto z t) (\<lambda>z'. length (zb z') = n \<and> zk z' = zj z + int (length t) \<and> zj z' = zj z)"
      by (rule setto_runs) (use assms m True in \<open>auto simp: in_word_def\<close>)
    with assms m True show ?thesis by (auto simp: in_word_def elim!: runs_mono)
  qed (use assms in simp)
qed

lemma first_r_runs:
  assumes "in_word n z" and "1 \<le> zk z" and "\<forall>(s, t) \<in> set ps. length t \<le> length s"
  shows "runs (first_r z ps) (\<lambda>z'. in_word n z' \<and> 1 \<le> zk z' \<and> zk z' \<le> zk z)"
  using assms(3)
proof (induction ps)
  case (Cons p ps)
  obtain s t where p: "p = (s, t)" by (cases p)
  show ?case unfolding p first_r.simps
  proof (rule runs_bind_pair [OF ends_runs [OF assms(1)]])
    fix e z'
    assume *: "case (e, z') of (e, z') \<Rightarrow> if e then z' = z\<lparr>zj := zk z - int (length s)\<rparr> \<and> int (length s) \<le> zk z + 1 else z' = z"
    show "runs (if e then stem_r z' t else first_r z' ps) (\<lambda>z'. in_word n z' \<and> 1 \<le> zk z' \<and> zk z' \<le> zk z)"
      using * Cons p stem_r_runs [of n "z\<lparr>zj := zk z - int (length s)\<rparr>" s t] assms by (auto simp: in_word_def)
  qed
qed (use assms in simp)

text \<open>What a test for a suffix leaves behind.\<close>

lemma ends_cases:
  assumes "in_word n z"
    and "\<And>z'. z' = z\<lparr>zj := zk z - int (length s)\<rparr> \<Longrightarrow> in_word n z' \<Longrightarrow> - 1 \<le> zj z' \<Longrightarrow> zj z' + int (length s) = zk z' \<Longrightarrow> runs (f True z') Q"
    and "runs (f False z) Q"
  shows "runs (rbind (ends z s) (\<lambda>(e, z). f e z)) Q"
proof (rule runs_bind_pair [OF ends_runs [OF assms(1)]])
  fix e z'
  assume *: "case (e, z') of (e, z') \<Rightarrow> if e then z' = z\<lparr>zj := zk z - int (length s)\<rparr> \<and> int (length s) \<le> zk z + 1 else z' = z"
  show "runs (f e z') Q"
    using * assms by (cases e) (auto simp: in_word_def)
qed

lemma setto_word:
  assumes "in_word n z" and "- 1 \<le> zj z" and "zj z + int (length s) < int n" and "s \<noteq> []"
  shows "runs (setto z s) (\<lambda>z'. in_word n z' \<and> zk z' = zj z + int (length s))"
proof -
  have "0 \<le> zj z + int (length s)" using assms(2,4) by (cases s) auto
  moreover have "runs (setto z s) (\<lambda>y. length (zb y) = n \<and> zk y = zj z + int (length s) \<and> zj y = zj z)"
    by (rule setto_runs) (use assms in \<open>auto simp: in_word_def\<close>)
  ultimately show ?thesis using assms by (auto simp: in_word_def elim!: runs_mono)
qed

lemma step1ab_s_runs:
  assumes w: "in_word n z" and k: "2 \<le> zk z"
  shows "runs (step1ab_s z) (\<lambda>z'. in_word n z' \<and> zk z' \<le> zk z)"
proof -
  have put: "runs (setto z' ''i'') (\<lambda>y. in_word n y \<and> zk y \<le> zk z)"
    if "z' = z\<lparr>zj := zk z - int (length ''ies'')\<rparr>" "in_word n z'" "- 1 \<le> zj z'" for z'
    by (rule runs_mono [OF setto_word]) (use that k in \<open>auto simp: in_word_def\<close>)
  have last: "runs (rbind (byte_at (zb z) (zk z - 1)) (\<lambda>c1. if c1 \<noteq> CHR ''s'' then Inr (z\<lparr>zk := zk z - 1\<rparr>) else Inr z))
      (\<lambda>y. in_word n y \<and> zk y \<le> zk z)"
    using w k by (auto simp: in_word_def byte_at_def)
  have cut: "in_word n (z'\<lparr>zk := zk z' - 2\<rparr>) \<and> zk z' - 2 \<le> zk z"
    if "z' = z\<lparr>zj := zk z - int (length ''sses'')\<rparr>" "in_word n z'" "- 1 \<le> zj z'" for z'
    using that k by (auto simp: in_word_def)
  have "runs (rbind (ends z ''sses'') (\<lambda>(e, z). if e then Inr (z\<lparr>zk := zk z - 2\<rparr>)
         else rbind (ends z ''ies'') (\<lambda>(e, z). if e then setto z ''i''
         else rbind (byte_at (zb z) (zk z - 1)) (\<lambda>c1. if c1 \<noteq> CHR ''s'' then Inr (z\<lparr>zk := zk z - 1\<rparr>) else Inr z))))
       (\<lambda>z'. in_word n z' \<and> zk z' \<le> zk z)"
    apply (rule ends_cases [OF w])
     apply (use cut in simp)
    apply (simp only: if_False)
    apply (rule ends_cases [OF w])
     apply (use put in simp)
    apply (use last in simp)
    done
  then show ?thesis using w by (auto simp: step1ab_s_def in_word_def byte_at_def)
qed

text \<open>
  After \<^verbatim>\<open>ed\<close> or \<^verbatim>\<open>ing\<close> is cut off there are at least two free bytes behind the word, and
  \<^verbatim>\<open>j\<close> is its end.
\<close>

lemma step1ab_dbl_runs:
  assumes w: "in_word n z" and j: "zj z = zk z" and room: "zk z + 2 < int n"
  shows "runs (step1ab_dbl z) (\<lambda>z'. in_word n z' \<and> zk z' \<le> zk z + 2)"
proof -
  have e: "runs (setto z ''e'') (\<lambda>y. in_word n y \<and> zk y \<le> zk z + 2)"
    by (rule runs_mono [OF setto_word]) (use assms in \<open>auto simp: in_word_def\<close>)
  have k: "zk z < int (length (zb z))" "zj z < int (length (zb z))" using w j by (auto simp: in_word_def)
  have cvc: "runs (rbind (cvc z (zk z)) (\<lambda>c. if c then setto z ''e'' else Inr z)) (\<lambda>y. in_word n y \<and> zk y \<le> zk z + 2)"
    by (rule runs_bind [OF cvc_runs [OF k(1)]]) (use e w in simp)
  have m: "runs (rbind (stem_m z) (\<lambda>m. if m = 1 then rbind (cvc z (zk z)) (\<lambda>c. if c then setto z ''e'' else Inr z) else Inr z))
      (\<lambda>y. in_word n y \<and> zk y \<le> zk z + 2)"
    by (rule runs_bind [OF stem_m_runs [OF k(2)]]) (use cvc w in simp)
  show ?thesis unfolding step1ab_dbl_def
    by (rule runs_bind [OF doublec_runs [OF k(1)]]) (use m w in \<open>auto simp: in_word_def byte_at_def Let_def\<close>)
qed

lemma step1ab_fix_runs:
  assumes w: "in_word n z" and j: "zj z = zk z" and room: "zk z + 2 < int n"
  shows "runs (step1ab_fix z) (\<lambda>z'. in_word n z' \<and> zk z' \<le> zk z + 2)"
proof -
  have put: "runs (setto z' t) (\<lambda>y. in_word n y \<and> zk y \<le> zk z + 2)"
    if "z' = z\<lparr>zj := zk z - int (length s)\<rparr>" "in_word n z'" "- 1 \<le> zj z'" "length t = length s + 1" for z' s t
    by (rule runs_mono [OF setto_word]) (use that room in \<open>auto simp: in_word_def\<close>)
  show ?thesis unfolding step1ab_fix_def
    apply (rule ends_cases [OF w])
     apply (use put [of _ "''at''" "''ate''"] in simp)
    apply (simp only: if_False)
    apply (rule ends_cases [OF w])
     apply (use put [of _ "''bl''" "''ble''"] in simp)
    apply (simp only: if_False)
    apply (rule ends_cases [OF w])
     apply (use put [of _ "''iz''" "''ize''"] in simp)
    apply (use step1ab_dbl_runs [OF assms] in simp)
    done
qed

lemma step1ab_ed_runs:
  assumes w: "in_word n z"
  shows "runs (step1ab_ed z) (\<lambda>z'. in_word n z' \<and> zk z' \<le> zk z)"
proof -
  have k: "zk z < int (length (zb z))" "length (zb z) = n" using w by (auto simp: in_word_def)
  have cut: "runs (rbind (vowelinstem z') (\<lambda>v. if v then step1ab_fix (z'\<lparr>zk := zj z'\<rparr>) else Inr z')) (\<lambda>y. in_word n y \<and> zk y \<le> zk z)"
    if z': "z' = z\<lparr>zj := zk z - int (length s)\<rparr>" "in_word n z'" "2 \<le> length s" for z' s
  proof (rule runs_bind [OF vowelinstem_runs])
    show "zj z' < int (length (zb z'))" using z' k by simp
    fix v assume v: "v \<longrightarrow> 0 \<le> zj z'"
    show "runs (if v then step1ab_fix (z'\<lparr>zk := zj z'\<rparr>) else Inr z') (\<lambda>y. in_word n y \<and> zk y \<le> zk z)"
    proof (cases v)
      case True
      have "runs (step1ab_fix (z'\<lparr>zk := zj z'\<rparr>)) (\<lambda>y. in_word n y \<and> zk y \<le> zk (z'\<lparr>zk := zj z'\<rparr>) + 2)"
        by (rule step1ab_fix_runs) (use z' v True k in \<open>auto simp: in_word_def\<close>)
      then show ?thesis using True z' by (auto elim!: runs_mono)
    qed (use z' in simp)
  qed
  have eed: "runs (rbind (stem_m z') (\<lambda>m. if m > 0 then Inr (z'\<lparr>zk := zk z' - 1\<rparr>) else Inr z')) (\<lambda>y. in_word n y \<and> zk y \<le> zk z)"
    if z': "z' = z\<lparr>zj := zk z - int (length ''eed'')\<rparr>" "in_word n z'" for z'
    by (rule runs_bind [OF stem_m_runs]) (use z' k in \<open>auto simp: in_word_def\<close>)
  have fold: "rbind (rbind (ends z ''ed'') (\<lambda>(e, z). if e then Inr (True, z) else ends z ''ing'')) (\<lambda>(e, z). F e z) =
      rbind (ends z ''ed'') (\<lambda>(e, z). if e then F True z else rbind (ends z ''ing'') (\<lambda>(e, z). F e z))" for F :: "bool \<Rightarrow> stemmer \<Rightarrow> stemmer result"
    by (cases "ends z ''ed''") auto
  show ?thesis unfolding step1ab_ed_def
    apply (rule ends_cases [OF w])
     apply (use eed in simp)
    apply (simp only: if_False fold)
    apply (rule ends_cases [OF w])
     apply (use cut [of _ "''ed''"] in simp)
    apply (simp only: if_False)
    apply (rule ends_cases [OF w])
     apply (use cut [of _ "''ing''"] in simp)
    apply (use w in simp)
    done
qed

definition keeps_word :: "nat \<Rightarrow> stemmer \<Rightarrow> stemmer \<Rightarrow> bool" where
  "keeps_word n z z' \<longleftrightarrow> in_word n z' \<and> 1 \<le> zk z' \<and> zk z' \<le> zk z"

lemma step1c_runs:
  assumes w: "in_word n z" and k: "1 \<le> zk z"
  shows "runs (step1c z) (keeps_word n z)"
  unfolding step1c_def
proof (rule ends_cases [OF w], goal_cases)
  case (1 z')
  have "runs (vowelinstem z') (\<lambda>v. v \<longrightarrow> 0 \<le> zj z')" by (rule vowelinstem_runs) (use 1 in \<open>auto simp: in_word_def\<close>)
  then have "runs (rbind (vowelinstem z') (\<lambda>v. Inr (if v then z'\<lparr>zb := (zb z')[nat (zk z') := CHR ''i'']\<rparr> else z'))) (keeps_word n z)"
    by (rule runs_bind) (use 1 k in \<open>auto simp: in_word_def keeps_word_def\<close>)
  then show ?case by simp
qed (use assms in \<open>simp add: keeps_word_def\<close>)

lemma step2_runs:
  assumes w: "in_word n z" and k: "1 \<le> zk z"
  shows "runs (step2 z) (keeps_word n z)"
proof -
  have "\<forall>(s, t) \<in> set (step2_cases ch). length t \<le> length s" for ch by (simp add: step2_cases_def)
  then have "runs (first_r z (step2_cases ch)) (keeps_word n z)" for ch
    unfolding keeps_word_def using first_r_runs [OF assms] by blast
  then show ?thesis using assms by (auto simp: step2_def in_word_def byte_at_def)
qed

lemma step3_runs:
  assumes w: "in_word n z" and k: "1 \<le> zk z"
  shows "runs (step3 z) (keeps_word n z)"
proof -
  have "\<forall>(s, t) \<in> set (step3_cases ch). length t \<le> length s" for ch by (simp add: step3_cases_def)
  then have "runs (first_r z (step3_cases ch)) (keeps_word n z)" for ch
    unfolding keeps_word_def using first_r_runs [OF assms] by blast
  then show ?thesis using assms by (auto simp: step3_def in_word_def byte_at_def)
qed

definition suffix_found :: "nat \<Rightarrow> stemmer \<Rightarrow> bool \<times> stemmer \<Rightarrow> bool" where
  "suffix_found n z = (\<lambda>(e, z'). in_word n z' \<and> zk z' = zk z \<and> (e \<longrightarrow> zj z' \<le> zk z))"

lemma ends_found: "in_word n z \<Longrightarrow> runs (ends z s) (suffix_found n z)"
proof -
  assume w: "in_word n z"
  have "rbind (ends z s) (\<lambda>(e, z). Inr (e, z)) = ends z s" by (cases "ends z s") auto
  moreover have "runs (rbind (ends z s) (\<lambda>(e, z). Inr (e, z))) (suffix_found n z)"
    by (rule ends_cases [OF w]) (use w in \<open>auto simp: suffix_found_def in_word_def\<close>)
  ultimately show ?thesis by simp
qed

lemma first_end_runs: "in_word n z \<Longrightarrow> runs (first_end z ss) (suffix_found n z)"
proof (induction ss)
  case (Cons s ss)
  show ?case unfolding first_end.simps
    by (rule ends_cases [OF Cons.prems]) (use Cons in \<open>auto simp: suffix_found_def in_word_def\<close>)
qed (simp add: suffix_found_def)

lemma step4_ion_runs:
  assumes w: "in_word n z"
  shows "runs (step4_ion z) (suffix_found n z)"
  unfolding step4_ion_def
proof (rule ends_cases [OF w], goal_cases)
  case (1 z')
  have "runs (ends z' ''ou'') (suffix_found n z)"
    by (rule runs_mono [OF ends_found [OF 1(2)]]) (use 1(1) in \<open>auto simp: suffix_found_def\<close>)
  then show ?case using 1 by (auto simp: in_word_def byte_at_def suffix_found_def)
next
  case 2
  then show ?case using ends_found [OF w] by simp
qed

lemma step4_runs:
  assumes w: "in_word n z" and k: "1 \<le> zk z"
  shows "runs (step4 z) (keeps_word n z)"
proof -
  have found: "runs (if ch = CHR ''o'' then step4_ion z else first_end z (step4_cases ch)) (suffix_found n z)" for ch
    using step4_ion_runs [OF w] first_end_runs [OF w] by simp
  have cut: "runs (if e then rbind (stem_m z') (\<lambda>m. Inr (if m > 1 then z'\<lparr>zk := zj z'\<rparr> else z')) else Inr z') (keeps_word n z)"
    if f: "suffix_found n z (e, z')" for e z'
  proof (cases e)
    case True
    have "runs (stem_m z') (\<lambda>m. (0 < m \<longrightarrow> 1 \<le> zj z') \<and> (1 < m \<longrightarrow> 3 \<le> zj z'))"
      by (rule stem_m_runs) (use f True in \<open>auto simp: suffix_found_def in_word_def\<close>)
    then have "runs (rbind (stem_m z') (\<lambda>m. Inr (if m > 1 then z'\<lparr>zk := zj z'\<rparr> else z'))) (keeps_word n z)"
      by (rule runs_bind) (use f True k in \<open>auto simp: suffix_found_def keeps_word_def in_word_def\<close>)
    then show ?thesis using True by simp
  qed (use f k in \<open>simp add: suffix_found_def keeps_word_def\<close>)
  have "byte_at (zb z) (zk z - 1) = Inr (zb z ! nat (zk z - 1))" using assms by (auto simp: in_word_def)
  then show ?thesis unfolding step4_def
    using runs_bind_pair [OF found cut] by (simp del: byte_at_Inr)
qed

lemma step5_e_runs:
  assumes w: "in_word n z" and k: "1 \<le> zk z" and j: "zj z = zk z"
  shows "runs (step5_e z) (\<lambda>z'. in_word n z' \<and> zk z' \<le> zk z \<and> zj z' = zj z)"
proof -
  have c: "runs (rbind (cvc z (zk z - 1)) (\<lambda>c. Inr (if \<not> c then z\<lparr>zk := zk z - 1\<rparr> else z)))
      (\<lambda>z'. in_word n z' \<and> zk z' \<le> zk z \<and> zj z' = zj z)"
    by (rule runs_bind [OF cvc_runs]) (use w k in \<open>auto simp: in_word_def\<close>)
  have "runs (rbind (stem_m z) (\<lambda>a. if a > 1 \<or> a = 1 then rbind (cvc z (zk z - 1)) (\<lambda>c. Inr (if \<not> c then z\<lparr>zk := zk z - 1\<rparr> else z)) else Inr z))
      (\<lambda>z'. in_word n z' \<and> zk z' \<le> zk z \<and> zj z' = zj z)"
    by (rule runs_bind [OF stem_m_runs]) (use w j c in \<open>auto simp: in_word_def\<close>)
  then show ?thesis using w by (auto simp: step5_e_def in_word_def byte_at_def)
qed

lemma step5_runs:
  assumes w: "in_word n z" and k: "1 \<le> zk z"
  shows "runs (step5 z) (\<lambda>z'. in_word n z' \<and> zk z' \<le> zk z)"
  unfolding step5_def
proof (rule runs_bind [OF step5_e_runs])
  show "in_word n (z\<lparr>zj := zk z\<rparr>)" "1 \<le> zk (z\<lparr>zj := zk z\<rparr>)" "zj (z\<lparr>zj := zk z\<rparr>) = zk (z\<lparr>zj := zk z\<rparr>)"
    using assms by (auto simp: in_word_def)
  fix y assume y: "in_word n y \<and> zk y \<le> zk (z\<lparr>zj := zk z\<rparr>) \<and> zj y = zj (z\<lparr>zj := zk z\<rparr>)"
  have len: "zk y < int (length (zb y))" "zj y < int (length (zb y))" using y w by (auto simp: in_word_def)
  have "runs (rbind (stem_m y) (\<lambda>m. Inr (if m > 1 then y\<lparr>zk := zk y - 1\<rparr> else y))) (\<lambda>z'. in_word n z' \<and> zk z' \<le> zk z)" if "1 \<le> zk y"
    by (rule runs_bind [OF stem_m_runs [OF len(2)]]) (use y that in \<open>auto simp: in_word_def\<close>)
  then have "runs (rbind (doublec y (zk y)) (\<lambda>d. if d then rbind (stem_m y) (\<lambda>m. Inr (if m > 1 then y\<lparr>zk := zk y - 1\<rparr> else y)) else Inr y))
      (\<lambda>z'. in_word n z' \<and> zk z' \<le> zk z)"
    by (intro runs_bind [OF doublec_runs [OF len(1)]]) (use y in auto)
  then show "runs (rbind (byte_at (zb y) (zk y)) (\<lambda>ch. if ch = CHR ''l'' then
         rbind (doublec y (zk y)) (\<lambda>d. if d then rbind (stem_m y) (\<lambda>n. Inr (if n > 1 then y\<lparr>zk := zk y - 1\<rparr> else y)) else Inr y)
       else Inr y)) (\<lambda>z'. in_word n z' \<and> zk z' \<le> zk z)"
    using y len by (auto simp: in_word_def byte_at_def)
qed

lemma later_steps_run:
  assumes w: "in_word n z" and k: "1 \<le> zk z"
  shows "runs (rbind (step1c z) (\<lambda>z. rbind (step2 z) (\<lambda>z. rbind (step3 z) (\<lambda>z. rbind (step4 z) step5))))
    (\<lambda>z'. in_word n z' \<and> zk z' \<le> zk z)"
proof (rule runs_bind [OF step1c_runs [OF assms]], unfold keeps_word_def)
  fix a assume a: "in_word n a \<and> 1 \<le> zk a \<and> zk a \<le> zk z"
  show "runs (rbind (step2 a) (\<lambda>z. rbind (step3 z) (\<lambda>z. rbind (step4 z) step5))) (\<lambda>z'. in_word n z' \<and> zk z' \<le> zk z)"
  proof (rule runs_bind [OF step2_runs], unfold keeps_word_def)
    fix b assume b: "in_word n b \<and> 1 \<le> zk b \<and> zk b \<le> zk a"
    show "runs (rbind (step3 b) (\<lambda>z. rbind (step4 z) step5)) (\<lambda>z'. in_word n z' \<and> zk z' \<le> zk z)"
    proof (rule runs_bind [OF step3_runs], unfold keeps_word_def)
      fix c assume c: "in_word n c \<and> 1 \<le> zk c \<and> zk c \<le> zk b"
      show "runs (rbind (step4 c) step5) (\<lambda>z'. in_word n z' \<and> zk z' \<le> zk z)"
        by (rule runs_bind [OF step4_runs [of n]], use c in blast, use c in blast, rule runs_mono [OF step5_runs [of n]])
          (use a b c in \<open>auto simp: keeps_word_def\<close>)
    qed (use b in blast)+
  qed (use a in blast)+
qed

lemma stem_ok:
  assumes "b \<noteq> []"
  shows "\<exists>b' k'. stem b (int (length b) - 1) = Inr (b', k') \<and> length b' = length b \<and> 0 \<le> k' \<and> k' \<le> int (length b) - 1"
proof (cases "int (length b) - 1 \<le> 1")
  case True
  then show ?thesis using assms by (cases b) (auto simp: stem_def)
next
  case False
  let ?n = "length b" and ?z = "\<lparr>zb = b, zk = int (length b) - 1, zj = 0\<rparr>"
  have w: "in_word ?n ?z" "2 \<le> zk ?z" using False by (auto simp: in_word_def)
  have ab: "runs (step1ab ?z) (\<lambda>z. in_word ?n z \<and> zk z \<le> zk ?z)"
    unfolding step1ab_def
  proof (rule runs_bind [OF step1ab_s_runs [OF w]])
    fix y assume y: "in_word ?n y \<and> zk y \<le> zk ?z"
    then show "runs (step1ab_ed y) (\<lambda>z. in_word ?n z \<and> zk z \<le> zk ?z)"
      by (intro runs_mono [OF step1ab_ed_runs [of ?n]]) auto
  qed
  have "runs (rbind (step1ab ?z) (\<lambda>z. rbind (if zk z > 0
               then rbind (step1c z) (\<lambda>z. rbind (step2 z) (\<lambda>z. rbind (step3 z) (\<lambda>z. rbind (step4 z) step5)))
               else Inr z) (\<lambda>z. Inr (zb z, zk z))))
     (\<lambda>(b', k'). length b' = ?n \<and> 0 \<le> k' \<and> k' \<le> int ?n - 1)"
  proof (rule runs_bind [OF ab])
    fix y assume y: "in_word ?n y \<and> zk y \<le> zk ?z"
    have "runs (if zk y > 0 then rbind (step1c y) (\<lambda>z. rbind (step2 z) (\<lambda>z. rbind (step3 z) (\<lambda>z. rbind (step4 z) step5))) else Inr y)
        (\<lambda>z. in_word ?n z \<and> zk z \<le> zk ?z)"
      using y by (auto intro!: runs_mono [OF later_steps_run [of ?n y]])
    then show "runs (rbind (if zk y > 0 then rbind (step1c y) (\<lambda>z. rbind (step2 z) (\<lambda>z. rbind (step3 z) (\<lambda>z. rbind (step4 z) step5))) else Inr y)
        (\<lambda>z. Inr (zb z, zk z))) (\<lambda>(b', k'). length b' = ?n \<and> 0 \<le> k' \<and> k' \<le> int ?n - 1)"
      by (rule runs_bind) (auto simp: in_word_def)
  qed
  then show ?thesis using False by (auto simp: stem_def runs_def)
qed

text \<open>
  C36 (bounds). Stemming any word, whatever bytes it has, reads and writes only the bytes
  \<^verbatim>\<open>b[0] .. b[k]\<close> the caller passed, ends, keeps the buffer's length and returns an end
  \<^verbatim>\<open>0 <= k' <= k\<close>: it never makes a word longer and never empties it.\<close>

theorem stem_in_bounds:
  assumes "b \<noteq> []"
  shows "\<exists>b' k'. stem b (int (length b) - 1) = Inr (b', k') \<and> length b' = length b \<and> 0 \<le> k' \<and> k' \<le> int (length b) - 1"
  by (rule stem_ok [OF assms])

theorem stem_in_bounds_witness:
  "\<exists>b' k'. stem ''caresses'' 7 = Inr (b', k') \<and> length b' = 8 \<and> 0 \<le> k' \<and> k' \<le> 7"
  using stem_in_bounds [of "''caresses''"] by (simp add: eval_nat_numeral)

lemma rbind_weak_cong: "m = m' \<Longrightarrow> rbind m f = rbind m' f"
  by simp

lemmas stem_eval = stem_def step1ab_def step1ab_s_def step1ab_ed_def step1ab_fix_def step1ab_dbl_def step1c_def step2_def step2_cases_def
  step3_def step3_cases_def step4_def step4_cases_def step4_ion_def step5_def step5_e_def stem_r_def setto_def ends_def cvc_def doublec_def
  vowelinstem_def stem_m_def m_loop.simps scan.simps cons.simps byte_at_def

text \<open>
  The last step keeps the \<^verbatim>\<open>e\<close> of \<^verbatim>\<open>relate\<close>, the stem of \<^verbatim>\<open>relational\<close>, whose measure is 2: the comment
  says a final \<^verbatim>\<open>-e\<close> goes when the measure is above 1, the code asks for \<^verbatim>\<open>!cvc\<close> in that case too.\<close>

lemma stem_relational: "stem ''relational'' 9 = Inr (''relateonal'', 5)"
  by (simp add: stem_eval Let_def cong: rbind_weak_cong if_weak_cong option.case_cong_weak)

end
