(* ===== verification/Stopwords.thy ===== *)
theory Stopwords
  imports Rr_Dict
begin

text \<open>
  \<^verbatim>\<open>rr_stopwords.c\<close>: the table of stop words and the dictionary \<^verbatim>\<open>rr_stopwords_load\<close> makes of it.
  The lemma says that the check finds exactly the words of the table.
\<close>

definition stopwords :: "string list" where
  "stopwords =
     [''a'', ''able'', ''about'', ''above'', ''according'', ''accordingly'', ''across'', ''actually'', ''after'',
      ''afterwards'', ''again'', ''against'', ''ain't'', ''all'', ''allow'', ''allows'', ''almost'', ''alone'',
      ''along'', ''already'', ''also'', ''although'', ''always'', ''am'', ''among'', ''amongst'', ''an'', ''and'',
      ''another'', ''any'', ''anybody'', ''anyhow'', ''anyone'', ''anything'', ''anyway'', ''anyways'',
      ''anywhere'', ''apart'', ''appear'', ''appreciate'', ''appropriate'', ''are'', ''aren't'', ''around'',
      ''as'', ''aside'', ''ask'', ''asking'', ''associated'', ''at'', ''available'', ''away'', ''awfully'', ''be'',
      ''became'', ''because'', ''become'', ''becomes'', ''becoming'', ''been'', ''before'', ''beforehand'',
      ''behind'', ''being'', ''believe'', ''below'', ''beside'', ''besides'', ''best'', ''better'', ''between'',
      ''beyond'', ''both'', ''brief'', ''but'', ''by'', ''c'mon'', ''c's'', ''came'', ''can'', ''can't'',
      ''cannot'', ''cant'', ''cause'', ''causes'', ''certain'', ''certainly'', ''changes'', ''clearly'', ''co'',
      ''com'', ''come'', ''comes'', ''concerning'', ''consequently'', ''consider'', ''considering'', ''contain'',
      ''containing'', ''contains'', ''corresponding'', ''could'', ''couldn't'', ''course'', ''currently'',
      ''definitely'', ''described'', ''despite'', ''did'', ''didn't'', ''different'', ''do'', ''does'',
      ''doesn't'', ''doing'', ''don't'', ''done'', ''down'', ''downwards'', ''during'', ''each'', ''edu'', ''eg'',
      ''eight'', ''either'', ''else'', ''elsewhere'', ''enough'', ''entirely'', ''especially'', ''et'', ''etc'',
      ''even'', ''ever'', ''every'', ''everybody'', ''everyone'', ''everything'', ''everywhere'', ''ex'',
      ''exactly'', ''example'', ''except'', ''far'', ''few'', ''fifth'', ''first'', ''five'', ''followed'',
      ''following'', ''follows'', ''for'', ''former'', ''formerly'', ''forth'', ''four'', ''from'', ''further'',
      ''furthermore'', ''get'', ''gets'', ''getting'', ''given'', ''gives'', ''go'', ''goes'', ''going'', ''gone'',
      ''got'', ''gotten'', ''greetings'', ''had'', ''hadn't'', ''happens'', ''hardly'', ''has'', ''hasn't'',
      ''have'', ''haven't'', ''having'', ''he'', ''he's'', ''hello'', ''help'', ''hence'', ''her'', ''here'',
      ''here's'', ''hereafter'', ''hereby'', ''herein'', ''hereupon'', ''hers'', ''herself'', ''hi'', ''him'',
      ''himself'', ''his'', ''hither'', ''hopefully'', ''how'', ''howbeit'', ''however'', ''i'', ''i'd'', ''i'll'',
      ''i'm'', ''i've'', ''ie'', ''if'', ''ignored'', ''immediate'', ''in'', ''inasmuch'', ''inc'', ''indeed'',
      ''indicate'', ''indicated'', ''indicates'', ''inner'', ''insofar'', ''instead'', ''into'', ''inward'',
      ''is'', ''isn't'', ''it'', ''it'd'', ''it'll'', ''it's'', ''its'', ''itself'', ''just'', ''keep'', ''keeps'',
      ''kept'', ''know'', ''known'', ''knows'', ''last'', ''lately'', ''later'', ''latter'', ''latterly'',
      ''least'', ''less'', ''lest'', ''let'', ''let's'', ''like'', ''liked'', ''likely'', ''little'', ''look'',
      ''looking'', ''looks'', ''ltd'', ''mainly'', ''many'', ''may'', ''maybe'', ''me'', ''mean'', ''meanwhile'',
      ''merely'', ''might'', ''more'', ''moreover'', ''most'', ''mostly'', ''much'', ''must'', ''my'', ''myself'',
      ''name'', ''namely'', ''nd'', ''near'', ''nearly'', ''necessary'', ''need'', ''needs'', ''neither'',
      ''never'', ''nevertheless'', ''new'', ''next'', ''nine'', ''no'', ''nobody'', ''non'', ''none'', ''noone'',
      ''nor'', ''normally'', ''not'', ''nothing'', ''novel'', ''now'', ''nowhere'', ''obviously'', ''of'', ''off'',
      ''often'', ''oh'', ''ok'', ''okay'', ''old'', ''on'', ''once'', ''one'', ''ones'', ''only'', ''onto'',
      ''or'', ''other'', ''others'', ''otherwise'', ''ought'', ''our'', ''ours'', ''ourselves'', ''out'',
      ''outside'', ''over'', ''overall'', ''own'', ''particular'', ''particularly'', ''per'', ''perhaps'',
      ''placed'', ''please'', ''plus'', ''possible'', ''presumably'', ''probably'', ''provides'', ''que'',
      ''quite'', ''qv'', ''rather'', ''rd'', ''re'', ''really'', ''reasonably'', ''regarding'', ''regardless'',
      ''regards'', ''relatively'', ''respectively'', ''right'', ''said'', ''same'', ''saw'', ''say'', ''saying'',
      ''says'', ''second'', ''secondly'', ''see'', ''seeing'', ''seem'', ''seemed'', ''seeming'', ''seems'',
      ''seen'', ''self'', ''selves'', ''sensible'', ''sent'', ''serious'', ''seriously'', ''seven'', ''several'',
      ''shall'', ''she'', ''should'', ''shouldn't'', ''since'', ''six'', ''so'', ''some'', ''somebody'',
      ''somehow'', ''someone'', ''something'', ''sometime'', ''sometimes'', ''somewhat'', ''somewhere'', ''soon'',
      ''sorry'', ''specified'', ''specify'', ''specifying'', ''still'', ''sub'', ''such'', ''sup'', ''sure'',
      ''t's'', ''take'', ''taken'', ''tell'', ''tends'', ''th'', ''than'', ''thank'', ''thanks'', ''thanx'',
      ''that'', ''that's'', ''thats'', ''the'', ''their'', ''theirs'', ''them'', ''themselves'', ''then'',
      ''thence'', ''there'', ''there's'', ''thereafter'', ''thereby'', ''therefore'', ''therein'', ''theres'',
      ''thereupon'', ''these'', ''they'', ''they'd'', ''they'll'', ''they're'', ''they've'', ''think'', ''third'',
      ''this'', ''thorough'', ''thoroughly'', ''those'', ''though'', ''three'', ''through'', ''throughout'',
      ''thru'', ''thus'', ''to'', ''together'', ''too'', ''took'', ''toward'', ''towards'', ''tried'', ''tries'',
      ''truly'', ''try'', ''trying'', ''twice'', ''two'', ''un'', ''under'', ''unfortunately'', ''unless'',
      ''unlikely'', ''until'', ''unto'', ''up'', ''upon'', ''us'', ''use'', ''used'', ''useful'', ''uses'',
      ''using'', ''usually'', ''value'', ''various'', ''very'', ''via'', ''viz'', ''vs'', ''want'', ''wants'',
      ''was'', ''wasn't'', ''way'', ''we'', ''we'd'', ''we'll'', ''we're'', ''we've'', ''welcome'', ''well'',
      ''went'', ''were'', ''weren't'', ''what'', ''what's'', ''whatever'', ''when'', ''whence'', ''whenever'',
      ''where'', ''where's'', ''whereafter'', ''whereas'', ''whereby'', ''wherein'', ''whereupon'', ''wherever'',
      ''whether'', ''which'', ''while'', ''whither'', ''who'', ''who's'', ''whoever'', ''whole'', ''whom'',
      ''whose'', ''why'', ''will'', ''willing'', ''wish'', ''with'', ''within'', ''without'', ''won't'',
      ''wonder'', ''would'', ''wouldn't'', ''yes'', ''yet'', ''you'', ''you'd'', ''you'll'', ''you're'',
      ''you've'', ''your'', ''yours'', ''yourself'', ''yourselves'', ''zero'']"

text \<open>The value stored for every word is the pointer \<^verbatim>\<open>(void *)1\<close>; the dictionary has no free callback.\<close>

fun load_words :: "string list \<Rightarrow> (unit, unit) dict_t \<Rightarrow> (unit, unit) dict_t" where
  "load_words [] d = d"
| "load_words (w # ws) d = load_words ws (fst (dict_set d w (Some ())))"

definition rr_stopwords_load :: "(unit, unit) dict_t" where
  "rr_stopwords_load = load_words stopwords dict_create"

definition rr_stopwords_check :: "string \<Rightarrow> bool" where
  "rr_stopwords_check word = dict_contains rr_stopwords_load (cstr word)"

lemma load_words_map:
  assumes "dict_wf d" and "\<forall>w\<in>set ws. nul_free w"
  shows "dict_wf (load_words ws d) \<and> dom (dict_map (load_words ws d)) = dom (dict_map d) \<union> set ws"
  using assms
proof (induction ws arbitrary: d)
  case (Cons w ws)
  obtain d' where d': "dict_set d w (Some ()) = (d', True, freed d w)" "dict_wf d'" "dict_map d' = (dict_map d)(w \<mapsto> ())"
    using dict_set_spec [of d w "()"] Cons.prems by auto
  then show ?case using Cons.IH [of d'] Cons.prems by auto
qed simp

lemma stopwords_nul_free: "list_all nul_free stopwords"
  by (simp add: stopwords_def nul_free_def)

lemma rr_stopwords_check_iff: "rr_stopwords_check w \<longleftrightarrow> cstr w \<in> set stopwords"
proof -
  have empty: "dict_wf (dict_create :: (unit, unit) dict_t)" "dom (dict_map (dict_create :: (unit, unit) dict_t)) = {}"
    by (simp_all add: dict_create_def dict_wf_def dict_map_def dict_entries_def slot_entries_def)
  have "\<forall>w\<in>set stopwords. nul_free w" using stopwords_nul_free by (simp add: list_all_iff)
  note l = load_words_map [OF empty(1) this]
  then have "dict_wf rr_stopwords_load" "cstr w \<in> dom (dict_map rr_stopwords_load) \<longleftrightarrow> cstr w \<in> set stopwords"
    by (simp_all add: rr_stopwords_load_def empty(2))
  then show ?thesis by (simp add: rr_stopwords_check_def dict_contains_def dict_get_map domIff)
qed

end
