(* ===== verification/Fts.thy ===== *)
theory Fts
  imports Db Stemmer Stopwords Sds_Text
begin

text \<open>
  \<^verbatim>\<open>rr_fts.c\<close> and \<^verbatim>\<open>rr_cmd_fts.c\<close>: the full-text index of a key and the commands on it.

  A document is a record in the heap of the index; the index maps a term to the list of
  documents that contain it with the number of times they do. The strings of titles and
  texts are objects of the store. The arithmetic of scores is a parameter: the formula
  is that of the code, over whatever the machine's \<^verbatim>\<open>double\<close> does.
\<close>

section \<open>Terms\<close>

definition puncs :: string where "puncs = '',.:;?!''"

text \<open>One round of the loop of \<^verbatim>\<open>sds_tokenize\<close>: the stemmed term, \<open>None\<close> for a stop word (its term is cleared).\<close>

definition tokenize_term :: "string \<Rightarrow> string option result" where
  "tokenize_term t =
     (let term = map tolower (trim_right (strchr puncs) (dropWhile (strchr puncs) t));
          l = length term
      in if l = 0 \<or> rr_stopwords_check term then Inr None
         else rbind (stem term (int l - 1)) (\<lambda>(b, k). Inr (Some (take (nat (k + 1)) b))))"

fun tokenize_loop :: "string list \<Rightarrow> (string list \<times> nat) result" where
  "tokenize_loop [] = Inr ([], 0)"
| "tokenize_loop (t # ts) =
     rbind (tokenize_term t) (\<lambda>p. rbind (tokenize_loop ts) (\<lambda>(terms, n).
       Inr (case p of None \<Rightarrow> ([] # terms, n) | Some term \<Rightarrow> (term # terms, n + 1))))"

definition sds_tokenize :: "string \<Rightarrow> (string list \<times> nat) option result" where
  "sds_tokenize s =
     (case sdssplitlen s '' '' of
        None \<Rightarrow> Inr None
      | Some ts \<Rightarrow> rbind (tokenize_loop ts) (\<lambda>r. Inr (Some r)))"

section \<open>The index\<close>

text \<open>\<^verbatim>\<open>listSearchKey\<close> with \<^verbatim>\<open>fts_doc_match\<close>, and the writes through the node it returns.\<close>

definition fts_doc_match :: "nat \<times> int \<Rightarrow> nat \<Rightarrow> bool" where
  "fts_doc_match item key \<longleftrightarrow> fst item = key"

fun list_bump :: "(nat \<times> int) list \<Rightarrow> nat \<Rightarrow> int \<Rightarrow> (nat \<times> int) list" where
  "list_bump [] d n = []"
| "list_bump (it # its) d n = (if fts_doc_match it d then (fst it, snd it + n) # its else it # list_bump its d n)"

fun list_search :: "(nat \<times> int) list \<Rightarrow> nat \<Rightarrow> (nat \<times> int) option" where
  "list_search [] d = None"
| "list_search (it # its) d = (if fts_doc_match it d then Some it else list_search its d)"

fun list_del :: "(nat \<times> int) list \<Rightarrow> nat \<Rightarrow> (nat \<times> int) list" where
  "list_del [] d = []"
| "list_del (it # its) d = (if fts_doc_match it d then its else it # list_del its d)"

text \<open>
  A list of the index is reached through a pointer and changed in place; the dictionary
  keeps the pointer. Here the changed list is put back under its term, without the free
  callback \<^verbatim>\<open>dict_set\<close> would run.
\<close>

definition index_put ::
  "((nat \<times> int) list, callback) dict_t \<Rightarrow> string \<Rightarrow> (nat \<times> int) list \<Rightarrow> ((nat \<times> int) list, callback) dict_t" where
  "index_put ix t its = fst (dict_set ix t (Some its))"

definition index_add_term :: "((nat \<times> int) list, callback) dict_t \<Rightarrow> nat \<Rightarrow> string \<Rightarrow> ((nat \<times> int) list, callback) dict_t" where
  "index_add_term ix d term =
     (if term = [] then ix
      else
        let t = cstr term;
            its = (case dict_get ix t of None \<Rightarrow> [] | Some its \<Rightarrow> its)
        in index_put ix t (if list_search its d \<noteq> None then list_bump its d 1 else (d, 1) # its))"

definition index_del_term ::
  "((nat \<times> int) list, callback) dict_t \<Rightarrow> nat \<Rightarrow> string \<Rightarrow> ((nat \<times> int) list, callback) dict_t result" where
  "index_del_term ix d term =
     (if term = [] then Inr ix
      else
        let t = cstr term in
        case dict_get ix t of
          None \<Rightarrow> Inl AssertFail
        | Some its \<Rightarrow>
            (case list_search its d of
               None \<Rightarrow> Inl AssertFail
             | Some it \<Rightarrow>
                 let its' = list_bump its d (- 1)
                 in Inr (index_put ix t (if snd it - 1 = 0 then list_del its' d else its'))))"

fun index_del_terms ::
  "((nat \<times> int) list, callback) dict_t \<Rightarrow> nat \<Rightarrow> string list \<Rightarrow> ((nat \<times> int) list, callback) dict_t result" where
  "index_del_terms ix d [] = Inr ix"
| "index_del_terms ix d (t # ts) = rbind (index_del_term ix d t) (\<lambda>ix. index_del_terms ix d ts)"

section \<open>Documents\<close>

definition get_doc :: "fts_t \<Rightarrow> nat \<Rightarrow> fts_doc_t result" where
  "get_doc f d = (case dheap f d of None \<Rightarrow> Inl UseAfterFree | Some fdoc \<Rightarrow> Inr fdoc)"

definition fts_doc_create :: "'d store \<Rightarrow> fts_t \<Rightarrow> addr \<Rightarrow> addr \<Rightarrow> (nat \<times> fts_t \<times> 'd store) result" where
  "fts_doc_create st f ti dc =
     (let d = dnext f; f' = f\<lparr>dheap := (dheap f)(d \<mapsto> \<lparr>title = ti, doc = dc, dlen = 0\<rparr>), dnext := d + 1\<rparr> in
      rbind (incrRefCount st ti) (\<lambda>st. rbind (incrRefCount st dc) (\<lambda>st. Inr (d, f', st))))"

definition fts_doc_free :: "'d store \<Rightarrow> fts_t \<Rightarrow> nat \<Rightarrow> (fts_t \<times> 'd store) result" where
  "fts_doc_free st f d =
     rbind (get_doc f d) (\<lambda>fdoc. rbind (decrRefCount st (title fdoc)) (\<lambda>st. rbind (decrRefCount st (doc fdoc)) (\<lambda>st.
       Inr (f\<lparr>dheap := (dheap f)(d := None)\<rparr>, st))))"

fun fts_docs_free :: "'d store \<Rightarrow> fts_t \<Rightarrow> nat list \<Rightarrow> (fts_t \<times> 'd store) result" where
  "fts_docs_free st f [] = Inr (f, st)"
| "fts_docs_free st f (d # ds) = rbind (fts_doc_free st f d) (\<lambda>(f, st). fts_docs_free st f ds)"

definition obj_cstr :: "'d store \<Rightarrow> addr \<Rightarrow> string result" where
  "obj_cstr st a = rbind (get_obj st a) ptr_cstr"

definition obj_sds :: "'d store \<Rightarrow> addr \<Rightarrow> string result" where
  "obj_sds st a = rbind (get_obj st a) ptr_sds"

definition fts_index_add :: "'d store \<Rightarrow> fts_t \<Rightarrow> nat \<Rightarrow> (bool \<times> fts_t) result" where
  "fts_index_add st f d =
     rbind (get_doc f d) (\<lambda>fdoc. rbind (obj_sds st (doc fdoc)) (\<lambda>s. rbind (sds_tokenize s) (\<lambda>r.
       case r of
         None \<Rightarrow> Inr (False, f)
       | Some (terms, n) \<Rightarrow>
           Inr (True, f\<lparr>index := foldl (\<lambda>ix t. index_add_term ix d t) (index f) terms,
                        dheap := (dheap f)(d \<mapsto> fdoc\<lparr>dlen := int n\<rparr>),
                        flen := flen f + int n\<rparr>))))"

definition fts_index_del :: "'d store \<Rightarrow> fts_t \<Rightarrow> nat \<Rightarrow> fts_t result" where
  "fts_index_del st f d =
     rbind (get_doc f d) (\<lambda>fdoc. rbind (obj_sds st (doc fdoc)) (\<lambda>s. rbind (sds_tokenize s) (\<lambda>r.
       case r of
         None \<Rightarrow> Inr f
       | Some (terms, n) \<Rightarrow>
           rbind (index_del_terms (index f) d terms) (\<lambda>ix.
             Inr (f\<lparr>index := ix, flen := flen f - dlen fdoc\<rparr>)))))"

definition fts_get :: "'d store \<Rightarrow> fts_t \<Rightarrow> addr \<Rightarrow> nat option result" where
  "fts_get st f ti = rbind (obj_cstr st ti) (\<lambda>k. Inr (dict_get (docs f) k))"

definition fts_del :: "'d store \<Rightarrow> fts_t \<Rightarrow> addr \<Rightarrow> (bool \<times> fts_t \<times> 'd store) result" where
  "fts_del st f ti =
     rbind (obj_cstr st ti) (\<lambda>k.
       case dict_del (docs f) k of
         (ds, None) \<Rightarrow> Inr (False, f\<lparr>docs := ds\<rparr>, st)
       | (ds, Some d) \<Rightarrow>
           rbind (fts_index_del st (f\<lparr>docs := ds\<rparr>) d) (\<lambda>f. rbind (fts_doc_free st f d) (\<lambda>(f, st).
             Inr (True, f, st))))"

definition fts_add :: "'d store \<Rightarrow> fts_t \<Rightarrow> addr \<Rightarrow> addr \<Rightarrow> (bool \<times> fts_t \<times> 'd store) result" where
  "fts_add st f ti dc =
     rbind (obj_cstr st ti) (\<lambda>k.
     rbind (if dict_contains (docs f) k then rbind (fts_del st f ti) (\<lambda>(_, f, st). Inr (f, st)) else Inr (f, st)) (\<lambda>(f, st).
     rbind (fts_doc_create st f ti dc) (\<lambda>(d, f, st).
     case dict_set (docs f) k (Some d) of
       (ds, ok, calls) \<Rightarrow>
         rbind (fts_docs_free st (f\<lparr>docs := ds\<rparr>) (map snd calls)) (\<lambda>(f, st).
         if \<not> ok then rbind (fts_doc_free st f d) (\<lambda>(f, st). Inr (False, f, st))
         else rbind (fts_index_add st f d) (\<lambda>(ok, f).
           if \<not> ok then
             (case dict_del (docs f) k of
                (ds, None) \<Rightarrow> Inl NullDeref
              | (ds, Some d) \<Rightarrow> rbind (fts_doc_free st (f\<lparr>docs := ds\<rparr>) d) (\<lambda>(f, st). Inr (False, f, st)))
           else Inr (True, f, st))))))"

definition fts_size :: "fts_t \<Rightarrow> nat" where
  "fts_size f = dict_length (docs f)"

section \<open>Ranking\<close>

text \<open>The operations on \<^verbatim>\<open>double\<close> that the formula uses; \<open>lit\<close> gives the value of a literal.\<close>

record 'd double_ops =
  lit :: "string \<Rightarrow> 'd"
  of_int_d :: "int \<Rightarrow> 'd"
  add_d :: "'d \<Rightarrow> 'd \<Rightarrow> 'd"
  sub_d :: "'d \<Rightarrow> 'd \<Rightarrow> 'd"
  mul_d :: "'d \<Rightarrow> 'd \<Rightarrow> 'd"
  div_d :: "'d \<Rightarrow> 'd \<Rightarrow> 'd"
  log_d :: "'d \<Rightarrow> 'd"

definition BM25_B :: string where "BM25_B = ''.75''"
definition BM25_K :: string where "BM25_K = ''1.2''"

record 'd fts_doc_score_t =
  sdoc :: nat
  sscore :: 'd

text \<open>What one list item adds to the score of its document.\<close>

definition bm25_term :: "'d double_ops \<Rightarrow> nat \<Rightarrow> nat \<Rightarrow> int \<Rightarrow> int \<Rightarrow> int \<Rightarrow> 'd" where
  "bm25_term dp doc_size list_size sumlen dl tf =
     (let avgdl = div_d dp (mul_d dp (of_int_d dp sumlen) (lit dp ''1.0'')) (of_int_d dp (int doc_size));
          ls = of_int_d dp (int list_size);
          diff = of_int_d dp ((int doc_size - int list_size) mod 2 ^ 64);
          idf = log_d dp (div_d dp (add_d dp diff (lit dp ''0.5'')) (add_d dp ls (lit dp ''0.5'')));
          b = lit dp BM25_B; k = lit dp BM25_K; one = of_int_d dp 1; n = of_int_d dp tf;
          norm = add_d dp (sub_d dp one b) (div_d dp (mul_d dp b (of_int_d dp dl)) avgdl);
          tfd = div_d dp (mul_d dp n (add_d dp k one)) (add_d dp n (mul_d dp k norm))
      in mul_d dp tfd idf)"

fun calculate_bm25_loop ::
  "'d double_ops \<Rightarrow> 'e store \<Rightarrow> fts_t \<Rightarrow> nat \<Rightarrow> nat \<Rightarrow> (nat \<times> int) list \<Rightarrow>
   ('d fts_doc_score_t, unit) dict_t \<Rightarrow> ('d fts_doc_score_t, unit) dict_t result" where
  "calculate_bm25_loop dp st f ds ls [] scores = Inr scores"
| "calculate_bm25_loop dp st f ds ls ((d, tf) # its) scores =
     rbind (get_doc f d) (\<lambda>fdoc. rbind (obj_cstr st (title fdoc)) (\<lambda>k.
       let fds = (case dict_get scores k of None \<Rightarrow> \<lparr>sdoc = d, sscore = lit dp ''.0f''\<rparr> | Some x \<Rightarrow> x);
           fds' = fds\<lparr>sscore := add_d dp (sscore fds) (bm25_term dp ds ls (flen f) (dlen fdoc) tf)\<rparr>
       in calculate_bm25_loop dp st f ds ls its (fst (dict_set scores k (Some fds')))))"

definition calculate_bm25 ::
  "'d double_ops \<Rightarrow> 'e store \<Rightarrow> fts_t \<Rightarrow> (nat \<times> int) list \<Rightarrow>
   ('d fts_doc_score_t, unit) dict_t \<Rightarrow> ('d fts_doc_score_t, unit) dict_t result" where
  "calculate_bm25 dp st f indices scores =
     (let doc_size = fts_size f; doc_size = (if doc_size = 0 then 1 else doc_size)
      in calculate_bm25_loop dp st f doc_size (length indices) indices scores)"

fun search_loop ::
  "'d double_ops \<Rightarrow> 'e store \<Rightarrow> fts_t \<Rightarrow> string list \<Rightarrow> (unit, unit) dict_t \<Rightarrow>
   ('d fts_doc_score_t, unit) dict_t \<Rightarrow> ('d fts_doc_score_t, unit) dict_t result" where
  "search_loop dp st f [] queried scores = Inr scores"
| "search_loop dp st f (term # terms) queried scores =
     (if term = [] \<or> dict_contains queried (cstr term) then search_loop dp st f terms queried scores
      else
        let queried = fst (dict_set queried (cstr term) (Some ())) in
        case dict_get (index f) (cstr term) of
          None \<Rightarrow> search_loop dp st f terms queried scores
        | Some its \<Rightarrow> rbind (calculate_bm25 dp st f its scores) (\<lambda>scores. search_loop dp st f terms queried scores))"

definition search_with_bm25_score ::
  "'d double_ops \<Rightarrow> 'e store \<Rightarrow> fts_t \<Rightarrow> addr \<Rightarrow> ('d fts_doc_score_t, unit) dict_t result" where
  "search_with_bm25_score dp st f q =
     rbind (obj_sds st q) (\<lambda>s. rbind (sds_tokenize s) (\<lambda>r.
       case r of None \<Rightarrow> Inr dict_create | Some (terms, _) \<Rightarrow> search_loop dp st f terms dict_create dict_create))"

definition fts_cmp :: "'d::linorder fts_doc_score_t \<Rightarrow> 'd fts_doc_score_t \<Rightarrow> int" where
  "fts_cmp l r = (if sscore l > sscore r then - 1 else if sscore l < sscore r then 1 else 0)"

fun push_scores :: "('a, 'c) minheap_t \<Rightarrow> (string \<times> 'a) list \<Rightarrow> ('a, 'c) minheap_t result" where
  "push_scores h [] = Inr h"
| "push_scores h ((_, v) # kvs) = rbind (minheap_push h v) (\<lambda>(_, h). push_scores h kvs)"

definition fts_search ::
  "'d::linorder double_ops \<Rightarrow> 'e store \<Rightarrow> fts_t \<Rightarrow> addr \<Rightarrow> (nat \<times> ('d fts_doc_score_t, unit) minheap_t) result" where
  "fts_search dp st f q =
     rbind (search_with_bm25_score dp st f q) (\<lambda>scores.
     let size = dict_length scores; h = minheap_create size 16 fts_cmp (\<lambda>x. x) prod.swap in
     rbind (dict_iter_create scores) (\<lambda>it. rbind (iter_collect it) (\<lambda>kvs.
     rbind (push_scores h kvs) (\<lambda>h. Inr (size, h)))))"

section \<open>Commands on indexes\<close>

definition fts_of :: "('d, 'z) sctx_scheme \<Rightarrow> addr \<Rightarrow> fts_t result" where
  "fts_of x a = rbind (get_obj (store x) a) ptr_fts"

definition put_fts :: "('d, 'z) sctx_scheme \<Rightarrow> addr \<Rightarrow> fts_t \<Rightarrow> ('d, 'z) sctx_scheme result" where
  "put_fts x a f = rbind (get_obj (store x) a) (\<lambda>r. Inr (x\<lparr>store := set_obj (store x) a (r\<lparr>ptr := PFts f\<rparr>)\<rparr>))"

definition rr_cmd_dset :: "'d::linorder cmd" where
  "rr_cmd_dset x =
     rbind (arg_key x 1) (\<lambda>k. rbind (rr_db_lookup_or_create x k OBJ_FTS) (\<lambda>(p, x).
       case p of
         None \<Rightarrow> reply_add_obj x shared_wrongtypeerr
       | Some a \<Rightarrow>
           rbind (get_obj (store x) a) (\<lambda>r.
             if otype r \<noteq> OBJ_FTS then reply_add_obj x shared_wrongtypeerr
             else
               rbind (argv_at x 2) (\<lambda>a2. rbind (tryObjectEncoding (max_memory x) (store x) a2) (\<lambda>(ti, st).
               let x = set_arg (x\<lparr>store := st\<rparr>) 2 ti in
               rbind (argv_at x 3) (\<lambda>dc. rbind (fts_of x a) (\<lambda>f. rbind (fts_add (store x) f ti dc) (\<lambda>(ok, f, st).
               rbind (put_fts (x\<lparr>store := st\<rparr>) a f) (\<lambda>x.
                 reply_add_obj x (if ok then shared_ok else shared_err)))))))))) "

definition rr_cmd_dget :: "'d cmd" where
  "rr_cmd_dget x =
     with_typed x OBJ_FTS (\<lambda>x a.
       rbind (fts_of x a) (\<lambda>f. rbind (argv_at x 2) (\<lambda>ti. rbind (fts_get (store x) f ti) (\<lambda>p.
         case p of
           None \<Rightarrow> reply_add_obj x shared_nullbulk
         | Some d \<Rightarrow> rbind (get_doc f d) (\<lambda>fdoc. rbind (get_obj (store x) (doc fdoc)) (reply_add_bulk_obj x))))))"

text \<open>\<^verbatim>\<open>while (fts_iter_hasnext(iter))\<close>; each round takes one item off the heap.\<close>

fun send_found :: "nat \<Rightarrow> 'd sctx \<Rightarrow> fts_t \<Rightarrow> ('e fts_doc_score_t, unit) minheap_t \<Rightarrow> 'd sctx result" where
  "send_found 0 x f h = Inr x"
| "send_found (Suc n) x f h =
     rbind (minheap_pop h) (\<lambda>(p, h').
       case p of
         None \<Rightarrow> Inl NullDeref
       | Some i \<Rightarrow>
           rbind (array_read (array h') (Some i)) (\<lambda>fds. rbind (get_doc f (sdoc fds)) (\<lambda>fdoc.
           rbind (get_obj (store x) (title fdoc)) (\<lambda>ti. rbind (reply_add_bulk_obj x ti) (\<lambda>x.
           rbind (get_obj (store x) (doc fdoc)) (\<lambda>dc. rbind (reply_add_bulk_obj x dc) (\<lambda>x.
           send_found n x f h')))))))"

definition rr_cmd_dsearch :: "'e::linorder double_ops \<Rightarrow> 'd cmd" where
  "rr_cmd_dsearch dp x =
     with_typed x OBJ_FTS (\<lambda>x a.
       rbind (fts_of x a) (\<lambda>f. rbind (argv_at x 2) (\<lambda>q. rbind (fts_search dp (store x) f q) (\<lambda>(size, h).
       rbind (reply_add_multi_bulk_len x (to_ll (int size * 2))) (\<lambda>x.
       send_found (minheap_len h) x f h)))))"

definition rr_cmd_dlen :: "'d cmd" where
  "rr_cmd_dlen x =
     with_typed x OBJ_FTS (\<lambda>x a. rbind (fts_of x a) (\<lambda>f. reply_add_longlong x (to_ll (int (fts_size f)))))"

definition rr_cmd_ddel :: "'d cmd" where
  "rr_cmd_ddel x =
     with_typed x OBJ_FTS (\<lambda>x a.
       rbind (fts_of x a) (\<lambda>f. rbind (argv_at x 2) (\<lambda>ti. rbind (fts_del (store x) f ti) (\<lambda>(ok, f, st).
       rbind (put_fts (x\<lparr>store := st\<rparr>) a f) (\<lambda>x.
         reply_add_obj x (if ok then shared_cone else shared_czero))))))"

section \<open>Tokenizing\<close>

lemma tokenize_term_ok: "\<exists>p. tokenize_term t = Inr p \<and> (\<forall>s. p = Some s \<longrightarrow> s \<noteq> [])"
proof -
  define w where "w = map tolower (trim_right (strchr puncs) (dropWhile (strchr puncs) t))"
  show ?thesis
  proof (cases "w = [] \<or> rr_stopwords_check w")
    case True
    then show ?thesis by (auto simp: tokenize_term_def Let_def w_def)
  next
    case False
    then obtain b k where "stem w (int (length w) - 1) = Inr (b, k)" "length b = length w" "0 \<le> k" "k \<le> int (length w) - 1"
      using stem_ok [of w] by blast
    with False show ?thesis by (auto simp: tokenize_term_def Let_def w_def nat_add_distrib)
  qed
qed

lemma tokenize_loop_ok: "\<exists>terms n. tokenize_loop ts = Inr (terms, n) \<and> n = length (filter (\<lambda>t. t \<noteq> []) terms)"
proof (induction ts)
  case (Cons t ts)
  obtain p where p: "tokenize_term t = Inr p" "\<forall>s. p = Some s \<longrightarrow> s \<noteq> []" using tokenize_term_ok by blast
  with Cons show ?case by (cases p) auto
qed simp

text \<open>The terms a text is indexed by, and their number.\<close>

lemma sds_tokenize_ok: "\<exists>terms. sds_tokenize s = Inr (Some (terms, length (filter (\<lambda>t. t \<noteq> []) terms)))"
  using tokenize_loop_ok [of "split_loop s '' '' 0 0 []"] tokenize_loop_ok [of "[]"]
  by (auto simp: sds_tokenize_def sdssplitlen_def)

definition text_terms :: "string \<Rightarrow> string list" where
  "text_terms s = (case sds_tokenize s of Inr (Some (terms, _)) \<Rightarrow> map cstr (filter (\<lambda>t. t \<noteq> []) terms) | _ \<Rightarrow> [])"

section \<open>The index as term frequencies\<close>

definition tf_of :: "((nat \<times> int) list, callback) dict_t \<Rightarrow> string \<Rightarrow> nat \<Rightarrow> int" where
  "tf_of ix t d =
     (case dict_map ix t of
        None \<Rightarrow> 0
      | Some its \<Rightarrow> (case list_search its d of None \<Rightarrow> 0 | Some it \<Rightarrow> snd it))"

definition items_wf :: "(nat \<times> int) list \<Rightarrow> bool" where
  "items_wf its \<longleftrightarrow> distinct (map fst its) \<and> (\<forall>it\<in>set its. 0 < snd it)"

definition ix_wf :: "((nat \<times> int) list, callback) dict_t \<Rightarrow> bool" where
  "ix_wf ix \<longleftrightarrow> dict_wf ix \<and> (\<forall>t its. dict_map ix t = Some its \<longrightarrow> items_wf its)"

definition item_tf :: "(nat \<times> int) list \<Rightarrow> nat \<Rightarrow> int" where
  "item_tf its d = (case list_search its d of None \<Rightarrow> 0 | Some it \<Rightarrow> snd it)"

lemma list_search_None: "list_search its d = None \<longleftrightarrow> d \<notin> fst ` set its"
  by (induction its) (auto simp: fts_doc_match_def)

lemma list_search_Some: "list_search its d = Some it \<Longrightarrow> it \<in> set its \<and> fst it = d"
  by (induction its) (auto simp: fts_doc_match_def split: if_splits)

lemma bump_fst: "map fst (list_bump its d n) = map fst its"
  by (induction its) auto

lemma bump_item:
  "item_tf (list_bump its d n) d' = item_tf its d' + (if d' = d \<and> list_search its d \<noteq> None then n else 0)"
  by (induction its) (auto simp: item_tf_def fts_doc_match_def)

lemma bump_wf:
  "items_wf its \<Longrightarrow> (\<And>it. list_search its d = Some it \<Longrightarrow> 0 < snd it + n) \<Longrightarrow> items_wf (list_bump its d n)"
proof (induction its)
  case (Cons it its)
  then have "items_wf its" "0 < snd it" by (auto simp: items_wf_def)
  with Cons show ?case by (auto simp: items_wf_def fts_doc_match_def bump_fst simp flip: set_map split: if_splits)
qed (simp add: items_wf_def)

lemma del_set: "distinct (map fst its) \<Longrightarrow> set (list_del its d) = {it \<in> set its. fst it \<noteq> d}"
  by (induction its) (force simp: fts_doc_match_def)+

lemma del_distinct: "distinct (map fst its) \<Longrightarrow> distinct (map fst (list_del its d))"
  by (induction its) (auto simp: fts_doc_match_def del_set)

lemma del_item: "distinct (map fst its) \<Longrightarrow> item_tf (list_del its d) d' = (if d' = d then 0 else item_tf its d')"
proof (induction its)
  case (Cons it its)
  have "list_search its d = None" if "fst it = d" using Cons.prems that by (auto simp: list_search_None)
  with Cons show ?case by (auto simp: item_tf_def fts_doc_match_def)
qed (simp add: item_tf_def)

lemma index_put_ok:
  assumes "ix_wf ix" and "items_wf its" and "nul_free t"
  shows "ix_wf (index_put ix t its)" and "tf_of (index_put ix t its) t' d = (if t' = t then item_tf its d else tf_of ix t' d)"
proof -
  obtain ix' where "dict_set ix t (Some its) = (ix', True, freed ix t)" "dict_wf ix'" "dict_map ix' = (dict_map ix)(t \<mapsto> its)"
    by (rule dict_set_spec [of ix t its]) (use assms in \<open>auto simp: ix_wf_def\<close>)
  then show "ix_wf (index_put ix t its)" "tf_of (index_put ix t its) t' d = (if t' = t then item_tf its d else tf_of ix t' d)"
    using assms by (auto simp: index_put_def ix_wf_def tf_of_def item_tf_def)
qed

definition items_at :: "((nat \<times> int) list, callback) dict_t \<Rightarrow> string \<Rightarrow> (nat \<times> int) list" where
  "items_at ix t = (case dict_get ix t of None \<Rightarrow> [] | Some its \<Rightarrow> its)"

lemma index_items:
  assumes "ix_wf ix"
  shows "items_wf (items_at ix (cstr t))" and "item_tf (items_at ix (cstr t)) d = tf_of ix (cstr t) d"
  using assms
  by (auto simp: items_at_def ix_wf_def dict_get_map tf_of_def item_tf_def items_wf_def [of "[]"] split: option.split)

lemma index_add_term_ok:
  assumes "ix_wf ix" and "term \<noteq> []"
  shows "ix_wf (index_add_term ix d term)"
    and "tf_of (index_add_term ix d term) t d' = tf_of ix t d' + (if t = cstr term \<and> d' = d then 1 else 0)"
proof -
  define its where "its = items_at ix (cstr term)"
  define its' where "its' = (if list_search its d \<noteq> None then list_bump its d 1 else (d, 1) # its)"
  have its: "items_wf its" "item_tf its d'' = tf_of ix (cstr term) d''" for d''
    using index_items [OF assms(1)] by (auto simp: its_def)
  have wf: "items_wf its'"
  proof (cases "list_search its d = None")
    case True
    then show ?thesis using its(1) by (auto simp: its'_def items_wf_def list_search_None)
  next
    case False
    then have "items_wf (list_bump its d 1)"
      by (intro bump_wf its(1)) (use its(1) list_search_Some in \<open>fastforce simp: items_wf_def\<close>)
    then show ?thesis using False by (simp add: its'_def)
  qed
  have tf: "item_tf its' d'' = tf_of ix (cstr term) d'' + (if d'' = d then 1 else 0)" for d''
    unfolding its(2) [symmetric]
    by (cases "list_search its d") (auto simp: its'_def bump_item item_tf_def [of "_ # _"] item_tf_def [of its d] fts_doc_match_def,
        auto simp: item_tf_def)
  have eq: "index_add_term ix d term = index_put ix (cstr term) its'"
    using assms(2) by (simp add: index_add_term_def items_at_def its_def its'_def Let_def)
  show "ix_wf (index_add_term ix d term)" unfolding eq by (rule index_put_ok [OF assms(1) wf]) simp
  show "tf_of (index_add_term ix d term) t d' = tf_of ix t d' + (if t = cstr term \<and> d' = d then 1 else 0)"
    unfolding eq using index_put_ok(2) [OF assms(1) wf, of "cstr term" t d'] tf [of d'] by simp
qed

lemma index_del_term_ok:
  assumes "ix_wf ix" and "term \<noteq> []" and "0 < tf_of ix (cstr term) d"
  obtains ix' where "index_del_term ix d term = Inr ix'" and "ix_wf ix'"
    and "\<And>t d'. tf_of ix' t d' = tf_of ix t d' - (if t = cstr term \<and> d' = d then 1 else 0)"
proof -
  obtain its where get: "dict_get ix (cstr term) = Some its" and its: "items_wf its" "\<And>d''. item_tf its d'' = tf_of ix (cstr term) d''"
    using assms(1,3) by (auto simp: ix_wf_def tf_of_def dict_get_map item_tf_def split: option.splits)
  obtain it where it: "list_search its d = Some it" using assms(3) its(2) [of d] by (auto simp: item_tf_def split: option.splits)
  then have n: "snd it = item_tf its d" "0 < snd it" using assms(3) its(2) by (simp_all add: item_tf_def flip: its(2))
  define b where "b = list_bump its d (- 1)"
  have bd: "distinct (map fst b)" "item_tf b d'' = item_tf its d'' - (if d'' = d then 1 else 0)" for d''
    using its(1) it by (simp_all add: b_def bump_fst items_wf_def bump_item)
  define its' where "its' = (if snd it - 1 = 0 then list_del b d else b)"
  have wf: "items_wf its'"
  proof (cases "snd it = 1")
    case False
    then have "items_wf b" unfolding b_def by (intro bump_wf its(1)) (use it n in simp)
    with False show ?thesis by (simp add: its'_def)
  next
    case True
    have "0 < snd jt" if "jt \<in> set b" "fst jt \<noteq> d" for jt
    proof -
      have "jt \<in> set its" using that unfolding b_def by (induction its) (auto simp: fts_doc_match_def split: if_splits)
      then show ?thesis using its(1) by (auto simp: items_wf_def)
    qed
    then show ?thesis using True bd(1) by (simp add: its'_def items_wf_def del_distinct del_set)
  qed
  have tf: "item_tf its' d'' = tf_of ix (cstr term) d'' - (if d'' = d then 1 else 0)" for d''
    unfolding its(2) [symmetric] using del_item [OF bd(1), of d d''] bd(2) [of d''] n(1) by (auto simp: its'_def)
  show ?thesis
  proof (rule that)
    show "index_del_term ix d term = Inr (index_put ix (cstr term) its')"
      using assms(2) get it by (simp add: index_del_term_def Let_def its'_def b_def)
    show "ix_wf (index_put ix (cstr term) its')" by (rule index_put_ok [OF assms(1) wf]) simp
    show "tf_of (index_put ix (cstr term) its') t d' = tf_of ix t d' - (if t = cstr term \<and> d' = d then 1 else 0)" for t d'
      using index_put_ok(2) [OF assms(1) wf, of "cstr term" t d'] tf [of d'] by simp
  qed
qed

definition keys_of :: "string list \<Rightarrow> string multiset" where
  "keys_of terms = mset (map cstr (filter (\<lambda>t. t \<noteq> []) terms))"

lemma index_add_terms_ok:
  "ix_wf ix \<Longrightarrow> ix_wf (foldl (\<lambda>ix t. index_add_term ix d t) ix terms) \<and>
    tf_of (foldl (\<lambda>ix t. index_add_term ix d t) ix terms) t d' = tf_of ix t d' + (if d' = d then int (count (keys_of terms) t) else 0)"
proof (induction terms arbitrary: ix)
  case (Cons a terms)
  show ?case
  proof (cases "a = []")
    case True
    then show ?thesis using Cons by (simp add: index_add_term_def keys_of_def)
  next
    case False
    note a = index_add_term_ok [OF Cons.prems False, of d]
    show ?thesis using Cons.IH [OF a(1)] a(2) [of t d'] False by (simp add: keys_of_def)
  qed
qed (simp add: keys_of_def)

lemma index_del_terms_ok:
  assumes "ix_wf ix" and "\<And>t. int (count (keys_of terms) t) \<le> tf_of ix t d"
  shows "\<exists>ix'. index_del_terms ix d terms = Inr ix' \<and> ix_wf ix' \<and>
    (\<forall>t d'. tf_of ix' t d' = tf_of ix t d' - (if d' = d then int (count (keys_of terms) t) else 0))"
  using assms
proof (induction terms arbitrary: ix)
  case (Cons a terms)
  show ?case
  proof (cases "a = []")
    case True
    then have "keys_of (a # terms) = keys_of terms" by (simp add: keys_of_def)
    moreover from this have "index_del_terms ix d (a # terms) = index_del_terms ix d terms" using True by (simp add: index_del_term_def)
    ultimately show ?thesis using Cons.IH [OF Cons.prems(1)] Cons.prems(2) by metis
  next
    case False
    have k: "keys_of (a # terms) = add_mset (cstr a) (keys_of terms)" using False by (simp add: keys_of_def)
    have "0 < tf_of ix (cstr a) d" using Cons.prems(2) [of "cstr a"] by (simp add: k)
    then obtain ix1 where ix1: "index_del_term ix d a = Inr ix1" "ix_wf ix1"
      "\<And>t d'. tf_of ix1 t d' = tf_of ix t d' - (if t = cstr a \<and> d' = d then 1 else 0)"
      using index_del_term_ok [OF Cons.prems(1) False] by blast
    have "int (count (keys_of terms) t) \<le> tf_of ix1 t d" for t
      using Cons.prems(2) [of t] ix1(3) [of t d] by (auto simp: k split: if_splits)
    from Cons.IH [OF ix1(2) this] show ?thesis using ix1(1,3) by (auto simp: k)
  qed
qed (simp add: keys_of_def)

lemma text_terms_of:
  assumes "sds_tokenize s = Inr (Some (terms, n))"
  shows "mset (text_terms s) = keys_of terms" and "n = length (text_terms s)"
  using assms sds_tokenize_ok [of s] by (auto simp: text_terms_def keys_of_def)

text \<open>
  C34 (roundtrip). Indexing a document and removing it again. \<^verbatim>\<open>fts_index_add\<close> succeeds on any text and
  gives the document, for every term, exactly the number of times the term occurs among
  the stemmed non-stop words of the text, adds their number to the length of the
  index, and changes no count of another document. \<^verbatim>\<open>fts_index_del\<close> then finds every term
  and item it asserts to be there and restores all counts and the length.\<close>

theorem fts_index_roundtrip:
  assumes "ix_wf (index f)" and "\<And>t. tf_of (index f) t d = 0"
    and "dheap f d = Some fdoc" and "obj_sds st (doc fdoc) = Inr s"
  shows "\<exists>f1 f2. fts_index_add st f d = Inr (True, f1) \<and> ix_wf (index f1) \<and>
     (\<forall>t. tf_of (index f1) t d = int (count (mset (text_terms s)) t)) \<and>
     (\<forall>t e. e \<noteq> d \<longrightarrow> tf_of (index f1) t e = tf_of (index f) t e) \<and>
     flen f1 = flen f + int (length (text_terms s)) \<and>
     fts_index_del st f1 d = Inr f2 \<and> ix_wf (index f2) \<and>
     (\<forall>t e. tf_of (index f2) t e = tf_of (index f) t e) \<and> flen f2 = flen f"
proof -
  obtain terms n where tk: "sds_tokenize s = Inr (Some (terms, n))" using sds_tokenize_ok by blast
  note tt = text_terms_of [OF tk]
  define f1 where "f1 = f\<lparr>index := foldl (\<lambda>ix t. index_add_term ix d t) (index f) terms,
      dheap := (dheap f)(d \<mapsto> fdoc\<lparr>dlen := int n\<rparr>), flen := flen f + int n\<rparr>"
  have add: "fts_index_add st f d = Inr (True, f1)"
    using assms(3,4) tk by (simp add: fts_index_add_def get_doc_def f1_def)
  have a: "ix_wf (index f1)"
    "tf_of (index f1) t e = tf_of (index f) t e + (if e = d then int (count (keys_of terms) t) else 0)" for t e
    using index_add_terms_ok [OF assms(1), of d terms t e] by (simp_all add: f1_def)
  have "int (count (keys_of terms) t) \<le> tf_of (index f1) t d" for t using a(2) [of t d] assms(2) by simp
  then obtain ix2 where ix2: "index_del_terms (index f1) d terms = Inr ix2" "ix_wf ix2"
    "\<And>t e. tf_of ix2 t e = tf_of (index f1) t e - (if e = d then int (count (keys_of terms) t) else 0)"
    using index_del_terms_ok [OF a(1), of terms d] by blast
  have del: "fts_index_del st f1 d = Inr (f1\<lparr>index := ix2, flen := flen f1 - int n\<rparr>)"
    using tk ix2(1) assms(4) by (simp add: fts_index_del_def get_doc_def f1_def)
  have "\<forall>t. tf_of (index f1) t d = int (count (mset (text_terms s)) t)" using a(2) assms(2) by (simp add: tt(1))
  moreover have "\<forall>t e. e \<noteq> d \<longrightarrow> tf_of (index f1) t e = tf_of (index f) t e" using a(2) by simp
  moreover have "\<forall>t e. tf_of (index (f1\<lparr>index := ix2, flen := flen f1 - int n\<rparr>)) t e = tf_of (index f) t e"
    using ix2(3) a(2) by simp
  moreover have "flen f1 = flen f + int (length (text_terms s))" "flen (f1\<lparr>index := ix2, flen := flen f1 - int n\<rparr>) = flen f"
    by (simp_all add: f1_def tt(2))
  ultimately show ?thesis using add del a(1) ix2(2) by fastforce
qed

lemma empty_ix: "ix_wf (index fts_create)" "tf_of (index fts_create) t d = 0"
  by (simp_all add: fts_create_def ix_wf_def tf_of_def dict_wf_def dict_map_def dict_entries_def slot_entries_def
      dict_set_freecb_def dict_create_def)

theorem fts_index_roundtrip_witness:
  "\<exists>f1 f2. fts_index_add (\<lparr>objs = [7 \<mapsto> \<lparr>otype = OBJ_STRING, encoding = OBJ_ENCODING_RAW, refcount = 1, ptr = PStr ''cats and cats''\<rparr>], next_addr = 8\<rparr> :: nat store)
      (fts_create\<lparr>dheap := [0 \<mapsto> \<lparr>title = 6, doc = 7, dlen = 0\<rparr>], dnext := 1\<rparr>) 0 = Inr (True, f1) \<and>
    fts_index_del (\<lparr>objs = [7 \<mapsto> \<lparr>otype = OBJ_STRING, encoding = OBJ_ENCODING_RAW, refcount = 1, ptr = PStr ''cats and cats''\<rparr>], next_addr = 8\<rparr> :: nat store)
      f1 0 = Inr f2 \<and> flen f2 = 0"
proof -
  let ?f = "fts_create\<lparr>dheap := [0 \<mapsto> \<lparr>title = 6, doc = 7, dlen = 0\<rparr>], dnext := 1\<rparr>"
  let ?st = "\<lparr>objs = [7 \<mapsto> \<lparr>otype = OBJ_STRING, encoding = OBJ_ENCODING_RAW, refcount = 1, ptr = PStr ''cats and cats''\<rparr>], next_addr = 8\<rparr> :: nat store"
  have "ix_wf (index ?f)" "\<And>t. tf_of (index ?f) t 0 = 0" "dheap ?f 0 = Some \<lparr>title = 6, doc = 7, dlen = 0\<rparr>"
    using empty_ix by simp_all
  moreover have "obj_sds ?st (doc \<lparr>title = 6, doc = 7, dlen = 0\<rparr>) = Inr ''cats and cats''"
    by (simp add: obj_sds_def get_obj_def ptr_sds_def)
  moreover have "flen ?f = 0" by (simp add: fts_create_def)
  ultimately show ?thesis using fts_index_roundtrip [of ?f 0 "\<lparr>title = 6, doc = 7, dlen = 0\<rparr>" ?st "''cats and cats''"] by metis
qed

section \<open>Ranked search\<close>

interpretation fq: heap_order "fts_cmp :: 'd::linorder fts_doc_score_t \<Rightarrow> 'd fts_doc_score_t \<Rightarrow> int"
  by unfold_locales (auto simp: fts_cmp_def split: if_splits)

lemma fts_cmp_le [simp]: "fts_cmp a b \<le> 0 \<longleftrightarrow> sscore b \<le> sscore a"
  by (auto simp: fts_cmp_def)

lemma push_scores_ok:
  fixes h :: "('d::linorder fts_doc_score_t, unit) minheap_t"
  assumes "heap_wf fts_cmp h" and "minheap_len h + length kvs < 2 ^ 31"
  shows "\<exists>h'. push_scores h kvs = Inr h' \<and> heap_wf fts_cmp h' \<and> heap_bag h' = heap_bag h + mset (map snd kvs)"
  using assms
proof (induction kvs arbitrary: h)
  case (Cons kv kvs)
  obtain k v where kv: "kv = (k, v)" by (cases kv)
  have "minheap_len h + 1 < 2 ^ 31" using Cons.prems(2) by simp
  then obtain h1 where h1: "minheap_push h v = Inr (0, h1)" "heap_wf fts_cmp h1" "heap_bag h1 = add_mset v (heap_bag h)"
    using fq.push_spec [OF Cons.prems(1), of v] by blast
  have "minheap_len h1 = Suc (minheap_len h)"
    using heap_bag_size [OF h1(2)] heap_bag_size [OF Cons.prems(1)] by (simp add: h1(3))
  then show ?case using Cons.IH [OF h1(2)] Cons.prems(2) h1 kv by auto
qed simp

lemma calculate_bm25_loop_wf:
  "dict_wf scores \<Longrightarrow> calculate_bm25_loop dp st f ds ls its scores = Inr scores' \<Longrightarrow> dict_wf scores'"
proof (induction dp st f ds ls its scores rule: calculate_bm25_loop.induct)
  case (2 dp st f ds ls d tf its scores)
  from "2.prems"(2) obtain fdoc k where g: "get_doc f d = Inr fdoc" "obj_cstr st (title fdoc) = Inr k" by (auto simp: Let_def)
  have k: "nul_free k" using g(2) by (auto simp: obj_cstr_def ptr_cstr_def)
  define v where "v = (let fds = (case dict_get scores k of None \<Rightarrow> \<lparr>sdoc = d, sscore = lit dp ''.0f''\<rparr> | Some x \<Rightarrow> x)
     in fds\<lparr>sscore := add_d dp (sscore fds) (bm25_term dp ds ls (flen f) (dlen fdoc) tf)\<rparr>)"
  have "dict_wf (fst (dict_set scores k (Some v)))"
    by (rule dict_set_spec [OF "2.prems"(1) k, of v]) simp
  moreover have "calculate_bm25_loop dp st f ds ls its (fst (dict_set scores k (Some v))) = Inr scores'"
    using "2.prems"(2) g by (simp add: Let_def v_def)
  ultimately show ?case using "2.IH" [OF g refl refl] by (simp add: v_def Let_def)
qed simp

lemma search_loop_wf:
  "dict_wf scores \<Longrightarrow> search_loop dp st f terms queried scores = Inr scores' \<Longrightarrow> dict_wf scores'"
proof (induction dp st f terms queried scores rule: search_loop.induct)
  case (2 dp st f t terms queried scores)
  then show ?case
    by (auto simp: Let_def calculate_bm25_def split: if_splits option.splits dest: calculate_bm25_loop_wf)
qed simp

lemma empty_dict_wf: "dict_wf dict_create"
  by (simp add: dict_create_def dict_wf_def dict_entries_def slot_entries_def)

lemma dict_length_entries: "dict_wf d \<Longrightarrow> dict_length d = length (dict_entries d)"
  by (simp add: dict_wf_def dict_length_def)

lemma search_wf: "search_with_bm25_score dp st f q = Inr scores \<Longrightarrow> dict_wf scores"
  by (auto simp: search_with_bm25_score_def empty_dict_wf split: option.splits dest: search_loop_wf [OF empty_dict_wf])

lemma fts_search_ok:
  assumes "search_with_bm25_score dp st f q = Inr scores" and "dict_length scores < 2 ^ 31"
  shows "\<exists>h. fts_search dp st f q = Inr (dict_length scores, h) \<and> heap_wf fts_cmp h \<and>
     heap_bag h = mset (map snd (dict_entries scores))"
proof -
  have wf: "dict_wf scores" by (rule search_wf [OF assms(1)])
  obtain it where it: "dict_iter_create scores = Inr it" "iter_collect it = Inr (dict_entries scores)"
    using dict_iterate_all [OF wf] by blast
  let ?h = "minheap_create (dict_length scores) 16 fts_cmp (\<lambda>x. x) prod.swap"
  have h: "heap_wf fts_cmp ?h" "heap_bag ?h = {#}"
    using minheap_create_wf [of "dict_length scores" 16] assms(2) by auto
  have len: "minheap_len ?h + length (dict_entries scores) < 2 ^ 31"
    using assms(2) dict_length_entries [OF wf] by (simp add: minheap_create_def minheap_len_def)
  show ?thesis using push_scores_ok [OF h(1) len] assms(1) it h(2) by (auto simp: fts_search_def Let_def)
qed


lemma search_empty_index: "dict_get (index f) = (\<lambda>_. None) \<Longrightarrow> search_loop dp st f terms queried scores = Inr scores"
  by (induction terms arbitrary: queried) (auto simp: Let_def)

definition sum_ops :: "nat double_ops" where
  "sum_ops = \<lparr>lit = length, of_int_d = nat, add_d = (+), sub_d = (-), mul_d = (*), div_d = (div), log_d = (\<lambda>x. x)\<rparr>"

definition word_store :: "nat store" where
  "word_store = \<lparr>objs = [7 \<mapsto> \<lparr>otype = OBJ_STRING, encoding = OBJ_ENCODING_RAW, refcount = 1, ptr = PStr ''cats''\<rparr>], next_addr = 8\<rparr>"


end
