(* ===== verification/Protocol.thy ===== *)
theory Protocol
  imports Commands Sds_Text
begin

text \<open>
  Reading requests: the parsers of \<^verbatim>\<open>rr_server.c\<close> for inline and multi-bulk requests.

  The query buffer of a client is the string \<open>query\<close>; cutting it with \<^verbatim>\<open>sdsrange\<close> is
  \<open>sub_range\<close>, what \<open>Sds.sdsrange\<close> computes, and the room kept behind it is left to the
  theory \<open>Sds\<close>. A parser returns whether a whole request was read (\<^verbatim>\<open>RR_OK\<close>).

  The lemmas follow a request, encoded the way clients send it, through the parser
  in whatever pieces it arrives.
\<close>

section \<open>Limits\<close>

definition PROTO_QUERY_MAX_LEN :: nat where "PROTO_QUERY_MAX_LEN = 512 * 1024 * 1024"
definition PROTO_IOBUF_LEN :: nat where "PROTO_IOBUF_LEN = 16 * 1024"
definition PROTO_INLINE_MAX_LEN :: nat where "PROTO_INLINE_MAX_LEN = 1024 * 64"
definition PROTO_MBULK_BIG_ARG :: nat where "PROTO_MBULK_BIG_ARG = 1024 * 32"

section \<open>Inline requests\<close>

text \<open>\<^verbatim>\<open>strchr\<close>: the offset of the first occurrence before the terminator.\<close>

fun strchr_at :: "string \<Rightarrow> char \<Rightarrow> nat option" where
  "strchr_at [] c = None"
| "strchr_at (b # s) c = (if b = c then Some 0 else if b = NUL then None else map_option Suc (strchr_at s c))"

definition set_query :: "('d, 'z) sctx_scheme \<Rightarrow> string \<Rightarrow> ('d, 'z) sctx_scheme" where
  "set_query x q = x\<lparr>cl := (cl x)\<lparr>query := q\<rparr>\<rparr>"

definition trim_query :: "('d, 'z) sctx_scheme \<Rightarrow> nat \<Rightarrow> ('d, 'z) sctx_scheme" where
  "trim_query x off = set_query x (sub_range (query (cl x)) (int off) (- 1))"

definition set_protocol_error :: "('d, 'z) sctx_scheme \<Rightarrow> nat \<Rightarrow> ('d, 'z) sctx_scheme" where
  "set_protocol_error x off =
     trim_query (x\<lparr>cl := (cl x)\<lparr>flags := flags (cl x) OR CLIENT_CLOSE_AFTER_REPLY\<rparr>\<rparr>) off"

text \<open>\<^verbatim>\<open>createObject(OBJ_STRING, s)\<close> as the next argument.\<close>

definition push_raw :: "('d, 'z) sctx_scheme \<Rightarrow> string \<Rightarrow> ('d, 'z) sctx_scheme" where
  "push_raw x s = append_arg x (createObject (store x) OBJ_STRING (PStr s))"

fun push_inline :: "('d, 'z) sctx_scheme \<Rightarrow> string list \<Rightarrow> ('d, 'z) sctx_scheme" where
  "push_inline x [] = x"
| "push_inline x (a # as) = push_inline (if length a \<noteq> 0 then push_raw x a else x) as"

definition process_inline_input :: "('d, 'z) sctx_scheme \<Rightarrow> bool \<times> ('d, 'z) sctx_scheme" where
  "process_inline_input x =
     (case strchr_at (query (cl x)) LF of
        None \<Rightarrow>
          (False, if length (query (cl x)) > PROTO_INLINE_MAX_LEN
                  then reply_add_err x ''Protocol error: too big inline request'' else x)
      | Some newline \<Rightarrow>
          let querylen = (if newline \<noteq> 0 \<and> query (cl x) ! (newline - 1) = CR then newline - 1 else newline) in
          case sdssplitargs (take querylen (query (cl x))) of
            None \<Rightarrow>
              (False, set_protocol_error (reply_add_err x ''Protocol error: unbalanced quotes in request'') 0)
          | Some as \<Rightarrow>
              let x1 = trim_query x (querylen + 2)
              in (True, push_inline (x1\<lparr>cl := (cl x1)\<lparr>argv := []\<rparr>\<rparr>) as))"

section \<open>Multi-bulk requests\<close>

text \<open>
  The count of arguments: \<open>Some b\<close> is a return of the parser, \<open>None\<close> goes on at the offset.
\<close>

definition mbulk_header :: "('d, 'z) sctx_scheme \<Rightarrow> (bool option \<times> nat \<times> ('d, 'z) sctx_scheme) result" where
  "mbulk_header x =
     (let q = query (cl x) in
      if multibulk_len (cl x) \<noteq> 0 then Inr (None, 0, x)
      else if argv (cl x) \<noteq> [] then Inl AssertFail
      else
        case strchr_at q CR of
          None \<Rightarrow>
            Inr (Some False, 0,
              if length q > PROTO_INLINE_MAX_LEN
              then set_protocol_error (reply_add_err x ''Protocol error: too big mbulk count string'') 0 else x)
        | Some newline \<Rightarrow>
            if int newline > int32 (length q) - 2 then Inr (Some False, 0, x)
            else
              (case (if newline = 0 then None else string2ll (take (newline - 1) (drop 1 q))) of
                 None \<Rightarrow>
                   Inr (Some False, 0, set_protocol_error (reply_add_err x ''Protocol error: invalid multibulk length'') 0)
               | Some ll \<Rightarrow>
                   if ll > 1024 * 1024
                   then Inr (Some False, 0, set_protocol_error (reply_add_err x ''Protocol error: invalid multibulk length'') 0)
                   else if ll \<le> 0 then Inr (Some True, newline + 2, trim_query x (newline + 2))
                   else Inr (None, newline + 2, x\<lparr>cl := (cl x)\<lparr>multibulk_len := ll\<rparr>\<rparr>)))"

datatype flow = Next | Break | Return

text \<open>\<^verbatim>\<open>"expected '$', got '%c'"\<close>\<close>

definition got_char :: "char \<Rightarrow> string" where
  "got_char ch = ''Protocol error: expected '' @ [SQUOTE] @ ''$'' @ [SQUOTE] @ '', got '' @ [SQUOTE, ch, SQUOTE]"

text \<open>The length of the next argument, read when it is not known.\<close>

definition read_bulk_len :: "nat \<Rightarrow> ('d, 'z) sctx_scheme \<Rightarrow> flow \<times> nat \<times> ('d, 'z) sctx_scheme" where
  "read_bulk_len off x =
     (let q = query (cl x) in
      if bulk_len (cl x) \<noteq> - 1 then (Next, off, x)
      else
        case strchr_at (drop off q) CR of
          None \<Rightarrow>
            if length q > PROTO_INLINE_MAX_LEN
            then (Return, off, set_protocol_error (reply_add_err x ''Protocol error: too big bulk count string'') 0)
            else (Break, off, x)
        | Some d \<Rightarrow>
            if int (off + d) > int32 (length q) - 2 then (Break, off, x)
            else if cget q off \<noteq> CHR ''$''
            then (Return, off, set_protocol_error (reply_add_err_format x (got_char (cget q off))) off)
            else
              (case string2ll (take (d - 1) (drop (off + 1) q)) of
                 None \<Rightarrow> (Return, off, set_protocol_error (reply_add_err x ''Protocol error: invalid bulk length'') off)
               | Some ll \<Rightarrow>
                   if ll < 0 \<or> ll > 512 * 1024 * 1024
                   then (Return, off, set_protocol_error (reply_add_err x ''Protocol error: invalid bulk length'') off)
                   else
                     let x1 = x\<lparr>cl := (cl x)\<lparr>bulk_len := ll\<rparr>\<rparr> in
                     if ll \<ge> int PROTO_MBULK_BIG_ARG then (Next, 0, trim_query x1 (off + d + 2))
                     else (Next, off + d + 2, x1)))"

text \<open>The argument itself, when all of it is there; a big one that fills the buffer is taken over.\<close>

definition read_bulk :: "nat \<Rightarrow> ('d, 'z) sctx_scheme \<Rightarrow> flow \<times> nat \<times> ('d, 'z) sctx_scheme" where
  "read_bulk off x =
     (let q = query (cl x); len = bulk_len (cl x) in
      if sub64 (length q) off < nat ((len + 2) mod 2 ^ 32) then (Break, off, x)
      else
        let (pos1, x1) =
          (if off = 0 \<and> len \<ge> int PROTO_MBULK_BIG_ARG \<and> int32 (length q) = len + 2
           then (0, set_query (push_raw x (take (length q - 2) q)) [])
           else (off + nat (len + 2), push_arg x (take (nat len) (drop off q))))
        in (Next, pos1, x1\<lparr>cl := (cl x1)\<lparr>bulk_len := - 1, multibulk_len := multibulk_len (cl x1) - 1\<rparr>\<rparr>))"

lemma append_arg_parse [simp]:
  "multibulk_len (cl (append_arg x p)) = multibulk_len (cl x)" "query (cl (append_arg x p)) = query (cl x)"
  "bulk_len (cl (append_arg x p)) = bulk_len (cl x)" "req_type (cl (append_arg x p)) = req_type (cl x)"
  "flags (cl (append_arg x p)) = flags (cl x)" "fd (cl (append_arg x p)) = fd (cl x)"
  by (simp_all add: append_arg_def split: prod.split)

lemma set_query_parse [simp]:
  "multibulk_len (cl (set_query x q)) = multibulk_len (cl x)" "query (cl (set_query x q)) = q"
  "bulk_len (cl (set_query x q)) = bulk_len (cl x)" "req_type (cl (set_query x q)) = req_type (cl x)"
  "argv (cl (set_query x q)) = argv (cl x)" "flags (cl (set_query x q)) = flags (cl x)"
  "fd (cl (set_query x q)) = fd (cl x)" "store (set_query x q) = store x" "db (set_query x q) = db x"
  by (simp_all add: set_query_def)

lemma read_bulk_len_count: "read_bulk_len off x = (Next, p, x') \<Longrightarrow> multibulk_len (cl x') = multibulk_len (cl x)"
  by (auto simp: read_bulk_len_def trim_query_def Let_def split: if_splits option.splits)

lemma read_bulk_count: "read_bulk off x = (Next, p, x') \<Longrightarrow> multibulk_len (cl x') = multibulk_len (cl x) - 1"
  by (auto simp: read_bulk_def push_raw_def push_arg_def Let_def split: if_splits)

text \<open>
  The loop over the arguments. The count is positive when it starts (the assertion
  before it) and goes down by one with each argument, so \<^verbatim>\<open>while (multibulk_len)\<close> is
  \<^verbatim>\<open>while (multibulk_len > 0)\<close>. The result tells whether the parser returned from inside.
\<close>

function mbulk_loop :: "nat \<Rightarrow> ('d, 'z) sctx_scheme \<Rightarrow> bool \<times> nat \<times> ('d, 'z) sctx_scheme" where
  "mbulk_loop off x =
     (if multibulk_len (cl x) \<le> 0 then (False, off, x)
      else
        case read_bulk_len off x of
          (Break, p) \<Rightarrow> (False, p)
        | (Return, p) \<Rightarrow> (True, p)
        | (Next, p1, x1) \<Rightarrow>
            (case read_bulk p1 x1 of
               (Next, p2, x2) \<Rightarrow> mbulk_loop p2 x2
             | (_, p) \<Rightarrow> (False, p)))"
  by pat_completeness auto
termination
  by (relation "measure (\<lambda>(_, x). nat (multibulk_len (cl x)))") (auto dest!: read_bulk_len_count [OF sym] read_bulk_count [OF sym])

declare mbulk_loop.simps [simp del]

definition process_multi_bulk_input :: "('d, 'z) sctx_scheme \<Rightarrow> (bool \<times> ('d, 'z) sctx_scheme) result" where
  "process_multi_bulk_input x =
     rbind (mbulk_header x) (\<lambda>(ret, off, x).
       case ret of
         Some b \<Rightarrow> Inr (b, x)
       | None \<Rightarrow>
           if multibulk_len (cl x) \<le> 0 then Inl AssertFail
           else
             case mbulk_loop off x of
               (True, _, x) \<Rightarrow> Inr (False, x)
             | (False, off, x) \<Rightarrow>
                 let x = (if off \<noteq> 0 then trim_query x off else x)
                 in Inr (multibulk_len (cl x) = 0, x))"

section \<open>Searching the query buffer\<close>

lemma strchr_at_prefix:
  assumes "s @ fut = h @ c # t" and "c \<notin> set h" and "NUL \<notin> set h"
  shows "strchr_at s c = (if length s \<le> length h then None else Some (length h))"
  using assms
proof (induction h arbitrary: s)
  case Nil
  then show ?case by (cases s) auto
next
  case (Cons b h)
  show ?case
  proof (cases s)
    case (Cons d s')
    then show ?thesis using Cons.IH [of s'] Cons.prems by auto
  qed simp
qed

lemma dec_clean: "0 \<le> v \<Longrightarrow> CR \<notin> set (dec v) \<and> NUL \<notin> set (dec v)"
proof -
  have "\<not> is_digit CR" "\<not> is_digit NUL" by (simp_all add: is_digit_def)
  then show "0 \<le> v \<Longrightarrow> ?thesis" using udec_digits [of _ "nat v"] by (auto simp: dec_def)
qed

lemma udec_length: "n < 10 ^ k \<Longrightarrow> 0 < k \<Longrightarrow> length (udec n) \<le> k"
proof (induction k arbitrary: n)
  case (Suc k)
  then show ?case
  proof (cases "n < 10")
    case False
    then have "0 < k" using Suc.prems by (cases k) auto
    moreover have "n div 10 < 10 ^ k" using Suc.prems by auto
    ultimately have "length (udec (n div 10)) \<le> k" by (intro Suc.IH)
    then show ?thesis by (subst udec.simps) (use False in simp)
  qed (subst udec.simps, simp)
qed simp

lemma sub_range_drop: "sub_range s (int n) (- 1) = drop n s"
  by (cases "s = []") (simp_all add: sub_range_def Let_def max_def le_nat_iff)

lemma trim_query_drop: "trim_query x n = set_query x (drop n (query (cl x)))"
  by (simp add: trim_query_def sub_range_drop)

section \<open>What parsing leaves alone\<close>

text \<open>Two contexts with the same objects, arguments and output.\<close>

definition same_data :: "('d, 'z) sctx_scheme \<Rightarrow> ('d, 'z) sctx_scheme \<Rightarrow> bool" where
  "same_data x x' \<longleftrightarrow>
     store x' = store x \<and> db x' = db x \<and> bgtasks x' = bgtasks x \<and> argv (cl x') = argv (cl x) \<and>
     buf (cl x') = buf (cl x) \<and> reply (cl x') = reply (cl x) \<and>
     buf_sent_len (cl x') = buf_sent_len (cl x) \<and> replied_len (cl x') = replied_len (cl x)"

lemma same_dataD:
  assumes "same_data x x'"
  shows "srv_wf E x' = srv_wf E x" and "args_are x' ss = args_are x ss" and "keyspace x' = keyspace x"
    and "refs_size E x' = refs_size E x" and "outstanding (cl x') = outstanding (cl x)"
    and "own_args E x' = own_args E x"
proof -
  note eq = assms [unfolded same_data_def]
  have refs: "srv_refs E x' = srv_refs E x" using eq by (simp add: srv_refs_def)
  show "srv_wf E x' = srv_wf E x" using eq by (simp add: srv_wf_def refs out_wf_def)
  show "args_are x' ss = args_are x ss" using eq by (simp add: args_are_def)
  show "keyspace x' = keyspace x" using eq by (simp add: fun_eq_iff keyspace_def)
  show "refs_size E x' = refs_size E x" using eq by (simp add: refs_size_def refs)
  show "outstanding (cl x') = outstanding (cl x)" using eq by (simp add: outstanding_def)
  show "own_args E x' = own_args E x" using eq by (simp add: own_args_def refs)
qed

text \<open>
  \<open>loads E x ss x'\<close>: the arguments \<open>ss\<close> were added; of the rest only the query buffer and
  the counters of the parser changed.
\<close>

definition loads :: "addr multiset \<Rightarrow> ('d::linorder, 'z) sctx_scheme \<Rightarrow> string list \<Rightarrow> ('d, 'z) sctx_scheme \<Rightarrow> bool" where
  "loads E x ss x' \<longleftrightarrow>
     srv_wf E x' \<and> keyspace x' = keyspace x \<and> refs_size E x' = refs_size E x + length ss \<and>
     (\<forall>ts. args_are x ts \<longrightarrow> args_are x' (ts @ ss)) \<and> (own_args E x \<longrightarrow> own_args E x') \<and>
     (\<exists>st av q ml bl. x' = x\<lparr>store := st, cl := (cl x)\<lparr>argv := av, query := q, multibulk_len := ml, bulk_len := bl\<rparr>\<rparr>)"

lemma loadsI:
  assumes "srv_wf E x" and "x' = x\<lparr>cl := (cl x)\<lparr>query := q, multibulk_len := ml, bulk_len := bl\<rparr>\<rparr>"
  shows "loads E x [] x'"
proof -
  have "same_data x x'" by (simp add: same_data_def assms(2))
  note s = same_dataD [OF this]
  have "x' = x\<lparr>store := store x, cl := (cl x)\<lparr>argv := argv (cl x), query := q, multibulk_len := ml, bulk_len := bl\<rparr>\<rparr>"
    by (simp add: assms(2))
  then have "\<exists>st av q ml bl. x' = x\<lparr>store := st, cl := (cl x)\<lparr>argv := av, query := q, multibulk_len := ml, bulk_len := bl\<rparr>\<rparr>"
    by blast
  then show ?thesis using assms(1) s(1-4,6) unfolding loads_def by simp
qed

lemma loads_trans:
  assumes "loads E x ss y" and "loads E y ts z"
  shows "loads E x (ss @ ts) z"
proof -
  obtain st av q ml bl where y: "y = x\<lparr>store := st, cl := (cl x)\<lparr>argv := av, query := q, multibulk_len := ml, bulk_len := bl\<rparr>\<rparr>"
    using assms(1) unfolding loads_def by blast
  obtain st' av' q' ml' bl' where z: "z = y\<lparr>store := st', cl := (cl y)\<lparr>argv := av', query := q', multibulk_len := ml', bulk_len := bl'\<rparr>\<rparr>"
    using assms(2) unfolding loads_def by blast
  have "z = x\<lparr>store := st', cl := (cl x)\<lparr>argv := av', query := q', multibulk_len := ml', bulk_len := bl'\<rparr>\<rparr>"
    by (simp add: y z)
  then have "\<exists>st av q ml bl. z = x\<lparr>store := st, cl := (cl x)\<lparr>argv := av, query := q, multibulk_len := ml, bulk_len := bl\<rparr>\<rparr>"
    by blast
  moreover have "args_are z (us @ ss @ ts)" if "args_are x us" for us
    using assms that unfolding loads_def by (metis append.assoc)
  ultimately show ?thesis using assms unfolding loads_def by simp
qed

lemma takes_arg_loads:
  assumes "takes_arg E x s x'"
  shows "loads E x [s] x'"
proof -
  obtain a st where "x' = x\<lparr>store := st, cl := (cl x)\<lparr>argv := argv (cl x) @ [a]\<rparr>\<rparr>"
    using assms unfolding takes_arg_def by blast
  then have "x' = x\<lparr>store := st, cl := (cl x)\<lparr>argv := argv (cl x) @ [a], query := query (cl x),
      multibulk_len := multibulk_len (cl x), bulk_len := bulk_len (cl x)\<rparr>\<rparr>" by simp
  then have "\<exists>st av q ml bl. x' = x\<lparr>store := st, cl := (cl x)\<lparr>argv := av, query := q, multibulk_len := ml, bulk_len := bl\<rparr>\<rparr>"
    by blast
  then show ?thesis using assms unfolding takes_arg_def loads_def by simp
qed

lemma push_raw_takes:
  fixes x :: "('d::linorder, 'z) sctx_scheme"
  assumes "srv_wf E x"
  shows "takes_arg E x s (push_raw x s)"
  unfolding push_raw_def createObject_def
  by (rule append_arg_ok [OF assms]) (simp_all add: string_ok_def)

section \<open>Requests on their way\<close>

definition request :: "string list \<Rightarrow> string" where
  "request as = CHR ''*'' # dec (int (length as)) @ CRLF @ concat (map bulk as)"

text \<open>What is still to be read of the arguments \<open>as\<close>, given the length of the current one (or \<open>-1\<close>).\<close>

definition args_left :: "int \<Rightarrow> string list \<Rightarrow> string" where
  "args_left bl as = (if bl = - 1 then concat (map bulk as) else hd as @ CRLF @ concat (map bulk (tl as)))"

definition at_arg :: "client \<Rightarrow> string list \<Rightarrow> bool" where
  "at_arg c as \<longleftrightarrow> multibulk_len c = int (length as) \<and> (bulk_len c = - 1 \<or> as \<noteq> [] \<and> bulk_len c = int (length (hd as)))"

definition short_args :: "string list \<Rightarrow> bool" where
  "short_args as \<longleftrightarrow> (\<forall>a\<in>set as. length a \<le> 512 * 1024 * 1024)"

text \<open>
  The buffer is small, or it holds nothing but a part of the current big argument.
\<close>

definition fits :: "nat \<Rightarrow> client \<Rightarrow> bool" where
  "fits off c \<longleftrightarrow> length (query c) \<le> PROTO_INLINE_MAX_LEN \<or>
     off = 0 \<and> bulk_len c \<ge> int PROTO_MBULK_BIG_ARG \<and> int (length (query c)) \<le> bulk_len c + 2"

text \<open>Nothing more of the arguments can be read from \<open>n\<close> bytes.\<close>

definition starved :: "nat \<Rightarrow> int \<Rightarrow> string list \<Rightarrow> bool" where
  "starved n bl as \<longleftrightarrow> (as \<noteq> [] \<longrightarrow>
     n < (if bl = - 1 then length (dec (int (length (hd as)))) + 3 else length (hd as) + 2))"

lemma string2ll_len: "n \<le> 512 * 1024 * 1024 \<Longrightarrow> string2ll (dec (int n)) = Some (int n)"
  by (rule string2ll_dec) (simp_all add: LLONG_MIN_def LLONG_MAX_def)

lemma read_bulk_len_ok:
  assumes bl: "bulk_len (cl x) = - 1" and off: "off \<le> length (query (cl x))"
    and s: "drop off (query (cl x)) @ fut = bulk a @ after"
    and small: "length (query (cl x)) \<le> PROTO_INLINE_MAX_LEN" "length a \<le> 512 * 1024 * 1024"
  defines "k \<equiv> length (dec (int (length a))) + 3"
  shows "if length (query (cl x)) - off < k then read_bulk_len off x = (Break, off, x)
    else read_bulk_len off x =
      (Next, if length a \<ge> PROTO_MBULK_BIG_ARG then 0 else off + k,
       x\<lparr>cl := (cl x)\<lparr>query := (if length a \<ge> PROTO_MBULK_BIG_ARG then drop (off + k) (query (cl x)) else query (cl x)),
                       bulk_len := int (length a)\<rparr>\<rparr>)"
proof -
  let ?q = "query (cl x)" and ?h = "CHR ''$'' # dec (int (length a))"
  have s': "drop off ?q @ fut = ?h @ CR # LF # a @ CRLF @ after" using s by (simp add: bulk_def CRLF_def)
  have i32: "int32 (length ?q) = int (length ?q)"
    using small(1) by (simp add: PROTO_INLINE_MAX_LEN_def)
  have find: "strchr_at (drop off ?q) CR = (if length ?q - off \<le> length ?h then None else Some (length ?h))"
    using strchr_at_prefix [OF s'] dec_clean [of "int (length a)"] by simp
  show ?thesis
  proof (cases "length ?q - off < k")
    case True
    then show ?thesis
      using find bl small(1) i32 off by (auto simp: read_bulk_len_def Let_def k_def)
  next
    case False
    then have long: "k \<le> length (drop off ?q)" by simp
    have "take k (drop off ?q) = take k (drop off ?q @ fut)" using long by simp
    also have "\<dots> = ?h @ [CR, LF]" unfolding s' by (simp add: k_def take_Cons')
    finally have pre: "take k (drop off ?q) = ?h @ [CR, LF]" .
    have dollar: "cget ?q off = CHR ''$''"
    proof -
      have lt: "off < length ?q" using long by (simp add: k_def)
      then have "?q ! off = take k (drop off ?q) ! 0" by (simp add: k_def)
      also have "\<dots> = CHR ''$''" unfolding pre by simp
      finally show ?thesis using lt by (simp add: cget_def)
    qed
    have num: "take (length ?h - 1) (drop (off + 1) ?q) = dec (int (length a))"
    proof -
      have "take (length ?h - 1) (drop (off + 1) ?q) = take (k - 3) (drop 1 (take k (drop off ?q)))"
        by (simp add: k_def drop_take)
      also have "\<dots> = dec (int (length a))" unfolding pre by (simp add: k_def)
      finally show ?thesis .
    qed
    have "int (off + length ?h) \<le> int (length ?q) - 2" using False by (simp add: k_def)
    moreover have "\<not> length ?q - off \<le> length ?h" using False by (simp add: k_def)
    ultimately show ?thesis
      using False find bl i32 dollar num string2ll_len [OF small(2)] small(2)
      by (simp add: read_bulk_len_def Let_def trim_query_drop set_query_def k_def numeral_3_eq_3)
  qed
qed

lemma loads_parts:
  assumes "loads E x ss x'"
  shows "srv_wf E x'" and "keyspace x' = keyspace x" and "refs_size E x' = refs_size E x + length ss"
    and "args_are x ts \<Longrightarrow> args_are x' (ts @ ss)" and "own_args E x \<Longrightarrow> own_args E x'"
  using assms by (simp_all add: loads_def)

lemma loads_refl: "srv_wf E x \<Longrightarrow> loads E x [] x"
  by (rule loadsI [where q = "query (cl x)" and ml = "multibulk_len (cl x)" and bl = "bulk_len (cl x)"]) simp_all

lemma read_bulk_ok:
  fixes x :: "('d::linorder, 'z) sctx_scheme"
  assumes wf: "srv_wf E x" and bl: "bulk_len (cl x) = int (length a)" and off: "off \<le> length (query (cl x))"
    and s: "drop off (query (cl x)) @ fut = a @ CRLF @ after"
    and fit: "fits off (cl x)" and small: "length a \<le> 512 * 1024 * 1024"
  shows "if length (query (cl x)) - off < length a + 2 then read_bulk off x = (Break, off, x)
    else \<exists>off' x'. read_bulk off x = (Next, off', x') \<and> loads E x [a] x' \<and> off' \<le> length (query (cl x')) \<and>
      drop off' (query (cl x')) @ fut = after \<and> length (query (cl x')) \<le> PROTO_INLINE_MAX_LEN \<and>
      bulk_len (cl x') = - 1 \<and> multibulk_len (cl x') = multibulk_len (cl x) - 1"
proof -
  let ?q = "query (cl x)"
  have lim: "length ?q < 2 ^ 31"
    using fit small by (auto simp: fits_def bl PROTO_INLINE_MAX_LEN_def)
  have need: "nat ((int (length a) + 2) mod 4294967296) = length a + 2"
    using small by (simp add: nat_add_distrib)
  have avail: "sub64 (length ?q) off = length ?q - off"
    using off lim by simp
  show ?thesis
  proof (cases "length ?q - off < length a + 2")
    case True
    then show ?thesis by (simp add: read_bulk_def Let_def bl avail need)
  next
    case False
    then have long: "length a + 2 \<le> length (drop off ?q)" by simp
    have pre: "take (length a + 2) (drop off ?q) = a @ CRLF"
    proof -
      have "take (length a + 2) (drop off ?q) = take (length a + 2) (drop off ?q @ fut)" using long by simp
      also have "\<dots> = a @ CRLF" unfolding s by (simp add: CRLF_def)
      finally show ?thesis .
    qed
    have after: "drop (length a + 2) (drop off ?q) @ fut = after"
    proof -
      have "drop (length a + 2) (drop off ?q) @ fut = drop (length a + 2) (drop off ?q @ fut)" using long by simp
      also have "\<dots> = after" unfolding s by (simp add: CRLF_def)
      finally show ?thesis .
    qed
    have arg: "take (length a) (drop off ?q) = a"
    proof -
      have "take (length a) (drop off ?q) = take (length a) (take (length a + 2) (drop off ?q))" by simp
      then show ?thesis unfolding pre by simp
    qed
    let ?fin = "\<lambda>y. y\<lparr>cl := (cl y)\<lparr>bulk_len := - 1, multibulk_len := multibulk_len (cl y) - 1\<rparr>\<rparr>"
    have fin: "loads E x [a] (?fin y')"
      if "takes_arg E x a y" "y' = y\<lparr>cl := (cl y)\<lparr>query := q\<rparr>\<rparr>" for y y' q
    proof -
      have y: "loads E x [a] y" by (rule takes_arg_loads [OF that(1)])
      have "?fin y' = y\<lparr>cl := (cl y)\<lparr>query := q, multibulk_len := multibulk_len (cl y) - 1, bulk_len := - 1\<rparr>\<rparr>"
        by (simp add: that(2))
      from loadsI [OF loads_parts(1) [OF y] this] loads_trans [OF y] show ?thesis by fastforce
    qed
    show ?thesis
    proof (cases "off = 0 \<and> int (length a) \<ge> int PROTO_MBULK_BIG_ARG \<and> int32 (length ?q) = int (length a) + 2")
      case True
      then have len: "length ?q = length a + 2" using lim by simp
      let ?y = "push_raw x (take (length ?q - 2) ?q)"
      have eq: "read_bulk off x = (Next, 0, ?fin (set_query ?y []))"
        using False True avail by (simp add: read_bulk_def Let_def bl need)
      have "takes_arg E x a ?y"
        using push_raw_takes [OF wf, of a] arg len True by simp
      then have "loads E x [a] (?fin (set_query ?y []))"
        by (rule fin) (simp add: set_query_def)
      moreover have "fut = after" using after len True by simp
      ultimately show ?thesis using False eq by (simp add: push_raw_def)
    next
      case no: False
      let ?y = "push_arg x (take (length a) (drop off ?q))"
      have eq: "read_bulk off x = (Next, off + (length a + 2), ?fin ?y)"
        using False no by (simp add: read_bulk_def Let_def bl avail need nat_add_distrib)
      have "takes_arg E x a ?y" using push_arg_takes [OF wf, of a] arg by simp
      then have "loads E x [a] (?fin ?y)"
        by (rule fin [of ?y ?y "query (cl ?y)"]) simp
      moreover have "length ?q \<le> PROTO_INLINE_MAX_LEN"
        using fit no False lim by (auto simp: fits_def bl)
      moreover have "drop (off + (length a + 2)) ?q @ fut = after"
        using after by (simp add: add.commute)
      ultimately show ?thesis using False eq long by (simp add: push_arg_def)
    qed
  qed
qed

text \<open>
  The loop: it reads as many of the arguments as the buffer holds, and stops at the
  end of the request or where the buffer ends.
\<close>

lemma mbulk_loop_ok:
  fixes x :: "('d::linorder, 'z) sctx_scheme"
  assumes "srv_wf E x" and "at_arg (cl x) as" and "off \<le> length (query (cl x))"
    and "drop off (query (cl x)) @ fut = args_left (bulk_len (cl x)) as @ after"
    and "fits off (cl x)" and "short_args as"
  shows "\<exists>off' x' as1 as2. mbulk_loop off x = (False, off', x') \<and> as = as1 @ as2 \<and> loads E x as1 x' \<and>
    at_arg (cl x') as2 \<and> off' \<le> length (query (cl x')) \<and>
    drop off' (query (cl x')) @ fut = args_left (bulk_len (cl x')) as2 @ after \<and>
    starved (length (query (cl x')) - off') (bulk_len (cl x')) as2"
  using assms
proof (induction as arbitrary: x off)
  case Nil
  note loads_refl [OF Nil.prems(1)]
  with Nil.prems show ?case by (subst mbulk_loop.simps) (simp add: at_arg_def starved_def)
next
  case (Cons a as)
  note refl = loads_refl [OF Cons.prems(1)]
  have more: "\<not> multibulk_len (cl x) \<le> 0" using Cons.prems(2) by (simp add: at_arg_def)
  have a: "length a \<le> 512 * 1024 * 1024" using Cons.prems(6) by (simp add: short_args_def)
  have stop: ?case if "mbulk_loop off x = (False, off, x)" "starved (length (query (cl x)) - off) (bulk_len (cl x)) (a # as)"
    using that refl Cons.prems by (intro exI [of _ off] exI [of _ x] exI [of _ "[]"] exI [of _ "a # as"]) simp
  have arg: ?case
    if y: "read_bulk_len off x = (Next, p, y)" "loads E x [] y" "p \<le> length (query (cl y))"
      "drop p (query (cl y)) @ fut = a @ CRLF @ concat (map bulk as) @ after" "fits p (cl y)"
      "bulk_len (cl y) = int (length a)" "multibulk_len (cl y) = int (length (a # as))" for p y
  proof (cases "length (query (cl y)) - p < length a + 2")
    case True
    then have "read_bulk p y = (Break, p, y)"
      using read_bulk_ok [OF loads_parts(1) [OF y(2)] y(6,3) y(4) y(5) a] by simp
    then have "mbulk_loop off x = (False, p, y)" using y(1) more by (subst mbulk_loop.simps) simp
    moreover have "at_arg (cl y) (a # as)" "starved (length (query (cl y)) - p) (bulk_len (cl y)) (a # as)"
      using y(6,7) True by (simp_all add: at_arg_def starved_def)
    ultimately show ?thesis
      using y by (intro exI [of _ p] exI [of _ y] exI [of _ "[]"] exI [of _ "a # as"]) (simp add: args_left_def)
  next
    case False
    obtain p' y' where y': "read_bulk p y = (Next, p', y')" "loads E y [a] y'" "p' \<le> length (query (cl y'))"
      "drop p' (query (cl y')) @ fut = concat (map bulk as) @ after" "length (query (cl y')) \<le> PROTO_INLINE_MAX_LEN"
      "bulk_len (cl y') = - 1" "multibulk_len (cl y') = multibulk_len (cl y) - 1"
      using read_bulk_ok [OF loads_parts(1) [OF y(2)] y(6,3) y(4) y(5) a] False by auto
    have at: "at_arg (cl y') as" using y' y(7) by (simp add: at_arg_def)
    have "drop p' (query (cl y')) @ fut = args_left (bulk_len (cl y')) as @ after" using y'(4,6) by (simp add: args_left_def)
    moreover have "fits p' (cl y')" "short_args as" using y'(5) Cons.prems(6) by (simp_all add: fits_def short_args_def)
    ultimately obtain off' x' as1 as2 where ih: "mbulk_loop p' y' = (False, off', x')" "as = as1 @ as2" "loads E y' as1 x'"
      "at_arg (cl x') as2" "off' \<le> length (query (cl x'))" "drop off' (query (cl x')) @ fut = args_left (bulk_len (cl x')) as2 @ after"
      "starved (length (query (cl x')) - off') (bulk_len (cl x')) as2"
      using Cons.IH [OF loads_parts(1) [OF y'(2)] at y'(3)] by blast
    have "loads E x (a # as1) x'" using loads_trans [OF loads_trans [OF y(2) y'(2)] ih(3)] by simp
    moreover have "mbulk_loop off x = (False, off', x')" using y(1) y'(1) ih(1) more by (subst mbulk_loop.simps) simp
    ultimately show ?thesis using ih(2,4-7) by (intro exI [of _ off'] exI [of _ x'] exI [of _ "a # as1"] exI [of _ as2]) simp
  qed
  show ?case
  proof (cases "bulk_len (cl x) = - 1")
    case True
    have s: "drop off (query (cl x)) @ fut = bulk a @ concat (map bulk as) @ after"
      using Cons.prems(4) True by (simp add: args_left_def)
    have small: "length (query (cl x)) \<le> PROTO_INLINE_MAX_LEN"
      using Cons.prems(5) True by (simp add: fits_def)
    define k where "k = length (dec (int (length a))) + 3"
    note rl = read_bulk_len_ok [OF True Cons.prems(3) s small a, folded k_def]
    show ?thesis
    proof (cases "length (query (cl x)) - off < k")
      case short: True
      then have "mbulk_loop off x = (False, off, x)" using rl more by (subst mbulk_loop.simps) simp
      then show ?thesis using short True by (intro stop) (simp_all add: starved_def k_def)
    next
      case False
      have rest: "drop (off + k) (query (cl x)) @ fut = a @ CRLF @ concat (map bulk as) @ after"
      proof -
        have "drop (off + k) (query (cl x)) @ fut = drop k (drop off (query (cl x)) @ fut)"
          using False by (simp add: add.commute)
        also have "\<dots> = a @ CRLF @ concat (map bulk as) @ after" unfolding s by (simp add: bulk_def k_def CRLF_def numeral_3_eq_3)
        finally show ?thesis .
      qed
      let ?big = "length a \<ge> PROTO_MBULK_BIG_ARG"
      let ?y = "x\<lparr>cl := (cl x)\<lparr>query := (if ?big then drop (off + k) (query (cl x)) else query (cl x)), bulk_len := int (length a)\<rparr>\<rparr>"
      have "loads E x [] ?y" by (rule loadsI [OF Cons.prems(1), where ml = "multibulk_len (cl x)"]) simp
      then show ?thesis
        by (rule arg [of "if ?big then 0 else off + k" ?y, rotated])
          (use rl False rest small Cons.prems(2,3) in \<open>auto simp: fits_def at_arg_def\<close>)
    qed
  next
    case False
    then have bl: "bulk_len (cl x) = int (length a)" using Cons.prems(2) by (simp add: at_arg_def)
    show ?thesis
      by (rule arg [of off x, OF _ refl Cons.prems(3)])
        (use False bl Cons.prems in \<open>simp_all add: read_bulk_len_def args_left_def at_arg_def\<close>)
  qed
qed

text \<open>
  A client in the middle of a request of which the arguments \<open>as\<close> are still to be read,
  and the bytes that make them up.
\<close>

definition awaiting :: "client \<Rightarrow> string list \<Rightarrow> bool" where
  "awaiting c as \<longleftrightarrow> as \<noteq> [] \<and>
     (if multibulk_len c = 0 then bulk_len c = - 1 \<and> argv c = [] else at_arg c as)"

definition expected :: "client \<Rightarrow> string list \<Rightarrow> string" where
  "expected c as = (if multibulk_len c = 0 then request as else args_left (bulk_len c) as)"

definition hungry :: "client \<Rightarrow> string list \<Rightarrow> bool" where
  "hungry c as \<longleftrightarrow>
     (if multibulk_len c = 0 then length (query c) < length (dec (int (length as))) + 3
      else starved (length (query c)) (bulk_len c) as)"

definition sendable :: "string list \<Rightarrow> bool" where
  "sendable as \<longleftrightarrow> short_args as \<and> length as \<le> 1024 * 1024"

lemma hungry_incomplete:
  assumes "hungry c as" and "awaiting c as" and "query c @ fut = expected c as @ after"
  shows "fut \<noteq> []"
proof
  assume "fut = []"
  then have q: "query c = expected c as @ after" using assms(3) by simp
  show False
    using assms(1,2) q
    by (cases as) (auto simp: hungry_def awaiting_def expected_def request_def args_left_def bulk_def starved_def at_arg_def CRLF_def
        split: if_splits)
qed

lemma mbulk_header_ok:
  fixes x :: "('d::linorder, 'z) sctx_scheme"
  assumes wf: "srv_wf E x" and ml: "multibulk_len (cl x) = 0" and aw: "awaiting (cl x) as"
    and s: "query (cl x) @ fut = request as @ after"
    and small: "length (query (cl x)) \<le> PROTO_INLINE_MAX_LEN" "length as \<le> 1024 * 1024"
  defines "k \<equiv> length (dec (int (length as))) + 3"
  shows "mbulk_header x =
    (if length (query (cl x)) < k then Inr (Some False, 0, x)
     else Inr (None, k, x\<lparr>cl := (cl x)\<lparr>multibulk_len := int (length as)\<rparr>\<rparr>))"
proof -
  let ?q = "query (cl x)" and ?h = "CHR ''*'' # dec (int (length as))"
  have s': "?q @ fut = ?h @ CR # LF # concat (map bulk as) @ after" using s by (simp add: request_def CRLF_def)
  have i32: "int32 (length ?q) = int (length ?q)" using small(1) by (simp add: PROTO_INLINE_MAX_LEN_def)
  have find: "strchr_at ?q CR = (if length ?q \<le> length ?h then None else Some (length ?h))"
    using strchr_at_prefix [OF s'] dec_clean [of "int (length as)"] by simp
  have argv: "argv (cl x) = []" and ne: "as \<noteq> []" using aw ml by (simp_all add: awaiting_def)
  show ?thesis
  proof (cases "length ?q < k")
    case True
    then show ?thesis using find small(1) i32 ml argv by (auto simp: mbulk_header_def Let_def k_def)
  next
    case False
    have num: "take (length (dec (int (length as)))) (drop 1 ?q) = dec (int (length as))"
    proof -
      have "take (length (dec (int (length as)))) (drop 1 ?q) = take (length (dec (int (length as)))) (drop 1 (?q @ fut))"
        using False by (simp add: k_def)
      also have "\<dots> = dec (int (length as))" unfolding s' by simp
      finally show ?thesis .
    qed
    have "string2ll (dec (int (length as))) = Some (int (length as))" using small(2) by (intro string2ll_len) simp
    moreover have "int (length ?h) \<le> int (length ?q) - 2" "\<not> length ?q \<le> length ?h" using False by (simp_all add: k_def)
    ultimately show ?thesis
      using False find i32 ml argv num small(2) ne by (simp add: mbulk_header_def Let_def k_def numeral_3_eq_3)
  qed
qed

text \<open>
  One call of the parser on a buffer that holds a part of the rest of the request:
  either the request is complete and what follows it stays in the buffer, or the
  client waits for the rest.
\<close>

lemma process_multi_bulk_ok:
  fixes x :: "('d::linorder, 'z) sctx_scheme"
  assumes wf: "srv_wf E x" and aw: "awaiting (cl x) as"
    and s: "query (cl x) @ fut = expected (cl x) as @ after"
    and fit: "fits 0 (cl x)" and ok: "sendable as"
  shows "\<exists>b x' as1 as2. process_multi_bulk_input x = Inr (b, x') \<and> as = as1 @ as2 \<and> loads E x as1 x' \<and>
    (if b then as2 = [] \<and> query (cl x') @ fut = after \<and> multibulk_len (cl x') = 0 \<and> bulk_len (cl x') = - 1
     else awaiting (cl x') as2 \<and> query (cl x') @ fut = expected (cl x') as2 @ after \<and> hungry (cl x') as2)"
proof -
  have loop: ?thesis
    if h: "mbulk_header x = Inr (None, off, y)" "loads E x [] y" "at_arg (cl y) as" "off \<le> length (query (cl y))"
      "drop off (query (cl y)) @ fut = args_left (bulk_len (cl y)) as @ after" "fits off (cl y)" for off y
  proof -
    have short: "short_args as" using ok by (simp add: sendable_def)
    have pos: "\<not> multibulk_len (cl y) \<le> 0" using h(3) aw by (simp add: at_arg_def awaiting_def)
    obtain off' x' as1 as2 where l: "mbulk_loop off y = (False, off', x')" "as = as1 @ as2" "loads E y as1 x'"
      "at_arg (cl x') as2" "off' \<le> length (query (cl x'))" "drop off' (query (cl x')) @ fut = args_left (bulk_len (cl x')) as2 @ after"
      "starved (length (query (cl x')) - off') (bulk_len (cl x')) as2"
      using mbulk_loop_ok [OF loads_parts(1) [OF h(2)] h(3-6) short] by blast
    define z where "z = x'\<lparr>cl := (cl x')\<lparr>query := drop off' (query (cl x'))\<rparr>\<rparr>"
    have p: "process_multi_bulk_input x = Inr (as2 = [], z)"
      using h(1) pos l(1,4) by (simp add: process_multi_bulk_input_def trim_query_drop set_query_def z_def Let_def at_arg_def)
    have "loads E x' [] z"
      by (rule loadsI [OF loads_parts(1) [OF l(3)], where ml = "multibulk_len (cl x')" and bl = "bulk_len (cl x')"])
        (simp add: z_def)
    then have "loads E x as1 z" using loads_trans [OF loads_trans [OF h(2) l(3)]] by fastforce
    moreover have "if as2 = [] then query (cl z) @ fut = after \<and> multibulk_len (cl z) = 0 \<and> bulk_len (cl z) = - 1
       else awaiting (cl z) as2 \<and> query (cl z) @ fut = expected (cl z) as2 @ after \<and> hungry (cl z) as2"
      using l(4-7) by (auto simp: z_def at_arg_def args_left_def awaiting_def expected_def hungry_def)
    ultimately show ?thesis using p l(2) by (intro exI [of _ "as2 = []"] exI [of _ z] exI [of _ as1] exI [of _ as2]) auto
  qed
  show ?thesis
  proof (cases "multibulk_len (cl x) = 0")
    case False
    have "mbulk_header x = Inr (None, 0, x)" using False by (simp add: mbulk_header_def Let_def)
    then show ?thesis by (rule loop [OF _ loads_refl [OF wf]]) (use False aw s fit in \<open>simp_all add: awaiting_def expected_def\<close>)
  next
    case True
    have bl: "bulk_len (cl x) = - 1" using aw True by (simp add: awaiting_def)
    have s': "query (cl x) @ fut = request as @ after" using s True by (simp add: expected_def)
    have small: "length (query (cl x)) \<le> PROTO_INLINE_MAX_LEN" using fit bl by (simp add: fits_def)
    define k where "k = length (dec (int (length as))) + 3"
    note hd = mbulk_header_ok [OF wf True aw s' small, folded k_def]
    show ?thesis
    proof (cases "length (query (cl x)) < k")
      case short: True
      then have "process_multi_bulk_input x = Inr (False, x)"
        using hd ok by (simp add: process_multi_bulk_input_def sendable_def)
      then show ?thesis using loads_refl [OF wf] aw s short True
        by (intro exI [of _ False] exI [of _ x] exI [of _ "[]"] exI [of _ as]) (simp add: hungry_def k_def)
    next
      case False
      let ?y = "x\<lparr>cl := (cl x)\<lparr>multibulk_len := int (length as)\<rparr>\<rparr>"
      have "drop k (query (cl x)) @ fut = drop k (query (cl x) @ fut)" using False by simp
      also have "\<dots> = concat (map bulk as) @ after" unfolding s' by (simp add: request_def k_def CRLF_def numeral_3_eq_3)
      finally have rest: "drop k (query (cl x)) @ fut = concat (map bulk as) @ after" .
      have "loads E x [] ?y"
        by (rule loadsI [OF wf, where q = "query (cl x)" and bl = "bulk_len (cl x)"]) simp
      then show ?thesis
        by (rule loop [of k ?y, rotated])
          (use hd False ok rest small bl in \<open>simp_all add: sendable_def at_arg_def args_left_def fits_def\<close>)
    qed
  qed
qed

end
