(* ===== verification/Server.thy ===== *)
theory Server
  imports Protocol Fts
begin

text \<open>
  The server (\<^verbatim>\<open>rr_server.c\<close>, the rest of \<^verbatim>\<open>rr_replying.c\<close> and \<^verbatim>\<open>rr_cmd_admin.c\<close>): the command
  table, finding and running commands, the loop that serves what a client has sent,
  and the life of clients from accepting a connection to freeing them.

  A client structure lives at its number \<open>cid\<close> in \<open>cmem\<close>; the lists of the server hold
  numbers, as they hold pointers in the code, and a handler works on the copy in \<open>cl\<close>,
  which is put back when it returns. Going through the number of a freed client is a
  fault.
\<close>

section \<open>Commands\<close>

text \<open>The functions in the command table.\<close>

datatype cmd_proc =
    P_get | P_len | P_set | P_del | P_exists | P_rget | P_rpget | P_rlen | P_rset | P_rdel | P_rkeys | P_rvalues
  | P_rgetall | P_rexists | P_hqpush | P_hqpop | P_hqpopn | P_hqpeek | P_hqlen | P_dset | P_dget | P_ddel
  | P_dsearch | P_dlen | P_type | P_ping | P_echo | P_shutdown | P_info

record redisCommand =
  name :: string
  proc :: cmd_proc
  arity :: int
  sflags :: string
  cflags :: u32
  firstkey :: int
  lastkey :: int
  keystep :: int
  microseconds :: int
  calls :: int

definition command :: "string \<Rightarrow> cmd_proc \<Rightarrow> int \<Rightarrow> string \<Rightarrow> int \<Rightarrow> int \<Rightarrow> int \<Rightarrow> redisCommand" where
  "command n p ar fs k1 k2 st =
     \<lparr>name = n, proc = p, arity = ar, sflags = fs, cflags = 0, firstkey = k1, lastkey = k2, keystep = st,
      microseconds = 0, calls = 0\<rparr>"

definition redisCommandTable :: "redisCommand list" where
  "redisCommandTable =
    [command ''get'' P_get 2 ''rF'' 1 1 1,
     command ''len'' P_len 1 ''rF'' 1 1 1,
     command ''set'' P_set 3 ''wm'' 1 1 1,
     command ''del'' P_del 2 ''wF'' 1 (- 1) 1,
     command ''exists'' P_exists 2 ''rF'' 1 (- 1) 1,
     command ''rget'' P_rget 3 ''rF'' 1 1 1,
     command ''rpget'' P_rpget 3 ''rF'' 1 1 1,
     command ''rlen'' P_rlen 2 ''rF'' 1 1 1,
     command ''rset'' P_rset 4 ''wm'' 1 1 1,
     command ''rdel'' P_rdel 3 ''wF'' 1 (- 1) 1,
     command ''rkeys'' P_rkeys 2 ''rF'' 1 1 1,
     command ''rvalues'' P_rvalues 2 ''rF'' 1 1 1,
     command ''rgetall'' P_rgetall 2 ''rF'' 1 1 1,
     command ''rexists'' P_rexists 3 ''rF'' 1 (- 1) 1,
     command ''qpush'' P_hqpush 4 ''wF'' 1 1 1,
     command ''qpop'' P_hqpop 2 ''wF'' 1 1 1,
     command ''qpopn'' P_hqpopn 3 ''wm'' 1 1 1,
     command ''qpeek'' P_hqpeek 2 ''rF'' 1 1 1,
     command ''qlen'' P_hqlen 2 ''rF'' 1 1 1,
     command ''dset'' P_dset 4 ''wm'' 1 1 1,
     command ''dget'' P_dget 3 ''rF'' 1 1 1,
     command ''ddel'' P_ddel 3 ''wF'' 1 1 1,
     command ''dsearch'' P_dsearch 3 ''rF'' 1 1 1,
     command ''dlen'' P_dlen 2 ''rF'' 1 1 1,
     command ''type'' P_type 2 ''rF'' 1 1 1,
     command ''ping'' P_ping (- 1) ''rtF'' 0 0 0,
     command ''echo'' P_echo 2 ''rF'' 0 0 0,
     command ''shutdown'' P_shutdown (- 1) ''arlt'' 0 0 0,
     command ''info'' P_info 0 ''ar'' 0 0 0]"

text \<open>The bit of a letter of \<^verbatim>\<open>sflags\<close>; any other letter ends the program.\<close>

definition flag_bit :: "char \<Rightarrow> u32 option" where
  "flag_bit f =
     map_of [(CHR ''w'', 1), (CHR ''r'', 2), (CHR ''m'', 4), (CHR ''a'', 16), (CHR ''p'', 32), (CHR ''s'', 64),
             (CHR ''R'', 128), (CHR ''S'', 256), (CHR ''l'', 512), (CHR ''t'', 1024), (CHR ''M'', 2048),
             (CHR ''k'', 4096), (CHR ''F'', 8192)] f"

fun add_flags :: "u32 \<Rightarrow> string \<Rightarrow> u32 result" where
  "add_flags w [] = Inr w"
| "add_flags w (f # fs) = (case flag_bit f of None \<Rightarrow> Inl Exited | Some b \<Rightarrow> add_flags (w OR b) fs)"

fun populate :: "nat \<Rightarrow> redisCommand list \<Rightarrow> (nat, callback) dict_t \<Rightarrow> (redisCommand list \<times> (nat, callback) dict_t) result" where
  "populate j [] d = Inr ([], d)"
| "populate j (c # cs) d =
     rbind (add_flags (cflags c) (sflags c)) (\<lambda>w.
       case dict_set d (name c) (Some j) of
         (d', retval, _) \<Rightarrow>
           if retval then rbind (populate (j + 1) cs d') (\<lambda>(cs', d''). Inr (c\<lparr>cflags := w\<rparr> # cs', d'')) else Inl AssertFail)"

definition populateCommandTable :: "(redisCommand list \<times> (nat, callback) dict_t) result" where
  "populateCommandTable = populate 0 redisCommandTable dict_create"

section \<open>The state of the server\<close>

record 'd server = "'d sctx" +
  cmem :: "cid \<Rightarrow> client option"
  next_cid :: cid
  clients :: "cid list"
  clients_to_close :: "cid list"
  wr_handlers :: "cid list"
  commands :: "(nat, callback) dict_t"
  cmd_table :: "redisCommand list"
  cmd :: "nat option"
  lastcmd :: "nat option"
  ncmd_complete :: int
  max_clients :: nat
  client_max_query_len :: nat
  served :: nat
  rejected :: nat
  hz :: int
  cronloops :: int
  stats_memory_usage :: nat
  shutdown :: bool
  wire :: "(cid \<times> string) list"

text \<open>
  What the program asks of its surroundings while it serves a command: reading and
  printing floating point numbers, arithmetic on them, the memory in use and in the
  machine, and how long the command took.
\<close>

record 'd env =
  fl :: "'d floats"
  dops :: "'d double_ops"
  print2 :: "'d \<Rightarrow> string"
  used_memory :: nat
  system_memory :: nat
  elapsed :: int

text \<open>A command on the keyspace, run inside the server.\<close>

definition on_sctx :: "'d cmd \<Rightarrow> 'd server \<Rightarrow> 'd server result" where
  "on_sctx f x = rbind (f (sctx.truncate x)) (\<lambda>y. Inr (sctx.extend y (sctx.more x)))"

section \<open>Administrative commands\<close>

definition wrong_arity :: "string \<Rightarrow> string" where
  "wrong_arity n = ''wrong number of arguments for '' @ [SQUOTE] @ n @ [SQUOTE] @ '' command''"

definition cmd_at :: "'d server \<Rightarrow> nat option \<Rightarrow> redisCommand result" where
  "cmd_at x p =
     (case p of None \<Rightarrow> Inl NullDeref
      | Some i \<Rightarrow> if i < length (cmd_table x) then Inr (cmd_table x ! i) else Inl OutOfBounds)"

definition rr_cmd_admin_ping :: "'d server \<Rightarrow> 'd server result" where
  "rr_cmd_admin_ping x =
     (if length (argv (cl x)) > 2
      then rbind (cmd_at x (cmd x)) (\<lambda>c. Inr (reply_add_err_format x (wrong_arity (name c))))
      else if length (argv (cl x)) = 1 then reply_add_obj x shared_pong
      else rbind (arg_obj x 1) (reply_add_bulk_obj x))"

definition rr_cmd_admin_echo :: "'d server \<Rightarrow> 'd server result" where
  "rr_cmd_admin_echo x = rbind (arg_obj x 1) (reply_add_bulk_obj x)"

text \<open>\<^verbatim>\<open>rr_server_prepare_to_shutdown\<close> removes the pid file, closes the socket and returns \<^verbatim>\<open>RR_OK\<close>.\<close>

definition rr_cmd_admin_shutdown :: "'d server \<Rightarrow> 'd server result" where
  "rr_cmd_admin_shutdown x = Inl Exited"

definition bytesToHuman :: "'d env \<Rightarrow> nat \<Rightarrow> string" where
  "bytesToHuman e n =
     (let by = (\<lambda>k. print2 e (div_d (dops e) (of_int_d (dops e) (int n)) (of_int_d (dops e) (1024 ^ k)))) in
      if n < 1024 then udec n @ ''B''
      else if n < 1024 ^ 2 then by 1 @ ''K''
      else if n < 1024 ^ 3 then by 2 @ ''M''
      else if n < 1024 ^ 4 then by 3 @ ''G''
      else if n < 1024 ^ 5 then by 4 @ ''T''
      else if n < 1024 ^ 6 then by 5 @ ''P''
      else udec n @ ''B'')"

definition rr_server_get_info :: "'d env \<Rightarrow> 'd server \<Rightarrow> string" where
  "rr_server_get_info e x =
     (let used_mem = used_memory e; system_mem = system_memory e;
          max_mem = (if max_memory x \<noteq> 0 then max_memory x else system_mem)
      in ''# Server'' @ CRLF @
         ''current_clients:'' @ udec (length (clients x)) @ CRLF @
         ''clients_served:'' @ udec (served x) @ CRLF @
         ''clients_rejected:'' @ udec (rejected x) @ CRLF @ CRLF @
         ''# Memory'' @ CRLF @
         ''used_memory:'' @ udec used_mem @ CRLF @
         ''used_memory_human:'' @ bytesToHuman e used_mem @ CRLF @
         ''system_memory:'' @ udec system_mem @ CRLF @
         ''system_memory_human:'' @ bytesToHuman e system_mem @ CRLF @
         ''max_memory:'' @ dec (to_ll (int max_mem)) @ CRLF @
         ''max_memory_human:'' @ bytesToHuman e max_mem @ CRLF)"

definition rr_cmd_admin_info :: "'d env \<Rightarrow> 'd server \<Rightarrow> 'd server result" where
  "rr_cmd_admin_info e x = reply_add_bulk_sds x (rr_server_get_info e x)"

section \<open>Running commands\<close>

definition run_proc :: "'d::linorder env \<Rightarrow> cmd_proc \<Rightarrow> 'd server \<Rightarrow> 'd server result" where
  "run_proc e p x =
     (case p of
        P_get \<Rightarrow> on_sctx rr_cmd_get x | P_len \<Rightarrow> on_sctx rr_cmd_len x | P_set \<Rightarrow> on_sctx rr_cmd_set x
      | P_del \<Rightarrow> on_sctx rr_cmd_del x | P_exists \<Rightarrow> on_sctx rr_cmd_exists x | P_type \<Rightarrow> on_sctx rr_cmd_type x
      | P_rget \<Rightarrow> on_sctx rr_cmd_rget x | P_rpget \<Rightarrow> on_sctx rr_cmd_rpget x | P_rlen \<Rightarrow> on_sctx rr_cmd_rlen x
      | P_rset \<Rightarrow> on_sctx rr_cmd_rset x | P_rdel \<Rightarrow> on_sctx rr_cmd_rdel x | P_rkeys \<Rightarrow> on_sctx rr_cmd_rkeys x
      | P_rvalues \<Rightarrow> on_sctx rr_cmd_rvalues x | P_rgetall \<Rightarrow> on_sctx rr_cmd_rgetall x
      | P_rexists \<Rightarrow> on_sctx rr_cmd_rexists x
      | P_hqpush \<Rightarrow> on_sctx (rr_cmd_hqpush (fl e)) x | P_hqpop \<Rightarrow> on_sctx rr_cmd_hqpop x
      | P_hqpopn \<Rightarrow> on_sctx rr_cmd_hqpopn x | P_hqpeek \<Rightarrow> on_sctx rr_cmd_hqpeek x | P_hqlen \<Rightarrow> on_sctx rr_cmd_hqlen x
      | P_dset \<Rightarrow> on_sctx rr_cmd_dset x | P_dget \<Rightarrow> on_sctx rr_cmd_dget x | P_ddel \<Rightarrow> on_sctx rr_cmd_ddel x
      | P_dsearch \<Rightarrow> on_sctx (rr_cmd_dsearch (dops e)) x | P_dlen \<Rightarrow> on_sctx rr_cmd_dlen x
      | P_ping \<Rightarrow> rr_cmd_admin_ping x | P_echo \<Rightarrow> rr_cmd_admin_echo x | P_shutdown \<Rightarrow> rr_cmd_admin_shutdown x
      | P_info \<Rightarrow> rr_cmd_admin_info e x)"

text \<open>\<^verbatim>\<open>cmd_lookup\<close> puts the name in lower case where it is, in the object of the argument.\<close>

definition cmd_lookup :: "'d server \<Rightarrow> (nat option \<times> 'd server) result" where
  "cmd_lookup x =
     rbind (argv_at x 0) (\<lambda>a. rbind (get_obj (store x) a) (\<lambda>r. rbind (ptr_sds r) (\<lambda>s.
       Inr (dict_get (commands x) (cstr (map tolower s)),
            x\<lparr>store := set_obj (store x) a (r\<lparr>ptr := PStr (map tolower s)\<rparr>)\<rparr>))))"

definition call :: "'d::linorder env \<Rightarrow> 'd server \<Rightarrow> 'd server result" where
  "call e x =
     rbind (cmd_at x (cmd x)) (\<lambda>c. rbind (run_proc e (proc c) x) (\<lambda>x.
     rbind (cmd_at x (lastcmd x)) (\<lambda>c.
       let c' = c\<lparr>microseconds := to_ll (microseconds c + elapsed e), calls := to_ll (calls c + 1)\<rparr>
       in Inr (x\<lparr>cmd_table := (cmd_table x)[the (lastcmd x) := c'], ncmd_complete := to_ll (ncmd_complete x + 1)\<rparr>))))"

definition unknown_command :: "string \<Rightarrow> string" where
  "unknown_command n = ''unknown command '' @ [SQUOTE] @ n @ [SQUOTE]"

text \<open>\<^verbatim>\<open>cmd_process\<close>: whether the client goes on (\<^verbatim>\<open>RR_OK\<close>).\<close>

definition cmd_process :: "'d::linorder env \<Rightarrow> 'd server \<Rightarrow> (bool \<times> 'd server) result" where
  "cmd_process e x =
     rbind (arg_key x 0) (\<lambda>n.
       if strcaseeq n ''quit''
       then rbind (reply_add_obj x shared_ok) (\<lambda>x.
              Inr (False, x\<lparr>cl := (cl x)\<lparr>flags := flags (cl x) OR CLIENT_CLOSE_AFTER_REPLY\<rparr>\<rparr>))
       else
         rbind (cmd_lookup x) (\<lambda>(p, x).
           let x = x\<lparr>cmd := p, lastcmd := p\<rparr> in
           case p of
             None \<Rightarrow> rbind (arg_key x 0) (\<lambda>n. Inr (True, reply_add_err_format x (unknown_command n)))
           | Some _ \<Rightarrow>
               rbind (cmd_at x p) (\<lambda>c.
                 if arity c > 0 \<and> arity c \<noteq> int (length (argv (cl x))) \<or> int (length (argv (cl x))) < - arity c
                 then Inr (True, reply_add_err_format x (wrong_arity (name c)))
                 else rbind (call e x) (\<lambda>x. Inr (True, x)))))"

definition free_client_argv :: "'d server \<Rightarrow> 'd server result" where
  "free_client_argv x =
     rbind (decr_all decrRefCount (store x) (argv (cl x))) (\<lambda>st.
       Inr (x\<lparr>store := st, cl := (cl x)\<lparr>argv := []\<rparr>, cmd := None\<rparr>))"

definition rr_client_reset :: "'d server \<Rightarrow> 'd server result" where
  "rr_client_reset x =
     free_client_argv (x\<lparr>cl := (cl x)\<lparr>req_type := REQ_NONE, multibulk_len := 0, bulk_len := - 1\<rparr>\<rparr>)"

section \<open>Serving what a client has sent\<close>

definition request_type :: "'d server \<Rightarrow> 'd server" where
  "request_type x =
     (if req_type (cl x) = REQ_NONE
      then x\<lparr>cl := (cl x)\<lparr>req_type := (if cget (query (cl x)) 0 = CHR ''*'' then PROTO_REQ_MULTIBULK else PROTO_REQ_INLINE)\<rparr>\<rparr>
      else x)"

definition read_request :: "'d server \<Rightarrow> (bool \<times> 'd server) result" where
  "read_request x =
     (case req_type (cl x) of
        PROTO_REQ_INLINE \<Rightarrow> Inr (process_inline_input x)
      | PROTO_REQ_MULTIBULK \<Rightarrow> process_multi_bulk_input x
      | REQ_NONE \<Rightarrow> Inl AssertFail)"

definition serve_request :: "'d::linorder env \<Rightarrow> 'd server \<Rightarrow> 'd server result" where
  "serve_request e x =
     (if argv (cl x) = [] then rr_client_reset x
      else rbind (cmd_process e x) (\<lambda>(ok, x). if ok then rr_client_reset x else Inr x))"

text \<open>\<open>None\<close> would be the value of a loop that never ends. The surroundings answer each command anew.\<close>

partial_function (option) process_user_input :: "(nat \<Rightarrow> 'd::linorder env) \<Rightarrow> 'd server \<Rightarrow> 'd server result option" where
  "process_user_input es x =
     (if query (cl x) = [] then Some (Inr x)
      else if has_flag (flags (cl x)) CLIENT_CLOSE_AFTER_REPLY then Some (Inr x)
      else
        case read_request (request_type x) of
          Inl f \<Rightarrow> Some (Inl f)
        | Inr (ok, x) \<Rightarrow>
            if \<not> ok then Some (Inr x)
            else
              (case serve_request (es 0) x of
                 Inl f \<Rightarrow> Some (Inl f)
               | Inr x \<Rightarrow> process_user_input (\<lambda>i. es (i + 1)) x))"

section \<open>Clients\<close>

text \<open>
  Running a handler on the client \<open>c\<close>: its structure is fetched, and put back unless
  the handler freed it.
\<close>

definition put_back :: "'d server \<Rightarrow> cid \<Rightarrow> 'd server" where
  "put_back x c = (if cmem x c = None then x else x\<lparr>cmem := (cmem x)(c \<mapsto> cl x)\<rparr>)"

definition with_client :: "'d server \<Rightarrow> cid \<Rightarrow> ('d server \<Rightarrow> 'd server result) \<Rightarrow> 'd server result" where
  "with_client x c f =
     (case cmem x c of
        None \<Rightarrow> Inl UseAfterFree
      | Some k \<Rightarrow> rbind (f (x\<lparr>cl := k\<rparr>)) (\<lambda>x. Inr (put_back x c)))"

text \<open>\<^verbatim>\<open>rr_client_create\<close>; \<open>ok\<close> is whether the event loop takes the socket.\<close>

definition rr_client_create :: "'d server \<Rightarrow> int \<Rightarrow> bool \<Rightarrow> cid option \<times> 'd server" where
  "rr_client_create x sock ok =
     (if sock \<noteq> - 1 \<and> \<not> ok then (None, x)
      else
        let c = next_cid x;
            k = \<lparr>cid = c, fd = sock, req_type = REQ_NONE, multibulk_len = 0, bulk_len = - 1, query = [], reply = [],
                 flags = 0, argv = [], replied_len = 0, buf_sent_len = 0, buf = []\<rparr>
        in (Some c, x\<lparr>cmem := (cmem x)(c \<mapsto> k), next_cid := c + 1,
                      clients := (if sock \<noteq> - 1 then clients x @ [c] else clients x)\<rparr>))"

definition unlink_client :: "'d server \<Rightarrow> 'd server result" where
  "unlink_client x =
     (if fd (cl x) = - 1 then Inr x
      else if cid (cl x) \<notin> set (clients x) then Inl AssertFail
      else Inr (x\<lparr>clients := remove1 (cid (cl x)) (clients x),
                  wr_handlers := filter (\<lambda>c. c \<noteq> cid (cl x)) (wr_handlers x),
                  cl := (cl x)\<lparr>fd := - 1\<rparr>\<rparr>))"

definition rr_client_free :: "'d server \<Rightarrow> 'd server result" where
  "rr_client_free x =
     rbind (unlink_client x) (\<lambda>x. rbind (free_client_argv x) (\<lambda>x.
       Inr (x\<lparr>cmem := (cmem x)(cid (cl x) := None)\<rparr>)))"

definition free_client_async :: "'d server \<Rightarrow> 'd server" where
  "free_client_async x =
     (if has_flag (flags (cl x)) CLIENT_CLOSE_ASAP then x
      else x\<lparr>cl := (cl x)\<lparr>flags := flags (cl x) OR CLIENT_CLOSE_ASAP\<rparr>,
             clients_to_close := clients_to_close x @ [cid (cl x)]\<rparr>)"

text \<open>\<^verbatim>\<open>handle_async_freed_clients\<close>; freeing a client does not change the list it goes through.\<close>

fun free_closing :: "cid list \<Rightarrow> 'd server \<Rightarrow> 'd server result" where
  "free_closing [] x = Inr (x\<lparr>clients_to_close := []\<rparr>)"
| "free_closing (c # cs) x =
     rbind (with_client x c (\<lambda>x. rr_client_free (x\<lparr>cl := (cl x)\<lparr>flags := flags (cl x) AND NOT CLIENT_CLOSE_ASAP\<rparr>\<rparr>)))
       (\<lambda>x. free_closing cs (x\<lparr>clients_to_close := cs\<rparr>))"

definition handle_async_freed_clients :: "'d server \<Rightarrow> 'd server result" where
  "handle_async_freed_clients x = free_closing (clients_to_close x) x"

text \<open>\<^verbatim>\<open>reply_write_to_client\<close>: whether the client is still there.\<close>

definition reply_write_to_client :: "(write_result \<times> nat) list \<Rightarrow> bool \<Rightarrow> 'd server \<Rightarrow> (bool \<times> 'd server) result" where
  "reply_write_to_client ws handler_installed x =
     (case reply_write_loop (max_memory x) ws (cl x) [] of
        (c, sent, failed) \<Rightarrow>
          let x = x\<lparr>cl := c, wire := wire x @ [(cid c, sent)]\<rparr> in
          if failed then rbind (rr_client_free x) (\<lambda>x. Inr (False, x))
          else if \<not> client_has_pending_replies c then
            let x = x\<lparr>cl := c\<lparr>buf_sent_len := 0\<rparr>,
                      wr_handlers := (if handler_installed then filter (\<lambda>i. i \<noteq> cid c) (wr_handlers x) else wr_handlers x)\<rparr>
            in if has_flag (flags c) CLIENT_CLOSE_AFTER_REPLY then rbind (rr_client_free x) (\<lambda>x. Inr (False, x))
               else Inr (True, x)
          else Inr (True, x))"

definition reply_write_callback :: "(write_result \<times> nat) list \<Rightarrow> 'd server \<Rightarrow> cid \<Rightarrow> 'd server result" where
  "reply_write_callback ws x c =
     with_client x c (\<lambda>x. rbind (reply_write_to_client ws True x) (\<lambda>(_, x). Inr x))"

text \<open>
  \<^verbatim>\<open>handle_clients_with_pending_writes\<close>: the surroundings say, for each client, what the
  socket takes and whether the event loop takes a handler for it.
\<close>

definition write_pending :: "(write_result \<times> nat) list \<times> bool \<Rightarrow> 'd server \<Rightarrow> 'd server result" where
  "write_pending w x =
     (let c = cl x;
          x = x\<lparr>cl := c\<lparr>flags := flags c AND NOT CLIENT_PENDING_WRITE\<rparr>, pending_writes := remove1 (cid c) (pending_writes x)\<rparr>
      in rbind (reply_write_to_client (fst w) False x) (\<lambda>(alive, x).
           if \<not> alive then Inr x
           else if client_has_pending_replies (cl x)
           then Inr (if snd w then x\<lparr>wr_handlers := List.insert (cid (cl x)) (wr_handlers x)\<rparr> else free_client_async x)
           else Inr x))"

fun write_all_pending :: "(cid \<Rightarrow> (write_result \<times> nat) list \<times> bool) \<Rightarrow> cid list \<Rightarrow> 'd server \<Rightarrow> 'd server result" where
  "write_all_pending ws [] x = Inr x"
| "write_all_pending ws (c # cs) x = rbind (with_client x c (write_pending (ws c))) (write_all_pending ws cs)"

definition handle_clients_with_pending_writes ::
  "(cid \<Rightarrow> (write_result \<times> nat) list \<times> bool) \<Rightarrow> 'd server \<Rightarrow> (nat \<times> 'd server) result" where
  "handle_clients_with_pending_writes ws x =
     rbind (write_all_pending ws (pending_writes x) x) (\<lambda>x'. Inr (length (pending_writes x), x'))"

section \<open>Events\<close>

text \<open>What \<^verbatim>\<open>read\<close> gives: bytes (none at the end of the stream), or an error.\<close>

datatype read_result = Read string | RAgain | RFail

text \<open>How many bytes are asked for: when a big argument is under way, not more than the rest of it.\<close>

definition read_len :: "client \<Rightarrow> int" where
  "read_len c =
     (if req_type c = PROTO_REQ_MULTIBULK \<and> multibulk_len c \<noteq> 0 \<and> bulk_len c \<noteq> - 1 \<and> bulk_len c \<ge> int PROTO_MBULK_BIG_ARG
      then let remaining = int32 (sub64 (nat ((bulk_len c + 2) mod 2 ^ 32)) (length (query c)))
           in if remaining < int PROTO_IOBUF_LEN then remaining else int PROTO_IOBUF_LEN
      else int PROTO_IOBUF_LEN)"

definition handle_read_from_client :: "(nat \<Rightarrow> 'd::linorder env) \<Rightarrow> read_result \<Rightarrow> 'd server \<Rightarrow> 'd server result option" where
  "handle_read_from_client es r x =
     (case r of
        RAgain \<Rightarrow> Some (Inr x)
      | RFail \<Rightarrow> Some (rr_client_free x)
      | Read s \<Rightarrow>
          if s = [] then Some (rr_client_free x)
          else
            let x = set_query x (query (cl x) @ s) in
            if length (query (cl x)) > client_max_query_len x then Some (rr_client_free x)
            else process_user_input es x)"

definition add_client :: "int \<Rightarrow> u32 \<Rightarrow> bool \<Rightarrow> 'd server \<Rightarrow> 'd server result" where
  "add_client sock fs ok x =
     (case rr_client_create x sock ok of
        (None, x) \<Rightarrow> Inr x
      | (Some c, x) \<Rightarrow>
          if length (clients x) > max_clients x
          then with_client (x\<lparr>wire := wire x @ [(c, ''-ERR max number of clients reached'' @ CRLF)],
                              rejected := add64 (rejected x) 1\<rparr>) c rr_client_free
          else with_client (x\<lparr>served := add64 (served x) 1\<rparr>) c
                 (\<lambda>x. Inr (x\<lparr>cl := (cl x)\<lparr>flags := flags (cl x) OR fs\<rparr>\<rparr>)))"

definition RR_NET_MAXACCEPT :: nat where "RR_NET_MAXACCEPT = 1000"

text \<open>
  \<^verbatim>\<open>handle_accept\<close>: the sockets \<^verbatim>\<open>accept\<close> returns until it fails, each with whether the
  event loop takes it; at most \<^verbatim>\<open>RR_NET_MAXACCEPT\<close> of them are taken in one go.
\<close>

fun accept_loop :: "nat \<Rightarrow> u32 \<Rightarrow> (int \<times> bool) list \<Rightarrow> 'd server \<Rightarrow> 'd server result" where
  "accept_loop 0 fs ss x = Inr x"
| "accept_loop (Suc n) fs [] x = Inr x"
| "accept_loop (Suc n) fs ((sock, ok) # ss) x = rbind (add_client sock fs ok x) (accept_loop n fs ss)"

definition handle_accept :: "(int \<times> bool) list \<Rightarrow> 'd server \<Rightarrow> 'd server result" where
  "handle_accept ss x = accept_loop RR_NET_MAXACCEPT 0 ss x"

definition handle_unix_domain_sock_accept :: "(int \<times> bool) list \<Rightarrow> 'd server \<Rightarrow> 'd server result" where
  "handle_unix_domain_sock_accept ss x = accept_loop RR_NET_MAXACCEPT CLIENT_UNIX_SOCKET ss x"

text \<open>\<^verbatim>\<open>server_cron\<close> returns the milliseconds until it is due again.\<close>

definition server_cron :: "'d env \<Rightarrow> 'd server \<Rightarrow> (int \<times> 'd server) result" where
  "server_cron e x =
     (if shutdown x then Inl Exited
      else
        rbind (handle_async_freed_clients x) (\<lambda>x.
          let x = x\<lparr>stats_memory_usage := used_memory e, cronloops := signed_take_bit 31 (cronloops x + 1)\<rparr> in
          if hz x = 0 then Inl DivByZero else Inr (sgn (hz x) * (1000 div \<bar>hz x\<bar>), x)))"

section \<open>Starting\<close>

definition SERVER_RESERVED_FDS :: nat where "SERVER_RESERVED_FDS = 32"

text \<open>
  The loop of \<^verbatim>\<open>rr_server_adjust_max_clients\<close> that looks for a limit the system grants,
  in steps of 16; \<open>grant\<close> is what \<^verbatim>\<open>setrlimit\<close> answers.
\<close>

function best_limit :: "(nat \<Rightarrow> bool) \<Rightarrow> nat \<Rightarrow> nat \<Rightarrow> nat" where
  "best_limit grant oldlimit bestlimit =
     (if bestlimit > oldlimit
      then if grant bestlimit then bestlimit
           else if bestlimit < 16 then bestlimit
           else best_limit grant oldlimit (bestlimit - 16)
      else bestlimit)"
  by pat_completeness auto
termination
  by (relation "measure (\<lambda>(_, _, b). b)") auto

declare best_limit.simps [simp del]

text \<open>
  \<^verbatim>\<open>rr_server_adjust_max_clients\<close>, given the limit \<^verbatim>\<open>getrlimit\<close> reports (or its failure) and
  the number of clients asked for, an \<^verbatim>\<open>unsigned int\<close>, as is the result.
\<close>

definition rr_server_adjust_max_clients :: "nat option \<Rightarrow> (nat \<Rightarrow> bool) \<Rightarrow> nat \<Rightarrow> nat result" where
  "rr_server_adjust_max_clients limit grant maxc =
     (let maxfiles = (maxc + SERVER_RESERVED_FDS) mod 2 ^ 32 in
      case limit of
        None \<Rightarrow> Inr (1024 - SERVER_RESERVED_FDS)
      | Some oldlimit \<Rightarrow>
          if oldlimit < maxfiles
          then let b = best_limit grant oldlimit maxfiles;
                   bestlimit = (if b < oldlimit then oldlimit else b)
               in if bestlimit < maxfiles
                  then let n = sub64 bestlimit SERVER_RESERVED_FDS mod 2 ^ 32 in if n < 1 then Inl Exited else Inr n
                  else Inr maxc
          else Inr maxc)"

text \<open>
  The state \<^verbatim>\<open>rr_server_init\<close> leaves behind, for a configuration whose sockets could be
  opened. No client is being served yet.
\<close>

definition no_client :: client where
  "no_client = \<lparr>cid = 0, fd = - 1, req_type = REQ_NONE, multibulk_len = 0, bulk_len = - 1, query = [], reply = [],
     flags = 0, argv = [], replied_len = 0, buf_sent_len = 0, buf = []\<rparr>"

definition rr_server_init :: "nat \<Rightarrow> nat \<Rightarrow> bool \<Rightarrow> int \<Rightarrow> 'd::linorder server result" where
  "rr_server_init max_mem maxc lazy freq =
     rbind populateCommandTable (\<lambda>(tbl, d).
       Inr \<lparr>cl = no_client, pending_writes = [], store = initial_store, db = rr_db_create,
            lazyfree_server_del = lazy, max_memory = max_mem, bgtasks = [],
            cmem = Map.empty, next_cid = 1, clients = [], clients_to_close = [], wr_handlers = [],
            commands = d, cmd_table = tbl, cmd = None, lastcmd = None, ncmd_complete = 0,
            max_clients = maxc, client_max_query_len = PROTO_QUERY_MAX_LEN, served = 0, rejected = 0,
            hz = freq, cronloops = 0, stats_memory_usage = 0, shutdown = False, wire = []\<rparr>)"

end
