(* ===== verification/Frame.thy ===== *)
theory Frame
  imports Server
begin

text \<open>
  What no command touches: the connection of its client (its number, socket, query
  buffer and parser state, and whether it is being closed) and the configuration.
  Every command of the table is shown to keep them; the loop that serves the requests
  of a client therefore ends.
\<close>

section \<open>The connection of a client\<close>

text \<open>The background queue belongs to it when lazy deletion is off: then nothing is handed to it.\<close>

definition conn :: "('d, 'z) sctx_scheme \<Rightarrow>
    (cid \<times> int \<times> req \<times> int \<times> int \<times> string \<times> u32) \<times> bool \<times> nat \<times> addr list \<times> 'z" where
  "conn x =
     ((cid (cl x), fd (cl x), req_type (cl x), multibulk_len (cl x), bulk_len (cl x), query (cl x),
       flags (cl x) AND NOT CLIENT_PENDING_WRITE),
      lazyfree_server_del x, max_memory x, if lazyfree_server_del x then [] else bgtasks x, sctx.more x)"

named_theorems conn_rules \<open>what keeps the connection of a client\<close>

lemma conn_updates [simp]:
  "conn (x\<lparr>store := st\<rparr>) = conn x" "conn (x\<lparr>db := d\<rparr>) = conn x" "conn (x\<lparr>db := d, store := st\<rparr>) = conn x"
  "conn (x\<lparr>pending_writes := p\<rparr>) = conn x" "conn (x\<lparr>cl := (cl x)\<lparr>argv := a\<rparr>\<rparr>) = conn x" "conn (set_arg x i b) = conn x"
  "conn (x\<lparr>store := st, cl := (cl x)\<lparr>argv := a\<rparr>\<rparr>) = conn x"
  by (simp_all add: conn_def set_arg_def)

lemma conn_put: "conn (x\<lparr>cl := put (cl x) s\<rparr>) = conn x"
  by (simp add: conn_def put_def add_reply_to_buffer_def add_reply_object_to_list_def Let_def)

lemma conn_prepare: "conn (snd (prepare_client_to_write x)) = conn x"
  by (simp add: conn_def prepare_client_to_write_def Let_def bit.conj_disj_distrib2)

lemma conn_send [simp]: "conn (send x s) = conn x"
  using conn_prepare [of x] by (cases "prepare_client_to_write x") (auto simp: send_def conn_put split: bool.split)

lemma conn_reply_simps [simp]:
  "conn (reply_add_str x s) = conn x" "conn (reply_add_sds x s) = conn x"
  "conn (reply_add_err_len x s) = conn x" "conn (reply_add_err x s) = conn x"
  "conn (reply_add_err_format x s) = conn x" "conn (reply_add_status x s) = conn x"
  by (simp_all add: reply_add_str_send reply_add_sds_send reply_add_err_len_def reply_add_err_def reply_add_err_format_def
      reply_add_status_def reply_add_status_len_def)

lemma conn_buffer: "add_reply_to_buffer (cl x) s = (b, c) \<Longrightarrow> conn (x\<lparr>cl := c\<rparr>) = conn x"
  by (auto simp: conn_def add_reply_to_buffer_def Let_def split: if_splits)

lemma conn_reply_obj [conn_rules]: "reply_add_obj x ob = Inr x' \<Longrightarrow> conn x' = conn x"
proof -
  assume r: "reply_add_obj x ob = Inr x'"
  obtain b y where p: "prepare_client_to_write x = (b, y)" by (cases "prepare_client_to_write x")
  have y: "conn y = conn x" using conn_prepare [of x] p by simp
  have "conn x' = conn y"
    using r p by (auto simp: reply_add_obj_def put_obj_str_put conn_put conn_put [of "y\<lparr>store := _\<rparr>", simplified] Let_def conn_buffer
        split: if_splits bool.splits prod.splits)
  then show ?thesis using y by simp
qed

lemma conn_reply [conn_rules]:
  "reply_add_longlong_with_prefix x ll pre = Inr x' \<Longrightarrow> conn x' = conn x"
  "reply_add_longlong x ll = Inr x' \<Longrightarrow> conn x' = conn x"
  "reply_add_multi_bulk_len x n = Inr x' \<Longrightarrow> conn x' = conn x"
  "reply_add_bulk_len x ob = Inr x' \<Longrightarrow> conn x' = conn x"
  "reply_add_bulk_obj x ob = Inr x' \<Longrightarrow> conn x' = conn x"
  "reply_add_bulk_cbuf x s = Inr x' \<Longrightarrow> conn x' = conn x"
  "reply_add_bulk_cstr x t = Inr x' \<Longrightarrow> conn x' = conn x"
  "reply_add_bulk_sds x s = Inr x' \<Longrightarrow> conn x' = conn x"
proof -
  show pre: "reply_add_longlong_with_prefix x ll pre = Inr x' \<Longrightarrow> conn x' = conn x" for x :: "('d, 'z) sctx_scheme" and ll pre x'
    by (auto simp: reply_add_longlong_with_prefix_def split: if_splits dest: conn_reply_obj)
  show "reply_add_longlong x ll = Inr x' \<Longrightarrow> conn x' = conn x" by (simp add: reply_add_longlong_def pre)
  show "reply_add_multi_bulk_len x n = Inr x' \<Longrightarrow> conn x' = conn x"
    by (auto simp: reply_add_multi_bulk_len_def split: if_splits dest: conn_reply_obj pre)
  show len: "reply_add_bulk_len x ob = Inr x' \<Longrightarrow> conn x' = conn x" for x :: "('d, 'z) sctx_scheme" and ob x'
    by (auto simp: reply_add_bulk_len_def split: if_splits dest: conn_reply_obj pre)
  show "reply_add_bulk_obj x ob = Inr x' \<Longrightarrow> conn x' = conn x"
    by (auto simp: reply_add_bulk_obj_def dest!: conn_reply_obj len)
  show cbuf: "reply_add_bulk_cbuf x s = Inr x' \<Longrightarrow> conn x' = conn x" for x :: "('d, 'z) sctx_scheme" and s x'
    by (auto simp: reply_add_bulk_cbuf_def dest!: conn_reply_obj pre)
  show "reply_add_bulk_cstr x t = Inr x' \<Longrightarrow> conn x' = conn x"
    by (auto simp: reply_add_bulk_cstr_def split: option.splits dest: conn_reply_obj cbuf)
  show "reply_add_bulk_sds x s = Inr x' \<Longrightarrow> conn x' = conn x"
    by (auto simp: reply_add_bulk_sds_def dest!: conn_reply_obj)
qed

section \<open>Operations on the keyspace\<close>

lemma conn_db [conn_rules]:
  "rr_db_lookup_or_reply x k rep = Inr (p, x') \<Longrightarrow> conn x' = conn x"
  "rr_db_add x k v = Inr (ok, x') \<Longrightarrow> conn x' = conn x"
  "rr_db_del x k = Inr (ok, x') \<Longrightarrow> conn x' = conn x"
  "rr_db_set_key x k a = Inr (ok, x') \<Longrightarrow> conn x' = conn x"
  "checkType x a ty = Inr (ok, x') \<Longrightarrow> conn x' = conn x"
proof -
  show "rr_db_lookup_or_reply x k rep = Inr (p, x') \<Longrightarrow> conn x' = conn x"
    by (auto simp: rr_db_lookup_or_reply_def split: option.splits dest: conn_rules)
  show add: "rr_db_add x k v = Inr (ok, x') \<Longrightarrow> conn x' = conn x" for x :: "('d, 'z) sctx_scheme" and k v ok x'
    by (auto simp: rr_db_add_def split: prod.splits)
  show "rr_db_del x k = Inr (ok, x') \<Longrightarrow> conn x' = conn x"
    by (auto simp: rr_db_del_def rr_db_del_async_def rr_db_del_sync_def conn_def split: if_splits prod.splits option.splits)
  show "rr_db_set_key x k a = Inr (ok, x') \<Longrightarrow> conn x' = conn x"
    by (auto simp: rr_db_set_key_def split: if_splits dest!: add)
  show "checkType x a ty = Inr (ok, x') \<Longrightarrow> conn x' = conn x"
    by (auto simp: checkType_def split: if_splits dest: conn_rules)
qed

lemma conn_create [conn_rules]: "rr_db_lookup_or_create x k ty = Inr (p, x') \<Longrightarrow> conn x' = conn x"
  by (auto simp: rr_db_lookup_or_create_def split: option.splits prod.splits dest!: conn_db(2))

lemma conn_containers [conn_rules]:
  "put_trie x a d = Inr x' \<Longrightarrow> conn x' = conn x" "put_heap x a h = Inr x' \<Longrightarrow> conn x' = conn x"
  "put_fts x a f = Inr x' \<Longrightarrow> conn x' = conn x"
  by (auto simp: put_trie_def put_heap_def put_fts_def)

lemma conn_numbers [conn_rules]:
  "getDoubleFromObjectOrReply fp x r msg = Inr (v, x') \<Longrightarrow> conn x' = conn x"
  "getLongFromObjectOrReply x r msg = Inr (n, x') \<Longrightarrow> conn x' = conn x"
  by (auto simp: getDoubleFromObjectOrReply_def getLongFromObjectOrReply_def getLongLongFromObjectOrReply_def
      split: option.splits if_splits)

section \<open>Commands\<close>

lemma conn_with_typed:
  assumes "with_typed x ty body = Inr x'" and "\<And>y a y'. body y a = Inr y' \<Longrightarrow> conn y' = conn y"
  shows "conn x' = conn x"
  using assms(1) by (auto simp: with_typed_def split: option.splits if_splits dest!: conn_rules assms(2))

lemma conn_strings:
  "rr_cmd_get x = Inr x' \<Longrightarrow> conn x' = conn x" "rr_cmd_set x = Inr x' \<Longrightarrow> conn x' = conn x"
  "rr_cmd_len x = Inr x' \<Longrightarrow> conn x' = conn x" "rr_cmd_exists x = Inr x' \<Longrightarrow> conn x' = conn x"
  "rr_cmd_del x = Inr x' \<Longrightarrow> conn x' = conn x" "rr_cmd_type x = Inr x' \<Longrightarrow> conn x' = conn x"
proof -
  show "rr_cmd_get x = Inr x' \<Longrightarrow> conn x' = conn x"
    by (auto simp: rr_cmd_get_def split: option.splits if_splits dest: conn_rules)
  show "rr_cmd_set x = Inr x' \<Longrightarrow> conn x' = conn x"
    by (auto simp: rr_cmd_set_def Let_def split: if_splits dest!: conn_rules)
  show "rr_cmd_len x = Inr x' \<Longrightarrow> conn x' = conn x" "rr_cmd_exists x = Inr x' \<Longrightarrow> conn x' = conn x"
    by (auto simp: rr_cmd_len_def rr_cmd_exists_def dest: conn_rules)
  show "rr_cmd_del x = Inr x' \<Longrightarrow> conn x' = conn x" by (auto simp: rr_cmd_del_def dest!: conn_rules)
  show "rr_cmd_type x = Inr x' \<Longrightarrow> conn x' = conn x" by (auto simp: rr_cmd_type_def split: option.splits)
qed

lemma conn_tries_read:
  "rr_cmd_rget x = Inr x' \<Longrightarrow> conn x' = conn x" "rr_cmd_rexists x = Inr x' \<Longrightarrow> conn x' = conn x"
  "rr_cmd_rlen x = Inr x' \<Longrightarrow> conn x' = conn x" "rr_cmd_rdel x = Inr x' \<Longrightarrow> conn x' = conn x"
  unfolding rr_cmd_rget_def rr_cmd_rexists_def rr_cmd_rlen_def rr_cmd_rdel_def
  by (erule conn_with_typed, auto simp: case_prod_unfold split: option.split_asm dest!: conn_rules)+

lemma conn_rset:
  assumes "rr_cmd_rset x = Inr x'"
  shows "conn x' = conn x"
proof -
  obtain k p y where y: "arg_key x 1 = Inr k" "rr_db_lookup_or_create x k OBJ_HASH = Inr (p, y)"
    using assms by (auto simp: rr_cmd_rset_def)
  have "conn x' = conn y"
  proof (cases p)
    case (Some a)
    obtain bad z where z: "checkType y a OBJ_HASH = Inr (bad, z)"
      using assms y Some by (auto simp: rr_cmd_rset_def)
    have "conn x' = conn z"
    proof (cases bad)
      case False
      obtain a3 v st where v: "argv_at z 3 = Inr a3" "tryObjectEncoding (max_memory z) (store z) a3 = Inr (v, st)"
        using assms y z Some False by (auto simp: rr_cmd_rset_def)
      define w where "w = set_arg (z\<lparr>store := st\<rparr>) 3 v"
      obtain d key where d: "trie_of w a = Inr d" "arg_key w 2 = Inr key"
        using assms y z Some False v by (auto simp: rr_cmd_rset_def w_def Let_def)
      obtain d' ok freed where ds: "dict_set d key (Some v) = (d', ok, freed)" by (cases "dict_set d key (Some v)")
      have "conn x' = conn w"
        using assms y z Some False v d ds unfolding rr_cmd_rset_def
        by (auto simp: w_def Let_def split: if_split_asm dest!: conn_rules)
      then show ?thesis by (simp add: w_def)
    qed (use assms y z Some in \<open>simp add: rr_cmd_rset_def\<close>)
    then show ?thesis using conn_db(5) [OF z] by simp
  qed (use assms y in \<open>simp add: rr_cmd_rset_def\<close>)
  then show ?thesis using conn_create [OF y(2)] by simp
qed

lemma conn_reply_entries: "reply_entries k v x kvs = Inr x' \<Longrightarrow> conn x' = conn x"
  by (induction kvs arbitrary: x) (fastforce split: if_split_asm dest: conn_rules)+

lemma conn_reply_kvs: "reply_kvs k v x it = Inr x' \<Longrightarrow> conn x' = conn x"
  by (auto simp: reply_kvs_def Let_def dest!: conn_reply_entries conn_rules)

lemma conn_tries_list:
  "rr_cmd_rpget x = Inr x' \<Longrightarrow> conn x' = conn x" "rr_cmd_rkeys x = Inr x' \<Longrightarrow> conn x' = conn x"
  "rr_cmd_rvalues x = Inr x' \<Longrightarrow> conn x' = conn x" "rr_cmd_rgetall x = Inr x' \<Longrightarrow> conn x' = conn x"
  unfolding rr_cmd_rpget_def rr_cmd_rkeys_def rr_cmd_rvalues_def rr_cmd_rgetall_def cmd_get_prefix_def get_all_def
  by (erule conn_with_typed, auto dest!: conn_reply_kvs)+

lemma conn_send_item: "send_item x item = Inr x' \<Longrightarrow> conn x' = conn x"
  by (auto simp: send_item_def dest!: conn_rules)

lemma conn_heaps_read:
  "rr_cmd_hqpop x = Inr x' \<Longrightarrow> conn x' = conn x" "rr_cmd_hqpeek x = Inr x' \<Longrightarrow> conn x' = conn x"
  "rr_cmd_hqlen x = Inr x' \<Longrightarrow> conn x' = conn x"
  unfolding rr_cmd_hqpop_def rr_cmd_hqpeek_def rr_cmd_hqlen_def
  by (erule conn_with_typed, auto split: option.split_asm dest!: conn_send_item conn_rules)+

lemma conn_hqpush: "rr_cmd_hqpush fp x = Inr x' \<Longrightarrow> conn x' = conn x"
  by (auto simp: rr_cmd_hqpush_def Let_def split: option.split_asm if_split_asm dest!: conn_rules)

lemma conn_popn_loop: "popn_loop n x a = Inr x' \<Longrightarrow> conn x' = conn x"
  by (induction n arbitrary: x) (fastforce split: option.split_asm dest: conn_send_item conn_rules)+

lemma conn_hqpopn:
  assumes "rr_cmd_hqpopn x = Inr x'"
  shows "conn x' = conn x"
proof -
  obtain r2 v y where y: "arg_obj x 2 = Inr r2" "getLongFromObjectOrReply x r2 None = Inr (v, y)"
    using assms by (auto simp: rr_cmd_hqpopn_def)
  have "conn x' = conn y"
  proof (cases v)
    case (Some n)
    show ?thesis
    proof (cases "n < 0")
      case False
      with assms Some y show ?thesis
        unfolding rr_cmd_hqpopn_def
        by (simp add: Let_def) (erule conn_with_typed, auto dest!: conn_popn_loop conn_rules)
    qed (use assms Some y in \<open>auto simp: rr_cmd_hqpopn_def\<close>)
  qed (use assms y in \<open>simp add: rr_cmd_hqpopn_def\<close>)
  then show ?thesis using conn_numbers(2) [OF y(2)] by simp
qed

lemma conn_send_found: "send_found n x f h = Inr x' \<Longrightarrow> conn x' = conn x"
  by (induction n arbitrary: x h) (fastforce split: option.split_asm dest: conn_rules)+

lemma conn_fts:
  "rr_cmd_dget x = Inr x' \<Longrightarrow> conn x' = conn x" "rr_cmd_dsearch dp x = Inr x' \<Longrightarrow> conn x' = conn x"
  "rr_cmd_dlen x = Inr x' \<Longrightarrow> conn x' = conn x" "rr_cmd_ddel x = Inr x' \<Longrightarrow> conn x' = conn x"
  unfolding rr_cmd_dget_def rr_cmd_dsearch_def rr_cmd_dlen_def rr_cmd_ddel_def
  by (erule conn_with_typed, auto split: option.split_asm dest!: conn_send_found conn_rules)+

lemma conn_dset: "rr_cmd_dset x = Inr x' \<Longrightarrow> conn x' = conn x"
  by (auto simp: rr_cmd_dset_def Let_def split: option.split_asm if_split_asm dest!: conn_rules)

section \<open>The dispatcher\<close>

lemma conn_on_sctx:
  assumes "on_sctx f x = Inr x'" and "\<And>y y'. f y = Inr y' \<Longrightarrow> conn y' = conn y"
  shows "conn x' = conn x"
proof -
  obtain y where y: "f (sctx.truncate x) = Inr y" and x': "x' = sctx.extend y (sctx.more x)"
    using assms(1) by (auto simp: on_sctx_def)
  have "conn y = conn (sctx.truncate x)" by (rule assms(2) [OF y])
  then show ?thesis by (auto simp: x' conn_def sctx.truncate_def sctx.extend_def split: if_split_asm)
qed

lemmas conn_keyspace_cmds = conn_strings conn_tries_read conn_rset conn_tries_list conn_heaps_read conn_hqpush conn_hqpopn
  conn_fts conn_dset

lemma conn_run_proc:
  assumes "run_proc e p x = Inr x'"
  shows "conn x' = conn x"
proof (cases p)
  case P_ping
  then show ?thesis using assms
    by (auto simp: run_proc_def rr_cmd_admin_ping_def split: if_split_asm dest!: conn_rules)
next
  case P_echo
  then show ?thesis using assms by (auto simp: run_proc_def rr_cmd_admin_echo_def dest: conn_rules)
next
  case P_info
  then show ?thesis using assms by (auto simp: run_proc_def rr_cmd_admin_info_def dest: conn_rules)
next
  case P_shutdown
  then show ?thesis using assms by (simp add: run_proc_def rr_cmd_admin_shutdown_def)
qed (use assms in \<open>simp add: run_proc_def; elim conn_on_sctx conn_keyspace_cmds\<close>)+

lemma conn_call: "call e x = Inr x' \<Longrightarrow> fst (conn x') = fst (conn x)"
  by (auto simp: call_def Let_def conn_def dest!: conn_run_proc)

text \<open>What a command leaves of its client; \<^verbatim>\<open>QUIT\<close> alone sets a flag.\<close>

lemma conn_cmd_process:
  assumes "cmd_process e x = Inr (ok, x')"
  shows "query (cl x') = query (cl x)" and "bulk_len (cl x') = bulk_len (cl x)"
    and "multibulk_len (cl x') = multibulk_len (cl x)" and "ok \<Longrightarrow> fst (conn x') = fst (conn x)"
proof -
  obtain n where n: "arg_key x 0 = Inr n" using assms by (auto simp: cmd_process_def)
  have "fst (conn x') = fst (conn x) \<or> (\<exists>y w. conn y = conn x \<and> \<not> ok \<and> x' = y\<lparr>cl := (cl y)\<lparr>flags := w\<rparr>\<rparr>)"
  proof (cases "strcaseeq n ''quit''")
    case True
    then obtain y where "reply_add_obj x shared_ok = Inr y" "\<not> ok"
      "x' = y\<lparr>cl := (cl y)\<lparr>flags := flags (cl y) OR CLIENT_CLOSE_AFTER_REPLY\<rparr>\<rparr>"
      using assms n by (auto simp: cmd_process_def)
    then show ?thesis using conn_reply_obj by blast
  next
    case False
    obtain p y where l: "cmd_lookup x = Inr (p, y)" using assms n False by (auto simp: cmd_process_def)
    define z where "z = y\<lparr>cmd := p, lastcmd := p\<rparr>"
    have z: "fst (conn z) = fst (conn x)" using l by (auto simp: cmd_lookup_def z_def conn_def)
    show ?thesis
    proof (cases p)
      case None
      then have "conn x' = conn z" using assms n False l by (auto simp: cmd_process_def z_def Let_def)
      then show ?thesis using z by simp
    next
      case (Some i)
      then have "conn x' = conn z \<or> fst (conn x') = fst (conn z)"
        using assms n False l by (auto simp: cmd_process_def z_def Let_def split: if_split_asm dest!: conn_call)
      then show ?thesis using z by auto
    qed
  qed
  then show "query (cl x') = query (cl x)" "bulk_len (cl x') = bulk_len (cl x)"
    "multibulk_len (cl x') = multibulk_len (cl x)" "ok \<Longrightarrow> fst (conn x') = fst (conn x)"
    by (auto simp: conn_def)
qed

lemma reset_client:
  assumes "rr_client_reset x = Inr x'"
  shows "query (cl x') = query (cl x)" and "bulk_len (cl x') = - 1" and "multibulk_len (cl x') = 0"
    and "req_type (cl x') = REQ_NONE" and "argv (cl x') = []"
  using assms by (auto simp: rr_client_reset_def free_client_argv_def)

section \<open>The parsers make progress\<close>

text \<open>
  The state of the parser between events: the length of an argument is one it accepted,
  and the buffer is shorter than an \<^verbatim>\<open>int\<close> can say (\<^verbatim>\<open>handle_read_from_client\<close> closes the
  connection long before).
\<close>

definition parser_ok :: "client \<Rightarrow> bool" where
  "parser_ok c \<longleftrightarrow>
     (bulk_len c = - 1 \<or> 0 \<le> bulk_len c \<and> bulk_len c \<le> 512 * 1024 * 1024) \<and> 0 \<le> multibulk_len c \<and>
     length (query c) < 2 ^ 31"

lemma strchr_at_lt: "strchr_at s c = Some i \<Longrightarrow> i < length s"
  by (induction s arbitrary: i) (auto split: if_splits)

lemma parse_replies [simp]:
  fixes x :: "('d, 'z) sctx_scheme"
  shows "query (cl (reply_add_err x s)) = query (cl x)" "bulk_len (cl (reply_add_err x s)) = bulk_len (cl x)"
  "multibulk_len (cl (reply_add_err x s)) = multibulk_len (cl x)"
  "query (cl (reply_add_err_format x s)) = query (cl x)" "bulk_len (cl (reply_add_err_format x s)) = bulk_len (cl x)"
  "multibulk_len (cl (reply_add_err_format x s)) = multibulk_len (cl x)"
  using conn_reply_simps(4,5) [of x s] by (simp_all add: conn_def)

lemma parser_ok_error:
  assumes "parser_ok (cl x)" and "query (cl y) = query (cl x)" "bulk_len (cl y) = bulk_len (cl x)"
    "multibulk_len (cl y) = multibulk_len (cl x)"
  shows "parser_ok (cl (set_protocol_error y off))"
  using assms by (auto simp: parser_ok_def set_protocol_error_def trim_query_drop)

lemma read_bulk_len_shrinks:
  assumes "read_bulk_len off x = (f, off', x')" and "parser_ok (cl x)" and "off \<le> length (query (cl x))"
  shows "parser_ok (cl x') \<and> (f \<noteq> Return \<longrightarrow> off' \<le> length (query (cl x')) \<and>
      length (query (cl x')) \<le> length (query (cl x)) \<and>
      length (query (cl x')) - off' \<le> length (query (cl x)) - off \<and> multibulk_len (cl x') = multibulk_len (cl x) \<and>
      (f = Next \<longrightarrow> bulk_len (cl x') \<noteq> - 1))"
proof (cases "bulk_len (cl x) \<noteq> - 1 \<or> strchr_at (drop off (query (cl x))) CR = None")
  case True
  then show ?thesis using assms by (auto simp: read_bulk_len_def Let_def parser_ok_error split: if_split_asm option.split_asm)
next
  case False
  let ?q = "query (cl x)"
  obtain d where d: "bulk_len (cl x) = - 1" "strchr_at (drop off ?q) CR = Some d" using False by auto
  have i32: "int32 (length ?q) = int (length ?q)" using assms(2) by (simp add: parser_ok_def)
  show ?thesis
  proof (cases "int (off + d) > int32 (length ?q) - 2 \<or> cget ?q off \<noteq> CHR ''$'' \<or>
      string2ll (take (d - 1) (drop (off + 1) ?q)) = None")
    case True
    then show ?thesis using assms d by (auto simp: read_bulk_len_def Let_def parser_ok_error split: if_split_asm option.split_asm)
  next
    case False
    then obtain ll where ll: "string2ll (take (d - 1) (drop (off + 1) ?q)) = Some ll" "cget ?q off = CHR ''$''"
      "off + d + 2 \<le> length ?q"
      using i32 by auto
    have go: "\<not> int (off + d) > int32 (length ?q) - 2" using ll(3) i32 by simp
    show ?thesis
    proof (cases "ll < 0 \<or> ll > 512 * 1024 * 1024")
      case True
      have "read_bulk_len off x = (Return, off, set_protocol_error (reply_add_err x ''Protocol error: invalid bulk length'') off)"
        unfolding read_bulk_len_def Let_def d ll option.case using go True by simp
      then show ?thesis using assms(1,2) by (simp add: parser_ok_error)
    next
      case False
      then have "read_bulk_len off x =
         (if ll \<ge> int PROTO_MBULK_BIG_ARG then (Next, 0, trim_query (x\<lparr>cl := (cl x)\<lparr>bulk_len := ll\<rparr>\<rparr>) (off + d + 2))
          else (Next, off + d + 2, x\<lparr>cl := (cl x)\<lparr>bulk_len := ll\<rparr>\<rparr>))"
        unfolding read_bulk_len_def Let_def d ll option.case using go by simp
      then show ?thesis using assms(1,2) False ll(3) by (auto simp: trim_query_drop parser_ok_def split: if_split_asm)
    qed
  qed
qed

lemma read_bulk_shrinks:
  assumes "read_bulk off x = (f, off', x')" and "parser_ok (cl x)" and "off \<le> length (query (cl x))"
    and "bulk_len (cl x) \<noteq> - 1" and "0 < multibulk_len (cl x)"
  shows "parser_ok (cl x') \<and> off' \<le> length (query (cl x')) \<and> length (query (cl x')) \<le> length (query (cl x)) \<and>
      length (query (cl x')) - off' \<le> length (query (cl x)) - off \<and>
      (f = Next \<longrightarrow> length (query (cl x')) - off' < length (query (cl x)) - off \<and>
         multibulk_len (cl x') = multibulk_len (cl x) - 1)"
proof -
  let ?q = "query (cl x)" and ?l = "bulk_len (cl x)"
  have l: "0 \<le> ?l" "?l \<le> 512 * 1024 * 1024" and q: "length ?q < 2 ^ 31" using assms(2,4) by (auto simp: parser_ok_def)
  have need: "nat ((?l + 2) mod 4294967296) = nat ?l + 2" using l by (simp add: nat_add_distrib)
  have avail: "sub64 (length ?q) off = length ?q - off" using assms(3) q by simp
  have i32: "int32 (length ?q) = int (length ?q)" using q by simp
  have ml: "0 \<le> multibulk_len (cl x) - 1" using assms(5) by simp
  show ?thesis
  proof (cases "length ?q - off < nat ?l + 2")
    case True
    then show ?thesis using assms(1,2,3) by (auto simp: read_bulk_def Let_def need avail)
  next
    case False
    then have "off + nat (?l + 2) \<le> length ?q" "0 < nat (?l + 2)" using l by auto
    then show ?thesis using assms(1) False l q ml
      by (auto simp: read_bulk_def Let_def need avail i32 push_raw_def push_arg_def parser_ok_def split: if_split_asm)
  qed
qed

lemma mbulk_loop_shrinks:
  assumes "mbulk_loop off x = (ret, off', x')" and "parser_ok (cl x)" and "off \<le> length (query (cl x))"
  shows "parser_ok (cl x') \<and> (\<not> ret \<longrightarrow> off' \<le> length (query (cl x')) \<and>
    length (query (cl x')) - off' \<le> length (query (cl x)) - off \<and>
    (0 < multibulk_len (cl x) \<longrightarrow> multibulk_len (cl x') = 0 \<longrightarrow> length (query (cl x')) - off' < length (query (cl x)) - off))"
  using assms
proof (induction off x rule: mbulk_loop.induct)
  case (1 off x)
  show ?case
  proof (cases "multibulk_len (cl x) \<le> 0")
    case True
    then show ?thesis using 1 by (auto simp: mbulk_loop.simps [of off x])
  next
    case False
    obtain f p y where y: "read_bulk_len off x = (f, p, y)" by (cases "read_bulk_len off x")
    note sy = read_bulk_len_shrinks [OF y "1.prems"(2,3)]
    show ?thesis
    proof (cases f)
      case Break
      then show ?thesis using 1 False y sy by (auto simp: mbulk_loop.simps [of off x])
    next
      case Return
      then show ?thesis using 1 False y sy by (auto simp: mbulk_loop.simps [of off x])
    next
      case Next
      obtain g p' z where z: "read_bulk p y = (g, p', z)" by (cases "read_bulk p y")
      have "0 < multibulk_len (cl y)" using sy Next False by simp
      note sz = read_bulk_shrinks [OF z _ _ _ this]
      show ?thesis
      proof (cases "g = Next")
        case True
        then have "mbulk_loop p' z = (ret, off', x')"
          using "1.prems"(1) False y z Next by (simp add: mbulk_loop.simps [of off x])
        moreover have "parser_ok (cl z)" "p' \<le> length (query (cl z))" using sz sy Next by auto
        ultimately show ?thesis
          using "1.IH" [OF False y [symmetric] _ _ z [symmetric]] sz sy Next True by fastforce
      next
        case other: False
        then have "x' = z" "off' = p'" using "1.prems"(1) False y z Next by (auto simp: mbulk_loop.simps [of off x] split: flow.splits)
        then show ?thesis using sz sy Next False other y z "1.prems"(1) by (cases g) (auto simp: read_bulk_def Let_def split: if_split_asm)
      qed
    qed
  qed
qed

lemma mbulk_header_shrinks:
  assumes "mbulk_header x = Inr (ret, off, x')" and "parser_ok (cl x)" and "query (cl x) \<noteq> []"
  shows "parser_ok (cl x')" and "ret = None \<Longrightarrow> off \<le> length (query (cl x')) \<and> length (query (cl x')) = length (query (cl x))"
    and "ret = Some True \<Longrightarrow> length (query (cl x')) < length (query (cl x))"
proof -
  let ?q = "query (cl x)"
  have i32: "int32 (length ?q) = int (length ?q)" using assms(2) by (simp add: parser_ok_def)
  have "parser_ok (cl x') \<and> (ret = None \<longrightarrow> off \<le> length (query (cl x')) \<and> length (query (cl x')) = length ?q) \<and>
    (ret = Some True \<longrightarrow> length (query (cl x')) < length ?q)"
  proof (cases "multibulk_len (cl x) \<noteq> 0 \<or> strchr_at ?q CR = None")
    case True
    then show ?thesis using assms by (auto simp: mbulk_header_def Let_def parser_ok_error split: if_split_asm option.split_asm)
  next
    case False
    then obtain d where d: "multibulk_len (cl x) = 0" "strchr_at ?q CR = Some d" by auto
    show ?thesis
    proof (cases "(if d = 0 then None else string2ll (take (d - 1) (drop 1 ?q)))")
      case None
      then show ?thesis using assms d
        by (auto simp: mbulk_header_def Let_def parser_ok_error simp del: string2ll_def split: if_split_asm)
    next
      case (Some ll)
      have ok: "parser_ok ((cl x)\<lparr>query := drop n ?q\<rparr>)" "0 \<le> ll \<Longrightarrow> parser_ok ((cl x)\<lparr>multibulk_len := ll\<rparr>)" for n
        using assms(2) by (auto simp: parser_ok_def)
      have "cl (trim_query x n) = (cl x)\<lparr>query := drop n ?q\<rparr>" for n by (simp add: trim_query_drop set_query_def)
      then show ?thesis using assms(1,2,3) d Some i32 ok
        by (auto simp: mbulk_header_def Let_def parser_ok_error split: if_split_asm)
    qed
  qed
  then show "parser_ok (cl x')" "ret = None \<Longrightarrow> off \<le> length (query (cl x')) \<and> length (query (cl x')) = length ?q"
    "ret = Some True \<Longrightarrow> length (query (cl x')) < length ?q" by auto
qed

lemma process_multi_bulk_shrinks:
  assumes "process_multi_bulk_input x = Inr (ok, x')" and "parser_ok (cl x)" and "query (cl x) \<noteq> []"
  shows "parser_ok (cl x')" and "ok \<Longrightarrow> length (query (cl x')) < length (query (cl x))"
proof -
  obtain ret off y where y: "mbulk_header x = Inr (ret, off, y)"
    using assms(1) by (auto simp: process_multi_bulk_input_def)
  note sy = mbulk_header_shrinks [OF y assms(2,3)]
  have "parser_ok (cl x') \<and> (ok \<longrightarrow> length (query (cl x')) < length (query (cl x)))"
  proof (cases ret)
    case (Some b)
    then show ?thesis using assms(1) y sy by (auto simp: process_multi_bulk_input_def)
  next
    case None
    obtain r off' z where z: "mbulk_loop off y = (r, off', z)" by (cases "mbulk_loop off y")
    have pos: "0 < multibulk_len (cl y)" using assms(1) y None z by (auto simp: process_multi_bulk_input_def split: if_split_asm)
    note sz = mbulk_loop_shrinks [OF z sy(1)]
    show ?thesis
    proof (cases r)
      case True
      then show ?thesis using assms(1) y None z sz sy(2) pos by (auto simp: process_multi_bulk_input_def)
    next
      case False
      define w where "w = (if off' \<noteq> 0 then trim_query z off' else z)"
      have "x' = w" "ok = (multibulk_len (cl w) = 0)"
        using assms(1) y None z False pos by (auto simp: process_multi_bulk_input_def w_def Let_def)
      moreover have "parser_ok (cl w)" "length (query (cl w)) = length (query (cl z)) - off'" "multibulk_len (cl w) = multibulk_len (cl z)"
        using sz sy(2) None by (auto simp: w_def trim_query_drop parser_ok_def)
      ultimately show ?thesis using sz sy(2) None pos False by auto
    qed
  qed
  then show "parser_ok (cl x')" "ok \<Longrightarrow> length (query (cl x')) < length (query (cl x))" by auto
qed

lemma push_inline_query [simp]:
  "query (cl (push_inline x as)) = query (cl x)" "bulk_len (cl (push_inline x as)) = bulk_len (cl x)"
  "multibulk_len (cl (push_inline x as)) = multibulk_len (cl x)"
  by (induction x as rule: push_inline.induct) (auto simp: push_raw_def)

lemma process_inline_shrinks:
  assumes "process_inline_input x = (ok, x')" and "parser_ok (cl x)" and "query (cl x) \<noteq> []"
  shows "parser_ok (cl x') \<and> (ok \<longrightarrow> length (query (cl x')) < length (query (cl x)))"
proof (cases "strchr_at (query (cl x)) LF")
  case None
  have "parser_ok (cl (reply_add_err x s))" for s using assms(2) by (simp add: parser_ok_def)
  then show ?thesis using assms(1,2) None by (auto simp: process_inline_input_def split: if_split_asm)
next
  case (Some nl)
  define n where "n = (if nl \<noteq> 0 \<and> query (cl x) ! (nl - 1) = CR then nl - 1 else nl)"
  have eq: "process_inline_input x =
      (case sdssplitargs (take n (query (cl x))) of
         None \<Rightarrow> (False, set_protocol_error (reply_add_err x ''Protocol error: unbalanced quotes in request'') 0)
       | Some as \<Rightarrow> let x1 = trim_query x (n + 2) in (True, push_inline (x1\<lparr>cl := (cl x1)\<lparr>argv := []\<rparr>\<rparr>) as))"
    unfolding process_inline_input_def Some option.case Let_def n_def ..
  show ?thesis
  proof (cases "sdssplitargs (take n (query (cl x)))")
    case None
    then show ?thesis using assms(1,2) eq by (auto simp: parser_ok_error)
  next
    case as: (Some as)
    define y where "y = trim_query x (n + 2)"
    have "x' = push_inline (y\<lparr>cl := (cl y)\<lparr>argv := []\<rparr>\<rparr>) as"
      using assms(1) eq as by (simp add: Let_def y_def)
    then show ?thesis using assms(2,3) by (auto simp: y_def trim_query_drop parser_ok_def)
  qed
qed

lemma read_request_shrinks:
  assumes "read_request x = Inr (ok, x')" and "parser_ok (cl x)" and "query (cl x) \<noteq> []"
  shows "parser_ok (cl x')" and "ok \<Longrightarrow> length (query (cl x')) < length (query (cl x))"
  using assms(1) process_multi_bulk_shrinks [OF _ assms(2,3)] process_inline_shrinks [OF _ assms(2,3)]
  by (cases "req_type (cl x)"; auto simp: read_request_def)+

lemma serve_request_parser:
  assumes "serve_request e x = Inr x'" and "parser_ok (cl x)"
  shows "parser_ok (cl x')" and "query (cl x') = query (cl x)"
proof -
  have reset: "parser_ok (cl z) \<and> query (cl z) = query (cl y)"
    if "rr_client_reset y = Inr z" "length (query (cl y)) < 2 ^ 31" for y z :: "'a server"
    using reset_client [OF that(1)] that(2) by (simp add: parser_ok_def)
  have q: "length (query (cl x)) < 2 ^ 31" using assms(2) by (simp add: parser_ok_def)
  have "parser_ok (cl x') \<and> query (cl x') = query (cl x)"
  proof (cases "argv (cl x) = []")
    case True
    then show ?thesis using assms(1) reset q by (simp add: serve_request_def)
  next
    case False
    obtain ok y where y: "cmd_process e x = Inr (ok, y)" using assms(1) False by (auto simp: serve_request_def)
    note c = conn_cmd_process(1-3) [OF y]
    show ?thesis
    proof (cases ok)
      case True
      then have "rr_client_reset y = Inr x'" using assms(1) False y by (simp add: serve_request_def)
      from reset [OF this] show ?thesis using c q by simp
    next
      case ok: False
      then have "x' = y" using assms(1) False y by (simp add: serve_request_def)
      then show ?thesis using c assms(2) by (simp add: parser_ok_def)
    qed
  qed
  then show "parser_ok (cl x')" "query (cl x') = query (cl x)" by auto
qed

lemma process_user_input_ends:
  "parser_ok (cl x) \<Longrightarrow> \<exists>r. process_user_input es x = Some r \<and> (\<forall>x'. r = Inr x' \<longrightarrow> parser_ok (cl x'))"
proof (induction "length (query (cl x))" arbitrary: es x rule: less_induct)
  case less
  show ?case
  proof (cases "query (cl x) = [] \<or> has_flag (flags (cl x)) CLIENT_CLOSE_AFTER_REPLY")
    case True
    then show ?thesis using less.prems by (subst process_user_input.simps) auto
  next
    case False
    let ?y = "request_type x"
    have y: "parser_ok (cl ?y)" "query (cl ?y) = query (cl x)" using less.prems by (simp_all add: request_type_def parser_ok_def)
    show ?thesis
    proof (cases "read_request ?y")
      case (Inl f)
      then show ?thesis using False by (subst process_user_input.simps) simp
    next
      case (Inr p)
      obtain ok z where p: "p = (ok, z)" by (cases p)
      have q: "query (cl ?y) \<noteq> []" using False y(2) by simp
      note z = read_request_shrinks [OF Inr [unfolded p] y(1) q]
      show ?thesis
      proof (cases "\<not> ok \<or> (\<exists>f. serve_request (es 0) z = Inl f)")
        case True
        then show ?thesis using False Inr p z(1) by (subst process_user_input.simps) auto
      next
        case go: False
        then obtain w where w: "serve_request (es 0) z = Inr w" by (cases "serve_request (es 0) z") auto
        note sw = serve_request_parser [OF w z(1)]
        have "length (query (cl w)) < length (query (cl x))" using z(2) go sw(2) y(2) by simp
        from less.hyps [OF this sw(1)] obtain r where
          r: "process_user_input (\<lambda>i. es (i + 1)) w = Some r" "\<forall>x'. r = Inr x' \<longrightarrow> parser_ok (cl x')" by blast
        then show ?thesis using False Inr p go w by (subst process_user_input.simps) auto
      qed
    qed
  qed
qed

end
