(* ===== verification/Machine.thy ===== *)
theory Machine
  imports Queries Server
begin

text \<open>
  What the server promises, as a machine on the keyspace: for each command with its
  arguments, the answers it may give and the keyspace it leaves. The machine knows
  nothing of objects, reference counts or encodings.

  The size of the keyspace bounds the number of references in the store: every
  aggregate belongs to exactly one key.
\<close>

section \<open>The size of the keyspace\<close>

definition fts_refs :: "fts_t \<Rightarrow> addr list" where
  "fts_refs f = concat (map (\<lambda>kv. case dheap f (snd kv) of None \<Rightarrow> [] | Some d \<Rightarrow> [title d, doc d]) (dict_entries (docs f)))"

definition val_size :: "'d aval \<Rightarrow> nat" where
  "val_size v = (case v of VStr _ \<Rightarrow> 0 | VTrie m \<Rightarrow> card (dom m) | VHeap h \<Rightarrow> size h | VFts f \<Rightarrow> length (fts_refs f))"

definition ks_size :: "(string \<Rightarrow> 'd aval option) \<Rightarrow> nat" where
  "ks_size K = (\<Sum>k\<in>dom K. 1 + val_size (the (K k)))"

lemma val_size_refs:
  assumes "obj_wf r"
  shows "val_size (obj_val st r) = size (obj_refs r)"
proof (cases "ptr r")
  case (PDict d)
  then have "dict_wf d" using assms by (auto simp: obj_wf_def string_ok_def split: otype.splits)
  then have "size (dict_vals d) = card (dom (dict_map d))"
    using dict_map_finite [of d] by (simp add: dict_vals_map map_vals_def)
  moreover have "dom (\<lambda>k. map_option (str_of st) (dict_map d k)) = dom (dict_map d)" by (auto simp: domIff)
  ultimately show ?thesis using PDict by (simp add: obj_val_def val_size_def obj_refs_dict)
next
  case (PHeap h)
  then show ?thesis by (simp add: obj_val_def val_size_def obj_refs_heap)
next
  case (PFts f)
  then show ?thesis by (simp add: obj_val_def val_size_def obj_refs_def fts_refs_def)
qed (simp_all add: obj_val_def val_size_def obj_refs_def)

text \<open>
  Every aggregate is the value of exactly one key, so what objects refer to is what the
  values of the keyspace hold.
\<close>

lemma inner_refs_keyspace:
  fixes x :: "('d::linorder, 'z) sctx_scheme"
  assumes wf: "srv_wf {#} x" and bg: "bgtasks x = []"
  shows "size (inner_refs (store x)) = (\<Sum>k\<in>dom (dict_map (db x)). size (obj_refs (the (objs (store x) (the (dict_map (db x) k))))))"
proof -
  let ?st = "store x" and ?D = "dict_map (db x)"
  let ?w = "\<lambda>a. size (obj_refs (the (objs ?st a)))"
  note h = srv_wfD(1) [OF wf] and d = srv_wfD(2) [OF wf] and v = srv_wfD(4) [OF wf] and s = srv_wfD(5) [OF wf]
  have c: "counted ?st (srv_refs {#} x)" and w: "store_wf ?st" using h by (simp_all add: heap_store_def)
  let ?A = "{k \<in> dom ?D. ?w (the (?D k)) \<noteq> 0}" and ?B = "{a \<in> live_set ?st. ?w a \<noteq> 0}"
  have agg: "\<not> is_string ?st a" if "?w a \<noteq> 0" "a \<in> live_set ?st" for a
  proof
    assume "is_string ?st a"
    then obtain r where r: "objs ?st a = Some r" "otype r = OBJ_STRING" by (auto simp: is_string_def)
    then have "obj_wf r" using w by (auto simp: store_wf_def)
    then have "string_ok r" using r(2) by (simp add: obj_wf_def)
    then show False using that(1) r(1) by simp
  qed
  have live: "the (?D k) \<in> live_set ?st" if "k \<in> dom ?D" for k
    using that countedD(3) [OF c] mset_subset_eqD [OF v] dict_map_vals [of "db x" k] by (force simp: live_set_def)
  have inj: "inj_on (\<lambda>k. the (?D k)) ?A"
  proof (rule inj_onI)
    fix k k' assume k: "k \<in> ?A" "k' \<in> ?A" and eq: "the (?D k) = the (?D k')"
    then have "?D k' = Some (the (?D k))" "?D k = Some (the (?D k))" "\<not> is_string ?st (the (?D k))" using agg live by auto
    then show "k = k'" using sole_key [OF h v _ _ _ , of k "the (?D k)" k'] d by (auto simp: db_wf_def)
  qed
  have "?B \<subseteq> (\<lambda>k. the (?D k)) ` ?A"
  proof
    fix a assume a: "a \<in> ?B"
    then obtain r where r: "objs ?st a = Some r" by (auto simp: live_set_def)
    have str: "\<not> is_string ?st a" using a agg by simp
    then have "\<not> string_ok r" using r by (auto simp: is_string_def string_ok_def)
    then have "0 < count (srv_refs {#} x) a + count (inner_refs ?st) a" using countedD(5) [OF c r] unfolding rc_ok_def by linarith
    moreover have "a \<notin># inner_refs ?st" using w str by (auto simp: store_wf_def is_string_def string_ok_def)
    ultimately have "a \<in># srv_refs {#} x" by (simp add: not_in_iff count_greater_zero_iff [symmetric] del: count_greater_zero_iff)
    then have "a \<in># dict_vals (db x)" using s str bg by (auto simp: srv_refs_def strs_def)
    then have "a \<in># map_vals ?D" using d by (simp add: dict_vals_map db_wf_def)
    then obtain k where "k \<in> dom ?D" "a = the (?D k)" using dict_map_finite [of "db x"] by (auto simp: map_vals_def)
    then show "a \<in> (\<lambda>k. the (?D k)) ` ?A" using a by auto
  qed
  then have "bij_betw (\<lambda>k. the (?D k)) ?A ?B" using inj live by (auto simp: bij_betw_def)
  then have "(\<Sum>k\<in>?A. ?w (the (?D k))) = (\<Sum>a\<in>?B. ?w a)" by (rule sum.reindex_bij_betw)
  also have "\<dots> = (\<Sum>a\<in>live_set ?st. ?w a)" by (rule sum.mono_neutral_left) (use countedD(1) [OF c] in auto)
  also have "\<dots> = size (inner_refs ?st)" by (simp add: inner_refs_def size_multiset_sum)
  also have "(\<Sum>k\<in>?A. ?w (the (?D k))) = (\<Sum>k\<in>dom ?D. ?w (the (?D k)))"
    by (rule sum.mono_neutral_left) (use dict_map_finite [of "db x"] in auto)
  finally show ?thesis by simp
qed

lemma refs_size_keyspace:
  fixes x :: "('d::linorder, 'z) sctx_scheme"
  assumes wf: "srv_wf {#} x" and bg: "bgtasks x = []"
  shows "refs_size {#} x = ks_size (keyspace x) + length (argv (cl x))"
proof -
  let ?D = "dict_map (db x)"
  have "val_size (the (keyspace x k)) = size (obj_refs (the (objs (store x) (the (?D k)))))" if k: "k \<in> dom ?D" for k
  proof -
    obtain a where a: "?D k = Some a" using k by blast
    obtain r where "objs (store x) a = Some r" "obj_wf r" "keyspace x k = Some (obj_val (store x) r)"
      by (rule keyspace_at [OF srv_wfD(1,4) [OF wf] a])
    then show ?thesis using a val_size_refs by auto
  qed
  then have "ks_size (keyspace x) = card (dom ?D) + size (inner_refs (store x))"
    using db_map_keyspace(2) [OF wf] by (simp add: ks_size_def inner_refs_keyspace [OF wf bg] sum.distrib sum_Suc)
  moreover have "size (dict_vals (db x)) = card (dom ?D)"
    using srv_wfD(2) [OF wf] dict_map_finite [of "db x"] by (simp add: dict_vals_map map_vals_def db_wf_def)
  ultimately show ?thesis using bg by (simp add: refs_size_def srv_refs_def)
qed

section \<open>The machine the server implements\<close>

type_synonym 'd ks = "string \<Rightarrow> 'd aval option"

definition err_reply :: "string \<Rightarrow> string" where
  "err_reply s = ''-ERR '' @ map (\<lambda>ch. if ch = CR \<or> ch = LF then CHR '' '' else ch) s @ CRLF"

definition prefixed :: "string \<Rightarrow> (string \<times> string) list \<Rightarrow> (string \<times> string) list" where
  "prefixed p kvs = filter (\<lambda>kv. take (length p) (fst kv) = p) kvs"

text \<open>
  What a command with its arguments may do to the keyspace, and what it answers. Only
  the commands on heaps leave a choice: among items of the same score.
\<close>

inductive does :: "'d::linorder floats \<Rightarrow> 'd ks \<Rightarrow> cmd_proc \<Rightarrow> string list \<Rightarrow> string \<Rightarrow> 'd ks \<Rightarrow> bool"
  for ff :: "'d::linorder floats" and K :: "'d ks" where
  does_get: "does ff K P_get [n, k] (case K (cstr k) of None \<Rightarrow> ''$-1'' @ CRLF | Some (VStr s) \<Rightarrow> bulk s | _ \<Rightarrow> wrongtype) K"
| does_len: "does ff K P_len [n] (count_reply (card (dom K))) K"
| does_set: "does ff K P_set [n, k, v] (''+OK'' @ CRLF) (K(cstr k \<mapsto> VStr v))"
| does_del: "does ff K P_del [n, k] ((if K (cstr k) = None then '':0'' else '':1'') @ CRLF) (K(cstr k := None))"
| does_exists: "does ff K P_exists [n, k] ((if K (cstr k) = None then '':0'' else '':1'') @ CRLF) K"
| does_type: "does ff K P_type [n, k] (CHR ''+'' # val_type (K (cstr k)) @ CRLF) K"
| does_rget: "does ff K P_rget [n, k, f]
    (typed_case OBJ_HASH (K (cstr k)) missing wrongtype (\<lambda>v. opt_bulk (trie_get v (cstr f)))) K"
| does_rexists: "does ff K P_rexists [n, k, f]
    (typed_case OBJ_HASH (K (cstr k)) missing wrongtype (\<lambda>v. (if trie_get v (cstr f) = None then '':0'' else '':1'') @ CRLF)) K"
| does_rlen: "does ff K P_rlen [n, k]
    (typed_case OBJ_HASH (K (cstr k)) missing wrongtype (\<lambda>v. count_reply (card (dom (trie_get v))))) K"
| does_rset: "w = val_or_fresh OBJ_HASH (K (cstr k)) \<Longrightarrow> val_is OBJ_HASH w \<Longrightarrow>
    does ff K P_rset [n, k, f, v] (''+OK'' @ CRLF) (K(cstr k \<mapsto> VTrie ((trie_get w)(cstr f \<mapsto> v))))"
| does_rdel: "K (cstr k) = Some (VTrie m) \<Longrightarrow> m (cstr f) \<noteq> None \<Longrightarrow>
    does ff K P_rdel [n, k, f] ('':1'' @ CRLF) (K(cstr k \<mapsto> VTrie (m(cstr f := None))))"
| does_rkeys: "K (cstr k) = Some (VTrie m) \<Longrightarrow> listed m kvs \<Longrightarrow> does ff K P_rkeys [n, k] (listing True False kvs) K"
| does_rvalues: "K (cstr k) = Some (VTrie m) \<Longrightarrow> listed m kvs \<Longrightarrow> does ff K P_rvalues [n, k] (listing False True kvs) K"
| does_rgetall: "K (cstr k) = Some (VTrie m) \<Longrightarrow> listed m kvs \<Longrightarrow> does ff K P_rgetall [n, k] (listing True True kvs) K"
| does_rpget: "K (cstr k) = Some (VTrie m) \<Longrightarrow> listed m kvs \<Longrightarrow> does ff K P_rpget [n, k, p] (listing True True (prefixed (cstr p) kvs)) K"
| does_hqpush: "w = val_or_fresh OBJ_HEAPQ (K (cstr k)) \<Longrightarrow> val_is OBJ_HEAPQ w \<Longrightarrow> read_score ff s = Some sc \<Longrightarrow>
    does ff K P_hqpush [n, k, s, v] (''+OK'' @ CRLF) (K(cstr k \<mapsto> VHeap (add_mset (sc, v) (heap_items w))))"
| does_hqpush_bad: "read_score ff s = None \<Longrightarrow> does ff K P_hqpush [n, k, s, v] (''-ERR value is not a valid float'' @ CRLF) K"
| does_hqpop: "K (cstr k) = Some (VHeap h) \<Longrightarrow> (sc, v) \<in># h \<Longrightarrow> \<forall>p\<in>#h. sc \<le> fst p \<Longrightarrow>
    does ff K P_hqpop [n, k] (bulk v) (K(cstr k \<mapsto> VHeap (h - {#(sc, v)#})))"
| does_hqpop_empty: "K (cstr k) = Some (VHeap {#}) \<Longrightarrow> does ff K P_hqpop [n, k] (''$-1'' @ CRLF) K"
| does_hqpeek: "K (cstr k) = Some (VHeap h) \<Longrightarrow> (sc, v) \<in># h \<Longrightarrow> \<forall>p\<in>#h. sc \<le> fst p \<Longrightarrow> does ff K P_hqpeek [n, k] (bulk v) K"
| does_hqpeek_empty: "K (cstr k) = Some (VHeap {#}) \<Longrightarrow> does ff K P_hqpeek [n, k] (''$-1'' @ CRLF) K"
| does_hqlen: "does ff K P_hqlen [n, k]
    (typed_case OBJ_HEAPQ (K (cstr k)) missing wrongtype (\<lambda>v. count_reply (size (heap_items v)))) K"
| does_missing: "p \<in> {P_rdel, P_rkeys, P_rvalues, P_rgetall, P_rpget, P_hqpop, P_hqpeek} \<Longrightarrow> K (cstr k) = None \<Longrightarrow>
    does ff K p (n # k # ss) missing K"
| does_wrong_trie: "p \<in> {P_rset, P_rdel, P_rkeys, P_rvalues, P_rgetall, P_rpget} \<Longrightarrow> K (cstr k) = Some v \<Longrightarrow> \<not> val_is OBJ_HASH v \<Longrightarrow>
    does ff K p (n # k # ss) wrongtype K"
| does_wrong_heap: "p \<in> {P_hqpush, P_hqpop, P_hqpeek} \<Longrightarrow> K (cstr k) = Some v \<Longrightarrow> \<not> val_is OBJ_HEAPQ v \<Longrightarrow>
    does ff K p (n # k # ss) wrongtype K"
| does_ping: "does ff K P_ping [n] (''+PONG'' @ CRLF) K"
| does_ping_echo: "does ff K P_ping [n, s] (bulk s) K"
| does_ping_many: "2 < length as \<Longrightarrow> does ff K P_ping as (err_reply (wrong_arity ''ping'')) K"
| does_echo: "does ff K P_echo [n, s] (bulk s) K"

text \<open>
  The requests this covers. Left out are the full-text commands, \<^verbatim>\<open>QPOPN\<close>, \<^verbatim>\<open>INFO\<close> and
  \<^verbatim>\<open>SHUTDOWN\<close>, overwriting or deleting a heap that has items, deleting a field that is
  not in a trie, and searching a trie for a prefix none of its keys has.
\<close>

fun covers :: "'d ks \<Rightarrow> cmd_proc \<Rightarrow> string list \<Rightarrow> bool" where
  "covers K P_set as \<longleftrightarrow> (\<forall>h. K (cstr (as ! 1)) = Some (VHeap h) \<longrightarrow> h = {#})"
| "covers K P_del as \<longleftrightarrow> (\<forall>h. K (cstr (as ! 1)) = Some (VHeap h) \<longrightarrow> h = {#})"
| "covers K P_rdel as \<longleftrightarrow> (\<forall>m. K (cstr (as ! 1)) = Some (VTrie m) \<longrightarrow> m (cstr (as ! 2)) \<noteq> None)"
| "covers K P_rpget as \<longleftrightarrow> (\<forall>m. K (cstr (as ! 1)) = Some (VTrie m) \<longrightarrow>
     dom m = {} \<or> (\<exists>f\<in>dom m. take (length (cstr (as ! 2))) f = cstr (as ! 2)))"
| "covers K P_dset as \<longleftrightarrow> False"
| "covers K P_dget as \<longleftrightarrow> False"
| "covers K P_ddel as \<longleftrightarrow> False"
| "covers K P_dsearch as \<longleftrightarrow> False"
| "covers K P_dlen as \<longleftrightarrow> False"
| "covers K P_hqpopn as \<longleftrightarrow> False"
| "covers K P_info as \<longleftrightarrow> False"
| "covers K P_shutdown as \<longleftrightarrow> False"
| "covers K _ as \<longleftrightarrow> True"

text \<open>The strings of the keyspace, all of which came in as arguments.\<close>

definition val_short :: "'d aval \<Rightarrow> bool" where
  "val_short v \<longleftrightarrow>
     (case v of
        VStr s \<Rightarrow> length s \<le> 2 ^ 29
      | VTrie m \<Rightarrow> (\<forall>f s. m f = Some s \<longrightarrow> length f \<le> 2 ^ 29 \<and> length s \<le> 2 ^ 29)
      | VHeap h \<Rightarrow> (\<forall>p\<in>#h. length (snd p) \<le> 2 ^ 29)
      | VFts _ \<Rightarrow> True)"

definition ks_ok :: "'d ks \<Rightarrow> bool" where
  "ks_ok K \<longleftrightarrow> finite (dom K) \<and> (\<forall>k v. K k = Some v \<longrightarrow> val_short v)"

lemma ks_size_val: "finite (dom K) \<Longrightarrow> K k = Some v \<Longrightarrow> val_size v < ks_size K"
proof -
  assume f: "finite (dom K)" and k: "K k = Some v"
  have "1 + val_size (the (K k)) \<le> (\<Sum>k\<in>dom K. 1 + val_size (the (K k)))"
    by (rule member_le_sum) (use f k in auto)
  then show ?thesis using k by (simp add: ks_size_def)
qed

lemma ks_size_upd:
  assumes "finite (dom K)"
  shows "ks_size (K(k \<mapsto> v)) + (case K k of None \<Rightarrow> 0 | Some w \<Rightarrow> 1 + val_size w) = ks_size K + 1 + val_size v"
proof -
  let ?g = "\<lambda>K :: 'a ks. \<lambda>k. 1 + val_size (the (K k))"
  have D: "dom (K(k \<mapsto> v)) = insert k (dom K - {k})" by auto
  have "ks_size (K(k \<mapsto> v)) = 1 + val_size v + (\<Sum>j\<in>dom K - {k}. ?g (K(k \<mapsto> v)) j)"
    unfolding ks_size_def D using assms by (subst sum.insert) auto
  also have "(\<Sum>j\<in>dom K - {k}. ?g (K(k \<mapsto> v)) j) = (\<Sum>j\<in>dom K - {k}. ?g K j)" by (rule sum.cong) auto
  finally have up: "ks_size (K(k \<mapsto> v)) = 1 + val_size v + (\<Sum>j\<in>dom K - {k}. ?g K j)" .
  show ?thesis
  proof (cases "K k")
    case None
    then have "dom K - {k} = dom K" by auto
    then show ?thesis using up None by (simp add: ks_size_def)
  next
    case (Some w)
    then have "ks_size K = ?g K k + (\<Sum>j\<in>dom K - {k}. ?g K j)" unfolding ks_size_def using assms by (intro sum.remove) auto
    then show ?thesis using up Some by simp
  qed
qed

lemma ks_size_del: "finite (dom K) \<Longrightarrow> ks_size (K(k := None)) \<le> ks_size K"
  unfolding ks_size_def by (rule sum_le_included [where i = id]) (auto intro: sum_mono2)

lemma val_size_trie_upd: "val_size (VTrie (m(f \<mapsto> v)) :: 'd aval) \<le> val_size (VTrie m :: 'd aval) + 1"
  using card_insert_le_m1 [of "Suc (card (dom m))" "dom m" f] by (simp add: val_size_def card_insert_if)

lemma val_size_trie_del: "val_size (VTrie (m(f := None)) :: 'd aval) \<le> val_size (VTrie m :: 'd aval)"
  by (cases "finite (dom m)") (simp_all add: val_size_def card_Diff1_le)

text \<open>A step adds at most the key and the value of its arguments, and keeps the strings short.\<close>

lemma upd_grow:
  assumes "ks_ok K" and "val_short v" and "val_size v \<le> (case K k of None \<Rightarrow> 0 | Some w \<Rightarrow> val_size w) + 1" and "2 \<le> n"
  shows "ks_ok (K(k \<mapsto> v)) \<and> ks_size (K(k \<mapsto> v)) \<le> ks_size K + n"
proof
  show "ks_ok (K(k \<mapsto> v))" using assms(1,2) by (auto simp: ks_ok_def)
  have "finite (dom K)" using assms(1) by (simp add: ks_ok_def)
  from ks_size_upd [OF this, of k v] show "ks_size (K(k \<mapsto> v)) \<le> ks_size K + n"
    using assms(3,4) by (simp split: option.splits)
qed

lemma del_grow: "ks_ok K \<Longrightarrow> ks_ok (K(k := None)) \<and> ks_size (K(k := None)) \<le> ks_size K + n"
  using ks_size_del [of K k] by (auto simp: ks_ok_def)

lemma does_grow:
  assumes "does ff K p as out K'" and "ks_ok K" and "short_args as"
  shows "ks_ok K' \<and> ks_size K' \<le> ks_size K + length as"
  using assms
proof (induction rule: does.induct)
  case (does_set n k v)
  then show ?case by (intro upd_grow) (simp_all add: val_short_def short_args_def val_size_def)
next
  case (does_del n k)
  then show ?case by (intro del_grow)
next
  case (does_rset w k n f v)
  have w: "val_short w" "w = VTrie (trie_get w)"
    using does_rset by (auto simp: val_or_fresh_def ks_ok_def val_short_def split: option.split_asm) (cases w; simp)+
  have "length (cstr f) \<le> length f" by (simp add: cstr_def length_takeWhile_le)
  then have "val_short (VTrie ((trie_get w)(cstr f \<mapsto> v)) :: 'a aval)"
    using does_rset.prems(2) w by (auto simp: val_short_def short_args_def split: aval.splits)
  moreover have "val_size w = (case K (cstr k) of None \<Rightarrow> 0 | Some w \<Rightarrow> val_size w)"
    using does_rset.hyps(1) by (simp add: val_or_fresh_def val_size_def split: option.split)
  moreover have "val_size (VTrie ((trie_get w)(cstr f \<mapsto> v)) :: 'a aval) \<le> val_size w + 1"
    using val_size_trie_upd [of "trie_get w" "cstr f" v, where ?'d = 'a] unfolding w(2) [symmetric] .
  ultimately show ?case using does_rset.prems(1) by (intro upd_grow) simp_all
next
  case (does_rdel k m f n)
  have "val_short (VTrie (m(cstr f := None)) :: 'a aval)" using does_rdel by (fastforce simp: ks_ok_def val_short_def)
  then show ?case
    using does_rdel val_size_trie_del [of m "cstr f", where ?'d = 'a] by (intro upd_grow) simp_all
next
  case (does_hqpush w k s sc n v)
  have w: "val_short w" "w = VHeap (heap_items w)"
    using does_hqpush by (auto simp: val_or_fresh_def ks_ok_def val_short_def split: option.split_asm) (cases w; simp)+
  have "val_short (VHeap (add_mset (sc, v) (heap_items w)))"
    using does_hqpush.prems(2) w by (auto simp: val_short_def short_args_def split: aval.splits)
  moreover have "val_size (VHeap (add_mset (sc, v) (heap_items w))) = val_size w + 1" using w(2) by (cases w) (simp_all add: val_size_def)
  moreover have "val_size w = (case K (cstr k) of None \<Rightarrow> 0 | Some w \<Rightarrow> val_size w)"
    using does_hqpush.hyps(1) by (simp add: val_or_fresh_def val_size_def split: option.split)
  ultimately show ?case using does_hqpush.prems(1) by (intro upd_grow) simp_all
next
  case (does_hqpop k h sc v n)
  have "val_short (VHeap (h - {#(sc, v)#}))" using does_hqpop by (fastforce simp: ks_ok_def val_short_def dest: in_diffD)
  then show ?case using does_hqpop by (intro upd_grow) (simp_all add: val_size_def size_Diff_singleton_if)
qed simp_all

end
