(* ===== verification/Dispatch.thy ===== *)
theory Dispatch
  imports Frame Machine
begin

text \<open>
  From the words of a request to the command that serves it: starting the server and its
  command table, finding a command by its name, running it and getting the client ready
  for the next request. Every covered request is answered as the machine allows.
\<close>

section \<open>Starting the server\<close>

text \<open>The dictionary of commands maps each name to its place in the table.\<close>

definition cmd_index :: "string \<Rightarrow> nat option" where
  "cmd_index n = map_of (zip (map name redisCommandTable) [0..<length redisCommandTable]) n"

lemma populate_ok:
  assumes "dict_wf d" and "distinct (map name cs)" and "set (map name cs) \<inter> dom (dict_map d) = {}"
    and "\<forall>c\<in>set cs. nul_free (name c) \<and> set (sflags c) \<subseteq> set ''wrmapsRSltMkF''"
  shows "\<exists>cs' d'. populate j cs d = Inr (cs', d') \<and> dict_wf d' \<and>
    dict_map d' = dict_map d ++ map_of (zip (map name cs) [j..<j + length cs]) \<and>
    list_all2 (\<lambda>c c'. \<exists>w. c' = c\<lparr>cflags := w\<rparr>) cs cs'"
  using assms
proof (induction cs arbitrary: j d)
  case (Cons c cs)
  have flags: "\<exists>w'. add_flags w fs = Inr w'" if "set fs \<subseteq> set ''wrmapsRSltMkF''" for w fs
    using that by (induction fs arbitrary: w) (auto simp: flag_bit_def)
  obtain w where w: "add_flags (cflags c) (sflags c) = Inr w" using flags Cons.prems(4) by (metis list.set_intros(1))
  have "nul_free (name c)" using Cons.prems(4) by simp
  then obtain d1 where d1: "dict_set d (name c) (Some j) = (d1, True, freed d (name c))" "dict_wf d1"
    "dict_map d1 = (dict_map d)(name c \<mapsto> j)"
    using dict_set_spec [OF Cons.prems(1)] by metis
  have "set (map name cs) \<inter> dom (dict_map d1) = {}" using Cons.prems(2,3) d1(3) by auto
  moreover have "distinct (map name cs)" "\<forall>c\<in>set cs. nul_free (name c) \<and> set (sflags c) \<subseteq> set ''wrmapsRSltMkF''"
    using Cons.prems(2,4) by simp_all
  ultimately obtain cs' d' where ih: "populate (j + 1) cs d1 = Inr (cs', d')" "dict_wf d'"
    "dict_map d' = dict_map d1 ++ map_of (zip (map name cs) [j + 1..<j + 1 + length cs])"
    "list_all2 (\<lambda>c c'. \<exists>w. c' = c\<lparr>cflags := w\<rparr>) cs cs'"
    using Cons.IH [OF d1(2)] by blast
  have "name c \<notin> dom (map_of (zip (map name cs) [j + 1..<j + 1 + length cs]))"
    using Cons.prems(2) by (auto dest!: map_of_SomeD set_zip_leftD)
  then have "dict_map d' = dict_map d ++ map_of (zip (map name (c # cs)) [j..<j + length (c # cs)])"
    unfolding ih(3) d1(3) by (simp add: upt_conv_Cons map_add_upd_left flip: map_add_upd del: upt_Suc)
  then show ?case using w d1(1) ih by (auto simp: Let_def)
qed simp

lemma table_names:
  "distinct (map name redisCommandTable)" "\<forall>c\<in>set redisCommandTable. nul_free (name c) \<and> set (sflags c) \<subseteq> set ''wrmapsRSltMkF''"
  by (simp_all add: redisCommandTable_def command_def nul_free_def)

text \<open>What the rest of the program relies on; the statistics in the table change.\<close>

definition same_command :: "redisCommand \<Rightarrow> redisCommand \<Rightarrow> bool" where
  "same_command c c' \<longleftrightarrow> name c' = name c \<and> proc c' = proc c \<and> arity c' = arity c"

definition table_ok :: "'d server \<Rightarrow> bool" where
  "table_ok x \<longleftrightarrow> dict_wf (commands x) \<and> dict_map (commands x) = cmd_index \<and> list_all2 same_command redisCommandTable (cmd_table x)"

lemma populateCommandTable_ok:
  obtains tbl d where "populateCommandTable = Inr (tbl, d)" and "dict_wf d" and "dict_map d = cmd_index"
    and "list_all2 same_command redisCommandTable tbl"
proof -
  have "set (map name redisCommandTable) \<inter> dom (dict_map (dict_create :: (nat, callback) dict_t)) = {}"
    by (simp add: dict_create_map)
  from populate_ok [OF dict_create_wf table_names(1) this table_names(2), of 0]
  obtain tbl d where "populateCommandTable = Inr (tbl, d)" "dict_wf d" "dict_map d = cmd_index"
    "list_all2 (\<lambda>c c'. \<exists>w. c' = c\<lparr>cflags := w\<rparr>) redisCommandTable tbl"
    by (auto simp: populateCommandTable_def cmd_index_def [abs_def] dict_create_map)
  moreover from this(4) have "list_all2 same_command redisCommandTable tbl"
    by (rule list_all2_mono) (auto simp: same_command_def)
  ultimately show thesis using that by blast
qed

lemma rr_server_init_ok:
  fixes lazy :: bool
  obtains x :: "'d::linorder server" where "rr_server_init mem maxc lazy freq = Inr x" and "table_ok x" and "srv_wf {#} x"
    and "keyspace x = (\<lambda>_. None)" and "cl x = no_client" and "bgtasks x = []" and "lazyfree_server_del x = lazy"
    and "client_max_query_len x = PROTO_QUERY_MAX_LEN" and "cmem x = Map.empty" and "clients x = []" and "max_clients x = maxc"
    and "pending_writes x = []" and "next_cid x = 1" and "clients_to_close x = []"
proof -
  obtain tbl d where t: "populateCommandTable = Inr (tbl, d)" "dict_wf d" "dict_map d = cmd_index"
    "list_all2 same_command redisCommandTable tbl" by (rule populateCommandTable_ok)
  obtain x :: "'d server" where x: "rr_server_init mem maxc lazy freq = Inr x" "commands x = d" "cmd_table x = tbl" "store x = initial_store"
    "db x = rr_db_create" "cl x = no_client" "bgtasks x = []" "lazyfree_server_del x = lazy"
    "client_max_query_len x = PROTO_QUERY_MAX_LEN" "cmem x = Map.empty" "clients x = []" "max_clients x = maxc"
    "pending_writes x = []" "next_cid x = 1" "clients_to_close x = []"
    unfolding rr_server_init_def t(1) by simp
  have db: "dict_entries (db x) = []" "db_wf (db x)" by (simp_all add: x rr_db_create_def empty_dict db_wf_def)
  have refs: "srv_refs {#} x = {#}" by (simp add: srv_refs_def dict_vals_def db(1)) (simp add: x no_client_def)
  have "heap_store (initial_store :: 'd store) {#}" using initial_store_wf by (simp add: heap_store_def sole_def)
  then have wf: "srv_wf {#} x" using db(2) by (simp add: srv_wf_def refs x) (simp add: no_client_def strs_def out_wf_def)
  have "keyspace x = (\<lambda>_. None)" using db(1) by (simp add: fun_eq_iff keyspace_def dict_map_def)
  moreover have "table_ok x" using t x by (simp add: table_ok_def)
  ultimately show thesis using that x wf by blast
qed

section \<open>Commands inside the server\<close>

lemma sctx_fields [simp]:
  "cl (sctx.truncate x) = cl x" "store (sctx.truncate x) = store x" "db (sctx.truncate x) = db x" "bgtasks (sctx.truncate x) = bgtasks x"
  "lazyfree_server_del (sctx.truncate x) = lazyfree_server_del x" "max_memory (sctx.truncate x) = max_memory x"
  "pending_writes (sctx.truncate x) = pending_writes x"
  "cl (sctx.extend y m) = cl y" "store (sctx.extend y m) = store y" "db (sctx.extend y m) = db y" "bgtasks (sctx.extend y m) = bgtasks y"
  "lazyfree_server_del (sctx.extend y m) = lazyfree_server_del y" "max_memory (sctx.extend y m) = max_memory y"
  "pending_writes (sctx.extend y m) = pending_writes y" "sctx.more (sctx.extend y m) = m"
  by (simp_all add: sctx.truncate_def sctx.extend_def)

lemma sctx_same [simp]:
  "srv_wf E (sctx.truncate x) = srv_wf E x" "keyspace (sctx.truncate x) = keyspace x" "args_are (sctx.truncate x) ss = args_are x ss"
  "srv_wf E (sctx.extend y m) = srv_wf E y" "keyspace (sctx.extend y m) = keyspace y"
  "refs_size E (sctx.truncate x) = refs_size E x" "droppable (sctx.truncate x) k = droppable x k"
  by (simp_all add: srv_wf_def srv_refs_def keyspace_def fun_eq_iff args_are_def refs_size_def droppable_def)

lemma on_sctx_answers: "answers E (f (sctx.truncate x)) (sctx.truncate x) s K \<Longrightarrow> answers E (on_sctx f x) x s K"
  by (auto simp: answers_def on_sctx_def)

section \<open>The name of the command\<close>

text \<open>
  \<^verbatim>\<open>cmd_lookup\<close> writes to the object of the first argument, which belongs to the parser
  alone: nobody else sees the lower case.
\<close>

lemma own_args_distinct:
  assumes "own_args E x"
  shows "distinct (argv (cl x))"
proof -
  have "count (mset (argv (cl x))) a \<le> 1" if "a \<in> set (argv (cl x))" for a
  proof -
    have "count (mset (argv (cl x))) a \<le> count (srv_refs E x + inner_refs (store x)) a" by (simp add: srv_refs_def)
    then show ?thesis using assms that by (simp add: own_args_def)
  qed
  then have "count (mset (argv (cl x))) a = (if a \<in> set (argv (cl x)) then 1 else 0)" for a
    by (metis One_nat_def Suc_leI count_greater_zero_iff le_antisym not_in_iff set_mset_mset)
  then show ?thesis by (simp add: distinct_count_atmost_1)
qed

lemma lower_arg:
  fixes x :: "('d::linorder, 'z) sctx_scheme"
  assumes wf: "srv_wf E x" and own: "own_args E x" and args: "args_are x (n # ss)"
  obtains a r where "argv_at x 0 = Inr a" and "get_obj (store x) a = Inr r" and "ptr_sds r = Inr n"
    and "srv_wf E (x\<lparr>store := set_obj (store x) a (r\<lparr>ptr := PStr (map tolower n)\<rparr>)\<rparr>)"
    and "keyspace (x\<lparr>store := set_obj (store x) a (r\<lparr>ptr := PStr (map tolower n)\<rparr>)\<rparr>) = keyspace x"
    and "args_are (x\<lparr>store := set_obj (store x) a (r\<lparr>ptr := PStr (map tolower n)\<rparr>)\<rparr>) (map tolower n # ss)"
proof -
  obtain a as where a: "argv (cl x) = a # as" "raw_at (store x) a n" "list_all2 (raw_at (store x)) as ss"
    using args by (auto simp: args_are_def list_all2_Cons2)
  then obtain r where r: "objs (store x) a = Some r" "string_ok r" "ptr r = PStr n" by (auto simp: raw_at_def)
  let ?r = "r\<lparr>ptr := PStr (map tolower n)\<rparr>" and ?R = "srv_refs E x - {#a#}"
  define st where "st = set_obj (store x) a ?r"
  have objs: "objs st = (objs (store x))(a \<mapsto> ?r)" by (simp add: st_def set_obj_def)
  have in_: "a \<in># srv_refs E x" by (simp add: srv_refs_def a(1))
  then have R: "srv_refs E x = add_mset a ?R" by simp
  note h = srv_wfD(1) [OF wf]
  have ok: "string_ok ?r" "refcount ?r = refcount r" using r(2,3) by (simp_all add: string_ok_def)
  have c: "counted st (srv_refs E x)" "store_wf st" "inner_refs st = inner_refs (store x)"
    using set_string_counted [OF _ _ r(1,2) ok, of ?R] h R by (simp_all add: heap_store_def st_def)
  have one: "count (?R + inner_refs st) a = 0" using own in_ a(1) by (simp add: own_args_def c(3))
  then have a_out: "a \<notin># ?R + inner_refs st" using not_in_iff by metis
  have "a \<ge> OBJ_SHARED_INTEGERS"
    using h r(1,3) by (auto simp: heap_store_def shared_ints_def not_less [symmetric])
  then have sh: "shared_ints st" using h by (auto simp: heap_store_def shared_ints_def objs)
  have str: "is_string st b = is_string (store x) b" for b using r(1,2) by (auto simp: is_string_def objs string_ok_def)
  have "heap_store st (srv_refs E x)" using c sh h by (simp add: heap_store_def sole_def str)
  then have wf': "srv_wf E (x\<lparr>store := st\<rparr>)" using wf by (simp add: srv_wf_def srv_refs_def strs_def str)
  have stab: "stable (set_mset (?R + inner_refs st)) (store x) st"
  proof (rule stable_same)
    fix b assume b: "b \<in> set_mset (?R + inner_refs st)"
    then have "b \<noteq> a" using a_out by metis
    moreover have "objs (store x) b \<noteq> None" using b c(3) h countedD(3,4) [of "store x" "srv_refs E x" b]
      by (auto simp: heap_store_def dest: in_diffD)
    ultimately show "objs (store x) b \<noteq> None \<and> objs st b = objs (store x) b" by (simp add: objs)
  qed
  have "keyspace (x\<lparr>store := st\<rparr>) = keyspace x"
  proof (rule ext)
    fix k show "keyspace (x\<lparr>store := st\<rparr>) k = keyspace x k"
      by (rule keyspace_frame [of ?R]) (use stab countedD(1) [OF c(1)] a(1) in \<open>simp_all add: srv_refs_def\<close>)
  qed
  moreover have "a \<notin> set as" using own_args_distinct [OF own] a(1) by simp
  then have "list_all2 (raw_at st) as ss" using a(3) by (auto simp: list_all2_conv_all_nth raw_at_def objs)
  then have "args_are (x\<lparr>store := st\<rparr>) (map tolower n # ss)" using ok by (simp add: args_are_def a(1) raw_at_def objs)
  ultimately show thesis using that [of a r] wf' a(1) r by (simp add: argv_at_def get_obj_def ptr_sds_def st_def)
qed

section \<open>Between two commands\<close>

lemma drop_strings:
  assumes "heap_store st (mset vs + Q)" and "strs st (mset vs)"
  shows "\<exists>st'. decr_all decrRefCount st vs = Inr st' \<and> heap_store st' Q \<and> stable (set_mset (Q + inner_refs st')) st st' \<and>
    inner_refs st' \<subseteq># inner_refs st"
  using assms
proof (induction vs arbitrary: st)
  case Nil
  have "stable (set_mset (Q + inner_refs st)) st st"
    by (rule stable_refl) (use Nil countedD(3,4) [of st Q] in \<open>auto simp: heap_store_def\<close>)
  with Nil show ?case by simp
next
  case (Cons v vs)
  have v: "heap_store st (add_mset v (mset vs + Q))" "is_string st v" using Cons.prems by (simp_all add: strs_def)
  obtain st1 where st1: "decrRefCount st v = Inr st1" "heap_store st1 (mset vs + Q)"
    "stable (set_mset (mset vs + Q + inner_refs st1)) st st1" "inner_refs st1 \<subseteq># inner_refs st"
    by (rule drop_string [OF v])
  have "strs st1 (mset vs)" by (rule stable_strs [OF st1(3)]) (use Cons.prems(2) in \<open>auto simp: strs_def\<close>)
  from Cons.IH [OF st1(2) this] obtain st' where st': "decr_all decrRefCount st1 vs = Inr st'" "heap_store st' Q"
    "stable (set_mset (Q + inner_refs st')) st1 st'" "inner_refs st' \<subseteq># inner_refs st1" by blast
  have "set_mset (Q + inner_refs st') \<subseteq> set_mset (mset vs + Q + inner_refs st1)"
    using st'(4) by (auto dest: mset_subset_eqD)
  then have "stable (set_mset (Q + inner_refs st')) st st'" using stable_trans [OF stable_mono [OF st1(3)] st'(3)] by blast
  then show ?case using st1(1,4) st' by auto
qed

lemma rr_client_reset_ok:
  fixes x :: "'d::linorder server"
  assumes wf: "srv_wf E x"
  obtains st where "rr_client_reset x = Inr (x\<lparr>store := st,
      cl := (cl x)\<lparr>req_type := REQ_NONE, multibulk_len := 0, bulk_len := - 1, argv := []\<rparr>, cmd := None\<rparr>)"
    and "srv_wf E (x\<lparr>store := st, cl := (cl x)\<lparr>req_type := REQ_NONE, multibulk_len := 0, bulk_len := - 1, argv := []\<rparr>, cmd := None\<rparr>)"
    and "keyspace (x\<lparr>store := st, cl := (cl x)\<lparr>req_type := REQ_NONE, multibulk_len := 0, bulk_len := - 1, argv := []\<rparr>, cmd := None\<rparr>)
      = keyspace x"
proof -
  let ?Q = "dict_vals (db x) + mset (bgtasks x) + E"
  have h: "heap_store (store x) (mset (argv (cl x)) + ?Q)" using srv_wfD(1) [OF wf] by (simp add: srv_refs_def ac_simps)
  have s: "strs (store x) (mset (argv (cl x)))" using srv_wfD(5) [OF wf] by (simp add: strs_def)
  obtain st where st: "decr_all decrRefCount (store x) (argv (cl x)) = Inr st" "heap_store st ?Q"
    "stable (set_mset (?Q + inner_refs st)) (store x) st" using drop_strings [OF h s] by blast
  let ?x = "x\<lparr>store := st, cl := (cl x)\<lparr>req_type := REQ_NONE, multibulk_len := 0, bulk_len := - 1, argv := []\<rparr>, cmd := None\<rparr>"
  have "strs st E" by (rule stable_strs [OF st(3)]) (use srv_wfD(5) [OF wf] in \<open>auto simp: strs_def\<close>)
  moreover have "srv_refs E ?x = ?Q" by (simp add: srv_refs_def)
  ultimately have wf': "srv_wf E ?x" using wf st(2) by (simp add: srv_wf_def out_wf_def)
  have "keyspace ?x = keyspace x"
  proof (rule ext)
    fix k show "keyspace ?x k = keyspace x k"
      by (rule keyspace_frame [of ?Q]) (use st(3) heap_store_finite [OF st(2)] in simp_all)
  qed
  moreover have "rr_client_reset x = Inr ?x" using st(1) by (simp add: rr_client_reset_def free_client_argv_def)
  ultimately show thesis using that wf' by blast
qed

section \<open>Every covered command does what the machine allows\<close>

text \<open>How many words a command takes; \<^verbatim>\<open>PING\<close> takes any number.\<close>

fun nwords :: "cmd_proc \<Rightarrow> nat option" where
  "nwords P_len = Some 1"
| "nwords P_set = Some 3"
| "nwords P_rget = Some 3"
| "nwords P_rpget = Some 3"
| "nwords P_rset = Some 4"
| "nwords P_rdel = Some 3"
| "nwords P_rexists = Some 3"
| "nwords P_hqpush = Some 4"
| "nwords P_hqpopn = Some 3"
| "nwords P_dset = Some 4"
| "nwords P_dget = Some 3"
| "nwords P_ddel = Some 3"
| "nwords P_dsearch = Some 3"
| "nwords P_ping = None"
| "nwords P_shutdown = None"
| "nwords P_info = None"
| "nwords _ = Some 2"

definition implements :: "'d::linorder env \<Rightarrow> cmd_proc \<Rightarrow> 'd server \<Rightarrow> string list \<Rightarrow> bool" where
  "implements e p x as \<longleftrightarrow> (\<exists>out K'. does (fl e) (keyspace x) p as out K' \<and> answers {#} (run_proc e p x) x out K')"

lemma implementsI: "does (fl e) (keyspace x) p as out K' \<Longrightarrow> answers {#} (run_proc e p x) x out K' \<Longrightarrow> implements e p x as"
  by (auto simp: implements_def)

lemma words_1: "length as = 1 \<Longrightarrow> \<exists>n. as = [n]" and words_2: "length as = 2 \<Longrightarrow> \<exists>n k. as = [n, k]" and words_3: "length as = 3 \<Longrightarrow> \<exists>n k f. as = [n, k, f]"
  and words_4: "length as = 4 \<Longrightarrow> \<exists>n k f v. as = [n, k, f, v]"
  by (auto simp: length_Suc_conv numeral_2_eq_2 numeral_3_eq_3 numeral_eq_Suc)

lemma val_short_str: "val_short (VStr s) \<Longrightarrow> length s < 2 ^ 63"
  by (simp add: val_short_def)

lemma val_short_get: "val_short v \<Longrightarrow> trie_get v f = Some s \<Longrightarrow> length f < 2 ^ 63 \<and> length s < 2 ^ 63"
proof -
  assume v: "val_short v" "trie_get v f = Some s"
  have "length f \<le> 2 ^ 29 \<and> length s \<le> 2 ^ 29" using v by (cases v) (auto simp: val_short_def trie_get_def)
  then show ?thesis by simp
qed

lemma val_short_item: "val_short (VHeap h) \<Longrightarrow> (sc, v) \<in># h \<Longrightarrow> length v < 2 ^ 63"
  by (fastforce simp: val_short_def)

lemma heap_items_size: "size (heap_items v) \<le> val_size v"
  by (cases v) (simp_all add: heap_items_def val_size_def)

lemma trie_get_size: "card (dom (trie_get v)) \<le> val_size v"
  by (cases v) (simp_all add: trie_get_def [abs_def] val_size_def)

lemma val_short_trie: "val_short v \<Longrightarrow> val_size v < 2 ^ 31 \<Longrightarrow> short_trie v"
  using val_short_get [of v] trie_get_size [of v] by (auto simp: short_trie_def)

text \<open>A server that holds the words of a request of its only client, with room for what it may add.\<close>

definition loaded :: "'d::linorder server \<Rightarrow> string list \<Rightarrow> bool" where
  "loaded x as \<longleftrightarrow> srv_wf {#} x \<and> bgtasks x = [] \<and> args_are x as \<and> short_args as \<and> ks_ok (keyspace x) \<and>
     ks_size (keyspace x) + length as + 2 < 2 ^ 31 - 1"

lemma loadedD:
  fixes x :: "'d::linorder server"
  assumes "loaded x as"
  shows "srv_wf {#} (sctx.truncate x)" and "args_are (sctx.truncate x) as" and "room {#} (sctx.truncate x)"
    and "room_to_create {#} (sctx.truncate x)" and "keyspace x k = Some v \<Longrightarrow> val_short v"
    and "keyspace x k = Some v \<Longrightarrow> val_size v + 3 < 2 ^ 31" and "card (dom (keyspace x)) < 2 ^ 63" and "srv_wf {#} x"
    and "args_are x as"
proof -
  let ?K = "keyspace x" and ?x = "sctx.truncate x"
  have wf: "srv_wf {#} x" and args: "args_are x as" and fin: "finite (dom ?K)" and size: "ks_size ?K + length as + 2 < 2 ^ 31 - 1"
    and sh: "\<And>k v. ?K k = Some v \<Longrightarrow> val_short v"
    using assms by (auto simp: loaded_def ks_ok_def)
  show "srv_wf {#} ?x" "args_are ?x as" "srv_wf {#} x" "args_are x as" using wf args by simp_all
  have "length (argv (cl x)) = length as" using args by (simp add: args_are_def list_all2_lengthD)
  then have rs: "refs_size {#} ?x = ks_size ?K + length as" using refs_size_keyspace [OF wf] assms by (simp add: loaded_def)
  then show "room_to_create {#} ?x" using size by (simp add: room_to_create_def OBJ_SHARED_REFCOUNT_def)
  show "room {#} ?x" unfolding room_def refs_size_def [symmetric] rs using size by (simp add: OBJ_SHARED_REFCOUNT_def)
  show "?K k = Some v \<Longrightarrow> val_short v" by (rule sh)
  show "val_size v + 3 < 2 ^ 31" if "?K k = Some v" using ks_size_val [OF fin that] size by simp
  have "card (dom ?K) \<le> ks_size ?K" unfolding ks_size_def card_eq_sum by (rule sum_mono) simp
  then show "card (dom ?K) < 2 ^ 63" using size by simp
qed

lemma strings_do:
  assumes l: "loaded x as" and p: "p \<in> {P_get, P_len, P_set, P_del, P_exists, P_type}"
    and cov: "covers (keyspace x) p as" and len: "nwords p = Some (length as)"
  shows "implements e p x as"
proof -
  let ?x = "sctx.truncate x" and ?K = "keyspace x"
  note d = loadedD [OF l]
  consider (g) n k where "p = P_get" "as = [n, k]" | (l) n where "p = P_len" "as = [n]" | (s) n k v where "p = P_set" "as = [n, k, v]"
    | (d) n k where "p = P_del" "as = [n, k]" | (e) n k where "p = P_exists" "as = [n, k]" | (t) n k where "p = P_type" "as = [n, k]"
    using p len words_1 [of as] words_2 [of as] words_3 [of as] by auto
  then show ?thesis
  proof cases
    case g
    have "short (?K (cstr k))" using d(5) val_short_str by (auto simp: short_def)
    then show ?thesis using cmd_get_answers [of "{#}" ?x n k] d(1,2) g
      by (intro implementsI [OF does_get [of _ _ n k, folded g]]) (simp_all add: run_proc_def on_sctx_answers)
  next
    case l
    then show ?thesis using cmd_len_answers [of "{#}" ?x] d(1,7)
      by (intro implementsI [OF does_len [of _ _ n, folded l]]) (simp_all add: run_proc_def on_sctx_answers count_reply_def)
  next
    case s
    then show ?thesis using cmd_set_answers [of "{#}" ?x n k v] d(1-3) cov
      by (intro implementsI [OF does_set [of _ _ n k v, folded s]]) (simp_all add: run_proc_def on_sctx_answers droppable_def)
  next
    case d
    then show ?thesis using cmd_del_answers [of "{#}" ?x n k] loadedD(1,2) [OF l] cov
      by (intro implementsI [OF does_del [of _ _ n k, folded d]]) (simp_all add: run_proc_def on_sctx_answers droppable_def)
  next
    case e
    then show ?thesis using cmd_exists_answers [of "{#}" ?x n k] d(1,2)
      by (intro implementsI [OF does_exists [of _ _ n k, folded e]]) (simp_all add: run_proc_def on_sctx_answers)
  next
    case t
    then show ?thesis using cmd_type_answers [of "{#}" ?x n k] d(1,2)
      by (intro implementsI [OF does_type [of _ _ n k, folded t]]) (simp_all add: run_proc_def on_sctx_answers)
  qed
qed

text \<open>The commands that open with \<open>with_typed\<close>, on a key that is missing or of another type.\<close>

lemma typed_other_does:
  fixes x :: "'d::linorder server"
  assumes l: "loaded x (n # k # ss)" and run: "run_proc e p x = on_sctx (\<lambda>x. with_typed x ty body) x"
    and p: "p \<in> (if ty = OBJ_HASH then {P_rdel, P_rkeys, P_rvalues, P_rgetall, P_rpget} else {P_hqpop, P_hqpeek})"
      "ty = OBJ_HASH \<or> ty = OBJ_HEAPQ"
    and no: "\<And>v. keyspace x (cstr k) = Some v \<Longrightarrow> \<not> val_is ty v"
  shows "implements e p x (n # k # ss)"
proof -
  have "answers {#} (with_typed (sctx.truncate x) ty body) (sctx.truncate x)
      (if keyspace x (cstr k) = None then missing else wrongtype) (keyspace x)"
    using with_typed_other [OF loadedD(1,2) [OF l]] no by simp
  then have a: "answers {#} (run_proc e p x) x (if keyspace x (cstr k) = None then missing else wrongtype) (keyspace x)"
    unfolding run by (rule on_sctx_answers)
  show ?thesis
  proof (rule implementsI [OF _ a], cases "keyspace x (cstr k)")
    case None
    then show "does (fl e) (keyspace x) p (n # k # ss) (if keyspace x (cstr k) = None then missing else wrongtype) (keyspace x)"
      using p by (auto intro!: does_missing split: if_split_asm)
  next
    case (Some v)
    then show "does (fl e) (keyspace x) p (n # k # ss) (if keyspace x (cstr k) = None then missing else wrongtype) (keyspace x)"
      using p no [OF Some] by (auto intro: does_wrong_trie [where k = k and v = v] does_wrong_heap [where k = k and v = v] split: if_split_asm)
  qed
qed

lemma tries_read_do:
  assumes l: "loaded x as" and p: "p \<in> {P_rget, P_rexists, P_rlen}" and len: "nwords p = Some (length as)"
  shows "implements e p x as"
proof -
  let ?x = "sctx.truncate x" and ?K = "keyspace x"
  note d = loadedD [OF l]
  consider (g) n k f where "p = P_rget" "as = [n, k, f]" | (e) n k f where "p = P_rexists" "as = [n, k, f]"
    | (l) n k where "p = P_rlen" "as = [n, k]"
    using p len words_2 [of as] words_3 [of as] by auto
  then show ?thesis
  proof cases
    case g
    have "length s < 2 ^ 63" if "?K (cstr k) = Some v" "trie_get v (cstr f) = Some s" for v s
      using val_short_get [OF d(5) [OF that(1)] that(2)] by simp
    then show ?thesis using cmd_rget_answers [of "{#}" ?x n k f] d(1,2) g
      by (intro implementsI [OF does_rget [of _ _ n k f, folded g]]) (simp_all add: run_proc_def on_sctx_answers)
  next
    case e
    then show ?thesis using cmd_rexists_answers [of "{#}" ?x n k f] d(1,2)
      by (intro implementsI [OF does_rexists [of _ _ n k f, folded e]]) (simp_all add: run_proc_def on_sctx_answers)
  next
    case l
    have "card (dom (trie_get v)) < 2 ^ 63" if "?K (cstr k) = Some v" for v using trie_get_size [of v] d(6) [OF that] by simp
    then show ?thesis using cmd_rlen_answers [of "{#}" ?x n k] d(1,2) l
      by (intro implementsI [OF does_rlen [of _ _ n k, folded l]]) (simp_all add: run_proc_def on_sctx_answers)
  qed
qed

lemma val_is_trie: "val_is OBJ_HASH v \<longleftrightarrow> v = VTrie (trie_get v)" and val_is_heap: "val_is OBJ_HEAPQ v \<longleftrightarrow> v = VHeap (heap_items v)"
  by (cases v; simp)+

lemma tries_list_do:
  assumes l: "loaded x as" and p: "p \<in> {P_rkeys, P_rvalues, P_rgetall, P_rpget}" and len: "nwords p = Some (length as)"
    and cov: "covers (keyspace x) p as"
  shows "implements e p x as"
proof -
  let ?x = "sctx.truncate x" and ?K = "keyspace x"
  note d = loadedD [OF l]
  obtain n k ss where as: "as = n # k # ss" using p len words_2 [of as] words_3 [of as] by auto
  show ?thesis
  proof (cases "\<exists>v. ?K (cstr k) = Some v \<and> val_is OBJ_HASH v")
    case False
    have "\<exists>body. run_proc e p x = on_sctx (\<lambda>x. with_typed x OBJ_HASH body) x"
      using p by (auto simp: run_proc_def rr_cmd_rkeys_def rr_cmd_rvalues_def rr_cmd_rgetall_def rr_cmd_rpget_def get_all_def [abs_def]
          cmd_get_prefix_def [abs_def])
    then show ?thesis using typed_other_does [of x n k ss e p OBJ_HASH] l p False as by auto
  next
    case True
    then obtain v where v: "?K (cstr k) = Some v" "val_is OBJ_HASH v" by blast
    then have m: "?K (cstr k) = Some (VTrie (trie_get v))" using val_is_trie by metis
    have st: "short_trie v" using val_short_trie [OF d(5) [OF v(1)]] d(6) [OF v(1)] by simp
    have all: "\<exists>kvs. listed (trie_get v) kvs \<and> answers {#} (on_sctx (get_all wk wv) x) x (listing wk wv kvs) ?K" if "ss = []" for wk wv
      using get_all_found [of "{#}" ?x n k v wk wv] d(1,2) v st as that on_sctx_answers [of "{#}" "get_all wk wv" x] by auto
    show ?thesis
    proof (cases "p = P_rpget")
      case True
      then obtain q where ss: "ss = [q]" using len as words_1 [of ss] by auto
      have "dom (trie_get v) = {} \<or> (\<exists>f\<in>dom (trie_get v). take (length (cstr q)) f = cstr q)" using cov True as ss m by simp
      then obtain kvs where "listed (trie_get v) kvs" "answers {#} (rr_cmd_rpget ?x) ?x (listing True True (prefixed (cstr q) kvs)) ?K"
        using get_prefix_found [of "{#}" ?x n k q v] d(1,2) v st as ss by (auto simp: prefixed_def)
      then show ?thesis unfolding as ss True
        by (intro implementsI [OF does_rpget [where K = "keyspace x" and k = k, OF m]]) (auto simp: run_proc_def intro: on_sctx_answers)
    next
      case False
      then have "ss = []" using len as p by auto
      then show ?thesis using p False all [of True False] all [of False True] all [of True True] unfolding as
        by (auto intro: implementsI does_rkeys [where K = "keyspace x" and k = k, OF m] does_rvalues [where K = "keyspace x" and k = k, OF m] does_rgetall [where K = "keyspace x" and k = k, OF m]
            simp: run_proc_def rr_cmd_rkeys_def rr_cmd_rvalues_def rr_cmd_rgetall_def)
    qed
  qed
qed

lemma tries_write_do:
  assumes l: "loaded x as" and p: "p \<in> {P_rset, P_rdel}" and len: "nwords p = Some (length as)"
    and cov: "covers (keyspace x) p as"
  shows "implements e p x as"
proof -
  let ?x = "sctx.truncate x" and ?K = "keyspace x"
  note d = loadedD [OF l]
  consider (s) n k f v where "p = P_rset" "as = [n, k, f, v]" | (d) n k f where "p = P_rdel" "as = [n, k, f]"
    using p len words_3 [of as] words_4 [of as] by auto
  then show ?thesis
  proof cases
    case s
    let ?w = "val_or_fresh OBJ_HASH (?K (cstr k))"
    note a = cmd_rset_answers [of "{#}" ?x n k f v, OF d(1) _ d(4)]
    show ?thesis
    proof (cases "val_is OBJ_HASH ?w")
      case True
      then show ?thesis using a d(2) unfolding s
        by (intro implementsI [OF does_rset [where K = ?K and k = k, OF refl True]]) (simp_all add: run_proc_def on_sctx_answers)
    next
      case False
      then have "?K (cstr k) = Some ?w" by (simp add: val_or_fresh_def split: option.splits)
      with False show ?thesis using a d(2) unfolding s
        by (intro implementsI [OF does_wrong_trie [where k = k and v = ?w]]) (simp_all add: run_proc_def on_sctx_answers)
    qed
  next
    case d
    show ?thesis
    proof (cases "\<exists>v. ?K (cstr k) = Some v \<and> val_is OBJ_HASH v")
      case True
      then obtain m where m: "?K (cstr k) = Some (VTrie m)" using val_is_trie by metis
      moreover from this have "m (cstr f) \<noteq> None" using cov d by simp
      ultimately have "answers {#} (rr_cmd_rdel ?x) ?x ('':1'' @ CRLF) (?K(cstr k \<mapsto> VTrie (m(cstr f := None))))"
        using rdel_found [of "{#}" ?x n k f m] loadedD(1,2) [OF l] d by simp
      then show ?thesis using \<open>m (cstr f) \<noteq> None\<close> unfolding d
        by (intro implementsI [OF does_rdel [where K = ?K and k = k, OF m]]) (simp_all add: run_proc_def on_sctx_answers)
    next
      case False
      have "run_proc e p x = on_sctx (\<lambda>x. with_typed x OBJ_HASH (\<lambda>x a. rbind (trie_of x a) (\<lambda>d. rbind (arg_key x 2) (\<lambda>key.
         case dict_del d key of (d', del) \<Rightarrow> rbind (put_trie x a d') (\<lambda>x. rbind (rr_obj_free_callback (store x) del) (\<lambda>st.
               reply_add_obj (x\<lparr>store := st\<rparr>) (if del = None then shared_czero else shared_cone))))))) x"
        using d by (simp add: run_proc_def rr_cmd_rdel_def [abs_def])
      then show ?thesis using typed_other_does [of x n k "[f]" e p OBJ_HASH] l d False by auto
    qed
  qed
qed

lemma heaps_do:
  assumes l: "loaded x as" and p: "p \<in> {P_hqpush, P_hqlen}" and len: "nwords p = Some (length as)"
  shows "implements e p x as"
proof -
  let ?x = "sctx.truncate x" and ?K = "keyspace x"
  note d = loadedD [OF l]
  consider (u) n k s v where "p = P_hqpush" "as = [n, k, s, v]" | (l) n k where "p = P_hqlen" "as = [n, k]"
    using p len words_2 [of as] words_4 [of as] by auto
  then show ?thesis
  proof cases
    case u
    let ?w = "val_or_fresh OBJ_HEAPQ (?K (cstr k))"
    show ?thesis
    proof (cases "read_score (fl e) s")
      case None
      then show ?thesis using hqpush_bad_score [OF d(1), of n k s v "fl e"] d(2) unfolding u
        by (intro implementsI [OF does_hqpush_bad [OF None]]) (simp_all add: run_proc_def on_sctx_answers)
    next
      case (Some sc)
      have "size (heap_items ?w) + 1 < 2 ^ 31"
        using d(6) [of "cstr k"] heap_items_size [of ?w] by (cases "?K (cstr k)") (fastforce simp: val_or_fresh_def heap_items_def)+
      then have a: "answers {#} (rr_cmd_hqpush (fl e) ?x) ?x (if val_is OBJ_HEAPQ ?w then ''+OK'' @ CRLF else wrongtype)
          (if val_is OBJ_HEAPQ ?w then ?K(cstr k \<mapsto> VHeap (add_mset (sc, v) (heap_items ?w))) else ?K)"
        using cmd_hqpush_answers [of "{#}" ?x n k s v "fl e" sc, unfolded sctx_same, OF d(8) _ d(4)] d(9) u Some by simp
      show ?thesis
      proof (cases "val_is OBJ_HEAPQ ?w")
        case True
        then show ?thesis using a unfolding u
          by (intro implementsI [OF does_hqpush [where K = ?K and k = k, OF refl True Some]]) (simp_all add: run_proc_def on_sctx_answers)
      next
        case False
        then have "?K (cstr k) = Some ?w" by (simp add: val_or_fresh_def split: option.splits)
        with False show ?thesis using a unfolding u
          by (intro implementsI [OF does_wrong_heap [where k = k and v = ?w]]) (simp_all add: run_proc_def on_sctx_answers)
      qed
    qed
  next
    case l
    have "size (heap_items v) < 2 ^ 63" if "?K (cstr k) = Some v" for v using heap_items_size [of v] d(6) [OF that] by simp
    then show ?thesis using cmd_hqlen_answers [of "{#}" ?x n k] d(1,2) l
      by (intro implementsI [OF does_hqlen [of _ _ n k, folded l]]) (simp_all add: run_proc_def on_sctx_answers)
  qed
qed

lemma heaps_take_do:
  assumes l: "loaded x as" and p: "p \<in> {P_hqpop, P_hqpeek}" and len: "nwords p = Some (length as)"
  shows "implements e p x as"
proof -
  let ?x = "sctx.truncate x" and ?K = "keyspace x"
  note d = loadedD [OF l]
  obtain n k where as: "as = [n, k]" using p len words_2 [of as] by auto
  show ?thesis
  proof (cases "\<exists>v. ?K (cstr k) = Some v \<and> val_is OBJ_HEAPQ v")
    case False
    have "\<exists>body. run_proc e p x = on_sctx (\<lambda>x. with_typed x OBJ_HEAPQ body) x"
      using p by (auto simp: run_proc_def rr_cmd_hqpop_def [abs_def] rr_cmd_hqpeek_def [abs_def])
    then show ?thesis using typed_other_does [of x n k "[]" e p OBJ_HEAPQ] l p False as by auto
  next
    case True
    then obtain h where h: "?K (cstr k) = Some (VHeap h)" using val_is_heap by metis
    have short: "length v < 2 ^ 63" if "(sc, v) \<in># h" for sc v using val_short_item [OF d(5) [OF h] that] .
    have x: "srv_wf {#} ?x" "args_are ?x [n, k]" "keyspace ?x (cstr k) = Some (VHeap h)" using d(1,2) as h by simp_all
    show ?thesis
    proof (cases "h = {#}")
      case True
      have "answers {#} (rr_cmd_hqpop ?x) ?x (''$-1'' @ CRLF) ?K" using hqpop_empty [OF x(1,2)] x(3) True by simp
      moreover have "answers {#} (rr_cmd_hqpeek ?x) ?x (''$-1'' @ CRLF) ?K" using hqpeek_found [OF x] short True by simp
      moreover have "?K (cstr k) = Some (VHeap {#})" using h True by simp
      ultimately have "implements e P_hqpop x [n, k]" "implements e P_hqpeek x [n, k]"
        using implementsI [OF does_hqpop_empty [where K = ?K and k = k]] implementsI [OF does_hqpeek_empty [where K = ?K and k = k]]
        by (simp_all add: run_proc_def on_sctx_answers)
      then show ?thesis using p as by auto
    next
      case False
      obtain sc v where pop: "(sc, v) \<in># h" "\<forall>p\<in>#h. sc \<le> fst p"
        "answers {#} (rr_cmd_hqpop ?x) ?x (bulk v) (?K(cstr k \<mapsto> VHeap (h - {#(sc, v)#})))"
        using hqpop_found [OF x False] short unfolding sctx_same by blast
      obtain sc' v' where peek: "(sc', v') \<in># h" "\<forall>p\<in>#h. sc' \<le> fst p" "answers {#} (rr_cmd_hqpeek ?x) ?x (bulk v') ?K"
        using hqpeek_found [OF x] short False by auto
      have "implements e P_hqpop x [n, k]"
        by (rule implementsI [OF does_hqpop [where K = ?K and k = k, OF h pop(1,2)]]) (use pop(3) in \<open>simp add: run_proc_def on_sctx_answers\<close>)
      moreover have "implements e P_hqpeek x [n, k]"
        by (rule implementsI [OF does_hqpeek [where K = ?K and k = k, OF h peek(1,2)]]) (use peek(3) in \<open>simp add: run_proc_def on_sctx_answers\<close>)
      ultimately show ?thesis using p as by auto
    qed
  qed
qed

lemma admin_do:
  fixes x :: "'d::linorder server"
  assumes l: "loaded x as" and p: "p \<in> {P_ping, P_echo}" and len: "p = P_echo \<Longrightarrow> length as = 2" "as \<noteq> []"
    and ping: "p = P_ping \<Longrightarrow> \<exists>c. cmd_at x (cmd x) = Inr c \<and> name c = ''ping''"
  shows "implements e p x as"
proof -
  note d = loadedD(8,9) [OF l]
  have n: "length (argv (cl x)) = length as" using d(2) by (simp add: args_are_def list_all2_lengthD)
  have bulk: "answers {#} (rbind (arg_obj x 1) (reply_add_bulk_obj x)) x (bulk (as ! 1)) (keyspace x)" if two: "length as = 2"
  proof -
    obtain r where r: "objs (store x) (argv (cl x) ! 1) = Some r" "string_ok r" "ptr r = PStr (as ! 1)"
      using args_are_at(2) [OF d(2), of 1] two by (auto simp: raw_at_def)
    have "as ! 1 \<in> set as" using two by simp
    then have "length (as ! 1) \<le> 512 * 1024 * 1024" using l unfolding loaded_def short_args_def by blast
    then have "length (as ! 1) < 2 ^ 63" by simp
    then show ?thesis
      using says_answers [OF reply_add_bulk_obj_says [OF srv_ready [OF d(1)] r(2)] d(1)] r args_are_at(1) [OF d(2), of 1] two
      by (simp add: arg_obj_def get_obj_def obj_str_def)
  qed
  consider (one) n where "p = P_ping" "as = [n]" | (two) n s where "p = P_ping" "as = [n, s]" | (many) "p = P_ping" "2 < length as"
    | (echo) n s where "p = P_echo" "as = [n, s]"
    using p len words_2 [of as] by (cases as rule: remdups_adj.cases) auto
  then show ?thesis
  proof cases
    case one
    then show ?thesis using reply_shared_answers [OF d(1), of "''+PONG'' @ CRLF"] n
      by (intro implementsI [OF does_ping [of _ _ n, folded one]]) (simp_all add: run_proc_def rr_cmd_admin_ping_def shared_pong_def)
  next
    case two
    then show ?thesis using bulk n
      by (intro implementsI [OF does_ping_echo [of _ _ n s, folded two]]) (simp_all add: run_proc_def rr_cmd_admin_ping_def)
  next
    case many
    obtain c where c: "cmd_at x (cmd x) = Inr c" "name c = ''ping''" using ping many by blast
    show ?thesis unfolding many(1)
      using says_answers [OF reply_add_err_format_says [OF srv_ready [OF d(1)]] d(1), of "wrong_arity ''ping''"] n many c
      by (intro implementsI [OF does_ping_many]) (simp_all add: run_proc_def rr_cmd_admin_ping_def err_reply_def)
  next
    case echo
    then show ?thesis using bulk n
      by (intro implementsI [OF does_echo [of _ _ n s, folded echo]]) (simp_all add: run_proc_def rr_cmd_admin_echo_def)
  qed
qed

lemma run_proc_does:
  fixes x :: "'d::linorder server"
  assumes "loaded x as" and "covers (keyspace x) p as" and "\<forall>m. nwords p = Some m \<longrightarrow> length as = m" "as \<noteq> []"
    and "p = P_ping \<Longrightarrow> \<exists>c. cmd_at x (cmd x) = Inr c \<and> name c = ''ping''"
  shows "implements e p x as"
  using strings_do [OF assms(1), of p e] tries_read_do [OF assms(1), of p e] tries_list_do [OF assms(1), of p e]
    tries_write_do [OF assms(1), of p e] heaps_do [OF assms(1), of p e] heaps_take_do [OF assms(1), of p e]
    admin_do [OF assms(1), of p e] assms(2-)
  by (cases p) simp_all

section \<open>Requests\<close>

definition find_cmd :: "string \<Rightarrow> redisCommand option" where
  "find_cmd n = map_option ((!) redisCommandTable) (cmd_index n)"

definition wrong_count :: "redisCommand \<Rightarrow> nat \<Rightarrow> bool" where
  "wrong_count c n \<longleftrightarrow> arity c > 0 \<and> arity c \<noteq> int n \<or> int n < - arity c"

text \<open>The name of the command as \<^verbatim>\<open>cmd_lookup\<close> reads it.\<close>

definition cmd_name :: "string \<Rightarrow> string" where
  "cmd_name n = cstr (map tolower n)"

inductive responds :: "'d::linorder floats \<Rightarrow> 'd ks \<Rightarrow> string list \<Rightarrow> string \<Rightarrow> 'd ks \<Rightarrow> bool"
  for ff :: "'d::linorder floats" and K :: "'d ks" where
  unknown: "find_cmd (cmd_name n) = None \<Longrightarrow> responds ff K (n # ss) (err_reply (unknown_command (cmd_name n))) K"
| arity: "find_cmd (cmd_name n) = Some c \<Longrightarrow> wrong_count c (length (n # ss)) \<Longrightarrow> responds ff K (n # ss) (err_reply (wrong_arity (name c))) K"
| runs: "find_cmd (cmd_name n) = Some c \<Longrightarrow> \<not> wrong_count c (length (n # ss)) \<Longrightarrow> does ff K (proc c) (map tolower n # ss) out K' \<Longrightarrow>
    responds ff K (n # ss) out K'"

text \<open>The requests whose answers the machine describes: not \<^verbatim>\<open>QUIT\<close>, and covered when they run.\<close>

definition may :: "'d ks \<Rightarrow> string list \<Rightarrow> bool" where
  "may K as \<longleftrightarrow> as \<noteq> [] \<and> \<not> strcaseeq (cstr (hd as)) ''quit'' \<and>
     (\<forall>c. find_cmd (cmd_name (hd as)) = Some c \<longrightarrow> \<not> wrong_count c (length as) \<longrightarrow> covers K (proc c) (map tolower (hd as) # tl as))"

lemma find_cmd_table:
  assumes "find_cmd n = Some c"
  shows "c \<in> set redisCommandTable" and "name c = n"
proof -
  obtain i where i: "cmd_index n = Some i" "c = redisCommandTable ! i" using assms by (auto simp: find_cmd_def)
  then have "(n, i) \<in> set (zip (map name redisCommandTable) [0..<length redisCommandTable])" by (auto simp: cmd_index_def dest: map_of_SomeD)
  then have "i < length redisCommandTable" "n = name (redisCommandTable ! i)" by (auto simp: set_zip)
  then show "c \<in> set redisCommandTable" "name c = n" using i(2) by simp_all
qed

lemma table_words:
  assumes "c \<in> set redisCommandTable" and "\<not> wrong_count c n"
  shows "\<forall>m. nwords (proc c) = Some m \<longrightarrow> n = m" and "proc c = P_ping \<Longrightarrow> name c = ''ping''"
proof -
  have "list_all (\<lambda>c. \<forall>m. nwords (proc c) = Some m \<longrightarrow> arity c = int m \<and> 0 < m) redisCommandTable"
    by (simp add: redisCommandTable_def command_def)
  then have "\<forall>m. nwords (proc c) = Some m \<longrightarrow> arity c = int m \<and> 0 < m" using assms(1) by (simp add: list_all_iff)
  then show "\<forall>m. nwords (proc c) = Some m \<longrightarrow> n = m" using assms(2) by (auto simp: wrong_count_def)
  have "list_all (\<lambda>c. proc c = P_ping \<longrightarrow> name c = ''ping'') redisCommandTable" by (simp add: redisCommandTable_def command_def)
  then show "proc c = P_ping \<Longrightarrow> name c = ''ping''" using assms(1) by (simp add: list_all_iff)
qed

lemma cmd_at_table:
  assumes "table_ok x" and "cmd_index n = Some i"
  obtains c c' where "cmd_at x (Some i) = Inr c'" and "find_cmd n = Some c" and "same_command c c'" and "i < length (cmd_table x)"
proof -
  have "(n, i) \<in> set (zip (map name redisCommandTable) [0..<length redisCommandTable])"
    using assms(2) by (auto simp: cmd_index_def dest: map_of_SomeD)
  then have "i < length redisCommandTable" by (auto simp: set_zip)
  moreover have l: "list_all2 same_command redisCommandTable (cmd_table x)" using assms(1) by (simp add: table_ok_def)
  ultimately have "i < length (cmd_table x)" "same_command (redisCommandTable ! i) (cmd_table x ! i)"
    by (auto simp: list_all2_conv_all_nth)
  then show thesis using that assms(2) by (simp add: cmd_at_def find_cmd_def)
qed

text \<open>What a command leaves of the rest of the server.\<close>

lemma server_more:
  fixes x y :: "'d server"
  assumes "sctx.more y = sctx.more x"
  shows "commands y = commands x" and "cmd_table y = cmd_table x" and "lastcmd y = lastcmd x"
    and "client_max_query_len y = client_max_query_len x"
proof -
  have e: "commands (sctx.extend a (sctx.more x)) = commands x" "cmd_table (sctx.extend a (sctx.more x)) = cmd_table x"
    "lastcmd (sctx.extend a (sctx.more x)) = lastcmd x"
    "client_max_query_len (sctx.extend a (sctx.more x)) = client_max_query_len x" for a :: "'d sctx"
    by (cases x; simp add: sctx.extend_def)+
  have "y = sctx.extend (sctx.truncate y) (sctx.more y)"
    by (rule trans [OF sctx.surjective]) (simp add: sctx.extend_def sctx.truncate_def)
  then have y: "y = sctx.extend (sctx.truncate y) (sctx.more x)" unfolding assms .
  show "commands y = commands x" by (subst y) (rule e)
  show "cmd_table y = cmd_table x" by (subst y) (rule e)
  show "lastcmd y = lastcmd x" by (subst y) (rule e)
  show "client_max_query_len y = client_max_query_len x" by (subst y) (rule e)
qed

lemma call_ok:
  fixes x :: "'d::linorder server"
  assumes t: "table_ok x" and c: "cmd_index n = Some i" "cmd x = Some i" "lastcmd x = Some i"
    and r: "cmd_at x (Some i) = Inr c'" "run_proc e (proc c') x = Inr y"
  obtains z where "call e x = Inr z" and "table_ok z" and "sctx.truncate z = sctx.truncate y" and "client_max_query_len z = client_max_query_len x"
proof -
  have "conn y = conn x" by (rule conn_run_proc [OF r(2)])
  then have more: "sctx.more y = sctx.more x" by (simp add: conn_def)
  have same: "commands y = commands x" "cmd_table y = cmd_table x" "lastcmd y = lastcmd x" "client_max_query_len y = client_max_query_len x"
    by (rule server_more [OF more])+
  let ?c = "c'\<lparr>microseconds := to_ll (microseconds c' + elapsed e), calls := to_ll (calls c' + 1)\<rparr>"
  define z where "z = y\<lparr>cmd_table := (cmd_table y)[i := ?c], ncmd_complete := to_ll (ncmd_complete y + 1)\<rparr>"
  have i: "i < length (cmd_table x)" "cmd_table x ! i = c'" using r(1) by (auto simp: cmd_at_def split: if_split_asm)
  have "cmd_at y (lastcmd y) = Inr c'" using i by (simp add: cmd_at_def same c(3))
  then have "call e x = Inr z" unfolding call_def c(2) r(1) rbind_simps r(2) Let_def z_def same(3) c(3) option.sel by simp
  moreover have "list_all2 same_command redisCommandTable ((cmd_table x)[i := ?c])"
    using t i by (auto simp: table_ok_def list_all2_conv_all_nth nth_list_update same_command_def)
  then have "table_ok z" using t same by (simp add: table_ok_def z_def)
  moreover have "sctx.truncate z = sctx.truncate y" by (simp add: z_def sctx.truncate_def)
  ultimately show thesis using that same by (simp add: z_def)
qed

section \<open>Serving a request\<close>

text \<open>A server whose only client is not being closed, with lazy deletion off.\<close>

definition steady :: "'d::linorder server \<Rightarrow> bool" where
  "steady x \<longleftrightarrow> srv_wf {#} x \<and> bgtasks x = [] \<and> \<not> lazyfree_server_del x \<and> accepts (cl x) \<and> table_ok x \<and>
     client_max_query_len x = PROTO_QUERY_MAX_LEN"

definition budget :: "'d ks \<Rightarrow> nat \<Rightarrow> bool" where
  "budget K n \<longleftrightarrow> ks_ok K \<and> ks_size K + n + 2 < 2 ^ 31 - 1"

lemma conn_accepts:
  assumes "fst (conn y) = fst (conn x)"
  shows "accepts (cl y) = accepts (cl x)"
proof -
  have c: "CLIENT_CLOSE_AFTER_REPLY AND NOT CLIENT_PENDING_WRITE = CLIENT_CLOSE_AFTER_REPLY"
    by (simp add: CLIENT_CLOSE_AFTER_REPLY_def CLIENT_PENDING_WRITE_def)
  have "has_flag w CLIENT_CLOSE_AFTER_REPLY = has_flag (w AND NOT CLIENT_PENDING_WRITE) CLIENT_CLOSE_AFTER_REPLY" for w
    by (subst c [symmetric]) (simp add: has_flag_def ac_simps)
  moreover have "flags (cl y) AND NOT CLIENT_PENDING_WRITE = flags (cl x) AND NOT CLIENT_PENDING_WRITE" "fd (cl y) = fd (cl x)"
    using assms by (simp_all add: conn_def)
  ultimately show ?thesis unfolding accepts_def by metis
qed

text \<open>The state \<^verbatim>\<open>cmd_process\<close> leaves: the command answered, and the server is ready for the reset.\<close>

definition answered :: "'d::linorder server \<Rightarrow> string \<Rightarrow> 'd ks \<Rightarrow> 'd server \<Rightarrow> bool" where
  "answered x out K y \<longleftrightarrow> steady y \<and> keyspace y = K \<and> outstanding (cl y) = outstanding (cl x) @ out \<and> query (cl y) = query (cl x)"

lemma answeredI:
  assumes "steady x" and a: "answers {#} m x out K" "m = Inr y" and c: "conn y = conn x" and t: "table_ok y"
    and q: "client_max_query_len y = client_max_query_len x"
  shows "answered x out K y"
proof -
  have y: "srv_wf {#} y" "keyspace y = K" "outstanding (cl y) = outstanding (cl x) @ (if accepts (cl x) then out else [])"
    using a by (auto simp: answers_def)
  have "query (cl y) = query (cl x)" "lazyfree_server_del y = lazyfree_server_del x" using c by (simp_all add: conn_def)
  moreover have "bgtasks y = bgtasks x" using c assms(1) by (auto simp: conn_def steady_def)
  moreover have "accepts (cl y) = accepts (cl x)" by (rule conn_accepts) (simp add: c)
  ultimately show ?thesis using y t q assms(1) by (simp add: answered_def steady_def)
qed

lemma cmd_process_run:
  fixes x :: "'d::linorder server"
  assumes s: "steady x" and a: "args_are x (n # ss)" "short_args (n # ss)" and b: "budget (keyspace x) (length (n # ss))"
    and i: "cmd_index m = Some i" "cmd x = Some i" "lastcmd x = Some i"
    and c: "find_cmd m = Some c" "cmd_at x (Some i) = Inr c'" "same_command c c'"
    and ok: "\<not> wrong_count c (length (n # ss))" "covers (keyspace x) (proc c) (n # ss)"
  shows "\<exists>z out K'. call e x = Inr z \<and> does (fl e) (keyspace x) (proc c) (n # ss) out K' \<and> answered x out K' z"
proof -
  note w = table_words [OF find_cmd_table(1) [OF c(1)] ok(1)]
  have "loaded x (n # ss)" using s a b by (simp add: loaded_def steady_def budget_def)
  moreover have "cmd_at x (cmd x) = Inr c'" "name c' = name c" "proc c' = proc c" using i(2) c(2,3) by (simp_all add: same_command_def)
  ultimately have "implements e (proc c) x (n # ss)" using w ok(2) by (intro run_proc_does) auto
  then obtain out K' y where d: "does (fl e) (keyspace x) (proc c) (n # ss) out K'" "answers {#} (run_proc e (proc c) x) x out K'"
    "run_proc e (proc c) x = Inr y" by (auto simp: implements_def answers_def)
  have "table_ok x" using s by (simp add: steady_def)
  then obtain z where z: "call e x = Inr z" "table_ok z" "sctx.truncate z = sctx.truncate y" "client_max_query_len z = client_max_query_len x"
    using call_ok [OF _ i c(2)] d(3) \<open>proc c' = proc c\<close> by metis
  have eq: "cl z = cl y" "lazyfree_server_del z = lazyfree_server_del y" "bgtasks z = bgtasks y" "keyspace z = keyspace y" "srv_wf {#} z = srv_wf {#} y"
    using z(3) by (metis sctx_fields(1,4,5) sctx_same(1,2))+
  have "conn y = conn x" by (rule conn_run_proc [OF d(3)])
  moreover from this have "table_ok y" "client_max_query_len y = client_max_query_len x"
    using server_more [of y x] \<open>table_ok x\<close> by (simp_all add: conn_def table_ok_def)
  ultimately have "answered x out K' y" by (intro answeredI [OF s d(2,3)])
  then have "answered x out K' z" using z(2,4) s by (simp add: answered_def steady_def eq)
  then show ?thesis using z(1) d(1) by blast
qed

lemma answered_err:
  fixes x :: "'d::linorder server"
  assumes "steady x"
  shows "answered x (err_reply s) (keyspace x) (reply_add_err_format x s)"
proof (rule answeredI [OF assms _ refl])
  have wf: "srv_wf {#} x" using assms by (simp add: steady_def)
  then show "answers {#} (Inr (reply_add_err_format x s)) x (err_reply s) (keyspace x)"
    unfolding err_reply_def by (intro says_answers reply_add_err_format_says srv_ready)
  have "sctx.more (reply_add_err_format x s) = sctx.more x" using conn_reply_simps(5) [of x s] by (simp add: conn_def)
  then show "table_ok (reply_add_err_format x s)" "client_max_query_len (reply_add_err_format x s) = client_max_query_len x"
    using server_more [of "reply_add_err_format x s" x] assms by (simp_all add: table_ok_def steady_def)
qed simp

text \<open>Looking up the command: the words are the same but for the case of the first.\<close>

lemma cmd_lookup_ok:
  fixes x :: "'d::linorder server"
  assumes s: "steady x" and own: "own_args {#} x" and args: "args_are x (n # ss)"
  obtains y where "cmd_lookup x = Inr (cmd_index (cmd_name n), y)"
    and "steady (y\<lparr>cmd := p, lastcmd := p\<rparr>)" and "keyspace (y\<lparr>cmd := p, lastcmd := p\<rparr>) = keyspace x"
    and "args_are (y\<lparr>cmd := p, lastcmd := p\<rparr>) (map tolower n # ss)" and "cl y = cl x"
proof -
  have wf: "srv_wf {#} x" using s by (simp add: steady_def)
  obtain a r where ar: "argv_at x 0 = Inr a" "get_obj (store x) a = Inr r" "ptr_sds r = Inr n"
    "srv_wf {#} (x\<lparr>store := set_obj (store x) a (r\<lparr>ptr := PStr (map tolower n)\<rparr>)\<rparr>)"
    "keyspace (x\<lparr>store := set_obj (store x) a (r\<lparr>ptr := PStr (map tolower n)\<rparr>)\<rparr>) = keyspace x"
    "args_are (x\<lparr>store := set_obj (store x) a (r\<lparr>ptr := PStr (map tolower n)\<rparr>)\<rparr>) (map tolower n # ss)"
    by (rule lower_arg [OF wf own args])
  define y where "y = x\<lparr>store := set_obj (store x) a (r\<lparr>ptr := PStr (map tolower n)\<rparr>)\<rparr>"
  have same: "sctx.truncate (y\<lparr>cmd := p, lastcmd := p\<rparr>) = sctx.truncate y" for p by (simp add: sctx.truncate_def)
  have yc: "srv_wf {#} (y\<lparr>cmd := p, lastcmd := p\<rparr>)" "keyspace (y\<lparr>cmd := p, lastcmd := p\<rparr>) = keyspace x"
    "args_are (y\<lparr>cmd := p, lastcmd := p\<rparr>) (map tolower n # ss)" for p
    using ar(4-6) [folded y_def] same [of p] by (metis sctx_same(1-3))+
  have "dict_get (commands x) (cstr (map tolower n)) = cmd_index (cmd_name n)"
    using s by (simp add: steady_def table_ok_def dict_get_map cmd_name_def)
  then have "cmd_lookup x = Inr (cmd_index (cmd_name n), y)" using ar(1-3) by (simp add: cmd_lookup_def y_def)
  moreover have "steady (y\<lparr>cmd := p, lastcmd := p\<rparr>)" for p
    using s yc(1) [of p] by (simp add: steady_def table_ok_def y_def)
  ultimately show thesis using that yc by (simp add: y_def)
qed

lemma cmd_process_ok:
  fixes x :: "'d::linorder server"
  assumes s: "steady x" and own: "own_args {#} x" and args: "args_are x as" and m: "may (keyspace x) as"
    and b: "budget (keyspace x) (length as)" "short_args as"
  shows "\<exists>z out K'. cmd_process e x = Inr (True, z) \<and> responds (fl e) (keyspace x) as out K' \<and> answered x out K' z"
proof -
  obtain n ss where as: "as = n # ss" using m by (cases as) (auto simp: may_def)
  let ?p = "cmd_index (cmd_name n)"
  obtain y where y: "cmd_lookup x = Inr (?p, y)" "steady (y\<lparr>cmd := ?p, lastcmd := ?p\<rparr>)"
    "keyspace (y\<lparr>cmd := ?p, lastcmd := ?p\<rparr>) = keyspace x"
    "args_are (y\<lparr>cmd := ?p, lastcmd := ?p\<rparr>) (map tolower n # ss)" "cl y = cl x"
    by (rule cmd_lookup_ok [OF s own args [unfolded as], of ?p])
  define z where "z = y\<lparr>cmd := cmd_index (cmd_name n), lastcmd := cmd_index (cmd_name n)\<rparr>"
  note zs = y(2-4) [folded z_def]
  have clz: "cl z = cl x" by (simp add: z_def y(5))
  have len: "length (argv (cl z)) = length as" using zs(3) as by (simp add: args_are_def list_all2_lengthD)
  have key: "arg_key x 0 = Inr (cstr n)" "arg_key z 0 = Inr (cmd_name n)"
    using args_are_at(3) [OF args, of 0] args_are_at(3) [OF zs(3), of 0] as by (simp_all add: cmd_name_def)
  have not_quit: "\<not> strcaseeq (cstr n) ''quit''" using m as by (simp add: may_def)
  have from_x: "answered x out K w" if "answered z out K w" for out K w using that clz by (simp add: answered_def)
  show ?thesis
  proof (cases "cmd_index (cmd_name n)")
    case None
    then have "cmd_process e x = Inr (True, reply_add_err_format z (unknown_command (cmd_name n)))"
      using key not_quit y(1) by (simp add: cmd_process_def Let_def z_def)
    moreover have "responds (fl e) (keyspace x) as (err_reply (unknown_command (cmd_name n))) (keyspace x)"
      unfolding as using None by (intro unknown) (simp add: find_cmd_def)
    ultimately show ?thesis using from_x [OF answered_err [OF zs(1)]] zs(2) by metis
  next
    case (Some i)
    have "table_ok z" using zs(1) by (simp add: steady_def)
    then obtain c c' where c: "cmd_at z (Some i) = Inr c'" "find_cmd (cmd_name n) = Some c" "same_command c c'"
      using cmd_at_table [OF _ Some] by metis
    have eq: "cmd_process e x = (if wrong_count c (length as) then Inr (True, reply_add_err_format z (wrong_arity (name c)))
        else rbind (call e z) (\<lambda>z. Inr (True, z)))"
      using key not_quit y(1) c Some len by (simp add: cmd_process_def Let_def z_def wrong_count_def same_command_def)
    show ?thesis
    proof (cases "wrong_count c (length as)")
      case True
      then have "responds (fl e) (keyspace x) as (err_reply (wrong_arity (name c))) (keyspace x)" unfolding as by (intro arity c(2))
      then show ?thesis using eq True from_x [OF answered_err [OF zs(1)]] zs(2) by metis
    next
      case False
      have short: "short_args (map tolower n # ss)" using b(2) as by (simp add: short_args_def)
      have bud: "budget (keyspace z) (length (map tolower n # ss))" using b(1) zs(2) as by simp
      have cov: "covers (keyspace z) (proc c) (map tolower n # ss)" using m c(2) False zs(2) as by (simp add: may_def)
      have i: "cmd z = Some i" "lastcmd z = Some i" using Some by (simp_all add: z_def)
      obtain w out K' where w: "call e z = Inr w" "does (fl e) (keyspace z) (proc c) (map tolower n # ss) out K'" "answered z out K' w"
        using cmd_process_run [OF zs(1,3) short bud Some i c(2,1,3) _ cov, of e] False as by auto
      have "responds (fl e) (keyspace x) as out K'" unfolding as using runs [OF c(2) _ w(2) [unfolded zs(2)]] False as by simp
      then show ?thesis using eq False w(1) from_x [OF w(3)] by auto
    qed
  qed
qed

text \<open>A client between two requests.\<close>

definition at_rest :: "client \<Rightarrow> bool" where
  "at_rest c \<longleftrightarrow> req_type c = REQ_NONE \<and> multibulk_len c = 0 \<and> bulk_len c = - 1 \<and> argv c = []"

lemma serve_request_ok:
  fixes x :: "'d::linorder server"
  assumes s: "steady x" and own: "own_args {#} x" and args: "args_are x as" and m: "may (keyspace x) as"
    and b: "budget (keyspace x) (length as)" "short_args as"
  shows "\<exists>y out K'. serve_request e x = Inr y \<and> responds (fl e) (keyspace x) as out K' \<and> answered x out K' y \<and> at_rest (cl y)"
proof -
  have "as \<noteq> []" using m by (simp add: may_def)
  then have ne: "argv (cl x) \<noteq> []" using args by (auto simp: args_are_def)
  obtain z out K' where z: "cmd_process e x = Inr (True, z)" "responds (fl e) (keyspace x) as out K'" "answered x out K' z"
    using cmd_process_ok [OF assms, of e] by blast
  have wf: "srv_wf {#} z" using z(3) by (simp add: answered_def steady_def)
  obtain st where st: "rr_client_reset z = Inr (z\<lparr>store := st,
      cl := (cl z)\<lparr>req_type := REQ_NONE, multibulk_len := 0, bulk_len := - 1, argv := []\<rparr>, cmd := None\<rparr>)" (is "_ = Inr ?y")
    "srv_wf {#} (z\<lparr>store := st, cl := (cl z)\<lparr>req_type := REQ_NONE, multibulk_len := 0, bulk_len := - 1, argv := []\<rparr>, cmd := None\<rparr>)"
    "keyspace (z\<lparr>store := st, cl := (cl z)\<lparr>req_type := REQ_NONE, multibulk_len := 0, bulk_len := - 1, argv := []\<rparr>, cmd := None\<rparr>) = keyspace z"
    by (rule rr_client_reset_ok [OF wf])
  have "serve_request e x = Inr ?y" using ne z(1) st(1) by (simp add: serve_request_def)
  moreover have "answered x out K' ?y"
    using z(3) st(2,3) by (simp add: answered_def steady_def table_ok_def accepts_def outstanding_def)
  moreover have "at_rest (cl ?y)" by (simp add: at_rest_def)
  ultimately show ?thesis using z(2) by blast
qed

end
