(* ===== verification/Session.thy ===== *)
theory Session
  imports Dispatch
begin

text \<open>
  A client that sends requests: however the bytes are cut into reads, the requests are
  parsed, served in their order and answered, and nothing is left of them in the client.

  The locale \<open>service\<close> is what the parser and its loop need of the commands; it is
  interpreted with the machine of the theory \<open>Machine\<close>.
\<close>

section \<open>A stream of requests\<close>

text \<open>The steps of a machine, one request after the other.\<close>

inductive steps :: "('k \<Rightarrow> string list \<Rightarrow> string \<Rightarrow> 'k \<Rightarrow> bool) \<Rightarrow> 'k \<Rightarrow> string list list \<Rightarrow> string \<Rightarrow> 'k \<Rightarrow> bool"
  for R :: "'k \<Rightarrow> string list \<Rightarrow> string \<Rightarrow> 'k \<Rightarrow> bool" where
  steps_Nil: "steps R K [] [] K"
| steps_Cons: "R K as out K' \<Longrightarrow> steps R K' rs outs K'' \<Longrightarrow> steps R K (as # rs) (out @ outs) K''"

inductive_simps steps_simps: "steps R K [] outs K'" "steps R K (as # rs) outs K'"

lemma steps_append: "steps R K rs outs K' \<Longrightarrow> steps R K' rs' outs' K'' \<Longrightarrow> steps R K (rs @ rs') (outs @ outs') K''"
proof (induction rule: steps.induct)
  case (steps_Cons K as out K1 rs outs K2)
  then show ?case using steps.steps_Cons [OF steps_Cons.hyps(1) steps_Cons.IH] by simp
qed simp

text \<open>A request that fits the limits of the protocol and of the query buffer.\<close>

definition transmissible :: "string list \<Rightarrow> bool" where
  "transmissible as \<longleftrightarrow> as \<noteq> [] \<and> length as \<le> 1024 * 1024 \<and> (\<forall>a\<in>set as. length a + 2 \<le> PROTO_QUERY_MAX_LEN)"

lemma transmissible_sendable: "transmissible (ts @ as) \<Longrightarrow> sendable as"
  unfolding transmissible_def sendable_def short_args_def PROTO_QUERY_MAX_LEN_def
  by (metis (mono_tags, lifting) UnCI add_leD1 add_leD2 length_append set_append)

definition type_ok :: "client \<Rightarrow> bool" where
  "type_ok c \<longleftrightarrow> req_type c = PROTO_REQ_MULTIBULK \<or> req_type c = REQ_NONE \<and> multibulk_len c = 0"

text \<open>
  The requests \<open>rs\<close> are still to be served, the first of them may be read in part, and
  \<open>fut\<close> has not been received; \<open>dry\<close> says that nothing more can be read from the buffer.
\<close>

fun unserved :: "bool \<Rightarrow> 'd::linorder server \<Rightarrow> string list list \<Rightarrow> string \<Rightarrow> bool" where
  "unserved dry x [] fut \<longleftrightarrow> at_rest (cl x) \<and> query (cl x) = [] \<and> fut = []"
| "unserved dry x (as # rs) fut \<longleftrightarrow> (\<exists>ts us. as = ts @ us \<and> args_are x ts \<and> own_args {#} x \<and> type_ok (cl x) \<and> awaiting (cl x) us \<and>
     query (cl x) @ fut = expected (cl x) us @ concat (map request rs) \<and> (dry \<longrightarrow> hungry (cl x) us))"

lemma loads_steady:
  fixes x y :: "'d::linorder server"
  assumes "loads {#} x ss y" and "steady x"
  shows "steady y" and "outstanding (cl y) = outstanding (cl x)" and "req_type (cl y) = req_type (cl x)"
proof -
  obtain st av q ml bl where y: "y = x\<lparr>store := st, cl := (cl x)\<lparr>argv := av, query := q, multibulk_len := ml, bulk_len := bl\<rparr>\<rparr>"
    using assms(1) unfolding loads_def by blast
  have "srv_wf {#} y" using assms(1) by (simp add: loads_def)
  then show "steady y" using assms(2) by (simp add: steady_def y table_ok_def accepts_def)
  show "outstanding (cl y) = outstanding (cl x)" "req_type (cl y) = req_type (cl x)" by (simp_all add: y outstanding_def)
qed

lemma request_type_ok:
  fixes x :: "'d::linorder server"
  assumes s: "steady x" and p: "unserved False x (as # rs) fut" and ne: "query (cl x) \<noteq> []"
  shows "steady (request_type x)" and "unserved False (request_type x) (as # rs) fut" and "req_type (cl (request_type x)) = PROTO_REQ_MULTIBULK"
    and "keyspace (request_type x) = keyspace x" and "outstanding (cl (request_type x)) = outstanding (cl x)"
    and "fits 0 (cl x) \<Longrightarrow> fits 0 (cl (request_type x))"
proof -
  have rt: "request_type x = x\<lparr>cl := (cl x)\<lparr>req_type := PROTO_REQ_MULTIBULK\<rparr>\<rparr>"
  proof (cases "req_type (cl x) = REQ_NONE")
    case True
    then have "\<exists>us. query (cl x) @ fut = request us @ concat (map request rs)" using p by (auto simp: type_ok_def expected_def)
    then have "query (cl x) ! 0 = CHR ''*''" using ne by (cases "query (cl x)") (auto simp: request_def)
    then show ?thesis using True ne by (simp add: request_type_def cget_lt)
  next
    case False
    then show ?thesis using p by (cases x; cases "cl x") (auto simp: request_type_def type_ok_def)
  qed
  have sd: "same_data x (request_type x)" by (simp add: same_data_def rt)
  note d = same_dataD [OF sd]
  show "steady (request_type x)" using s d(1) by (simp add: steady_def rt table_ok_def accepts_def)
  show "req_type (cl (request_type x)) = PROTO_REQ_MULTIBULK" by (simp add: rt)
  show "keyspace (request_type x) = keyspace x" "outstanding (cl (request_type x)) = outstanding (cl x)" by (rule d)+
  show "fits 0 (cl x) \<Longrightarrow> fits 0 (cl (request_type x))" by (simp add: rt fits_def)
  have "awaiting (cl (request_type x)) us = awaiting (cl x) us" "expected (cl (request_type x)) us = expected (cl x) us" for us
    by (simp_all add: rt awaiting_def expected_def at_arg_def)
  then show "unserved False (request_type x) (as # rs) fut" using p by (auto simp: d) (auto simp: rt type_ok_def)
qed

text \<open>Reading from a stalled buffer: there is room for at least a byte, and what comes in fits.\<close>

lemma dec_length: "n \<le> 512 * 1024 * 1024 \<Longrightarrow> length (dec (int n)) \<le> 9"
  using udec_length [of n 9] by (simp add: dec_def)

lemma read_fits:
  assumes h: "hungry c us" and aw: "awaiting c us" and ty: "type_ok c" and tr: "transmissible (ts @ us)"
  shows "0 < read_len c" and "length s \<le> nat (read_len c) \<Longrightarrow> fits 0 (c\<lparr>query := query c @ s\<rparr>)"
    and "length s \<le> nat (read_len c) \<Longrightarrow> length (query c @ s) \<le> PROTO_QUERY_MAX_LEN"
proof -
  let ?big = "multibulk_len c \<noteq> 0 \<and> bulk_len c \<ge> int PROTO_MBULK_BIG_ARG"
  have us: "us \<noteq> []" using aw by (simp add: awaiting_def)
  then have hd: "hd us \<in> set (ts @ us)" by simp
  then have le: "length (hd us) + 2 \<le> PROTO_QUERY_MAX_LEN" using tr unfolding transmissible_def by blast
  have n: "length us \<le> 1024 * 1024" using tr by (simp add: transmissible_def)
  have "0 < read_len c \<and> (length s \<le> nat (read_len c) \<longrightarrow> fits 0 (c\<lparr>query := query c @ s\<rparr>) \<and> length (query c @ s) \<le> PROTO_QUERY_MAX_LEN)"
  proof (cases ?big)
    case True
    then have bl: "bulk_len c = int (length (hd us))" and q: "length (query c) < length (hd us) + 2"
      using aw h us by (auto simp: awaiting_def at_arg_def hungry_def starved_def)
    have rt: "req_type c = PROTO_REQ_MULTIBULK" using ty True by (auto simp: type_ok_def)
    have "nat ((bulk_len c + 2) mod 2 ^ 32) = length (hd us) + 2" using bl le by (simp add: PROTO_QUERY_MAX_LEN_def nat_eq_iff)
    moreover have "sub64 (length (hd us) + 2) (length (query c)) = length (hd us) + 2 - length (query c)"
      using q le by (intro sub64_small) (simp_all add: PROTO_QUERY_MAX_LEN_def)
    moreover have "int32 (length (hd us) + 2 - length (query c)) = int (length (hd us) + 2 - length (query c))"
      using le by (intro int32_small) (simp add: PROTO_QUERY_MAX_LEN_def)
    ultimately have rem: "int32 (sub64 (nat ((bulk_len c + 2) mod 2 ^ 32)) (length (query c))) = int (length (hd us) + 2 - length (query c))"
      by (simp only:)
    have "read_len c = min (int (length (hd us) + 2 - length (query c))) (int PROTO_IOBUF_LEN)"
      unfolding read_len_def Let_def rem using True rt bl by simp
    then show ?thesis using q le bl True by (auto simp: fits_def PROTO_IOBUF_LEN_def)
  next
    case False
    then have rl: "read_len c = int PROTO_IOBUF_LEN" by (auto simp: read_len_def)
    have "length (query c) < 32 * 1024 + 2"
    proof (cases "multibulk_len c = 0")
      case True
      then show ?thesis using h dec_length [of "length us"] n by (simp add: hungry_def)
    next
      case ml: False
      have "length (hd us) \<le> 512 * 1024 * 1024" using le by (simp add: PROTO_QUERY_MAX_LEN_def)
      then show ?thesis using ml False h us aw dec_length [of "length (hd us)"]
        by (auto simp: hungry_def starved_def awaiting_def at_arg_def PROTO_MBULK_BIG_ARG_def split: if_split_asm)
    qed
    then show ?thesis using rl by (auto simp: fits_def PROTO_INLINE_MAX_LEN_def PROTO_QUERY_MAX_LEN_def PROTO_IOBUF_LEN_def)
  qed
  then show "0 < read_len c" "length s \<le> nat (read_len c) \<Longrightarrow> fits 0 (c\<lparr>query := query c @ s\<rparr>)"
    "length s \<le> nat (read_len c) \<Longrightarrow> length (query c @ s) \<le> PROTO_QUERY_MAX_LEN" by blast+
qed

text \<open>After a whole request the buffer is small again.\<close>

lemma fits_after:
  assumes "fits 0 c" and "awaiting c us" and "query c @ fut = expected c us @ after" and "q @ fut = after"
  shows "length q \<le> PROTO_INLINE_MAX_LEN"
proof -
  have len: "length (query c) = length (expected c us) + length q"
    using arg_cong [OF assms(3), of length] assms(4) by auto
  show ?thesis
  proof (cases "length (query c) \<le> PROTO_INLINE_MAX_LEN")
    case False
    then have b: "bulk_len c \<ge> int PROTO_MBULK_BIG_ARG" "int (length (query c)) \<le> bulk_len c + 2" using assms(1) by (auto simp: fits_def)
    then have "multibulk_len c \<noteq> 0" "us \<noteq> []" "bulk_len c = int (length (hd us))"
      using assms(2) by (auto simp: awaiting_def at_arg_def split: if_split_asm)
    then have "length (hd us) + 2 \<le> length (expected c us)" using b(1) by (simp add: expected_def args_left_def CRLF_def)
    then show ?thesis using len b(2) \<open>bulk_len c = int (length (hd us))\<close> by simp
  qed (use len in simp)
qed

text \<open>
  The machine as the parser sees it: it answers every request it can take, whatever the
  surroundings \<open>good\<close> allows do, and the rest of the requests can be taken afterwards.
\<close>

locale service =
  fixes good :: "'d::linorder env \<Rightarrow> bool"
    and respond :: "'d ks \<Rightarrow> string list \<Rightarrow> string \<Rightarrow> 'd ks \<Rightarrow> bool"
    and can :: "'d ks \<Rightarrow> string list list \<Rightarrow> bool"
  assumes serve: "\<lbrakk>good e; steady x; own_args {#} x; args_are x as; can (keyspace x) (as # rs)\<rbrakk> \<Longrightarrow>
      \<exists>y out K'. serve_request e x = Inr y \<and> respond (keyspace x) as out K' \<and> answered x out K' y \<and> at_rest (cl y)"
    and go_on: "\<lbrakk>can K (as # rs); respond K as out K'\<rbrakk> \<Longrightarrow> can K' rs"
    and wire: "can K (as # rs) \<Longrightarrow> transmissible as"
begin

text \<open>What a part of the stream has led to.\<close>

definition progress :: "'d server \<Rightarrow> string list list \<Rightarrow> string \<Rightarrow> 'd server \<Rightarrow> bool" where
  "progress x rs fut y \<longleftrightarrow> steady y \<and> (\<exists>rs1 rs2 out. rs = rs1 @ rs2 \<and> steps respond (keyspace x) rs1 out (keyspace y) \<and>
     outstanding (cl y) = outstanding (cl x) @ out \<and> can (keyspace y) rs2 \<and> unserved True y rs2 fut)"

lemma progress_Cons:
  assumes "respond (keyspace x) as out (keyspace y)" and "outstanding (cl y) = outstanding (cl x) @ out" and "progress y rs fut z"
  shows "progress x (as # rs) fut z"
proof -
  obtain rs1 rs2 outs where p: "rs = rs1 @ rs2" "steps respond (keyspace y) rs1 outs (keyspace z)"
    "outstanding (cl z) = outstanding (cl y) @ outs" "can (keyspace z) rs2" "unserved True z rs2 fut" "steady z"
    using assms(3) by (auto simp: progress_def)
  have "steps respond (keyspace x) (as # rs1) (out @ outs) (keyspace z)" by (rule steps_Cons [OF assms(1) p(2)])
  moreover have "outstanding (cl z) = outstanding (cl x) @ out @ outs" using p(3) assms(2) by simp
  ultimately show ?thesis using p unfolding progress_def by (metis append_Cons)
qed

lemma progress_refl:
  assumes "steady x" and "can (keyspace x) rs" and "unserved True x rs fut"
  shows "progress x rs fut x"
  using assms steps_Nil [of respond "keyspace x"] unfolding progress_def by (metis append_Nil append_Nil2)

lemma progress_from:
  assumes "progress y rs fut z" and "keyspace y = keyspace x" and "outstanding (cl y) = outstanding (cl x)"
  shows "progress x rs fut z"
  using assms by (simp add: progress_def)

lemma empty_dry: "unserved dry x rs fut \<Longrightarrow> query (cl x) = [] \<Longrightarrow> unserved True x rs fut"
proof (cases rs)
  case (Cons as rs')
  assume "unserved dry x rs fut" and q: "query (cl x) = []"
  moreover have "hungry (cl x) us" if "awaiting (cl x) us" for us using q that by (auto simp: hungry_def starved_def awaiting_def)
  ultimately show ?thesis using Cons by auto
qed simp

lemma empty_ends: "query (cl x) = [] \<Longrightarrow> process_user_input es x = Some (Inr x)"
  by (subst process_user_input.simps) simp

text \<open>The first of the requests, from the buffer.\<close>

lemma read_pending:
  assumes s: "steady x" and p: "unserved False x (as # rs) fut" and f: "fits 0 (cl x)" and ne: "query (cl x) \<noteq> []" and tr: "transmissible as"
  obtains b y where "read_request (request_type x) = Inr (b, y)" and "steady y" and "keyspace y = keyspace x"
    and "outstanding (cl y) = outstanding (cl x)"
    and "if b then args_are y as \<and> own_args {#} y \<and> query (cl y) @ fut = concat (map request rs) \<and> length (query (cl y)) \<le> PROTO_INLINE_MAX_LEN
      else unserved True y (as # rs) fut"
proof -
  let ?x = "request_type x"
  note x = request_type_ok [OF s p ne]
  obtain ts us where p': "as = ts @ us" "args_are ?x ts" "own_args {#} ?x" "awaiting (cl ?x) us"
    "query (cl ?x) @ fut = expected (cl ?x) us @ concat (map request rs)" using x(2) by auto
  have wf: "srv_wf {#} ?x" using x(1) by (simp add: steady_def)
  have "sendable us" using tr p'(1) by (simp add: transmissible_sendable)
  then obtain b y us1 us2 where y: "process_multi_bulk_input ?x = Inr (b, y)" "us = us1 @ us2" "loads {#} ?x us1 y"
    "if b then us2 = [] \<and> query (cl y) @ fut = concat (map request rs) \<and> multibulk_len (cl y) = 0 \<and> bulk_len (cl y) = - 1
     else awaiting (cl y) us2 \<and> query (cl y) @ fut = expected (cl y) us2 @ concat (map request rs) \<and> hungry (cl y) us2"
    using process_multi_bulk_ok [OF wf p'(4,5) x(6) [OF f]] by blast
  have "read_request ?x = Inr (b, y)" using x(3) y(1) by (simp add: read_request_def)
  moreover note ls = loads_steady [OF y(3) x(1)]
  moreover have "keyspace y = keyspace x" using loads_parts(2) [OF y(3)] x(4) by simp
  moreover have a: "args_are y (ts @ us1)" "own_args {#} y" using loads_parts(4,5) [OF y(3)] p'(2,3) by auto
  moreover have "type_ok (cl y)" using ls(3) x(3) by (simp add: type_ok_def)
  moreover have "as = (ts @ us1) @ us2" using p'(1) y(2) by simp
  moreover have "if b then args_are y as \<and> own_args {#} y \<and> query (cl y) @ fut = concat (map request rs) \<and> length (query (cl y)) \<le> PROTO_INLINE_MAX_LEN
      else unserved True y (as # rs) fut"
  proof (cases b)
    case True
    then show ?thesis using y(4) \<open>as = (ts @ us1) @ us2\<close> a fits_after [OF x(6) [OF f] p'(4,5)] by simp
  next
    case False
    then show ?thesis using y(4) \<open>as = (ts @ us1) @ us2\<close> a \<open>type_ok (cl y)\<close> unfolding unserved.simps
      by (simp only: if_False) (intro exI [of _ "ts @ us1"] exI [of _ us2], simp)
  qed
  ultimately show thesis using that [of b y] x(5) by simp
qed

lemma rest_pending:
  assumes "at_rest (cl y)" and "query (cl y) @ fut = concat (map request rs)" and "can (keyspace y) rs"
  shows "unserved False y rs fut"
proof (cases rs)
  case (Cons a rs')
  have "a \<noteq> []" using wire assms(3) Cons by (auto simp: transmissible_def)
  then have "awaiting (cl y) a" "expected (cl y) a = request a" "type_ok (cl y)" "args_are y []" "own_args {#} y"
    using assms(1) by (simp_all add: at_rest_def awaiting_def expected_def type_ok_def args_are_def own_args_def)
  then show ?thesis unfolding Cons unserved.simps using assms(2) Cons by (intro exI [of _ "[]"] exI [of _ a]) simp
qed (use assms in simp)

lemma input_step:
  assumes g: "\<forall>i. good (es i)" and s: "steady x" and c: "can (keyspace x) (as # rs)" and p: "unserved False x (as # rs) fut"
    and f: "fits 0 (cl x)" and ne: "query (cl x) \<noteq> []"
  shows "(\<exists>y. process_user_input es x = Some (Inr y) \<and> progress x (as # rs) fut y) \<or>
    (\<exists>y out. process_user_input es x = process_user_input (\<lambda>i. es (i + 1)) y \<and> respond (keyspace x) as out (keyspace y) \<and>
       outstanding (cl y) = outstanding (cl x) @ out \<and> steady y \<and> can (keyspace y) rs \<and> unserved False y rs fut \<and> fits 0 (cl y))"
proof -
  obtain b y where y: "read_request (request_type x) = Inr (b, y)" "steady y" "keyspace y = keyspace x" "outstanding (cl y) = outstanding (cl x)"
    "if b then args_are y as \<and> own_args {#} y \<and> query (cl y) @ fut = concat (map request rs) \<and> length (query (cl y)) \<le> PROTO_INLINE_MAX_LEN
      else unserved True y (as # rs) fut"
    by (rule read_pending [OF s p f ne wire [OF c]])
  have run: "process_user_input es x =
      (if \<not> b then Some (Inr y) else case serve_request (es 0) y of Inl f \<Rightarrow> Some (Inl f) | Inr z \<Rightarrow> process_user_input (\<lambda>i. es (i + 1)) z)"
    using ne y(1) s by (subst process_user_input.simps) (simp add: steady_def accepts_def)
  show ?thesis
  proof (cases b)
    case False
    then have "progress y (as # rs) fut y" using progress_refl [OF y(2)] y(3,5) c by simp
    then show ?thesis using run False progress_from [OF _ y(3,4)] by auto
  next
    case True
    have "can (keyspace y) (as # rs)" using c y(3) by simp
    then obtain z out K' where z: "serve_request (es 0) y = Inr z" "respond (keyspace y) as out K'" "answered y out K' z" "at_rest (cl z)"
      using serve [OF _ y(2), of "es 0" as rs] g y(5) True by auto
    then have zk: "keyspace z = K'" "query (cl z) = query (cl y)" "outstanding (cl z) = outstanding (cl x) @ out" "steady z"
      using y(4) by (simp_all add: answered_def)
    have "can (keyspace z) rs" using go_on [OF \<open>can (keyspace y) (as # rs)\<close> z(2)] zk(1) by simp
    moreover from this have "unserved False z rs fut" using y(5) True zk(2) by (intro rest_pending z(4)) simp_all
    moreover have "fits 0 (cl z)" using y(5) True zk(2) by (simp add: fits_def)
    ultimately show ?thesis using run True z(1,2) zk y(3) by auto
  qed
qed

lemma input_progress:
  assumes "\<forall>i. good (es i)" and "steady x" and "can (keyspace x) rs" and "unserved False x rs fut" and "fits 0 (cl x)"
  shows "\<exists>y. process_user_input es x = Some (Inr y) \<and> progress x rs fut y"
  using assms
proof (induction rs arbitrary: es x)
  case Nil
  then show ?case using progress_refl [of x "[]" fut] empty_ends [of x es] by auto
next
  case (Cons as rs)
  show ?case
  proof (cases "query (cl x) = []")
    case True
    then show ?thesis using progress_refl [OF Cons.prems(2,3) empty_dry [OF Cons.prems(4)]] empty_ends by blast
  next
    case False
    show ?thesis using input_step [OF Cons.prems False]
    proof
      assume "\<exists>y out. process_user_input es x = process_user_input (\<lambda>i. es (i + 1)) y \<and> respond (keyspace x) as out (keyspace y) \<and>
         outstanding (cl y) = outstanding (cl x) @ out \<and> steady y \<and> can (keyspace y) rs \<and> unserved False y rs fut \<and> fits 0 (cl y)"
      then obtain y out where y: "process_user_input es x = process_user_input (\<lambda>i. es (i + 1)) y" "respond (keyspace x) as out (keyspace y)"
        "outstanding (cl y) = outstanding (cl x) @ out" "steady y" "can (keyspace y) rs" "unserved False y rs fut" "fits 0 (cl y)" by blast
      obtain z where "process_user_input (\<lambda>i. es (i + 1)) y = Some (Inr z)" "progress y rs fut z"
        using Cons.IH [of "\<lambda>i. es (i + 1)" y] Cons.prems(1) y(4-7) by blast
      then show ?thesis using y(1) progress_Cons [OF y(2,3)] by auto
    qed
  qed
qed

text \<open>One read of the socket, of at most as many bytes as the handler asks for.\<close>

lemma read_progress:
  assumes g: "\<forall>i. good (es i)" and s: "steady x" and c: "can (keyspace x) rs" and p: "unserved True x rs fut"
    and n: "0 < n" "n \<le> nat (read_len (cl x))" and ne: "fut \<noteq> []"
  shows "\<exists>y. handle_read_from_client es (Read (take n fut)) x = Some (Inr y) \<and> progress x rs (drop n fut) y"
proof -
  obtain as rs' where rs: "rs = as # rs'" using p ne by (cases rs) auto
  obtain ts us where p': "as = ts @ us" "args_are x ts" "own_args {#} x" "type_ok (cl x)" "awaiting (cl x) us"
    "query (cl x) @ fut = expected (cl x) us @ concat (map request rs')" "hungry (cl x) us" using p rs by auto
  have tr: "transmissible (ts @ us)" using wire c rs p'(1) by blast
  define y where "y = set_query x (query (cl x) @ take n fut)"
  have y: "cl y = (cl x)\<lparr>query := query (cl x) @ take n fut\<rparr>" by (simp add: y_def set_query_def)
  have len: "length (take n fut) \<le> nat (read_len (cl x))" using n(2) by simp
  note f = read_fits [OF p'(7,5,4) tr]
  have "same_data x y" by (simp add: same_data_def y_def set_query_def)
  note d = same_dataD [OF this]
  have sy: "steady y" using s d(1) by (simp add: steady_def y accepts_def table_ok_def) (simp add: y_def set_query_def)
  have "awaiting (cl y) us = awaiting (cl x) us" "expected (cl y) us = expected (cl x) us"
    by (simp_all add: y awaiting_def expected_def at_arg_def)
  then have "unserved False y rs (drop n fut)" unfolding rs unserved.simps
    using p' d(2,6) by (intro exI [of _ ts] exI [of _ us]) (simp add: y type_ok_def)
  moreover have "fits 0 (cl y)" using f(2) [OF len] by (simp add: y)
  moreover have "can (keyspace y) rs" using c d(3) by simp
  ultimately obtain z where z: "process_user_input es y = Some (Inr z)" "progress y rs (drop n fut) z"
    using input_progress [OF g sy] by blast
  have "take n fut \<noteq> []" using n(1) ne by simp
  moreover have "length (query (cl y)) \<le> client_max_query_len y"
    using f(3) [OF len] sy by (simp add: steady_def y)
  ultimately have "handle_read_from_client es (Read (take n fut)) x = Some (Inr z)"
    using z(1) by (simp add: handle_read_from_client_def Let_def y_def)
  then show ?thesis using progress_from [OF z(2) d(3,5)] by blast
qed

end

text \<open>
  The bytes \<open>s\<close> of a client, received in reads of the sizes the surroundings choose, as
  long as the handler goes on.
\<close>

function deliver :: "(nat \<Rightarrow> nat) \<Rightarrow> (nat \<Rightarrow> nat \<Rightarrow> 'd::linorder env) \<Rightarrow> string \<Rightarrow> 'd server \<Rightarrow> 'd server result option" where
  "deliver sizes es s x =
     (if s = [] then Some (Inr x)
      else
        let n = min (max 1 (sizes 0)) (nat (read_len (cl x))) in
        case handle_read_from_client (es 0) (Read (take n s)) x of
          Some (Inr y) \<Rightarrow> if n = 0 then Some (Inr y) else deliver (\<lambda>i. sizes (i + 1)) (\<lambda>i. es (i + 1)) (drop n s) y
        | r \<Rightarrow> r)"
  by pat_completeness auto
termination
  by (relation "measure (\<lambda>(_, _, s, _). length s)") auto

declare deliver.simps [simp del]

context service
begin

lemma progress_trans:
  assumes "progress x rs fut y" and "\<And>rs2. can (keyspace y) rs2 \<Longrightarrow> unserved True y rs2 fut \<Longrightarrow> progress y rs2 fut' z"
  shows "progress x rs fut' z"
proof -
  obtain rs1 rs2 out where p: "rs = rs1 @ rs2" "steps respond (keyspace x) rs1 out (keyspace y)"
    "outstanding (cl y) = outstanding (cl x) @ out" "can (keyspace y) rs2" "unserved True y rs2 fut" using assms(1) by (auto simp: progress_def)
  obtain rs3 rs4 out' where q: "steady z" "rs2 = rs3 @ rs4" "steps respond (keyspace y) rs3 out' (keyspace z)"
    "outstanding (cl z) = outstanding (cl y) @ out'" "can (keyspace z) rs4" "unserved True z rs4 fut'"
    using assms(2) [OF p(4,5)] by (auto simp: progress_def)
  have "steps respond (keyspace x) (rs1 @ rs3) (out @ out') (keyspace z)" by (rule steps_append [OF p(2) q(3)])
  then show ?thesis using p q unfolding progress_def by (intro conjI exI [of _ "rs1 @ rs3"] exI [of _ rs4] exI [of _ "out @ out'"]) simp_all
qed

lemma deliver_progress:
  assumes "\<forall>i j. good (es i j)" and "steady x" and "can (keyspace x) rs" and "unserved True x rs fut"
  shows "\<exists>y. deliver sizes es fut x = Some (Inr y) \<and> progress x rs [] y"
  using assms
proof (induction "length fut" arbitrary: sizes es fut x rs rule: less_induct)
  case less
  show ?case
  proof (cases "fut = []")
    case True
    then show ?thesis using progress_refl [OF less.prems(2-4)] by (subst deliver.simps) simp
  next
    case False
    obtain as rs' where rs: "rs = as # rs'" using less.prems(4) False by (cases rs) auto
    then obtain ts us where "as = ts @ us" "hungry (cl x) us" "awaiting (cl x) us" "type_ok (cl x)" using less.prems(4) by auto
    then have "0 < read_len (cl x)" using read_fits(1) wire less.prems(3) rs by blast
    define n where "n = min (max 1 (sizes 0)) (nat (read_len (cl x)))"
    have n: "0 < n" "n \<le> nat (read_len (cl x))" using \<open>0 < read_len (cl x)\<close> by (auto simp: n_def)
    obtain y where y: "handle_read_from_client (es 0) (Read (take n fut)) x = Some (Inr y)" "progress x rs (drop n fut) y"
      using read_progress [OF _ less.prems(2-4) n False, of "es 0"] less.prems(1) by blast
    then obtain rs2 where rs2: "can (keyspace y) rs2" "unserved True y rs2 (drop n fut)" "steady y" by (auto simp: progress_def)
    have "length (drop n fut) < length fut" using n(1) False by simp
    moreover have "\<forall>i j. good (es (i + 1) j)" using less.prems(1) by blast
    ultimately have ih: "can (keyspace y) rs3 \<Longrightarrow> unserved True y rs3 (drop n fut) \<Longrightarrow>
        \<exists>z. deliver (\<lambda>i. sizes (i + 1)) (\<lambda>i. es (i + 1)) (drop n fut) y = Some (Inr z) \<and> progress y rs3 [] z" for rs3
      by (rule less.hyps) (rule rs2(3))
    obtain z where z: "deliver (\<lambda>i. sizes (i + 1)) (\<lambda>i. es (i + 1)) (drop n fut) y = Some (Inr z)" using ih [OF rs2(1,2)] by blast
    have "progress y rs3 [] z" if "can (keyspace y) rs3" "unserved True y rs3 (drop n fut)" for rs3 using ih [OF that] z by auto
    then have "progress x rs [] z" using progress_trans [OF y(2)] by blast
    moreover have "deliver sizes es fut x = Some (Inr z)"
      by (subst deliver.simps, unfold Let_def, fold n_def) (use False y(1) z n(1) in simp)
    ultimately show ?thesis by blast
  qed
qed

theorem stream_served:
  assumes "\<forall>i j. good (es i j)" and "steady x" and "at_rest (cl x)" and "query (cl x) = []" and "can (keyspace x) rs"
  shows "\<exists>y out. deliver sizes es (concat (map request rs)) x = Some (Inr y) \<and> steps respond (keyspace x) rs out (keyspace y) \<and>
    outstanding (cl y) = outstanding (cl x) @ out \<and> steady y \<and> at_rest (cl y) \<and> query (cl y) = []"
proof -
  have "unserved False x rs (concat (map request rs))" using assms(3-5) by (intro rest_pending) simp_all
  then have "unserved True x rs (concat (map request rs))" using empty_dry assms(4) by blast
  then obtain y where y: "deliver sizes es (concat (map request rs)) x = Some (Inr y)" "progress x rs [] y"
    using deliver_progress [OF assms(1,2,5)] by blast
  then obtain rs1 rs2 out where p: "rs = rs1 @ rs2" "steps respond (keyspace x) rs1 out (keyspace y)"
    "outstanding (cl y) = outstanding (cl x) @ out" "unserved True y rs2 []" "steady y" by (auto simp: progress_def)
  have "rs2 = []"
  proof (cases rs2)
    case (Cons as rs')
    then obtain us where "awaiting (cl y) us" "query (cl y) @ [] = expected (cl y) us @ concat (map request rs')" "hungry (cl y) us"
      using p(4) by auto
    then show ?thesis using hungry_incomplete by blast
  qed simp
  then show ?thesis using y(1) p by auto
qed

end

section \<open>The server refines the machine\<close>

text \<open>The requests can be taken one after the other, whatever choices the machine makes.\<close>

fun safe :: "'d::linorder floats \<Rightarrow> 'd ks \<Rightarrow> string list list \<Rightarrow> bool" where
  "safe ff K [] \<longleftrightarrow> True"
| "safe ff K (as # rs) \<longleftrightarrow> transmissible as \<and> may K as \<and> (\<forall>out K'. responds ff K as out K' \<longrightarrow> safe ff K' rs)"

definition can_all :: "'d::linorder floats \<Rightarrow> 'd ks \<Rightarrow> string list list \<Rightarrow> bool" where
  "can_all ff K rs \<longleftrightarrow> safe ff K rs \<and> budget K (length (concat rs))"

lemma transmissible_short: "transmissible as \<Longrightarrow> short_args as"
  using transmissible_sendable [of "[]" as] by (simp add: sendable_def)

lemma responds_grow:
  assumes "responds ff K as out K'" and "ks_ok K" and "short_args as"
  shows "ks_ok K' \<and> ks_size K' \<le> ks_size K + length as"
  using assms(1)
proof cases
  case (runs n c ss)
  have "short_args (map tolower n # ss)" using assms(3) runs(1) by (simp add: short_args_def)
  then show ?thesis using does_grow [OF runs(4) assms(2)] runs(1) by simp
qed (use assms in simp_all)

interpretation ks: service "\<lambda>e. fl e = ff" "responds ff" "can_all ff" for ff :: "'d::linorder floats"
proof unfold_locales
  fix e :: "'d env" and x :: "'d server" and as rs
  assume e: "fl e = ff" and x: "steady x" "own_args {#} x" "args_are x as" and c: "can_all ff (keyspace x) (as # rs)"
  have m: "may (keyspace x) as" "short_args as" using c transmissible_short by (auto simp: can_all_def)
  have "budget (keyspace x) (length as)" using c by (auto simp: can_all_def budget_def)
  then show "\<exists>y out K'. serve_request e x = Inr y \<and> responds ff (keyspace x) as out K' \<and> answered x out K' y \<and> at_rest (cl y)"
    using serve_request_ok [OF x m(1) _ m(2), of e] e by simp
next
  fix K as rs out K'
  assume c: "can_all ff K (as # rs)" and r: "responds ff K as out K'"
  have "ks_ok K" "short_args as" using c transmissible_short by (auto simp: can_all_def budget_def)
  then show "can_all ff K' rs" using responds_grow [OF r] c r by (auto simp: can_all_def budget_def)
next
  fix K as rs
  assume "can_all ff K (as # rs)"
  then show "transmissible as" by (simp add: can_all_def)
qed

text \<open>
  C1 (refinement). The whole way from the socket to the reply buffer refines the machine: a client that sends
  any sequence of covered requests, encoded in the protocol and received in pieces of
  any size, is answered exactly as the machine answers them one after the other, and the
  keyspace ends where the machine ends. Commands are found whatever the case of their
  name; unknown commands and wrong numbers of arguments are answered with their errors.
  Afterwards the invariant holds, so every object is owned exactly as often as it is
  counted, and the client is ready for the next request.\<close>

theorem server_refines_machine:
  fixes x :: "'d::linorder server"
  assumes "\<forall>i j. fl (es i j) = ff" and "steady x" and "at_rest (cl x)" and "query (cl x) = []"
    and "safe ff (keyspace x) rs" and "budget (keyspace x) (length (concat rs))"
  shows "\<exists>y out. deliver sizes es (concat (map request rs)) x = Some (Inr y) \<and>
    steps (responds ff) (keyspace x) rs out (keyspace y) \<and>
    outstanding (cl y) = outstanding (cl x) @ out \<and> steady y \<and> at_rest (cl y) \<and> query (cl y) = []"
  by (rule ks.stream_served [OF assms(1-4)]) (simp add: can_all_def assms(5,6))

section \<open>A concrete server\<close>

text \<open>A server that has just started, with a client that has sent nothing yet.\<close>

definition quiet_env :: "nat env" where
  "quiet_env = \<lparr>fl = len_floats, dops = sum_ops, print2 = (\<lambda>_. []), used_memory = 0, system_memory = 0, elapsed = 1\<rparr>"

lemma started:
  obtains x :: "nat server" where "rr_server_init 0 10 False 10 = Inr x" and "steady (x\<lparr>cl := idle_client\<rparr>)"
    and "keyspace (x\<lparr>cl := idle_client\<rparr>) = (\<lambda>_. None)"
proof -
  obtain x :: "nat server" where x: "rr_server_init 0 10 False 10 = Inr x" "table_ok x" "srv_wf {#} x" "keyspace x = (\<lambda>_. None)"
    "cl x = no_client" "bgtasks x = []" "lazyfree_server_del x = False" "client_max_query_len x = PROTO_QUERY_MAX_LEN"
    using rr_server_init_ok [of 0 10 False 10, where 'd = nat] by metis
  have k: "accepts idle_client" "argv idle_client = []" "out_wf idle_client"
    using idle_ready(1) by (simp_all add: idle_client_def accepts_def has_flag_def ready_def idle_ctx_def)
  have "srv_wf {#} (x\<lparr>cl := idle_client\<rparr>)" using x(3,5) k(2,3) by (simp add: srv_wf_def srv_refs_def no_client_def)
  then have "steady (x\<lparr>cl := idle_client\<rparr>)" using x k(1) by (simp add: steady_def table_ok_def)
  moreover have "keyspace (x\<lparr>cl := idle_client\<rparr>) = keyspace x" by (simp add: keyspace_def fun_eq_iff)
  ultimately show thesis using that x by simp
qed

lemma names: "cmd_name ''SET'' = ''set''" "cmd_name ''get'' = ''get''"
  by code_simp+

lemma find_set: "find_cmd ''set'' = Some (command ''set'' P_set 3 ''wm'' 1 1 1)"
  and find_get: "find_cmd ''get'' = Some (command ''get'' P_get 2 ''rF'' 1 1 1)"
  by (simp_all add: find_cmd_def cmd_index_def redisCommandTable_def command_def)

lemma responds_set:
  "responds len_floats K [''SET'', ''k'', ''v''] out K' \<longleftrightarrow> out = ''+OK'' @ CRLF \<and> K' = K(''k'' \<mapsto> VStr ''v'')"
  by (auto simp: responds.simps names find_set does.simps wrong_count_def command_def)

lemma responds_get:
  "responds len_floats [''k'' \<mapsto> VStr ''v''] [''get'', ''k''] out K' \<longleftrightarrow> out = bulk ''v'' \<and> K' = [''k'' \<mapsto> VStr ''v'']"
  by (auto simp: responds.simps names find_get does.simps wrong_count_def command_def)

theorem server_refines_machine_witness:
  "\<exists>x y :: nat server. rr_server_init 0 10 False 10 = Inr x \<and>
     deliver (\<lambda>_. 3) (\<lambda>_ _. quiet_env) (request [''SET'', ''k'', ''v''] @ request [''get'', ''k'']) (x\<lparr>cl := idle_client\<rparr>) = Some (Inr y) \<and>
     outstanding (cl y) = ''+OK'' @ CRLF @ bulk ''v'' \<and> keyspace y = [''k'' \<mapsto> VStr ''v'']"
proof -
  obtain x :: "nat server" where x: "rr_server_init 0 10 False 10 = Inr x" "steady (x\<lparr>cl := idle_client\<rparr>)"
    "keyspace (x\<lparr>cl := idle_client\<rparr>) = (\<lambda>_. None)" by (rule started)
  let ?rs = "[[''SET'', ''k'', ''v''], [''get'', ''k'']]"
  have q: "\<not> strcaseeq (cstr ''SET'') ''quit''" "\<not> strcaseeq (cstr ''get'') ''quit''" by code_simp+
  have safe: "safe len_floats (\<lambda>_. None) ?rs"
    by (simp add: responds_set transmissible_def PROTO_QUERY_MAX_LEN_def may_def q names find_set find_get wrong_count_def command_def)
  have "budget (\<lambda>_. None) (length (concat ?rs))" by (simp add: budget_def ks_ok_def ks_size_def)
  moreover have "at_rest idle_client" "query idle_client = []" "outstanding idle_client = []"
    by (simp_all add: at_rest_def idle_client_def outstanding_def)
  ultimately obtain y out where y: "deliver (\<lambda>_. 3) (\<lambda>_ _. quiet_env) (concat (map request ?rs)) (x\<lparr>cl := idle_client\<rparr>) = Some (Inr y)"
    "steps (responds len_floats) (\<lambda>_. None) ?rs out (keyspace y)" "outstanding (cl y) = out"
    using server_refines_machine [of "\<lambda>_ _. quiet_env" len_floats "x\<lparr>cl := idle_client\<rparr>" ?rs "\<lambda>_. 3"] x(2,3) safe
    by (auto simp: quiet_env_def)
  have "out = ''+OK'' @ CRLF @ bulk ''v''" "keyspace y = [''k'' \<mapsto> VStr ''v'']"
    using y(2) by (auto simp: steps_simps responds_set responds_get)
  then show ?thesis using x(1) y(1,3) by auto
qed

end
