(* ===== verification/Lifecycle.thy ===== *)
theory Lifecycle
  imports Session
begin

text \<open>
  The life of the server and of its clients: reading from a client ends, the server starts
  in a well-formed state, the limit on clients is computed and kept, and a client that is
  closed while it waits to be closed is freed twice.
\<close>

section \<open>Reading from a client ends\<close>

text \<open>
  C2 (termination). Whatever a client has sent, and whatever \<^verbatim>\<open>read\<close> returns, the handler of a readable
  socket returns: the loop over the requests in the buffer ends, because each request it
  takes shortens the buffer and no command adds to it. Unless the client was freed, its
  parser is left in a state from which this holds again.\<close>

theorem read_event_terminates:
  assumes "parser_ok (cl x)" and "client_max_query_len x < 2 ^ 31"
  shows "\<exists>r. handle_read_from_client es rd x = Some r \<and>
    (\<forall>y. r = Inr y \<longrightarrow> parser_ok (cl y) \<or> cmem y (cid (cl y)) = None)"
proof -
  have freed: "cmem y (cid (cl y)) = None" if "rr_client_free z = Inr y" for y z :: "'a server"
    using that by (auto simp: rr_client_free_def free_client_argv_def)
  show ?thesis
  proof (cases rd)
    case (Read s)
    let ?x = "set_query x (query (cl x) @ s)"
    show ?thesis
    proof (cases "s = [] \<or> length (query (cl ?x)) > client_max_query_len ?x")
      case True
      then show ?thesis using Read freed by (auto simp: handle_read_from_client_def Let_def)
    next
      case False
      then have "parser_ok (cl ?x)" using assms by (auto simp: parser_ok_def set_query_def)
      then show ?thesis using process_user_input_ends [of ?x es] Read False by (auto simp: handle_read_from_client_def Let_def)
    qed
  next
    case RFail
    then show ?thesis using freed by (auto simp: handle_read_from_client_def)
  qed (use assms in \<open>simp add: handle_read_from_client_def\<close>)
qed

theorem read_event_terminates_witness:
  "\<exists>(x :: nat server) r. rr_server_init 0 10 False 10 = Inr x \<and>
     handle_read_from_client (\<lambda>_. quiet_env) (Read (''*x'' @ CRLF @ ''PING'' @ CRLF)) (x\<lparr>cl := idle_client\<rparr>) = Some r"
proof -
  obtain x :: "nat server" where x: "rr_server_init 0 10 False 10 = Inr x" "steady (x\<lparr>cl := idle_client\<rparr>)" by (rule started)
  have "parser_ok (cl (x\<lparr>cl := idle_client\<rparr>))" by (simp add: parser_ok_def idle_client_def)
  moreover have "client_max_query_len (x\<lparr>cl := idle_client\<rparr>) < 2 ^ 31" using x(2) by (simp add: steady_def PROTO_QUERY_MAX_LEN_def)
  ultimately show ?thesis using read_event_terminates [of "x\<lparr>cl := idle_client\<rparr>" "\<lambda>_. quiet_env"] x(1) by blast
qed

section \<open>Starting\<close>


section \<open>The limit on clients\<close>

lemma best_limit_refused: "16 \<le> old \<Longrightarrow> old < b \<Longrightarrow> best_limit (\<lambda>_. False) old b \<le> old"
proof (induction b rule: less_induct)
  case (less b)
  show ?case
  proof (cases "old < b - 16")
    case True
    then show ?thesis using less by (subst best_limit.simps) auto
  next
    case False
    then have "best_limit (\<lambda>_. False) old (b - 16) = b - 16" by (subst best_limit.simps) simp
    then show ?thesis using less.prems False by (subst best_limit.simps) auto
  qed
qed

text \<open>
  C6 (bounds). When the system refuses to raise its limit of open files, the number of clients is
  lowered to what the limit leaves after the reserved descriptors, and a limit that
  leaves none ends the program. A limit below the reserved number is not caught: the
  unsigned difference wraps, and some four billion clients are accepted.\<close>

theorem adjust_max_clients_refused:
  assumes "16 \<le> old" and "old < maxc + 32" and "maxc + 32 < 2 ^ 32"
  shows "rr_server_adjust_max_clients (Some old) (\<lambda>_. False) maxc =
    (if old = 32 then Inl Exited else if 32 < old then Inr (old - 32) else Inr (2 ^ 32 - (32 - old)))"
proof -
  let ?b = "best_limit (\<lambda>_. False) old (maxc + 32)"
  have b: "(if ?b < old then old else ?b) = old" using best_limit_refused [OF assms(1,2)] by simp
  have mf: "(maxc + SERVER_RESERVED_FDS) mod 2 ^ 32 = maxc + 32" using assms(3) by (simp add: SERVER_RESERVED_FDS_def)
  have n: "sub64 old SERVER_RESERVED_FDS mod 2 ^ 32 = (if 32 \<le> old then old - 32 else 2 ^ 32 - (32 - old))"
  proof (cases "32 \<le> old")
    case True
    then show ?thesis using assms(2,3) by (simp add: SERVER_RESERVED_FDS_def sub64_small)
  next
    case False
    have "(int old - 32) mod 2 ^ 64 = 2 ^ 64 + int old - 32" using False by (subst mod_add_self1 [symmetric]) simp
    then have "int (sub64 old SERVER_RESERVED_FDS mod 2 ^ 32) = (2 ^ 64 + int old - 32) mod 2 ^ 32"
      by (simp add: SERVER_RESERVED_FDS_def sub64_def zmod_int)
    also have "\<dots> = (2 ^ 32 + int old - 32 + (2 ^ 32 - 1) * 2 ^ 32) mod 2 ^ 32" by simp
    also have "\<dots> = (2 ^ 32 + int old - 32) mod 2 ^ 32" by (rule mod_mult_self1)
    also have "\<dots> = 2 ^ 32 + int old - 32" using False by (intro mod_pos_pos_trivial) simp_all
    finally show ?thesis using False by simp
  qed
  show ?thesis using assms(2) unfolding rr_server_adjust_max_clients_def Let_def mf option.case b n by simp
qed

theorem adjust_max_clients_refused_witness:
  "rr_server_adjust_max_clients (Some 20) (\<lambda>_. False) 100 = Inr 4294967284 \<and>
   rr_server_adjust_max_clients (Some 64) (\<lambda>_. False) 100 = Inr 32 \<and>
   rr_server_adjust_max_clients (Some 32) (\<lambda>_. False) 100 = Inl Exited"
  using adjust_max_clients_refused [of 20 100] adjust_max_clients_refused [of 64 100] adjust_max_clients_refused [of 32 100] by simp

section \<open>Clients come and go\<close>

text \<open>The list of clients: distinct, and every one of them open.\<close>

definition registry :: "'d server \<Rightarrow> bool" where
  "registry x \<longleftrightarrow> distinct (clients x) \<and> (\<forall>c\<in>set (clients x). \<exists>k. cmem x c = Some k \<and> cid k = c \<and> fd k \<noteq> - 1) \<and>
     (\<forall>c. next_cid x \<le> c \<longrightarrow> cmem x c = None) \<and> served x < 2 ^ 64 \<and> rejected x < 2 ^ 64"

definition refusal :: string where
  "refusal = ''-ERR max number of clients reached'' @ CRLF"

text \<open>
  What accepting \<open>n\<close> sockets comes to: as many clients are added as the limit allows, the
  others are told so and closed.
\<close>

definition accepted :: "nat \<Rightarrow> 'd server \<Rightarrow> 'd server \<Rightarrow> bool" where
  "accepted n x y \<longleftrightarrow> registry y \<and> max_clients y = max_clients x \<and>
     (let a = min n (max_clients x - length (clients x)) in
      length (clients y) = length (clients x) + a \<and> served y = (served x + a) mod 2 ^ 64 \<and>
      rejected y = (rejected x + (n - a)) mod 2 ^ 64 \<and>
      (\<exists>ms. wire y = wire x @ ms \<and> length ms = n - a \<and> list_all (\<lambda>m. snd m = refusal) ms))"

lemma accepted_refl: "registry x \<Longrightarrow> accepted 0 x x"
  by (simp add: accepted_def registry_def)

lemma accepted_trans:
  assumes "accepted m x y" and "accepted n y z" and "length (clients x) \<le> max_clients x"
  shows "accepted (m + n) x z"
proof -
  let ?a = "min m (max_clients x - length (clients x))" and ?b = "min n (max_clients y - length (clients y))"
  have y: "max_clients y = max_clients x" "length (clients y) = length (clients x) + ?a" "served y = (served x + ?a) mod 2 ^ 64"
    "rejected y = (rejected x + (m - ?a)) mod 2 ^ 64"
    "\<exists>ms. wire y = wire x @ ms \<and> length ms = m - ?a \<and> list_all (\<lambda>m. snd m = refusal) ms"
    using assms(1) unfolding accepted_def Let_def by blast+
  have z: "registry z" "max_clients z = max_clients y" "length (clients z) = length (clients y) + ?b" "served z = (served y + ?b) mod 2 ^ 64"
    "rejected z = (rejected y + (n - ?b)) mod 2 ^ 64"
    "\<exists>ms. wire z = wire y @ ms \<and> length ms = n - ?b \<and> list_all (\<lambda>m. snd m = refusal) ms"
    using assms(2) unfolding accepted_def Let_def by blast+
  have ab: "min (m + n) (max_clients x - length (clients x)) = ?a + ?b" unfolding y(1,2) using assms(3) by arith
  have le: "?a \<le> m" "?b \<le> n" by simp_all
  obtain ms ms' where w: "wire y = wire x @ ms" "length ms = m - ?a" "list_all (\<lambda>m. snd m = refusal) ms"
    "wire z = wire y @ ms'" "length ms' = n - ?b" "list_all (\<lambda>m. snd m = refusal) ms'" using y(5) z(6) by blast
  have "wire z = wire x @ ms @ ms' \<and> length (ms @ ms') = m + n - (?a + ?b) \<and> list_all (\<lambda>m. snd m = refusal) (ms @ ms')"
    using w le by simp
  moreover have "served z = (served x + (?a + ?b)) mod 2 ^ 64" unfolding z(4) y(3) by (simp add: mod_simps ac_simps)
  moreover have "rejected z = (rejected x + (m + n - (?a + ?b))) mod 2 ^ 64"
  proof -
    have "a \<le> m \<Longrightarrow> b \<le> n \<Longrightarrow> r + (m - a) + (n - b) = r + (m + n - (a + b))" for a b r :: nat by simp
    note eq = this [OF le, of "rejected x"]
    show ?thesis unfolding z(5) y(4) mod_add_left_eq eq by (rule refl)
  qed
  moreover have "length (clients z) = length (clients x) + (?a + ?b)" "max_clients z = max_clients x" using z(2,3) y(1,2) by simp_all
  ultimately show ?thesis unfolding accepted_def Let_def ab using z(1) by blast
qed

lemma add_client_accepted:
  assumes r: "registry x" and sock: "sock \<noteq> - 1" and len: "length (clients x) \<le> max_clients x"
  shows "\<exists>y. add_client sock fs ok x = Inr y \<and> accepted (of_bool ok) x y"
proof (cases ok)
  case False
  then have "add_client sock fs ok x = Inr x" using sock by (simp add: add_client_def rr_client_create_def)
  then show ?thesis using accepted_refl [OF r] False by simp
next
  case True
  let ?c = "next_cid x"
  have new: "?c \<notin> set (clients x)" using r by (force simp: registry_def)
  show ?thesis
  proof (cases "length (clients x) < max_clients x")
    case room: True
    obtain y where y: "add_client sock fs ok x = Inr y" "clients y = clients x @ [?c]" "served y = add64 (served x) 1"
      "rejected y = rejected x" "wire y = wire x" "max_clients y = max_clients x" "next_cid y = ?c + 1"
      "cmem y = (cmem x)(?c \<mapsto> \<lparr>cid = ?c, fd = sock, req_type = REQ_NONE, multibulk_len = 0, bulk_len = - 1, query = [], reply = [],
         flags = fs, argv = [], replied_len = 0, buf_sent_len = 0, buf = []\<rparr>)"
      using True sock room by (simp add: add_client_def rr_client_create_def Let_def with_client_def put_back_def)
    then have "registry y" using r new sock by (auto simp: registry_def add64_def)
    then show ?thesis using y True room by (auto simp: accepted_def add64_def registry_def)
  next
    case full: False
    obtain y where y: "add_client sock fs ok x = Inr y" "clients y = clients x" "served y = served x"
      "rejected y = add64 (rejected x) 1" "wire y = wire x @ [(?c, refusal)]" "max_clients y = max_clients x" "next_cid y = ?c + 1"
      "cmem y = (cmem x)(?c := None)"
      using True sock full len new
      by (simp add: add_client_def rr_client_create_def Let_def with_client_def put_back_def rr_client_free_def unlink_client_def
          free_client_argv_def refusal_def remove1_append)
    then have "registry y" using r new by (auto simp: registry_def add64_def)
    then show ?thesis using y True full len r by (auto simp: accepted_def add64_def registry_def)
  qed
qed

lemma accept_loop_accepted:
  assumes "registry x" and "length (clients x) \<le> max_clients x" and "\<forall>s\<in>set ss. fst s \<noteq> - 1"
  shows "\<exists>y. accept_loop m fs ss x = Inr y \<and> accepted (length (filter snd (take m ss))) x y"
  using assms
proof (induction m fs ss x rule: accept_loop.induct)
  case (3 m fs sock ok ss x)
  obtain y where y: "add_client sock fs ok x = Inr y" "accepted (of_bool ok) x y" using add_client_accepted [OF "3.prems"(1) _ "3.prems"(2)] "3.prems"(3) by fastforce
  then have "registry y" "length (clients y) \<le> max_clients y" using "3.prems"(2) by (auto simp: accepted_def Let_def)
  then obtain z where z: "accept_loop m fs ss y = Inr z" "accepted (length (filter snd (take m ss))) y z" using "3.IH" [OF y(1)] "3.prems"(3) by auto
  have "length (filter snd (take (Suc m) ((sock, ok) # ss))) = of_bool ok + length (filter snd (take m ss))" by simp
  then show ?case using y(1) z(1) accepted_trans [OF y(2) z(2) "3.prems"(2)] by simp
qed (auto intro: accepted_refl)



section \<open>Closing a client twice\<close>

text \<open>
  C4 (error). A client scheduled for closing is freed when its socket fails before \<^verbatim>\<open>server_cron\<close> runs, but
  it stays on the list of clients to close: the next \<^verbatim>\<open>server_cron\<close> goes through the freed
  structure.\<close>

theorem closing_client_freed_twice:
  fixes x :: "'d::linorder server"
  assumes k: "cmem x c = Some k" "cid k = c" "c \<in> set (clients x)" "fd k \<noteq> - 1" "\<not> has_flag (flags k) CLIENT_CLOSE_ASAP"
    and wf: "srv_wf E (x\<lparr>cl := k\<rparr>)" and up: "\<not> shutdown x" "clients_to_close x = []"
  shows "\<exists>y z. with_client x c (\<lambda>x. Inr (free_client_async x)) = Inr y \<and> with_client y c rr_client_free = Inr z \<and>
    cmem z c = None \<and> server_cron e z = Inl UseAfterFree"
proof -
  let ?k = "k\<lparr>flags := flags k OR CLIENT_CLOSE_ASAP\<rparr>"
  define y where "y = x\<lparr>cl := ?k, clients_to_close := [c], cmem := (cmem x)(c \<mapsto> ?k)\<rparr>"
  have y: "with_client x c (\<lambda>x. Inr (free_client_async x)) = Inr y"
    using k(1,2,5) up(2) by (simp add: with_client_def free_client_async_def put_back_def y_def)
  let ?Q = "dict_vals (db x) + mset (bgtasks x) + E"
  have h: "heap_store (store x) (mset (argv k) + ?Q)" using srv_wfD(1) [OF wf] by (simp add: srv_refs_def ac_simps)
  have s: "strs (store x) (mset (argv k))" using srv_wfD(5) [OF wf] by (simp add: strs_def)
  obtain st where st: "decr_all decrRefCount (store x) (argv k) = Inr st" using drop_strings [OF h s] by blast
  obtain z where z: "with_client y c rr_client_free = Inr z" "cmem z c = None" "clients_to_close z = [c]" "\<not> shutdown z"
    using st k(2-4) up(1)
    by (simp add: with_client_def y_def rr_client_free_def unlink_client_def free_client_argv_def put_back_def)
  have "server_cron e z = Inl UseAfterFree"
    using z(2-4) by (simp add: server_cron_def handle_async_freed_clients_def with_client_def)
  then show ?thesis using y z(1,2) by blast
qed

theorem closing_client_freed_twice_witness:
  "\<exists>x y z :: nat server. with_client x 1 (\<lambda>x. Inr (free_client_async x)) = Inr y \<and> with_client y 1 rr_client_free = Inr z \<and>
     server_cron quiet_env z = Inl UseAfterFree"
proof -
  obtain x :: "nat server" where x: "rr_server_init 0 10 False 10 = Inr x" "steady (x\<lparr>cl := idle_client\<rparr>)" by (rule started)
  let ?k = "idle_client\<lparr>cid := 1\<rparr>"
  let ?x = "x\<lparr>cmem := [1 \<mapsto> ?k], clients := [1]\<rparr>"
  have "srv_wf {#} (x\<lparr>cl := idle_client\<rparr>)" using x(2) by (simp add: steady_def)
  then have "srv_wf {#} (?x\<lparr>cl := ?k\<rparr>)" by (simp add: srv_wf_def srv_refs_def out_wf_def)
  moreover have "\<not> shutdown ?x" "clients_to_close ?x = []" using x(1) by (auto simp: rr_server_init_def)
  ultimately show ?thesis
    using closing_client_freed_twice [of ?x 1 ?k "{#}" quiet_env] by (auto simp: idle_client_def has_flag_def)
qed

end
