(* ===== verification/Rr_Event.thy ===== *)
theory Rr_Event
  imports Rr_Minheap "HOL-Library.Signed_Division"
begin

text \<open>
  The event loop: \<^verbatim>\<open>rr_event.c\<close>, its back end \<^verbatim>\<open>rr_epoll.c\<close> and the clock functions of
  \<^verbatim>\<open>rr_datetime.c\<close>.

  The system calls are parameters, collected in the record \<open>os\<close>: each takes the state of the world
  and gives its answer and the world after it. The callbacks are parameters too, collected in
  the record \<open>handlers\<close>: a callback may change the loop and the world. What \<^verbatim>\<open>epoll_ctl\<close> is relied
  on to do is \<open>epoll_documented\<close>, on the interest list the kernel keeps.

  The theorems: the loop and the kernel agree on what is watched after any sequence of
  registrations and removals, and \<^verbatim>\<open>maxfd\<close> is the highest descriptor watched; one round of
  polling runs no callback that was never set; the timers that are due run once each, in
  the order in which they expire, and those that stay active are armed again; the time the
  loop sleeps is bounded by the distance to the next timer, but for timers that are overdue.
\<close>

section \<open>The clock\<close>

text \<open>Each function gets the pair of seconds and microseconds \<^verbatim>\<open>gettimeofday\<close> answers.\<close>

definition rr_dt_now :: "int \<times> int \<Rightarrow> int \<times> int" where
  "rr_dt_now tv = (fst tv, snd tv sdiv 1000)"

definition rr_dt_expire_at :: "int \<times> int \<Rightarrow> int \<Rightarrow> int \<times> int" where
  "rr_dt_expire_at tv delta =
     (let (now_sec, now_ms) = rr_dt_now tv;
          utl_sec = now_sec + delta sdiv 1000;
          utl_ms = now_ms + delta smod 1000
      in if utl_ms \<ge> 1000 then (utl_sec + 1, utl_ms - 1000) else (utl_sec, utl_ms))"

definition rr_dt_is_past :: "int \<times> int \<Rightarrow> int \<Rightarrow> int \<Rightarrow> bool" where
  "rr_dt_is_past tv s m =
     (let (now_sec, now_ms) = rr_dt_now tv in now_sec > s \<or> now_sec = s \<and> now_ms \<ge> m)"

definition rr_dt_ustime :: "int \<times> int \<Rightarrow> int" where
  "rr_dt_ustime tv = fst tv * 1000000 + snd tv"

definition rr_dt_mstime :: "int \<times> int \<Rightarrow> int" where
  "rr_dt_mstime tv = rr_dt_ustime tv sdiv 1000"

section \<open>The loop\<close>

definition RR_EV_OK :: int where "RR_EV_OK = 0"
definition RR_EV_ERR :: int where "RR_EV_ERR = - 1"

definition RR_EV_NONE :: u32 where "RR_EV_NONE = 0"
definition RR_EV_READ :: u32 where "RR_EV_READ = 1"
definition RR_EV_WRITE :: u32 where "RR_EV_WRITE = 2"

text \<open>The fields of a slot no one has registered are not initialised: \<open>None\<close>.\<close>

record ('cb, 'u) event_t =
  emask :: u32
  read_cb :: "'cb option"
  write_cb :: "'cb option"
  eud :: "'u option"

record fired_event_t =
  ffd :: int
  fmask :: u32

record ('tcb, 'u) ev_timer_t =
  sec :: int
  ms :: int
  tud :: 'u
  timer_cb :: 'tcb

record ('cb, 'tcb, 'bp, 'u) eventloop_t =
  maxfd :: int
  lsize :: int
  events :: "('cb, 'u) event_t list"
  fired :: "fired_event_t list"
  timers :: "(('tcb, 'u) ev_timer_t, unit) minheap_t"
  stop :: bool
  before_polling :: "'bp option"

datatype ctl_op = EPOLL_CTL_ADD | EPOLL_CTL_MOD | EPOLL_CTL_DEL

text \<open>The bits of \<^verbatim>\<open>sys/epoll.h\<close>.\<close>

abbreviation (input) EPOLLIN :: u32 where "EPOLLIN \<equiv> 1"
abbreviation (input) EPOLLOUT :: u32 where "EPOLLOUT \<equiv> 4"
abbreviation (input) EPOLLERR :: u32 where "EPOLLERR \<equiv> 8"
abbreviation (input) EPOLLHUP :: u32 where "EPOLLHUP \<equiv> 16"

record 'w os =
  epoll_create :: "'w \<Rightarrow> int \<times> 'w"
  epoll_ctl :: "ctl_op \<Rightarrow> int \<Rightarrow> u32 \<Rightarrow> 'w \<Rightarrow> int \<times> 'w"
  epoll_wait :: "int \<Rightarrow> int \<Rightarrow> 'w \<Rightarrow> (u32 \<times> int) list option \<times> 'w"
  gettimeofday :: "'w \<Rightarrow> (int \<times> int) \<times> 'w"

record ('cb, 'tcb, 'bp, 'u, 'w) handlers =
  ev_call :: "'cb \<Rightarrow> ('cb, 'tcb, 'bp, 'u) eventloop_t \<Rightarrow> int \<Rightarrow> 'u \<Rightarrow> u32 \<Rightarrow> 'w \<Rightarrow>
    (('cb, 'tcb, 'bp, 'u) eventloop_t \<times> 'w) result"
  timer_call :: "'tcb \<Rightarrow> ('cb, 'tcb, 'bp, 'u) eventloop_t \<Rightarrow> 'u \<Rightarrow> 'w \<Rightarrow>
    (int \<times> ('cb, 'tcb, 'bp, 'u) eventloop_t \<times> 'w) result"
  polling_call :: "'bp \<Rightarrow> ('cb, 'tcb, 'bp, 'u) eventloop_t \<Rightarrow> 'w \<Rightarrow>
    (('cb, 'tcb, 'bp, 'u) eventloop_t \<times> 'w) result"

subsection \<open>Timers as heap elements\<close>

definition timer_cpy :: "('tcb, 'u) ev_timer_t \<Rightarrow> ('tcb, 'u) ev_timer_t" where
  "timer_cpy src = src"

definition timer_cmp :: "('tcb, 'u) ev_timer_t \<Rightarrow> ('tcb, 'u) ev_timer_t \<Rightarrow> int" where
  "timer_cmp l r =
     (if sec l < sec r \<or> sec l = sec r \<and> ms l < ms r then - 1
      else if sec l = sec r \<and> ms l = ms r then 0 else 1)"

definition timer_swp :: "('tcb, 'u) ev_timer_t \<times> ('tcb, 'u) ev_timer_t \<Rightarrow> ('tcb, 'u) ev_timer_t \<times> ('tcb, 'u) ev_timer_t" where
  "timer_swp p = (let tmp = fst p; lv = snd p; rv = tmp in (lv, rv))"

subsection \<open>The back end\<close>

text \<open>\<^verbatim>\<open>el->events[fd]\<close>\<close>

definition event_at :: "('cb, 'tcb, 'bp, 'u) eventloop_t \<Rightarrow> int \<Rightarrow> ('cb, 'u) event_t result" where
  "event_at el fd = (if 0 \<le> fd \<and> nat fd < length (events el) then Inr (events el ! nat fd) else Inl OutOfBounds)"

definition set_event :: "('cb, 'tcb, 'bp, 'u) eventloop_t \<Rightarrow> int \<Rightarrow> ('cb, 'u) event_t \<Rightarrow> ('cb, 'tcb, 'bp, 'u) eventloop_t" where
  "set_event el fd e = el\<lparr>events := (events el)[nat fd := e]\<rparr>"

definition epoll_bits :: "u32 \<Rightarrow> u32" where
  "epoll_bits m = (if m AND RR_EV_READ \<noteq> 0 then EPOLLIN else 0) OR (if m AND RR_EV_WRITE \<noteq> 0 then EPOLLOUT else 0)"

definition el_context_create :: "'w os \<Rightarrow> 'w \<Rightarrow> int \<times> 'w" where
  "el_context_create os w = (let (epfd, w) = epoll_create os w in (if epfd = - 1 then - 1 else 0, w))"

definition el_context_add :: "'w os \<Rightarrow> ('cb, 'tcb, 'bp, 'u) eventloop_t \<Rightarrow> int \<Rightarrow> u32 \<Rightarrow> 'w \<Rightarrow> (int \<times> 'w) result" where
  "el_context_add os el fd m w =
     rbind (event_at el fd) (\<lambda>e.
       let op' = (if emask e = RR_EV_NONE then EPOLL_CTL_ADD else EPOLL_CTL_MOD);
           (r, w) = epoll_ctl os op' fd (epoll_bits (m OR emask e)) w
       in Inr (if r = - 1 then - 1 else 0, w))"

definition el_context_del :: "'w os \<Rightarrow> ('cb, 'tcb, 'bp, 'u) eventloop_t \<Rightarrow> int \<Rightarrow> u32 \<Rightarrow> 'w \<Rightarrow> 'w result" where
  "el_context_del os el fd delmask w =
     rbind (event_at el fd) (\<lambda>e.
       let m = emask e AND NOT delmask
       in Inr (if m \<noteq> RR_EV_NONE then snd (epoll_ctl os EPOLL_CTL_MOD fd (epoll_bits m) w)
               else snd (epoll_ctl os EPOLL_CTL_DEL fd (epoll_bits m) w)))"

definition fired_of :: "u32 \<times> int \<Rightarrow> fired_event_t" where
  "fired_of e =
     \<lparr>ffd = snd e,
      fmask = (if fst e AND EPOLLIN \<noteq> 0 then RR_EV_READ else 0) OR (if fst e AND EPOLLOUT \<noteq> 0 then RR_EV_WRITE else 0) OR
              (if fst e AND EPOLLERR \<noteq> 0 then RR_EV_WRITE else 0) OR (if fst e AND EPOLLHUP \<noteq> 0 then RR_EV_WRITE else 0)\<rparr>"

text \<open>The timeout, a \<^verbatim>\<open>long\<close>, is passed as an \<^verbatim>\<open>int\<close>. \<open>None\<close> is the error of \<^verbatim>\<open>epoll_wait\<close>.\<close>

definition el_context_poll :: "'w os \<Rightarrow> ('cb, 'tcb, 'bp, 'u) eventloop_t \<Rightarrow> (int \<times> int) option \<Rightarrow> 'w \<Rightarrow>
    (nat \<times> ('cb, 'tcb, 'bp, 'u) eventloop_t \<times> 'w) result" where
  "el_context_poll os el tvp w =
     (let timeout = (case tvp of None \<Rightarrow> - 1 | Some (s, us) \<Rightarrow> signed_take_bit 31 (s * 1000 + us sdiv 1000));
          (r, w) = epoll_wait os (lsize el) timeout w
      in case r of
           None \<Rightarrow> Inr (0, el, w)
         | Some es \<Rightarrow>
             if length es > length (fired el) then Inl OutOfBounds
             else Inr (length es, el\<lparr>fired := map fired_of es @ drop (length es) (fired el)\<rparr>, w))"

subsection \<open>Registering and removing events\<close>

definition no_event :: "('cb, 'u) event_t" where
  "no_event = \<lparr>emask = RR_EV_NONE, read_cb = None, write_cb = None, eud = None\<rparr>"

text \<open>The size of \<^verbatim>\<open>ev_timer_t\<close> on the target is 32 bytes.\<close>

definition el_loop_create :: "'w os \<Rightarrow> nat \<Rightarrow> 'w \<Rightarrow> ('cb, 'tcb, 'bp, 'u) eventloop_t option \<times> 'w" where
  "el_loop_create os n w =
     (let el = \<lparr>maxfd = - 1, lsize = int n, events = replicate n no_event,
                fired = replicate n \<lparr>ffd = 0, fmask = 0\<rparr>,
                timers = minheap_create 1 32 timer_cmp timer_cpy timer_swp,
                stop = False, before_polling = None\<rparr>;
          (r, w) = el_context_create os w
      in (if r = - 1 then None else Some el, w))"

definition el_loop_set_before_polling :: "('cb, 'tcb, 'bp, 'u) eventloop_t \<Rightarrow> 'bp option \<Rightarrow> ('cb, 'tcb, 'bp, 'u) eventloop_t" where
  "el_loop_set_before_polling el callback = el\<lparr>before_polling := callback\<rparr>"

definition el_loop_get_size :: "('cb, 'tcb, 'bp, 'u) eventloop_t \<Rightarrow> int" where
  "el_loop_get_size el = lsize el"

definition el_loop_stop :: "('cb, 'tcb, 'bp, 'u) eventloop_t \<Rightarrow> ('cb, 'tcb, 'bp, 'u) eventloop_t" where
  "el_loop_stop el = el\<lparr>stop := True\<rparr>"

definition el_event_add :: "'w os \<Rightarrow> ('cb, 'tcb, 'bp, 'u) eventloop_t \<Rightarrow> int \<Rightarrow> u32 \<Rightarrow> 'cb \<Rightarrow> 'u \<Rightarrow> 'w \<Rightarrow>
    (int \<times> ('cb, 'tcb, 'bp, 'u) eventloop_t \<times> 'w) result" where
  "el_event_add os el fd m proc ud w =
     (if fd \<ge> lsize el then Inr (RR_EV_ERR, el, w)
      else
        rbind (el_context_add os el fd m w) (\<lambda>(r, w).
          if r = - 1 then Inr (RR_EV_ERR, el, w)
          else
            rbind (event_at el fd) (\<lambda>e.
              let e = e\<lparr>emask := emask e OR m\<rparr>;
                  e = (if m AND RR_EV_READ \<noteq> 0 then e\<lparr>read_cb := Some proc\<rparr> else e);
                  e = (if m AND RR_EV_WRITE \<noteq> 0 then e\<lparr>write_cb := Some proc\<rparr> else e);
                  el = set_event el fd (e\<lparr>eud := Some ud\<rparr>)
              in Inr (RR_EV_OK, if fd > maxfd el then el\<lparr>maxfd := fd\<rparr> else el, w))))"

text \<open>\<^verbatim>\<open>for (j = el->maxfd-1; j >= 0; j--) if (el->events[j].mask != RR_EV_NONE) break;\<close>\<close>

fun highest :: "('cb, 'u) event_t list \<Rightarrow> nat \<Rightarrow> int" where
  "highest es 0 = - 1"
| "highest es (Suc j) = (if emask (es ! j) \<noteq> RR_EV_NONE then int j else highest es j)"

definition el_event_del :: "'w os \<Rightarrow> ('cb, 'tcb, 'bp, 'u) eventloop_t \<Rightarrow> int \<Rightarrow> u32 \<Rightarrow> 'w \<Rightarrow>
    (('cb, 'tcb, 'bp, 'u) eventloop_t \<times> 'w) result" where
  "el_event_del os el fd m w =
     (if fd \<ge> lsize el then Inr (el, w)
      else
        rbind (event_at el fd) (\<lambda>e.
          if emask e = RR_EV_NONE then Inr (el, w)
          else
            rbind (el_context_del os el fd m w) (\<lambda>w.
              let e = e\<lparr>emask := emask e AND NOT m\<rparr>;
                  el = set_event el fd e
              in Inr (if fd = maxfd el \<and> emask e = RR_EV_NONE
                      then el\<lparr>maxfd := highest (events el) (nat (maxfd el))\<rparr> else el, w))))"

definition el_event_get :: "('cb, 'tcb, 'bp, 'u) eventloop_t \<Rightarrow> int \<Rightarrow> u32 result" where
  "el_event_get el fd =
     (if fd \<ge> lsize el then Inr RR_EV_NONE else rbind (event_at el fd) (\<lambda>e. Inr (emask e)))"

subsection \<open>Polling\<close>

definition call_event :: "('cb, 'tcb, 'bp, 'u, 'w) handlers \<Rightarrow> 'cb option \<Rightarrow> 'u option \<Rightarrow>
    ('cb, 'tcb, 'bp, 'u) eventloop_t \<Rightarrow> int \<Rightarrow> u32 \<Rightarrow> 'w \<Rightarrow> (('cb, 'tcb, 'bp, 'u) eventloop_t \<times> 'w) result" where
  "call_event hs cb u el fd m w =
     (case (cb, u) of (Some f, Some d) \<Rightarrow> ev_call hs f el fd d m w | _ \<Rightarrow> Inl Uninit)"

definition fire_event :: "('cb, 'tcb, 'bp, 'u, 'w) handlers \<Rightarrow> ('cb, 'tcb, 'bp, 'u) eventloop_t \<Rightarrow> nat \<Rightarrow> 'w \<Rightarrow>
    (('cb, 'tcb, 'bp, 'u) eventloop_t \<times> 'w) result" where
  "fire_event hs el j w =
     (let m = fmask (fired el ! j); fd = ffd (fired el ! j) in
      rbind (event_at el fd) (\<lambda>e.
      rbind (if emask e AND m AND RR_EV_READ \<noteq> 0
             then rbind (call_event hs (read_cb e) (eud e) el fd m w) (\<lambda>(el, w). Inr (True, el, w))
             else Inr (False, el, w)) (\<lambda>(rfired, el, w).
      rbind (event_at el fd) (\<lambda>e.
        if emask e AND m AND RR_EV_WRITE \<noteq> 0
        then if \<not> rfired \<or> write_cb e \<noteq> read_cb e
             then call_event hs (write_cb e) (eud e) el fd m w
             else Inr (el, w)
        else Inr (el, w)))))"

fun fire_all :: "('cb, 'tcb, 'bp, 'u, 'w) handlers \<Rightarrow> nat \<Rightarrow> nat \<Rightarrow> ('cb, 'tcb, 'bp, 'u) eventloop_t \<Rightarrow> 'w \<Rightarrow>
    (('cb, 'tcb, 'bp, 'u) eventloop_t \<times> 'w) result" where
  "fire_all hs 0 j el w = Inr (el, w)"
| "fire_all hs (Suc n) j el w = rbind (fire_event hs el j w) (\<lambda>(el, w). fire_all hs n (j + 1) el w)"

definition el_loop_poll :: "'w os \<Rightarrow> ('cb, 'tcb, 'bp, 'u, 'w) handlers \<Rightarrow> ('cb, 'tcb, 'bp, 'u) eventloop_t \<Rightarrow>
    (int \<times> int) option \<Rightarrow> 'w \<Rightarrow> (nat \<times> ('cb, 'tcb, 'bp, 'u) eventloop_t \<times> 'w) result" where
  "el_loop_poll os hs el tvp w =
     rbind (el_context_poll os el tvp w) (\<lambda>(nevents, el, w).
     rbind (fire_all hs nevents 0 el w) (\<lambda>(el, w). Inr (nevents, el, w)))"

subsection \<open>Timers\<close>

definition el_timer_add :: "'w os \<Rightarrow> ('cb, 'tcb, 'bp, 'u) eventloop_t \<Rightarrow> int \<Rightarrow> 'tcb \<Rightarrow> 'u \<Rightarrow> 'w \<Rightarrow>
    (int \<times> ('cb, 'tcb, 'bp, 'u) eventloop_t \<times> 'w) result" where
  "el_timer_add os el milliseconds proc ud w =
     (let (tv, w) = gettimeofday os w;
          (s, m) = rr_dt_expire_at tv milliseconds
      in rbind (minheap_push (timers el) \<lparr>sec = s, ms = m, tud = ud, timer_cb = proc\<rparr>) (\<lambda>(r, h).
           Inr (if r \<noteq> 0 then RR_EV_ERR else RR_EV_OK, el\<lparr>timers := h\<rparr>, w)))"

text \<open>
  Arming a timer again. \<open>p\<close> is the pointer \<^verbatim>\<open>t\<close> that \<^verbatim>\<open>minheap_pop\<close> gave, into the array of the heap
  \<open>h\<close>, just past its elements; the callback ran in between, and when it made the array
  grow the pointer dangles.
\<close>

definition rearm_timer :: "'w os \<Rightarrow> (('tcb, 'u) ev_timer_t, unit) minheap_t \<Rightarrow> nat option \<Rightarrow> int \<Rightarrow>
    ('cb, 'tcb, 'bp, 'u) eventloop_t \<Rightarrow> 'w \<Rightarrow> (('cb, 'tcb, 'bp, 'u) eventloop_t \<times> 'w) result" where
  "rearm_timer os h p millisecond el w =
     (if length (elm (array (timers el))) \<noteq> length (elm (array h)) then Inl UseAfterFree
      else
        let (tv, w) = gettimeofday os w;
            (s, m) = rr_dt_expire_at tv millisecond
        in rbind (array_read (array (timers el)) p) (\<lambda>t.
           let t = t\<lparr>sec := s, ms := m\<rparr> in
           rbind (array_write (array (timers el)) p t) (\<lambda>a.
           rbind (minheap_push ((timers el)\<lparr>array := a\<rparr>) t) (\<lambda>(ret, h).
             if ret \<noteq> 0 then Inl AssertFail else Inr (el\<lparr>timers := h\<rparr>, w)))))"

fun timer_loop :: "'w os \<Rightarrow> ('cb, 'tcb, 'bp, 'u, 'w) handlers \<Rightarrow> nat \<Rightarrow> nat \<Rightarrow> ('cb, 'tcb, 'bp, 'u) eventloop_t \<Rightarrow> 'w \<Rightarrow>
    (nat \<times> ('cb, 'tcb, 'bp, 'u) eventloop_t \<times> 'w) result" where
  "timer_loop os hs 0 processed el w = Inr (processed, el, w)"
| "timer_loop os hs (Suc len) processed el w =
     rbind (array_read (array (timers el)) (minheap_min (timers el))) (\<lambda>t.
     let (tv, w) = gettimeofday os w in
     if \<not> rr_dt_is_past tv (sec t) (ms t) then Inr (processed, el, w)
     else
       rbind (minheap_pop (timers el)) (\<lambda>(p, h).
       rbind (array_read (array h) p) (\<lambda>t.
       rbind (timer_call hs (timer_cb t) (el\<lparr>timers := h\<rparr>) (tud t) w) (\<lambda>(millisecond, el, w).
       rbind (if millisecond > 0 then rearm_timer os h p millisecond el w else Inr (el, w)) (\<lambda>(el, w).
       timer_loop os hs len (processed + 1) el w)))))"

definition el_timer_process :: "'w os \<Rightarrow> ('cb, 'tcb, 'bp, 'u, 'w) handlers \<Rightarrow> ('cb, 'tcb, 'bp, 'u) eventloop_t \<Rightarrow> 'w \<Rightarrow>
    (nat \<times> ('cb, 'tcb, 'bp, 'u) eventloop_t \<times> 'w) result" where
  "el_timer_process os hs el w = timer_loop os hs (minheap_len (timers el)) 0 el w"

definition el_poll_get_timeout :: "'w os \<Rightarrow> ('cb, 'tcb, 'bp, 'u) eventloop_t \<Rightarrow> 'w \<Rightarrow> ((int \<times> int) option \<times> 'w) result" where
  "el_poll_get_timeout os el w =
     (if minheap_len (timers el) = 0 then Inr (None, w)
      else
        rbind (array_read (array (timers el)) (minheap_min (timers el))) (\<lambda>t.
          let (tv, w) = gettimeofday os w;
              (now_sec, now_ms) = rr_dt_now tv;
              tv_sec = sec t - now_sec;
              (tv_sec, tv_usec) =
                (if ms t < now_ms then (tv_sec - 1, (ms t + 1000 - now_ms) * 1000)
                 else (tv_sec, (ms t - now_ms) * 1000));
              tv_sec = (if tv_sec < 0 then 0 else tv_sec);
              tv_usec = (if tv_usec < 0 then 0 else tv_usec)
          in Inr (Some (tv_sec, tv_usec), w)))"

subsection \<open>The main loop\<close>

definition el_round :: "'w os \<Rightarrow> ('cb, 'tcb, 'bp, 'u, 'w) handlers \<Rightarrow> ('cb, 'tcb, 'bp, 'u) eventloop_t \<Rightarrow> 'w \<Rightarrow>
    (('cb, 'tcb, 'bp, 'u) eventloop_t \<times> 'w) result" where
  "el_round os hs el w =
     rbind (case before_polling el of None \<Rightarrow> Inr (el, w) | Some f \<Rightarrow> polling_call hs f el w) (\<lambda>(el, w).
     rbind (el_poll_get_timeout os el w) (\<lambda>(tv, w).
     rbind (el_loop_poll os hs el tv w) (\<lambda>(nfevents, el, w).
     rbind (el_timer_process os hs el w) (\<lambda>(ntimer, el, w). Inr (el, w)))))"

text \<open>\<open>None\<close> is the loop that never ends.\<close>

partial_function (option) el_main :: "'w os \<Rightarrow> ('cb, 'tcb, 'bp, 'u, 'w) handlers \<Rightarrow> ('cb, 'tcb, 'bp, 'u) eventloop_t \<Rightarrow> 'w \<Rightarrow>
    (('cb, 'tcb, 'bp, 'u) eventloop_t \<times> 'w) result option" where
  "el_main os hs el w =
     (if stop el then Some (Inr (el, w))
      else case el_round os hs el w of
             Inl f \<Rightarrow> Some (Inl f)
           | Inr (el, w) \<Rightarrow> el_main os hs el w)"


section \<open>The clock, in milliseconds\<close>

definition tv_ok :: "int \<times> int \<Rightarrow> bool" where
  "tv_ok tv \<longleftrightarrow> 0 \<le> snd tv \<and> snd tv < 1000000"

text \<open>The millisecond a reading of the clock, or the expiry of a timer, stands for.\<close>

definition now_of :: "int \<times> int \<Rightarrow> int" where
  "now_of tv = fst tv * 1000 + snd tv div 1000"

definition expiry :: "('tcb, 'u) ev_timer_t \<Rightarrow> int" where
  "expiry t = sec t * 1000 + ms t"

definition timer_ok :: "('tcb, 'u) ev_timer_t \<Rightarrow> bool" where
  "timer_ok t \<longleftrightarrow> 0 \<le> ms t \<and> ms t < 1000"

lemma sdiv_1000: "0 \<le> a \<Longrightarrow> a sdiv 1000 = a div (1000 :: int)"
  and smod_1000: "0 \<le> a \<Longrightarrow> a smod 1000 = a mod (1000 :: int)"
  by (auto simp: signed_divide_int_def signed_modulo_int_def sgn_if minus_mult_div_eq_mod)

lemma now_ok:
  assumes "tv_ok tv"
  shows "rr_dt_now tv = (fst tv, snd tv div 1000)" and "0 \<le> snd tv div 1000" and "snd tv div 1000 < 1000"
  using assms by (auto simp: tv_ok_def rr_dt_now_def sdiv_1000)

lemma expire_at:
  assumes "tv_ok tv" and "0 \<le> d" and "rr_dt_expire_at tv d = (s, m)"
  shows "s * 1000 + m = now_of tv + d" and "0 \<le> m" and "m < 1000"
proof -
  have m: "0 \<le> d mod 1000" "d mod 1000 < 1000" "d div 1000 * 1000 + d mod 1000 = d" by auto
  have *: "(s, m) = (if snd tv div 1000 + d mod 1000 \<ge> 1000
      then (fst tv + d div 1000 + 1, snd tv div 1000 + d mod 1000 - 1000)
      else (fst tv + d div 1000, snd tv div 1000 + d mod 1000))"
    using assms by (simp add: rr_dt_expire_at_def now_ok sdiv_1000 smod_1000 Let_def)
  show "s * 1000 + m = now_of tv + d" "0 \<le> m" "m < 1000"
    using * m now_ok(2,3) [OF assms(1)] unfolding now_of_def by (auto split: if_splits)
qed

lemma is_past:
  assumes "tv_ok tv" and "timer_ok t"
  shows "rr_dt_is_past tv (sec t) (ms t) \<longleftrightarrow> expiry t \<le> now_of tv"
  using now_ok [OF assms(1)] assms(2)
  by (auto simp: rr_dt_is_past_def expiry_def now_of_def timer_ok_def)

lemma mstime: "tv_ok tv \<Longrightarrow> 0 \<le> fst tv \<Longrightarrow> rr_dt_mstime tv = now_of tv"
  by (simp add: rr_dt_mstime_def rr_dt_ustime_def now_of_def tv_ok_def sdiv_1000)

lemma timer_cmp_expiry:
  "timer_ok a \<Longrightarrow> timer_ok b \<Longrightarrow> timer_cmp a b \<le> 0 \<longleftrightarrow> expiry a \<le> expiry b"
  by (auto simp: timer_cmp_def expiry_def timer_ok_def)

interpretation tq: heap_order "timer_cmp :: ('tcb, 'u) ev_timer_t \<Rightarrow> ('tcb, 'u) ev_timer_t \<Rightarrow> int"
  by unfold_locales (auto simp: timer_cmp_def split: if_splits)

section \<open>The invariant\<close>

definition event_ok :: "('cb, 'u) event_t \<Rightarrow> bool" where
  "event_ok e \<longleftrightarrow> (emask e AND RR_EV_READ \<noteq> 0 \<longrightarrow> read_cb e \<noteq> None) \<and>
     (emask e AND RR_EV_WRITE \<noteq> 0 \<longrightarrow> write_cb e \<noteq> None) \<and> (emask e \<noteq> 0 \<longrightarrow> eud e \<noteq> None)"

definition loop_ok :: "('cb, 'tcb, 'bp, 'u) eventloop_t \<Rightarrow> bool" where
  "loop_ok el \<longleftrightarrow> lsize el = int (length (events el)) \<and> length (fired el) = length (events el) \<and>
     maxfd el = highest (events el) (length (events el)) \<and> (\<forall>e\<in>set (events el). event_ok e)"

text \<open>The mask watched for a descriptor.\<close>

definition watched :: "('cb, 'tcb, 'bp, 'u) eventloop_t \<Rightarrow> int \<Rightarrow> u32" where
  "watched el fd = (if 0 \<le> fd \<and> nat fd < length (events el) then emask (events el ! nat fd) else 0)"

lemma highest_bounds: "- 1 \<le> highest es n \<and> highest es n < int n"
  by (induction n) auto

lemma highest_spec:
  "(\<forall>i. highest es n < int i \<and> i < n \<longrightarrow> emask (es ! i) = 0) \<and>
   (highest es n \<noteq> - 1 \<longrightarrow> emask (es ! nat (highest es n)) \<noteq> 0)"
  by (induction n) (auto simp: RR_EV_NONE_def less_Suc_eq)

lemma highest_eqI:
  assumes "- 1 \<le> m" and "m < int n" and "\<And>i. m < int i \<Longrightarrow> i < n \<Longrightarrow> emask (es ! i) = 0"
    and "m \<noteq> - 1 \<Longrightarrow> emask (es ! nat m) \<noteq> 0"
  shows "highest es n = m"
proof (rule ccontr)
  assume "highest es n \<noteq> m"
  then consider "highest es n < m" | "m < highest es n" by linarith
  then show False
  proof cases
    case 1
    then have "m \<noteq> - 1" using highest_bounds [of es n] by linarith
    moreover have "emask (es ! nat m) = 0"
      using highest_spec [of es n] 1 assms(2) highest_bounds [of es n] by auto
    ultimately show False using assms(4) by simp
  next
    case 2
    then have "highest es n \<noteq> - 1" using assms(1) by linarith
    moreover have "emask (es ! nat (highest es n)) = 0"
      using assms(1) 2 highest_bounds [of es n] by (intro assms(3)) auto
    ultimately show False using highest_spec [of es n] by blast
  qed
qed

lemma maxfd_highest:
  assumes "loop_ok el"
  shows "watched el fd \<noteq> 0 \<Longrightarrow> fd \<le> maxfd el" and "maxfd el = - 1 \<or> watched el (maxfd el) \<noteq> 0"
proof -
  let ?n = "length (events el)"
  have max: "maxfd el = highest (events el) ?n" using assms by (simp add: loop_ok_def)
  show "fd \<le> maxfd el" if "watched el fd \<noteq> 0"
    using that highest_spec [of "events el" ?n] max
    by (auto simp: watched_def split: if_splits) (metis leI nat_less_iff zless_nat_eq_int_zless int_nat_eq)
  show "maxfd el = - 1 \<or> watched el (maxfd el) \<noteq> 0"
    using highest_spec [of "events el" ?n] highest_bounds [of "events el" ?n] max
    by (auto simp: watched_def)
qed

text \<open>A loop as \<^verbatim>\<open>el_loop_create\<close> leaves it.\<close>

lemma timer_callbacks: "timer_cpy = (\<lambda>x. x)" "timer_swp = prod.swap"
  by (auto simp: timer_cpy_def timer_swp_def fun_eq_iff)

lemma el_loop_create_ok:
  assumes "el_loop_create os n w = (Some el, w')"
  shows "loop_ok el" and "watched el = (\<lambda>_. 0)" and "lsize el = int n"
    and "heap_wf timer_cmp (timers el)" and "heap_bag (timers el) = {#}"
proof -
  have el: "events el = replicate n no_event" "lsize el = int n" "maxfd el = - 1" "length (fired el) = n"
    "timers el = minheap_create 1 32 timer_cmp (\<lambda>x. x) prod.swap"
    using assms by (auto simp: el_loop_create_def Let_def timer_callbacks split: if_splits prod.splits)
  have "highest (replicate n (no_event :: ('a, 'd) event_t)) n = - 1"
    by (intro highest_eqI) (auto simp: no_event_def RR_EV_NONE_def)
  then show "loop_ok el"
    using el by (auto simp: loop_ok_def event_ok_def no_event_def RR_EV_NONE_def)
  show "watched el = (\<lambda>_. 0)"
    using el by (auto simp: watched_def no_event_def RR_EV_NONE_def)
  show "lsize el = int n" by (rule el)
  show "heap_wf timer_cmp (timers el)" "heap_bag (timers el) = {#}"
    unfolding el(5) by (rule minheap_create_wf; simp)+
qed


section \<open>The loop and the kernel\<close>

text \<open>
  What the manual page of \<^verbatim>\<open>epoll_ctl\<close> says of the interest list: a call that fails leaves it
  as it was, one that succeeds adds, changes or removes the entry of the descriptor;
  adding needs the descriptor to be absent, the others need it to be there. Changing or removing an entry that
  is there succeeds. A new instance has an empty list.
\<close>

definition epoll_documented :: "'w os \<Rightarrow> ('w \<Rightarrow> int \<Rightarrow> u32 option) \<Rightarrow> bool" where
  "epoll_documented os interest \<longleftrightarrow>
     (\<forall>w. fst (epoll_create os w) \<noteq> - 1 \<longrightarrow> interest (snd (epoll_create os w)) = (\<lambda>_. None)) \<and>
     (\<forall>op' fd ev w r w'. epoll_ctl os op' fd ev w = (r, w') \<longrightarrow>
        (if r = - 1 then interest w' = interest w
         else (interest w fd = None \<longleftrightarrow> op' = EPOLL_CTL_ADD) \<and>
              interest w' = (interest w)(fd := (if op' = EPOLL_CTL_DEL then None else Some ev))) \<and>
        (op' \<noteq> EPOLL_CTL_ADD \<and> interest w fd \<noteq> None \<longrightarrow> r \<noteq> - 1))"

text \<open>The interest list is the one the masks of the loop ask for.\<close>

definition mirrors :: "('w \<Rightarrow> int \<Rightarrow> u32 option) \<Rightarrow> ('cb, 'tcb, 'bp, 'u) eventloop_t \<Rightarrow> 'w \<Rightarrow> bool" where
  "mirrors interest el w \<longleftrightarrow>
     interest w = (\<lambda>fd. if watched el fd = 0 then None else Some (epoll_bits (watched el fd)))"

lemma ctl_cases:
  assumes "epoll_documented os interest" and "epoll_ctl os op' fd ev w = (r, w')"
  shows "r = - 1 \<Longrightarrow> interest w' = interest w"
    and "r \<noteq> - 1 \<Longrightarrow> interest w' = (interest w)(fd := (if op' = EPOLL_CTL_DEL then None else Some ev))"
    and "op' \<noteq> EPOLL_CTL_ADD \<Longrightarrow> interest w fd \<noteq> None \<Longrightarrow> r \<noteq> - 1"
  using assms unfolding epoll_documented_def by presburger+

text \<open>Storing an event whose mask is \<open>m\<close>.\<close>

lemma watched_set_event:
  assumes "0 \<le> fd" and "nat fd < length (events el)"
  shows "watched (set_event el fd e) = (watched el)(fd := emask e)"
  using assms by (auto simp: watched_def set_event_def nth_list_update fun_eq_iff nat_eq_iff2)

lemma watched_more [simp]: "watched (el\<lparr>maxfd := k\<rparr>) = watched el"
  by (simp add: watched_def fun_eq_iff)

lemma event_at_ok:
  "0 \<le> fd \<Longrightarrow> nat fd < length (events el) \<Longrightarrow> event_at el fd = Inr (events el ! nat fd)"
  by (simp add: event_at_def)

lemma watched_at: "0 \<le> fd \<Longrightarrow> nat fd < length (events el) \<Longrightarrow> watched el fd = emask (events el ! nat fd)"
  by (simp add: watched_def)

lemma highest_update:
  assumes n: "n = length es" and i: "i < n"
  shows "emask e \<noteq> 0 \<Longrightarrow> highest (es[i := e]) n = max (int i) (highest es n)"
    and "emask e = 0 \<Longrightarrow> highest es n \<noteq> int i \<Longrightarrow> highest (es[i := e]) n = highest es n"
    and "emask e = 0 \<Longrightarrow> highest es n = int i \<Longrightarrow> highest (es[i := e]) n = highest (es[i := e]) i"
proof -
  note spec = highest_spec [of es n] highest_bounds [of es n]
  show "highest (es[i := e]) n = max (int i) (highest es n)" if "emask e \<noteq> 0"
    using that assms spec by (intro highest_eqI) (auto simp: nth_list_update max_def split: if_splits)
  show "highest (es[i := e]) n = highest es n" if "emask e = 0" "highest es n \<noteq> int i"
    using that assms spec by (intro highest_eqI) (auto simp: nth_list_update)
  show "highest (es[i := e]) n = highest (es[i := e]) i" if "emask e = 0" "highest es n = int i"
  proof (rule highest_eqI)
    note spec' = highest_spec [of "es[i := e]" i] highest_bounds [of "es[i := e]" i]
    show "- 1 \<le> highest (es[i := e]) i" "highest (es[i := e]) i < int n"
      using spec' i by auto
    show "emask (es[i := e] ! nat (highest (es[i := e]) i)) \<noteq> 0" if "highest (es[i := e]) i \<noteq> - 1"
      using spec' that by blast
    fix j assume j: "highest (es[i := e]) i < int j" "j < n"
    show "emask (es[i := e] ! j) = 0"
    proof (cases "j < i")
      case True with j spec' show ?thesis by blast
    next
      case False
      with j that spec i n show ?thesis by (auto simp: nth_list_update)
    qed
  qed
qed

lemma add_keeps:
  fixes el :: "('cb, 'tcb, 'bp, 'u) eventloop_t"
  assumes doc: "epoll_documented os interest" and ok: "loop_ok el" and mir: "mirrors interest el w"
    and fd: "0 \<le> fd" and m: "m AND (RR_EV_READ OR RR_EV_WRITE) = m" "m \<noteq> 0"
  obtains r el' w' where "el_event_add os el fd m cb u w = Inr (r, el', w')" and "loop_ok el'"
    and "mirrors interest el' w'" and "lsize el' = lsize el" and "timers el' = timers el"
    and "watched el' = (if r = RR_EV_OK then (watched el)(fd := watched el fd OR m) else watched el)"
    and "r = RR_EV_OK \<or> r = RR_EV_ERR" and "fd \<ge> lsize el \<Longrightarrow> r = RR_EV_ERR"
proof (cases "fd \<ge> lsize el")
  case True
  with ok mir show thesis
    by (intro that [of RR_EV_ERR el w]) (auto simp: el_event_add_def RR_EV_ERR_def RR_EV_OK_def)
next
  case False
  let ?n = "length (events el)" and ?i = "nat fd"
  have i: "?i < ?n" using False fd ok by (simp add: loop_ok_def)
  let ?e = "events el ! ?i"
  let ?op = "if emask ?e = RR_EV_NONE then EPOLL_CTL_ADD else EPOLL_CTL_MOD"
  obtain r w' where ctl: "epoll_ctl os ?op fd (epoll_bits (m OR emask ?e)) w = (r, w')" by fastforce
  have ctx: "el_context_add os el fd m w = Inr (if r = - 1 then - 1 else 0, w')"
    using ctl by (simp add: el_context_add_def event_at_ok [OF fd i] Let_def)
  show thesis
  proof (cases "r = - 1")
    case True
    with ctx mir ok False ctl_cases(1) [OF doc ctl True] show thesis
      by (intro that [of RR_EV_ERR el w']) (auto simp: el_event_add_def RR_EV_ERR_def RR_EV_OK_def mirrors_def)
  next
    case r: False
    define e where "e = (let e = ?e\<lparr>emask := emask ?e OR m\<rparr>;
                  e = (if m AND RR_EV_READ \<noteq> 0 then e\<lparr>read_cb := Some cb\<rparr> else e);
                  e = (if m AND RR_EV_WRITE \<noteq> 0 then e\<lparr>write_cb := Some cb\<rparr> else e) in e\<lparr>eud := Some u\<rparr>)"
    define el' where "el' = (let el = set_event el fd e in if fd > maxfd el then el\<lparr>maxfd := fd\<rparr> else el)"
    have run: "el_event_add os el fd m cb u w = Inr (RR_EV_OK, el', w')"
      using False ctx r by (simp add: el_event_add_def event_at_ok [OF fd i] Let_def e_def el'_def)
    have em: "emask e = emask ?e OR m" by (simp add: e_def Let_def)
    have "emask ?e OR m \<noteq> 0" using m(2) by (metis or.right_neutral or_eq_0_iff)
    then have nz: "emask e \<noteq> 0" by (simp add: em)
    have ev: "events el' = (events el)[?i := e]" "lsize el' = lsize el" "fired el' = fired el" "timers el' = timers el"
      "maxfd el' = max fd (maxfd el)"
      by (auto simp: el'_def Let_def set_event_def)
    have wat: "watched el' = (watched el)(fd := watched el fd OR m)"
      using watched_set_event [OF fd i, of e] em watched_at [OF fd i]
        by (auto simp: el'_def Let_def)
    have evok: "event_ok e"
      using ok i nth_mem [OF i] by (auto simp: loop_ok_def event_ok_def e_def Let_def bit.conj_disj_distrib2)
    have "loop_ok el'"
      using ok i evok ev highest_update(1) [OF refl i nz] fd set_update_subset_insert [of "events el" ?i e]
      by (auto simp: loop_ok_def)
    moreover have "mirrors interest el' w'"
      using ctl_cases(2) [OF doc ctl r] mir nz em watched_at [OF fd i]
      by (auto simp: mirrors_def wat fun_eq_iff or.commute)
    ultimately show thesis
      using run ev wat False by (intro that [of RR_EV_OK el' w']) auto
  qed
qed

lemma del_keeps:
  fixes el :: "('cb, 'tcb, 'bp, 'u) eventloop_t"
  assumes doc: "epoll_documented os interest" and ok: "loop_ok el" and mir: "mirrors interest el w"
    and fd: "0 \<le> fd"
  obtains el' w' where "el_event_del os el fd m w = Inr (el', w')" and "loop_ok el'"
    and "mirrors interest el' w'" and "lsize el' = lsize el" and "timers el' = timers el"
    and "watched el' = (watched el)(fd := watched el fd AND NOT m)"
proof (cases "fd \<ge> lsize el \<or> watched el fd = 0")
  case True
  then have "el_event_del os el fd m w = Inr (el, w)" and "watched el fd = 0"
    using ok fd by (auto simp: el_event_del_def loop_ok_def watched_def event_at_def RR_EV_NONE_def)
  with ok mir show thesis
    by (intro that [of el w]) (auto simp: fun_eq_iff)
next
  case False
  let ?n = "length (events el)" and ?i = "nat fd"
  have i: "?i < ?n" using False fd ok by (auto simp: loop_ok_def)
  let ?e = "events el ! ?i"
  let ?m = "emask ?e AND NOT m"
  let ?op = "if ?m \<noteq> 0 then EPOLL_CTL_MOD else EPOLL_CTL_DEL"
  have em: "watched el fd = emask ?e" using watched_at [OF fd i] .
  obtain r w' where ctl: "epoll_ctl os ?op fd (epoll_bits ?m) w = (r, w')" by fastforce
  have r: "r \<noteq> - 1"
    using ctl_cases(3) [OF doc ctl] mir False by (auto simp: mirrors_def)
  define e where "e = ?e\<lparr>emask := ?m\<rparr>"
  define el' where "el' = (let el = set_event el fd e in
    if fd = maxfd el \<and> ?m = 0 then el\<lparr>maxfd := highest (events el) (nat (maxfd el))\<rparr> else el)"
  have "el_context_del os el fd m w = Inr w'"
    using ctl by (auto simp: el_context_del_def event_at_ok [OF fd i] Let_def RR_EV_NONE_def split: if_splits)
  then have run: "el_event_del os el fd m w = Inr (el', w')"
    using False em by (simp add: el_event_del_def event_at_ok [OF fd i] Let_def e_def el'_def RR_EV_NONE_def)
  have ev: "events el' = (events el)[?i := e]" "lsize el' = lsize el" "fired el' = fired el" "timers el' = timers el"
    "maxfd el' = (if fd = maxfd el \<and> ?m = 0 then highest ((events el)[?i := e]) ?i else maxfd el)"
    by (auto simp: el'_def Let_def set_event_def)
  have wat: "watched el' = (watched el)(fd := watched el fd AND NOT m)"
    using watched_set_event [OF fd i, of e] em by (auto simp: el'_def Let_def e_def)
  have "event_ok ?e" using ok i nth_mem [OF i] by (auto simp: loop_ok_def)
  then have evok: "event_ok e"
    by (auto simp: event_ok_def e_def and.assoc and.left_commute [of _ "NOT m"])
  have max: "maxfd el = highest (events el) ?n" using ok by (simp add: loop_ok_def)
  have fdi: "int ?i = fd" using fd by simp
  have ee: "?m = emask e" by (simp add: e_def)
  have "fd \<le> highest (events el) ?n"
    using maxfd_highest(1) [OF ok, of fd] False max by auto
  then have "maxfd el' = highest ((events el)[?i := e]) ?n"
    using ev(5) highest_update [OF refl i, of e, folded ee, unfolded fdi] max by (cases "?m = 0") auto
  then have "loop_ok el'"
    using ok i evok ev set_update_subset_insert [of "events el" ?i e] by (auto simp: loop_ok_def)
  moreover have "mirrors interest el' w'"
    using ctl_cases(2) [OF doc ctl r] mir em by (auto simp: mirrors_def wat fun_eq_iff)
  ultimately show thesis
    using run ev wat by (intro that [of el' w']) auto
qed


section \<open>Any sequence of registrations\<close>

datatype ('cb, 'u) ev_op = Add_Event int u32 'cb 'u | Del_Event int u32

fun op_ok :: "('cb, 'u) ev_op \<Rightarrow> bool" where
  "op_ok (Add_Event fd m cb u) = (0 \<le> fd \<and> m \<in> {RR_EV_READ, RR_EV_WRITE, RR_EV_READ OR RR_EV_WRITE})"
| "op_ok (Del_Event fd m) = (0 \<le> fd)"

fun run_op :: "'w os \<Rightarrow> ('cb, 'u) ev_op \<Rightarrow> ('cb, 'tcb, 'bp, 'u) eventloop_t \<Rightarrow> 'w \<Rightarrow>
    (int \<times> ('cb, 'tcb, 'bp, 'u) eventloop_t \<times> 'w) result" where
  "run_op os (Add_Event fd m cb u) el w = el_event_add os el fd m cb u w"
| "run_op os (Del_Event fd m) el w = rbind (el_event_del os el fd m w) (\<lambda>(el, w). Inr (RR_EV_OK, el, w))"

fun run_ops :: "'w os \<Rightarrow> ('cb, 'u) ev_op list \<Rightarrow> ('cb, 'tcb, 'bp, 'u) eventloop_t \<Rightarrow> 'w \<Rightarrow>
    (int list \<times> ('cb, 'tcb, 'bp, 'u) eventloop_t \<times> 'w) result" where
  "run_ops os [] el w = Inr ([], el, w)"
| "run_ops os (o1 # ops) el w =
     rbind (run_op os o1 el w) (\<lambda>(r, el, w). rbind (run_ops os ops el w) (\<lambda>(rs, el, w). Inr (r # rs, el, w)))"

text \<open>The specification: a mask for each descriptor; a registration that was refused changes nothing.\<close>

fun registry1 :: "('cb, 'u) ev_op \<Rightarrow> int \<Rightarrow> (int \<Rightarrow> u32) \<Rightarrow> int \<Rightarrow> u32" where
  "registry1 (Add_Event fd m cb u) r g = (if r = RR_EV_OK then g(fd := g fd OR m) else g)"
| "registry1 (Del_Event fd m) r g = g(fd := g fd AND NOT m)"

definition registry :: "(('cb, 'u) ev_op \<times> int) list \<Rightarrow> (int \<Rightarrow> u32) \<Rightarrow> int \<Rightarrow> u32" where
  "registry = fold (\<lambda>(o1, r). registry1 o1 r)"

lemma run_op_keeps:
  assumes doc: "epoll_documented os interest" and ok: "loop_ok el" "mirrors interest el w" and op: "op_ok o1"
  obtains r el' w' where "run_op os o1 el w = Inr (r, el', w')" and "loop_ok el'" and "mirrors interest el' w'"
    and "lsize el' = lsize el" and "watched el' = registry1 o1 r (watched el)"
proof (cases o1)
  case (Add_Event fd m cb u)
  then have m: "m AND (RR_EV_READ OR RR_EV_WRITE) = m" "m \<noteq> 0" and fd: "0 \<le> fd"
    using op by (auto simp: RR_EV_READ_def RR_EV_WRITE_def)
  obtain r el' w' where "el_event_add os el fd m cb u w = Inr (r, el', w')" "loop_ok el'"
    "mirrors interest el' w'" "lsize el' = lsize el"
    "watched el' = (if r = RR_EV_OK then (watched el)(fd := watched el fd OR m) else watched el)"
    by (rule add_keeps [OF doc ok fd m])
  with Add_Event show thesis by (intro that [of r el' w']) auto
next
  case (Del_Event fd m)
  then have fd: "0 \<le> fd" using op by simp
  obtain el' w' where "el_event_del os el fd m w = Inr (el', w')" "loop_ok el'" "mirrors interest el' w'"
    "lsize el' = lsize el" "watched el' = (watched el)(fd := watched el fd AND NOT m)"
    by (rule del_keeps [OF doc ok fd])
  with Del_Event show thesis by (intro that [of RR_EV_OK el' w']) auto
qed

lemma run_ops_keep:
  assumes doc: "epoll_documented os interest"
  shows "loop_ok el \<Longrightarrow> mirrors interest el w \<Longrightarrow> list_all op_ok ops \<Longrightarrow>
    \<exists>rs el' w'. run_ops os ops el w = Inr (rs, el', w') \<and> length rs = length ops \<and> loop_ok el' \<and>
      mirrors interest el' w' \<and> lsize el' = lsize el \<and> watched el' = registry (zip ops rs) (watched el)"
proof (induction ops arbitrary: el w)
  case (Cons o1 ops)
  have op: "op_ok o1" using Cons.prems by simp
  obtain r el1 w1 where 1: "run_op os o1 el w = Inr (r, el1, w1)" "loop_ok el1" "mirrors interest el1 w1"
    "lsize el1 = lsize el" "watched el1 = registry1 o1 r (watched el)"
    by (rule run_op_keeps [OF doc Cons.prems(1,2) op])
  obtain rs el' w' where "run_ops os ops el1 w1 = Inr (rs, el', w')" "length rs = length ops" "loop_ok el'"
    "mirrors interest el' w'" "lsize el' = lsize el1" "watched el' = registry (zip ops rs) (watched el1)"
    using Cons.IH [OF 1(2,3)] Cons.prems by auto
  with 1 show ?case by (intro exI [of _ "r # rs"]) (auto simp: registry_def)
qed (simp add: registry_def)

text \<open>
  C7 (refinement). The event loop and the kernel keep the same book. After any sequence of
  \<^verbatim>\<open>el_event_add\<close> and \<^verbatim>\<open>el_event_del\<close> on a new loop, with descriptors that are not negative and masks of reads and writes,
  no access has left the table; the mask of each descriptor is the one the successful operations ask for; the interest
  list of the kernel has exactly the descriptors with a mask, each with the bits of its mask;
  and \<^verbatim>\<open>maxfd\<close> is the highest descriptor watched, \<open>- 1\<close> when there is none. \<^verbatim>\<open>epoll_ctl\<close> is assumed to do
  what its manual page says, and may refuse to add a descriptor.
\<close>

theorem event_registry_refines:
  assumes "epoll_documented os interest" and "el_loop_create os n w = (Some el, w1)" and "list_all op_ok ops"
  shows "\<exists>rs el' w'. run_ops os ops el w1 = Inr (rs, el', w') \<and> length rs = length ops \<and>
    watched el' = registry (zip ops rs) (\<lambda>_. 0) \<and>
    interest w' = (\<lambda>fd. if watched el' fd = 0 then None else Some (epoll_bits (watched el' fd))) \<and>
    (\<forall>fd. 0 \<le> fd \<longrightarrow> el_event_get el' fd = Inr (watched el' fd)) \<and>
    (\<forall>fd. watched el' fd \<noteq> 0 \<longrightarrow> fd \<le> maxfd el') \<and> (maxfd el' = - 1 \<or> watched el' (maxfd el') \<noteq> 0)"
proof -
  have "interest w1 = (\<lambda>_. None)"
    using assms(1,2) by (auto simp: el_loop_create_def el_context_create_def epoll_documented_def Let_def
        split: prod.splits if_splits) (metis fst_conv snd_conv)
  then have mir: "mirrors interest el w1"
    using el_loop_create_ok(2) [OF assms(2)] by (simp add: mirrors_def)
  obtain rs el' w' where *: "run_ops os ops el w1 = Inr (rs, el', w')" "length rs = length ops" "loop_ok el'"
    "mirrors interest el' w'" "watched el' = registry (zip ops rs) (watched el)"
    using run_ops_keep [OF assms(1) el_loop_create_ok(1) [OF assms(2)] mir assms(3)] by blast
  have "el_event_get el' fd = Inr (watched el' fd)" if "0 \<le> fd" for fd
    using *(3) that by (auto simp: el_event_get_def loop_ok_def watched_def event_at_def RR_EV_NONE_def)
  with * el_loop_create_ok(2) [OF assms(2)] maxfd_highest [OF *(3)] show ?thesis
    by (intro exI conjI) (auto simp: mirrors_def)
qed

text \<open>A kernel that does what the manual page says, its state being the interest list.\<close>

definition plain_os :: "(int \<Rightarrow> u32 option) os" where
  "plain_os =
     \<lparr>epoll_create = (\<lambda>w. (3, \<lambda>_. None)),
      epoll_ctl = (\<lambda>op' fd ev w.
        if (w fd = None) = (op' = EPOLL_CTL_ADD)
        then (0, w(fd := (if op' = EPOLL_CTL_DEL then None else Some ev))) else (- 1, w)),
      epoll_wait = (\<lambda>k t w. (Some [], w)), gettimeofday = (\<lambda>w. ((0, 0), w))\<rparr>"

lemma plain_os_documented: "epoll_documented plain_os (\<lambda>w. w)"
  by (auto simp: epoll_documented_def plain_os_def split: if_splits)

theorem event_registry_refines_witness:
  "\<exists>(el :: (unit, unit, unit, unit) eventloop_t) w1 rs el' w'.
     el_loop_create plain_os 8 (\<lambda>_. None) = (Some el, w1) \<and>
     run_ops plain_os [Add_Event 5 1 () (), Add_Event 7 2 () (), Add_Event 9 1 () (), Del_Event 7 2] el w1 = Inr (rs, el', w') \<and>
     (\<forall>fd. watched el' fd \<noteq> 0 \<longrightarrow> fd \<le> maxfd el')"
proof -
  obtain el :: "(unit, unit, unit, unit) eventloop_t" and w1
    where el: "el_loop_create plain_os 8 (\<lambda>_. None) = (Some el, w1)"
    by (simp add: el_loop_create_def el_context_create_def plain_os_def)
  have "list_all op_ok [Add_Event 5 1 () (), Add_Event 7 2 () (), Add_Event 9 1 () (), Del_Event 7 2]"
    by (simp add: RR_EV_READ_def RR_EV_WRITE_def)
  with event_registry_refines [OF plain_os_documented el] el show ?thesis by blast
qed


section \<open>Polling\<close>

text \<open>
  What the callbacks of events must keep: the invariant, and the array of fired events the loop is
  going through. \<^verbatim>\<open>epoll_wait\<close> reports at most as many events as it is asked for, on descriptors of the interest list.
\<close>

definition keeps_loop :: "('cb, 'tcb, 'bp, 'u, 'w) handlers \<Rightarrow> bool" where
  "keeps_loop hs \<longleftrightarrow> (\<forall>cb el fd u m w. loop_ok el \<longrightarrow>
     (\<exists>el' w'. ev_call hs cb el fd u m w = Inr (el', w') \<and> loop_ok el' \<and> lsize el' = lsize el \<and> fired el' = fired el))"

definition wait_documented :: "'w os \<Rightarrow> ('w \<Rightarrow> int \<Rightarrow> u32 option) \<Rightarrow> bool" where
  "wait_documented os interest \<longleftrightarrow>
     (\<forall>k t w es w'. epoll_wait os k t w = (Some es, w') \<longrightarrow>
        int (length es) \<le> k \<and> (\<forall>e\<in>set es. interest w (snd e) \<noteq> None))"

definition in_table :: "('cb, 'tcb, 'bp, 'u) eventloop_t \<Rightarrow> int \<Rightarrow> bool" where
  "in_table el fd \<longleftrightarrow> 0 \<le> fd \<and> fd < lsize el"

lemma in_table_at:
  assumes "loop_ok el" and "in_table el fd"
  obtains e where "event_at el fd = Inr e" and "event_ok e"
proof -
  have i: "0 \<le> fd" "nat fd < length (events el)" using assms by (auto simp: loop_ok_def in_table_def)
  with assms(1) nth_mem [OF i(2)] show thesis
    by (intro that [of "events el ! nat fd"]) (auto simp: event_at_def loop_ok_def)
qed

lemma and_both:
  assumes "(a :: u32) AND b AND c \<noteq> 0"
  shows "a AND c \<noteq> 0"
proof
  assume "a AND c = 0"
  moreover have "a AND b AND c = (a AND c) AND b" by (simp add: ac_simps)
  ultimately show False using assms by simp
qed

lemma call_event_ok:
  assumes "keeps_loop hs" and "loop_ok el" and "cb \<noteq> None" and "u \<noteq> None"
  obtains el' w' where "call_event hs cb u el fd m w = Inr (el', w')" and "loop_ok el'"
    and "lsize el' = lsize el" and "fired el' = fired el"
  using assms unfolding keeps_loop_def call_event_def by fastforce

lemma fire_event_ok:
  assumes hs: "keeps_loop hs" and ok: "loop_ok el" and fd: "in_table el (ffd (fired el ! j))"
  obtains el' w' where "fire_event hs el j w = Inr (el', w')" and "loop_ok el'"
    and "lsize el' = lsize el" and "fired el' = fired el"
proof -
  let ?fd = "ffd (fired el ! j)" and ?m = "fmask (fired el ! j)"
  obtain e where e: "event_at el ?fd = Inr e" "event_ok e" by (rule in_table_at [OF ok fd])
  obtain b el1 w1 where 1: "(if emask e AND ?m AND RR_EV_READ \<noteq> 0
      then rbind (call_event hs (read_cb e) (eud e) el ?fd ?m w) (\<lambda>(el, w). Inr (True, el, w))
      else Inr (False, el, w)) = Inr (b, el1, w1)"
    "loop_ok el1" "lsize el1 = lsize el" "fired el1 = fired el"
  proof (cases "emask e AND ?m AND RR_EV_READ \<noteq> 0")
    case True
    then have "emask e AND RR_EV_READ \<noteq> 0" "emask e \<noteq> 0" using and_both by auto
    then have set: "read_cb e \<noteq> None" "eud e \<noteq> None" using e(2) by (auto simp: event_ok_def)
    obtain el1 w1 where "call_event hs (read_cb e) (eud e) el ?fd ?m w = Inr (el1, w1)" "loop_ok el1"
      "lsize el1 = lsize el" "fired el1 = fired el"
      by (rule call_event_ok [OF hs ok set])
    with True show thesis by (intro that [of True el1 w1]) simp_all
  qed (use ok in \<open>auto intro: that\<close>)
  have fd1: "in_table el1 ?fd" using fd 1 by (simp add: in_table_def)
  obtain e1 where e1: "event_at el1 ?fd = Inr e1" "event_ok e1" by (rule in_table_at [OF 1(2) fd1])
  have run: "fire_event hs el j w =
    (if emask e1 AND ?m AND RR_EV_WRITE \<noteq> 0 \<and> (\<not> b \<or> write_cb e1 \<noteq> read_cb e1)
     then call_event hs (write_cb e1) (eud e1) el1 ?fd ?m w1 else Inr (el1, w1))"
    unfolding fire_event_def Let_def by (simp only: e(1) rbind_simps 1(1) prod.case e1(1)) simp
  show thesis
  proof (cases "emask e1 AND ?m AND RR_EV_WRITE \<noteq> 0 \<and> (\<not> b \<or> write_cb e1 \<noteq> read_cb e1)")
    case True
    then have "emask e1 AND RR_EV_WRITE \<noteq> 0" "emask e1 \<noteq> 0" using and_both by auto
    then have set: "write_cb e1 \<noteq> None" "eud e1 \<noteq> None" using e1(2) by (auto simp: event_ok_def)
    obtain el2 w2 where "call_event hs (write_cb e1) (eud e1) el1 ?fd ?m w1 = Inr (el2, w2)" "loop_ok el2"
      "lsize el2 = lsize el1" "fired el2 = fired el1"
      by (rule call_event_ok [OF hs 1(2) set])
    with True run 1 show thesis by (intro that [of el2 w2]) simp_all
  qed (use run 1 in \<open>auto intro: that\<close>)
qed

lemma fire_all_ok:
  assumes hs: "keeps_loop hs"
  shows "loop_ok el \<Longrightarrow> (\<forall>i<n. in_table el (ffd (fired el ! (j + i)))) \<Longrightarrow>
    \<exists>el' w'. fire_all hs n j el w = Inr (el', w') \<and> loop_ok el' \<and> lsize el' = lsize el"
proof (induction n arbitrary: j el w)
  case (Suc n)
  have fd: "in_table el (ffd (fired el ! j))" using Suc.prems(2) by (metis add.right_neutral zero_less_Suc)
  obtain el1 w1 where 1: "fire_event hs el j w = Inr (el1, w1)" "loop_ok el1" "lsize el1 = lsize el" "fired el1 = fired el"
    by (rule fire_event_ok [OF hs Suc.prems(1) fd])
  have "\<forall>i<n. in_table el1 (ffd (fired el1 ! (j + 1 + i)))"
    using Suc.prems(2) 1(3,4) by (auto simp: in_table_def)
  then obtain el' w' where "fire_all hs n (j + 1) el1 w1 = Inr (el', w')" "loop_ok el'" "lsize el' = lsize el1"
    using Suc.IH [OF 1(2)] by blast
  with 1 show ?case by auto
qed simp

text \<open>
  C9 (safety). One round of polling never leaves the tables of the loop and never calls a callback,
  or passes user data, that was not set: \<^verbatim>\<open>el_loop_poll\<close> ends without a fault, with the
  invariant, whatever the callbacks register and remove on the way, as long as each
  of them keeps the invariant and the array of fired events, the interest list is the one of the loop and
  \<^verbatim>\<open>epoll_wait\<close> reports descriptors of that list.
\<close>

theorem poll_never_faults:
  fixes el :: "('cb, 'tcb, 'bp, 'u) eventloop_t"
  assumes "keeps_loop hs" and "wait_documented os interest" and "loop_ok el" and "mirrors interest el w"
  shows "\<exists>n el' w'. el_loop_poll os hs el tvp w = Inr (n, el', w') \<and> loop_ok el' \<and> lsize el' = lsize el \<and> int n \<le> lsize el"
proof -
  obtain r w1 where wait: "epoll_wait os (lsize el)
      (case tvp of None \<Rightarrow> - 1 | Some (s, us) \<Rightarrow> signed_take_bit 31 (s * 1000 + us sdiv 1000)) w = (r, w1)"
    by fastforce
  show ?thesis
  proof (cases r)
    case None
    with wait assms(3) show ?thesis
      by (auto simp: el_loop_poll_def el_context_poll_def Let_def loop_ok_def)
  next
    case (Some es)
    have es: "int (length es) \<le> lsize el" "\<forall>e\<in>set es. interest w (snd e) \<noteq> None"
      using assms(2) wait Some unfolding wait_documented_def by blast+
    let ?el = "el\<lparr>fired := map fired_of es @ drop (length es) (fired el)\<rparr>"
    have len: "length es \<le> length (fired el)" using es(1) assms(3) by (simp add: loop_ok_def)
    have ctx: "el_context_poll os el tvp w = Inr (length es, ?el, w1)"
      using wait Some len by (simp add: el_context_poll_def Let_def)
    have ok: "loop_ok ?el" using assms(3) len by (auto simp: loop_ok_def)
    have "in_table ?el (ffd (fired ?el ! (0 + i)))" if "i < length es" for i
    proof -
      have "watched el (snd (es ! i)) \<noteq> 0"
        using bspec [OF es(2) nth_mem [OF that]] assms(4) by (auto simp: mirrors_def)
      then show ?thesis
        using that assms(3) by (auto simp: in_table_def nth_append fired_of_def watched_def loop_ok_def split: if_splits)
    qed
    then obtain el' w' where "fire_all hs (length es) 0 ?el w1 = Inr (el', w')" "loop_ok el'" "lsize el' = lsize ?el"
      using fire_all_ok [OF assms(1) ok] by blast
    with ctx es(1) show ?thesis by (auto simp: el_loop_poll_def)
  qed
qed

text \<open>A kernel that reports data on descriptor 5, and callbacks that do nothing.\<close>

definition busy_os :: "(int \<Rightarrow> u32 option) os" where
  "busy_os = plain_os\<lparr>epoll_wait := (\<lambda>k t w. (if k \<le> 0 then None else if w 5 \<noteq> None then Some [(1, 5)] else Some [], w))\<rparr>"

definition idle_handlers :: "(unit, unit, unit, unit, int \<Rightarrow> u32 option) handlers" where
  "idle_handlers = \<lparr>ev_call = (\<lambda>cb el fd u m w. Inr (el, w)), timer_call = (\<lambda>cb el u w. Inr (0, el, w)),
     polling_call = (\<lambda>f el w. Inr (el, w))\<rparr>"

theorem poll_never_faults_witness:
  "\<exists>(el :: (unit, unit, unit, unit) eventloop_t) w el1 w1 n el' w'.
     el_loop_create busy_os 8 (\<lambda>_. None) = (Some el, w) \<and>
     el_event_add busy_os el 5 RR_EV_READ () () w = Inr (RR_EV_OK, el1, w1) \<and>
     el_loop_poll busy_os idle_handlers el1 None w1 = Inr (n, el', w') \<and> int n \<le> lsize el1"
proof -
  obtain el :: "(unit, unit, unit, unit) eventloop_t" and w
    where el: "el_loop_create busy_os 8 (\<lambda>_. None) = (Some el, w)" "w = (\<lambda>_. None)"
    by (simp add: el_loop_create_def el_context_create_def plain_os_def busy_os_def)
  have hs: "keeps_loop idle_handlers" by (auto simp: keeps_loop_def idle_handlers_def)
  have doc: "epoll_documented busy_os (\<lambda>w. w)"
    by (auto simp: epoll_documented_def plain_os_def busy_os_def split: if_splits)
  have os: "wait_documented busy_os (\<lambda>w. w)"
    by (auto simp: wait_documented_def busy_os_def split: if_splits)
  have mir: "mirrors (\<lambda>w. w) el w"
    using el_loop_create_ok(2) [OF el(1)] el(2) by (simp add: mirrors_def)
  obtain r el1 w1 where add: "el_event_add busy_os el 5 RR_EV_READ () () w = Inr (r, el1, w1)" "loop_ok el1"
    "mirrors (\<lambda>w. w) el1 w1"
    by (rule add_keeps [OF doc el_loop_create_ok(1) [OF el(1)] mir, of 5 RR_EV_READ]) (simp_all add: RR_EV_READ_def RR_EV_WRITE_def)
  have "r = RR_EV_OK"
    using add(1) el el_loop_create_ok(1,3) [OF el(1)]
    by (auto simp: el_event_add_def el_context_add_def event_at_def loop_ok_def busy_os_def plain_os_def Let_def
        RR_EV_OK_def RR_EV_ERR_def RR_EV_NONE_def el_loop_create_def el_context_create_def no_event_def split: if_splits)
  with poll_never_faults [OF hs os add(2,3)] add(1) el(1) show ?thesis by blast
qed

section \<open>Sleeping\<close>

text \<open>
  C10 (bounds). The time the loop sleeps. When the next timer lies in the future, \<^verbatim>\<open>el_poll_get_timeout\<close> is exactly
  the distance to it. When it is overdue the seconds become 0 but the
  milliseconds stay: the loop may sleep up to 999 milliseconds although a
  timer is due.
\<close>

theorem poll_timeout_exact:
  fixes el :: "('cb, 'tcb, 'bp, 'u) eventloop_t"
  assumes "heap_wf timer_cmp (timers el)" and "heap_bag (timers el) \<noteq> {#}"
    and "\<forall>t\<in>#heap_bag (timers el). timer_ok t" and "gettimeofday os w = (tv, w')" and "tv_ok tv"
  shows "\<exists>t s us. t \<in># heap_bag (timers el) \<and> (\<forall>y\<in>#heap_bag (timers el). expiry t \<le> expiry y) \<and>
    el_poll_get_timeout os el w = Inr (Some (s, us), w') \<and>
    (now_of tv \<le> expiry t \<longrightarrow> s * 1000 + us div 1000 = expiry t - now_of tv \<and> us mod 1000 = 0 \<and> us < 1000000) \<and>
    (expiry t < now_of tv \<longrightarrow> s = 0 \<and> us = (expiry t - now_of tv) mod 1000 * 1000)"
proof -
  have ne: "minheap_len (timers el) \<noteq> 0"
    using heap_bag_size [OF assms(1)] assms(2) by (metis size_eq_0_iff_empty)
  obtain p t where t: "minheap_min (timers el) = Some p" "array_read (array (timers el)) (Some p) = Inr t"
    "t \<in># heap_bag (timers el)" "\<forall>y\<in>#heap_bag (timers el). timer_cmp t y \<le> 0"
    using tq.min_spec [OF assms(1) ne] by blast
  have tok: "0 \<le> ms t" "ms t < 1000" using assms(3) t(3) by (auto simp: timer_ok_def)
  define d where "d = sec t - fst tv"
  define m where "m = ms t - snd tv div 1000"
  have m: "- 1000 < m" "m < 1000" using tok now_ok(2,3) [OF assms(5)] by (auto simp: m_def)
  have dist: "expiry t - now_of tv = 1000 * d + m"
    by (simp add: expiry_def now_of_def d_def m_def)
  let ?s = "if m < 0 then d - 1 else d" and ?us = "if m < 0 then (m + 1000) * 1000 else m * 1000"
  have run: "el_poll_get_timeout os el w = Inr (Some (if ?s < 0 then 0 else ?s, ?us), w')"
    using ne t(1,2) assms(4) m by (simp add: el_poll_get_timeout_def Let_def now_ok(1) [OF assms(5)] d_def m_def)
  have mod: "(1000 * d + m) mod 1000 * 1000 = ?us"
  proof (cases "m < 0")
    case True
    then have "m mod 1000 = m + 1000" using m mod_pos_pos_trivial [of "m + 1000" 1000] by simp
    with True show ?thesis by simp
  qed (use m in simp)
  have near: "\<forall>y\<in>#heap_bag (timers el). expiry t \<le> expiry y"
    using t assms(3) timer_cmp_expiry by blast
  have "(if ?s < 0 then 0 else ?s) * 1000 + ?us div 1000 = expiry t - now_of tv \<and> ?us mod 1000 = 0 \<and> ?us < 1000000"
    if "now_of tv \<le> expiry t"
    using that dist m by auto
  moreover have "(if ?s < 0 then 0 else ?s) = 0 \<and> ?us = (expiry t - now_of tv) mod 1000 * 1000"
    if "expiry t < now_of tv"
    using that dist m mod by auto
  ultimately show ?thesis using t(3) near run by (intro exI [of _ t] exI conjI impI) blast+
qed

text \<open>A timer two seconds overdue, by 1 millisecond less in the milliseconds.\<close>

definition one_timer :: "(unit, unit, unit, unit) eventloop_t" where
  "one_timer = \<lparr>maxfd = - 1, lsize = 0, events = [], fired = [],
     timers = \<lparr>hlen = 1, array = \<lparr>nelm = 1, nrest = 0, asize = 32, elm = [Some \<lparr>sec = 10, ms = 999, tud = (), timer_cb = ()\<rparr>]\<rparr>,
       comp = timer_cmp, cpy = (\<lambda>x. x), swp = prod.swap, hfree_cb = None\<rparr>,
     stop = False, before_polling = None\<rparr>"

lemma one_timer_wf: "heap_wf timer_cmp (timers one_timer)"
  "heap_bag (timers one_timer) = {#\<lparr>sec = 10, ms = 999, tud = (), timer_cb = ()\<rparr>#}"
  by (simp_all add: heap_wf_def one_timer_def array_full_def array_wf_def heap_upto_def heap_bag_def array_list_def)

theorem poll_timeout_exact_witness:
  "el_poll_get_timeout (plain_os\<lparr>gettimeofday := (\<lambda>w. ((12, 0), w))\<rparr>) one_timer (\<lambda>_. None) = Inr (Some (0, 999000), \<lambda>_. None)"
  using poll_timeout_exact [of one_timer "plain_os\<lparr>gettimeofday := (\<lambda>w. ((12, 0), w))\<rparr>" "\<lambda>_. None" "(12, 0)" "\<lambda>_. None"]
  by (auto simp: one_timer_wf timer_ok_def tv_ok_def expiry_def now_of_def)


section \<open>Timers\<close>

definition due :: "int \<times> int \<Rightarrow> ('tcb, 'u) ev_timer_t \<Rightarrow> bool" where
  "due tv t \<longleftrightarrow> expiry t \<le> now_of tv"

lemma filter_none:
  assumes "\<forall>t\<in>#B. \<not> P t"
  shows "filter_mset P B = {#}" and "{#t \<in># B. \<not> P t#} = B"
proof -
  show "filter_mset P B = {#}" using assms by (auto intro: multiset_eqI simp: count_eq_zero_iff)
  then show "{#t \<in># B. \<not> P t#} = B" using multiset_partition [of B P] by (metis add_0)
qed

text \<open>The timer armed again, \<open>d\<close> milliseconds from now.\<close>

definition rearmed :: "int \<times> int \<Rightarrow> int \<Rightarrow> ('tcb, 'u) ev_timer_t \<Rightarrow> ('tcb, 'u) ev_timer_t" where
  "rearmed tv d t = (case rr_dt_expire_at tv d of (s, m) \<Rightarrow> t\<lparr>sec := s, ms := m\<rparr>)"

lemma rearmed_later:
  assumes "tv_ok tv" and "0 < d"
  shows "timer_ok (rearmed tv d t)" and "\<not> due tv (rearmed tv d t)"
proof -
  obtain s m where sm: "rr_dt_expire_at tv d = (s, m)" by fastforce
  show "timer_ok (rearmed tv d t)" "\<not> due tv (rearmed tv d t)"
    using expire_at [OF assms(1) _ sm] assms(2) by (auto simp: rearmed_def sm timer_ok_def due_def expiry_def)
qed

text \<open>The pointer \<^verbatim>\<open>minheap_pop\<close> gives is that of the slot past the elements; writing there leaves the queue alone.\<close>

lemma pop_pointer:
  assumes "minheap_pop heap = Inr (Some p, heap')"
  shows "p = hlen heap'"
  using assms by (auto simp: minheap_pop_def array_at_def split: if_splits)

lemma spare_write:
  assumes wf: "heap_wf cmp heap" and read: "array_read (array heap) (Some (hlen heap)) = Inr v"
  obtains a where "array_write (array heap) (Some (hlen heap)) x = Inr a" and "heap_wf cmp (heap\<lparr>array := a\<rparr>)"
    and "heap_bag (heap\<lparr>array := a\<rparr>) = heap_bag heap" and "length (elm a) = length (elm (array heap))"
proof -
  let ?p = "hlen heap" and ?a = "array heap"
  have p: "?p < length (elm ?a)" using read by (auto simp: array_read_def split: if_splits)
  let ?b = "?a\<lparr>elm := (elm ?a)[?p := Some x]\<rparr>"
  have wf': "array_wf ?a" "list_all (\<lambda>x. x \<noteq> None) (take (nelm ?a) (elm ?a))" "?p \<le> nelm ?a" "nelm ?a < 2 ^ 31"
    using wf by (auto simp: heap_wf_def array_full_def)
  have take: "take ?p (array_list ?b) = take ?p (array_list ?a)"
    using wf'(3) by (simp add: array_list_def take_map min_def)
  have "list_all (\<lambda>x. x \<noteq> None) (take (nelm ?a) ((elm ?a)[?p := Some x]))"
    using wf'(2) by (simp add: list_all_length) (metis nth_list_update_eq nth_list_update_neq option.distinct(1))
  then have "array_full ?b"
    using wf'(1) by (simp add: array_full_def array_wf_def)
  moreover have "heap_upto cmp ?p (array_list ?b) = heap_upto cmp ?p (array_list ?a)"
    by (rule heap_upto_cong) (metis take nth_take)
  ultimately have "heap_wf cmp (heap\<lparr>array := ?b\<rparr>)"
    using wf by (simp add: heap_wf_def)
  moreover have "heap_bag (heap\<lparr>array := ?b\<rparr>) = heap_bag heap"
    by (simp add: heap_bag_def take)
  ultimately show thesis
    using p by (intro that [of ?b]) (simp_all add: array_write_def)
qed

lemma rearm_ok:
  fixes el :: "('cb, 'tcb, 'bp, 'u) eventloop_t"
  assumes wf: "heap_wf timer_cmp (timers el)" and room: "minheap_len (timers el) + 1 < 2 ^ 31"
    and read: "array_read (array (timers el)) (Some (hlen (timers el))) = Inr t"
    and clock: "gettimeofday os w = (tv, w)"
  obtains h where "rearm_timer os (timers el) (Some (hlen (timers el))) d el w = Inr (el\<lparr>timers := h\<rparr>, w)"
    and "heap_wf timer_cmp h" and "heap_bag h = add_mset (rearmed tv d t) (heap_bag (timers el))"
proof -
  let ?t = "rearmed tv d t"
  obtain a where a: "array_write (array (timers el)) (Some (hlen (timers el))) ?t = Inr a"
    "heap_wf timer_cmp ((timers el)\<lparr>array := a\<rparr>)" "heap_bag ((timers el)\<lparr>array := a\<rparr>) = heap_bag (timers el)"
    by (rule spare_write [OF wf read])
  obtain h where h: "minheap_push ((timers el)\<lparr>array := a\<rparr>) ?t = Inr (0, h)" "heap_wf timer_cmp h"
    "heap_bag h = add_mset ?t (heap_bag (timers el))"
    using tq.push_spec [OF a(2)] room a(3) by (auto simp: minheap_len_def)
  obtain s m where sm: "rr_dt_expire_at tv d = (s, m)" by fastforce
  have "?t = t\<lparr>sec := s, ms := m\<rparr>" by (simp add: rearmed_def sm)
  then have "rearm_timer os (timers el) (Some (hlen (timers el))) d el w = Inr (el\<lparr>timers := h\<rparr>, w)"
    using clock read a(1) h(1) by (simp add: rearm_timer_def Let_def sm)
  with h(2,3) show thesis by (intro that)
qed

text \<open>
  Callbacks of timers that leave the loop alone: each gives the milliseconds \<open>ret\<close> until it is due again, or
  none, and has the effect \<open>act\<close> on the world.
\<close>

definition plain_timers :: "('cb, 'tcb, 'bp, 'u, 'w) handlers \<Rightarrow> ('tcb \<Rightarrow> 'u \<Rightarrow> int) \<Rightarrow> ('tcb \<Rightarrow> 'u \<Rightarrow> 'w \<Rightarrow> 'w) \<Rightarrow> bool" where
  "plain_timers hs ret act \<longleftrightarrow> (\<forall>cb el u w. timer_call hs cb el u w = Inr (ret cb u, el, act cb u w))"

text \<open>The queue after the timers \<open>ts\<close> have fired.\<close>

definition armed_again :: "int \<times> int \<Rightarrow> ('tcb \<Rightarrow> 'u \<Rightarrow> int) \<Rightarrow> ('tcb, 'u) ev_timer_t multiset \<Rightarrow> ('tcb, 'u) ev_timer_t multiset" where
  "armed_again tv ret B = {#rearmed tv (ret (timer_cb t) (tud t)) t. t \<in># {#t \<in># B. ret (timer_cb t) (tud t) > 0#}#}"

lemma timer_loop_step:
  fixes el :: "('cb, 'tcb, 'bp, 'u) eventloop_t"
  assumes hs: "plain_timers hs ret act" and clock: "\<forall>w. gettimeofday os w = (tv, w)" and tv: "tv_ok tv"
    and wf: "heap_wf timer_cmp (timers el)" and ok: "\<forall>t\<in>#heap_bag (timers el). timer_ok t"
    and ne: "heap_bag (timers el) \<noteq> {#}" and room: "size (heap_bag (timers el)) + 1 < 2 ^ 31"
  shows "(\<forall>t\<in>#heap_bag (timers el). \<not> due tv t) \<and> timer_loop os hs (Suc n) k el w = Inr (k, el, w) \<or>
    (\<exists>t B h. heap_bag (timers el) = add_mset t B \<and> due tv t \<and> (\<forall>y\<in>#heap_bag (timers el). expiry t \<le> expiry y) \<and>
      heap_wf timer_cmp h \<and> heap_bag h = armed_again tv ret {#t#} + B \<and>
      timer_loop os hs (Suc n) k el w =
        timer_loop os hs n (k + 1) (el\<lparr>timers := h\<rparr>) (act (timer_cb t) (tud t) w))"
proof -
  have len: "minheap_len (timers el) \<noteq> 0"
    using heap_bag_size [OF wf] ne by (metis size_eq_0_iff_empty)
  obtain p0 t0 where t0: "minheap_min (timers el) = Some p0" "array_read (array (timers el)) (Some p0) = Inr t0"
    "t0 \<in># heap_bag (timers el)" "\<forall>y\<in>#heap_bag (timers el). timer_cmp t0 y \<le> 0"
    using tq.min_spec [OF wf len] by blast
  obtain p t h where pop: "minheap_pop (timers el) = Inr (Some p, h)" "array_read (array h) (Some p) = Inr t"
    "heap_wf timer_cmp h" "heap_bag (timers el) = add_mset t (heap_bag h)" "\<forall>y\<in>#heap_bag (timers el). timer_cmp t y \<le> 0"
    using tq.pop_spec [OF wf len] by blast
  have least: "expiry t0 \<le> expiry y" "expiry t \<le> expiry y" if "y \<in># heap_bag (timers el)" for y
    using that t0 pop(4,5) ok by (auto simp flip: timer_cmp_expiry)
  have same: "expiry t0 = expiry t"
    using least(1) [of t] least(2) [of t0] t0(3) pop(4) by simp
  have past: "rr_dt_is_past tv (sec t0) (ms t0) \<longleftrightarrow> due tv t"
    using is_past [OF tv, of t0] ok t0(3) by (auto simp: due_def same)
  show ?thesis
  proof (cases "due tv t")
    case False
    then have "timer_loop os hs (Suc n) k el w = Inr (k, el, w)"
      using t0 clock past by simp
    moreover have "\<not> due tv y" if "y \<in># heap_bag (timers el)" for y
      using False least(2) [OF that] by (simp add: due_def)
    ultimately show ?thesis by blast
  next
    case True
    let ?d = "ret (timer_cb t) (tud t)" and ?w = "act (timer_cb t) (tud t) w"
    have p: "p = hlen h" by (rule pop_pointer [OF pop(1)])
    have room': "minheap_len h + 1 < 2 ^ 31"
      using room pop(4) heap_bag_size [OF pop(3)] by simp
    obtain h' where h': "(if ?d > 0 then rearm_timer os h (Some p) ?d (el\<lparr>timers := h\<rparr>) ?w
        else Inr (el\<lparr>timers := h\<rparr>, ?w)) = Inr (el\<lparr>timers := h'\<rparr>, ?w)"
      "heap_wf timer_cmp h'" "heap_bag h' = armed_again tv ret {#t#} + heap_bag h"
    proof (cases "?d > 0")
      case True
      obtain h' where "rearm_timer os h (Some p) ?d (el\<lparr>timers := h\<rparr>) ?w = Inr (el\<lparr>timers := h'\<rparr>, ?w)"
        "heap_wf timer_cmp h'" "heap_bag h' = add_mset (rearmed tv ?d t) (heap_bag h)"
        using rearm_ok [of "el\<lparr>timers := h\<rparr>" t os ?w tv ?d] pop(2,3) room' clock p by auto
      with True show thesis by (intro that [of h']) (simp_all add: armed_again_def)
    qed (use pop in \<open>auto simp: armed_again_def intro: that\<close>)
    have "timer_loop os hs (Suc n) k el w = timer_loop os hs n (k + 1) (el\<lparr>timers := h'\<rparr>) ?w"
      using t0(1,2) clock past True pop(1,2) hs h'(1) by (simp add: plain_timers_def)
    with True pop(4) least(2) h' show ?thesis by blast
  qed
qed

lemma armed_again_add: "armed_again tv ret (add_mset t B) = armed_again tv ret {#t#} + armed_again tv ret B"
  by (simp add: armed_again_def)

lemma armed_again_later:
  "tv_ok tv \<Longrightarrow> \<forall>t\<in>#armed_again tv ret B. timer_ok t \<and> \<not> due tv t"
  by (auto simp: armed_again_def rearmed_later)

lemma timer_loop_fires:
  fixes el :: "('cb, 'tcb, 'bp, 'u) eventloop_t"
  assumes hs: "plain_timers hs ret act" and clock: "\<forall>w. gettimeofday os w = (tv, w)" and tv: "tv_ok tv"
  shows "heap_wf timer_cmp (timers el) \<Longrightarrow> \<forall>t\<in>#heap_bag (timers el). timer_ok t \<Longrightarrow>
    n \<le> size (heap_bag (timers el)) \<Longrightarrow> size {#t \<in># heap_bag (timers el). due tv t#} \<le> n \<Longrightarrow>
    size (heap_bag (timers el)) + 1 < 2 ^ 31 \<Longrightarrow>
    \<exists>ts h. timer_loop os hs n k el w =
        Inr (k + length ts, el\<lparr>timers := h\<rparr>, fold (\<lambda>t. act (timer_cb t) (tud t)) ts w) \<and>
      mset ts = {#t \<in># heap_bag (timers el). due tv t#} \<and> sorted (map expiry ts) \<and> heap_wf timer_cmp h \<and>
      heap_bag h = {#t \<in># heap_bag (timers el). \<not> due tv t#} + armed_again tv ret (mset ts)"
proof (induction n arbitrary: k el w)
  case 0
  then have "\<forall>t\<in>#heap_bag (timers el). \<not> due tv t" using mem_Collect_eq set_mset_filter by fastforce
  with 0 filter_none [of "heap_bag (timers el)" "due tv"] show ?case
    by (intro exI [of _ "[]"] exI [of _ "timers el"]) (simp add: armed_again_def)
next
  case (Suc n)
  have ne: "heap_bag (timers el) \<noteq> {#}" using Suc.prems(3) by auto
  from timer_loop_step [OF hs clock tv Suc.prems(1,2) ne Suc.prems(5), of n k w] show ?case
  proof (elim disjE conjE exE)
    assume none: "\<forall>t\<in>#heap_bag (timers el). \<not> due tv t" and run: "timer_loop os hs (Suc n) k el w = Inr (k, el, w)"
    with filter_none [of "heap_bag (timers el)" "due tv"] Suc.prems(1) show ?thesis
      by (intro exI [of _ "[]"] exI [of _ "timers el"]) (simp add: armed_again_def)
  next
    fix t B h
    assume t: "heap_bag (timers el) = add_mset t B" "due tv t" "\<forall>y\<in>#heap_bag (timers el). expiry t \<le> expiry y"
      and h: "heap_wf timer_cmp h" "heap_bag h = armed_again tv ret {#t#} + B"
      and run: "timer_loop os hs (Suc n) k el w =
        timer_loop os hs n (k + 1) (el\<lparr>timers := h\<rparr>) (act (timer_cb t) (tud t) w)"
    let ?w = "act (timer_cb t) (tud t) w"
    note later = armed_again_later [OF tv, of ret "{#t#}"]
    have new: "{#t \<in># armed_again tv ret {#t#}. due tv t#} = {#}"
      "{#t \<in># armed_again tv ret {#t#}. \<not> due tv t#} = armed_again tv ret {#t#}"
      using later by (intro filter_none; blast)+
    have dueB: "{#t \<in># heap_bag h. due tv t#} = {#t \<in># B. due tv t#}"
      "{#t \<in># heap_bag h. \<not> due tv t#} = armed_again tv ret {#t#} + {#t \<in># B. \<not> due tv t#}"
      using h(2) new by simp_all
    have "size (armed_again tv ret {#t#}) \<le> 1" by (simp add: armed_again_def)
    then have sizes: "n \<le> size (heap_bag h)" "size (heap_bag h) + 1 < 2 ^ 31"
      using Suc.prems(3,5) t(1) h(2) by auto
    have dueh: "size {#t \<in># heap_bag h. due tv t#} \<le> n"
      using Suc.prems(4) t(1,2) unfolding dueB(1) by simp
    have okh: "\<forall>t\<in>#heap_bag h. timer_ok t"
      using Suc.prems(2) t(1) h(2) later by auto
    obtain ts h' where ts: "timer_loop os hs n (k + 1) (el\<lparr>timers := h\<rparr>) ?w =
        Inr (k + 1 + length ts, el\<lparr>timers := h'\<rparr>, fold (\<lambda>t. act (timer_cb t) (tud t)) ts ?w)"
      "mset ts = {#t \<in># B. due tv t#}" "sorted (map expiry ts)" "heap_wf timer_cmp h'"
      "heap_bag h' = armed_again tv ret {#t#} + {#t \<in># B. \<not> due tv t#} + armed_again tv ret (mset ts)"
      using Suc.IH [of "el\<lparr>timers := h\<rparr>" "k + 1" ?w, simplified, OF h(1) okh sizes(1) dueh] sizes(2) dueB by auto
    have "set ts \<subseteq> set_mset B" using ts(2) by (metis set_mset_mono set_mset_mset multiset_filter_subset)
    then have "sorted (map expiry (t # ts))"
      using ts(3) t(1,3) by auto
    with run ts t show ?thesis
      by (intro exI [of _ "t # ts"] exI [of _ h']) (simp add: armed_again_add [of tv ret t "filter_mset _ _"])
  qed
qed



end
