(* ===== verification/Adlist.thy ===== *)
theory Adlist
  imports Prelude
begin

text \<open>
  The doubly linked list of \<^verbatim>\<open>adlist.c\<close>, on an explicit memory of nodes.

  A pointer to a node is an address, \<open>None\<close> for \<^verbatim>\<open>NULL\<close>; following a pointer to a node that was freed
  is a fault. The callback \<^verbatim>\<open>free\<close> has effects outside the list, so the operations that
  run it give the calls they make; \<^verbatim>\<open>dup\<close> and \<^verbatim>\<open>match\<close> are functions on values, \<^verbatim>\<open>dup\<close> may
  return \<^verbatim>\<open>NULL\<close>.

  The specification is the list of the values. \<open>held\<close> says which chains of nodes
  stand for it; every operation, on such a chain, is the operation on lists of its name, and no
  node is leaked or used after it was freed.
\<close>

section \<open>The model\<close>

record 'v listNode =
  lprev :: "nat option"
  lnext :: "nat option"
  lvalue :: 'v

datatype al_direction = AL_START_HEAD | AL_START_TAIL

record listIter =
  inext :: "nat option"
  idirection :: al_direction

record ('v, 'f) adlist =
  lhead :: "nat option"
  ltail :: "nat option"
  ldup :: "('v \<Rightarrow> 'v option) option"
  lfree :: "'f option"
  lmatch :: "('v \<Rightarrow> 'v \<Rightarrow> bool) option"
  llen :: nat

text \<open>The memory: the nodes that are allocated, and the address of the next one.\<close>

record 'v node_mem =
  nodes :: "nat \<rightharpoonup> 'v listNode"
  brk :: nat

definition node_at :: "'v node_mem \<Rightarrow> nat option \<Rightarrow> 'v listNode result" where
  "node_at h p =
     (case p of
        None \<Rightarrow> Inl NullDeref
      | Some a \<Rightarrow> (case nodes h a of None \<Rightarrow> Inl UseAfterFree | Some n \<Rightarrow> Inr n))"

text \<open>\<^verbatim>\<open>p->next = x\<close> and \<^verbatim>\<open>p->prev = x\<close>\<close>

definition set_next :: "nat option \<Rightarrow> nat option \<Rightarrow> 'v node_mem \<Rightarrow> 'v node_mem result" where
  "set_next p x h = rbind (node_at h p) (\<lambda>n. Inr (h\<lparr>nodes := (nodes h)(the p \<mapsto> n\<lparr>lnext := x\<rparr>)\<rparr>))"

definition set_prev :: "nat option \<Rightarrow> nat option \<Rightarrow> 'v node_mem \<Rightarrow> 'v node_mem result" where
  "set_prev p x h = rbind (node_at h p) (\<lambda>n. Inr (h\<lparr>nodes := (nodes h)(the p \<mapsto> n\<lparr>lprev := x\<rparr>)\<rparr>))"

definition alloc_node :: "'v listNode \<Rightarrow> 'v node_mem \<Rightarrow> nat \<times> 'v node_mem" where
  "alloc_node n h = (brk h, h\<lparr>nodes := (nodes h)(brk h \<mapsto> n), brk := brk h + 1\<rparr>)"

definition free_node :: "nat option \<Rightarrow> 'v node_mem \<Rightarrow> 'v node_mem result" where
  "free_node p h = rbind (node_at h p) (\<lambda>n. Inr (h\<lparr>nodes := (nodes h)(the p := None)\<rparr>))"

definition free_call :: "('v, 'f) adlist \<Rightarrow> 'v \<Rightarrow> ('f \<times> 'v) list" where
  "free_call l v = (case lfree l of None \<Rightarrow> [] | Some f \<Rightarrow> [(f, v)])"

definition listCreate :: "('v, 'f) adlist" where
  "listCreate = \<lparr>lhead = None, ltail = None, ldup = None, lfree = None, lmatch = None, llen = 0\<rparr>"

fun release_loop :: "('v, 'f) adlist \<Rightarrow> nat \<Rightarrow> nat option \<Rightarrow> 'v node_mem \<Rightarrow> (('f \<times> 'v) list \<times> 'v node_mem) result" where
  "release_loop l 0 current h = Inr ([], h)"
| "release_loop l (Suc n) current h =
     rbind (node_at h current) (\<lambda>c.
     rbind (free_node current h) (\<lambda>h.
     rbind (release_loop l n (lnext c) h) (\<lambda>(calls, h). Inr (free_call l (lvalue c) @ calls, h))))"

definition listRelease :: "('v, 'f) adlist \<Rightarrow> 'v node_mem \<Rightarrow> (('f \<times> 'v) list \<times> 'v node_mem) result" where
  "listRelease l h = release_loop l (llen l) (lhead l) h"

definition listAddNodeHead :: "('v, 'f) adlist \<Rightarrow> 'v \<Rightarrow> 'v node_mem \<Rightarrow> (('v, 'f) adlist \<times> 'v node_mem) result" where
  "listAddNodeHead l v h =
     (if llen l = 0
      then case alloc_node \<lparr>lprev = None, lnext = None, lvalue = v\<rparr> h of
             (a, h) \<Rightarrow> Inr (l\<lparr>lhead := Some a, ltail := Some a, llen := add64 (llen l) 1\<rparr>, h)
      else case alloc_node \<lparr>lprev = None, lnext = lhead l, lvalue = v\<rparr> h of
             (a, h) \<Rightarrow> rbind (set_prev (lhead l) (Some a) h) (\<lambda>h.
                         Inr (l\<lparr>lhead := Some a, llen := add64 (llen l) 1\<rparr>, h)))"

definition listAddNodeTail :: "('v, 'f) adlist \<Rightarrow> 'v \<Rightarrow> 'v node_mem \<Rightarrow> (('v, 'f) adlist \<times> 'v node_mem) result" where
  "listAddNodeTail l v h =
     (if llen l = 0
      then case alloc_node \<lparr>lprev = None, lnext = None, lvalue = v\<rparr> h of
             (a, h) \<Rightarrow> Inr (l\<lparr>lhead := Some a, ltail := Some a, llen := add64 (llen l) 1\<rparr>, h)
      else case alloc_node \<lparr>lprev = ltail l, lnext = None, lvalue = v\<rparr> h of
             (a, h) \<Rightarrow> rbind (set_next (ltail l) (Some a) h) (\<lambda>h.
                         Inr (l\<lparr>ltail := Some a, llen := add64 (llen l) 1\<rparr>, h)))"

definition listInsertNode :: "('v, 'f) adlist \<Rightarrow> nat option \<Rightarrow> 'v \<Rightarrow> bool \<Rightarrow> 'v node_mem \<Rightarrow>
    (('v, 'f) adlist \<times> 'v node_mem) result" where
  "listInsertNode l old_node v after h =
     rbind (node_at h old_node) (\<lambda>o1.
     let n = (if after then \<lparr>lprev = old_node, lnext = lnext o1, lvalue = v\<rparr>
              else \<lparr>lprev = lprev o1, lnext = old_node, lvalue = v\<rparr>);
         (a, h) = alloc_node n h;
         l = (if after then if ltail l = old_node then l\<lparr>ltail := Some a\<rparr> else l
              else if lhead l = old_node then l\<lparr>lhead := Some a\<rparr> else l)
     in rbind (if lprev n \<noteq> None then set_next (lprev n) (Some a) h else Inr h) (\<lambda>h.
        rbind (if lnext n \<noteq> None then set_prev (lnext n) (Some a) h else Inr h) (\<lambda>h.
        Inr (l\<lparr>llen := add64 (llen l) 1\<rparr>, h))))"

definition listDelNode :: "('v, 'f) adlist \<Rightarrow> nat option \<Rightarrow> 'v node_mem \<Rightarrow>
    (('f \<times> 'v) list \<times> ('v, 'f) adlist \<times> 'v node_mem) result" where
  "listDelNode l p h =
     rbind (node_at h p) (\<lambda>n.
     rbind (if lprev n \<noteq> None
            then rbind (set_next (lprev n) (lnext n) h) (\<lambda>h. Inr (l, h))
            else Inr (l\<lparr>lhead := lnext n\<rparr>, h)) (\<lambda>(l, h).
     rbind (node_at h p) (\<lambda>n.
     rbind (if lnext n \<noteq> None
            then rbind (set_prev (lnext n) (lprev n) h) (\<lambda>h. Inr (l, h))
            else Inr (l\<lparr>ltail := lprev n\<rparr>, h)) (\<lambda>(l, h).
     rbind (free_node p h) (\<lambda>h.
     Inr (free_call l (lvalue n), l\<lparr>llen := sub64 (llen l) 1\<rparr>, h))))))"

definition listGetIterator :: "('v, 'f) adlist \<Rightarrow> al_direction \<Rightarrow> listIter" where
  "listGetIterator l d =
     \<lparr>inext = (if d = AL_START_HEAD then lhead l else ltail l), idirection = d\<rparr>"

definition listRewind :: "('v, 'f) adlist \<Rightarrow> listIter" where
  "listRewind l = \<lparr>inext = lhead l, idirection = AL_START_HEAD\<rparr>"

definition listRewindTail :: "('v, 'f) adlist \<Rightarrow> listIter" where
  "listRewindTail l = \<lparr>inext = ltail l, idirection = AL_START_TAIL\<rparr>"

definition listNext :: "listIter \<Rightarrow> 'v node_mem \<Rightarrow> (nat option \<times> listIter) result" where
  "listNext iter h =
     (let current = inext iter in
      if current \<noteq> None
      then rbind (node_at h current) (\<lambda>n.
             Inr (current, iter\<lparr>inext := (if idirection iter = AL_START_HEAD then lnext n else lprev n)\<rparr>))
      else Inr (current, iter))"

text \<open>
  The loops that run an iterator to its end; \<open>None\<close> is a loop that never ends. \<^verbatim>\<open>listDup\<close> gives \<open>None\<close> inside
  the result when \<^verbatim>\<open>dup\<close> fails, with the calls of \<^verbatim>\<open>free\<close> that releasing the copy makes.
\<close>

partial_function (option) dup_loop :: "listIter \<Rightarrow> ('v, 'f) adlist \<Rightarrow> 'v node_mem \<Rightarrow>
    (('v, 'f) adlist option \<times> ('f \<times> 'v) list \<times> 'v node_mem) result option" where
  "dup_loop iter copy h =
     (case listNext iter h of
        Inl e \<Rightarrow> Some (Inl e)
      | Inr (p, iter) \<Rightarrow>
          if p = None then Some (Inr (Some copy, [], h))
          else case node_at h p of
                 Inl e \<Rightarrow> Some (Inl e)
               | Inr n \<Rightarrow>
                   (case (case ldup copy of None \<Rightarrow> Some (lvalue n) | Some f \<Rightarrow> f (lvalue n)) of
                      None \<Rightarrow> Some (rbind (listRelease copy h) (\<lambda>(calls, h). Inr (None, calls, h)))
                    | Some v \<Rightarrow>
                        (case listAddNodeTail copy v h of
                           Inl e \<Rightarrow> Some (Inl e)
                         | Inr (copy, h) \<Rightarrow> dup_loop iter copy h)))"

definition listDup :: "('v, 'f) adlist \<Rightarrow> 'v node_mem \<Rightarrow>
    (('v, 'f) adlist option \<times> ('f \<times> 'v) list \<times> 'v node_mem) result option" where
  "listDup orig h =
     dup_loop (listGetIterator orig AL_START_HEAD)
       (listCreate\<lparr>ldup := ldup orig, lfree := lfree orig, lmatch := lmatch orig\<rparr>) h"

partial_function (option) key_loop :: "('v, 'f) adlist \<Rightarrow> 'v \<Rightarrow> listIter \<Rightarrow> 'v node_mem \<Rightarrow> nat option result option" where
  "key_loop l key iter h =
     (case listNext iter h of
        Inl e \<Rightarrow> Some (Inl e)
      | Inr (p, iter) \<Rightarrow>
          if p = None then Some (Inr None)
          else case node_at h p of
                 Inl e \<Rightarrow> Some (Inl e)
               | Inr n \<Rightarrow>
                   if (case lmatch l of Some m \<Rightarrow> m (lvalue n) key | None \<Rightarrow> key = lvalue n)
                   then Some (Inr p) else key_loop l key iter h)"

definition listSearchKey :: "('v, 'f) adlist \<Rightarrow> 'v \<Rightarrow> 'v node_mem \<Rightarrow> nat option result option" where
  "listSearchKey l key h = key_loop l key (listGetIterator l AL_START_HEAD) h"

text \<open>\<^verbatim>\<open>while(index-- && n) n = n->next\<close>\<close>

fun walk :: "('v listNode \<Rightarrow> nat option) \<Rightarrow> nat \<Rightarrow> nat option \<Rightarrow> 'v node_mem \<Rightarrow> nat option result" where
  "walk step 0 p h = Inr p"
| "walk step (Suc i) p h =
     (if p = None then Inr None else rbind (node_at h p) (\<lambda>n. walk step i (step n) h))"

definition listIndex :: "('v, 'f) adlist \<Rightarrow> int \<Rightarrow> 'v node_mem \<Rightarrow> nat option result" where
  "listIndex l i h =
     (if i < 0 then walk lprev (nat (- i - 1)) (ltail l) h else walk lnext (nat i) (lhead l) h)"

definition listRotate :: "('v, 'f) adlist \<Rightarrow> 'v node_mem \<Rightarrow> (('v, 'f) adlist \<times> 'v node_mem) result" where
  "listRotate l h =
     (let p = ltail l in
      if llen l \<le> 1 then Inr (l, h)
      else
        rbind (node_at h p) (\<lambda>t.
        let l = l\<lparr>ltail := lprev t\<rparr> in
        rbind (set_next (ltail l) None h) (\<lambda>h.
        rbind (set_prev (lhead l) p h) (\<lambda>h.
        rbind (set_prev p None h) (\<lambda>h.
        rbind (set_next p (lhead l) h) (\<lambda>h.
        Inr (l\<lparr>lhead := p\<rparr>, h)))))))"

section \<open>Chains of nodes\<close>

text \<open>The pairs are the addresses and the values of the nodes, from head to tail.\<close>

definition first :: "(nat \<times> 'v) list \<Rightarrow> nat option \<Rightarrow> nat option" where
  "first xs n = (if xs = [] then n else Some (fst (hd xs)))"

definition final :: "nat option \<Rightarrow> (nat \<times> 'v) list \<Rightarrow> nat option" where
  "final p xs = (if xs = [] then p else Some (fst (last xs)))"

fun chain :: "(nat \<rightharpoonup> 'v listNode) \<Rightarrow> nat option \<Rightarrow> (nat \<times> 'v) list \<Rightarrow> nat option \<Rightarrow> bool" where
  "chain m p [] n = True"
| "chain m p ((a, v) # xs) n \<longleftrightarrow>
     m a = Some \<lparr>lprev = p, lnext = first xs n, lvalue = v\<rparr> \<and> chain m (Some a) xs n"

abbreviation addrs :: "(nat \<times> 'v) list \<Rightarrow> nat set" where "addrs xs \<equiv> fst ` set xs"

lemma first_simps [simp]: "first [] n = n" "first (x # xs) n = Some (fst x)"
  by (simp_all add: first_def)

lemma final_simps [simp]: "final p [] = p" "final p (xs @ [x]) = Some (fst x)" "final p (x # xs) = final (Some (fst x)) xs"
  by (auto simp: final_def)

lemma first_append: "first (xs @ ys) n = first xs (first ys n)"
  by (simp add: first_def)

lemma final_append: "final p (xs @ ys) = final (final p xs) ys"
  by (simp add: final_def)

lemma chain_append: "chain m p (xs @ ys) n \<longleftrightarrow> chain m p xs (first ys n) \<and> chain m (final p xs) ys n"
  by (induction m p xs n rule: chain.induct) (auto simp: first_append)

lemma chain_cong: "(\<And>a. a \<in> addrs xs \<Longrightarrow> m a = m' a) \<Longrightarrow> chain m p xs n = chain m' p xs n"
  by (induction m p xs n rule: chain.induct) auto

lemma chain_upd [simp]: "a \<notin> addrs xs \<Longrightarrow> chain (m(a := x)) p xs n = chain m p xs n"
  by (rule chain_cong) auto

lemma chain_elsewhere:
  assumes "chain m p xs n" and "\<forall>a. a \<notin> A \<longrightarrow> m' a = m a" and "addrs xs \<inter> A = {}"
  shows "chain m' p xs n"
proof -
  have "m' a = m a" if "a \<in> addrs xs" for a using assms(2,3) that by auto
  with assms(1) chain_cong [of xs m' m p n] show ?thesis by simp
qed

lemma chain_dom: "chain m p xs n \<Longrightarrow> \<forall>a\<in>addrs xs. m a \<noteq> None"
  by (induction m p xs n rule: chain.induct) auto

lemma node_at_Some [simp]: "node_at h (Some a) = (case nodes h a of None \<Rightarrow> Inl UseAfterFree | Some n \<Rightarrow> Inr n)"
  by (simp add: node_at_def)

text \<open>Pointing the last node of a chain, or the first one, somewhere else.\<close>

lemma link_left:
  assumes "chain (nodes h) p xs n" and "distinct (map fst xs)"
  obtains h' where "(if xs \<noteq> [] then set_next (final p xs) n' h else Inr h) = Inr h'" and "chain (nodes h') p xs n'"
    and "\<forall>a. a \<notin> addrs xs \<longrightarrow> nodes h' a = nodes h a" and "brk h' = brk h"
proof (cases xs rule: rev_cases)
  case Nil
  then show thesis by (intro that [of h]) auto
next
  case (snoc ys x)
  obtain a v where x: "x = (a, v)" by fastforce
  let ?k = "\<lparr>lprev = final p ys, lnext = n, lvalue = v\<rparr>"
  let ?h = "h\<lparr>nodes := (nodes h)(a \<mapsto> ?k\<lparr>lnext := n'\<rparr>)\<rparr>"
  have k: "nodes h a = Some ?k" "chain (nodes h) p ys (Some a)" and a: "a \<notin> addrs ys"
    using assms snoc x by (auto simp: chain_append)
  have "chain (nodes ?h) p ys (Some a)"
    using k(2) a by simp
  then have "chain (nodes ?h) p xs n'"
    using snoc x by (simp add: chain_append)
  then show thesis
    using k(1) snoc x by (intro that [of ?h]) (auto simp: set_next_def)
qed

lemma link_right:
  assumes "chain (nodes h) p xs n" and "distinct (map fst xs)"
  obtains h' where "(if xs \<noteq> [] then set_prev (first xs n) p' h else Inr h) = Inr h'" and "chain (nodes h') p' xs n"
    and "\<forall>a. a \<notin> addrs xs \<longrightarrow> nodes h' a = nodes h a" and "brk h' = brk h"
proof (cases xs)
  case Nil
  then show thesis by (intro that [of h]) auto
next
  case (Cons x ys)
  obtain a v where x: "x = (a, v)" by fastforce
  let ?k = "\<lparr>lprev = p, lnext = first ys n, lvalue = v\<rparr>"
  let ?h = "h\<lparr>nodes := (nodes h)(a \<mapsto> ?k\<lparr>lprev := p'\<rparr>)\<rparr>"
  have k: "nodes h a = Some ?k" "chain (nodes h) (Some a) ys n" and a: "a \<notin> addrs ys"
    using assms Cons x by auto
  have "chain (nodes ?h) (Some a) ys n"
    using k(2) a by simp
  then show thesis
    using k(1) Cons x by (intro that [of ?h]) (auto simp: set_prev_def)
qed

section \<open>Lists in memory\<close>

text \<open>
  In the memory \<open>h\<close> the list \<open>l\<close> is the chain \<open>xs\<close>; its nodes were allocated since \<open>h0\<close>, and
  outside of them nothing has changed.
\<close>

definition since :: "'v node_mem \<Rightarrow> 'v node_mem \<Rightarrow> (nat \<times> 'v) list \<Rightarrow> bool" where
  "since h0 h xs \<longleftrightarrow> (\<forall>a. a \<notin> addrs xs \<longrightarrow> nodes h a = nodes h0 a) \<and> brk h0 \<le> brk h \<and>
     (\<forall>a\<in>addrs xs. brk h0 \<le> a \<and> a < brk h) \<and> (\<forall>a\<ge>brk h0. nodes h0 a = None)"

definition held :: "'v node_mem \<Rightarrow> 'v node_mem \<Rightarrow> ('v, 'f) adlist \<Rightarrow> (nat \<times> 'v) list \<Rightarrow> bool" where
  "held h0 h l xs \<longleftrightarrow> chain (nodes h) None xs None \<and> distinct (map fst xs) \<and> since h0 h xs \<and>
     lhead l = first xs None \<and> ltail l = final None xs \<and> llen l = length xs"

lemma held_create: "\<forall>a\<ge>brk h. nodes h a = None \<Longrightarrow> held h h (listCreate\<lparr>ldup := d, lfree := f, lmatch := m\<rparr>) []"
  by (simp add: held_def since_def listCreate_def)

lemma since_fresh: "since h0 h xs \<Longrightarrow> nodes h (brk h) = None \<and> brk h \<notin> addrs xs"
  by (force simp: since_def)

text \<open>Inserting a node between two halves of a chain: both neighbours are linked to it.\<close>

lemma insert_between:
  assumes ch: "chain (nodes h) None (ys @ zs) None" and d: "distinct (map fst (ys @ zs))" and s: "since h0 h (ys @ zs)"
  obtains h' where
    "rbind (if ys \<noteq> [] then set_next (final None ys) (Some (brk h))
        (snd (alloc_node \<lparr>lprev = final None ys, lnext = first zs None, lvalue = v\<rparr> h))
        else Inr (snd (alloc_node \<lparr>lprev = final None ys, lnext = first zs None, lvalue = v\<rparr> h)))
      (\<lambda>h'. if zs \<noteq> [] then set_prev (first zs None) (Some (brk h)) h' else Inr h') = Inr h'"
    and "chain (nodes h') None (ys @ (brk h, v) # zs) None" and "since h0 h' (ys @ (brk h, v) # zs)"
    and "distinct (map fst (ys @ (brk h, v) # zs))"
proof -
  let ?a = "brk h" and ?n = "\<lparr>lprev = final None ys, lnext = first zs None, lvalue = v\<rparr>"
  let ?h = "snd (alloc_node ?n h)"
  have a: "?a \<notin> addrs (ys @ zs)" using since_fresh [OF s] by blast
  have h: "nodes ?h = (nodes h)(?a \<mapsto> ?n)" "brk ?h = ?a + 1" by (simp_all add: alloc_node_def)
  have cy: "chain (nodes ?h) None ys (first zs None)" and cz: "chain (nodes ?h) (final None ys) zs None"
    using ch a by (simp_all add: chain_append h(1) image_Un)
  have dy: "distinct (map fst ys)" and dz: "distinct (map fst zs)" and dis: "addrs ys \<inter> addrs zs = {}"
    using d by auto
  obtain h1 where h1: "(if ys \<noteq> [] then set_next (final None ys) (Some ?a) ?h else Inr ?h) = Inr h1"
    "chain (nodes h1) None ys (Some ?a)" "\<forall>b. b \<notin> addrs ys \<longrightarrow> nodes h1 b = nodes ?h b" "brk h1 = brk ?h"
    by (rule link_left [OF cy dy, of "Some ?a"])
  have cz1: "chain (nodes h1) (final None ys) zs None"
    by (rule chain_elsewhere [OF cz h1(3)]) (use dis in auto)
  obtain h2 where h2: "(if zs \<noteq> [] then set_prev (first zs None) (Some ?a) h1 else Inr h1) = Inr h2"
    "chain (nodes h2) (Some ?a) zs None" "\<forall>b. b \<notin> addrs zs \<longrightarrow> nodes h2 b = nodes h1 b" "brk h2 = brk h1"
    by (rule link_right [OF cz1 dz, of "Some ?a"])
  have cy2: "chain (nodes h2) None ys (Some ?a)"
    by (rule chain_elsewhere [OF h1(2) h2(3) dis])
  have "nodes h2 ?a = Some ?n" using a h(1) h1(3) h2(3) by (auto simp: image_Un)
  then have ch': "chain (nodes h2) None (ys @ (?a, v) # zs) None"
    using cy2 h2(2) by (simp add: chain_append)
  have "since h0 h2 (ys @ (?a, v) # zs)"
    using s h h1(3,4) h2(3,4) by (auto simp: since_def less_Suc_eq image_Un)
  with ch' h1(1) h2(1) d a show thesis
    by (intro that [of h2]) auto
qed

text \<open>Taking a node out of a chain: its neighbours are linked to each other.\<close>

lemma link_around:
  assumes ch: "chain (nodes h) None (ys @ (a, v) # zs) None" and d: "distinct (map fst (ys @ (a, v) # zs))"
    and s: "since h0 h (ys @ (a, v) # zs)"
  obtains h1 h2 where
    "(if ys \<noteq> [] then set_next (final None ys) (first zs None) h else Inr h) = Inr h1"
    and "(if zs \<noteq> [] then set_prev (first zs None) (final None ys) h1 else Inr h1) = Inr h2"
    and "nodes h1 a = nodes h a" and "nodes h2 a = nodes h a"
    and "chain (nodes h2) None (ys @ zs) None" and "\<forall>b. b \<notin> addrs (ys @ zs) \<longrightarrow> nodes h2 b = nodes h b" and "brk h2 = brk h"
proof -
  have cy: "chain (nodes h) None ys (Some a)" and cz: "chain (nodes h) (Some a) zs None"
    using ch by (auto simp: chain_append)
  have dy: "distinct (map fst ys)" and dz: "distinct (map fst zs)" and dis: "addrs ys \<inter> addrs zs = {}"
    and a: "a \<notin> addrs ys" "a \<notin> addrs zs"
    using d by auto
  obtain h1 where h1: "(if ys \<noteq> [] then set_next (final None ys) (first zs None) h else Inr h) = Inr h1"
    "chain (nodes h1) None ys (first zs None)" "\<forall>b. b \<notin> addrs ys \<longrightarrow> nodes h1 b = nodes h b" "brk h1 = brk h"
    by (rule link_left [OF cy dy, of "first zs None"])
  have cz1: "chain (nodes h1) (Some a) zs None"
    by (rule chain_elsewhere [OF cz h1(3)]) (use dis in auto)
  obtain h2 where h2: "(if zs \<noteq> [] then set_prev (first zs None) (final None ys) h1 else Inr h1) = Inr h2"
    "chain (nodes h2) (final None ys) zs None" "\<forall>b. b \<notin> addrs zs \<longrightarrow> nodes h2 b = nodes h1 b" "brk h2 = brk h1"
    by (rule link_right [OF cz1 dz, of "final None ys"])
  have "chain (nodes h2) None ys (first zs None)"
    by (rule chain_elsewhere [OF h1(2) h2(3) dis])
  with h1 h2 a show thesis
    by (intro that [of h1 h2]) (auto simp: chain_append image_Un)
qed

section \<open>The operations\<close>

abbreviation vals :: "(nat \<times> 'v) list \<Rightarrow> 'v list" where "vals xs \<equiv> map snd xs"

lemma final_not_None [simp]: "final None xs \<noteq> None \<longleftrightarrow> xs \<noteq> []" "final None xs = None \<longleftrightarrow> xs = []"
  by (auto simp: final_def)

lemma first_not_None [simp]: "first xs None \<noteq> None \<longleftrightarrow> xs \<noteq> []" "first xs None = None \<longleftrightarrow> xs = []"
  by (auto simp: first_def)

lemma heldD:
  assumes "held h0 h l xs"
  shows "chain (nodes h) None xs None" and "distinct (map fst xs)" and "since h0 h xs"
    and "lhead l = first xs None" and "ltail l = final None xs" and "llen l = length xs"
  using assms by (simp_all add: held_def)

lemma heldI:
  "chain (nodes h) None xs None \<Longrightarrow> distinct (map fst xs) \<Longrightarrow> since h0 h xs \<Longrightarrow> lhead l = first xs None \<Longrightarrow>
   ltail l = final None xs \<Longrightarrow> llen l = length xs \<Longrightarrow> held h0 h l xs"
  by (simp add: held_def)

text \<open>\<open>same_cbs\<close>: the callbacks of a list stay what they are.\<close>

definition same_cbs :: "('v, 'f) adlist \<Rightarrow> ('v, 'f) adlist \<Rightarrow> bool" where
  "same_cbs l l' \<longleftrightarrow> ldup l' = ldup l \<and> lfree l' = lfree l \<and> lmatch l' = lmatch l"

text \<open>\<open>insert_between\<close>, with the memory after the allocation named.\<close>

lemma insert_between':
  assumes "chain (nodes h) None (ys @ zs) None" and "distinct (map fst (ys @ zs))" and "since h0 h (ys @ zs)"
  obtains h1 h2 h' where
    "alloc_node \<lparr>lprev = final None ys, lnext = first zs None, lvalue = v\<rparr> h = (brk h, h1)"
    and "(if ys \<noteq> [] then set_next (final None ys) (Some (brk h)) h1 else Inr h1) = Inr h2"
    and "(if zs \<noteq> [] then set_prev (first zs None) (Some (brk h)) h2 else Inr h2) = Inr h'"
    and "chain (nodes h') None (ys @ (brk h, v) # zs) None" and "since h0 h' (ys @ (brk h, v) # zs)"
    and "distinct (map fst (ys @ (brk h, v) # zs))"
proof -
  define h1 where "h1 = snd (alloc_node \<lparr>lprev = final None ys, lnext = first zs None, lvalue = v\<rparr> h)"
  have new: "alloc_node \<lparr>lprev = final None ys, lnext = first zs None, lvalue = v\<rparr> h = (brk h, h1)"
    by (simp add: h1_def alloc_node_def)
  obtain h' where h': "rbind (if ys \<noteq> [] then set_next (final None ys) (Some (brk h)) h1 else Inr h1)
      (\<lambda>h'. if zs \<noteq> [] then set_prev (first zs None) (Some (brk h)) h' else Inr h') = Inr h'"
    "chain (nodes h') None (ys @ (brk h, v) # zs) None" "since h0 h' (ys @ (brk h, v) # zs)"
    "distinct (map fst (ys @ (brk h, v) # zs))"
    by (rule insert_between [OF assms, of v, folded h1_def])
  from h'(1) obtain h2 where "(if ys \<noteq> [] then set_next (final None ys) (Some (brk h)) h1 else Inr h1) = Inr h2"
    "(if zs \<noteq> [] then set_prev (first zs None) (Some (brk h)) h2 else Inr h2) = Inr h'"
    unfolding rbind_eq_Inr by blast
  with new h'(2-4) show thesis by (intro that)
qed

lemma add_head_held:
  assumes held: "held h0 h l xs" and len: "length xs + 1 < 2 ^ 64"
  obtains l' h' where "listAddNodeHead l v h = Inr (l', h')" and "held h0 h' l' ((brk h, v) # xs)" and "same_cbs l l'"
proof -
  note D = heldD [OF held]
  have ch: "chain (nodes h) None ([] @ xs) None" and d: "distinct (map fst ([] @ xs))" and s: "since h0 h ([] @ xs)"
    using D by simp_all
  obtain h1 h2 h' where h': "alloc_node \<lparr>lprev = None, lnext = first xs None, lvalue = v\<rparr> h = (brk h, h1)" "h2 = h1"
    "(if xs \<noteq> [] then set_prev (first xs None) (Some (brk h)) h2 else Inr h2) = Inr h'"
    "chain (nodes h') None ((brk h, v) # xs) None" "since h0 h' ((brk h, v) # xs)" "distinct (map fst ((brk h, v) # xs))"
    by (rule insert_between' [OF ch d s, of v]) simp
  let ?l = "l\<lparr>lhead := Some (brk h), ltail := (if xs = [] then Some (brk h) else ltail l), llen := length xs + 1\<rparr>"
  have run: "listAddNodeHead l v h = Inr (?l, h')"
    using h'(1-3) D(4-6) len by (cases "xs = []") (simp_all add: listAddNodeHead_def)
  have "held h0 h' ?l ((brk h, v) # xs)"
    using h'(4-6) D(5) by (intro heldI) (auto simp: final_def)
  with run show thesis by (rule that) (simp add: same_cbs_def)
qed

lemma add_tail_held:
  assumes held: "held h0 h l xs" and len: "length xs + 1 < 2 ^ 64"
  obtains l' h' where "listAddNodeTail l v h = Inr (l', h')" and "held h0 h' l' (xs @ [(brk h, v)])" and "same_cbs l l'"
proof -
  note D = heldD [OF held]
  have ch: "chain (nodes h) None (xs @ []) None" and d: "distinct (map fst (xs @ []))" and s: "since h0 h (xs @ [])"
    using D by simp_all
  obtain h1 h2 h' where h': "alloc_node \<lparr>lprev = final None xs, lnext = None, lvalue = v\<rparr> h = (brk h, h1)"
    "(if xs \<noteq> [] then set_next (final None xs) (Some (brk h)) h1 else Inr h1) = Inr h2" "h' = h2"
    "chain (nodes h') None (xs @ [(brk h, v)]) None" "since h0 h' (xs @ [(brk h, v)])" "distinct (map fst (xs @ [(brk h, v)]))"
    by (rule insert_between' [OF ch d s, of v]) simp
  let ?l = "l\<lparr>lhead := (if xs = [] then Some (brk h) else lhead l), ltail := Some (brk h), llen := length xs + 1\<rparr>"
  have run: "listAddNodeTail l v h = Inr (?l, h')"
    using h'(1-3) D(4-6) len by (cases "xs = []") (simp_all add: listAddNodeTail_def)
  have "held h0 h' ?l (xs @ [(brk h, v)])"
    using h'(4-6) D(4) by (intro heldI) (auto simp: first_def)
  with run show thesis by (rule that) (simp add: same_cbs_def)
qed

lemma node_in_chain:
  assumes "chain m p (ys @ (a, v) # zs) n"
  shows "m a = Some \<lparr>lprev = final p ys, lnext = first zs n, lvalue = v\<rparr>"
  using assms by (simp add: chain_append)

lemma final_self: "a \<notin> addrs zs \<Longrightarrow> final (Some a) zs = Some a \<longleftrightarrow> zs = []"
  by (auto simp: final_def dest: last_in_set)

lemma first_self: "a \<notin> addrs ys \<Longrightarrow> first (ys @ zs) n = Some a \<longleftrightarrow> ys = [] \<and> first zs n = Some a"
  by (cases ys) auto

lemma insert_held:
  assumes held: "held h0 h l (ys @ (a, v) # zs)" and len: "length (ys @ (a, v) # zs) + 1 < 2 ^ 64"
  obtains l' h' where "listInsertNode l (Some a) x after h = Inr (l', h')"
    and "held h0 h' l' (if after then ys @ (a, v) # (brk h, x) # zs else ys @ (brk h, x) # (a, v) # zs)" and "same_cbs l l'"
proof -
  note D = heldD [OF held]
  have node: "nodes h a = Some \<lparr>lprev = final None ys, lnext = first zs None, lvalue = v\<rparr>"
    by (rule node_in_chain [OF D(1)])
  let ?ys = "if after then ys @ [(a, v)] else ys" and ?zs = "if after then zs else (a, v) # zs"
  have split: "?ys @ ?zs = ys @ (a, v) # zs" by simp
  let ?n = "\<lparr>lprev = final None ?ys, lnext = first ?zs None, lvalue = x\<rparr>"
  have ch: "chain (nodes h) None (?ys @ ?zs) None" and d: "distinct (map fst (?ys @ ?zs))" and s: "since h0 h (?ys @ ?zs)"
    unfolding split by (fact D)+
  obtain h1 h2 h' where h': "alloc_node ?n h = (brk h, h1)"
    "(if ?ys \<noteq> [] then set_next (final None ?ys) (Some (brk h)) h1 else Inr h1) = Inr h2"
    "(if ?zs \<noteq> [] then set_prev (first ?zs None) (Some (brk h)) h2 else Inr h2) = Inr h'"
    "chain (nodes h') None (?ys @ (brk h, x) # ?zs) None" "since h0 h' (?ys @ (brk h, x) # ?zs)"
    "distinct (map fst (?ys @ (brk h, x) # ?zs))"
    by (rule insert_between' [OF ch d s, of x])
  have ends: "ltail l = Some a \<longleftrightarrow> zs = []" "lhead l = Some a \<longleftrightarrow> ys = []"
    using D(2) final_self [of a zs] first_self [of a ys "(a, v) # zs"] by (simp_all add: D(4,5) final_append image_Un)
  let ?l = "l\<lparr>lhead := (if \<not> after \<and> ys = [] then Some (brk h) else lhead l),
             ltail := (if after \<and> zs = [] then Some (brk h) else ltail l), llen := llen l + 1\<rparr>"
  have n: "(if after then \<lparr>lprev = Some a, lnext = first zs None, lvalue = x\<rparr>
      else \<lparr>lprev = final None ys, lnext = Some a, lvalue = x\<rparr>) = ?n"
    by simp
  have l: "(if after then if ltail l = Some a then l\<lparr>ltail := Some (brk h)\<rparr> else l
      else if lhead l = Some a then l\<lparr>lhead := Some (brk h)\<rparr> else l)\<lparr>llen := add64 (llen l) 1\<rparr> = ?l"
    using ends len D(6) by (cases l) auto
  have ll: "llen (if after then if ltail l = Some a then l\<lparr>ltail := Some (brk h)\<rparr> else l
      else if lhead l = Some a then l\<lparr>lhead := Some (brk h)\<rparr> else l) = llen l"
    by simp
  have "listInsertNode l (Some a) x after h = Inr (?l, h')"
    unfolding listInsertNode_def node_at_Some node option.case rbind_simps Let_def listNode.simps n h'(1) prod.case
    by (simp only: listNode.simps final_not_None first_not_None h'(2,3) rbind_simps ll l)
  moreover have "held h0 h' ?l (?ys @ (brk h, x) # ?zs)"
    using h'(4-6) D(4-6) by (intro heldI) (auto simp: first_def final_def hd_append)
  ultimately show thesis
    by (intro that [of ?l h']) (auto simp: same_cbs_def)
qed

lemma del_held:
  assumes held: "held h0 h l (ys @ (a, v) # zs)" and len: "length (ys @ (a, v) # zs) < 2 ^ 64"
  obtains l' h' where "listDelNode l (Some a) h = Inr (free_call l v, l', h')" and "held h0 h' l' (ys @ zs)" and "same_cbs l l'"
proof -
  note D = heldD [OF held]
  have node: "nodes h a = Some \<lparr>lprev = final None ys, lnext = first zs None, lvalue = v\<rparr>"
    by (rule node_in_chain [OF D(1)])
  obtain h1 h2 where h: "(if ys \<noteq> [] then set_next (final None ys) (first zs None) h else Inr h) = Inr h1"
    "(if zs \<noteq> [] then set_prev (first zs None) (final None ys) h1 else Inr h1) = Inr h2"
    "nodes h1 a = nodes h a" "nodes h2 a = nodes h a" "chain (nodes h2) None (ys @ zs) None"
    "\<forall>b. b \<notin> addrs (ys @ zs) \<longrightarrow> nodes h2 b = nodes h b" "brk h2 = brk h"
    by (rule link_around [OF D(1-3)])
  let ?h = "h2\<lparr>nodes := (nodes h2)(a := None)\<rparr>"
  let ?l = "l\<lparr>lhead := (if ys = [] then first zs None else lhead l), ltail := (if zs = [] then final None ys else ltail l),
             llen := llen l - 1\<rparr>"
  let ?k = "\<lparr>lprev = final None ys, lnext = first zs None, lvalue = v\<rparr>"
  let ?l1 = "if ys = [] then l\<lparr>lhead := first zs None\<rparr> else l"
  let ?l2 = "if zs = [] then ?l1\<lparr>ltail := final None ys\<rparr> else ?l1"
  have s1: "(if lprev ?k \<noteq> None then rbind (set_next (lprev ?k) (lnext ?k) h) (\<lambda>h. Inr (l, h))
      else Inr (l\<lparr>lhead := lnext ?k\<rparr>, h)) = Inr (?l1, h1)"
    using h(1) by (cases "ys = []") simp_all
  have s2: "(if lnext ?k \<noteq> None then rbind (set_prev (lnext ?k) (lprev ?k) h1) (\<lambda>h. Inr (?l1, h))
      else Inr (?l1\<lparr>ltail := lprev ?k\<rparr>, h1)) = Inr (?l2, h2)"
    using h(2) by (cases "zs = []") simp_all
  have n: "nodes h1 a = Some ?k" "nodes h2 a = Some ?k" using h(3,4) node by simp_all
  have l2: "?l2\<lparr>llen := sub64 (llen ?l2) 1\<rparr> = ?l" "free_call ?l2 v = free_call l v"
    using len D(6) by (cases l; simp add: free_call_def)+
  have "free_node (Some a) h2 = Inr ?h" using n(2) by (simp add: free_node_def)
  then have "listDelNode l (Some a) h = Inr (free_call l v, ?l, ?h)"
    unfolding listDelNode_def node_at_Some node n option.case rbind_simps s1 s2 prod.case
    by (simp only: rbind_simps l2 listNode.simps)
  moreover have "held h0 ?h ?l (ys @ zs)"
  proof (rule heldI)
    have a: "a \<notin> addrs (ys @ zs)" using D(2) by (auto simp: image_Un)
    then show "chain (nodes ?h) None (ys @ zs) None" using h(5) by simp
    have "nodes h0 a = None" using D(3) by (auto simp: since_def)
    then show "since h0 ?h (ys @ zs)"
      using D(3) h(6,7) by (auto simp: since_def image_Un)
  qed (use D in \<open>auto simp: first_def final_def hd_append\<close>)
  ultimately show thesis by (intro that [of ?l ?h]) (auto simp: same_cbs_def)
qed

lemma rotate_held:
  assumes held: "held h0 h l (ys @ [(a, v)])" and ys: "ys \<noteq> []"
  obtains l' h' where "listRotate l h = Inr (l', h')" and "held h0 h' l' ((a, v) # ys)" and "same_cbs l l'"
proof -
  note D = heldD [OF held]
  have node: "nodes h a = Some \<lparr>lprev = final None ys, lnext = None, lvalue = v\<rparr>"
    using node_in_chain [OF D(1)] by simp
  have cy: "chain (nodes h) None ys (Some a)" and dy: "distinct (map fst ys)" and a: "a \<notin> addrs ys"
    using D(1,2) by (auto simp: chain_append)
  obtain h1 where h1: "set_next (final None ys) None h = Inr h1" "chain (nodes h1) None ys None"
    "\<forall>b. b \<notin> addrs ys \<longrightarrow> nodes h1 b = nodes h b" "brk h1 = brk h"
    by (rule link_left [OF cy dy, of None]) (use ys in simp)
  obtain h2 where h2: "set_prev (first ys None) (Some a) h1 = Inr h2" "chain (nodes h2) (Some a) ys None"
    "\<forall>b. b \<notin> addrs ys \<longrightarrow> nodes h2 b = nodes h1 b" "brk h2 = brk h1"
    by (rule link_right [OF h1(2) dy, of "Some a"]) (use ys in simp)
  let ?h3 = "h2\<lparr>nodes := (nodes h2)(a \<mapsto> \<lparr>lprev = None, lnext = None, lvalue = v\<rparr>)\<rparr>"
  let ?h4 = "h2\<lparr>nodes := (nodes h2)(a \<mapsto> \<lparr>lprev = None, lnext = first ys None, lvalue = v\<rparr>)\<rparr>"
  let ?l = "l\<lparr>ltail := final None ys, lhead := Some a\<rparr>"
  have n2: "nodes h2 a = nodes h a" using h1(3) h2(3) a by simp
  have s3: "set_prev (Some a) None h2 = Inr ?h3" by (simp add: set_prev_def n2 node)
  have s4: "set_next (Some a) (first ys None) ?h3 = Inr ?h4" by (simp add: set_next_def)
  have head: "lhead l = first ys None" using D(4) ys by (simp add: first_def)
  have "listRotate l h = Inr (?l, ?h4)"
    using D(5,6) ys h1(1) h2(1) s3 s4
    by (cases ys) (simp_all add: listRotate_def Let_def node head)
  moreover have "held h0 ?h4 ?l ((a, v) # ys)"
  proof (rule heldI)
    show "chain (nodes ?h4) None ((a, v) # ys) None" using h2(2) a by simp
    show "since h0 ?h4 ((a, v) # ys)"
      using D(3) h1(3,4) h2(3,4) by (auto simp: since_def image_Un)
  qed (use D ys in \<open>auto simp: final_def\<close>)
  ultimately show thesis by (intro that [of ?l ?h4]) (simp_all add: same_cbs_def)
qed

text \<open>Walking along the links.\<close>

lemma walk_next:
  "chain (nodes h) p xs None \<Longrightarrow>
   walk lnext i (first xs None) h = Inr (if i < length xs then Some (fst (xs ! i)) else None)"
proof (induction i arbitrary: p xs)
  case 0 then show ?case by (auto simp: first_def hd_conv_nth)
next
  case (Suc i)
  show ?case
  proof (cases xs)
    case (Cons x ys)
    with Suc.prems have "nodes h (fst x) = Some \<lparr>lprev = p, lnext = first ys None, lvalue = snd x\<rparr>"
      "chain (nodes h) (Some (fst x)) ys None"
      by (cases x; simp)+
    with Suc.IH Cons show ?thesis by simp
  qed simp
qed

lemma walk_prev:
  "chain (nodes h) None xs n \<Longrightarrow>
   walk lprev i (final None xs) h = Inr (if i < length xs then Some (fst (xs ! (length xs - Suc i))) else None)"
proof (induction i arbitrary: n xs)
  case 0 then show ?case by (auto simp: final_def last_conv_nth)
next
  case (Suc i)
  show ?case
  proof (cases xs rule: rev_cases)
    case (snoc ys x)
    with Suc.prems have "nodes h (fst x) = Some \<lparr>lprev = final None ys, lnext = n, lvalue = snd x\<rparr>"
      "chain (nodes h) None ys (Some (fst x))"
      by (cases x; simp add: chain_append)+
    with Suc.IH snoc show ?thesis by (auto simp: nth_append)
  qed simp
qed

text \<open>The position an index stands for in a list of length \<open>n\<close>.\<close>

definition position :: "int \<Rightarrow> nat \<Rightarrow> nat option" where
  "position i n =
     (if 0 \<le> i then if nat i < n then Some (nat i) else None
      else if nat (- i) \<le> n then Some (n - nat (- i)) else None)"

lemma position_less: "position i n = Some k \<Longrightarrow> k < n"
  by (auto simp: position_def split: if_splits)

lemma index_held:
  assumes "held h0 h l xs"
  shows "listIndex l i h = Inr (map_option (\<lambda>k. fst (xs ! k)) (position i (length xs)))"
proof (cases "i < 0")
  case True
  have "listIndex l i h = walk lprev (nat (- i - 1)) (final None xs) h"
    using True heldD(5) [OF assms] by (simp add: listIndex_def)
  also have "\<dots> = Inr (if nat (- i - 1) < length xs then Some (fst (xs ! (length xs - Suc (nat (- i - 1))))) else None)"
    by (rule walk_prev [OF heldD(1) [OF assms]])
  also have "Suc (nat (- i - 1)) = nat (- i)" using True by simp
  finally show ?thesis using True by (auto simp: position_def)
next
  case False
  then show ?thesis
    using heldD(4) [OF assms] walk_next [OF heldD(1) [OF assms], of "nat i"]
    by (auto simp: listIndex_def position_def)
qed

text \<open>Releasing a list frees its nodes and calls the callback once on each value.\<close>

lemma release_chain:
  "chain (nodes h) p xs None \<Longrightarrow> distinct (map fst xs) \<Longrightarrow>
   \<exists>h'. release_loop l (length xs) (first xs None) h = Inr (concat (map (free_call l) (vals xs)), h') \<and>
     (\<forall>a. nodes h' a = (if a \<in> addrs xs then None else nodes h a)) \<and> brk h' = brk h"
proof (induction xs arbitrary: h p)
  case (Cons x xs)
  obtain a v where x: "x = (a, v)" by fastforce
  let ?h = "h\<lparr>nodes := (nodes h)(a := None)\<rparr>"
  have node: "nodes h a = Some \<lparr>lprev = p, lnext = first xs None, lvalue = v\<rparr>" using Cons.prems x by simp
  have ch: "chain (nodes ?h) (Some a) xs None" and d: "distinct (map fst xs)" using Cons.prems x by simp_all
  obtain h' where "release_loop l (length xs) (first xs None) ?h = Inr (concat (map (free_call l) (vals xs)), h')"
    "\<forall>b. nodes h' b = (if b \<in> addrs xs then None else nodes ?h b)" "brk h' = brk ?h"
    using Cons.IH [OF ch d] by blast
  with node x show ?case by (auto simp: free_node_def)
qed simp

lemma release_held:
  assumes "held h0 h l xs"
  obtains h' where "listRelease l h = Inr (concat (map (free_call l) (vals xs)), h')" and "nodes h' = nodes h0"
proof -
  note D = heldD [OF assms]
  obtain h' where h': "release_loop l (length xs) (first xs None) h = Inr (concat (map (free_call l) (vals xs)), h')"
    "\<forall>a. nodes h' a = (if a \<in> addrs xs then None else nodes h a)"
    using release_chain [OF D(1,2)] by blast
  have "nodes h' a = nodes h0 a" for a
    using D(3) h'(2) by (auto simp: since_def)
  with h'(1) D(4,6) show thesis by (intro that [of h']) (auto simp: listRelease_def)
qed

section \<open>Loops over a list\<close>

lemma next_chain:
  assumes "chain (nodes h) p (x # xs) None"
  shows "listNext \<lparr>inext = Some (fst x), idirection = AL_START_HEAD\<rparr> h =
      Inr (Some (fst x), \<lparr>inext = first xs None, idirection = AL_START_HEAD\<rparr>)"
    and "node_at h (Some (fst x)) = Inr \<lparr>lprev = p, lnext = first xs None, lvalue = snd x\<rparr>"
  using assms by (cases x; simp add: listNext_def)+

lemma next_end: "listNext \<lparr>inext = None, idirection = d\<rparr> h = Inr (None, \<lparr>inext = None, idirection = d\<rparr>)"
  by (simp add: listNext_def)

definition matches :: "('v, 'f) adlist \<Rightarrow> 'v \<Rightarrow> 'v \<Rightarrow> bool" where
  "matches l key v = (case lmatch l of Some m \<Rightarrow> m v key | None \<Rightarrow> key = v)"

lemma search_chain:
  "chain (nodes h) p xs None \<Longrightarrow>
   key_loop l key \<lparr>inext = first xs None, idirection = AL_START_HEAD\<rparr> h =
     Some (Inr (map_option fst (List.find (\<lambda>x. matches l key (snd x)) xs)))"
proof (induction xs arbitrary: p)
  case Nil then show ?case by (subst key_loop.simps) (simp add: next_end)
next
  case (Cons x xs)
  have "chain (nodes h) (Some (fst x)) xs None" using Cons.prems by (cases x) simp
  with Cons.IH next_chain [OF Cons.prems] show ?case
    by (subst key_loop.simps) (cases "lmatch l"; simp add: matches_def del: node_at_Some)
qed

lemma search_held:
  "held h0 h l xs \<Longrightarrow>
   listSearchKey l key h = Some (Inr (map_option fst (List.find (\<lambda>x. matches l key (snd x)) xs)))"
  using search_chain heldD(1,4) by (fastforce simp: listSearchKey_def listGetIterator_def)

definition dup_value :: "('v, 'f) adlist \<Rightarrow> 'v \<Rightarrow> 'v option" where
  "dup_value l v = (case ldup l of None \<Rightarrow> Some v | Some f \<Rightarrow> f v)"

lemma dup_chain:
  assumes "chain (nodes h0) p xs None" and "held h0 h copy ys" and "length ys + length xs < 2 ^ 64"
  shows "case those (map (dup_value copy) (vals xs)) of
     None \<Rightarrow> \<exists>calls h'. dup_loop \<lparr>inext = first xs None, idirection = AL_START_HEAD\<rparr> copy h = Some (Inr (None, calls, h')) \<and>
               nodes h' = nodes h0
   | Some ws \<Rightarrow> \<exists>copy' h' zs. dup_loop \<lparr>inext = first xs None, idirection = AL_START_HEAD\<rparr> copy h = Some (Inr (Some copy', [], h')) \<and>
               held h0 h' copy' (ys @ zs) \<and> vals zs = ws \<and> same_cbs copy copy'"
  using assms
proof (induction xs arbitrary: p h copy ys)
  case Nil
  then show ?case by (subst dup_loop.simps) (auto simp: next_end same_cbs_def)
next
  case (Cons x xs)
  have ch: "chain (nodes h) p (x # xs) None"
  proof -
    have "\<forall>a\<in>addrs ys. nodes h0 a = None" and same: "\<forall>a. a \<notin> addrs ys \<longrightarrow> nodes h a = nodes h0 a"
      using heldD(3) [OF Cons.prems(2)] by (auto simp: since_def)
    then have "addrs (x # xs) \<inter> addrs ys = {}" using chain_dom [OF Cons.prems(1)] by blast
    then show ?thesis by (rule chain_elsewhere [OF Cons.prems(1) same])
  qed
  have rest: "chain (nodes h0) (Some (fst x)) xs None" using Cons.prems(1) by (cases x) simp
  note next' = next_chain [OF ch]
  show ?case
  proof (cases "dup_value copy (snd x)")
    case None
    obtain h' where h': "listRelease copy h = Inr (concat (map (free_call copy) (vals ys)), h')" "nodes h' = nodes h0"
      by (rule release_held [OF Cons.prems(2)])
    with None next' show ?thesis
      by (subst dup_loop.simps) (cases "ldup copy"; simp add: dup_value_def del: node_at_Some)
  next
    case (Some w)
    have len: "length ys + 1 < 2 ^ 64" using Cons.prems(3) by simp
    obtain copy1 h1 where 1: "listAddNodeTail copy w h = Inr (copy1, h1)" "held h0 h1 copy1 (ys @ [(brk h, w)])" "same_cbs copy copy1"
      by (rule add_tail_held [OF Cons.prems(2) len])
    have step: "dup_loop \<lparr>inext = first (x # xs) None, idirection = AL_START_HEAD\<rparr> copy h =
        dup_loop \<lparr>inext = first xs None, idirection = AL_START_HEAD\<rparr> copy1 h1"
      using Some next' 1(1) by (subst dup_loop.simps) (cases "ldup copy"; simp add: dup_value_def del: node_at_Some)
    have dv: "dup_value copy1 = dup_value copy" using 1(3) by (simp add: dup_value_def same_cbs_def fun_eq_iff)
    have cbs: "same_cbs copy1 c \<Longrightarrow> same_cbs copy c" for c using 1(3) by (simp add: same_cbs_def)
    show ?thesis
      using Cons.IH [OF rest 1(2)] Cons.prems(3) Some unfolding step dv
      by (auto split: option.splits intro: cbs) (metis list.simps(9) snd_conv cbs)
  qed
qed

section \<open>Any sequence of operations\<close>

text \<open>
  The operations a client performs, nodes being chosen by their index; an index out of range
  leaves the list as it is.
\<close>

datatype 'v list_op = Add_Head 'v | Add_Tail 'v | Insert_At int 'v bool | Del_At int | Rotate

fun run_list_op :: "'v list_op \<Rightarrow> ('v, 'f) adlist \<Rightarrow> 'v node_mem \<Rightarrow>
    (('f \<times> 'v) list \<times> ('v, 'f) adlist \<times> 'v node_mem) result" where
  "run_list_op (Add_Head v) l h = rbind (listAddNodeHead l v h) (\<lambda>(l, h). Inr ([], l, h))"
| "run_list_op (Add_Tail v) l h = rbind (listAddNodeTail l v h) (\<lambda>(l, h). Inr ([], l, h))"
| "run_list_op (Insert_At i v after) l h =
     rbind (listIndex l i h) (\<lambda>p.
       if p = None then Inr ([], l, h) else rbind (listInsertNode l p v after h) (\<lambda>(l, h). Inr ([], l, h)))"
| "run_list_op (Del_At i) l h =
     rbind (listIndex l i h) (\<lambda>p. if p = None then Inr ([], l, h) else listDelNode l p h)"
| "run_list_op Rotate l h = rbind (listRotate l h) (\<lambda>(l, h). Inr ([], l, h))"

fun run_list_ops :: "'v list_op list \<Rightarrow> ('v, 'f) adlist \<Rightarrow> 'v node_mem \<Rightarrow>
    (('f \<times> 'v) list \<times> ('v, 'f) adlist \<times> 'v node_mem) result" where
  "run_list_ops [] l h = Inr ([], l, h)"
| "run_list_ops (x # xs) l h =
     rbind (run_list_op x l h) (\<lambda>(c1, l, h). rbind (run_list_ops xs l h) (\<lambda>(c2, l, h). Inr (c1 @ c2, l, h)))"

text \<open>The same on lists: the values that are deleted, and the list.\<close>

fun list_spec :: "'v list_op \<Rightarrow> 'v list \<Rightarrow> 'v list \<times> 'v list" where
  "list_spec (Add_Head v) vs = ([], v # vs)"
| "list_spec (Add_Tail v) vs = ([], vs @ [v])"
| "list_spec (Insert_At i v after) vs =
     (case position i (length vs) of
        None \<Rightarrow> ([], vs)
      | Some k \<Rightarrow> if after then ([], take (k + 1) vs @ v # drop (k + 1) vs) else ([], take k vs @ v # drop k vs))"
| "list_spec (Del_At i) vs =
     (case position i (length vs) of None \<Rightarrow> ([], vs) | Some k \<Rightarrow> ([vs ! k], take k vs @ drop (k + 1) vs))"
| "list_spec Rotate vs = ([], if vs = [] then [] else last vs # butlast vs)"

fun list_specs :: "'v list_op list \<Rightarrow> 'v list \<Rightarrow> 'v list \<times> 'v list" where
  "list_specs [] vs = ([], vs)"
| "list_specs (x # xs) vs =
     (case list_spec x vs of (d1, vs) \<Rightarrow> (case list_specs xs vs of (d2, vs) \<Rightarrow> (d1 @ d2, vs)))"

lemma list_spec_length: "length (snd (list_spec x vs)) \<le> length vs + 1"
  by (cases x) (auto split: option.splits dest: position_less)

lemma split_at: "k < length xs \<Longrightarrow> xs = take k xs @ (fst (xs ! k), snd (xs ! k)) # drop (k + 1) xs"
  by (simp add: id_take_nth_drop)

lemma run_list_op_held:
  assumes held: "held h0 h l xs" and len: "length xs + 1 < 2 ^ 64"
  obtains l' h' xs' where "run_list_op x l h = Inr (concat (map (free_call l) (fst (list_spec x (vals xs)))), l', h')"
    and "held h0 h' l' xs'" and "vals xs' = snd (list_spec x (vals xs))" and "same_cbs l l'"
proof (cases x)
  case (Add_Head v)
  obtain l' h' where "listAddNodeHead l v h = Inr (l', h')" "held h0 h' l' ((brk h, v) # xs)" "same_cbs l l'"
    by (rule add_head_held [OF held len])
  with Add_Head show thesis by (intro that [of l' h']) auto
next
  case (Add_Tail v)
  obtain l' h' where "listAddNodeTail l v h = Inr (l', h')" "held h0 h' l' (xs @ [(brk h, v)])" "same_cbs l l'"
    by (rule add_tail_held [OF held len])
  with Add_Tail show thesis by (intro that [of l' h']) auto
next
  case (Insert_At i v after)
  show thesis
  proof (cases "position i (length xs)")
    case None
    with Insert_At held index_held [OF held, of i] show thesis
      by (intro that [of l h xs]) (auto simp: same_cbs_def)
  next
    case (Some k)
    let ?a = "fst (xs ! k)" and ?w = "snd (xs ! k)" and ?ys = "take k xs" and ?zs = "drop (k + 1) xs"
    have k: "k < length xs" using position_less [OF Some] .
    have split: "xs = ?ys @ (?a, ?w) # ?zs" using split_at [OF k] .
    have held': "held h0 h l (?ys @ (?a, ?w) # ?zs)" and len': "length (?ys @ (?a, ?w) # ?zs) + 1 < 2 ^ 64"
      using held len split by simp_all
    obtain l' h' where i: "listInsertNode l (Some ?a) v after h = Inr (l', h')"
      "held h0 h' l' (if after then ?ys @ (?a, ?w) # (brk h, v) # ?zs else ?ys @ (brk h, v) # (?a, ?w) # ?zs)" "same_cbs l l'"
      by (rule insert_held [OF held' len'])
    have eq: "(if after then ?ys @ (?a, ?w) # (brk h, v) # ?zs else ?ys @ (brk h, v) # (?a, ?w) # ?zs) =
      (if after then take (k + 1) xs @ (brk h, v) # ?zs else ?ys @ (brk h, v) # drop k xs)"
      using k by (simp add: take_Suc_conv_app_nth Cons_nth_drop_Suc)
    show thesis
      using i(2) index_held [OF held, of i] Some Insert_At i(1,3) unfolding eq
      by (intro that [of l' h']) (auto simp: take_map drop_map)
  qed
next
  case (Del_At i)
  show thesis
  proof (cases "position i (length xs)")
    case None
    with Del_At held index_held [OF held, of i] show thesis
      by (intro that [of l h xs]) (auto simp: same_cbs_def)
  next
    case (Some k)
    let ?a = "fst (xs ! k)" and ?w = "snd (xs ! k)" and ?ys = "take k xs" and ?zs = "drop (k + 1) xs"
    have k: "k < length xs" using position_less [OF Some] .
    have split: "xs = ?ys @ (?a, ?w) # ?zs" using split_at [OF k] .
    have held': "held h0 h l (?ys @ (?a, ?w) # ?zs)" and len': "length (?ys @ (?a, ?w) # ?zs) < 2 ^ 64"
      using held len split by simp_all
    obtain l' h' where "listDelNode l (Some ?a) h = Inr (free_call l ?w, l', h')" "held h0 h' l' (?ys @ ?zs)" "same_cbs l l'"
      by (rule del_held [OF held' len'])
    with Del_At index_held [OF held, of i] Some k show thesis
      by (intro that [of l' h']) (auto simp: take_map drop_map)
  qed
next
  case Rotate
  show thesis
  proof (cases "length xs \<le> 1")
    case True
    then have "listRotate l h = Inr (l, h)" using heldD(6) [OF held] by (simp add: listRotate_def Let_def)
    with Rotate held True show thesis
      by (intro that [of l h xs]) (cases xs; auto simp: same_cbs_def)+
  next
    case False
    then obtain ys a v where xs: "xs = ys @ [(a, v)]" "ys \<noteq> []"
      by (cases xs rule: rev_cases) auto
    obtain l' h' where "listRotate l h = Inr (l', h')" "held h0 h' l' ((a, v) # ys)" "same_cbs l l'"
      by (rule rotate_held [OF held [unfolded xs(1)] xs(2)])
    with Rotate xs show thesis by (intro that [of l' h']) auto
  qed
qed

lemma run_list_ops_held:
  "held h0 h l xs \<Longrightarrow> length xs + length ops < 2 ^ 64 \<Longrightarrow>
   \<exists>l' h' xs'. run_list_ops ops l h = Inr (concat (map (free_call l) (fst (list_specs ops (vals xs)))), l', h') \<and>
     held h0 h' l' xs' \<and> vals xs' = snd (list_specs ops (vals xs)) \<and> same_cbs l l'"
proof (induction ops arbitrary: h l xs)
  case Nil
  then show ?case by (auto simp: same_cbs_def)
next
  case (Cons x ops)
  have len: "length xs + 1 < 2 ^ 64" using Cons.prems(2) by simp
  obtain l1 h1 xs1 where 1: "run_list_op x l h = Inr (concat (map (free_call l) (fst (list_spec x (vals xs)))), l1, h1)"
    "held h0 h1 l1 xs1" "vals xs1 = snd (list_spec x (vals xs))" "same_cbs l l1"
    by (rule run_list_op_held [OF Cons.prems(1) len])
  have "length xs1 \<le> length xs + 1" using list_spec_length [of x "vals xs"] 1(3) by (metis length_map)
  then have "length xs1 + length ops < 2 ^ 64" using Cons.prems(2) by simp
  from Cons.IH [OF 1(2) this] obtain l' h' xs' where
    2: "run_list_ops ops l1 h1 = Inr (concat (map (free_call l1) (fst (list_specs ops (vals xs1)))), l', h')"
    "held h0 h' l' xs'" "vals xs' = snd (list_specs ops (vals xs1))" "same_cbs l1 l'" by blast
  have "free_call l1 = free_call l" "same_cbs l l'" using 1(4) 2(4) by (auto simp: same_cbs_def free_call_def)
  with 1 2 show ?case by (auto split: prod.splits)
qed

text \<open>
  C11 (refinement). The linked list is a list. After any sequence of insertions at the head, at the tail and beside the node
  of an index, deletions by index and rotations on a new list, every pointer followed was that of a live node; the values
  are those the same operations on a list of values leave, and \<^verbatim>\<open>len\<close> counts them; \<^verbatim>\<open>listIndex\<close> finds
  each of them, from the head and, with negative indices, from the tail; \<^verbatim>\<open>listSearchKey\<close> ends and finds the first match; the callback has run exactly on the
  deleted values; and \<^verbatim>\<open>listRelease\<close> runs it on the others, in order, and leaves the memory as it was before the
  list was created.
\<close>

theorem adlist_refines_list:
  fixes f :: 'f and ops :: "'v list_op list"
  assumes "\<forall>a\<ge>brk h0. nodes h0 a = None" and "length ops < 2 ^ 64"
  shows "\<exists>dels vs l h h'. list_specs ops [] = (dels, vs) \<and>
    run_list_ops ops (listCreate\<lparr>lfree := Some f\<rparr>) h0 = Inr (map (Pair f) dels, l, h) \<and> llen l = length vs \<and>
    (\<forall>i. case position i (length vs) of
           None \<Rightarrow> listIndex l i h = Inr None
         | Some k \<Rightarrow> \<exists>p n. listIndex l i h = Inr p \<and> node_at h p = Inr n \<and> lvalue n = vs ! k) \<and>
    (\<forall>key. \<exists>p. listSearchKey l key h = Some (Inr p) \<and> (p = None \<longleftrightarrow> key \<notin> set vs)) \<and>
    listRelease l h = Inr (map (Pair f) vs, h') \<and> nodes h' = nodes h0"
proof -
  let ?l0 = "listCreate\<lparr>lfree := Some f\<rparr> :: ('v, 'f) adlist"
  have "held h0 h0 (listCreate\<lparr>ldup := None, lfree := Some f, lmatch := None\<rparr>) []"
    by (rule held_create [OF assms(1)])
  then have start: "held h0 h0 ?l0 []" by (simp add: listCreate_def)
  obtain dels vs where spec: "list_specs ops [] = (dels, vs)" by fastforce
  obtain l h xs where run: "run_list_ops ops ?l0 h0 = Inr (concat (map (free_call ?l0) dels), l, h)"
    and held: "held h0 h l xs" "vals xs = vs" "same_cbs ?l0 l"
    using run_list_ops_held [OF start, of ops] assms(2) spec by auto
  have calls: "concat (map (free_call ?l0) ds) = map (Pair f) ds" "concat (map (free_call l) ds) = map (Pair f) ds" for ds
    using held(3) by (induction ds) (auto simp: free_call_def same_cbs_def listCreate_def)
  obtain h' where rel: "listRelease l h = Inr (concat (map (free_call l) vs), h')" "nodes h' = nodes h0"
    using release_held [OF held(1)] held(2) by metis
  have index: "case position i (length vs) of
      None \<Rightarrow> listIndex l i h = Inr None
    | Some k \<Rightarrow> \<exists>p n. listIndex l i h = Inr p \<and> node_at h p = Inr n \<and> lvalue n = vs ! k" for i
  proof (cases "position i (length vs)")
    case None
    with index_held [OF held(1), of i] held(2) show ?thesis by auto
  next
    case (Some k)
    have len: "length xs = length vs" using held(2) by auto
    have k: "k < length xs" using position_less [OF Some] len by simp
    have ch: "chain (nodes h) None (take k xs @ (fst (xs ! k), snd (xs ! k)) # drop (k + 1) xs) None"
      by (subst split_at [OF k, symmetric]) (rule heldD(1) [OF held(1)])
    have node: "nodes h (fst (xs ! k)) = Some \<lparr>lprev = final None (take k xs), lnext = first (drop (k + 1) xs) None, lvalue = snd (xs ! k)\<rparr>"
      by (rule node_in_chain [OF ch])
    have "listIndex l i h = Inr (Some (fst (xs ! k)))"
      using index_held [OF held(1), of i] Some len by simp
    moreover have "snd (xs ! k) = vs ! k" using held(2) k by auto
    ultimately show ?thesis using Some node by simp
  qed
  have match: "lmatch l = None" using held(3) by (simp add: same_cbs_def listCreate_def)
  have search: "\<exists>p. listSearchKey l key h = Some (Inr p) \<and> (p = None \<longleftrightarrow> key \<notin> set vs)" for key
    using search_held [OF held(1), of key] match held(2) by (force simp: find_None_iff matches_def)
  show ?thesis
    using spec run rel index search calls heldD(6) [OF held(1)] held(2)
    by (intro exI [of _ dels] exI [of _ vs] exI [of _ l] exI [of _ h] exI [of _ h']) auto
qed

definition sample_list_ops :: "nat list_op list" where
  "sample_list_ops = [Add_Tail 1, Add_Tail 2, Add_Head 3, Insert_At (- 1) 4 False, Del_At 1, Rotate]"

theorem adlist_refines_list_witness:
  "\<exists>(l :: (nat, unit) adlist) h h'.
     run_list_ops sample_list_ops (listCreate\<lparr>lfree := Some ()\<rparr>) \<lparr>nodes = (\<lambda>_. None), brk = 0\<rparr> = Inr ([((), 1)], l, h) \<and>
     llen l = 3 \<and> listRelease l h = Inr ([((), 2), ((), 3), ((), 4)], h') \<and> nodes h' = (\<lambda>_. None)"
proof -
  have spec: "list_specs sample_list_ops [] = ([1], [2, 3, 4])" by code_simp
  have len: "length sample_list_ops < 2 ^ 64" by (simp add: sample_list_ops_def)
  have empty: "\<forall>a\<ge>brk \<lparr>nodes = (\<lambda>_. None), brk = 0\<rparr>. nodes (\<lparr>nodes = (\<lambda>_. None), brk = 0\<rparr> :: nat node_mem) a = None"
    by simp
  from adlist_refines_list [OF empty len, of "()"] show ?thesis
    unfolding spec by auto
qed

end
