(* ===== verification/Bgtask.thy ===== *)
theory Bgtask
  imports Adlist
begin

text \<open>
  The background tasks of \<^verbatim>\<open>rr_bgtask.c\<close>: a thread that takes tasks from a linked list, and the main thread that
  appends to it, with a mutex and a condition variable.

  Each thread is a program counter and a step function, one step for each
  stretch of code between two calls of the thread library; the steps of the two threads interleave freely. The mutex is a field that
  names its holder; a thread that waits for the mutex, or on the condition, has no step until it may go
  on. The wait on the condition may also end without a signal, as POSIX allows. The list and its nodes are those of
  \<open>Adlist\<close>, the task structures live in a memory of their own, and what is done with the argument of a task, \<^verbatim>\<open>decrRefCount\<close>, is recorded: its
  effect on the objects is the subject of \<open>Robj\<close> and \<open>Db\<close>.

  The theorem: no step of either thread touches freed memory; the tasks are carried out
  once each in the order in which they were added; and no wake-up is lost: when the
  thread sleeps and the main thread is elsewhere, all tasks have been carried out.
\<close>

section \<open>The model\<close>

definition TASK_LAZY_FREE :: int where "TASK_LAZY_FREE = 0"
definition TASK_NTYPES :: int where "TASK_NTYPES = 1"
definition SUBTYPE_FREE_OBJ :: int where "SUBTYPE_FREE_OBJ = 0"
definition THREAD_STACK_SIZE :: nat where "THREAD_STACK_SIZE = 4 * 1024 * 1024"

record 'o task =
  sub_type :: int
  targ :: 'o

datatype thread = Worker | Main

text \<open>
  Where the thread of \<^verbatim>\<open>thread_handler\<close> stands: before it locks for the first time; at the head of its loop; in
  \<^verbatim>\<open>pthread_cond_wait\<close>, signalled or not; with the task of the first node, the mutex unlocked; before it locks again, the task being
  done; before it deletes the node.
\<close>

datatype worker_pc = W_Start | W_Loop | W_Wait bool | W_Task "nat option" nat | W_Lock "nat option" | W_Del "nat option"

text \<open>Where the main thread stands in \<^verbatim>\<open>rr_bgt_add_task\<close>.\<close>

datatype main_pc = M_Idle | M_Lock nat | M_Add nat | M_Signal | M_Unlock

record 'o bg_state =
  tasks :: "(nat, unit) adlist"
  tnodes :: "nat node_mem"
  tmem :: "nat \<rightharpoonup> 'o task"
  tbrk :: nat
  locked :: "thread option"
  wpc :: worker_pc
  mpc :: main_pc
  carried :: "'o task list"
  added :: "'o task list"

text \<open>\<^verbatim>\<open>if (!stacksize) stacksize = 1; while (stacksize < THREAD_STACK_SIZE) stacksize *= 2;\<close>\<close>

function stack_size :: "nat \<Rightarrow> nat" where
  "stack_size n = (if n = 0 then stack_size 1 else if n < THREAD_STACK_SIZE then stack_size (2 * n) else n)"
  by pat_completeness auto
termination
  by (relation "measure (\<lambda>n. if n = 0 then THREAD_STACK_SIZE + 1 else THREAD_STACK_SIZE - n)") (auto simp: THREAD_STACK_SIZE_def)

definition rr_bgt_init :: "'o bg_state" where
  "rr_bgt_init =
     \<lparr>tasks = listCreate, tnodes = \<lparr>nodes = (\<lambda>_. None), brk = 0\<rparr>, tmem = (\<lambda>_. None), tbrk = 0, locked = None,
      wpc = W_Start, mpc = M_Idle, carried = [], added = []\<rparr>"

text \<open>The task is \<^verbatim>\<open>decrRefCount(task->arg)\<close> for \<^verbatim>\<open>SUBTYPE_FREE_OBJ\<close>, a warning in the log otherwise.\<close>

definition process_task :: "'o bg_state \<Rightarrow> nat \<Rightarrow> 'o bg_state result" where
  "process_task s t =
     (case tmem s t of
        None \<Rightarrow> Inl UseAfterFree
      | Some k \<Rightarrow>
          Inr (s\<lparr>carried := (if sub_type k = SUBTYPE_FREE_OBJ then carried s @ [k] else carried s), tmem := (tmem s)(t := None)\<rparr>))"

text \<open>A step of \<^verbatim>\<open>thread_handler\<close>; \<open>None\<close> when it has to wait.\<close>

definition thread_handler :: "'o bg_state \<Rightarrow> 'o bg_state result option" where
  "thread_handler s =
     (case wpc s of
        W_Start \<Rightarrow> if locked s = None then Some (Inr (s\<lparr>locked := Some Worker, wpc := W_Loop\<rparr>)) else None
      | W_Loop \<Rightarrow>
          if llen (tasks s) = 0 then Some (Inr (s\<lparr>locked := None, wpc := W_Wait False\<rparr>))
          else Some (rbind (node_at (tnodes s) (lhead (tasks s))) (\<lambda>n.
                 Inr (s\<lparr>locked := None, wpc := W_Task (lhead (tasks s)) (lvalue n)\<rparr>)))
      | W_Wait signalled \<Rightarrow>
          if signalled \<and> locked s = None then Some (Inr (s\<lparr>locked := Some Worker, wpc := W_Loop\<rparr>)) else None
      | W_Task ln t \<Rightarrow> Some (rbind (process_task s t) (\<lambda>s. Inr (s\<lparr>wpc := W_Lock ln\<rparr>)))
      | W_Lock ln \<Rightarrow> if locked s = None then Some (Inr (s\<lparr>locked := Some Worker, wpc := W_Del ln\<rparr>)) else None
      | W_Del ln \<Rightarrow>
          Some (rbind (listDelNode (tasks s) ln (tnodes s)) (\<lambda>(_, l, h).
            Inr (s\<lparr>tasks := l, tnodes := h, wpc := W_Loop\<rparr>))))"

text \<open>The end of a wait without a signal.\<close>

definition spurious_wakeup :: "'o bg_state \<Rightarrow> 'o bg_state" where
  "spurious_wakeup s = (case wpc s of W_Wait _ \<Rightarrow> s\<lparr>wpc := W_Wait True\<rparr> | _ \<Rightarrow> s)"

text \<open>A step of \<^verbatim>\<open>rr_bgt_add_task\<close>; the arguments count at its first step.\<close>

definition rr_bgt_add_task :: "int \<Rightarrow> int \<Rightarrow> 'o \<Rightarrow> 'o bg_state \<Rightarrow> 'o bg_state result option" where
  "rr_bgt_add_task type sub ud s =
     (case mpc s of
        M_Idle \<Rightarrow>
          if \<not> type < TASK_NTYPES then Some (Inl AssertFail)
          else if type < 0 then Some (Inl OutOfBounds)
          else Some (Inr (s\<lparr>tmem := (tmem s)(tbrk s \<mapsto> \<lparr>sub_type = sub, targ = ud\<rparr>), tbrk := tbrk s + 1, mpc := M_Lock (tbrk s)\<rparr>))
      | M_Lock t \<Rightarrow> if locked s = None then Some (Inr (s\<lparr>locked := Some Main, mpc := M_Add t\<rparr>)) else None
      | M_Add t \<Rightarrow>
          Some (rbind (listAddNodeTail (tasks s) t (tnodes s)) (\<lambda>(l, h).
            Inr (s\<lparr>tasks := l, tnodes := h, mpc := M_Signal, added := added s @ [the (tmem s t)]\<rparr>)))
      | M_Signal \<Rightarrow>
          Some (Inr (s\<lparr>wpc := (case wpc s of W_Wait _ \<Rightarrow> W_Wait True | w \<Rightarrow> w), mpc := M_Unlock\<rparr>))
      | M_Unlock \<Rightarrow> Some (Inr (s\<lparr>locked := None, mpc := M_Idle\<rparr>)))"

text \<open>The states the two threads can reach; the server only adds tasks that free an object.\<close>

inductive bg_step :: "'o bg_state \<Rightarrow> 'o bg_state result \<Rightarrow> bool" where
  worker: "thread_handler s = Some r \<Longrightarrow> bg_step s r"
| woken: "bg_step s (Inr (spurious_wakeup s))"
| adding: "rr_bgt_add_task TASK_LAZY_FREE SUBTYPE_FREE_OBJ ud s = Some r \<Longrightarrow> bg_step s r"

inductive bg_reach :: "'o bg_state \<Rightarrow> bool" where
  start: "bg_reach rr_bgt_init"
| step: "bg_reach s \<Longrightarrow> bg_step s (Inr s') \<Longrightarrow> bg_reach s'"

section \<open>The invariant\<close>

text \<open>The tasks that are still to be carried out: those of the list but for the first one once it is done.\<close>

definition todo :: "worker_pc \<Rightarrow> (nat \<times> nat) list \<Rightarrow> nat list" where
  "todo w xs = map snd (case w of W_Lock _ \<Rightarrow> tl xs | W_Del _ \<Rightarrow> tl xs | _ \<Rightarrow> xs)"

definition worker_at :: "worker_pc \<Rightarrow> (nat \<times> nat) list \<Rightarrow> bool" where
  "worker_at w xs =
     (case w of
        W_Task ln t \<Rightarrow> xs \<noteq> [] \<and> ln = Some (fst (hd xs)) \<and> t = snd (hd xs)
      | W_Lock ln \<Rightarrow> xs \<noteq> [] \<and> ln = Some (fst (hd xs))
      | W_Del ln \<Rightarrow> xs \<noteq> [] \<and> ln = Some (fst (hd xs))
      | _ \<Rightarrow> True)"

text \<open>Who holds the mutex, and that no task is left while the thread sleeps unsignalled.\<close>

definition locks_ok :: "'o bg_state \<Rightarrow> bool" where
  "locks_ok s \<longleftrightarrow>
     (locked s = Some Worker \<longleftrightarrow> wpc s = W_Loop \<or> (\<exists>ln. wpc s = W_Del ln)) \<and>
     (locked s = Some Main \<longleftrightarrow> (\<exists>t. mpc s = M_Add t) \<or> mpc s = M_Signal \<or> mpc s = M_Unlock)"

definition new_task :: "main_pc \<Rightarrow> nat list" where
  "new_task m = (case m of M_Lock t \<Rightarrow> [t] | M_Add t \<Rightarrow> [t] | _ \<Rightarrow> [])"

definition bg_ok :: "'o bg_state \<Rightarrow> bool" where
  "bg_ok s \<longleftrightarrow> locks_ok s \<and>
     (\<exists>xs. held \<lparr>nodes = (\<lambda>_. None), brk = 0\<rparr> (tnodes s) (tasks s) xs \<and> worker_at (wpc s) xs \<and>
        length xs \<le> length (added s) \<and>
        distinct (todo (wpc s) xs @ new_task (mpc s)) \<and> (\<forall>t\<in>set (todo (wpc s) xs @ new_task (mpc s)). t < tbrk s \<and> (\<exists>k. tmem s t = Some k \<and> sub_type k = SUBTYPE_FREE_OBJ)) \<and>
        added s = carried s @ map (\<lambda>t. the (tmem s t)) (todo (wpc s) xs) \<and>
        (wpc s = W_Wait False \<and> mpc s \<noteq> M_Signal \<longrightarrow> xs = []))"

declare stack_size.simps [simp del]

text \<open>The stack of the thread has at least the size asked for.\<close>

lemma stack_size_enough: "THREAD_STACK_SIZE \<le> stack_size n"
  by (induction n rule: stack_size.induct) (subst stack_size.simps, simp)

abbreviation no_nodes :: "nat node_mem" where "no_nodes \<equiv> \<lparr>nodes = (\<lambda>_. None), brk = 0\<rparr>"

lemma bg_okI:
  "locks_ok s \<Longrightarrow> held no_nodes (tnodes s) (tasks s) xs \<Longrightarrow> worker_at (wpc s) xs \<Longrightarrow> length xs \<le> length (added s) \<Longrightarrow>
   distinct (todo (wpc s) xs @ new_task (mpc s)) \<Longrightarrow>
   \<forall>t\<in>set (todo (wpc s) xs @ new_task (mpc s)). t < tbrk s \<and> (\<exists>k. tmem s t = Some k \<and> sub_type k = SUBTYPE_FREE_OBJ) \<Longrightarrow>
   added s = carried s @ map (\<lambda>t. the (tmem s t)) (todo (wpc s) xs) \<Longrightarrow>
   (wpc s = W_Wait False \<and> mpc s \<noteq> M_Signal \<longrightarrow> xs = []) \<Longrightarrow> bg_ok s"
  unfolding bg_ok_def by blast

lemma bg_okD:
  assumes "bg_ok s"
  obtains xs where "locks_ok s" and "held no_nodes (tnodes s) (tasks s) xs" and "worker_at (wpc s) xs"
    and "length xs \<le> length (added s)" and "distinct (todo (wpc s) xs @ new_task (mpc s))"
    and "\<forall>t\<in>set (todo (wpc s) xs @ new_task (mpc s)). t < tbrk s \<and> (\<exists>k. tmem s t = Some k \<and> sub_type k = SUBTYPE_FREE_OBJ)"
    and "added s = carried s @ map (\<lambda>t. the (tmem s t)) (todo (wpc s) xs)"
    and "wpc s = W_Wait False \<and> mpc s \<noteq> M_Signal \<longrightarrow> xs = []"
  using assms unfolding bg_ok_def by blast

lemma bg_init_ok: "bg_ok rr_bgt_init"
proof (rule bg_okI [where xs = "[]"])
  show "held no_nodes (tnodes rr_bgt_init) (tasks rr_bgt_init) []"
    using held_create [of no_nodes None None None] by (simp add: rr_bgt_init_def listCreate_def)
qed (auto simp: rr_bgt_init_def locks_ok_def worker_at_def todo_def new_task_def)

lemma process_task_keeps:
  fixes s :: "'o bg_state"
  assumes ok: "bg_ok s" and pc: "wpc s = W_Task ln t"
  shows "\<exists>s'. process_task s t = Inr s' \<and> bg_ok (s'\<lparr>wpc := W_Lock ln\<rparr>)"
proof -
  obtain xs where x: "locks_ok s" "held no_nodes (tnodes s) (tasks s) xs" "worker_at (wpc s) xs"
    "length xs \<le> length (added s)" "distinct (todo (wpc s) xs @ new_task (mpc s))"
    "\<forall>t\<in>set (todo (wpc s) xs @ new_task (mpc s)). t < tbrk s \<and> (\<exists>k. tmem s t = Some k \<and> sub_type k = SUBTYPE_FREE_OBJ)"
    "added s = carried s @ map (\<lambda>t. the (tmem s t)) (todo (wpc s) xs)"
    "wpc s = W_Wait False \<and> mpc s \<noteq> M_Signal \<longrightarrow> xs = []"
    by (rule bg_okD [OF ok])
  obtain a ys where xs: "xs = (a, t) # ys" "ln = Some a"
    using x(3) pc by (cases xs) (auto simp: worker_at_def)
  obtain k where k: "tmem s t = Some k" "sub_type k = SUBTYPE_FREE_OBJ"
    using x(6) pc xs by (auto simp: todo_def)
  let ?s = "s\<lparr>carried := carried s @ [k], tmem := (tmem s)(t := None)\<rparr>"
  have fresh: "t \<notin> set (map snd ys @ new_task (mpc s))"
    using x(5) pc xs by (auto simp: todo_def)
  have "bg_ok (?s\<lparr>wpc := W_Lock ln\<rparr>)"
  proof (rule bg_okI [where xs = xs])
    show "locks_ok (?s\<lparr>wpc := W_Lock ln\<rparr>)" using x(1) pc by (auto simp: locks_ok_def)
    show "\<forall>t\<in>set (todo (wpc (?s\<lparr>wpc := W_Lock ln\<rparr>)) xs @ new_task (mpc (?s\<lparr>wpc := W_Lock ln\<rparr>))).
        t < tbrk (?s\<lparr>wpc := W_Lock ln\<rparr>) \<and> (\<exists>k. tmem (?s\<lparr>wpc := W_Lock ln\<rparr>) t = Some k \<and> sub_type k = SUBTYPE_FREE_OBJ)"
      using x(6) pc xs fresh by (auto simp: todo_def)
    show "added (?s\<lparr>wpc := W_Lock ln\<rparr>) = carried (?s\<lparr>wpc := W_Lock ln\<rparr>) @
        map (\<lambda>t. the (tmem (?s\<lparr>wpc := W_Lock ln\<rparr>) t)) (todo (wpc (?s\<lparr>wpc := W_Lock ln\<rparr>)) xs)"
      using x(7) pc xs k fresh by (auto simp: todo_def)
  qed (use x pc xs in \<open>auto simp: worker_at_def todo_def\<close>)
  with k show ?thesis by (simp add: process_task_def)
qed

lemma worker_keeps:
  fixes s :: "'o bg_state"
  assumes ok: "bg_ok s" and len: "length (added s) + 1 < 2 ^ 64" and step: "thread_handler s = Some r"
  shows "\<exists>s'. r = Inr s' \<and> bg_ok s' \<and> added s' = added s"
proof -
  obtain xs where x: "locks_ok s" "held no_nodes (tnodes s) (tasks s) xs" "worker_at (wpc s) xs"
    "length xs \<le> length (added s)" "distinct (todo (wpc s) xs @ new_task (mpc s))"
    "\<forall>t\<in>set (todo (wpc s) xs @ new_task (mpc s)). t < tbrk s \<and> (\<exists>k. tmem s t = Some k \<and> sub_type k = SUBTYPE_FREE_OBJ)"
    "added s = carried s @ map (\<lambda>t. the (tmem s t)) (todo (wpc s) xs)"
    "wpc s = W_Wait False \<and> mpc s \<noteq> M_Signal \<longrightarrow> xs = []"
    by (rule bg_okD [OF ok])
  note D = heldD [OF x(2)]
  show ?thesis
  proof (cases "wpc s")
    case W_Start
    then have r: "r = Inr (s\<lparr>locked := Some Worker, wpc := W_Loop\<rparr>)" "locked s = None"
      using step by (auto simp: thread_handler_def split: if_splits)
    have "bg_ok (s\<lparr>locked := Some Worker, wpc := W_Loop\<rparr>)"
      by (rule bg_okI [where xs = xs]) (use x W_Start r in \<open>auto simp: locks_ok_def worker_at_def todo_def\<close>)
    with r show ?thesis by simp
  next
    case W_Loop
    show ?thesis
    proof (cases xs)
      case Nil
      then have r: "r = Inr (s\<lparr>locked := None, wpc := W_Wait False\<rparr>)"
        using step W_Loop D(6) by (simp add: thread_handler_def)
      have "bg_ok (s\<lparr>locked := None, wpc := W_Wait False\<rparr>)"
        by (rule bg_okI [where xs = xs]) (use x W_Loop Nil in \<open>auto simp: locks_ok_def worker_at_def todo_def\<close>)
      with r show ?thesis by simp
    next
      case (Cons p ys)
      obtain a t where p: "p = (a, t)" by fastforce
      have "nodes (tnodes s) a = Some \<lparr>lprev = None, lnext = first ys None, lvalue = t\<rparr>" using D(1) Cons p by simp
      then have r: "r = Inr (s\<lparr>locked := None, wpc := W_Task (Some a) t\<rparr>)"
        using step W_Loop D(4,6) Cons p by (simp add: thread_handler_def)
      have "bg_ok (s\<lparr>locked := None, wpc := W_Task (Some a) t\<rparr>)"
        by (rule bg_okI [where xs = xs]) (use x W_Loop Cons p in \<open>auto simp: locks_ok_def worker_at_def todo_def\<close>)
      with r show ?thesis by simp
    qed
  next
    case (W_Wait b)
    then have r: "r = Inr (s\<lparr>locked := Some Worker, wpc := W_Loop\<rparr>)" "locked s = None"
      using step by (auto simp: thread_handler_def split: if_splits)
    have "bg_ok (s\<lparr>locked := Some Worker, wpc := W_Loop\<rparr>)"
      by (rule bg_okI [where xs = xs]) (use x W_Wait r in \<open>auto simp: locks_ok_def worker_at_def todo_def\<close>)
    with r show ?thesis by simp
  next
    case (W_Task ln t)
    obtain s1 where s1: "process_task s t = Inr s1" "bg_ok (s1\<lparr>wpc := W_Lock ln\<rparr>)"
      using process_task_keeps [OF ok W_Task] by blast
    moreover have "added s1 = added s" using s1(1) by (auto simp: process_task_def split: option.splits)
    ultimately show ?thesis using step W_Task by (auto simp: thread_handler_def)
  next
    case (W_Lock ln)
    then have r: "r = Inr (s\<lparr>locked := Some Worker, wpc := W_Del ln\<rparr>)" "locked s = None"
      using step by (auto simp: thread_handler_def split: if_splits)
    have "bg_ok (s\<lparr>locked := Some Worker, wpc := W_Del ln\<rparr>)"
      by (rule bg_okI [where xs = xs]) (use x W_Lock r in \<open>auto simp: locks_ok_def worker_at_def todo_def\<close>)
    with r show ?thesis by simp
  next
    case (W_Del ln)
    obtain a t ys where xs: "xs = [] @ (a, t) # ys" "ln = Some a"
      using x(3) W_Del by (cases xs) (auto simp: worker_at_def)
    have short: "length ([] @ (a, t) # ys) < 2 ^ 64" using len x(4) xs by simp
    obtain l h where l: "listDelNode (tasks s) (Some a) (tnodes s) = Inr (free_call (tasks s) t, l, h)" "held no_nodes h l ([] @ ys)"
      by (rule del_held [OF x(2) [unfolded xs(1)] short])
    have r: "r = Inr (s\<lparr>tasks := l, tnodes := h, wpc := W_Loop\<rparr>)"
      using step W_Del l(1) xs by (simp add: thread_handler_def)
    have "bg_ok (s\<lparr>tasks := l, tnodes := h, wpc := W_Loop\<rparr>)"
      by (rule bg_okI [where xs = ys]) (use x W_Del xs l(2) in \<open>auto simp: locks_ok_def worker_at_def todo_def\<close>)
    with r show ?thesis by simp
  qed
qed

lemma main_keeps:
  fixes s :: "'o bg_state"
  assumes ok: "bg_ok s" and len: "length (added s) + 1 < 2 ^ 64"
    and step: "rr_bgt_add_task TASK_LAZY_FREE SUBTYPE_FREE_OBJ ud s = Some r"
  shows "\<exists>s'. r = Inr s' \<and> bg_ok s' \<and> length (added s) \<le> length (added s')"
proof -
  obtain xs where x: "locks_ok s" "held no_nodes (tnodes s) (tasks s) xs" "worker_at (wpc s) xs"
    "length xs \<le> length (added s)" "distinct (todo (wpc s) xs @ new_task (mpc s))"
    "\<forall>t\<in>set (todo (wpc s) xs @ new_task (mpc s)). t < tbrk s \<and> (\<exists>k. tmem s t = Some k \<and> sub_type k = SUBTYPE_FREE_OBJ)"
    "added s = carried s @ map (\<lambda>t. the (tmem s t)) (todo (wpc s) xs)"
    "wpc s = W_Wait False \<and> mpc s \<noteq> M_Signal \<longrightarrow> xs = []"
    by (rule bg_okD [OF ok])
  show ?thesis
  proof (cases "mpc s")
    case M_Idle
    let ?s = "s\<lparr>tmem := (tmem s)(tbrk s \<mapsto> \<lparr>sub_type = SUBTYPE_FREE_OBJ, targ = ud\<rparr>), tbrk := tbrk s + 1, mpc := M_Lock (tbrk s)\<rparr>"
    have r: "r = Inr ?s"
      using step M_Idle by (simp add: rr_bgt_add_task_def TASK_LAZY_FREE_def TASK_NTYPES_def)
    have old: "t < tbrk s" if "t \<in> set (todo (wpc s) xs)" for t using x(6) that by auto
    have same: "map (\<lambda>t. the (tmem ?s t)) (todo (wpc s) xs) = map (\<lambda>t. the (tmem s t)) (todo (wpc s) xs)"
      using old by (auto simp: map_eq_conv dest!: old)
    have "bg_ok ?s"
    proof (rule bg_okI [where xs = xs])
      show "distinct (todo (wpc ?s) xs @ new_task (mpc ?s))"
        using x(5) M_Idle old by (auto simp: new_task_def)
      show "added ?s = carried ?s @ map (\<lambda>t. the (tmem ?s t)) (todo (wpc ?s) xs)"
        using x(7) same by simp
      show "\<forall>t\<in>set (todo (wpc ?s) xs @ new_task (mpc ?s)). t < tbrk ?s \<and> (\<exists>k. tmem ?s t = Some k \<and> sub_type k = SUBTYPE_FREE_OBJ)"
        using x(6) by (auto simp: new_task_def less_Suc_eq)
    qed (use x M_Idle in \<open>auto simp: locks_ok_def\<close>)
    with r show ?thesis by simp
  next
    case (M_Lock t)
    then have r: "r = Inr (s\<lparr>locked := Some Main, mpc := M_Add t\<rparr>)" "locked s = None"
      using step by (auto simp: rr_bgt_add_task_def split: if_splits)
    have "bg_ok (s\<lparr>locked := Some Main, mpc := M_Add t\<rparr>)"
      by (rule bg_okI [where xs = xs]) (use x M_Lock r in \<open>auto simp: locks_ok_def new_task_def\<close>)
    with r show ?thesis by simp
  next
    case (M_Add t)
    have short: "length xs + 1 < 2 ^ 64" using len x(4) by simp
    obtain l h where l: "listAddNodeTail (tasks s) t (tnodes s) = Inr (l, h)"
      "held no_nodes h l (xs @ [(brk (tnodes s), t)])"
      by (rule add_tail_held [OF x(2) short])
    let ?s = "s\<lparr>tasks := l, tnodes := h, mpc := M_Signal, added := added s @ [the (tmem s t)]\<rparr>"
    let ?xs = "xs @ [(brk (tnodes s), t)]"
    have r: "r = Inr ?s" using step M_Add l(1) by (simp add: rr_bgt_add_task_def)
    have at: "worker_at (wpc s) ?xs" "todo (wpc s) ?xs = todo (wpc s) xs @ [t]"
      using x(3) by (auto simp: worker_at_def todo_def split: worker_pc.splits)
    have "bg_ok ?s"
      by (rule bg_okI [where xs = ?xs]) (use x M_Add l(2) at in \<open>auto simp: locks_ok_def new_task_def\<close>)
    with r show ?thesis by simp
  next
    case M_Signal
    let ?w = "case wpc s of W_Wait _ \<Rightarrow> W_Wait True | w \<Rightarrow> w"
    have r: "r = Inr (s\<lparr>wpc := ?w, mpc := M_Unlock\<rparr>)" using step M_Signal by (simp add: rr_bgt_add_task_def)
    have at: "worker_at ?w xs" "todo ?w xs = todo (wpc s) xs" "?w \<noteq> W_Wait False"
      "?w = W_Loop \<longleftrightarrow> wpc s = W_Loop" "\<And>ln. ?w = W_Del ln \<longleftrightarrow> wpc s = W_Del ln"
      using x(3) by (auto simp: worker_at_def todo_def split: worker_pc.splits)
    have "bg_ok (s\<lparr>wpc := ?w, mpc := M_Unlock\<rparr>)"
    proof (rule bg_okI [where xs = xs])
      show "locks_ok (s\<lparr>wpc := ?w, mpc := M_Unlock\<rparr>)" using x(1) M_Signal by (auto simp: locks_ok_def split: worker_pc.splits)
    qed (use x M_Signal at in \<open>auto simp: new_task_def\<close>)
    with r show ?thesis by simp
  next
    case M_Unlock
    then have r: "r = Inr (s\<lparr>locked := None, mpc := M_Idle\<rparr>)" using step by (simp add: rr_bgt_add_task_def)
    have "bg_ok (s\<lparr>locked := None, mpc := M_Idle\<rparr>)"
      by (rule bg_okI [where xs = xs]) (use x M_Unlock in \<open>auto simp: locks_ok_def new_task_def\<close>)
    with r show ?thesis by simp
  qed
qed

lemma woken_keeps:
  assumes "bg_ok s"
  shows "bg_ok (spurious_wakeup s)" and "added (spurious_wakeup s) = added s"
proof -
  show "bg_ok (spurious_wakeup s)"
    using assms
    by (auto simp: spurious_wakeup_def split: worker_pc.splits elim!: bg_okD intro!: bg_okI simp: locks_ok_def worker_at_def todo_def)
  show "added (spurious_wakeup s) = added s" by (simp add: spurious_wakeup_def split: worker_pc.splits)
qed

lemma bg_step_keeps:
  assumes "bg_ok s" and "length (added s) + 1 < 2 ^ 64" and "bg_step s r"
  shows "\<exists>s'. r = Inr s' \<and> bg_ok s' \<and> length (added s) \<le> length (added s')"
  using assms(3,1,2)
proof cases
  case worker
  with worker_keeps [OF assms(1,2)] show ?thesis by fastforce
next
  case woken
  with woken_keeps [OF assms(1)] show ?thesis by simp
next
  case (adding ud)
  with main_keeps [OF assms(1,2)] show ?thesis by blast
qed

lemma bg_step_added: "bg_step s (Inr s') \<Longrightarrow> length (added s) \<le> length (added s')"
  by (cases rule: bg_step.cases)
    (auto simp: thread_handler_def rr_bgt_add_task_def process_task_def spurious_wakeup_def
      split: worker_pc.splits main_pc.splits if_splits option.splits)

lemma bg_reach_ok: "bg_reach s \<Longrightarrow> length (added s) + 1 < 2 ^ 64 \<Longrightarrow> bg_ok s"
proof (induction rule: bg_reach.induct)
  case start
  then show ?case by (simp add: bg_init_ok)
next
  case (step s s')
  have "length (added s) + 1 < 2 ^ 64" using bg_step_added [OF step.hyps(2)] step.prems by simp
  with step.IH bg_step_keeps [OF _ _ step.hyps(2)] show ?case by auto
qed

text \<open>
  C12 (safety). Background tasks. In every state the two threads can reach, however their steps interleave and however
  often a wait ends without a signal: the next step of either thread does not touch a freed task or a freed node; the tasks carried out are
  the first of those that were added, each once and in order; and no wake-up is lost: when the thread sleeps
  unsignalled and the main thread is not in \<^verbatim>\<open>rr_bgt_add_task\<close>, every task has been carried out.
\<close>

theorem background_tasks_done:
  assumes "bg_reach s" and "length (added s) + 1 < 2 ^ 64"
  shows "(\<forall>r. bg_step s r \<longrightarrow> (\<exists>s'. r = Inr s')) \<and> prefix (carried s) (added s) \<and>
    (wpc s = W_Wait False \<and> mpc s = M_Idle \<longrightarrow> carried s = added s)"
proof -
  have ok: "bg_ok s" by (rule bg_reach_ok [OF assms])
  obtain xs where "added s = carried s @ map (\<lambda>t. the (tmem s t)) (todo (wpc s) xs)"
    "wpc s = W_Wait False \<and> mpc s \<noteq> M_Signal \<longrightarrow> xs = []"
    by (rule bg_okD [OF ok]) blast
  then have "prefix (carried s) (added s)" "wpc s = W_Wait False \<and> mpc s = M_Idle \<longrightarrow> carried s = added s"
    by (auto simp: todo_def)
  with bg_step_keeps [OF ok assms(2)] show ?thesis by blast
qed

text \<open>A schedule, \<open>True\<close> for a step of the thread and \<open>False\<close> for one of the main thread that adds \<open>u\<close>.\<close>

fun bg_run :: "'o \<Rightarrow> bool list \<Rightarrow> 'o bg_state \<Rightarrow> 'o bg_state" where
  "bg_run u [] s = s"
| "bg_run u (b # bs) s =
     (case (if b then thread_handler s else rr_bgt_add_task TASK_LAZY_FREE SUBTYPE_FREE_OBJ u s) of
        Some (Inr s') \<Rightarrow> bg_run u bs s'
      | _ \<Rightarrow> s)"

lemma bg_reach_worker: "thread_handler s = Some (Inr s') \<Longrightarrow> bg_reach s \<Longrightarrow> bg_reach s'"
  by (rule bg_reach.step [OF _ bg_step.worker])

lemma bg_reach_main:
  "rr_bgt_add_task TASK_LAZY_FREE SUBTYPE_FREE_OBJ ud s = Some (Inr s') \<Longrightarrow> bg_reach s \<Longrightarrow> bg_reach s'"
  by (rule bg_reach.step [OF _ bg_step.adding])

lemma bg_run_reach: "bg_reach s \<Longrightarrow> bg_reach (bg_run u bs s)"
proof (induction bs arbitrary: s)
  case (Cons b bs)
  let ?r = "if b then thread_handler s else rr_bgt_add_task TASK_LAZY_FREE SUBTYPE_FREE_OBJ u s"
  have "bg_reach s'" if "?r = Some (Inr s')" for s'
    using that Cons.prems bg_reach_worker bg_reach_main by (cases b) auto
  with Cons show ?case by (cases ?r) (auto split: sum.splits)
qed simp

text \<open>
  The thread falls asleep, an object is added while it sleeps, it wakes up, carries the task out while a second one is added, and then that one.
\<close>

definition schedule :: "bool list" where
  "schedule = [True, True, False, False, False, False, False, True, True, False, False, True, False, False, False,
     True, True, True, True, True, True, True]"

lemma background_tasks_done_witness:
  "let s = bg_run (7::nat) schedule rr_bgt_init in
     bg_reach s \<and> length (added s) = 2 \<and> wpc s = W_Wait False \<and> mpc s = M_Idle \<and> carried s = added s"
proof -
  let ?s = "bg_run (7::nat) schedule rr_bgt_init"
  have r: "bg_reach ?s" by (intro bg_run_reach bg_reach.start)
  have n: "length (added ?s) = 2" "wpc ?s = W_Wait False" "mpc ?s = M_Idle"
    by (simp_all add: schedule_def rr_bgt_init_def thread_handler_def rr_bgt_add_task_def process_task_def listCreate_def
      listAddNodeTail_def listDelNode_def TASK_LAZY_FREE_def TASK_NTYPES_def SUBTYPE_FREE_OBJ_def node_at_def set_next_def
      set_prev_def alloc_node_def free_node_def)
  have "length (added ?s) + 1 < 2 ^ 64" using n(1) by simp
  from background_tasks_done [OF r this] n r show ?thesis by (simp add: Let_def)
qed

end
