(* ===== verification/Ini.thy ===== *)
theory Ini
  imports Util
begin

text \<open>
  The reader of INI files, \<^verbatim>\<open>ini.c\<close>, as the project compiles it (multi-line values, byte order
  marks and inline comments allowed, lines of at most 200 bytes).

  A line is the C string in the buffer; the pointers \<^verbatim>\<open>start\<close>, \<^verbatim>\<open>end\<close>, \<^verbatim>\<open>name\<close> and \<^verbatim>\<open>value\<close> are the strings they point to,
  the only comparison of pointers, \<^verbatim>\<open>start > line\<close>, being kept as the number of bytes skipped. The
  handler is a parameter: from its state, a section, a name and a value it gives whether it accepts them, with its new state,
  and it may fault.

  The theorems: what \<open>render\<close> writes for a list of sections is read back as exactly those
  sections, names and values; and an invariant that every accepted item keeps holds of the
  result of a file that is read without an error.
\<close>

section \<open>The model\<close>

definition INI_MAX_LINE :: nat where "INI_MAX_LINE = 200"
definition MAX_SECTION :: nat where "MAX_SECTION = 50"
definition MAX_NAME :: nat where "MAX_NAME = 50"

text \<open>\<^verbatim>\<open>while (p > s && isspace((unsigned char)(*--p))) *p = '\0';\<close>\<close>

fun rstrip_from :: "string \<Rightarrow> nat \<Rightarrow> string" where
  "rstrip_from s 0 = s"
| "rstrip_from s (Suc p) = (if isspace (s ! p) then rstrip_from (take p s) p else s)"

definition rstrip :: "string \<Rightarrow> string" where
  "rstrip s = rstrip_from s (length s)"

definition lskip :: "string \<Rightarrow> string" where
  "lskip s = dropWhile isspace s"

fun find_from :: "string option \<Rightarrow> bool \<Rightarrow> string \<Rightarrow> string" where
  "find_from chars was_space [] = []"
| "find_from chars was_space (c # s) =
     (if (case chars of None \<Rightarrow> True | Some cs \<Rightarrow> c \<notin> set cs) \<and> \<not> (was_space \<and> c = CHR '';'')
      then find_from chars (isspace c) s else c # s)"

text \<open>The part of \<open>s\<close> from the place found on, and, once that place holds a NUL, the part before it.\<close>

definition find_chars_or_comment :: "string \<Rightarrow> string option \<Rightarrow> string" where
  "find_chars_or_comment s chars = find_from chars False s"

definition cut :: "string \<Rightarrow> string \<Rightarrow> string" where
  "cut s e = take (length s - length e) s"

definition strncpy0 :: "string \<Rightarrow> nat \<Rightarrow> string" where
  "strncpy0 src sz = take (sz - 1) src"

text \<open>\<^verbatim>\<open>fgets\<close>: at most \<open>n - 1\<close> bytes, up to a newline; \<open>None\<close> at the end of the file.\<close>

definition fgets :: "nat \<Rightarrow> string \<Rightarrow> (string \<times> string) option" where
  "fgets n s =
     (if s = [] then None
      else let k = min (n - 1) (length (takeWhile (\<lambda>c. c \<noteq> LF) s) + 1) in Some (take k s, drop k s))"

type_synonym 'u ini_handler = "'u \<Rightarrow> string \<Rightarrow> string \<Rightarrow> string \<Rightarrow> (bool \<times> 'u) result"

record 'u ini_state =
  isection :: string
  prev_name :: string
  lineno :: nat
  ierror :: nat
  user :: 'u

definition set_error :: "'u ini_state \<Rightarrow> 'u ini_state" where
  "set_error st = (if ierror st = 0 then st\<lparr>ierror := lineno st\<rparr> else st)"

definition call_handler :: "'u ini_handler \<Rightarrow> 'u ini_state \<Rightarrow> string \<Rightarrow> string \<Rightarrow> 'u ini_state result" where
  "call_handler handler st nm val =
     rbind (handler (user st) (isection st) nm val) (\<lambda>(ok, u).
       let st = st\<lparr>user := u\<rparr> in Inr (if ok then st else set_error st))"

text \<open>How many bytes the byte order mark takes.\<close>

definition bom :: "nat \<Rightarrow> string \<Rightarrow> nat" where
  "bom n s =
     (if n = 1 \<and> byte (cget s 0) = 0xEF \<and> byte (cget s 1) = 0xBB \<and> byte (cget s 2) = 0xBF then 3 else 0)"

definition ini_line :: "'u ini_handler \<Rightarrow> string \<Rightarrow> 'u ini_state \<Rightarrow> 'u ini_state result" where
  "ini_line handler buf st =
     (let line = cstr buf;
          st = st\<lparr>lineno := lineno st + 1\<rparr>;
          mark = bom (lineno st) line;
          stripped = rstrip (drop mark line);
          start = lskip stripped;
          skipped = mark + (length stripped - length start)
      in if cget start 0 = CHR '';'' \<or> cget start 0 = CHR ''#'' then Inr st
         else if prev_name st \<noteq> [] \<and> start \<noteq> [] \<and> skipped > 0
         then call_handler handler st (prev_name st) start
         else if cget start 0 = CHR ''[''
         then let e = find_chars_or_comment (tl start) (Some '']'') in
              if cget e 0 = CHR '']''
              then Inr (st\<lparr>isection := strncpy0 (cut (tl start) e) MAX_SECTION, prev_name := []\<rparr>)
              else Inr (set_error st)
         else if start \<noteq> []
         then let e = find_chars_or_comment start (Some ''=:'') in
              if cget e 0 = CHR ''='' \<or> cget e 0 = CHR '':''
              then let nm = rstrip (cut start e);
                       val = lskip (tl e);
                       val = rstrip (cut val (find_chars_or_comment val None))
                   in call_handler handler (st\<lparr>prev_name := strncpy0 nm MAX_NAME\<rparr>) nm val
              else Inr (set_error st)
         else Inr st)"

lemma fgets_shorter: "fgets n s = Some (l, r) \<Longrightarrow> 1 < n \<Longrightarrow> length r < length s"
  by (auto simp: fgets_def Let_def split: if_splits)

function ini_lines :: "'u ini_handler \<Rightarrow> string \<Rightarrow> 'u ini_state \<Rightarrow> 'u ini_state result" where
  "ini_lines handler stream st =
     (case fgets INI_MAX_LINE stream of
        None \<Rightarrow> Inr st
      | Some (line, stream) \<Rightarrow> rbind (ini_line handler line st) (\<lambda>st. ini_lines handler stream st))"
  by pat_completeness auto
termination
  by (relation "measure (\<lambda>(handler, stream, st). length stream)") (auto dest: fgets_shorter simp: INI_MAX_LINE_def)

declare ini_lines.simps [simp del]

definition ini_parse_stream :: "'u ini_handler \<Rightarrow> string \<Rightarrow> 'u \<Rightarrow> (int \<times> 'u) result" where
  "ini_parse_stream handler stream u =
     rbind (ini_lines handler stream \<lparr>isection = [], prev_name = [], lineno = 0, ierror = 0, user = u\<rparr>) (\<lambda>st.
       Inr (int (ierror st), user st))"

text \<open>The file, \<open>None\<close> when it cannot be opened.\<close>

definition ini_parse :: "'u ini_handler \<Rightarrow> string option \<Rightarrow> 'u \<Rightarrow> (int \<times> 'u) result" where
  "ini_parse handler file u = (case file of None \<Rightarrow> Inr (- 1, u) | Some s \<Rightarrow> ini_parse_stream handler s u)"

section \<open>Strings\<close>

lemma rstrip_eq: "rstrip s = rev (dropWhile isspace (rev s))"
proof -
  have "rstrip_from s n = rev (dropWhile isspace (rev s))" if "length s = n" for s n
    using that
  proof (induction n arbitrary: s)
    case (Suc n)
    then obtain t c where "s = t @ [c]" by (cases s rule: rev_cases) auto
    with Suc show ?case by (simp add: nth_append)
  qed simp
  then show ?thesis by (simp add: rstrip_def)
qed

lemma isspace_simps [simp]: "isspace LF" "\<not> isspace (CHR ''['')"
  "\<not> isspace (CHR '']'')" "\<not> isspace (CHR '';'')" "\<not> isspace (CHR ''#'')" "\<not> isspace NUL"
  by (simp_all add: isspace_def)

lemma rstrip_line: "(s \<noteq> [] \<longrightarrow> \<not> isspace (last s)) \<Longrightarrow> rstrip (s @ [LF]) = s"
  by (cases s rule: rev_cases) (simp_all add: rstrip_eq)

lemma rstrip_same: "(s \<noteq> [] \<longrightarrow> \<not> isspace (last s)) \<Longrightarrow> rstrip s = s"
  by (cases s rule: rev_cases) (simp_all add: rstrip_eq)

lemma lskip_same: "(s \<noteq> [] \<longrightarrow> \<not> isspace (hd s)) \<Longrightarrow> lskip s = s"
  by (cases s) (simp_all add: lskip_def)

lemma find_from_skips:
  "CHR '';'' \<notin> set s \<Longrightarrow> (\<forall>cs. chars = Some cs \<longrightarrow> set s \<inter> set cs = {}) \<Longrightarrow>
   \<exists>b. find_from chars was_space (s @ t) = find_from chars b t"
proof (induction s arbitrary: was_space)
  case (Cons c s)
  then show ?case by (auto split: option.splits)
qed auto

lemma find_stops:
  assumes "CHR '';'' \<notin> set s" and "set s \<inter> set cs = {}" and "c \<in> set cs"
  shows "find_chars_or_comment (s @ c # t) (Some cs) = c # t"
  using find_from_skips [of s "Some cs" False "c # t"] assms by (auto simp: find_chars_or_comment_def)

lemma find_none: "CHR '';'' \<notin> set s \<Longrightarrow> find_chars_or_comment s None = []"
  using find_from_skips [of s None False "[]"] by (auto simp: find_chars_or_comment_def)

lemma cut_append [simp]: "cut (s @ t) t = s" "cut s [] = s"
  by (simp_all add: cut_def)

lemma fgets_line:
  assumes "LF \<notin> set s" and "length s + 1 < n"
  shows "fgets n (s @ LF # t) = Some (s @ [LF], t)"
proof -
  have "takeWhile (\<lambda>c. c \<noteq> LF) (s @ LF # t) = s" using assms(1) by (subst takeWhile_tail) (auto simp: takeWhile_eq_all_conv)
  moreover have "min (n - 1) (length s + 1) = length s + 1" using assms(2) by simp
  ultimately show ?thesis by (simp add: fgets_def Let_def)
qed

lemma cstr_line: "nul_free s \<Longrightarrow> cstr (s @ [LF]) = s @ [LF]"
  by (auto simp: cstr_def nul_free_def takeWhile_eq_all_conv)

section \<open>Writing and reading back\<close>

definition clean :: "string \<Rightarrow> bool" where
  "clean s \<longleftrightarrow> nul_free s \<and> LF \<notin> set s \<and> CHR '';'' \<notin> set s \<and> (s \<noteq> [] \<longrightarrow> \<not> isspace (hd s) \<and> \<not> isspace (last s))"

definition clean_item :: "string \<times> string \<Rightarrow> bool" where
  "clean_item x \<longleftrightarrow> clean (fst x) \<and> clean (snd x) \<and> fst x \<noteq> [] \<and> hd (fst x) \<noteq> CHR ''#'' \<and> hd (fst x) \<noteq> CHR ''['' \<and>
     CHR ''='' \<notin> set (fst x) \<and> CHR '':'' \<notin> set (fst x) \<and> length (fst x) + length (snd x) + 2 < INI_MAX_LINE"

definition clean_section :: "string \<times> (string \<times> string) list \<Rightarrow> bool" where
  "clean_section x \<longleftrightarrow> nul_free (fst x) \<and> LF \<notin> set (fst x) \<and> CHR '';'' \<notin> set (fst x) \<and> CHR '']'' \<notin> set (fst x) \<and>
     length (fst x) < MAX_SECTION \<and> list_all clean_item (snd x)"

definition render_item :: "string \<times> string \<Rightarrow> string" where
  "render_item x = fst x @ ''='' @ snd x @ [LF]"

definition render_section :: "string \<times> (string \<times> string) list \<Rightarrow> string" where
  "render_section x = ''['' @ fst x @ '']'' @ [LF] @ concat (map render_item (snd x))"

definition render :: "(string \<times> (string \<times> string) list) list \<Rightarrow> string" where
  "render cfg = concat (map render_section cfg)"

text \<open>What the handler is to be given, and the handler run on that: whether it accepted all of it, and its state.\<close>

definition items :: "(string \<times> (string \<times> string) list) list \<Rightarrow> (string \<times> string \<times> string) list" where
  "items cfg = concat (map (\<lambda>(s, kvs). map (\<lambda>(n, v). (s, n, v)) kvs) cfg)"

fun feed :: "'u ini_handler \<Rightarrow> (string \<times> string \<times> string) list \<Rightarrow> 'u \<Rightarrow> (bool \<times> 'u) result" where
  "feed handler [] u = Inr (True, u)"
| "feed handler ((s, n, v) # xs) u =
     rbind (handler u s n v) (\<lambda>(ok, u). rbind (feed handler xs u) (\<lambda>(ok', u). Inr (ok \<and> ok', u)))"

lemma item_line:
  assumes "clean_item (n, v)" and "1 \<le> lineno st"
  shows "ini_line handler (n @ ''='' @ v @ [LF]) st =
    call_handler handler (st\<lparr>lineno := lineno st + 1, prev_name := take 49 n\<rparr>) n v"
proof -
  have n: "nul_free n" "n \<noteq> []" "\<not> isspace (hd n)" "\<not> isspace (last n)" "CHR '';'' \<notin> set n" "hd n \<noteq> CHR ''#''"
    "hd n \<noteq> CHR ''[''" "set n \<inter> {CHR ''='', CHR '':''} = {}"
    and v: "nul_free v" "CHR '';'' \<notin> set v" "v \<noteq> [] \<longrightarrow> \<not> isspace (hd v) \<and> \<not> isspace (last v)"
    using assms(1) by (auto simp: clean_item_def clean_def)
  let ?s = "n @ CHR ''='' # v"
  have line: "cstr (n @ ''='' @ v @ [LF]) = ?s @ [LF]"
    using cstr_line [of ?s] n(1) v(1) by (simp add: nul_free_def)
  have mark: "bom (Suc (lineno st)) b = 0" for b using assms(2) by (simp add: bom_def)
  have strip: "rstrip (?s @ [LF]) = ?s" using v(3) by (intro rstrip_line) (auto simp: isspace_def)
  have skip: "lskip ?s = ?s" using n(2,3) by (intro lskip_same) simp
  have start: "cget ?s 0 = hd n" using n(2) by (cases n) (auto simp: cget_def)
  have hd: "hd n \<noteq> CHR '';''" using n(2,5) by (cases n) auto
  have find: "find_chars_or_comment ?s (Some ''=:'') = CHR ''='' # v"
    using n(5,8) by (intro find_stops) auto
  have name: "rstrip n = n" using n(4) by (simp add: rstrip_same)
  have at: "cget (CHR ''='' # v) 0 = CHR ''=''" by (simp add: cget_def)
  have val: "rstrip (cut (lskip v) (find_chars_or_comment (lskip v) None)) = v"
    using v(2,3) by (simp add: lskip_same rstrip_same find_none)
  show ?thesis
    unfolding ini_line_def Let_def line
    by (simp add: mark strip [simplified] skip start hd n(6,7) find name at val strncpy0_def MAX_NAME_def)
qed

lemma section_line:
  assumes "clean_section (s, kvs)"
  shows "ini_line handler (''['' @ s @ '']'' @ [LF]) st =
    Inr (st\<lparr>lineno := lineno st + 1, isection := s, prev_name := []\<rparr>)"
proof -
  have s: "nul_free s" "CHR '';'' \<notin> set s" "CHR '']'' \<notin> set s" "length s \<le> 49"
    using assms by (auto simp: clean_section_def MAX_SECTION_def)
  let ?s = "CHR ''['' # s @ '']''"
  have line: "cstr (''['' @ s @ '']'' @ [LF]) = ?s @ [LF]"
    using cstr_line [of ?s] s(1) by (simp add: nul_free_def)
  have mark: "bom k (?s @ [LF]) = 0" for k by (simp add: bom_def cget_def byte_def)
  have strip: "rstrip (?s @ [LF]) = ?s" by (rule rstrip_line) simp
  have skip: "lskip ?s = ?s" by (rule lskip_same) simp
  have find: "find_chars_or_comment (s @ '']'') (Some '']'') = '']''"
    using s(2,3) by (intro find_stops) auto
  show ?thesis
    unfolding ini_line_def Let_def line mark drop_0 strip skip
    using s(4) by (simp add: cget_def find strncpy0_def MAX_SECTION_def)
qed

text \<open>The next line of a file, and the lines of a section.\<close>

lemma ini_lines_step:
  assumes "LF \<notin> set s" and "length s + 1 < INI_MAX_LINE" and "ini_line handler (s @ [LF]) st = r"
  shows "ini_lines handler (s @ LF # t) st = rbind r (\<lambda>st. ini_lines handler t st)"
  using assms fgets_line by (subst ini_lines.simps) simp

lemma call_handler_ok:
  assumes "handler (user st) (isection st) n v = Inr (ok, u)" and "0 < lineno st"
  obtains st' where "call_handler handler st n v = Inr st'" and "user st' = u" and "isection st' = isection st"
    and "lineno st' = lineno st" and "ierror st' = 0 \<longleftrightarrow> ierror st = 0 \<and> ok"
proof
  let ?st = "if ok then st\<lparr>user := u\<rparr> else set_error (st\<lparr>user := u\<rparr>)"
  show "call_handler handler st n v = Inr ?st" using assms by (simp add: call_handler_def Let_def)
qed (use assms in \<open>auto simp: set_error_def\<close>)

lemma items_read:
  "list_all clean_item kvs \<Longrightarrow> 1 \<le> lineno st \<Longrightarrow>
   (case feed handler (map (\<lambda>(n, v). (isection st, n, v)) kvs) (user st) of
      Inl f \<Rightarrow> ini_lines handler (concat (map render_item kvs) @ t) st = Inl f
    | Inr (ok, u) \<Rightarrow> \<exists>st'. ini_lines handler (concat (map render_item kvs) @ t) st = ini_lines handler t st' \<and> user st' = u \<and>
        isection st' = isection st \<and> 1 \<le> lineno st' \<and> (ierror st' = 0 \<longleftrightarrow> ierror st = 0 \<and> ok))"
proof (induction kvs arbitrary: st)
  case Nil
  then show ?case by auto
next
  case (Cons x kvs)
  obtain n v where x: "x = (n, v)" by fastforce
  have clean: "clean_item (n, v)" using Cons.prems x by simp
  let ?s = "n @ ''='' @ v" and ?t = "concat (map render_item kvs) @ t"
  let ?st = "st\<lparr>lineno := lineno st + 1, prev_name := take 49 n\<rparr>"
  have lf: "LF \<notin> set ?s" and len: "length ?s + 1 < INI_MAX_LINE"
    using clean by (auto simp: clean_item_def clean_def)
  have step: "ini_lines handler (concat (map render_item (x # kvs)) @ t) st =
      rbind (call_handler handler ?st n v) (\<lambda>st. ini_lines handler ?t st)"
    using ini_lines_step [OF lf len, of handler st _ ?t] item_line [OF clean Cons.prems(2)] x by (simp add: render_item_def)
  show ?case
  proof (cases "handler (user st) (isection st) n v")
    case (Inl f)
    then have "call_handler handler ?st n v = Inl f" by (simp add: call_handler_def)
    with Inl step x show ?thesis by simp
  next
    case (Inr b)
    then obtain ok u where call: "handler (user ?st) (isection ?st) n v = Inr (ok, u)" by (cases b) auto
    have "0 < lineno ?st" by simp
    then obtain st1 where 1: "call_handler handler ?st n v = Inr st1" "user st1 = u" "isection st1 = isection ?st"
      "lineno st1 = lineno ?st" "ierror st1 = 0 \<longleftrightarrow> ierror ?st = 0 \<and> ok"
      by (rule call_handler_ok [of handler ?st n v ok u, OF call])
    have "list_all clean_item kvs" "1 \<le> lineno st1" using Cons.prems(1) 1(4) by simp_all
    note IH = Cons.IH [OF this]
    have eq: "ini_lines handler (concat (map render_item (x # kvs)) @ t) st = ini_lines handler ?t st1"
      using step 1(1) by simp
    show ?thesis
      using IH 1 call x unfolding eq by (auto split: sum.splits prod.splits simp del: concat.simps)
  qed
qed

lemma feed_append:
  "feed handler (xs @ ys) u = rbind (feed handler xs u) (\<lambda>(ok, u). rbind (feed handler ys u) (\<lambda>(ok', u). Inr (ok \<and> ok', u)))"
  by (induction handler xs u rule: feed.induct) (auto simp: rbind_def split: sum.splits)

lemma sections_read:
  "list_all clean_section cfg \<Longrightarrow>
   (case feed handler (items cfg) (user st) of
      Inl f \<Rightarrow> ini_lines handler (render cfg) st = Inl f
    | Inr (ok, u) \<Rightarrow> \<exists>st'. ini_lines handler (render cfg) st = Inr st' \<and> user st' = u \<and> (ierror st' = 0 \<longleftrightarrow> ierror st = 0 \<and> ok))"
proof (induction cfg arbitrary: st)
  case Nil
  then show ?case by (subst ini_lines.simps) (simp add: items_def render_def ini_lines.simps fgets_def)
next
  case (Cons x cfg)
  obtain s kvs where x: "x = (s, kvs)" by fastforce
  have clean: "clean_section (s, kvs)" and kvs: "list_all clean_item kvs" using Cons.prems x by (simp_all add: clean_section_def)
  let ?l = "''['' @ s @ '']''" and ?t = "concat (map render_item kvs) @ render cfg"
  let ?st = "st\<lparr>lineno := lineno st + 1, isection := s, prev_name := []\<rparr>"
  have lf: "LF \<notin> set ?l" and len: "length ?l + 1 < INI_MAX_LINE"
    using clean by (auto simp: clean_section_def MAX_SECTION_def INI_MAX_LINE_def)
  have step: "ini_lines handler (render (x # cfg)) st = ini_lines handler ?t ?st"
    using ini_lines_step [OF lf len, of handler st _ ?t] section_line [OF clean, of handler st] x
    by (simp add: render_def render_section_def)
  have one: "1 \<le> lineno ?st" by simp
  note items = items_read [OF kvs one, of handler "render cfg"]
  have items_eq: "items (x # cfg) = map (\<lambda>(n, v). (s, n, v)) kvs @ items cfg" using x by (simp add: items_def)
  show ?case
  proof (cases "feed handler (map (\<lambda>(n, v). (s, n, v)) kvs) (user st)")
    case (Inl f)
    then have "feed handler (map (\<lambda>(n, v). (isection ?st, n, v)) kvs) (user ?st) = Inl f" by simp
    then have "ini_lines handler ?t ?st = Inl f" using items by (simp only: sum.case)
    with Inl show ?thesis unfolding step items_eq feed_append by simp
  next
    case (Inr b)
    then obtain ok u where b: "feed handler (map (\<lambda>(n, v). (s, n, v)) kvs) (user st) = Inr (ok, u)" by (cases b) auto
    have fed: "feed handler (map (\<lambda>(n, v). (isection ?st, n, v)) kvs) (user ?st) = Inr (ok, u)" using b by simp
    have "\<exists>st'. ini_lines handler ?t ?st = ini_lines handler (render cfg) st' \<and> user st' = u \<and>
        isection st' = isection ?st \<and> 1 \<le> lineno st' \<and> (ierror st' = 0 \<longleftrightarrow> ierror ?st = 0 \<and> ok)"
      using items unfolding fed sum.case prod.case .
    then obtain st' where st': "ini_lines handler ?t ?st = ini_lines handler (render cfg) st'" "user st' = u"
      "ierror st' = 0 \<longleftrightarrow> ierror ?st = 0 \<and> ok"
      by (elim exE conjE) (rule that)
    have "list_all clean_section cfg" using Cons.prems by simp
    from Cons.IH [OF this, of st'] show ?thesis
      unfolding step st'(1) items_eq feed_append using b st'(2,3) by (auto split: sum.splits)
  qed
qed

text \<open>
  C13 (roundtrip). Reading back. A configuration written as sections of lines \<^verbatim>\<open>name=value\<close> is read as written: the handler gets
  exactly the sections, names and values, in their order, and the result is 0 just when it accepted all of
  them. The names and values have no NUL, newline or semicolon and no white space at their ends, the names no \<^verbatim>\<open>=\<close> or \<^verbatim>\<open>:\<close>, and the lines and the names of sections fit their buffers.
\<close>

theorem ini_roundtrip:
  assumes "list_all clean_section cfg"
  shows "case feed handler (items cfg) u of
      Inl f \<Rightarrow> ini_parse_stream handler (render cfg) u = Inl f
    | Inr (ok, u') \<Rightarrow> \<exists>e. ini_parse_stream handler (render cfg) u = Inr (e, u') \<and> (e = 0 \<longleftrightarrow> ok)"
  using sections_read [OF assms, of handler "\<lparr>isection = [], prev_name = [], lineno = 0, ierror = 0, user = u\<rparr>"]
  by (auto simp: ini_parse_stream_def split: sum.splits)

text \<open>The handler that records what it is given.\<close>

definition record_all :: "(string \<times> string \<times> string) list ini_handler" where
  "record_all u s n v = Inr (True, u @ [(s, n, v)])"

theorem ini_roundtrip_witness:
  "ini_parse_stream record_all (render [(''server'', [(''max_clients'', ''100''), (''pidfile'', [])]), (''network'', [(''port'', ''6000'')])]) [] =
    Inr (0, [(''server'', ''max_clients'', ''100''), (''server'', ''pidfile'', []), (''network'', ''port'', ''6000'')])"
proof -
  have "list_all clean_section [(''server'', [(''max_clients'', ''100''), (''pidfile'', [])]), (''network'', [(''port'', ''6000'')])]"
    by (simp add: clean_section_def clean_item_def clean_def nul_free_def isspace_def MAX_SECTION_def INI_MAX_LINE_def)
  from ini_roundtrip [OF this, of record_all "[]"] show ?thesis
    by (simp add: items_def record_all_def)
qed

section \<open>Invariants of the handler's state\<close>

lemma set_error_nonzero [simp]: "0 < lineno st \<Longrightarrow> ierror (set_error st) = 0 \<longleftrightarrow> False"
  by (simp add: set_error_def)

lemma line_keeps:
  assumes "ini_line handler buf st = Inr st'" and "ierror st' = 0"
  shows "ierror st = 0 \<and> (user st' = user st \<or> (\<exists>s n v. handler (user st) s n v = Inr (True, user st')))"
proof -
  have call: "ierror x = 0 \<and> handler (user x) (isection x) n v = Inr (True, user y)"
    if "call_handler handler x n v = Inr y" "ierror y = 0" "0 < lineno x" for x y n v
    using that by (auto simp: call_handler_def Let_def set_error_def split: if_splits)
  show ?thesis
    using assms unfolding ini_line_def Let_def
    by (auto split: if_splits dest!: call)
qed

text \<open>
  What a client of the reader has to show of its handler to keep an invariant of its state: that accepting an item keeps it. The reader goes on after a
  refusal, but then reports it.
\<close>

locale checked_handler =
  fixes handler :: "'u ini_handler" and P :: "'u \<Rightarrow> bool"
  assumes accept: "P u \<Longrightarrow> handler u s n v = Inr (True, u') \<Longrightarrow> P u'"
begin

lemma lines_keep:
  "ini_lines handler stream st = Inr st' \<Longrightarrow> ierror st' = 0 \<Longrightarrow> ierror st = 0 \<and> (P (user st) \<longrightarrow> P (user st'))"
proof (induction "length stream" arbitrary: stream st rule: less_induct)
  case less
  show ?case
  proof (cases "fgets INI_MAX_LINE stream")
    case None
    with less.prems show ?thesis by (simp add: ini_lines.simps)
  next
    case (Some p)
    then obtain line rest where p: "fgets INI_MAX_LINE stream = Some (line, rest)" by (cases p) auto
    then obtain st1 where st1: "ini_line handler line st = Inr st1" "ini_lines handler rest st1 = Inr st'"
      using less.prems(1) by (auto simp: ini_lines.simps [of handler stream])
    have "ierror st1 = 0 \<and> (P (user st1) \<longrightarrow> P (user st'))"
      using less.hyps [OF _ st1(2) less.prems(2)] fgets_shorter [OF p] by (simp add: INI_MAX_LINE_def)
    with line_keeps [OF st1(1)] accept show ?thesis by metis
  qed
qed

lemma parse_keeps:
  assumes "ini_parse handler file u = Inr (0, u')" and "P u"
  shows "P u'"
  using assms lines_keep
  by (cases "file") (fastforce simp: ini_parse_def ini_parse_stream_def)+

end

end
