(* ===== verification/Config.thy ===== *)
theory Config
  imports Ini Rr_Dict
begin

text \<open>
  The configuration: \<^verbatim>\<open>rr_config.c\<close> over the reader of INI files, and what \<^verbatim>\<open>main\<close> does with the command
  line.

  \<^verbatim>\<open>main\<close> does not initialise the structure it passes to \<^verbatim>\<open>rr_config_load\<close>, so a field is \<open>None\<close> until the
  file sets it, and reading it before that is a fault. Whether a file can be opened for appending is a
  parameter. Messages to the log are left out.

  The theorems: a configuration that loads has every checked field in its range; three
  items are not checked, since the code tests the port in their place, and reads it before it
  is set.
\<close>

section \<open>The model\<close>

record rr_configuration =
  c_port :: "int option"
  c_bind :: "string option"
  c_max_clients :: "int option"
  c_max_memory :: "int option"
  c_cron_frequency :: "int option"
  c_log_level :: "int option"
  c_log_file :: "string option"
  c_pidfile :: "string option"
  c_unix_domain_sock :: "string option"
  c_unix_sock_perm :: "int option"
  c_tcp_backlog :: "int option"
  c_lazyfree_server_del :: "int option"
  c_max_dbs :: "int option"

definition uninit_config :: rr_configuration where
  "uninit_config =
     \<lparr>c_port = None, c_bind = None, c_max_clients = None, c_max_memory = None, c_cron_frequency = None, c_log_level = None,
      c_log_file = None, c_pidfile = None, c_unix_domain_sock = None, c_unix_sock_perm = None, c_tcp_backlog = None,
      c_lazyfree_server_del = None, c_max_dbs = None\<rparr>"

definition RR_LOG_DEBUG :: int where "RR_LOG_DEBUG = 0"
definition RR_LOG_INFO :: int where "RR_LOG_INFO = 1"
definition RR_LOG_WARNING :: int where "RR_LOG_WARNING = 2"
definition RR_LOG_ERROR :: int where "RR_LOG_ERROR = 3"
definition RR_LOG_CRITICAL :: int where "RR_LOG_CRITICAL = 4"

definition SERVER_CRON_MAX_FREQUENCY :: int where "SERVER_CRON_MAX_FREQUENCY = 1000"

definition LOG_LEVEL_ENUM :: "(string \<times> int) list" where
  "LOG_LEVEL_ENUM =
     [(''debug'', RR_LOG_DEBUG), (''info'', RR_LOG_INFO), (''warning'', RR_LOG_WARNING), (''error'', RR_LOG_ERROR),
      (''critical'', RR_LOG_CRITICAL)]"

fun cfg_enum_get_value :: "(string \<times> int) list \<Rightarrow> string \<Rightarrow> int option" where
  "cfg_enum_get_value [] nm = None"
| "cfg_enum_get_value ((n, v) # ce) nm = (if strcaseeq n nm then Some v else cfg_enum_get_value ce nm)"

text \<open>\<^verbatim>\<open>atoi\<close>, which is \<^verbatim>\<open>(int) strtol(s, NULL, 10)\<close>, and \<^verbatim>\<open>strtol(s, NULL, 8)\<close> with whether it sets \<^verbatim>\<open>errno\<close>.\<close>

definition atoi :: "string \<Rightarrow> int" where
  "atoi s = signed_take_bit 31 (fst (strtoll s))"

definition is_octal :: "char \<Rightarrow> bool" where
  "is_octal c \<longleftrightarrow> 48 \<le> (of_char c :: nat) \<and> (of_char c :: nat) \<le> 55"

fun oval :: "nat \<Rightarrow> string \<Rightarrow> nat" where
  "oval v [] = v"
| "oval v (c # p) = oval (v * 8 + digit_val c) p"

definition strtol8 :: "string \<Rightarrow> int \<times> bool" where
  "strtol8 s =
     (let p = dropWhile isspace s;
          negative = (p \<noteq> [] \<and> hd p = CHR ''-'');
          q = (if p \<noteq> [] \<and> (hd p = CHR ''-'' \<or> hd p = CHR ''+'') then tl p else p);
          v = int (oval 0 (takeWhile is_octal q));
          v = (if negative then - v else v)
      in (max LLONG_MIN (min LLONG_MAX v), v < LLONG_MIN \<or> v > LLONG_MAX))"

text \<open>The file has its own copy of the \<^verbatim>\<open>memtoll\<close> of \<^verbatim>\<open>util.c\<close>, line by line the same, called without \<^verbatim>\<open>err\<close>.\<close>

definition config_memtoll :: "string \<Rightarrow> int" where
  "config_memtoll p = fst (memtoll p)"

definition setval :: "(string, 'c) dict_t \<Rightarrow> string \<Rightarrow> string \<Rightarrow> string" where
  "setval options n v = (case dict_get options n of None \<Rightarrow> v | Some w \<Rightarrow> w)"

text \<open>\<^verbatim>\<open>if (cfg->port < 0) goto error\<close>\<close>

definition check_port :: "rr_configuration \<Rightarrow> (bool \<times> rr_configuration) result" where
  "check_port cfg = (case c_port cfg of None \<Rightarrow> Inl Uninit | Some p \<Rightarrow> Inr (\<not> p < 0, cfg))"

definition handler :: "(string \<Rightarrow> bool) \<Rightarrow> (string, 'c) dict_t \<Rightarrow> rr_configuration \<Rightarrow> string \<Rightarrow> string \<Rightarrow> string \<Rightarrow>
    (bool \<times> rr_configuration) result" where
  "handler can_open options cfg section name value =
     (let match = (\<lambda>s n. section = s \<and> name = n); setval = (\<lambda>n. setval options n value) in
      if match ''server'' ''max_clients'' then
        let v = atoi (setval ''max_clients'') in Inr (\<not> v < 0, cfg\<lparr>c_max_clients := Some v\<rparr>)
      else if match ''server'' ''cron_frequency'' then
        let v = atoi (setval ''cron_frequency'') in
        Inr (\<not> (v < 0 \<or> v > SERVER_CRON_MAX_FREQUENCY), cfg\<lparr>c_cron_frequency := Some v\<rparr>)
      else if match ''server'' ''max_memory'' then
        let v = config_memtoll (setval ''max_memory'') in Inr (\<not> v < 0, cfg\<lparr>c_max_memory := Some v\<rparr>)
      else if match ''server'' ''pidfile'' then
        let v = setval ''pidfile'' in Inr (v = [] \<or> can_open v, cfg\<lparr>c_pidfile := Some v\<rparr>)
      else if match ''server'' ''unix_domain_socket'' then
        Inr (True, cfg\<lparr>c_unix_domain_sock := Some (setval ''unix_domain_socket'')\<rparr>)
      else if match ''server'' ''unix_domain_perm'' then
        let (v, errno) = strtol8 (setval ''unix_sock_perm''); v = v mod 2 ^ 32 in
        Inr (\<not> (errno \<or> v > 511), cfg\<lparr>c_unix_sock_perm := Some v\<rparr>)
      else if match ''logging'' ''log_level'' then
        case cfg_enum_get_value LOG_LEVEL_ENUM (setval ''log_level'') of
          None \<Rightarrow> Inr (False, cfg)
        | Some v \<Rightarrow> Inr (\<not> (v > RR_LOG_CRITICAL \<or> v < RR_LOG_DEBUG), cfg\<lparr>c_log_level := Some v\<rparr>)
      else if match ''logging'' ''log_file'' then
        let v = setval ''log_file'' in Inr (v = [] \<or> can_open v, cfg\<lparr>c_log_file := Some v\<rparr>)
      else if match ''network'' ''port'' then
        let v = atoi (setval ''port'') in Inr (\<not> (v < 0 \<or> v > 65535), cfg\<lparr>c_port := Some v\<rparr>)
      else if match ''network'' ''bind'' then
        Inr (True, cfg\<lparr>c_bind := Some (setval ''bind'')\<rparr>)
      else if match ''network'' ''tcp_backlog'' then
        check_port (cfg\<lparr>c_tcp_backlog := Some (atoi (setval ''tcp_backlog''))\<rparr>)
      else if match ''lazyfree'' ''server_del'' then
        check_port (cfg\<lparr>c_lazyfree_server_del := Some (atoi (setval ''server_del''))\<rparr>)
      else if match ''database'' ''max_dbs'' then
        check_port (cfg\<lparr>c_max_dbs := Some (atoi (setval ''max_dbs''))\<rparr>)
      else Inr (False, cfg))"

definition RR_OK :: int where "RR_OK = 0"
definition RR_ERROR :: int where "RR_ERROR = - 1"

text \<open>\<open>file\<close> is what the file at the path holds, \<open>None\<close> when it cannot be opened.\<close>

definition rr_config_load :: "(string \<Rightarrow> bool) \<Rightarrow> (string, 'c) dict_t \<Rightarrow> string option \<Rightarrow> rr_configuration \<Rightarrow>
    (int \<times> rr_configuration) result" where
  "rr_config_load can_open options file cfg =
     rbind (ini_parse (handler can_open options) file cfg) (\<lambda>(r, cfg).
       Inr (if r = 0 then RR_OK else RR_ERROR, cfg))"

section \<open>The command line\<close>

text \<open>
  \<^verbatim>\<open>getAbsolutePath\<close>: the path without white space around it, below the current directory \<open>cwd\<close> (\<open>None\<close> when \<^verbatim>\<open>getcwd\<close> fails) unless
  it is absolute; each \<^verbatim>\<open>../\<close> at its start takes away a directory. \<open>last_dir\<close> is the path up to the last slash before its final
  byte; the search has no bound, so without such a slash it runs out of the string.
\<close>

definition last_dir :: "string \<Rightarrow> string result" where
  "last_dir p =
     (let q = rev (dropWhile (\<lambda>c. c \<noteq> CHR ''/'') (rev (butlast p)))
      in if q = [] then Inl OutOfBounds else Inr q)"

function up_dirs :: "string \<Rightarrow> string \<Rightarrow> string result" where
  "up_dirs abspath relpath =
     (if take 3 relpath = ''../''
      then rbind (if length abspath > 1 then last_dir abspath else Inr abspath) (\<lambda>a. up_dirs a (drop 3 relpath))
      else Inr (abspath @ relpath))"
  by pat_completeness auto
termination
proof (relation "measure (\<lambda>(a, r). length r)")
  fix abspath relpath a :: string
  assume "take 3 relpath = ''../''"
  then have "length relpath \<ge> 3" by (metis length_take list.size(3,4) min.cobounded1 numeral_3_eq_3 One_nat_def Suc_eq_plus1)
  then show "((a, drop 3 relpath), abspath, relpath) \<in> measure (\<lambda>(a, r). length r)" by simp
qed simp

declare up_dirs.simps [simp del]

definition trim_path :: "string \<Rightarrow> string" where
  "trim_path s =
     (let blank = (\<lambda>c. c \<in> {CHR '' '', CR, LF, HTAB}) in rev (dropWhile blank (rev (dropWhile blank s))))"

definition getAbsolutePath :: "string option \<Rightarrow> string \<Rightarrow> string option result" where
  "getAbsolutePath cwd filename =
     (let relpath = trim_path filename in
      if cget relpath 0 = CHR ''/'' then Inr (Some relpath)
      else
        case cwd of
          None \<Rightarrow> Inr None
        | Some d \<Rightarrow>
            let abspath = (if d \<noteq> [] \<and> last d \<noteq> CHR ''/'' then d @ ''/'' else d)
            in rbind (up_dirs abspath relpath) (\<lambda>p. Inr (Some p)))"

text \<open>
  The options of the command line. An option without a value is dropped when another one
  follows; a value without an option ends the program by \<^verbatim>\<open>usage\<close>.
\<close>

definition is_option :: "string \<Rightarrow> bool" where
  "is_option a \<longleftrightarrow> cget a 0 = CHR ''-'' \<and> cget a 1 = CHR ''-''"

fun parse_options :: "string list \<Rightarrow> string option \<Rightarrow> (string, unit) dict_t \<Rightarrow> (string, unit) dict_t result" where
  "parse_options [] option options = Inr options"
| "parse_options (a # args) option options =
     (if is_option a then parse_options args (Some (drop 2 a)) options
      else case option of
             None \<Rightarrow> Inl Exited
           | Some n \<Rightarrow> parse_options args None (fst (dict_set options n (Some a))))"

text \<open>\<open>args\<close> are the arguments after the name of the program; the result is the path of the file and the options.\<close>

definition command_line :: "string option \<Rightarrow> string list \<Rightarrow> (string option \<times> (string, unit) dict_t) result" where
  "command_line cwd args =
     (let options = dict_set_freecb dict_create (Some ()) in
      case args of
        [] \<Rightarrow> Inr (Some ''rhino-rox.ini'', options)
      | a # rest \<Rightarrow>
          if a = ''-v'' \<or> a = ''--version'' \<or> a = ''--help'' \<or> a = ''-h'' then Inl Exited
          else if \<not> is_option a
          then rbind (getAbsolutePath cwd a) (\<lambda>path. rbind (parse_options rest None options) (\<lambda>o'. Inr (path, o')))
          else rbind (parse_options args None options) (\<lambda>o'. Inr (Some ''rhino-rox.ini'', o')))"

section \<open>Loading checks the ranges\<close>

definition in_range :: "int \<Rightarrow> int \<Rightarrow> int option \<Rightarrow> bool" where
  "in_range a b v = (case v of None \<Rightarrow> True | Some x \<Rightarrow> a \<le> x \<and> x \<le> b)"

definition cfg_valid :: "rr_configuration \<Rightarrow> bool" where
  "cfg_valid cfg \<longleftrightarrow> in_range 0 65535 (c_port cfg) \<and> in_range 0 (2 ^ 31 - 1) (c_max_clients cfg) \<and>
     in_range 0 LLONG_MAX (c_max_memory cfg) \<and> in_range 0 SERVER_CRON_MAX_FREQUENCY (c_cron_frequency cfg) \<and>
     in_range RR_LOG_DEBUG RR_LOG_CRITICAL (c_log_level cfg) \<and> in_range 0 511 (c_unix_sock_perm cfg)"

lemma atoi_range: "atoi s \<le> 2 ^ 31 - 1"
  using signed_take_bit_int_less_exp [of 31 "fst (strtoll s)"] unfolding atoi_def by linarith

lemma to_ll_range: "to_ll x \<le> LLONG_MAX"
  using signed_take_bit_int_less_exp [of 63 x] unfolding to_ll_def LLONG_MAX_def by linarith

lemma config_memtoll_range: "config_memtoll p \<le> LLONG_MAX"
proof -
  obtain M D T where "memtoll p = (case M :: int option of None \<Rightarrow> (0, True)
      | Some m \<Rightarrow> if D then (0, True) else case strtoll T of (val, e) \<Rightarrow> if e \<noteq> [] then (0, True) else (to_ll (val * m), False))"
    unfolding memtoll_def Let_def by blast
  moreover have "0 \<le> LLONG_MAX" by (simp add: LLONG_MAX_def)
  ultimately show ?thesis
    by (auto simp: config_memtoll_def to_ll_range split: option.split prod.split)
qed

lemma check_port_cases: "check_port cfg = Inr (b, cfg') \<Longrightarrow> cfg' = cfg"
  by (auto simp: check_port_def split: option.splits)

text \<open>A property of every branch, whatever its condition.\<close>

lemma if_branches: "(if c then a else b) = r \<Longrightarrow> (a = r \<Longrightarrow> P) \<Longrightarrow> (b = r \<Longrightarrow> P) \<Longrightarrow> P"
  by (simp split: if_splits)

lemma handler_keeps_valid:
  assumes "cfg_valid cfg" and "handler can_open options cfg sec nm val = Inr (True, cfg')"
  shows "cfg_valid cfg'"
  using assms(2) unfolding handler_def Let_def
proof (elim if_branches, goal_cases)
  case 1 with assms(1) atoi_range show ?case by (auto simp: cfg_valid_def in_range_def)
next
  case 2 with assms(1) show ?case by (auto simp: cfg_valid_def in_range_def)
next
  case 3 with assms(1) config_memtoll_range show ?case by (auto simp: cfg_valid_def in_range_def)
next
  case 4 with assms(1) show ?case by (auto simp: cfg_valid_def)
next
  case 5 with assms(1) show ?case by (auto simp: cfg_valid_def)
next
  case 6 with assms(1) show ?case by (auto simp: cfg_valid_def in_range_def split: prod.splits)
next
  case 7
  then obtain v where "\<not> (v > RR_LOG_CRITICAL \<or> v < RR_LOG_DEBUG)" "cfg' = cfg\<lparr>c_log_level := Some v\<rparr>"
    by (cases "cfg_enum_get_value LOG_LEVEL_ENUM (setval options ''log_level'' val)") auto
  with assms(1) show ?case by (simp add: cfg_valid_def in_range_def)
next
  case 8 with assms(1) show ?case by (auto simp: cfg_valid_def)
next
  case 9 with assms(1) show ?case by (auto simp: cfg_valid_def in_range_def)
next
  case 10 with assms(1) show ?case by (auto simp: cfg_valid_def)
qed (use assms(1) in \<open>auto simp: cfg_valid_def dest!: check_port_cases\<close>)

interpretation cfg_reader: checked_handler "handler can_open options" cfg_valid for can_open :: "string \<Rightarrow> bool" and options :: "(string, 'c) dict_t"
  by unfold_locales (rule handler_keeps_valid)

text \<open>
  C14 (invariant). A configuration that loads is in range: when \<^verbatim>\<open>rr_config_load\<close> returns \<^verbatim>\<open>RR_OK\<close>, whatever the file and the options of the command line,
  the port, the limits of clients and of memory, the frequency, the level of the log and the permissions of
  the socket that were set are in their ranges, although the structure started out uninitialised and the
  reader goes on after an error.
\<close>

theorem config_load_valid:
  assumes "rr_config_load can_open options file uninit_config = Inr (RR_OK, cfg)"
  shows "cfg_valid cfg"
proof (rule cfg_reader.parse_keeps)
  show "ini_parse (handler can_open options) file uninit_config = Inr (0, cfg)"
    using assms by (auto simp: rr_config_load_def RR_OK_def RR_ERROR_def split: if_splits)
  show "cfg_valid uninit_config" by (simp add: cfg_valid_def in_range_def uninit_config_def)
qed

theorem config_load_valid_witness:
  "\<exists>cfg. rr_config_load (\<lambda>_. True) (dict_create :: (string, unit) dict_t) (Some ''[network]\<newline>port = 6000'') uninit_config = Inr (RR_OK, cfg) \<and>
    c_port cfg = Some 6000 \<and> cfg_valid cfg"
proof -
  have "rr_config_load (\<lambda>_. True) (dict_create :: (string, unit) dict_t) (Some ''[network]\<newline>port = 6000'') uninit_config =
      Inr (RR_OK, uninit_config\<lparr>c_port := Some 6000\<rparr>)"
    by code_simp
  with config_load_valid [OF this] show ?thesis by simp
qed



section \<open>Paths and options\<close>

lemma last_dir_absolute:
  assumes "1 < length p" and "hd p = CHR ''/''"
  obtains q where "last_dir p = Inr q" and "q \<noteq> []" and "hd q = CHR ''/''"
proof -
  obtain x where p: "butlast p = CHR ''/'' # x" using assms by (cases p) auto
  let ?q = "rev (dropWhile (\<lambda>c. c \<noteq> CHR ''/'') (rev (butlast p)))"
  have rx: "rev (butlast p) = rev x @ [CHR ''/'']" by (simp add: p)
  obtain z where z: "dropWhile (\<lambda>c. c \<noteq> CHR ''/'') (rev (butlast p)) = z @ [CHR ''/'']"
    unfolding rx by (cases "\<forall>c\<in>set (rev x). c \<noteq> CHR ''/''") (auto simp: dropWhile_append1 dropWhile_append2 dropWhile_append3)
  show thesis using z by (intro that [of ?q]) (auto simp: last_dir_def Let_def)
qed

lemma up_dirs_absolute:
  "abspath \<noteq> [] \<Longrightarrow> hd abspath = CHR ''/'' \<Longrightarrow> \<exists>p. up_dirs abspath relpath = Inr p \<and> p \<noteq> [] \<and> hd p = CHR ''/''"
proof (induction abspath relpath rule: up_dirs.induct)
  case (1 abspath relpath)
  show ?case
  proof (cases "take 3 relpath = ''../''")
    case True
    obtain a where a: "(if length abspath > 1 then last_dir abspath else Inr abspath) = Inr a" "a \<noteq> []" "hd a = CHR ''/''"
    proof (cases "length abspath > 1")
      case True
      obtain q where "last_dir abspath = Inr q" "q \<noteq> []" "hd q = CHR ''/''"
        by (rule last_dir_absolute [OF True 1(3)])
      with True show thesis by (intro that) auto
    qed (use 1(2,3) in \<open>auto intro: that\<close>)
    from 1(1) [OF True a] a(1) True show ?thesis by (simp add: up_dirs.simps [of abspath relpath])
  next
    case False
    with 1(2,3) show ?thesis by (simp add: up_dirs.simps [of abspath relpath])
  qed
qed

text \<open>Below an absolute directory \<^verbatim>\<open>getAbsolutePath\<close> stays in its strings and gives an absolute path.\<close>

lemma getAbsolutePath_absolute:
  assumes "hd d = CHR ''/''" and "d \<noteq> []"
  shows "\<exists>p. getAbsolutePath (Some d) f = Inr (Some p) \<and> p \<noteq> [] \<and> hd p = CHR ''/''"
proof (cases "cget (trim_path f) 0 = CHR ''/''")
  case True
  then show ?thesis by (cases "trim_path f") (auto simp: getAbsolutePath_def cget_def)
next
  case False
  let ?a = "if d \<noteq> [] \<and> last d \<noteq> CHR ''/'' then d @ ''/'' else d"
  have "?a \<noteq> []" "hd ?a = CHR ''/''" using assms by simp_all
  then obtain p where "up_dirs ?a (trim_path f) = Inr p" "p \<noteq> []" "hd p = CHR ''/''"
    using up_dirs_absolute by blast
  with False show ?thesis by (simp add: getAbsolutePath_def Let_def)
qed

text \<open>Options given as pairs of a name and a value: the last value of a name counts.\<close>

lemma parse_options_pairs:
  assumes "list_all (\<lambda>(k, v). nul_free k \<and> \<not> is_option v) kvs" and "dict_wf d"
  shows "\<exists>d'. parse_options (concat (map (\<lambda>(k, v). [''--'' @ k, v]) kvs)) None d = Inr d' \<and> dict_wf d' \<and>
    dict_map d' = foldl (\<lambda>m (k, v). m(k \<mapsto> v)) (dict_map d) kvs"
  using assms
proof (induction kvs arbitrary: d)
  case (Cons x kvs)
  obtain k v where x: "x = (k, v)" by fastforce
  have k: "nul_free k" "\<not> is_option v" using Cons.prems(1) x by auto
  obtain d1 where d1: "dict_set d k (Some v) = (d1, True, freed d k)" "dict_wf d1" "dict_map d1 = (dict_map d)(k \<mapsto> v)"
    by (rule dict_set_spec [of d k v, OF Cons.prems(2) k(1)])
  have opt: "is_option (CHR ''-'' # CHR ''-'' # k)" by (simp add: is_option_def cget_def)
  from Cons.IH [of d1] Cons.prems(1) d1 k(2) opt x show ?case by auto
qed simp

end
