(* ===== verification/Sha1.thy ===== *)
theory Sha1
  imports Prelude
begin

text \<open>
  The hash of \<^verbatim>\<open>sha1.c\<close>, on the little-endian target.

  The five working variables \<^verbatim>\<open>a\<close> to \<^verbatim>\<open>e\<close> are a list, so a round \<^verbatim>\<open>R0(a,b,c,d,e, 0)\<close> names them by
  their positions, and the block is the list of the sixteen words of the union. The eighty calls of the
  unrolled loop are those of the code. Reading and writing outside the data, the buffer of the context and the block is a
  fault; a loop that never ends gives \<open>None\<close>.

  The specification is the standard, FIPS 180: padding, an expanded schedule of eighty words and the
  compression of each block. The theorem: whatever the pieces in which a message is passed to
  \<^verbatim>\<open>SHA1Update\<close>, the digest is the one of the standard.
\<close>

section \<open>The model\<close>

record SHA1_CTX =
  hstate :: "u32 list"
  count0 :: u32
  count1 :: u32
  hbuffer :: "u8 list"

definition rol :: "u32 \<Rightarrow> nat \<Rightarrow> u32" where
  "rol v bits = push_bit bits v OR drop_bit (32 - bits) v"

definition blk0 :: "u32 list \<Rightarrow> nat \<Rightarrow> u32 list" where
  "blk0 l i = l[i := rol (l ! i) 24 AND 0xFF00FF00 OR rol (l ! i) 8 AND 0x00FF00FF]"

text \<open>\<^verbatim>\<open>i&15\<close> is \<open>i mod 16\<close>.\<close>

definition blk :: "u32 list \<Rightarrow> nat \<Rightarrow> u32 list" where
  "blk l i =
     l[i mod 16 := rol (l ! ((i + 13) mod 16) XOR l ! ((i + 8) mod 16) XOR l ! ((i + 2) mod 16) XOR l ! (i mod 16)) 1]"

text \<open>The variables and the block.\<close>

type_synonym work = "u32 list \<times> u32 list"

text \<open>\<^verbatim>\<open>z += t + rol(v,5); w = rol(w,30);\<close>, where the block has already been changed.\<close>

definition R_end :: "nat \<Rightarrow> nat \<Rightarrow> nat \<Rightarrow> u32 \<Rightarrow> u32 list \<Rightarrow> u32 list \<Rightarrow> work" where
  "R_end v w z t vs l =
     (let vs = vs[z := vs ! z + (t + rol (vs ! v) 5)] in (vs[w := rol (vs ! w) 30], l))"

definition R0 :: "nat \<Rightarrow> nat \<Rightarrow> nat \<Rightarrow> nat \<Rightarrow> nat \<Rightarrow> nat \<Rightarrow> work \<Rightarrow> work" where
  "R0 v w x y z i =
     (\<lambda>(vs, l). let l = blk0 l i in
        R_end v w z (((vs ! w AND (vs ! x XOR vs ! y)) XOR vs ! y) + l ! i + 0x5A827999) vs l)"

definition R1 :: "nat \<Rightarrow> nat \<Rightarrow> nat \<Rightarrow> nat \<Rightarrow> nat \<Rightarrow> nat \<Rightarrow> work \<Rightarrow> work" where
  "R1 v w x y z i =
     (\<lambda>(vs, l). let l = blk l i in
        R_end v w z (((vs ! w AND (vs ! x XOR vs ! y)) XOR vs ! y) + l ! (i mod 16) + 0x5A827999) vs l)"

definition R2 :: "nat \<Rightarrow> nat \<Rightarrow> nat \<Rightarrow> nat \<Rightarrow> nat \<Rightarrow> nat \<Rightarrow> work \<Rightarrow> work" where
  "R2 v w x y z i =
     (\<lambda>(vs, l). let l = blk l i in
        R_end v w z ((vs ! w XOR vs ! x XOR vs ! y) + l ! (i mod 16) + 0x6ED9EBA1) vs l)"

definition R3 :: "nat \<Rightarrow> nat \<Rightarrow> nat \<Rightarrow> nat \<Rightarrow> nat \<Rightarrow> nat \<Rightarrow> work \<Rightarrow> work" where
  "R3 v w x y z i =
     (\<lambda>(vs, l). let l = blk l i in
        R_end v w z (((vs ! w OR vs ! x) AND vs ! y OR (vs ! w AND vs ! x)) + l ! (i mod 16) + 0x8F1BBCDC) vs l)"

definition R4 :: "nat \<Rightarrow> nat \<Rightarrow> nat \<Rightarrow> nat \<Rightarrow> nat \<Rightarrow> nat \<Rightarrow> work \<Rightarrow> work" where
  "R4 v w x y z i =
     (\<lambda>(vs, l). let l = blk l i in
        R_end v w z ((vs ! w XOR vs ! x XOR vs ! y) + l ! (i mod 16) + 0xCA62C1D6) vs l)"

text \<open>A word of the union: four bytes, the least significant one first.\<close>

definition le32 :: "u8 list \<Rightarrow> u32" where
  "le32 bs = ucast (bs ! 0) OR push_bit 8 (ucast (bs ! 1)) OR push_bit 16 (ucast (bs ! 2)) OR push_bit 24 (ucast (bs ! 3))"

definition union_words :: "u8 list \<Rightarrow> u32 list" where
  "union_words bs = map (\<lambda>i. le32 (drop (4 * i) bs)) [0..<16]"

definition rounds :: "(work \<Rightarrow> work) list" where
  "rounds =
     [R0 0 1 2 3 4 0, R0 4 0 1 2 3 1, R0 3 4 0 1 2 2, R0 2 3 4 0 1 3,
      R0 1 2 3 4 0 4, R0 0 1 2 3 4 5, R0 4 0 1 2 3 6, R0 3 4 0 1 2 7,
      R0 2 3 4 0 1 8, R0 1 2 3 4 0 9, R0 0 1 2 3 4 10, R0 4 0 1 2 3 11,
      R0 3 4 0 1 2 12, R0 2 3 4 0 1 13, R0 1 2 3 4 0 14, R0 0 1 2 3 4 15,
      R1 4 0 1 2 3 16, R1 3 4 0 1 2 17, R1 2 3 4 0 1 18, R1 1 2 3 4 0 19,
      R2 0 1 2 3 4 20, R2 4 0 1 2 3 21, R2 3 4 0 1 2 22, R2 2 3 4 0 1 23,
      R2 1 2 3 4 0 24, R2 0 1 2 3 4 25, R2 4 0 1 2 3 26, R2 3 4 0 1 2 27,
      R2 2 3 4 0 1 28, R2 1 2 3 4 0 29, R2 0 1 2 3 4 30, R2 4 0 1 2 3 31,
      R2 3 4 0 1 2 32, R2 2 3 4 0 1 33, R2 1 2 3 4 0 34, R2 0 1 2 3 4 35,
      R2 4 0 1 2 3 36, R2 3 4 0 1 2 37, R2 2 3 4 0 1 38, R2 1 2 3 4 0 39,
      R3 0 1 2 3 4 40, R3 4 0 1 2 3 41, R3 3 4 0 1 2 42, R3 2 3 4 0 1 43,
      R3 1 2 3 4 0 44, R3 0 1 2 3 4 45, R3 4 0 1 2 3 46, R3 3 4 0 1 2 47,
      R3 2 3 4 0 1 48, R3 1 2 3 4 0 49, R3 0 1 2 3 4 50, R3 4 0 1 2 3 51,
      R3 3 4 0 1 2 52, R3 2 3 4 0 1 53, R3 1 2 3 4 0 54, R3 0 1 2 3 4 55,
      R3 4 0 1 2 3 56, R3 3 4 0 1 2 57, R3 2 3 4 0 1 58, R3 1 2 3 4 0 59,
      R4 0 1 2 3 4 60, R4 4 0 1 2 3 61, R4 3 4 0 1 2 62, R4 2 3 4 0 1 63,
      R4 1 2 3 4 0 64, R4 0 1 2 3 4 65, R4 4 0 1 2 3 66, R4 3 4 0 1 2 67,
      R4 2 3 4 0 1 68, R4 1 2 3 4 0 69, R4 0 1 2 3 4 70, R4 4 0 1 2 3 71,
      R4 3 4 0 1 2 72, R4 2 3 4 0 1 73, R4 1 2 3 4 0 74, R4 0 1 2 3 4 75,
      R4 4 0 1 2 3 76, R4 3 4 0 1 2 77, R4 2 3 4 0 1 78, R4 1 2 3 4 0 79]"

definition SHA1Transform :: "u32 list \<Rightarrow> u8 list \<Rightarrow> u32 list" where
  "SHA1Transform st block = map2 (+) st (fst (fold (\<lambda>r. r) rounds (st, union_words block)))"

definition SHA1Init :: "SHA1_CTX \<Rightarrow> SHA1_CTX" where
  "SHA1Init context =
     context\<lparr>hstate := [0x67452301, 0xEFCDAB89, 0x98BADCFE, 0x10325476, 0xC3D2E1F0], count0 := 0, count1 := 0\<rparr>"

text \<open>\<^verbatim>\<open>n\<close> bytes from \<^verbatim>\<open>&data[i]\<close>, and \<^verbatim>\<open>memcpy(&buffer[j], bs, ...)\<close>.\<close>

definition data_bytes :: "u8 list \<Rightarrow> nat \<Rightarrow> nat \<Rightarrow> u8 list result" where
  "data_bytes data i n = (if i + n \<le> length data then Inr (take n (drop i data)) else Inl OutOfBounds)"

definition copy_bytes :: "u8 list \<Rightarrow> nat \<Rightarrow> u8 list \<Rightarrow> u8 list result" where
  "copy_bytes buf j bs =
     (if j + length bs \<le> length buf then Inr (take j buf @ bs @ drop (j + length bs) buf) else Inl OutOfBounds)"

text \<open>\<^verbatim>\<open>for ( ; i + 63 < len; i += 64)\<close>\<close>

partial_function (option) update_loop :: "u8 list \<Rightarrow> u32 \<Rightarrow> u32 \<Rightarrow> u32 list \<Rightarrow> (u32 \<times> u32 list) result option" where
  "update_loop data len i st =
     (if i + 63 < len
      then case data_bytes data (unat i) 64 of
             Inl e \<Rightarrow> Some (Inl e)
           | Inr bs \<Rightarrow> update_loop data len (i + 64) (SHA1Transform st bs)
      else Some (Inr (i, st)))"

text \<open>The end of \<^verbatim>\<open>SHA1Update\<close>: \<^verbatim>\<open>memcpy(&context->buffer[j], &data[i], len - i)\<close>\<close>

definition update_rest :: "SHA1_CTX \<Rightarrow> u8 list \<Rightarrow> u32 \<Rightarrow> u32 \<Rightarrow> u32 \<Rightarrow> SHA1_CTX result" where
  "update_rest c data len j i =
     rbind (data_bytes data (unat i) (unat (len - i))) (\<lambda>bs.
     rbind (copy_bytes (hbuffer c) (unat j) bs) (\<lambda>b. Inr (c\<lparr>hbuffer := b\<rparr>)))"

definition add_count :: "SHA1_CTX \<Rightarrow> u32 \<Rightarrow> SHA1_CTX" where
  "add_count c len =
     (let j = count0 c;
          c = c\<lparr>count0 := count0 c + push_bit 3 len\<rparr>;
          c = (if count0 c < j then c\<lparr>count1 := count1 c + 1\<rparr> else c)
      in c\<lparr>count1 := count1 c + drop_bit 29 len\<rparr>)"

definition SHA1Update :: "SHA1_CTX \<Rightarrow> u8 list \<Rightarrow> u32 \<Rightarrow> SHA1_CTX result option" where
  "SHA1Update c data len =
     (let j = drop_bit 3 (count0 c) AND 63;
          c = add_count c len
      in if j + len > 63
         then case rbind (data_bytes data 0 (unat (64 - j))) (copy_bytes (hbuffer c) (unat j)) of
                Inl e \<Rightarrow> Some (Inl e)
              | Inr b \<Rightarrow>
                  (case update_loop data len (64 - j) (SHA1Transform (hstate c) b) of
                     None \<Rightarrow> None
                   | Some (Inl e) \<Rightarrow> Some (Inl e)
                   | Some (Inr (i, st)) \<Rightarrow> Some (update_rest (c\<lparr>hbuffer := b, hstate := st\<rparr>) data len 0 i))
         else Some (update_rest c data len j 0))"

text \<open>One byte of a word, \<^verbatim>\<open>(t >> ((3-(i & 3)) * 8)) & 255\<close>.\<close>

definition be_byte :: "u32 \<Rightarrow> nat \<Rightarrow> u8" where
  "be_byte t i = ucast (drop_bit ((3 - i mod 4) * 8) t AND 255)"

definition finalcount :: "SHA1_CTX \<Rightarrow> u8 list" where
  "finalcount c = map (\<lambda>i. be_byte (if i \<ge> 4 then count0 c else count1 c) i) [0..<8]"

text \<open>\<^verbatim>\<open>while ((context->count[0] & 504) != 448)\<close>\<close>

partial_function (option) pad_loop :: "SHA1_CTX \<Rightarrow> SHA1_CTX result option" where
  "pad_loop c =
     (if count0 c AND 504 \<noteq> 448
      then case SHA1Update c [0] 1 of
             None \<Rightarrow> None
           | Some (Inl e) \<Rightarrow> Some (Inl e)
           | Some (Inr c) \<Rightarrow> pad_loop c
      else Some (Inr c))"

definition then_run :: "'a result option \<Rightarrow> ('a \<Rightarrow> 'b result option) \<Rightarrow> 'b result option" where
  "then_run m f = (case m of None \<Rightarrow> None | Some (Inl e) \<Rightarrow> Some (Inl e) | Some (Inr x) \<Rightarrow> f x)"

text \<open>The digest; the context is wiped.\<close>

definition SHA1Final :: "SHA1_CTX \<Rightarrow> (u8 list \<times> SHA1_CTX) result option" where
  "SHA1Final c =
     (let fc = finalcount c in
      then_run (SHA1Update c [0x80] 1) (\<lambda>c.
      then_run (pad_loop c) (\<lambda>c.
      then_run (SHA1Update c fc 8) (\<lambda>c.
      Some (Inr (map (\<lambda>i. be_byte (hstate c ! (i div 4)) i) [0..<20],
        \<lparr>hstate = replicate 5 0, count0 = 0, count1 = 0, hbuffer = replicate 64 0\<rparr>))))))"

section \<open>Random strings\<close>

text \<open>
  \<^verbatim>\<open>getRandomHexChars\<close> of \<^verbatim>\<open>util.c\<close>, the only caller. Its static variables are a record; what is read from \<^verbatim>\<open>/dev/urandom\<close> (\<open>None\<close> when that
  fails), the time, the process number and the numbers from \<^verbatim>\<open>rand\<close> are parameters, as is what the context and the buffer
  of the caller hold before. Numbers are in memory with the least significant byte first.
\<close>

record random_state =
  seed_initialized :: bool
  seed :: "u8 list"
  counter :: u64

definition charset :: "u8 list" where
  "charset = map byte ''0123456789abcdef''"

definition hex_of :: "u8 \<Rightarrow> u8" where
  "hex_of b = charset ! unat (b AND 0x0F)"

definition counter_bytes :: "u64 \<Rightarrow> u8 list" where
  "counter_bytes n = map (\<lambda>i. ucast (drop_bit (8 * i) n)) [0..<8]"

definition random_digest :: "SHA1_CTX \<Rightarrow> u8 list \<Rightarrow> u64 \<Rightarrow> u8 list result option" where
  "random_digest ctx s n =
     then_run (SHA1Update (SHA1Init ctx) s 20) (\<lambda>ctx.
     then_run (SHA1Update ctx (counter_bytes n) 8) (\<lambda>ctx.
     then_run (SHA1Final ctx) (\<lambda>(digest, _). Some (Inr digest))))"

function random_loop :: "SHA1_CTX \<Rightarrow> u8 list \<Rightarrow> u64 \<Rightarrow> nat \<Rightarrow> (u8 list \<times> u64) result option" where
  "random_loop ctx s n len =
     (if len = 0 then Some (Inr ([], n))
      else
        let copylen = (if len > 20 then 20 else len) in
        case random_digest ctx s n of
          None \<Rightarrow> None
        | Some (Inl e) \<Rightarrow> Some (Inl e)
        | Some (Inr digest) \<Rightarrow>
            (case random_loop ctx s (n + 1) (len - copylen) of
               None \<Rightarrow> None
             | Some (Inl e) \<Rightarrow> Some (Inl e)
             | Some (Inr (p, n)) \<Rightarrow> Some (Inr (map hex_of (take copylen digest) @ p, n))))"
  by pat_completeness auto
termination
  by (relation "measure (\<lambda>(ctx, s, n, len). len)") auto

text \<open>\<^verbatim>\<open>if (l >= sizeof(v)) { memcpy(x,&v,sizeof(v)); l -= sizeof(v); x += sizeof(v); }\<close>\<close>

definition put_value :: "u8 list \<Rightarrow> u8 list \<times> nat \<Rightarrow> u8 list \<times> nat" where
  "put_value v = (\<lambda>(p, x).
     if length p - x \<ge> length v then (take x p @ v @ drop (x + length v) p, x + length v) else (p, x))"

definition getRandomHexChars ::
  "u8 list option \<Rightarrow> u8 list \<Rightarrow> u8 list \<Rightarrow> u8 list \<Rightarrow> u8 list \<Rightarrow> SHA1_CTX \<Rightarrow> random_state \<Rightarrow> u8 list \<Rightarrow> (u8 list \<times> random_state) result option" where
  "getRandomHexChars urandom tv_usec tv_sec pid rands ctx r p =
     (let r = (if seed_initialized r then r
               else case urandom of None \<Rightarrow> r | Some bs \<Rightarrow> r\<lparr>seed := bs, seed_initialized := True\<rparr>) in
      if seed_initialized r
      then then_run (random_loop ctx (seed r) (counter r) (length p)) (\<lambda>(p, n). Some (Inr (p, r\<lparr>counter := n\<rparr>)))
      else
        let (q, x) = put_value pid (put_value tv_sec (put_value tv_usec (p, 0)))
        in Some (Inr (map2 (\<lambda>b v. hex_of (b XOR v)) q rands, r)))"

section \<open>The standard\<close>

text \<open>FIPS 180: the functions, the constants, the schedule of a block and its compression.\<close>

definition be32 :: "u8 list \<Rightarrow> u32" where
  "be32 bs = ucast (bs ! 3) OR push_bit 8 (ucast (bs ! 2)) OR push_bit 16 (ucast (bs ! 1)) OR push_bit 24 (ucast (bs ! 0))"

definition ROTL :: "nat \<Rightarrow> u32 \<Rightarrow> u32" where
  "ROTL n x = word_rotl n x"

definition fips_f :: "nat \<Rightarrow> u32 \<Rightarrow> u32 \<Rightarrow> u32 \<Rightarrow> u32" where
  "fips_f t x y z =
     (if t < 20 then (x AND y) XOR (NOT x AND z)
      else if t < 40 then x XOR y XOR z
      else if t < 60 then (x AND y) XOR (x AND z) XOR (y AND z)
      else x XOR y XOR z)"

definition fips_K :: "nat \<Rightarrow> u32" where
  "fips_K t = (if t < 20 then 0x5A827999 else if t < 40 then 0x6ED9EBA1 else if t < 60 then 0x8F1BBCDC else 0xCA62C1D6)"

fun fips_W :: "u8 list \<Rightarrow> nat \<Rightarrow> u32" where
  "fips_W M t =
     (if t < 16 then be32 (drop (4 * t) M)
      else ROTL 1 (fips_W M (t - 3) XOR fips_W M (t - 8) XOR fips_W M (t - 14) XOR fips_W M (t - 16)))"

definition fips_step :: "u8 list \<Rightarrow> nat \<Rightarrow> u32 list \<Rightarrow> u32 list" where
  "fips_step M t h =
     [ROTL 5 (h ! 0) + fips_f t (h ! 1) (h ! 2) (h ! 3) + h ! 4 + fips_K t + fips_W M t,
      h ! 0, ROTL 30 (h ! 1), h ! 2, h ! 3]"

definition fips_block :: "u8 list \<Rightarrow> u32 list \<Rightarrow> u32 list" where
  "fips_block M h = map2 (+) h (fold (fips_step M) [0..<80] h)"

fun fips_blocks :: "u8 list \<Rightarrow> u32 list \<Rightarrow> u32 list" where
  "fips_blocks M h = (if length M < 64 then h else fips_blocks (drop 64 M) (fips_block (take 64 M) h))"

definition fips_pad :: "u8 list \<Rightarrow> u8 list" where
  "fips_pad m =
     m @ [0x80] @ replicate (nat ((55 - int (length m)) mod 64)) 0 @
     map (\<lambda>i. word_of_nat (8 * length m div 256 ^ (7 - i))) [0..<8]"

definition fips_H0 :: "u32 list" where
  "fips_H0 = [0x67452301, 0xEFCDAB89, 0x98BADCFE, 0x10325476, 0xC3D2E1F0]"

definition fips_sha1 :: "u8 list \<Rightarrow> u8 list" where
  "fips_sha1 m =
     concat (map (\<lambda>w. map (\<lambda>i. word_of_nat (unat w div 256 ^ (3 - i))) [0..<4])
       (fips_blocks (fips_pad m) fips_H0))"

declare random_loop.simps [simp del] fips_W.simps [simp del] fips_blocks.simps [simp del]

section \<open>The unrolled rounds\<close>

text \<open>Which variable plays the role \<open>k\<close> in round \<open>i\<close>, and the rounds by their number.\<close>

definition role :: "nat \<Rightarrow> nat \<Rightarrow> nat" where
  "role i k = (k + 4 * i) mod 5"

definition round :: "nat \<Rightarrow> work \<Rightarrow> work" where
  "round i =
     (if i < 16 then R0 else if i < 20 then R1 else if i < 40 then R2 else if i < 60 then R3 else R4)
       (role i 0) (role i 1) (role i 2) (role i 3) (role i 4) i"

lemma rounds_eq: "rounds = map round [0..<80]"
proof -
  have "[0..<80::nat] = 0 # 1 # [2..<80]" by (simp add: upt_rec [of 0] upt_rec [of "Suc 0"] numeral_2_eq_2)
  then show ?thesis unfolding rounds_def by (simp add: round_def role_def)
qed

lemma role_less [simp]: "role i k < 5"
  by (simp add: role_def)

lemma role_eq [simp]: "k < 5 \<Longrightarrow> k' < 5 \<Longrightarrow> role i k = role i k' \<longleftrightarrow> k = k'"
proof
  assume k: "k < 5" "k' < 5" and "role i k = role i k'"
  then have "((k + 4 * i) mod 5 + i) mod 5 = ((k' + 4 * i) mod 5 + i) mod 5" by (simp add: role_def)
  moreover have "((a + 4 * i) mod 5 + i) mod 5 = a mod 5" for a
    by (simp add: mod_add_left_eq)
  ultimately show "k = k'" using k by simp
qed simp

lemma role_shift: "role (Suc i) (Suc k) = role i k"
proof -
  have "Suc k + 4 * Suc i = k + 4 * i + 5" by simp
  then show ?thesis unfolding role_def by (simp only: mod_add_self2)
qed

lemma role_Suc [simp]:
  "role (Suc i) 0 = role i 4" "role (Suc i) (Suc 0) = role i 0" "role (Suc i) 2 = role i 1" "role (Suc i) 3 = role i 2"
  "role (Suc i) 4 = role i 3"
proof -
  show "role (Suc i) 0 = role i 4" by (simp add: role_def)
qed (use role_shift [of i 0] role_shift [of i 1] role_shift [of i 2] role_shift [of i 3] in \<open>simp_all add: eval_nat_numeral\<close>)

lemma All_less_32: "(\<forall>n<32. P n) \<longleftrightarrow> P 0 \<and> P 1 \<and> P 2 \<and> P 3 \<and> P 4 \<and> P 5 \<and> P 6 \<and> P 7 \<and> P 8 \<and> P 9 \<and> P 10 \<and> P 11 \<and> P 12 \<and>
    P 13 \<and> P 14 \<and> P 15 \<and> P 16 \<and> P 17 \<and> P 18 \<and> P 19 \<and> P 20 \<and> P 21 \<and> P 22 \<and> P 23 \<and> P 24 \<and> P 25 \<and> P 26 \<and> P 27 \<and>
    P 28 \<and> P 29 \<and> P 30 \<and> P (31::nat)"
  by (simp add: eval_nat_numeral All_less_Suc) blast

lemma word32_eqI: "(\<forall>n<32. bit v n = bit w n) \<Longrightarrow> v = (w :: u32)"
  by (rule bit_word_eqI) simp

lemma rol_ROTL:
  assumes "0 < n" and "n < 32"
  shows "rol v n = ROTL n v"
proof (rule bit_word_eqI)
  fix m assume "m < LENGTH(32)"
  then have m: "m < 32" by simp
  have idx: "(m + (32 - n)) mod 32 = (if m < n then m + (32 - n) else m - n)"
  proof (cases "m < n")
    case False
    then have eq: "m + (32 - n) = m - n + 32" using assms by simp
    have "(m - n + 32) mod 32 = (m - n) mod 32" by (rule mod_add_self2)
    with eq False m show ?thesis by (simp only: if_False mod_less less_imp_diff_less)
  qed (use assms in simp)
  have "bit (ROTL n v) m = bit v (if m < n then m + (32 - n) else m - n)"
    unfolding ROTL_def idx [symmetric] using m assms by (simp add: bit_word_rotl_iff del: add_Suc_right)
  also have "\<dots> = bit (rol v n) m"
    unfolding rol_def bit_or_iff bit_push_bit_iff bit_drop_bit_eq comp_def
    using m assms by (auto simp: add.commute dest: bit_imp_le_length)
  finally show "bit (rol v n) m = bit (ROTL n v) m" by simp
qed

lemma swap_bytes: "rol (le32 bs) 24 AND 0xFF00FF00 OR rol (le32 bs) 8 AND 0x00FF00FF = be32 bs"
proof (rule word32_eqI)
  have big: "\<not> bit (b :: u8) n" if "8 \<le> n" for b n using that by (auto dest: bit_imp_le_length)
  show "\<forall>n<32. bit (rol (le32 bs) 24 AND 0xFF00FF00 OR rol (le32 bs) 8 AND 0x00FF00FF) n = bit (be32 bs) n"
    unfolding All_less_32 by (simp add: rol_def le32_def be32_def bit_simps big)
qed

lemma choice_eq: "(w AND (x XOR y)) XOR y = (w AND x) XOR (NOT w AND y)" for w x y :: u32
  by (rule bit_word_eqI) (auto simp: bit_simps)

lemma majority_eq: "(w OR x) AND y OR (w AND x) = (w AND x) XOR (w AND y) XOR (x AND y)" for w x y :: u32
  by (rule bit_word_eqI) (auto simp: bit_simps)

text \<open>
  After \<open>t\<close> rounds the variables, in their roles, are those of the standard, and the block holds the
  last sixteen words of its schedule, the words not yet reached being those of the message.
\<close>

definition after_rounds :: "u8 list \<Rightarrow> u32 list \<Rightarrow> nat \<Rightarrow> work \<Rightarrow> bool" where
  "after_rounds M st t = (\<lambda>(vs, l). length vs = 5 \<and> length l = 16 \<and>
     (\<forall>k<5. vs ! role t k = fold (fips_step M) [0..<t] st ! k) \<and>
     (\<forall>s. s < t \<and> t \<le> s + 16 \<longrightarrow> l ! (s mod 16) = fips_W M s) \<and>
     (\<forall>s<16. t \<le> s \<longrightarrow> l ! s = le32 (drop (4 * s) M)))"

lemma fold_step_length: "length st = 5 \<Longrightarrow> length (fold (fips_step M) ts st) = 5"
  by (induction ts arbitrary: st) (simp_all add: fips_step_def)

text \<open>The block once round \<open>t\<close> has put its word there.\<close>

lemma blk0_after:
  assumes "after_rounds M st t (vs, l)" and "t < 16"
  shows "blk0 l t = l[t := fips_W M t]"
  using assms by (simp add: after_rounds_def blk0_def swap_bytes fips_W.simps [of M t])

lemma blk_after:
  assumes "after_rounds M st t (vs, l)" and "16 \<le> t"
  shows "blk l t = l[t mod 16 := fips_W M t]"
proof -
  have at: "l ! ((t + k) mod 16) = fips_W M (t + k - 16)" if "k < 16" for k
  proof -
    have "(t + k - 16) mod 16 = (t + k) mod 16" using assms(2) by (simp add: le_mod_geq)
    moreover have "l ! ((t + k - 16) mod 16) = fips_W M (t + k - 16)"
      using assms that by (simp add: after_rounds_def)
    ultimately show ?thesis by simp
  qed
  have "fips_W M t = rol (fips_W M (t - 3) XOR fips_W M (t - 8) XOR fips_W M (t - 14) XOR fips_W M (t - 16)) 1"
    using assms(2) by (subst fips_W.simps) (simp add: rol_ROTL)
  moreover have "t + 13 - 16 = t - 3" "t + 8 - 16 = t - 8" "t + 2 - 16 = t - 14" by simp_all
  ultimately show ?thesis using at [of 13] at [of 8] at [of 2] at [of 0] by (simp add: blk_def)
qed

text \<open>What a round makes of the variables, once it is known which word and which function it uses.\<close>

lemma R_end_after:
  assumes inv: "after_rounds M st t (vs, l)" and st: "length st = 5"
    and f: "T = fips_f t (vs ! role t 1) (vs ! role t 2) (vs ! role t 3) + fips_W M t + fips_K t"
  shows "after_rounds M st (Suc t) (R_end (role t 0) (role t 1) (role t 4) T vs (l[t mod 16 := fips_W M t]))"
proof -
  let ?h = "fold (fips_step M) [0..<t] st"
  let ?vs = "vs[role t 4 := vs ! role t 4 + (T + rol (vs ! role t 0) 5)]"
  have len: "length vs = 5" "length l = 16" and h: "\<forall>k<5. vs ! role t k = ?h ! k"
    using inv by (simp_all add: after_rounds_def)
  have step: "fold (fips_step M) [0..<Suc t] st = fips_step M t ?h" by simp
  have vars: "\<forall>k<5. ?vs[role t 1 := rol (?vs ! role t 1) 30] ! role (Suc t) k = fips_step M t ?h ! k"
  proof (intro allI impI)
    fix k :: nat assume "k < 5"
    then consider "k = 0" | "k = 1" | "k = 2" | "k = 3" | "k = 4" by linarith
    then show "?vs[role t 1 := rol (?vs ! role t 1) 30] ! role (Suc t) k = fips_step M t ?h ! k"
    proof cases
      case 1
      then show ?thesis using h len f by (simp add: fips_step_def rol_ROTL ac_simps)
    qed (use h len in \<open>simp_all add: fips_step_def rol_ROTL\<close>)
  qed
  have old: "l[t mod 16 := fips_W M t] ! (s mod 16) = fips_W M s" if "s < Suc t" "Suc t \<le> s + 16" for s
  proof (cases "s = t")
    case False
    have "s mod 16 \<noteq> t mod 16"
    proof
      assume "s mod 16 = t mod 16"
      then have "16 dvd t - s" using that(1) by (metis less_Suc_eq_le mod_eq_dvd_iff_nat)
      then have "16 \<le> t - s" using that(1) False by (auto dest: dvd_imp_le)
      with that show False by simp
    qed
    with False that inv show ?thesis by (simp add: after_rounds_def)
  qed (use len in simp)
  have raw: "l[t mod 16 := fips_W M t] ! s = le32 (drop (4 * s) M)" if "s < 16" "Suc t \<le> s" for s
    using that inv by (simp add: after_rounds_def)
  show ?thesis
    using vars old raw len by (simp add: after_rounds_def R_end_def Let_def step del: upt_Suc)
qed

lemma round_after:
  assumes "after_rounds M st t w" and "length st = 5" and "t < 80"
  shows "after_rounds M st (Suc t) (round t w)"
proof -
  obtain vs l where w: "w = (vs, l)" by fastforce
  note inv = assms(1) [unfolded w]
  note R = R_end_after [OF inv assms(2)]
  have len: "length l = 16" using inv by (simp add: after_rounds_def)
  consider "t < 16" | "16 \<le> t" "t < 20" | "20 \<le> t" "t < 40" | "40 \<le> t" "t < 60" | "60 \<le> t" using assms(3) by linarith
  then show ?thesis
  proof cases
    case 1
    have "after_rounds M st (Suc t) (R_end (role t 0) (role t 1) (role t 4)
        (((vs ! role t 1 AND (vs ! role t 2 XOR vs ! role t 3)) XOR vs ! role t 3) + fips_W M t + 0x5A827999) vs (l[t mod 16 := fips_W M t]))"
      by (rule R) (use 1 in \<open>simp add: fips_f_def fips_K_def choice_eq\<close>)
    with 1 len show ?thesis by (simp add: w round_def R0_def Let_def blk0_after [OF inv 1])
  next
    case 2
    have "after_rounds M st (Suc t) (R_end (role t 0) (role t 1) (role t 4)
        (((vs ! role t 1 AND (vs ! role t 2 XOR vs ! role t 3)) XOR vs ! role t 3) + fips_W M t + 0x5A827999) vs (l[t mod 16 := fips_W M t]))"
      by (rule R) (use 2 in \<open>simp add: fips_f_def fips_K_def choice_eq\<close>)
    with 2 len show ?thesis by (simp add: w round_def R1_def Let_def blk_after [OF inv])
  next
    case 3
    have "after_rounds M st (Suc t) (R_end (role t 0) (role t 1) (role t 4)
        ((vs ! role t 1 XOR vs ! role t 2 XOR vs ! role t 3) + fips_W M t + 0x6ED9EBA1) vs (l[t mod 16 := fips_W M t]))"
      by (rule R) (use 3 in \<open>simp add: fips_f_def fips_K_def\<close>)
    with 3 len show ?thesis by (simp add: w round_def R2_def Let_def blk_after [OF inv])
  next
    case 4
    have "after_rounds M st (Suc t) (R_end (role t 0) (role t 1) (role t 4)
        (((vs ! role t 1 OR vs ! role t 2) AND vs ! role t 3 OR (vs ! role t 1 AND vs ! role t 2)) + fips_W M t + 0x8F1BBCDC) vs (l[t mod 16 := fips_W M t]))"
      by (rule R) (use 4 in \<open>simp add: fips_f_def fips_K_def majority_eq\<close>)
    with 4 len show ?thesis by (simp add: w round_def R3_def Let_def blk_after [OF inv])
  next
    case 5
    have "after_rounds M st (Suc t) (R_end (role t 0) (role t 1) (role t 4)
        ((vs ! role t 1 XOR vs ! role t 2 XOR vs ! role t 3) + fips_W M t + 0xCA62C1D6) vs (l[t mod 16 := fips_W M t]))"
      by (rule R) (use 5 in \<open>simp add: fips_f_def fips_K_def\<close>)
    with 5 len show ?thesis by (simp add: w round_def R4_def Let_def blk_after [OF inv])
  qed
qed

lemma rounds_after:
  assumes "length st = 5" and "t \<le> 80"
  shows "after_rounds M st t (fold (\<lambda>r. r) (map round [0..<t]) (st, union_words M))"
  using assms(2)
proof (induction t)
  case 0
  have "st ! role 0 k = st ! k" if "k < 5" for k using that by (simp add: role_def)
  then show ?case using assms(1) by (simp add: after_rounds_def union_words_def)
next
  case (Suc t)
  then show ?case using round_after [OF _ assms(1)] by simp
qed

lemma SHA1Transform_fips:
  assumes "length st = 5"
  shows "SHA1Transform st M = fips_block M st"
proof -
  obtain vs l where w: "fold (\<lambda>r. r) (map round [0..<80]) (st, union_words M) = (vs, l)" by fastforce
  have "after_rounds M st 80 (vs, l)" using rounds_after [OF assms, where M = M and t = 80] w by simp
  then have "length vs = 5" and h: "\<forall>k<5. vs ! role 80 k = fold (fips_step M) [0..<80] st ! k"
    by (simp_all add: after_rounds_def)
  moreover have "role 80 k = k" if "k < 5" for k using that mod_mult_self2 [of k 5 64] by (simp add: role_def)
  ultimately have "vs = fold (fips_step M) [0..<80] st"
    using fold_step_length [OF assms, of M "[0..<80]"] by (intro nth_equalityI) (simp_all del: upt.simps)
  then show ?thesis by (simp add: SHA1Transform_def rounds_eq fips_block_def w)
qed

section \<open>Updating a context\<close>

lemma fips_block_length: "length h = 5 \<Longrightarrow> length (fips_block M h) = 5"
  using fold_step_length [of h M] by (simp add: fips_block_def)

lemma fips_blocks_short: "length M < 64 \<Longrightarrow> fips_blocks M h = h"
  by (simp add: fips_blocks.simps)

lemma fips_blocks_Cons: "length B = 64 \<Longrightarrow> fips_blocks (B @ M) h = fips_blocks M (fips_block B h)"
  by (subst fips_blocks.simps) simp

lemma fips_blocks_append: "length a = 64 * n \<Longrightarrow> fips_blocks (a @ b) h = fips_blocks b (fips_blocks a h)"
proof (induction n arbitrary: a h)
  case (Suc n)
  have a: "a = take 64 a @ drop 64 a" and len: "length (take 64 a) = 64" "length (drop 64 a) = 64 * n"
    using Suc.prems by simp_all
  have "fips_blocks (a @ b) h = fips_blocks (take 64 a @ drop 64 a @ b) h" by (simp add: append_assoc [symmetric] del: append_assoc)
  also have "\<dots> = fips_blocks b (fips_blocks (drop 64 a) (fips_block (take 64 a) h))"
    by (simp only: fips_blocks_Cons [OF len(1)] Suc.IH [OF len(2)])
  also have "\<dots> = fips_blocks b (fips_blocks a h)"
    by (subst (2) a) (simp only: fips_blocks_Cons [OF len(1)])
  finally show ?case .
qed (simp add: fips_blocks_short)

lemma fips_blocks_length: "length h = 5 \<Longrightarrow> length (fips_blocks M h) = 5"
proof (induction M h rule: fips_blocks.induct)
  case (1 M h)
  then show ?case by (subst fips_blocks.simps) (simp add: fips_block_length)
qed

text \<open>The part of a message that does not fill a block.\<close>

definition tail_of :: "u8 list \<Rightarrow> u8 list" where
  "tail_of m = drop (64 * (length m div 64)) m"

lemma tail_of_length [simp]: "length (tail_of m) = length m mod 64"
  by (simp add: tail_of_def minus_mult_div_eq_mod)

lemma tail_of_append: "length a = 64 * n \<Longrightarrow> tail_of (a @ b) = tail_of b"
  by (simp add: tail_of_def)

lemma split_tail:
  obtains full where "m = full @ tail_of m" and "length full = 64 * (length m div 64)"
proof
  show "m = take (64 * (length m div 64)) m @ tail_of m" by (simp add: tail_of_def)
qed simp

lemma tail_of_short: "length m < 64 \<Longrightarrow> tail_of m = m"
  by (simp add: tail_of_def)

text \<open>The context after the message \<open>m\<close>.\<close>

definition ctx_is :: "SHA1_CTX \<Rightarrow> u8 list \<Rightarrow> bool" where
  "ctx_is c m \<longleftrightarrow> hstate c = fips_blocks m fips_H0 \<and> length (hbuffer c) = 64 \<and>
     take (length m mod 64) (hbuffer c) = tail_of m \<and>
     count0 c = word_of_nat (8 * length m) \<and> count1 c = word_of_nat (8 * length m div 2 ^ 32)"

lemma fips_H0_length [simp]: "length fips_H0 = 5"
  by (simp add: fips_H0_def)

lemma ctx_is_length: "ctx_is c m \<Longrightarrow> length (hstate c) = 5"
  by (simp add: ctx_is_def fips_blocks_length)

lemma mod_sum_less: "a < P \<Longrightarrow> b < P \<Longrightarrow> (a + b) mod P < a \<longleftrightarrow> P \<le> a + b" for a b P :: nat
  by (cases "a + b < P") (auto simp: le_mod_geq)

lemma add_count_adds:
  assumes "count0 c = word_of_nat n" and "count1 c = word_of_nat (n div 2 ^ 32)"
  shows "count0 (add_count c len) = word_of_nat (n + 8 * unat len)"
    and "count1 (add_count c len) = word_of_nat ((n + 8 * unat len) div 2 ^ 32)"
    and "hstate (add_count c len) = hstate c" and "hbuffer (add_count c len) = hbuffer c"
proof -
  define L where "L = unat len"
  have len: "len = word_of_nat L" by (simp add: L_def)
  have lo: "push_bit 3 len = (word_of_nat (8 * L) :: u32)" by (simp add: push_bit_eq_mult len)
  have hi: "drop_bit 29 len = (word_of_nat (L div 2 ^ 29) :: u32)"
    by (simp add: L_def drop_bit_eq_div word_arith_nat_div)
  have carry: "(word_of_nat (n + 8 * L) :: u32) < word_of_nat n \<longleftrightarrow> 2 ^ 32 \<le> n mod 2 ^ 32 + 8 * L mod 2 ^ 32"
  proof -
    have u: "unat (word_of_nat k :: u32) = k mod 2 ^ 32" for k by (simp add: unat_of_nat)
    have "(n + 8 * L) mod 2 ^ 32 = (n mod 2 ^ 32 + 8 * L mod 2 ^ 32) mod 2 ^ 32" by (simp only: mod_add_eq)
    moreover have lt: "n mod 2 ^ 32 < 2 ^ 32" "8 * L mod 2 ^ 32 < 2 ^ 32" by simp_all
    ultimately show ?thesis unfolding word_less_nat_alt u by (simp only: mod_sum_less [OF lt])
  qed
  have div: "(n + 8 * L) div 2 ^ 32 = n div 2 ^ 32 + L div 2 ^ 29 + (if 2 ^ 32 \<le> n mod 2 ^ 32 + 8 * L mod 2 ^ 32 then 1 else 0)"
  proof -
    have "8 * L div 2 ^ 32 = L div 2 ^ 29" by simp
    moreover have "(n mod 2 ^ 32 + 8 * L mod 2 ^ 32) div 2 ^ 32 = (if 2 ^ 32 \<le> n mod 2 ^ 32 + 8 * L mod 2 ^ 32 then 1 else 0)"
    proof -
      have "n mod 2 ^ 32 < 2 ^ 32" "8 * L mod 2 ^ 32 < 2 ^ 32" by simp_all
      then have "n mod 2 ^ 32 + 8 * L mod 2 ^ 32 < 2 * 2 ^ 32" by linarith
      then show ?thesis by (auto simp: div_if [of _ "n mod 2 ^ 32 + 8 * L mod 2 ^ 32"])
    qed
    ultimately show ?thesis using div_add1_eq [of n "8 * L" "2 ^ 32"] by simp
  qed
  have c0: "count0 c + push_bit 3 len = (word_of_nat (n + 8 * L) :: u32)" by (simp add: assms(1) lo)
  show "count0 (add_count c len) = word_of_nat (n + 8 * unat len)"
    using c0 by (simp add: add_count_def Let_def L_def)
  show "count1 (add_count c len) = word_of_nat ((n + 8 * unat len) div 2 ^ 32)"
    unfolding L_def [symmetric] div using c0 carry
    by (simp add: add_count_def Let_def assms hi)
qed (simp_all add: add_count_def Let_def)

text \<open>The loop over the whole blocks of the data.\<close>

lemma update_loop_blocks:
  assumes "unat len = length data" and "length data + 63 < 2 ^ 32"
  shows "unat i \<le> length data \<Longrightarrow> length st = 5 \<Longrightarrow>
    \<exists>i'. update_loop data len i st = Some (Inr (i', fips_blocks (drop (unat i) data) st)) \<and>
      unat i' \<le> length data \<and> drop (unat i') data = tail_of (drop (unat i) data)"
proof (induction "length data - unat i" arbitrary: i st rule: less_induct)
  case less
  have i63: "unat (i + 63) = unat i + 63" using less.prems(1) assms(2) by (simp add: unat_add_lem [THEN iffD1])
  show ?case
  proof (cases "unat i + 63 < length data")
    case False
    then have "\<not> i + 63 < len" using i63 assms(1) by (simp add: word_less_nat_alt)
    then show ?thesis
      using False less.prems by (subst update_loop.simps) (simp add: fips_blocks_short tail_of_short)
  next
    case True
    have i64: "unat (i + 64) = unat i + 64" using True assms(2) by (simp add: unat_add_lem [THEN iffD1])
    let ?B = "take 64 (drop (unat i) data)"
    have B: "drop (unat i) data = ?B @ drop (unat (i + 64)) data" "length ?B = 64"
      using True append_take_drop_id [of 64 "drop (unat i) data"] by (simp_all add: i64 add.commute)
    have "update_loop data len i st = update_loop data len (i + 64) (fips_block ?B st)"
      using True i63 assms(1) less.prems(2)
      by (subst update_loop.simps) (simp add: word_less_nat_alt data_bytes_def SHA1Transform_fips)
    moreover have "\<exists>i'. update_loop data len (i + 64) (fips_block ?B st) =
          Some (Inr (i', fips_blocks (drop (unat (i + 64)) data) (fips_block ?B st))) \<and>
        unat i' \<le> length data \<and> drop (unat i') data = tail_of (drop (unat (i + 64)) data)"
      by (rule less.hyps) (use True i64 less.prems fips_block_length in simp_all)
    moreover have "fips_blocks (drop (unat i) data) st = fips_blocks (drop (unat (i + 64)) data) (fips_block ?B st)"
      by (subst B(1)) (rule fips_blocks_Cons [OF B(2)])
    moreover have "tail_of (drop (unat i) data) = tail_of (drop (unat (i + 64)) data)"
      by (subst B(1)) (rule tail_of_append [where n = 1], use B(2) in simp)
    ultimately show ?thesis by simp
  qed
qed

lemma in_buffer: "unat (drop_bit 3 (word_of_nat (8 * n) :: u32) AND 63) = n mod 64"
proof -
  have "unat (drop_bit 3 (word_of_nat (8 * n) :: u32) AND mask 6) = (8 * n mod 2 ^ 32) div 8 mod 64"
    unfolding take_bit_eq_mask [symmetric] take_bit_eq_mod drop_bit_eq_div
    by (simp add: unat_mod unat_div unat_of_nat del: of_nat_mult)
  also have "\<dots> = n mod 64"
  proof -
    have "8 * n mod 2 ^ 32 = 8 * (n mod 2 ^ 29)" using mult_mod_right [of 8 n "2 ^ 29"] by simp
    then show ?thesis by (simp add: mod_mod_cancel)
  qed
  finally show ?thesis by (simp add: mask_eq_exp_minus_1)
qed

text \<open>Filling the buffer to a block.\<close>

lemma fill_block:
  assumes "length m mod 64 + length d = 64"
  shows "fips_blocks (m @ d) h = fips_block (tail_of m @ d) (fips_blocks m h)" and "tail_of (m @ d) = []"
    and "length (m @ d) = 64 * (length m div 64 + 1)"
proof -
  obtain full where m: "m = full @ tail_of m" "length full = 64 * (length m div 64)" by (rule split_tail)
  have "fips_blocks (m @ d) h = fips_blocks ((tail_of m @ d) @ []) (fips_blocks full h)"
    by (subst m(1)) (simp add: fips_blocks_append [OF m(2)])
  also have "\<dots> = fips_block (tail_of m @ d) (fips_blocks full h)"
    by (subst fips_blocks_Cons) (simp_all add: assms fips_blocks_short)
  also have "fips_blocks full h = fips_blocks m h"
    by (subst m(1)) (simp add: fips_blocks_append [OF m(2)] fips_blocks_short)
  finally show "fips_blocks (m @ d) h = fips_block (tail_of m @ d) (fips_blocks m h)" .
  have "a mod 64 + b = 64 \<Longrightarrow> a + b = 64 * (a div 64 + 1)" for a b :: nat by presburger
  from this [OF assms] show "length (m @ d) = 64 * (length m div 64 + 1)" by simp
  then show "tail_of (m @ d) = []" by (simp add: tail_of_def)
qed

text \<open>Adding less than a block.\<close>

lemma stay_in_block:
  assumes "length m mod 64 + length d < 64"
  shows "fips_blocks (m @ d) h = fips_blocks m h" and "tail_of (m @ d) = tail_of m @ d"
    and "(length m + length d) mod 64 = length m mod 64 + length d"
proof -
  obtain full where m: "m = full @ tail_of m" "length full = 64 * (length m div 64)" by (rule split_tail)
  have "fips_blocks (full @ tail_of m @ d) h = fips_blocks (full @ tail_of m) h"
    using assms by (simp add: fips_blocks_append [OF m(2)] fips_blocks_short)
  then show "fips_blocks (m @ d) h = fips_blocks m h" using m(1) by (metis append_assoc)
  have "tail_of (full @ tail_of m @ d) = tail_of (tail_of m @ d)" by (rule tail_of_append [OF m(2)])
  also have "\<dots> = tail_of m @ d" by (rule tail_of_short) (use assms in simp)
  finally show tail: "tail_of (m @ d) = tail_of m @ d" using m(1) by (metis append_assoc)
  then show "(length m + length d) mod 64 = length m mod 64 + length d"
    by (metis length_append tail_of_length)
qed

text \<open>The new buffer when the rest of the data replaces its beginning.\<close>

lemma update_rest_is:
  assumes "unat len = length data" and "unat i \<le> length data" and "drop (unat i) data = tail_of m"
    and "length (hbuffer c) = 64" and "hstate c = fips_blocks m fips_H0"
    and "count0 c = word_of_nat (8 * length m)" and "count1 c = word_of_nat (8 * length m div 2 ^ 32)"
  shows "\<exists>c'. update_rest c data len 0 i = Inr c' \<and> ctx_is c' m"
proof -
  have "length data - unat i = length m mod 64" using assms(3) by (metis length_drop tail_of_length)
  moreover have "unat (len - i) = length data - unat i" using assms(1,2) by (simp add: unat_sub word_le_nat_alt)
  ultimately have "update_rest c data len 0 i = Inr (c\<lparr>hbuffer := tail_of m @ drop (length m mod 64) (hbuffer c)\<rparr>)"
    using assms(2-4) by (simp add: update_rest_def data_bytes_def copy_bytes_def)
  then show ?thesis using assms(4-7) by (simp add: ctx_is_def)
qed

lemma SHA1Update_adds:
  assumes c: "ctx_is c m" and len: "unat len = length data" "length data + 63 < 2 ^ 32"
  shows "\<exists>c'. SHA1Update c data len = Some (Inr c') \<and> ctx_is c' (m @ data)"
proof -
  define j where "j = drop_bit 3 (count0 c) AND 63"
  define c1 where "c1 = add_count c len"
  have c0: "count0 c = word_of_nat (8 * length m)" "count1 c = word_of_nat (8 * length m div 2 ^ 32)" using c by (simp_all add: ctx_is_def)
  have j: "unat j = length m mod 64" unfolding j_def c0(1) by (rule in_buffer)
  note cnt = add_count_adds [OF c0, of len, folded c1_def]
  have c1: "hstate c1 = fips_blocks m fips_H0" "length (hbuffer c1) = 64" "take (unat j) (hbuffer c1) = tail_of m"
    "count0 c1 = word_of_nat (8 * length (m @ data))" "count1 c1 = word_of_nat (8 * length (m @ data) div 2 ^ 32)"
    using c cnt len(1) by (simp_all add: ctx_is_def j del: of_nat_add of_nat_mult)
  have sum: "unat (j + len) = unat j + length data"
  proof -
    have "unat j < 64" by (simp add: j)
    then show ?thesis using len by (simp add: unat_add_lem [THEN iffD1])
  qed
  have Up: "SHA1Update c data len =
      (if j + len > 63
       then case rbind (data_bytes data 0 (unat (64 - j))) (copy_bytes (hbuffer c1) (unat j)) of
              Inl e \<Rightarrow> Some (Inl e)
            | Inr b \<Rightarrow>
                (case update_loop data len (64 - j) (SHA1Transform (hstate c1) b) of
                   None \<Rightarrow> None
                 | Some (Inl e) \<Rightarrow> Some (Inl e)
                 | Some (Inr (i, st)) \<Rightarrow> Some (update_rest (c1\<lparr>hbuffer := b, hstate := st\<rparr>) data len 0 i))
       else Some (update_rest c1 data len j 0))"
    unfolding SHA1Update_def j_def c1_def Let_def by (rule refl)
  show ?thesis
  proof (cases "unat j + length data > 63")
    case False
    then have "\<not> j + len > 63" using sum by (simp add: word_less_nat_alt)
    moreover have "length m mod 64 + length data < 64" using False j by simp
    note stay_in_block [OF this]
    ultimately show ?thesis
      using False c1 len(1) j by (simp add: Up update_rest_def data_bytes_def copy_bytes_def ctx_is_def)
  next
    case True
    let ?k = "64 - unat j"
    let ?d = "take ?k data"
    let ?b = "tail_of m @ ?d"
    have jk: "unat (64 - j) = ?k" "unat j < 64" using j by (simp_all add: unat_sub word_le_nat_alt)
    have fill: "length m mod 64 + length ?d = 64" using True j jk(2) by simp
    have copy: "rbind (data_bytes data 0 (unat (64 - j))) (copy_bytes (hbuffer c1) (unat j)) = Inr ?b"
      using True jk j c1(2,3) by (simp add: data_bytes_def copy_bytes_def)
    have st: "SHA1Transform (hstate c1) ?b = fips_blocks (m @ ?d) fips_H0"
      using fill_block(1) [OF fill] c1(1) by (simp add: SHA1Transform_fips fips_blocks_length)
    have room: "?k \<le> length data" using True by simp
    obtain i where i: "update_loop data len (64 - j) (fips_blocks (m @ ?d) fips_H0) =
        Some (Inr (i, fips_blocks (drop ?k data) (fips_blocks (m @ ?d) fips_H0)))"
      "unat i \<le> length data" "drop (unat i) data = tail_of (drop ?k data)"
      using update_loop_blocks [OF len, of "64 - j" "fips_blocks (m @ ?d) fips_H0"] room unfolding jk(1)
      by (auto simp: fips_blocks_length)
    have all: "m @ data = (m @ ?d) @ drop ?k data" by simp
    have blocks: "fips_blocks (m @ data) fips_H0 = fips_blocks (drop ?k data) (fips_blocks (m @ ?d) fips_H0)"
      by (subst all) (rule fips_blocks_append [OF fill_block(3) [OF fill]])
    have tail: "tail_of (m @ data) = drop (unat i) data"
      unfolding i(3) by (subst all) (rule tail_of_append [OF fill_block(3) [OF fill]])
    have "SHA1Update c data len = Some (update_rest (c1\<lparr>hbuffer := ?b, hstate := fips_blocks (m @ data) fips_H0\<rparr>) data len 0 i)"
    proof -
      have "j + len > 63" using True sum by (simp add: word_less_nat_alt)
      then show ?thesis by (simp add: Up copy st i(1) blocks)
    qed
    moreover have "\<exists>c'. update_rest (c1\<lparr>hbuffer := ?b, hstate := fips_blocks (m @ data) fips_H0\<rparr>) data len 0 i = Inr c' \<and> ctx_is c' (m @ data)"
      by (rule update_rest_is [OF len(1) i(2) tail [symmetric]]) (use fill c1(4,5) in simp_all)
    ultimately show ?thesis by auto
  qed
qed

section \<open>Padding and the digest\<close>

lemma pad_done:
  assumes "ctx_is c m"
  shows "count0 c AND 504 = 448 \<longleftrightarrow> length m mod 64 = 56"
proof -
  have split: "w AND 504 = push_bit 3 (drop_bit 3 w AND 63)" for w :: u32
    by (rule word32_eqI) (simp add: All_less_32 bit_simps)
  let ?x = "drop_bit 3 (word_of_nat (8 * length m) :: u32) AND 63"
  have x: "unat ?x = length m mod 64" by (rule in_buffer)
  have "count0 c AND 504 = push_bit 3 ?x" using assms split by (simp add: ctx_is_def)
  moreover have "unat (push_bit 3 ?x) = 8 * (length m mod 64)"
    by (simp add: push_bit_eq_mult unat_word_ariths(2) x del: of_nat_mult)
  ultimately show ?thesis by (simp add: word_unat_eq_iff)
qed

lemma pad_loop_pads:
  "ctx_is c m \<Longrightarrow> (length m + k) mod 64 = 56 \<Longrightarrow> k < 64 \<Longrightarrow> \<exists>c'. pad_loop c = Some (Inr c') \<and> ctx_is c' (m @ replicate k 0)"
proof (induction k arbitrary: c m)
  case 0
  then show ?case by (subst pad_loop.simps) (simp add: pad_done)
next
  case (Suc k)
  have "a mod 64 \<noteq> 56" if "(a + Suc k) mod 64 = 56" for a
  proof
    assume "a mod 64 = 56"
    then have "(56 + Suc k) mod 64 = 56" using that by (metis mod_add_left_eq)
    then show False using Suc.prems(3) by (simp add: mod_if split: if_splits)
  qed
  then have go: "count0 c AND 504 \<noteq> 448" using Suc.prems by (simp add: pad_done)
  obtain c1 where c1: "SHA1Update c [0] 1 = Some (Inr c1)" "ctx_is c1 (m @ [0])"
    using SHA1Update_adds [OF Suc.prems(1), of 1 "[0]"] by auto
  obtain c' where "pad_loop c1 = Some (Inr c')" "ctx_is c' ((m @ [0]) @ replicate k 0)"
    using Suc.IH [OF c1(2)] Suc.prems(2,3) by auto
  with go c1 show ?case by (subst pad_loop.simps) simp
qed

lemma be_byte_drop: "be_byte t i = word_of_nat (drop_bit (8 * (3 - i mod 4)) (unat t))"
proof -
  have "ucast (x AND 255) = (word_of_nat (unat x) :: u8)" for x :: u32
  proof -
    have "(ucast (x AND 255) :: u8) = ucast x"
      by (rule bit_word_eqI) (auto simp: bit_simps less_Suc_eq eval_nat_numeral)
    then show ?thesis by simp
  qed
  then show ?thesis by (simp add: be_byte_def mult.commute flip: unat_drop_bit_eq)
qed

lemma div_256: "x div 256 ^ k = drop_bit (8 * k) (x :: nat)"
  by (simp add: drop_bit_eq_div power_mult)

lemma finalcount_bytes:
  assumes "ctx_is c m" and "8 * length m < 2 ^ 64"
  shows "finalcount c = map (\<lambda>i. word_of_nat (8 * length m div 256 ^ (7 - i))) [0..<8]"
proof -
  let ?n = "8 * length m"
  have c: "count0 c = word_of_nat ?n" "count1 c = word_of_nat (drop_bit 32 ?n)"
    using assms(1) by (simp_all add: ctx_is_def drop_bit_eq_div)
  have "be_byte (if i \<ge> 4 then count0 c else count1 c) i = word_of_nat (drop_bit (8 * (7 - i)) ?n)" if "i < 8" for i
  proof (cases "i \<ge> 4")
    case True
    then have "i mod 4 = i - 4" using that by (simp add: le_mod_geq)
    then show ?thesis
      using True that unfolding be_byte_drop c
      by (simp add: unsigned_of_nat word_of_nat_eq_iff drop_bit_take_bit del: of_nat_mult)
  next
    case False
    have "drop_bit (8 * (3 - i)) (drop_bit 32 ?n) = drop_bit (8 * (7 - i)) ?n"
    proof -
      have "8 * (3 - i) + 32 = 8 * (7 - i)" using False by simp
      then show ?thesis by (simp only: drop_bit_drop_bit)
    qed
    with False show ?thesis
      unfolding be_byte_drop c
      by (simp add: unsigned_of_nat word_of_nat_eq_iff drop_bit_take_bit del: of_nat_mult)
  qed
  then show ?thesis unfolding finalcount_def div_256 by simp
qed

lemma digest_bytes:
  assumes "length h = 5"
  shows "map (\<lambda>i. be_byte (h ! (i div 4)) i) [0..<20] =
    concat (map (\<lambda>w. map (\<lambda>i. word_of_nat (unat w div 256 ^ (3 - i))) [0..<4]) h)"
proof -
  obtain a b c d e where h: "h = [a, b, c, d, e]"
    using assms by (auto simp: eval_nat_numeral length_Suc_conv)
  have u: "[0..<20::nat] = 0 # 1 # [2..<20]" "[0..<4::nat] = 0 # 1 # [2..<4]"
    by (simp_all add: upt_rec [of 0] upt_rec [of "Suc 0"] numeral_2_eq_2)
  show ?thesis unfolding h u by (simp add: be_byte_drop div_256)
qed

text \<open>\<^verbatim>\<open>SHA1Update\<close> on the pieces of a message.\<close>

fun update_all :: "u8 list list \<Rightarrow> SHA1_CTX \<Rightarrow> SHA1_CTX result option" where
  "update_all [] c = Some (Inr c)"
| "update_all (d # ds) c = then_run (SHA1Update c d (word_of_nat (length d))) (update_all ds)"

lemma then_run_simps [simp]: "then_run (Some (Inr x)) f = f x"
  by (simp add: then_run_def)

lemma update_all_adds:
  "ctx_is c m \<Longrightarrow> \<forall>d\<in>set ds. length d + 63 < 2 ^ 32 \<Longrightarrow> \<exists>c'. update_all ds c = Some (Inr c') \<and> ctx_is c' (m @ concat ds)"
proof (induction ds arbitrary: c m)
  case (Cons d ds)
  have "unat (word_of_nat (length d) :: u32) = length d" using Cons.prems(2) by (simp add: unat_of_nat)
  then obtain c1 where "SHA1Update c d (word_of_nat (length d)) = Some (Inr c1)" "ctx_is c1 (m @ d)"
    using SHA1Update_adds [OF Cons.prems(1)] Cons.prems(2) by fastforce
  with Cons.IH [of c1 "m @ d"] Cons.prems(2) show ?case by simp
qed simp

lemma SHA1Final_digest:
  assumes "ctx_is c m" and "length m < 2 ^ 61"
  shows "\<exists>c'. SHA1Final c = Some (Inr (fips_sha1 m, c'))"
proof -
  define k where "k = nat ((55 - int (length m)) mod 64)"
  obtain c1 where c1: "SHA1Update c [0x80] 1 = Some (Inr c1)" "ctx_is c1 (m @ [0x80])"
    using SHA1Update_adds [OF assms(1), of 1 "[0x80]"] by auto
  have "int ((length m + 1 + k) mod 64) = (1 + int (length m) + (55 - int (length m)) mod 64) mod 64"
    by (simp add: k_def zmod_int algebra_simps)
  also have "\<dots> = 56" using mod_add_right_eq [of "1 + int (length m)" "55 - int (length m)" 64] by simp
  finally have k: "(length (m @ [0x80]) + k) mod 64 = 56" by simp
  have less: "k < 64" by (simp add: k_def nat_less_iff)
  obtain c2 where c2: "pad_loop c1 = Some (Inr c2)" "ctx_is c2 ((m @ [0x80]) @ replicate k 0)"
    using pad_loop_pads [OF c1(2) k less] by auto
  let ?n = "map (\<lambda>i. word_of_nat (8 * length m div 256 ^ (7 - i))) [0..<8] :: u8 list"
  have fc: "finalcount c = ?n" by (rule finalcount_bytes [OF assms(1)]) (use assms(2) in simp)
  obtain c3 where c3: "SHA1Update c2 ?n 8 = Some (Inr c3)" "ctx_is c3 (((m @ [0x80]) @ replicate k 0) @ ?n)"
    using SHA1Update_adds [OF c2(2), of 8 ?n] by auto
  have "hstate c3 = fips_blocks (fips_pad m) fips_H0"
    using c3(2) by (simp add: ctx_is_def fips_pad_def k_def)
  then show ?thesis
    using c1(1) c2(1) c3(1) digest_bytes [OF ctx_is_length [OF c3(2)]]
    by (simp add: SHA1Final_def Let_def fc fips_sha1_def)
qed

lemma init_is: "length (hbuffer c) = 64 \<Longrightarrow> ctx_is (SHA1Init c) []"
  by (simp add: ctx_is_def SHA1Init_def fips_blocks_short fips_H0_def tail_of_def)

lemma fips_sha1_length: "length (fips_sha1 m) = 20"
proof -
  have "sum_list (map (\<lambda>w. 4 :: nat) h) = 4 * length h" for h :: "u32 list" by (induction h) simp_all
  then show ?thesis using fips_blocks_length [of fips_H0] by (simp add: fips_sha1_def length_concat comp_def)
qed

text \<open>
  C37 (equivalence). The digest is that of the standard. A message of less than \<open>2 ^ 61\<close> bytes, passed to \<^verbatim>\<open>SHA1Update\<close> in any number of
  pieces (each at least 64 bytes below the range of its 32-bit length, beyond which the code
  overflows), gives at \<^verbatim>\<open>SHA1Final\<close> the digest FIPS 180 defines for the whole message, whatever was in the context before; the calls return and stay
  inside the data and the buffer.
\<close>

theorem sha1_fips:
  assumes "length (hbuffer c) = 64" and "\<forall>d\<in>set ds. length d + 63 < 2 ^ 32" and "length (concat ds) < 2 ^ 61"
  shows "\<exists>c'. then_run (update_all ds (SHA1Init c)) SHA1Final = Some (Inr (fips_sha1 (concat ds), c'))"
proof -
  have "ctx_is (SHA1Init c) []" using assms(1) by (rule init_is)
  from update_all_adds [OF this assms(2)] obtain c1
    where "update_all ds (SHA1Init c) = Some (Inr c1)" "ctx_is c1 (concat ds)" by auto
  with SHA1Final_digest [OF _ assms(3)] show ?thesis by simp
qed

definition any_ctx :: SHA1_CTX where
  "any_ctx = \<lparr>hstate = [], count0 = 7, count1 = 7, hbuffer = replicate 64 0xFF\<rparr>"

text \<open>The message \<^verbatim>\<open>abc\<close>, in two pieces.\<close>

theorem sha1_fips_witness:
  "\<exists>c'. then_run (update_all [[0x61], [0x62, 0x63]] (SHA1Init any_ctx)) SHA1Final = Some (Inr (fips_sha1 [0x61, 0x62, 0x63], c')) \<and>
    length (fips_sha1 [0x61, 0x62, 0x63]) = 20"
proof -
  have "length (hbuffer any_ctx) = 64" by (simp add: any_ctx_def)
  then show ?thesis using sha1_fips [of any_ctx "[[0x61], [0x62, 0x63]]"] fips_sha1_length by simp
qed

section \<open>Random strings are hexadecimal\<close>

lemma hex_of_in: "hex_of b \<in> set charset"
proof -
  have "b AND 0x0F = take_bit 4 b" by (simp add: take_bit_eq_mask mask_eq_exp_minus_1)
  moreover have "unat (take_bit 4 b) < 16" using take_bit_nat_less_exp [of 4 "unat b"] by (simp add: unsigned_take_bit_eq)
  ultimately show ?thesis unfolding hex_of_def by (intro nth_mem) (simp add: charset_def)
qed

text \<open>The digest of the seed and the counter.\<close>

lemma random_digest_fips:
  assumes "length (hbuffer ctx) = 64" and "length s = 20"
  shows "random_digest ctx s n = Some (Inr (fips_sha1 (s @ counter_bytes n)))"
proof -
  have c: "ctx_is (SHA1Init ctx) []" using assms(1) by (rule init_is)
  obtain c1 where c1: "SHA1Update (SHA1Init ctx) s 20 = Some (Inr c1)" "ctx_is c1 s"
    using SHA1Update_adds [OF c, of 20 s] assms(2) by auto
  obtain c2 where c2: "SHA1Update c1 (counter_bytes n) 8 = Some (Inr c2)" "ctx_is c2 (s @ counter_bytes n)"
    using SHA1Update_adds [OF c1(2), of 8 "counter_bytes n"] by (auto simp: counter_bytes_def)
  obtain c3 where "SHA1Final c2 = Some (Inr (fips_sha1 (s @ counter_bytes n), c3))"
    using SHA1Final_digest [OF c2(2)] assms(2) by (auto simp: counter_bytes_def)
  with c1(1) c2(1) show ?thesis by (simp add: random_digest_def)
qed

lemma random_loop_hex:
  assumes "length (hbuffer ctx) = 64" and "length s = 20"
  shows "\<exists>p n'. random_loop ctx s n len = Some (Inr (p, n')) \<and> length p = len \<and> set p \<subseteq> set charset"
proof (induction len arbitrary: n rule: less_induct)
  case (less len)
  show ?case
  proof (cases "len = 0")
    case False
    let ?k = "if len > 20 then 20 else len"
    obtain p n' where "random_loop ctx s (n + 1) (len - ?k) = Some (Inr (p, n'))" "length p = len - ?k" "set p \<subseteq> set charset"
      using less.IH [of "len - ?k" "n + 1"] False by auto
    then show ?thesis
      using False fips_sha1_length hex_of_in
      by (subst random_loop.simps) (auto simp: random_digest_fips [OF assms] Let_def)
  qed (simp add: random_loop.simps)
qed

text \<open>
  \<^verbatim>\<open>getRandomHexChars\<close> returns and fills the buffer with hexadecimal digits, whether or not \<^verbatim>\<open>/dev/urandom\<close> can be read, and the seed it keeps
  stays usable.
\<close>

theorem random_chars_hex:
  assumes "length (hbuffer ctx) = 64" and "seed_initialized r \<longrightarrow> length (seed r) = 20"
    and "\<forall>bs. urandom = Some bs \<longrightarrow> length bs = 20" and "length p \<le> length rands"
  shows "\<exists>q r'. getRandomHexChars urandom tv_usec tv_sec pid rands ctx r p = Some (Inr (q, r')) \<and> length q = length p \<and>
    set q \<subseteq> set charset \<and> (seed_initialized r' \<longrightarrow> length (seed r') = 20)"
proof -
  define r1 where "r1 = (if seed_initialized r then r else case urandom of None \<Rightarrow> r | Some bs \<Rightarrow> r\<lparr>seed := bs, seed_initialized := True\<rparr>)"
  have seed: "seed_initialized r1 \<longrightarrow> length (seed r1) = 20" using assms(2,3) by (auto simp: r1_def split: option.splits)
  show ?thesis
  proof (cases "seed_initialized r1")
    case True
    obtain q n where "random_loop ctx (seed r1) (counter r1) (length p) = Some (Inr (q, n))" "length q = length p" "set q \<subseteq> set charset"
      using random_loop_hex [OF assms(1), of "seed r1" "counter r1" "length p"] True seed by blast
    with True seed show ?thesis by (simp add: getRandomHexChars_def flip: r1_def)
  next
    case False
    have put: "length (fst (put_value v qx)) = length (fst qx)" for v and qx :: "u8 list \<times> nat"
      by (auto simp: put_value_def split: prod.splits)
    obtain q x where q: "put_value pid (put_value tv_sec (put_value tv_usec (p, 0))) = (q, x)" by fastforce
    then have "length q = length p" using put by (metis fst_conv)
    moreover have "set (map2 (\<lambda>b v. hex_of (b XOR v)) q rands) \<subseteq> set charset" using hex_of_in by auto
    ultimately show ?thesis using False q assms(4) by (auto simp: getRandomHexChars_def Let_def simp flip: r1_def)
  qed
qed

end
