(* ===== verification/Network.thy ===== *)
theory Network
  imports Util
begin

text \<open>
  Opening, configuring and accepting sockets: \<^verbatim>\<open>rr_network.c\<close>.

  The system calls are parameters, collected in the record \<open>net_os\<close>: each takes the state of the world and gives its
  answer and the world after it. What is relied on is \<open>net_documented\<close>: which descriptors are open, and which
  calls change that. The text of error messages is left out.

  The theorems: a listening socket is the only descriptor that opening it adds, and a failure on any branch
  leaves none behind; when binding fails the code closes the descriptor a second time.
\<close>

section \<open>The model\<close>

definition RR_NET_OK :: int where "RR_NET_OK = 0"
definition RR_NET_ERR :: int where "RR_NET_ERR = - 1"

text \<open>Numbers of the target that the code names.\<close>

definition AF_INET :: int where "AF_INET = 2"
definition AF_INET6 :: int where "AF_INET6 = 10"
definition AF_LOCAL :: int where "AF_LOCAL = 1"
definition SOCK_STREAM :: int where "SOCK_STREAM = 1"
definition O_NONBLOCK :: u32 where "O_NONBLOCK = 2048"
definition EINTR :: int where "EINTR = 4"

datatype sockopt = SO_REUSEADDR | SO_KEEPALIVE | TCP_NODELAY | IPV6_V6ONLY

text \<open>An address is of the type \<open>'a\<close>; \<open>Local\<close> makes that of a path.\<close>

record 'a addrinfo =
  ai_family :: int
  ai_socktype :: int
  ai_protocol :: int
  ai_addr :: 'a

datatype 'a accept_result = Accepted int 'a | Refused int

record ('a, 'w) net_os =
  os_socket :: "int \<Rightarrow> int \<Rightarrow> int \<Rightarrow> 'w \<Rightarrow> int \<times> 'w"
  os_setsockopt :: "int \<Rightarrow> sockopt \<Rightarrow> 'w \<Rightarrow> int \<times> 'w"
  os_getfl :: "int \<Rightarrow> 'w \<Rightarrow> u32 option \<times> 'w"
  os_setfl :: "int \<Rightarrow> u32 \<Rightarrow> 'w \<Rightarrow> int \<times> 'w"
  os_bind :: "int \<Rightarrow> 'a \<Rightarrow> 'w \<Rightarrow> int \<times> 'w"
  os_listen :: "int \<Rightarrow> int \<Rightarrow> 'w \<Rightarrow> int \<times> 'w"
  os_accept :: "int \<Rightarrow> 'w \<Rightarrow> 'a accept_result \<times> 'w"
  os_close :: "int \<Rightarrow> 'w \<Rightarrow> 'w"
  os_chmod :: "string \<Rightarrow> u32 \<Rightarrow> 'w \<Rightarrow> 'w"
  os_getaddrinfo :: "string \<Rightarrow> string \<Rightarrow> int \<Rightarrow> 'w \<Rightarrow> 'a addrinfo list option \<times> 'w"
  os_family :: "'a \<Rightarrow> int"
  os_ntop :: "int \<Rightarrow> 'a \<Rightarrow> string"
  os_port :: "int \<Rightarrow> 'a \<Rightarrow> int"
  os_local :: "string \<Rightarrow> 'a"

text \<open>The functions that set one option have the same body.\<close>

definition set_option :: "sockopt \<Rightarrow> ('a, 'w) net_os \<Rightarrow> int \<Rightarrow> 'w \<Rightarrow> int \<times> 'w" where
  "set_option opt os fd w =
     (let (r, w) = os_setsockopt os fd opt w in (if r = - 1 then RR_NET_ERR else RR_NET_OK, w))"

definition rr_net_reuseaddr :: "('a, 'w) net_os \<Rightarrow> int \<Rightarrow> 'w \<Rightarrow> int \<times> 'w" where
  "rr_net_reuseaddr = set_option SO_REUSEADDR"

definition rr_net_nonblock :: "('a, 'w) net_os \<Rightarrow> int \<Rightarrow> 'w \<Rightarrow> int \<times> 'w" where
  "rr_net_nonblock os fd w =
     (case os_getfl os fd w of
        (None, w) \<Rightarrow> (RR_NET_ERR, w)
      | (Some fl, w) \<Rightarrow>
          let (r, w) = os_setfl os fd (fl OR O_NONBLOCK) w in (if r = - 1 then RR_NET_ERR else RR_NET_OK, w))"

definition rr_net_keepalive :: "('a, 'w) net_os \<Rightarrow> int \<Rightarrow> 'w \<Rightarrow> int \<times> 'w" where
  "rr_net_keepalive = set_option SO_KEEPALIVE"

definition rr_net_nodelay :: "('a, 'w) net_os \<Rightarrow> int \<Rightarrow> 'w \<Rightarrow> int \<times> 'w" where
  "rr_net_nodelay = set_option TCP_NODELAY"

definition rr_net_only_inet6 :: "('a, 'w) net_os \<Rightarrow> int \<Rightarrow> 'w \<Rightarrow> int \<times> 'w" where
  "rr_net_only_inet6 os s w =
     (let (r, w) = os_setsockopt os s IPV6_V6ONLY w
      in if r = - 1 then (RR_NET_ERR, os_close os s w) else (RR_NET_OK, w))"

definition rr_net_listen :: "('a, 'w) net_os \<Rightarrow> int \<Rightarrow> 'a \<Rightarrow> int \<Rightarrow> 'w \<Rightarrow> int \<times> 'w" where
  "rr_net_listen os s sa backlog w =
     (let (r, w) = os_bind os s sa w in
      if r = - 1 then (RR_NET_ERR, os_close os s w)
      else
        let (r, w) = os_listen os s backlog w in
        if r = - 1 then (RR_NET_ERR, os_close os s w) else (RR_NET_OK, w))"

text \<open>The loop repeats an interrupted call; \<open>None\<close> when it is interrupted for ever.\<close>

partial_function (option) rr_net_generic_accpet :: "('a, 'w) net_os \<Rightarrow> int \<Rightarrow> 'w \<Rightarrow> ((int \<times> 'a option) \<times> 'w) option" where
  "rr_net_generic_accpet os s w =
     (case os_accept os s w of
        (Accepted fd sa, w) \<Rightarrow> Some ((fd, Some sa), w)
      | (Refused errno, w) \<Rightarrow> if errno = EINTR then rr_net_generic_accpet os s w else Some ((RR_NET_ERR, None), w))"

definition rr_net_accept :: "('a, 'w) net_os \<Rightarrow> int \<Rightarrow> 'w \<Rightarrow> ((int \<times> (string \<times> int) option) \<times> 'w) option" where
  "rr_net_accept os s w =
     (case rr_net_generic_accpet os s w of
        None \<Rightarrow> None
      | Some ((fd, None), w) \<Rightarrow> Some ((RR_NET_ERR, None), w)
      | Some ((fd, Some sa), w) \<Rightarrow>
          if fd = - 1 then Some ((RR_NET_ERR, None), w)
          else
            let af = (if os_family os sa = AF_INET then AF_INET else AF_INET6)
            in Some ((fd, Some (os_ntop os af sa, os_port os af sa)), w))"

definition rr_unix_accept :: "('a, 'w) net_os \<Rightarrow> int \<Rightarrow> 'w \<Rightarrow> (int \<times> 'w) option" where
  "rr_unix_accept os s w =
     (case rr_net_generic_accpet os s w of
        None \<Rightarrow> None
      | Some ((fd, _), w) \<Rightarrow> Some (if fd = - 1 then RR_NET_ERR else fd, w))"

text \<open>\<^verbatim>\<open>goto error\<close>\<close>

definition tcp_error :: "('a, 'w) net_os \<Rightarrow> int \<Rightarrow> 'w \<Rightarrow> int \<times> 'w" where
  "tcp_error os s w = (RR_NET_ERR, os_close os s w)"

text \<open>
  The loop over the addresses; \<open>s\<close> is what the last call of \<^verbatim>\<open>socket\<close> gave. The result of \<^verbatim>\<open>getaddrinfo\<close> is never empty, so
  \<^verbatim>\<open>s\<close> is set when the loop ends.
\<close>

fun tcp_loop :: "('a, 'w) net_os \<Rightarrow> int \<Rightarrow> int \<Rightarrow> 'a addrinfo list \<Rightarrow> int \<Rightarrow> 'w \<Rightarrow> int \<times> 'w" where
  "tcp_loop os af backlog [] s w = tcp_error os s w"
| "tcp_loop os af backlog (p # ps) s w =
     (let (s, w) = os_socket os (ai_family p) (ai_socktype p) (ai_protocol p) w in
      if s = - 1 then tcp_loop os af backlog ps s w
      else
        let (r, w) = (if af = AF_INET6 then rr_net_only_inet6 os s w else (RR_NET_OK, w)) in
        if r = RR_NET_ERR then tcp_error os s w
        else
          let (r, w) = rr_net_reuseaddr os s w in
          if r = RR_NET_ERR then tcp_error os s w
          else
            let (r, w) = rr_net_listen os s (ai_addr p) backlog w in
            if r = RR_NET_ERR then tcp_error os s w else (s, w))"

text \<open>\<^verbatim>\<open>snprintf(_port, 6, "%d", port)\<close>: at most five characters.\<close>

definition rr_net_tcpserver :: "('a, 'w) net_os \<Rightarrow> int \<Rightarrow> string \<Rightarrow> int \<Rightarrow> int \<Rightarrow> 'w \<Rightarrow> (int \<times> 'w) result" where
  "rr_net_tcpserver os port bindaddr af backlog w =
     (case os_getaddrinfo os bindaddr (take 5 (dec port)) af w of
        (None, w) \<Rightarrow> Inr (RR_NET_ERR, w)
      | (Some [], w) \<Rightarrow> Inl Uninit
      | (Some (p # ps), w) \<Rightarrow> Inr (tcp_loop os af backlog (p # ps) 0 w))"

text \<open>\<^verbatim>\<open>sun_path\<close> has 108 bytes; the copy is cut to leave a NUL.\<close>

definition rr_net_unixserver :: "('a, 'w) net_os \<Rightarrow> string \<Rightarrow> u32 \<Rightarrow> int \<Rightarrow> 'w \<Rightarrow> int \<times> 'w" where
  "rr_net_unixserver os path perm backlog w =
     (let (s, w) = os_socket os AF_LOCAL SOCK_STREAM 0 w in
      if s = - 1 then (RR_NET_ERR, w)
      else
        let (r, w) = rr_net_reuseaddr os s w in
        if r = RR_NET_ERR then (RR_NET_ERR, os_close os s w)
        else
          let sun_path = take 107 path;
              (r, w) = rr_net_listen os s (os_local os sun_path) backlog w in
          if r = RR_NET_ERR then (RR_NET_ERR, w)
          else (s, if perm \<noteq> 0 then os_chmod os sun_path perm w else w))"

section \<open>Descriptors\<close>

text \<open>
  The descriptors that are open are not negative: \<^verbatim>\<open>socket\<close> fails with \<open>- 1\<close> or opens one that was not, \<^verbatim>\<open>close\<close> closes one (and does nothing to
  one that is not open), \<^verbatim>\<open>getaddrinfo\<close>, \<^verbatim>\<open>setsockopt\<close>, \<^verbatim>\<open>bind\<close>, \<^verbatim>\<open>listen\<close> and \<^verbatim>\<open>chmod\<close> leave them as they are; a list of addresses is not empty.
\<close>

definition net_documented :: "('a, 'w) net_os \<Rightarrow> ('w \<Rightarrow> int set) \<Rightarrow> bool" where
  "net_documented os fds \<longleftrightarrow>
     (\<forall>w. \<forall>s\<in>fds w. 0 \<le> s) \<and>
     (\<forall>d t p w s w'. os_socket os d t p w = (s, w') \<longrightarrow>
        (if s = - 1 then fds w' = fds w else 0 \<le> s \<and> s \<notin> fds w \<and> fds w' = insert s (fds w))) \<and>
     (\<forall>s w. fds (os_close os s w) = fds w - {s}) \<and>
     (\<forall>s opt w. fds (snd (os_setsockopt os s opt w)) = fds w) \<and>
     (\<forall>s a w. fds (snd (os_bind os s a w)) = fds w) \<and>
     (\<forall>s b w. fds (snd (os_listen os s b w)) = fds w) \<and>
     (\<forall>path m w. fds (os_chmod os path m w) = fds w) \<and>
     (\<forall>n v af w. fds (snd (os_getaddrinfo os n v af w)) = fds w \<and> fst (os_getaddrinfo os n v af w) \<noteq> Some [])"

lemma net_documentedD:
  assumes "net_documented os fds"
  shows "os_socket os d t p w = (s, w') \<Longrightarrow> s = - 1 \<Longrightarrow> fds w' = fds w"
    and "os_socket os d t p w = (s, w') \<Longrightarrow> s \<noteq> - 1 \<Longrightarrow> 0 \<le> s \<and> s \<notin> fds w \<and> fds w' = insert s (fds w)"
    and "fds (os_close os s w) = fds w - {s}"
    and "os_setsockopt os s opt w = (r, w') \<Longrightarrow> fds w' = fds w"
    and "os_bind os s a w = (r, w') \<Longrightarrow> fds w' = fds w"
    and "os_listen os s b w = (r, w') \<Longrightarrow> fds w' = fds w"
    and "fds (os_chmod os path m w) = fds w"
    and "os_getaddrinfo os n v af w = (r', w') \<Longrightarrow> fds w' = fds w \<and> r' \<noteq> Some []"
proof -
  note d = assms [unfolded net_documented_def]
  from d show "os_socket os d t p w = (s, w') \<Longrightarrow> s = - 1 \<Longrightarrow> fds w' = fds w"
    and "os_socket os d t p w = (s, w') \<Longrightarrow> s \<noteq> - 1 \<Longrightarrow> 0 \<le> s \<and> s \<notin> fds w \<and> fds w' = insert s (fds w)" by presburger+
  from d show "fds (os_close os s w) = fds w - {s}" and "fds (os_chmod os path m w) = fds w" by simp_all
  from d show "os_setsockopt os s opt w = (r, w') \<Longrightarrow> fds w' = fds w"
    and "os_bind os s a w = (r, w') \<Longrightarrow> fds w' = fds w" and "os_listen os s b w = (r, w') \<Longrightarrow> fds w' = fds w"
    by (metis snd_conv)+
  from d show "os_getaddrinfo os n v af w = (r', w') \<Longrightarrow> fds w' = fds w \<and> r' \<noteq> Some []" by (metis fst_conv snd_conv)
qed

text \<open>What opening a socket may do to the descriptors.\<close>

definition opened :: "('w \<Rightarrow> int set) \<Rightarrow> 'w \<Rightarrow> int \<times> 'w \<Rightarrow> bool" where
  "opened fds w = (\<lambda>(s, w'). if s = RR_NET_ERR then fds w' = fds w else 0 \<le> s \<and> s \<notin> fds w \<and> fds w' = insert s (fds w))"

lemma reuseaddr_fds:
  assumes "net_documented os fds" and "rr_net_reuseaddr os s w = (r, w')"
  shows "fds w' = fds w"
proof -
  obtain r1 w1 where o: "os_setsockopt os s SO_REUSEADDR w = (r1, w1)" by fastforce
  from net_documentedD(4) [OF assms(1) o] assms(2) o show ?thesis
    by (simp add: rr_net_reuseaddr_def set_option_def split: if_splits)
qed

lemma only_inet6_fds:
  assumes "net_documented os fds" and "rr_net_only_inet6 os s w = (r, w')"
  shows "fds w' = (if r = RR_NET_ERR then fds w - {s} else fds w)"
proof -
  obtain r1 w1 where o: "os_setsockopt os s IPV6_V6ONLY w = (r1, w1)" by fastforce
  have "fds w1 = fds w" by (rule net_documentedD(4) [OF assms(1) o])
  moreover have "(r, w') = (if r1 = - 1 then (RR_NET_ERR, os_close os s w1) else (RR_NET_OK, w1))"
    using assms(2) o by (simp add: rr_net_only_inet6_def)
  ultimately show ?thesis by (simp add: RR_NET_ERR_def RR_NET_OK_def net_documentedD(3) [OF assms(1)] split: if_splits)
qed

lemma listen_fds:
  assumes "net_documented os fds" and "rr_net_listen os s sa backlog w = (r, w')"
  shows "fds w' = (if r = RR_NET_ERR then fds w - {s} else fds w)"
proof -
  obtain r1 w1 where b: "os_bind os s sa w = (r1, w1)" by fastforce
  obtain r2 w2 where l: "os_listen os s backlog w1 = (r2, w2)" by fastforce
  have "fds w1 = fds w" "fds w2 = fds w1"
    by (rule net_documentedD(5) [OF assms(1) b], rule net_documentedD(6) [OF assms(1) l])
  moreover have "(r, w') = (if r1 = - 1 then (RR_NET_ERR, os_close os s w1)
      else if r2 = - 1 then (RR_NET_ERR, os_close os s w2) else (RR_NET_OK, w2))"
    using assms(2) b l by (cases "r1 = - 1") (simp_all add: rr_net_listen_def)
  ultimately show ?thesis by (simp add: RR_NET_ERR_def RR_NET_OK_def net_documentedD(3) [OF assms(1)] split: if_splits)
qed

lemma tcp_loop_opened:
  assumes doc: "net_documented os fds"
  shows "ps \<noteq> [] \<or> s \<notin> fds w \<Longrightarrow> opened fds w (tcp_loop os af backlog ps s w)"
proof (induction ps arbitrary: s w)
  case Nil
  then show ?case by (simp add: opened_def tcp_error_def net_documentedD(3) [OF doc])
next
  case (Cons p ps)
  obtain s1 w1 where so: "os_socket os (ai_family p) (ai_socktype p) (ai_protocol p) w = (s1, w1)" by fastforce
  show ?case
  proof (cases "s1 = - 1")
    case True
    have "fds w1 = fds w" by (rule net_documentedD(1) [OF doc so True])
    moreover have "- 1 \<notin> fds w"
      using doc by (force simp: net_documented_def)
    ultimately show ?thesis using Cons.IH [of "- 1" w1] so True by (auto simp: opened_def split: prod.splits if_splits)
  next
    case False
    have s1: "0 \<le> s1" "s1 \<notin> fds w" "fds w1 = insert s1 (fds w)" using net_documentedD(2) [OF doc so False] by simp_all
    obtain r2 w2 where o6: "(if af = AF_INET6 then rr_net_only_inet6 os s1 w1 else (RR_NET_OK, w1)) = (r2, w2)" by fastforce
    have w2: "fds w2 = (if r2 = RR_NET_ERR then fds w else insert s1 (fds w))"
      using o6 only_inet6_fds [OF doc, of s1 w1 r2 w2] s1 by (auto simp: RR_NET_ERR_def RR_NET_OK_def split: if_splits)
    obtain r3 w3 where ra: "rr_net_reuseaddr os s1 w2 = (r3, w3)" by fastforce
    have w3: "fds w3 = fds w2" by (rule reuseaddr_fds [OF doc ra])
    obtain r4 w4 where li: "rr_net_listen os s1 (ai_addr p) backlog w3 = (r4, w4)" by fastforce
    note w4 = listen_fds [OF doc li]
    show ?thesis
      using so False o6 ra li w2 w3 w4 s1
      by (auto simp: opened_def tcp_error_def net_documentedD(3) [OF doc] RR_NET_ERR_def)
  qed
qed

lemma unixserver_opened:
  assumes doc: "net_documented os fds"
  shows "opened fds w (rr_net_unixserver os path perm backlog w)"
proof -
  obtain s1 w1 where so: "os_socket os AF_LOCAL SOCK_STREAM 0 w = (s1, w1)" by fastforce
  obtain r2 w2 where ra: "rr_net_reuseaddr os s1 w1 = (r2, w2)" by fastforce
  obtain r3 w3 where li: "rr_net_listen os s1 (os_local os (take 107 path)) backlog w2 = (r3, w3)" by fastforce
  have run: "rr_net_unixserver os path perm backlog w =
      (if s1 = - 1 then (RR_NET_ERR, w1)
       else if r2 = RR_NET_ERR then (RR_NET_ERR, os_close os s1 w2)
       else if r3 = RR_NET_ERR then (RR_NET_ERR, w3)
       else (s1, if perm \<noteq> 0 then os_chmod os (take 107 path) perm w3 else w3))"
    using so ra li by (simp add: rr_net_unixserver_def)
  show ?thesis
  proof (cases "s1 = - 1")
    case True
    with net_documentedD(1) [OF doc so] run show ?thesis by (simp add: opened_def)
  next
    case False
    note s1 = net_documentedD(2) [OF doc so False]
    have "fds w2 = fds w1" by (rule reuseaddr_fds [OF doc ra])
    moreover note listen_fds [OF doc li]
    ultimately show ?thesis
      using False s1 run net_documentedD(3,7) [OF doc] by (auto simp: opened_def RR_NET_ERR_def split: if_splits)
  qed
qed

text \<open>
  C38 (error). Listening sockets. When \<^verbatim>\<open>rr_net_tcpserver\<close> or \<^verbatim>\<open>rr_net_unixserver\<close> succeeds, the socket it returns is the only
  descriptor it has opened; when it fails, at whichever call and after any number of addresses, it has
  left none open. But when \<^verbatim>\<open>bind\<close> fails for the TCP socket, the descriptor that \<^verbatim>\<open>rr_net_listen\<close> has closed is closed again.
\<close>

theorem servers_open_one_descriptor:
  assumes "net_documented os fds"
  shows "(\<exists>r. rr_net_tcpserver os port bindaddr af backlog w = Inr r \<and> opened fds w r) \<and>
    opened fds w (rr_net_unixserver os path perm backlog w) \<and>
    (\<forall>p ps w1 s w2 r3 w3 w4.
       os_getaddrinfo os bindaddr (take 5 (dec port)) AF_INET w = (Some (p # ps), w1) \<and>
       os_socket os (ai_family p) (ai_socktype p) (ai_protocol p) w1 = (s, w2) \<and> s \<noteq> - 1 \<and>
       os_setsockopt os s SO_REUSEADDR w2 = (r3, w3) \<and> r3 \<noteq> - 1 \<and> os_bind os s (ai_addr p) w3 = (- 1, w4) \<longrightarrow>
       rr_net_tcpserver os port bindaddr AF_INET backlog w = Inr (RR_NET_ERR, os_close os s (os_close os s w4)))"
proof (intro conjI allI impI)
  obtain ai w1 where ga: "os_getaddrinfo os bindaddr (take 5 (dec port)) af w = (ai, w1)" by fastforce
  note w1 = net_documentedD(8) [OF assms ga]
  show "\<exists>r. rr_net_tcpserver os port bindaddr af backlog w = Inr r \<and> opened fds w r"
  proof (cases ai)
    case None
    then show ?thesis using ga w1 by (simp add: rr_net_tcpserver_def opened_def)
  next
    case (Some ps)
    then obtain q qs where ps: "ai = Some (q # qs)" using w1 by (cases ps) auto
    have "opened fds w1 (tcp_loop os af backlog (q # qs) 0 w1)" by (rule tcp_loop_opened [OF assms]) simp
    then have "opened fds w (tcp_loop os af backlog (q # qs) 0 w1)" using w1 by (simp only: opened_def)
    then show ?thesis using ga ps by (simp add: rr_net_tcpserver_def)
  qed
  show "opened fds w (rr_net_unixserver os path perm backlog w)" by (rule unixserver_opened [OF assms])
next
  fix p ps w1 s w2 r3 w3 w4
  assume "os_getaddrinfo os bindaddr (take 5 (dec port)) AF_INET w = (Some (p # ps), w1) \<and>
       os_socket os (ai_family p) (ai_socktype p) (ai_protocol p) w1 = (s, w2) \<and> s \<noteq> - 1 \<and>
       os_setsockopt os s SO_REUSEADDR w2 = (r3, w3) \<and> r3 \<noteq> - 1 \<and> os_bind os s (ai_addr p) w3 = (- 1, w4)"
  then show "rr_net_tcpserver os port bindaddr AF_INET backlog w = Inr (RR_NET_ERR, os_close os s (os_close os s w4))"
    by (simp add: rr_net_tcpserver_def rr_net_reuseaddr_def set_option_def rr_net_listen_def tcp_error_def RR_NET_ERR_def RR_NET_OK_def
      AF_INET_def AF_INET6_def)
qed

text \<open>
  A world in which every address is in use: descriptors are counted up, and the calls of \<^verbatim>\<open>close\<close> are recorded.
\<close>

definition in_use_os :: "(unit, nat \<times> int set \<times> int list) net_os" where
  "in_use_os = \<lparr>
     os_socket = (\<lambda>_ _ _ (n, fds, closes). (int n, (n + 1, insert (int n) fds, closes))),
     os_setsockopt = (\<lambda>_ _ w. (0, w)), os_getfl = (\<lambda>_ w. (Some 0, w)), os_setfl = (\<lambda>_ _ w. (0, w)),
     os_bind = (\<lambda>_ _ w. (- 1, w)), os_listen = (\<lambda>_ _ w. (0, w)), os_accept = (\<lambda>_ w. (Refused 11, w)),
     os_close = (\<lambda>s (n, fds, closes). (n, fds - {s}, closes @ [s])), os_chmod = (\<lambda>_ _ w. w),
     os_getaddrinfo = (\<lambda>_ _ af w. (Some [\<lparr>ai_family = af, ai_socktype = SOCK_STREAM, ai_protocol = 0, ai_addr = ()\<rparr>], w)),
     os_family = (\<lambda>_. AF_INET), os_ntop = (\<lambda>_ _. []), os_port = (\<lambda>_ _. 0), os_local = (\<lambda>_. ())\<rparr>"

definition in_use_fds :: "nat \<times> int set \<times> int list \<Rightarrow> int set" where
  "in_use_fds = (\<lambda>(n, fds, closes). {s\<in>fds. 0 \<le> s \<and> s < int n})"

theorem servers_open_one_descriptor_witness:
  "\<exists>w'. rr_net_tcpserver in_use_os 6000 ''127.0.0.1'' AF_INET 511 (3, {}, []) = Inr (RR_NET_ERR, w') \<and>
     in_use_fds w' = {} \<and> snd (snd w') = [3, 3]"
proof -
  have doc: "net_documented in_use_os in_use_fds"
    unfolding net_documented_def by (auto simp: in_use_os_def in_use_fds_def)
  obtain s w' where r: "rr_net_tcpserver in_use_os 6000 ''127.0.0.1'' AF_INET 511 (3, {}, []) = Inr (s, w')"
    "opened in_use_fds (3, {}, []) (s, w')"
    using servers_open_one_descriptor [OF doc, of 6000 "''127.0.0.1''" AF_INET 511 "(3, {}, [])"] by fastforce
  have "rr_net_tcpserver in_use_os 6000 ''127.0.0.1'' AF_INET 511 (3, {}, []) = Inr (RR_NET_ERR, (4, {}, [3, 3]))"
    using servers_open_one_descriptor [OF doc, of 6000 "''127.0.0.1''" AF_INET 511 "(3, {}, [])"]
    by (simp add: in_use_os_def)
  with r show ?thesis by (auto simp: opened_def in_use_fds_def)
qed

end
