(* ===== verification/Rr_Malloc.thy ===== *)
theory Rr_Malloc
  imports Prelude
begin

text \<open>
  The accounting of memory in \<^verbatim>\<open>rr_malloc.c\<close>.

  The allocator underneath is a parameter, the record \<open>allocator\<close> over a world: \<^verbatim>\<open>malloc\<close>, \<^verbatim>\<open>calloc\<close> and \<^verbatim>\<open>realloc\<close> give an address or fail,
  \<^verbatim>\<open>malloc_usable_size\<close> gives the size of a block. What is relied on is \<open>alloc_documented\<close>, on the
  blocks that are live. The out-of-memory handler is the default one, which ends the program.
  The counter is updated atomically, so its updates are single steps.

  The theorem: the counter is the sum of the sizes of the live blocks.
\<close>

section \<open>The model\<close>

record 'w allocator =
  je_malloc :: "nat \<Rightarrow> 'w \<Rightarrow> nat option \<times> 'w"
  je_calloc :: "nat \<Rightarrow> nat \<Rightarrow> 'w \<Rightarrow> nat option \<times> 'w"
  je_realloc :: "nat \<Rightarrow> nat \<Rightarrow> 'w \<Rightarrow> nat option \<times> 'w"
  je_free :: "nat \<Rightarrow> 'w \<Rightarrow> 'w"
  je_malloc_usable_size :: "nat \<Rightarrow> 'w \<Rightarrow> nat"

text \<open>The world and \<^verbatim>\<open>used_memory\<close>.\<close>

record 'w memory =
  world :: 'w
  used_memory :: nat

definition update_malloc_stat_alloc :: "nat \<Rightarrow> 'w memory \<Rightarrow> 'w memory" where
  "update_malloc_stat_alloc sz m = m\<lparr>used_memory := add64 (used_memory m) sz\<rparr>"

definition update_malloc_stat_free :: "nat \<Rightarrow> 'w memory \<Rightarrow> 'w memory" where
  "update_malloc_stat_free sz m = m\<lparr>used_memory := sub64 (used_memory m) sz\<rparr>"

text \<open>The out-of-memory handler prints the size and aborts.\<close>

definition rr_default_oom :: "nat \<Rightarrow> 'a result" where
  "rr_default_oom sz = Inl Exited"

text \<open>The common end of the functions that allocate.\<close>

definition account :: "'w allocator \<Rightarrow> nat \<Rightarrow> nat option \<times> 'w \<Rightarrow> 'w memory \<Rightarrow> (nat \<times> 'w memory) result" where
  "account A sz r m =
     (case r of
        (None, w) \<Rightarrow> rr_default_oom sz
      | (Some p, w) \<Rightarrow> Inr (p, update_malloc_stat_alloc (je_malloc_usable_size A p w) (m\<lparr>world := w\<rparr>)))"

definition rr_malloc :: "'w allocator \<Rightarrow> nat \<Rightarrow> 'w memory \<Rightarrow> (nat \<times> 'w memory) result" where
  "rr_malloc A sz m = account A sz (je_malloc A sz (world m)) m"

definition rr_calloc :: "'w allocator \<Rightarrow> nat \<Rightarrow> 'w memory \<Rightarrow> (nat \<times> 'w memory) result" where
  "rr_calloc A sz m = account A sz (je_calloc A 1 sz (world m)) m"

definition rr_realloc :: "'w allocator \<Rightarrow> nat option \<Rightarrow> nat \<Rightarrow> 'w memory \<Rightarrow> (nat \<times> 'w memory) result" where
  "rr_realloc A ptr sz m =
     (case ptr of
        None \<Rightarrow> rr_malloc A sz m
      | Some p \<Rightarrow>
          let oldsize = je_malloc_usable_size A p (world m) in
          case je_realloc A p sz (world m) of
            (None, w) \<Rightarrow> rr_default_oom sz
          | (Some q, w) \<Rightarrow>
              Inr (q, update_malloc_stat_alloc (je_malloc_usable_size A q w)
                        (update_malloc_stat_free oldsize (m\<lparr>world := w\<rparr>))))"

definition rr_free :: "'w allocator \<Rightarrow> nat option \<Rightarrow> 'w memory \<Rightarrow> 'w memory" where
  "rr_free A ptr m =
     (case ptr of
        None \<Rightarrow> m
      | Some p \<Rightarrow>
          let m = update_malloc_stat_free (je_malloc_usable_size A p (world m)) m
          in m\<lparr>world := je_free A p (world m)\<rparr>)"

text \<open>The address, and the bytes that \<^verbatim>\<open>memcpy\<close> writes there.\<close>

definition rr_strdup :: "'w allocator \<Rightarrow> string \<Rightarrow> 'w memory \<Rightarrow> (nat \<times> string \<times> 'w memory) result" where
  "rr_strdup A s m = rbind (rr_malloc A (length s + 1) m) (\<lambda>(p, m). Inr (p, s @ [NUL], m))"

definition rr_get_used_memory :: "'w memory \<Rightarrow> nat" where
  "rr_get_used_memory m = used_memory m"

section \<open>What the allocator promises\<close>

text \<open>
  \<open>blocks w\<close> are the live blocks with their sizes: a successful allocation adds one with at least the size asked for at
  a new address, a failed one changes nothing; \<^verbatim>\<open>realloc\<close> replaces a live block; \<^verbatim>\<open>free\<close> removes one. All live blocks fit into the address space.
\<close>

definition alloc_documented :: "'w allocator \<Rightarrow> ('w \<Rightarrow> nat \<rightharpoonup> nat) \<Rightarrow> bool" where
  "alloc_documented A blocks \<longleftrightarrow>
     (\<forall>w. finite (dom (blocks w)) \<and> (\<Sum>p\<in>dom (blocks w). the (blocks w p)) < 2 ^ 64) \<and>
     (\<forall>p w. p \<in> dom (blocks w) \<longrightarrow> je_malloc_usable_size A p w = the (blocks w p)) \<and>
     (\<forall>sz w p w'. je_malloc A sz w = (Some p, w') \<longrightarrow> p \<notin> dom (blocks w) \<and> (\<exists>n\<ge>sz. blocks w' = (blocks w)(p \<mapsto> n))) \<and>
     (\<forall>k sz w p w'. je_calloc A k sz w = (Some p, w') \<longrightarrow> p \<notin> dom (blocks w) \<and> (\<exists>n\<ge>k * sz. blocks w' = (blocks w)(p \<mapsto> n))) \<and>
     (\<forall>p sz w q w'. p \<in> dom (blocks w) \<and> je_realloc A p sz w = (Some q, w') \<longrightarrow>
        q \<notin> dom (blocks w) - {p} \<and> (\<exists>n\<ge>sz. blocks w' = (blocks w)(p := None, q \<mapsto> n))) \<and>
     (\<forall>p w. p \<in> dom (blocks w) \<longrightarrow> blocks (je_free A p w) = (blocks w)(p := None))"

definition total :: "(nat \<rightharpoonup> nat) \<Rightarrow> nat" where
  "total b = (\<Sum>p\<in>dom b. the (b p))"

lemma total_add: "finite (dom b) \<Longrightarrow> p \<notin> dom b \<Longrightarrow> total (b(p \<mapsto> n)) = total b + n"
proof -
  assume f: "finite (dom b)" "p \<notin> dom b"
  have "(\<Sum>q\<in>dom b. the ((b(p \<mapsto> n)) q)) = (\<Sum>q\<in>dom b. the (b q))" by (rule sum.cong) (use f in auto)
  then show ?thesis using f by (simp add: total_def)
qed

lemma total_remove: "finite (dom b) \<Longrightarrow> p \<in> dom b \<Longrightarrow> total b = total (b(p := None)) + the (b p)"
proof -
  assume f: "finite (dom b)" "p \<in> dom b"
  have "b = (b(p := None))(p \<mapsto> the (b p))" using f(2) by auto
  then have "total b = total ((b(p := None))(p \<mapsto> the (b p)))" by simp
  also have "\<dots> = total (b(p := None)) + the (b p)" by (rule total_add) (use f(1) in auto)
  finally show ?thesis .
qed

text \<open>The counter is exact.\<close>

definition accounted :: "('w \<Rightarrow> nat \<rightharpoonup> nat) \<Rightarrow> 'w memory \<Rightarrow> bool" where
  "accounted blocks m \<longleftrightarrow> rr_get_used_memory m = total (blocks (world m))"

lemma documentedD:
  assumes "alloc_documented A blocks"
  shows "finite (dom (blocks w))" and "total (blocks w) < 2 ^ 64"
    and "p \<in> dom (blocks w) \<Longrightarrow> je_malloc_usable_size A p w = the (blocks w p)"
    and "je_malloc A sz w = (Some p, w') \<Longrightarrow> p \<notin> dom (blocks w) \<and> (\<exists>n\<ge>sz. blocks w' = (blocks w)(p \<mapsto> n))"
    and "je_calloc A k sz w = (Some p, w') \<Longrightarrow> p \<notin> dom (blocks w) \<and> (\<exists>n\<ge>k * sz. blocks w' = (blocks w)(p \<mapsto> n))"
    and "p \<in> dom (blocks w) \<Longrightarrow> je_realloc A p sz w = (Some q, w') \<Longrightarrow>
      q \<notin> dom (blocks w) - {p} \<and> (\<exists>n\<ge>sz. blocks w' = (blocks w)(p := None, q \<mapsto> n))"
    and "p \<in> dom (blocks w) \<Longrightarrow> blocks (je_free A p w) = (blocks w)(p := None)"
proof -
  note d = assms [unfolded alloc_documented_def, folded total_def]
  from d show "finite (dom (blocks w))" and "total (blocks w) < 2 ^ 64" by simp_all
  from d show "p \<in> dom (blocks w) \<Longrightarrow> je_malloc_usable_size A p w = the (blocks w p)" by blast
  from d show "je_malloc A sz w = (Some p, w') \<Longrightarrow> p \<notin> dom (blocks w) \<and> (\<exists>n\<ge>sz. blocks w' = (blocks w)(p \<mapsto> n))" by blast
  from d show "je_calloc A k sz w = (Some p, w') \<Longrightarrow> p \<notin> dom (blocks w) \<and> (\<exists>n\<ge>k * sz. blocks w' = (blocks w)(p \<mapsto> n))" by blast
  from d show "p \<in> dom (blocks w) \<Longrightarrow> je_realloc A p sz w = (Some q, w') \<Longrightarrow>
      q \<notin> dom (blocks w) - {p} \<and> (\<exists>n\<ge>sz. blocks w' = (blocks w)(p := None, q \<mapsto> n))" by blast
  from d show "p \<in> dom (blocks w) \<Longrightarrow> blocks (je_free A p w) = (blocks w)(p := None)" by blast
qed

text \<open>A new block, accounted for.\<close>

lemma account_new:
  assumes doc: "alloc_documented A blocks" and used: "used_memory m = total b" and p: "p \<notin> dom b" "finite (dom b)"
    and b: "blocks w' = b(p \<mapsto> n)"
  shows "accounted blocks (update_malloc_stat_alloc (je_malloc_usable_size A p w') (m\<lparr>world := w'\<rparr>))"
proof -
  have size: "je_malloc_usable_size A p w' = n" using documentedD(3) [OF doc, of p w'] b by simp
  have "total b + n < 2 ^ 64" using documentedD(2) [OF doc, of w'] b total_add [OF p(2,1), of n] by simp
  then show ?thesis
    using used total_add [OF p(2,1), of n] b by (simp add: accounted_def update_malloc_stat_alloc_def rr_get_used_memory_def size)
qed

text \<open>Operations of a program on its memory; those on a pointer name a live block, or \<^verbatim>\<open>NULL\<close>.\<close>

datatype mem_op = Malloc nat | Calloc nat | Realloc "nat option" nat | Free "nat option"

fun run_mem_op :: "'w allocator \<Rightarrow> mem_op \<Rightarrow> 'w memory \<Rightarrow> 'w memory result" where
  "run_mem_op A (Malloc sz) m = rbind (rr_malloc A sz m) (\<lambda>(_, m). Inr m)"
| "run_mem_op A (Calloc sz) m = rbind (rr_calloc A sz m) (\<lambda>(_, m). Inr m)"
| "run_mem_op A (Realloc p sz) m = rbind (rr_realloc A p sz m) (\<lambda>(_, m). Inr m)"
| "run_mem_op A (Free p) m = Inr (rr_free A p m)"

fun names_live :: "('w \<Rightarrow> nat \<rightharpoonup> nat) \<Rightarrow> mem_op \<Rightarrow> 'w memory \<Rightarrow> bool" where
  "names_live blocks (Realloc (Some p) sz) m = (p \<in> dom (blocks (world m)))"
| "names_live blocks (Free (Some p)) m = (p \<in> dom (blocks (world m)))"
| "names_live blocks _ m = True"

lemma malloc_accounted:
  assumes "alloc_documented A blocks" and "accounted blocks m" and "rr_malloc A sz m = Inr (p, m')"
  shows "accounted blocks m' \<and> sz \<le> the (blocks (world m') p)"
proof -
  obtain w' where r: "je_malloc A sz (world m) = (Some p, w')"
    "m' = update_malloc_stat_alloc (je_malloc_usable_size A p w') (m\<lparr>world := w'\<rparr>)"
    using assms(3) by (auto simp: rr_malloc_def account_def rr_default_oom_def split: prod.splits option.splits)
  obtain n where n: "p \<notin> dom (blocks (world m))" "sz \<le> n" "blocks w' = (blocks (world m))(p \<mapsto> n)"
    using documentedD(4) [OF assms(1) r(1)] by blast
  have "accounted blocks m'"
    unfolding r(2) by (rule account_new [OF assms(1) _ n(1) documentedD(1) [OF assms(1)] n(3)])
      (use assms(2) in \<open>simp add: accounted_def rr_get_used_memory_def\<close>)
  then show ?thesis using r(2) n by (simp add: update_malloc_stat_alloc_def)
qed

text \<open>A copied string fits its block.\<close>

lemma strdup_fits:
  assumes "alloc_documented A blocks" and "accounted blocks m" and "rr_strdup A s m = Inr (p, bs, m')"
  shows "accounted blocks m' \<and> length bs \<le> the (blocks (world m') p)"
  using assms(3) malloc_accounted [OF assms(1,2)] by (auto simp: rr_strdup_def)

lemma calloc_accounted:
  assumes "alloc_documented A blocks" and "accounted blocks m" and "rr_calloc A sz m = Inr (p, m')"
  shows "accounted blocks m'"
proof -
  obtain w' where r: "je_calloc A 1 sz (world m) = (Some p, w')"
    "m' = update_malloc_stat_alloc (je_malloc_usable_size A p w') (m\<lparr>world := w'\<rparr>)"
    using assms(3) by (auto simp: rr_calloc_def account_def rr_default_oom_def split: prod.splits option.splits)
  obtain n where n: "p \<notin> dom (blocks (world m))" "blocks w' = (blocks (world m))(p \<mapsto> n)"
    using documentedD(5) [OF assms(1) r(1)] by blast
  show ?thesis
    unfolding r(2) by (rule account_new [OF assms(1) _ n(1) documentedD(1) [OF assms(1)] n(2)])
      (use assms(2) in \<open>simp add: accounted_def rr_get_used_memory_def\<close>)
qed

text \<open>The counter without a live block.\<close>

lemma stat_free_total:
  assumes "alloc_documented A blocks" and "accounted blocks m" and "p \<in> dom (blocks (world m))"
  shows "used_memory (update_malloc_stat_free (je_malloc_usable_size A p (world m)) m) = total ((blocks (world m))(p := None))"
proof -
  have "used_memory m = total ((blocks (world m))(p := None)) + the (blocks (world m) p)"
    using assms(2) total_remove [OF documentedD(1) [OF assms(1)] assms(3)] by (simp add: accounted_def rr_get_used_memory_def)
  moreover have "used_memory m < 2 ^ 64"
    using assms(2) documentedD(2) [OF assms(1)] by (simp add: accounted_def rr_get_used_memory_def)
  ultimately show ?thesis by (simp add: update_malloc_stat_free_def documentedD(3) [OF assms(1,3)])
qed

lemma stat_free_world: "update_malloc_stat_free sz (m\<lparr>world := w\<rparr>) = (update_malloc_stat_free sz m)\<lparr>world := w\<rparr>"
  by (cases m) (simp add: update_malloc_stat_free_def)

lemma realloc_accounted:
  assumes doc: "alloc_documented A blocks" and "accounted blocks m" and live: "p \<in> dom (blocks (world m))"
    and "rr_realloc A (Some p) sz m = Inr (q, m')"
  shows "accounted blocks m'"
proof -
  let ?m = "update_malloc_stat_free (je_malloc_usable_size A p (world m)) m"
  obtain w' where r: "je_realloc A p sz (world m) = (Some q, w')"
    "m' = update_malloc_stat_alloc (je_malloc_usable_size A q w') (?m\<lparr>world := w'\<rparr>)"
    using assms(4) by (auto simp: rr_realloc_def rr_default_oom_def stat_free_world Let_def split: prod.splits option.splits)
  obtain n where n: "q \<notin> dom (blocks (world m)) - {p}" "blocks w' = (blocks (world m))(p := None, q \<mapsto> n)"
    using documentedD(6) [OF doc live r(1)] by blast
  have dom: "dom ((blocks (world m))(p := None)) = dom (blocks (world m)) - {p}" by auto
  show ?thesis
    unfolding r(2)
    by (rule account_new [OF doc stat_free_total [OF doc assms(2) live] _ _ n(2)], unfold dom)
      (use n(1) documentedD(1) [OF doc, of "world m"] in simp_all)
qed

lemma free_accounted:
  assumes "alloc_documented A blocks" and "accounted blocks m" and "p \<in> dom (blocks (world m))"
  shows "accounted blocks (rr_free A (Some p) m)"
  using stat_free_total [OF assms] documentedD(7) [OF assms(1,3)]
  by (simp add: rr_free_def Let_def accounted_def rr_get_used_memory_def update_malloc_stat_free_def)

text \<open>A failure is the end of the program.\<close>

lemma malloc_fails: "rr_malloc A sz m = Inl e \<Longrightarrow> e = Exited"
  by (auto simp: rr_malloc_def account_def rr_default_oom_def split: prod.splits option.splits)

lemma calloc_fails: "rr_calloc A sz m = Inl e \<Longrightarrow> e = Exited"
  by (auto simp: rr_calloc_def account_def rr_default_oom_def split: prod.splits option.splits)

lemma realloc_fails: "rr_realloc A p sz m = Inl e \<Longrightarrow> e = Exited"
  by (auto simp: rr_realloc_def rr_default_oom_def Let_def dest: malloc_fails split: prod.splits option.splits)

text \<open>
  C39 (invariant). The memory in use. Whatever the allocator does within its documentation, every allocation, reallocation (in place or moved)
  and release keeps \<^verbatim>\<open>used_memory\<close> equal to the sum of the sizes of the live blocks, without wrapping
  around, unless the program has run out of memory and ended.
\<close>

theorem used_memory_exact:
  assumes "alloc_documented A blocks" and "accounted blocks m" and "names_live blocks op m"
  shows "case run_mem_op A op m of Inl e \<Rightarrow> e = Exited | Inr m' \<Rightarrow> accounted blocks m'"
proof (cases op)
  case (Malloc sz)
  with malloc_accounted [OF assms(1,2)] malloc_fails show ?thesis by (cases "rr_malloc A sz m") auto
next
  case (Calloc sz)
  with calloc_accounted [OF assms(1,2)] calloc_fails show ?thesis by (cases "rr_calloc A sz m") auto
next
  case (Realloc ptr sz)
  show ?thesis
  proof (cases ptr)
    case None
    with Realloc malloc_accounted [OF assms(1,2)] malloc_fails show ?thesis
      by (cases "rr_malloc A sz m") (auto simp: rr_realloc_def)
  next
    case (Some p)
    then have live: "p \<in> dom (blocks (world m))" using Realloc assms(3) by simp
    from Some Realloc realloc_accounted [OF assms(1,2) live] realloc_fails show ?thesis
      by (cases "rr_realloc A ptr sz m") auto
  qed
next
  case (Free ptr)
  with assms free_accounted [OF assms(1,2)] show ?thesis
    by (cases ptr) (auto simp: rr_free_def)
qed

text \<open>An allocator with one block of 64 bytes, which is taken or not.\<close>

definition one_block :: "bool allocator" where
  "one_block = \<lparr>
     je_malloc = (\<lambda>sz w. if \<not> w \<and> sz \<le> 64 then (Some 1, True) else (None, w)),
     je_calloc = (\<lambda>k sz w. if \<not> w \<and> k * sz \<le> 64 then (Some 1, True) else (None, w)),
     je_realloc = (\<lambda>p sz w. if sz \<le> 64 then (Some 1, True) else (None, w)),
     je_free = (\<lambda>p w. False), je_malloc_usable_size = (\<lambda>p w. 64)\<rparr>"

definition one_block_map :: "bool \<Rightarrow> nat \<rightharpoonup> nat" where
  "one_block_map w = (if w then [1 \<mapsto> 64] else Map.empty)"

theorem used_memory_exact_witness:
  "run_mem_op one_block (Malloc 10) \<lparr>world = False, used_memory = 0\<rparr> = Inr \<lparr>world = True, used_memory = 64\<rparr> \<and>
    accounted one_block_map \<lparr>world = True, used_memory = 64\<rparr> \<and>
    accounted one_block_map (rr_free one_block (Some 1) \<lparr>world = True, used_memory = 64\<rparr>)"
proof -
  have doc: "alloc_documented one_block one_block_map"
    unfolding alloc_documented_def by (auto simp: one_block_def one_block_map_def split: if_splits)
  have empty: "accounted one_block_map \<lparr>world = False, used_memory = 0\<rparr>"
    by (simp add: accounted_def rr_get_used_memory_def total_def one_block_map_def)
  have run: "run_mem_op one_block (Malloc 10) \<lparr>world = False, used_memory = 0\<rparr> = Inr \<lparr>world = True, used_memory = 64\<rparr>"
    by (simp add: rr_malloc_def account_def one_block_def update_malloc_stat_alloc_def)
  have one: "accounted one_block_map \<lparr>world = True, used_memory = 64\<rparr>"
    using used_memory_exact [OF doc empty, of "Malloc 10"] unfolding run by simp
  with run used_memory_exact [OF doc one, of "Free (Some 1)"] show ?thesis
    by (simp add: one_block_map_def)
qed

end
