(* ===== verification/Glob.thy ===== *)
theory Glob
  imports Util
begin

text \<open>
  The glob matcher of \<^verbatim>\<open>util.c\<close>.

  A pointer into the pattern or the string is an index; the byte after the last one is the NUL, and reading
  behind it is a fault. The lengths are the \<^verbatim>\<open>int\<close>s of the code. A call that never returns gives \<open>None\<close>.

  The specification is the relation of a pattern to a string, by recursion over both. The theorems: without character classes the matcher
  decides it; with them it may read behind its arguments.
\<close>

section \<open>The model\<close>

definition char_at :: "string \<Rightarrow> nat \<Rightarrow> char result" where
  "char_at s i = (if i \<le> length s then Inr (cget s i) else Inl OutOfBounds)"

text \<open>\<^verbatim>\<open>int\<close> values of a \<^verbatim>\<open>char\<close>, which is signed.\<close>

definition char_int :: "char \<Rightarrow> int" where
  "char_int c = signed_take_bit 7 (int (of_char c))"

definition tolower_int :: "int \<Rightarrow> int" where
  "tolower_int n = (if 65 \<le> n \<and> n \<le> 90 then n + 32 else n)"

definition same_char :: "bool \<Rightarrow> char \<Rightarrow> char \<Rightarrow> bool" where
  "same_char nocase a b \<longleftrightarrow> (if nocase then tolower_int (char_int a) = tolower_int (char_int b) else a = b)"

text \<open>\<^verbatim>\<open>c >= start && c <= end\<close> for the ends of a range in either order.\<close>

definition in_class_range :: "bool \<Rightarrow> char \<Rightarrow> char \<Rightarrow> char \<Rightarrow> bool" where
  "in_class_range nocase a b c =
     (let start = char_int a; end = char_int b; c = char_int c;
          (start, end) = (if start > end then (end, start) else (start, end));
          (start, end, c) = (if nocase then (tolower_int start, tolower_int end, tolower_int c) else (start, end, c))
      in c \<ge> start \<and> c \<le> end)"

text \<open>
  The loop over a class, from behind the \<^verbatim>\<open>[\<close> and the \<^verbatim>\<open>^\<close>; \<open>c\<close> is \<^verbatim>\<open>string[0]\<close>, a read that may fault. It gives the place and the length
  left, and whether a member matched.
\<close>

function class_loop :: "string \<Rightarrow> bool \<Rightarrow> char result \<Rightarrow> nat \<Rightarrow> int \<Rightarrow> bool \<Rightarrow> (nat \<times> int \<times> bool) result" where
  "class_loop p nocase c i len match =
     (case char_at p i of
        Inl e \<Rightarrow> Inl e
      | Inr a \<Rightarrow>
          if a = BSLASH
          then (case char_at p (i + 1) of
                  Inl e \<Rightarrow> Inl e
                | Inr b \<Rightarrow>
                    (case c of
                       Inl e \<Rightarrow> Inl e
                     | Inr d \<Rightarrow> class_loop p nocase c (i + 2) (len - 2) (match \<or> b = d)))
          else if a = CHR '']'' then Inr (i, len, match)
          else if len = 0 then Inr (i - 1, len + 1, match)
          else
            (case char_at p (i + 1) of
               Inl e \<Rightarrow> Inl e
             | Inr b \<Rightarrow>
                 if b = CHR ''-'' \<and> len \<ge> 3
                 then (case char_at p (i + 2) of
                         Inl e \<Rightarrow> Inl e
                       | Inr z \<Rightarrow>
                           (case c of
                              Inl e \<Rightarrow> Inl e
                            | Inr d \<Rightarrow> class_loop p nocase c (i + 3) (len - 3) (match \<or> in_class_range nocase a z d)))
                 else (case c of
                         Inl e \<Rightarrow> Inl e
                       | Inr d \<Rightarrow> class_loop p nocase c (i + 1) (len - 1) (match \<or> same_char nocase a d))))"
  by pat_completeness auto
termination
  by (relation "measure (\<lambda>(p, nocase, c, i, len, match). length p + 1 - i)") (auto simp: char_at_def split: if_splits)

text \<open>\<^verbatim>\<open>while (pattern[1] == '*') { pattern++; patternLen--; }\<close> with \<open>k = 1\<close>, and \<^verbatim>\<open>while(*pattern == '*')\<close> with \<open>k = 0\<close>.\<close>

function skip_stars :: "string \<Rightarrow> nat \<Rightarrow> nat \<Rightarrow> int \<Rightarrow> (nat \<times> int) result" where
  "skip_stars p k i len =
     (case char_at p (i + k) of
        Inl e \<Rightarrow> Inl e
      | Inr a \<Rightarrow> if a = CHR ''*'' then skip_stars p k (i + 1) (len - 1) else Inr (i, len))"
  by pat_completeness auto
termination
  by (relation "measure (\<lambda>(p, k, i, len). length p + 1 - i)") (auto simp: char_at_def cget_def split: if_splits)

text \<open>
  One round of the loop after the first character has been dealt with: the rest of the pattern, the rest of the string. \<open>Inl\<close> is a
  return, \<open>Inr\<close> the state in which the loop goes on.
\<close>

datatype glob_step = Return bool | Star nat int | Next nat int nat int

definition one_char :: "string \<Rightarrow> string \<Rightarrow> bool \<Rightarrow> nat \<Rightarrow> int \<Rightarrow> nat \<Rightarrow> int \<Rightarrow> glob_step result" where
  "one_char p s nocase i pl j sl =
     rbind (char_at p i) (\<lambda>a. rbind (char_at s j) (\<lambda>b.
       Inr (if same_char nocase a b then Next i pl (j + 1) (sl - 1) else Return False)))"

definition class_char :: "string \<Rightarrow> string \<Rightarrow> bool \<Rightarrow> nat \<Rightarrow> int \<Rightarrow> nat \<Rightarrow> int \<Rightarrow> glob_step result" where
  "class_char p s nocase i pl j sl =
     rbind (char_at p (i + 1)) (\<lambda>a.
     let neg = (a = CHR ''^'');
         (i, pl) = (if neg then (i + 2, pl - 2) else (i + 1, pl - 1))
     in rbind (class_loop p nocase (char_at s j) i pl False) (\<lambda>(i, pl, match).
        Inr (if match = neg then Return False else Next i pl (j + 1) (sl - 1))))"

text \<open>The \<^verbatim>\<open>switch\<close>.\<close>

definition glob_switch :: "string \<Rightarrow> string \<Rightarrow> bool \<Rightarrow> nat \<Rightarrow> int \<Rightarrow> nat \<Rightarrow> int \<Rightarrow> glob_step result" where
  "glob_switch p s nocase i pl j sl =
     rbind (char_at p i) (\<lambda>a.
       if a = CHR ''*'' then
         rbind (skip_stars p 1 i pl) (\<lambda>(i, pl). Inr (if pl = 1 then Return True else Star i pl))
       else if a = CHR ''?'' then Inr (if sl = 0 then Return False else Next i pl (j + 1) (sl - 1))
       else if a = CHR ''['' then class_char p s nocase i pl j sl
       else if a = BSLASH \<and> pl \<ge> 2 then one_char p s nocase (i + 1) (pl - 1) j sl
       else one_char p s nocase i pl j sl)"

text \<open>
  The function, with \<open>star\<close> false, and the loop of the case \<^verbatim>\<open>'*'\<close> over the rest of the string, with \<open>star\<close> true.
\<close>

partial_function (option) glob_run :: "string \<Rightarrow> string \<Rightarrow> bool \<Rightarrow> bool \<Rightarrow> nat \<Rightarrow> int \<Rightarrow> nat \<Rightarrow> int \<Rightarrow> bool result option" where
  "glob_run p s nocase star i pl j sl =
     (if star then
        if sl = 0 then Some (Inr False)
        else Option.bind (glob_run p s nocase False (i + 1) (pl - 1) j sl) (\<lambda>r.
               if r = Inr False then glob_run p s nocase True i pl (j + 1) (sl - 1) else Some r)
      else if pl = 0 then Some (Inr (sl = 0))
      else
        case glob_switch p s nocase i pl j sl of
          Inl e \<Rightarrow> Some (Inl e)
        | Inr (Return b) \<Rightarrow> Some (Inr b)
        | Inr (Star i pl) \<Rightarrow> glob_run p s nocase True i pl j sl
        | Inr (Next i pl j sl) \<Rightarrow>
            if sl = 0
            then (case skip_stars p 0 (i + 1) (pl - 1) of
                    Inl e \<Rightarrow> Some (Inl e)
                  | Inr (i, pl) \<Rightarrow> Some (Inr (pl = 0)))
            else glob_run p s nocase False (i + 1) (pl - 1) j sl)"

definition stringmatchlen :: "string \<Rightarrow> int \<Rightarrow> string \<Rightarrow> int \<Rightarrow> bool \<Rightarrow> bool result option" where
  "stringmatchlen pattern patternLen string stringLen nocase = glob_run pattern string nocase False 0 patternLen 0 stringLen"

definition stringmatch :: "string \<Rightarrow> string \<Rightarrow> bool \<Rightarrow> bool result option" where
  "stringmatch pattern string nocase = stringmatchlen pattern (int (length pattern)) string (int (length string)) nocase"

section \<open>The specification\<close>

fun matches_glob :: "bool \<Rightarrow> string \<Rightarrow> string \<Rightarrow> bool" where
  "matches_glob nc [] s \<longleftrightarrow> s = []"
| "matches_glob nc (c # p) s \<longleftrightarrow>
     (if c = CHR ''*'' then matches_glob nc p s \<or> (case s of [] \<Rightarrow> False | d # t \<Rightarrow> matches_glob nc (c # p) t)
      else
        case s of
          [] \<Rightarrow> False
        | d # t \<Rightarrow>
            if c = CHR ''?'' then matches_glob nc p t
            else if c = BSLASH \<and> p \<noteq> [] then same_char nc (hd p) d \<and> matches_glob nc (tl p) t
            else same_char nc c d \<and> matches_glob nc p t)"

declare class_loop.simps [simp del] skip_stars.simps [simp del]

section \<open>The matcher decides the specification\<close>

lemma matches_empty: "matches_glob nc p [] \<longleftrightarrow> set p \<subseteq> {CHR ''*''}"
  by (induction p) auto

lemma star_star: "matches_glob nc (CHR ''*'' # CHR ''*'' # p) s = matches_glob nc (CHR ''*'' # p) s"
  by (induction s) auto

lemma char_int_0: "char_int c = 0 \<longleftrightarrow> c = NUL"
proof
  assume "char_int c = 0"
  moreover have "take_bit 8 (char_int c) = take_bit 8 (int (of_char c))" by (simp add: char_int_def take_bit_signed_take_bit)
  moreover have "take_bit 8 (int (of_char c)) = int (of_char c)"
    using nat_of_char_less_256 [of c] by (simp add: take_bit_int_eq_self_iff)
  ultimately have "(of_char c :: nat) = of_char NUL" by simp
  then show "c = NUL" by (simp only: of_char_eq_iff)
qed (simp add: char_int_def)

lemma same_char_NUL: "same_char nc a NUL \<longleftrightarrow> a = NUL"
  using char_int_0 [of a] char_int_0 [of NUL] by (auto simp: same_char_def tolower_int_def split: if_splits)

lemma char_at_simps: "i < length s \<Longrightarrow> char_at s i = Inr (s ! i)" "char_at s (length s) = Inr NUL"
  by (simp_all add: char_at_def cget_def)

text \<open>The length of what is left from a place on.\<close>

definition rest_len :: "string \<Rightarrow> nat \<Rightarrow> int" where
  "rest_len s i = int (length s - i)"

lemma rest_len_Suc: "i < length s \<Longrightarrow> rest_len s i - 1 = rest_len s (i + 1)"
  by (simp add: rest_len_def)

lemma rest_len_0 [simp]: "rest_len s i = 0 \<longleftrightarrow> length s \<le> i"
  by (auto simp: rest_len_def)

lemma skip_one:
  assumes "i < length p" and "p ! i = CHR ''*''"
  shows "\<exists>k. skip_stars p 1 i (rest_len p i) = Inr (k, rest_len p k) \<and> i \<le> k \<and> k < length p \<and> p ! k = CHR ''*'' \<and>
    (k + 1 < length p \<longrightarrow> p ! (k + 1) \<noteq> CHR ''*'') \<and> (\<forall>s. matches_glob nc (drop i p) s = matches_glob nc (drop k p) s)"
  using assms
proof (induction "length p - i" arbitrary: i rule: less_induct)
  case less
  have len: "rest_len p i - 1 = rest_len p (i + 1)" using less.prems by (simp only: rest_len_Suc)
  show ?case
  proof (cases "i + 1 < length p \<and> p ! (i + 1) = CHR ''*''")
    case True
    have "length p - (i + 1) < length p - i" using less.prems(1) by simp
    from less.hyps [OF this] True obtain k where
      k: "skip_stars p 1 (i + 1) (rest_len p (i + 1)) = Inr (k, rest_len p k)" "i + 1 \<le> k" "k < length p" "p ! k = CHR ''*''"
      "k + 1 < length p \<longrightarrow> p ! (k + 1) \<noteq> CHR ''*''" "\<forall>s. matches_glob nc (drop (i + 1) p) s = matches_glob nc (drop k p) s" by auto
    have step: "skip_stars p 1 i (rest_len p i) = skip_stars p 1 (i + 1) (rest_len p (i + 1))"
      using True len by (subst skip_stars.simps) (simp add: char_at_simps)
    have "drop i p = CHR ''*'' # CHR ''*'' # drop (i + 2) p" "drop (i + 1) p = CHR ''*'' # drop (i + 2) p"
      using True less.prems by (simp_all add: Cons_nth_drop_Suc [symmetric])
    then have "\<forall>s. matches_glob nc (drop i p) s = matches_glob nc (drop k p) s" using k(6) star_star by metis
    with k step show ?thesis by auto
  next
    case False
    have "char_at p (i + 1) = Inr (cget p (i + 1))" using less.prems(1) by (simp add: char_at_def)
    moreover have "cget p (i + 1) \<noteq> CHR ''*''" using False by (auto simp: cget_def)
    ultimately have "skip_stars p 1 i (rest_len p i) = Inr (i, rest_len p i)"
      by (subst skip_stars.simps) simp
    with False less.prems show ?thesis by auto
  qed
qed

lemma skip_all:
  "i \<le> length p \<Longrightarrow> \<exists>k. skip_stars p 0 i (rest_len p i) = Inr (k, rest_len p k) \<and> k \<le> length p \<and>
    (k = length p \<longleftrightarrow> matches_glob nc (drop i p) [])"
proof (induction "length p - i" arbitrary: i rule: less_induct)
  case less
  show ?case
  proof (cases "i < length p \<and> p ! i = CHR ''*''")
    case True
    have len: "rest_len p i - 1 = rest_len p (i + 1)" using True by (simp only: rest_len_Suc)
    have step: "skip_stars p 0 i (rest_len p i) = skip_stars p 0 (i + 1) (rest_len p (i + 1))"
      using True len by (subst skip_stars.simps) (simp add: char_at_simps)
    have "drop i p = CHR ''*'' # drop (i + 1) p" using True by (simp add: Cons_nth_drop_Suc [symmetric])
    then have "matches_glob nc (drop i p) [] = matches_glob nc (drop (i + 1) p) []" by simp
    with step less.hyps [of "i + 1"] True show ?thesis by auto
  next
    case False
    have "char_at p i = Inr (cget p i)" using less.prems by (simp add: char_at_def)
    moreover have "cget p i \<noteq> CHR ''*''" using False by (auto simp: cget_def)
    ultimately have "skip_stars p 0 i (rest_len p i) = Inr (i, rest_len p i)"
      by (subst skip_stars.simps) simp
    moreover have "matches_glob nc (drop i p) [] \<longleftrightarrow> i = length p"
    proof (cases "i < length p")
      case True
      then have "drop i p = p ! i # drop (i + 1) p" by (simp add: Cons_nth_drop_Suc)
      with True False show ?thesis by simp
    qed (use less.prems in simp)
    ultimately show ?thesis using less.prems by auto
  qed
qed

text \<open>What is to be shown of a call, and what the loop makes of a character that was consumed.\<close>

definition decides :: "string \<Rightarrow> string \<Rightarrow> bool \<Rightarrow> bool \<Rightarrow> nat \<Rightarrow> nat \<Rightarrow> bool" where
  "decides p s nc star i j \<longleftrightarrow>
     glob_run p s nc star i (rest_len p i) j (rest_len s j) = Some (Inr (matches_glob nc (drop i p) (drop j s)))"

lemma run_next:
  assumes sw: "glob_switch p s nc i (rest_len p i) j (rest_len s j) =
      Inr (Next k (rest_len p k) (j + 1) (rest_len s j - 1))"
    and k: "i \<le> k" "k < length p" and j: "j < length s" and IH: "decides p s nc False (k + 1) (j + 1)"
  shows "glob_run p s nc False i (rest_len p i) j (rest_len s j) =
    Some (Inr (matches_glob nc (drop (k + 1) p) (drop (j + 1) s)))"
proof -
  have len: "rest_len p k - 1 = rest_len p (k + 1)" "rest_len s j - 1 = rest_len s (j + 1)"
    using k j by (simp_all only: rest_len_Suc)
  have go: "rest_len p i \<noteq> 0" using k by simp
  obtain q where q: "skip_stars p 0 (k + 1) (rest_len p (k + 1)) = Inr (q, rest_len p q)" "q \<le> length p"
    "q = length p \<longleftrightarrow> matches_glob nc (drop (k + 1) p) []"
    using skip_all [of "k + 1" p nc] k by auto
  show ?thesis
  proof (cases "length s \<le> j + 1")
    case True
    then have "drop (j + 1) s = []" by simp
    moreover have "length p \<le> q \<longleftrightarrow> matches_glob nc (drop (k + 1) p) []" using q(2,3) by auto
    ultimately show ?thesis
      using True go sw len q(1) by (subst glob_run.simps) simp
  next
    case False
    with IH show ?thesis
      using go sw len by (subst glob_run.simps) (simp add: decides_def)
  qed
qed

lemma run_return:
  assumes "glob_switch p s nc i (rest_len p i) j (rest_len s j) = Inr (Return b)" and "i < length p"
  shows "glob_run p s nc False i (rest_len p i) j (rest_len s j) = Some (Inr b)"
  using assms by (subst glob_run.simps) simp

text \<open>A character of the pattern that stands for itself, at \<open>k\<close>, behind a backslash or not.\<close>

lemma run_one_char:
  assumes sw: "glob_switch p s nc i (rest_len p i) j (rest_len s j) = one_char p s nc k (rest_len p k) j (rest_len s j)"
    and k: "i \<le> k" "k < length p" and j: "j \<le> length s" and nul: "p ! k \<noteq> NUL"
    and IH: "j < length s \<Longrightarrow> decides p s nc False (k + 1) (j + 1)"
  shows "glob_run p s nc False i (rest_len p i) j (rest_len s j) =
    Some (Inr (case drop j s of [] \<Rightarrow> False | d # t \<Rightarrow> same_char nc (p ! k) d \<and> matches_glob nc (drop (k + 1) p) t))"
proof (cases "j < length s")
  case False
  then have "j = length s" using j by simp
  then have "one_char p s nc k (rest_len p k) j (rest_len s j) = Inr (Return False)"
    using k(2) nul by (simp add: one_char_def char_at_simps same_char_NUL)
  then show ?thesis using run_return [of p s nc i j False] sw k \<open>j = length s\<close> by simp
next
  case True
  have d: "drop j s = s ! j # drop (j + 1) s" using True by (simp add: Cons_nth_drop_Suc)
  show ?thesis
  proof (cases "same_char nc (p ! k) (s ! j)")
    case same: True
    have "glob_switch p s nc i (rest_len p i) j (rest_len s j) = Inr (Next k (rest_len p k) (j + 1) (rest_len s j - 1))"
      unfolding sw using k(2) True same by (simp add: one_char_def char_at_simps)
    from run_next [OF this k True IH [OF True]] same show ?thesis by (simp add: d)
  next
    case False
    then have "glob_switch p s nc i (rest_len p i) j (rest_len s j) = Inr (Return False)"
      unfolding sw using k(2) True by (simp add: one_char_def char_at_simps)
    from run_return [OF this] False k show ?thesis by (simp add: d)
  qed
qed

text \<open>The loop of the case \<^verbatim>\<open>'*'\<close>, at the last of a run of stars that is not the last of the pattern.\<close>

lemma star_decides:
  assumes i: "i + 1 < length p" "p ! i = CHR ''*''" "p ! (i + 1) \<noteq> CHR ''*''"
    and IH: "\<forall>j\<le>length s. decides p s nc False (i + 1) j"
  shows "j \<le> length s \<Longrightarrow> decides p s nc True i j"
proof (induction "length s - j" arbitrary: j rule: less_induct)
  case less
  have p: "drop i p = CHR ''*'' # drop (i + 1) p" using i(1,2) by (metis Cons_nth_drop_Suc Suc_eq_plus1 add_lessD1)
  have len: "rest_len p i - 1 = rest_len p (i + 1)" using i(1) by (intro rest_len_Suc) simp
  have first: "drop (i + 1) p = p ! (i + 1) # drop (i + 2) p" using i(1) by (simp add: Cons_nth_drop_Suc)
  show ?case
  proof (cases "j < length s")
    case False
    then have "j = length s" using less.prems by simp
    moreover have "\<not> matches_glob nc (drop i p) []" unfolding p using first i(3) by simp
    ultimately show ?thesis unfolding decides_def by (subst glob_run.simps) simp
  next
    case True
    have d: "drop j s = s ! j # drop (j + 1) s" using True by (simp add: Cons_nth_drop_Suc)
    have len': "rest_len s j - 1 = rest_len s (j + 1)" using True by (rule rest_len_Suc)
    have here: "glob_run p s nc False (i + 1) (rest_len p i - 1) j (rest_len s j) = Some (Inr (matches_glob nc (drop (i + 1) p) (drop j s)))"
      using IH less.prems unfolding len decides_def by blast
    have more: "glob_run p s nc True i (rest_len p i) (j + 1) (rest_len s j - 1) = Some (Inr (matches_glob nc (drop i p) (drop (j + 1) s)))"
      using less.hyps [of "j + 1"] True unfolding len' decides_def by simp
    have "matches_glob nc (drop i p) (drop j s) \<longleftrightarrow>
        matches_glob nc (drop (i + 1) p) (drop j s) \<or> matches_glob nc (drop i p) (drop (j + 1) s)"
      unfolding p d by simp
    then show ?thesis
      unfolding decides_def using True here more by (subst glob_run.simps) (auto simp del: drop_append)
  qed
qed

text \<open>The cases of the \<^verbatim>\<open>switch\<close> that are not a character.\<close>

lemma star_case:
  assumes i: "i < length p" "p ! i = CHR ''*''" and j: "j \<le> length s"
    and IH: "\<And>k j. i < k \<Longrightarrow> k \<le> length p \<Longrightarrow> j \<le> length s \<Longrightarrow> decides p s nc False k j"
  shows "decides p s nc False i j"
proof -
  obtain k where k: "skip_stars p 1 i (rest_len p i) = Inr (k, rest_len p k)" "i \<le> k" "k < length p" "p ! k = CHR ''*''"
    "k + 1 < length p \<longrightarrow> p ! (k + 1) \<noteq> CHR ''*''" "\<forall>s. matches_glob nc (drop i p) s = matches_glob nc (drop k p) s"
    using skip_one [OF i, of nc] by blast
  show ?thesis
  proof (cases "k + 1 < length p")
    case False
    then have "rest_len p k = 1" "drop k p = [CHR ''*'']"
      using k(3,4) by (auto simp: rest_len_def Cons_nth_drop_Suc [symmetric])
    moreover have "matches_glob nc [CHR ''*''] t" for t by (induction t) auto
    moreover have "glob_switch p s nc i (rest_len p i) j (rest_len s j) = Inr (Return True)"
      using k(1) i \<open>rest_len p k = 1\<close> by (simp add: glob_switch_def char_at_simps)
    ultimately show ?thesis using run_return [OF _ i(1)] k(6) by (simp add: decides_def)
  next
    case more: True
    then have "rest_len p k \<noteq> 1" by (simp add: rest_len_def)
    then have "glob_switch p s nc i (rest_len p i) j (rest_len s j) = Inr (Star k (rest_len p k))"
      using k(1) i by (simp add: glob_switch_def char_at_simps)
    then have "glob_run p s nc False i (rest_len p i) j (rest_len s j) = glob_run p s nc True k (rest_len p k) j (rest_len s j)"
      using i(1) by (subst glob_run.simps) simp
    moreover have "decides p s nc True k j"
      by (rule star_decides) (use more k IH j in simp_all)
    ultimately show ?thesis using k(6) by (simp add: decides_def)
  qed
qed

lemma any_case:
  assumes i: "i < length p" "p ! i = CHR ''?''"
    and IH: "j < length s \<Longrightarrow> decides p s nc False (i + 1) (j + 1)"
  shows "decides p s nc False i j"
proof -
  have p: "drop i p = p ! i # drop (i + 1) p" using i(1) by (simp add: Cons_nth_drop_Suc)
  show ?thesis
  proof (cases "j < length s")
    case False
    then have "glob_switch p s nc i (rest_len p i) j (rest_len s j) = Inr (Return False)"
      using i by (simp add: glob_switch_def char_at_simps)
    from run_return [OF this i(1)] False i(2) show ?thesis by (simp add: decides_def p)
  next
    case j: True
    then have sw: "glob_switch p s nc i (rest_len p i) j (rest_len s j) = Inr (Next i (rest_len p i) (j + 1) (rest_len s j - 1))"
      using i by (simp add: glob_switch_def char_at_simps)
    have d: "drop j s = s ! j # drop (j + 1) s" using j by (simp add: Cons_nth_drop_Suc)
    from run_next [OF sw order_refl i(1) j IH [OF j]] i(2) show ?thesis by (simp add: decides_def p d)
  qed
qed

lemma glob_decides:
  assumes nul: "nul_free p" and cls: "CHR ''['' \<notin> set p"
  shows "i \<le> length p \<Longrightarrow> j \<le> length s \<Longrightarrow> decides p s nc False i j"
proof (induction "length p - i" arbitrary: i j rule: less_induct)
  case less
  have IH: "decides p s nc False k j" if "i < k" "k \<le> length p" "j \<le> length s" for k j
    using less.hyps [of k j] that by simp
  show ?case
  proof (cases "i < length p")
    case False
    then show ?thesis using less.prems unfolding decides_def by (subst glob_run.simps) auto
  next
    case True
    have p: "drop i p = p ! i # drop (i + 1) p" using True by (simp add: Cons_nth_drop_Suc)
    have char: "p ! k \<noteq> NUL" "p ! k \<noteq> CHR ''[''" if "k < length p" for k
      using nul cls nth_mem [OF that] by (metis nul_free_def)+
    consider "p ! i = CHR ''*''" | "p ! i = CHR ''?''" | "p ! i = BSLASH" "i + 1 < length p"
      | "p ! i \<noteq> CHR ''*''" "p ! i \<noteq> CHR ''?''" "\<not> (p ! i = BSLASH \<and> i + 1 < length p)" by blast
    then show ?thesis
    proof cases
      case 1
      show ?thesis by (rule star_case [OF True 1 less.prems(2) IH])
    next
      case 2
      show ?thesis by (rule any_case [OF True 2]) (use True IH in simp)
    next
      case 3
      have "rest_len p i \<ge> 2" "rest_len p i - 1 = rest_len p (i + 1)" using 3 by (simp_all add: rest_len_def)
      then have sw: "glob_switch p s nc i (rest_len p i) j (rest_len s j) = one_char p s nc (i + 1) (rest_len p (i + 1)) j (rest_len s j)"
        using True 3 by (simp add: glob_switch_def char_at_simps)
      have p2: "drop (i + 1) p = p ! (i + 1) # drop (i + 2) p" using 3 by (simp add: Cons_nth_drop_Suc)
      have "glob_run p s nc False i (rest_len p i) j (rest_len s j) =
          Some (Inr (case drop j s of [] \<Rightarrow> False | d # t \<Rightarrow> same_char nc (p ! (i + 1)) d \<and> matches_glob nc (drop (i + 1 + 1) p) t))"
        by (rule run_one_char [OF sw]) (use 3 char less.prems IH in simp_all)
      then show ?thesis using 3 p2 by (simp add: decides_def p split: list.splits)
    next
      case 4
      have "\<not> (p ! i = BSLASH \<and> rest_len p i \<ge> 2)" using 4 by (auto simp: rest_len_def)
      then have sw: "glob_switch p s nc i (rest_len p i) j (rest_len s j) = one_char p s nc i (rest_len p i) j (rest_len s j)"
        using True 4 char [OF True] by (auto simp: glob_switch_def char_at_simps)
      have "glob_run p s nc False i (rest_len p i) j (rest_len s j) =
          Some (Inr (case drop j s of [] \<Rightarrow> False | d # t \<Rightarrow> same_char nc (p ! i) d \<and> matches_glob nc (drop (i + 1) p) t))"
        by (rule run_one_char [OF sw]) (use True char less.prems IH in simp_all)
      then show ?thesis using 4 by (auto simp: decides_def p split: list.splits)
    qed
  qed
qed

text \<open>
  C40 (equivalence). Matching patterns. For a pattern without character classes, \<^verbatim>\<open>stringmatch\<close> returns on every string, reads neither behind the pattern
  nor behind the string, and decides the specification of patterns, with and without regard to case. With classes it may not: on \<^verbatim>\<open>[^a]b\<close> and the empty
  string it takes the end of the string for a member of the class and reads on behind it.
\<close>

theorem stringmatch_decides:
  assumes "nul_free p" and "CHR ''['' \<notin> set p"
  shows "stringmatch p s nocase = Some (Inr (matches_glob nocase p s)) \<and> stringmatch ''[^a]b'' [] nocase = Some (Inl OutOfBounds)"
proof
  show "stringmatch p s nocase = Some (Inr (matches_glob nocase p s))"
    using glob_decides [OF assms, of 0 0 s nocase]
    by (simp add: stringmatch_def stringmatchlen_def decides_def rest_len_def)
  have a: "\<not> same_char nocase (CHR ''a'') NUL" by (simp add: same_char_NUL)
  have cls: "class_loop ''[^a]b'' nocase (Inr NUL) 2 3 False = Inr (3, 2, False)"
    using a by (subst class_loop.simps, simp add: char_at_def cget_def, subst class_loop.simps, simp add: char_at_def cget_def)
  have one: "glob_switch ''[^a]b'' [] nocase 0 5 0 0 = Inr (Next 3 2 1 (- 1))"
    using cls [unfolded numeral_2_eq_2] by (simp add: glob_switch_def class_char_def char_at_def cget_def)
  have two: "glob_switch ''[^a]b'' [] nocase 4 1 (Suc 0) (- 1) = Inl OutOfBounds"
    by (simp add: glob_switch_def one_char_def char_at_def cget_def)
  have "glob_run ''[^a]b'' [] nocase False 4 1 1 (- 1) = Some (Inl OutOfBounds)"
    by (subst glob_run.simps) (simp add: two)
  then show "stringmatch ''[^a]b'' [] nocase = Some (Inl OutOfBounds)"
    unfolding stringmatch_def stringmatchlen_def by (subst glob_run.simps) (simp add: one)
qed

theorem stringmatch_decides_witness:
  "stringmatch ''h*l?'' ''HELLO'' True = Some (Inr True) \<and> stringmatch ''h*l?'' ''HELLO'' False = Some (Inr False)"
proof -
  have p: "nul_free ''h*l?''" "CHR ''['' \<notin> set ''h*l?''" by (simp_all add: nul_free_def)
  have "matches_glob True ''h*l?'' ''HELLO''" "\<not> matches_glob False ''h*l?'' ''HELLO''" by code_simp+
  then show ?thesis using stringmatch_decides [OF p, of "''HELLO''"] by simp
qed

end
