(* ===== verification/Spec2Isabelle.thy ===== *)
theory Spec2Isabelle
  imports Prelude Rr_Dict Rr_Array Rr_Minheap Util Sds Sds_Text Robj Reply Db Keyspace Aggregates Commands Queries
    Stemmer Stopwords Fts Protocol Server Frame Machine Dispatch Session
    Lifecycle Rr_Event Adlist Bgtask Ini Config Sha1 Network Rr_Malloc Glob
begin

text \<open>
  Verification of rhino-rox, an in-memory key-value server in C with strings, tries, heap queues
  and full-text indexes as values, spoken to in the Redis protocol.

  \<^bold>\<open>The program.\<close> \<^verbatim>\<open>main\<close> (\<^verbatim>\<open>rr_server.c\<close>) reads the command line and an INI file (\<^verbatim>\<open>rr_config.c\<close>, \<^verbatim>\<open>ini.c\<close>), builds the server and
  enters the event loop (\<^verbatim>\<open>rr_event.c\<close> over \<^verbatim>\<open>rr_epoll.c\<close>). A listening socket that is readable makes clients; a readable client
  has its bytes appended to its query buffer (a dynamic string of \<^verbatim>\<open>sds.c\<close>), from which the inline or
  multi-bulk parser takes requests one by one. A request is looked up in the command table and its
  procedure runs: those of \<^verbatim>\<open>rr_db.c\<close>, \<^verbatim>\<open>rr_cmd_trie.c\<close>, \<^verbatim>\<open>rr_cmd_heapq.c\<close>, \<^verbatim>\<open>rr_cmd_fts.c\<close> and \<^verbatim>\<open>rr_cmd_admin.c\<close>. The
  commands work on the keyspace, a crit-bit dictionary (\<^verbatim>\<open>rr_dict.c\<close>) from keys to reference-counted objects (\<^verbatim>\<open>robj.c\<close>), whose
  contents are strings, dictionaries, binary heaps (\<^verbatim>\<open>rr_minheap.c\<close> over \<^verbatim>\<open>rr_array.c\<close>) or indexes (\<^verbatim>\<open>rr_fts.c\<close> with
  \<^verbatim>\<open>rr_stemmer.c\<close> and \<^verbatim>\<open>rr_stopwords.c\<close>). Replies (\<^verbatim>\<open>rr_replying.c\<close>) go to a buffer and a list of the client and from there to the
  socket. Large objects are released by a background thread (\<^verbatim>\<open>rr_bgtask.c\<close>) that is fed through a linked list (\<^verbatim>\<open>adlist.c\<close>).

  \<^bold>\<open>How the code is modelled.\<close> A function of the code is a HOL function of its name. One that may go wrong in a way C leaves undefined
  (a null or dangling pointer, an access outside an array, a failed assertion) or that ends the program gives a value of
  \<open>'a result\<close>, the sum of the faults of \<open>Prelude\<close> and the results; the theorems that say that it gives \<open>Inr\<close> say that
  none of this happens. State is passed explicitly. Machine integers are words, or integers with the
  wrap-around written out. Bytes are \<open>char\<close>s, and a NUL-terminated string is the list of the bytes before the NUL.

  \<^bold>\<open>Theories and sources.\<close>
  \<^item> \<open>Prelude\<close>: bytes, C strings, machine integers, faults, shared lemmas.
  \<^item> \<open>Rr_Dict\<close> (\<^verbatim>\<open>rr_dict.c\<close>): the crit-bit tree. It refines finite maps, iterates in \<^verbatim>\<open>strcmp\<close> order; what the prefix search finds, and when it
    crashes. Its contract is the locale \<open>string_map\<close>, interpreted with the operations of the code.
  \<^item> \<open>Rr_Array\<close> (\<^verbatim>\<open>rr_array.c\<close>), \<open>Rr_Minheap\<close> (\<^verbatim>\<open>rr_minheap.c\<close>): growable arrays and binary heaps on them, for any comparison that
    meets the locale \<open>heap_order\<close>; it is interpreted with the comparisons of heap queues, of search results
    and of timers. A heap is a \<open>prio_queue\<close>: pushing and popping are operations on a multiset, in order.
  \<^item> \<open>Util\<close> (\<^verbatim>\<open>util.c\<close>): numbers from and to text. \<open>Sds\<close> (\<^verbatim>\<open>sds.c\<close>, \<^verbatim>\<open>sds.h\<close>): dynamic strings in their memory blocks with all five
    headers; every operation stays inside the block and is the operation on byte strings, the contract
    \<open>byte_buffer\<close>. \<open>Sds_Text\<close>: quoting and splitting.
  \<^item> \<open>Robj\<close> (\<^verbatim>\<open>robj.c\<close>): objects in an explicit store with reference counts and encodings. With exact counts, giving up a reference frees
    exactly what lost its last reference.
  \<^item> \<open>Reply\<close> (\<^verbatim>\<open>rr_replying.c\<close>): what each reply function queues, and that writing to the socket loses and repeats nothing.
  \<^item> \<open>Db\<close> (\<^verbatim>\<open>rr_db.c\<close>, \<^verbatim>\<open>rr_cmd_trie.c\<close>, \<^verbatim>\<open>rr_cmd_heapq.c\<close>): the commands. \<open>Keyspace\<close>, \<open>Aggregates\<close>, \<open>Commands\<close> and \<open>Queries\<close> show
    for each that it keeps the invariant \<open>srv_wf\<close> (exact counts, well-formed structures, no sharing of aggregates), what it does to
    the keyspace as a user sees it (\<open>ks\<close>), and what it answers.
  \<^item> \<open>Stemmer\<close>, \<open>Stopwords\<close>, \<open>Fts\<close> (\<^verbatim>\<open>rr_stemmer.c\<close>, \<^verbatim>\<open>rr_stopwords.c\<close>, \<^verbatim>\<open>rr_fts.c\<close>, \<^verbatim>\<open>rr_cmd_fts.c\<close>): stemming stays inside the word; adding and
    removing documents; ranking.
  \<^item> \<open>Protocol\<close>, \<open>Server\<close>, \<open>Frame\<close>, \<open>Dispatch\<close> (\<^verbatim>\<open>rr_server.c\<close>, \<^verbatim>\<open>rr_cmd_admin.c\<close>): the parsers, the clients, the command table,
    the loop over the requests of a client, and what no command touches.
  \<^item> \<open>Machine\<close>: the specification of the server, for each command the answers it may give and the keyspace
    it leaves. \<open>Session\<close>: from the bytes that arrive to the replies, in whatever pieces they arrive, the server does what the
    machine allows; the parser's side is proved in the locale \<open>service\<close>, which the commands then meet.
  \<^item> \<open>Lifecycle\<close> (\<^verbatim>\<open>rr_server.c\<close>): starting, accepting, the limit on clients, closing.
  \<^item> \<open>Rr_Event\<close> (\<^verbatim>\<open>rr_event.c\<close>, \<^verbatim>\<open>rr_epoll.c\<close>, \<^verbatim>\<open>rr_datetime.c\<close>): what is watched, timers, and the time to sleep.
  \<^item> \<open>Adlist\<close> (\<^verbatim>\<open>adlist.c\<close>): the linked list on a memory of nodes refines lists. \<open>Bgtask\<close> (\<^verbatim>\<open>rr_bgtask.c\<close>): the two threads as a step
    relation over it.
  \<^item> \<open>Ini\<close> (\<^verbatim>\<open>ini.c\<close>), \<open>Config\<close> (\<^verbatim>\<open>rr_config.c\<close>, the command line of \<^verbatim>\<open>main\<close>, \<^verbatim>\<open>getAbsolutePath\<close>): files are read back as they were
    written, loaded configurations are in range. A client of the reader meets the locale
    \<open>checked_handler\<close>.
  \<^item> \<open>Sha1\<close> (\<^verbatim>\<open>sha1.c\<close>, \<^verbatim>\<open>getRandomHexChars\<close>): the digest is that of the standard, in whatever pieces the message is hashed. \<open>Network\<close>
    (\<^verbatim>\<open>rr_network.c\<close>): which descriptors opening a listening socket leaves open. \<open>Rr_Malloc\<close> (\<^verbatim>\<open>rr_malloc.c\<close>): the memory in use is accounted for exactly.
    \<open>Glob\<close> (\<^verbatim>\<open>stringmatchlen\<close> of \<^verbatim>\<open>util.c\<close>): patterns without classes are decided correctly.

  \<^bold>\<open>How the levels fit.\<close> The strings of \<open>Robj\<close> and above are the byte strings that \<open>Sds\<close> shows its blocks to denote, and the lists of
    clients and replies are the lists that \<open>Adlist\<close> shows its nodes to stand for. The keyspace theories release a
    large object in one step (\<open>bgt_step\<close>); \<open>Bgtask\<close> shows that the thread makes exactly these steps in their order.

  \<^bold>\<open>Parameters.\<close> System calls, the clock and the allocator (the records \<open>os\<close> of \<open>Rr_Event\<close>, \<open>env\<close> of \<open>Server\<close>, \<open>net_os\<close> of \<open>Network\<close>, \<open>allocator\<close> of \<open>Rr_Malloc\<close>), the callbacks of the event loop, the
  handler of the INI reader, the arithmetic of \<^verbatim>\<open>double\<close> (the record \<open>floats\<close>; theorems ask of it only that comparison is
  a linear order), and whether a file can be opened. What is relied on is a named hypothesis (\<open>epoll_documented\<close>, \<open>net_documented\<close>, \<open>alloc_documented\<close>).

  \<^bold>\<open>Bounds and fuel.\<close> \<open>decrRefCount\<close> recurses through an aggregate into strings, so two levels of fuel are always enough; its lemmas
  show that it never runs out. Loops with a counter in the code recurse on the counter. The loops
  over the requests of a client, over an iterator and of the event loop are \<open>partial_function (option)\<close>, where \<open>None\<close> is not
  returning; the first two are proved to return, the last one ends only when the server is stopped. Heaps and
  arrays have fewer than \<open>2 ^ 31\<close> elements, since the code casts their lengths to \<^verbatim>\<open>int\<close>; the
  size \<open>ks_size\<close> of a keyspace is below \<open>2 ^ 31\<close>, since a reference count is an \<^verbatim>\<open>int\<close>; lists are shorter than \<open>2 ^ 64\<close>.

  \<^bold>\<open>Not modelled.\<close> The size of physical memory, the log (\<^verbatim>\<open>rr_logging.c\<close>), signals, the pid file,
  the back end for BSD (\<^verbatim>\<open>rr_kqueue.c\<close>), the texts of usage and version, formatted output through \<^verbatim>\<open>vsnprintf\<close>, conversions between \<^verbatim>\<open>long double\<close>
  and text: they only call the system or the C library. Functions that only release memory have no counterpart where values are
  HOL values; in \<open>Robj\<close>, \<open>Adlist\<close> and \<open>Bgtask\<close>, where memory is explicit, they do. \<^verbatim>\<open>pthread_cancel\<close> stops a thread at an arbitrary
  instruction, below the steps of \<open>Bgtask\<close>. Running out of memory aborts the program, so outside \<open>Rr_Malloc\<close> allocation does not fail.
\<close>

end
